(* ===== verification/Prelude.thy ===== *)
theory Prelude
  imports Main "HOL-Library.Word" "HOL-Library.Monad_Syntax"
begin

text \<open>
  Shared vocabulary of the development: the machine integers of the C source, the
  collections of simplification rules the components extend, and the generic facts on
  folds, lists and relations that several components use.

  A C counting loop \<open>for (i = lo; i < hi; i++)\<close> without an early exit is modelled as
  \<open>fold body [lo..<hi]\<close>; \<open>fold_inv\<close> and \<open>fold_upt_inv\<close> are its invariant rules.
\<close>

unbundle bit_operations_syntax

section \<open>Machine integers\<close>

type_synonym u8 = "8 word"
type_synonym u32 = "32 word"
type_synonym u64 = "64 word"

text \<open>
  \<open>imm_int\<close> is the implicit conversion from \<open>int64_t\<close> to \<open>int\<close> (two's complement
  truncation to 32 bits), which the source applies wherever it reads a label id out of
  \<open>inst->imm\<close>.
\<close>

definition imm_int :: "u64 \<Rightarrow> int" where
  "imm_int x = sint (ucast x :: u32)"

definition int_imm :: "int \<Rightarrow> u64" where
  "int_imm x = word_of_int x"

named_theorems loop_simps "unfolding rules of the loop bodies"
named_theorems wf_intros "introduction rules for the well-formedness invariants"

section \<open>Folds as loops\<close>

lemma fold_inv:
  assumes "P s" and "\<And>x s. x \<in> set xs \<Longrightarrow> P s \<Longrightarrow> P (f x s)"
  shows "P (fold f xs s)"
  using assms by (induction xs arbitrary: s) auto

lemma fold_upt_inv:
  assumes "lo \<le> hi" and "P lo s"
    and "\<And>i s. lo \<le> i \<Longrightarrow> i < hi \<Longrightarrow> P i s \<Longrightarrow> P (Suc i) (f i s)"
  shows "P hi (fold f [lo..<hi] s)"
  using assms
proof (induction hi)
  case 0
  then show ?case by simp
next
  case (Suc hi)
  show ?case
  proof (cases "lo \<le> hi")
    case True
    with Suc have "P hi (fold f [lo..<hi] s)" by simp
    with True Suc.prems(3) show ?thesis by simp
  next
    case False
    with Suc.prems(1) have "lo = Suc hi" by simp
    with Suc.prems(2) show ?thesis by simp
  qed
qed

lemma fold_rev_upt_inv:
  assumes "lo \<le> hi" and "P hi s"
    and "\<And>i s. lo \<le> i \<Longrightarrow> i < hi \<Longrightarrow> P (Suc i) s \<Longrightarrow> P i (f i s)"
  shows "P lo (fold f (rev [lo..<hi]) s)"
  using assms
proof (induction hi arbitrary: s)
  case (Suc hi)
  show ?case
  proof (cases "lo \<le> hi")
    case True
    with Suc.prems have "P hi (f hi s)" by simp
    with True Suc.IH[of "f hi s"] Suc.prems(3) show ?thesis by simp
  next
    case False
    with Suc.prems(1) have "lo = Suc hi" by simp
    with Suc.prems(2) show ?thesis by simp
  qed
qed simp

lemma fold_upt_measure_inv:
  "fold f [0..<n] s = s" if "\<And>i s. i < n \<Longrightarrow> f i s = s"
proof -
  have "fold f [0..<k] s = s" if "k \<le> n" for k
    using that \<open>\<And>i s. i < n \<Longrightarrow> f i s = s\<close> by (induction k) auto
  then show ?thesis by blast
qed

section \<open>Lists\<close>

text \<open>The index of the first element with a property, as the linear searches compute it.\<close>

fun find_index :: "('a \<Rightarrow> bool) \<Rightarrow> 'a list \<Rightarrow> nat option" where
  "find_index P [] = None"
| "find_index P (x # xs) = (if P x then Some 0 else map_option Suc (find_index P xs))"

lemma find_index_SomeD:
  "find_index P xs = Some i \<Longrightarrow> i < length xs \<and> P (xs ! i) \<and> (\<forall>j<i. \<not> P (xs ! j))"
proof (induction xs arbitrary: i)
  case (Cons x xs)
  show ?case
  proof (cases "P x")
    case False
    with Cons.prems obtain k where k: "find_index P xs = Some k" "i = Suc k" by auto
    have "\<not> P ((x # xs) ! j)" if "j < i" for j
      using that False Cons.IH[OF k(1)] k(2) by (cases j) auto
    with k Cons.IH[OF k(1)] show ?thesis by simp
  qed (use Cons.prems in auto)
qed simp

lemma find_index_None_iff: "find_index P xs = None \<longleftrightarrow> (\<forall>x\<in>set xs. \<not> P x)"
  by (induction xs) auto

lemma find_index_bound: "find_index P xs = Some i \<Longrightarrow> i < length xs"
  by (blast dest: find_index_SomeD)

lemma find_index_ex:
  "k < length xs \<Longrightarrow> P (xs ! k) \<Longrightarrow> \<exists>i\<le>k. find_index P xs = Some i"
proof (induction xs arbitrary: k)
  case (Cons x xs)
  show ?case
  proof (cases "P x")
    case False
    with Cons.prems obtain k' where k': "k = Suc k'" "k' < length xs" "P (xs ! k')"
      by (cases k) auto
    from Cons.IH[OF k'(2,3)] obtain i where "i \<le> k'" "find_index P xs = Some i" by blast
    with False k'(1) show ?thesis by auto
  qed auto
qed simp

text \<open>An optional value as a list.\<close>

fun opt_list :: "'a option \<Rightarrow> 'a list" where
  "opt_list None = []"
| "opt_list (Some x) = [x]"

lemma set_opt_list [simp]: "x \<in> set (opt_list r) \<longleftrightarrow> r = Some x"
  by (cases r) auto

text \<open>Adding an element at the end unless it is there: the C arrays used as small sets.\<close>

definition add_unique :: "'a \<Rightarrow> 'a list \<Rightarrow> 'a list" where
  "add_unique x xs = (if x \<in> set xs then xs else xs @ [x])"

lemma set_add_unique [simp]: "set (add_unique x xs) = insert x (set xs)"
  by (auto simp: add_unique_def)

lemma distinct_add_unique [simp]: "distinct (add_unique x xs) = distinct xs"
  by (auto simp: add_unique_def)

text \<open>\<open>later xs x y\<close>: in a list without repetition, \<open>y\<close> stands after \<open>x\<close>.\<close>

definition later :: "'a list \<Rightarrow> 'a \<Rightarrow> 'a \<Rightarrow> bool" where
  "later xs x y \<longleftrightarrow> (\<exists>us vs. xs = us @ x # vs \<and> y \<in> set vs)"

lemma later_insert: "later (us @ vs) x y \<Longrightarrow> later (us @ z # vs) x y"
  unfolding later_def
proof (elim exE conjE)
  fix as bs assume eq: "us @ vs = as @ x # bs" and y: "y \<in> set bs"
  from eq consider ws where "us = as @ x # ws" "bs = ws @ vs"
    | ws where "as = us @ ws" "vs = ws @ x # bs"
    by (auto simp: append_eq_append_conv2 append_eq_Cons_conv Cons_eq_append_conv)
  then show "\<exists>as bs. us @ z # vs = as @ x # bs \<and> y \<in> set bs"
  proof cases
    case 1
    with y have "us @ z # vs = as @ x # (ws @ z # vs)" "y \<in> set (ws @ z # vs)" by auto
    then show ?thesis by blast
  next
    case 2
    with y have "us @ z # vs = (us @ z # ws) @ x # bs" by simp
    with y show ?thesis by blast
  qed
qed

lemma later_here: "y \<in> set vs \<Longrightarrow> later (us @ x # vs) x y"
  unfolding later_def by blast

lemma later_nth:
  assumes "later xs x y"
  obtains i j where "i < j" "j < length xs" "xs ! i = x" "xs ! j = y"
proof -
  from assms obtain us vs where eq: "xs = us @ x # vs" and y: "y \<in> set vs"
    by (auto simp: later_def)
  from y obtain k where k: "k < length vs" "vs ! k = y" by (auto simp: in_set_conv_nth)
  show thesis
    by (rule that[of "length us" "length us + Suc k"]) (use eq k in \<open>auto simp: nth_append\<close>)
qed

end
