(* ===== verification/IR.thy ===== *)
theory IR
  imports Prelude
begin

text \<open>
  The intermediate representation of \<open>include/fakecc/ir.h\<close>: opcodes, instructions,
  debug variables and functions, and the register-allocation result of
  \<open>include/fakecc/regalloc.h\<close> that a function carries.

  SSA ids, labels and the other C \<open>int\<close> fields are \<open>int\<close>; the source keeps them far
  below \<open>2^31\<close> (an id is handed out per emitted instruction), so no wrap-around is modelled
  for them.  \<open>imm\<close> and \<open>float_imm\<close>, on which the folder computes, are 64-bit words.
  A heap array with its length (\<open>call_args\<close> and \<open>call_nargs\<close>, the three per-value metadata
  arrays and \<open>value_meta_cap\<close>) is a list; a \<open>NULL\<close> array is the empty list.
\<close>

section \<open>Opcodes\<close>

datatype (plugins only: code size) ir_op =
    IR_CONST | IR_ADD | IR_SUB | IR_MUL | IR_UMULH | IR_ADDO
  | IR_SUBO | IR_MULO | IR_DIV | IR_MOD | IR_NEG | IR_BAND
  | IR_BOR | IR_BXOR | IR_BNOT | IR_SHL | IR_SHR | IR_ROL
  | IR_EQ | IR_NE | IR_FADD | IR_FSUB | IR_FMUL | IR_FDIV
  | IR_FCMP | IR_VADD | IR_VSUB | IR_VMUL | IR_VDIV | IR_VBAND
  | IR_VBOR | IR_VBXOR | IR_SITOFP | IR_FPTOSI | IR_FPEXT | IR_FPTRUNC
  | IR_LT | IR_LE | IR_GT | IR_GE | IR_ALLOCA | IR_LOAD
  | IR_STORE | IR_ADDR | IR_LOAD_PTR | IR_STORE_PTR | IR_COPY | IR_LABEL
  | IR_BR | IR_CBR | IR_BR_TABLE | IR_PARAM | IR_CALL | IR_RETURN
  | IR_SEXT | IR_ZEXT | IR_TRUNC | IR_GADDR | IR_GADDR_TLS | IR_FADDR
  | IR_LADDR | IR_JMP_PTR | IR_FRAME_ADDR | IR_RETURN_ADDR | IR_DYN_ALLOCA | IR_STACK_SAVE
  | IR_STACK_RESTORE | IR_LONGJMP | IR_DBG_VALUE | IR_ASM

section \<open>Instructions\<close>

record source_loc =
  loc_file :: "string option"
  loc_line :: int
  loc_col :: int

definition no_loc :: source_loc where
  "no_loc = \<lparr>loc_file = None, loc_line = 0, loc_col = 0\<rparr>"

record ir_inst =
  i_op :: ir_op
  i_dst :: int
  i_a :: int
  i_b :: int
  i_c :: int
  i_d :: int
  i_imm :: u64
  i_loc :: source_loc
  i_call_name :: "string option"
  i_call_args :: "int list"
  i_call_is_variadic :: int
  i_call_callee :: int
  i_width :: int
  i_is_unsigned :: int
  i_float_imm :: u64
  i_is_float :: int
  i_force_stack :: int
  i_align16 :: int
  i_x87_pair :: int
  i_call_arg_on_stack :: "int list"
  i_call_arg_nbytes :: "int list"
  i_alloca_bytes :: int
  i_is_volatile :: int
  i_asm_constraints :: "string list"
  i_asm_clobbers :: "string option"

text \<open>
  \<open>zero_inst\<close> is what \<open>memset(&inst, 0, sizeof(inst))\<close> leaves: every field zero, so the
  opcode is the first constant of the enumeration and the operands are SSA value 0.
\<close>

definition zero_inst :: ir_inst where
  "zero_inst = \<lparr>i_op = IR_CONST, i_dst = 0, i_a = 0, i_b = 0, i_c = 0, i_d = 0, i_imm = 0,
     i_loc = no_loc, i_call_name = None, i_call_args = [], i_call_is_variadic = 0,
     i_call_callee = 0, i_width = 0, i_is_unsigned = 0, i_float_imm = 0, i_is_float = 0,
     i_force_stack = 0, i_align16 = 0, i_x87_pair = 0, i_call_arg_on_stack = [],
     i_call_arg_nbytes = [], i_alloca_bytes = 0, i_is_volatile = 0, i_asm_constraints = [],
     i_asm_clobbers = None\<rparr>"

text \<open>\<open>mk_inst\<close> is only used to write examples: the fields the emit helpers set.\<close>

definition mk_inst :: "ir_op \<Rightarrow> int \<Rightarrow> int \<Rightarrow> int \<Rightarrow> int \<Rightarrow> int \<Rightarrow> ir_inst" where
  "mk_inst opc d x y w v = zero_inst\<lparr>i_op := opc, i_dst := d, i_a := x, i_b := y, i_c := -1,
     i_d := -1, i_call_callee := -1, i_width := w, i_imm := word_of_int v\<rparr>"

section \<open>Functions\<close>

datatype dbg_var_kind = IR_DBG_PARAM | IR_DBG_LOCAL

record ir_debug_var =
  dv_name :: string
  dv_kind :: dbg_var_kind
  dv_alloca_ssa :: int
  dv_param_idx :: int

text \<open>
  \<open>RAResult\<close>: the register of every value (\<open>REG_NONE = -1\<close> or the spill mark \<open>-2\<close> when it has
  none) and its spill slot.
\<close>

record ra_result =
  ra_reg :: "int list"
  ra_spill_slot :: "int list"
  ra_num_spill_slots :: int
  ra_num_values :: int
  ra_stack_size :: int

record ir_function =
  fn_name :: string
  fn_insts :: "ir_inst list"
  fn_next_value_id :: int
  fn_next_label_id :: int
  fn_ra :: "ra_result option"
  fn_ra_xmm :: "ra_result option"
  fn_value_width :: "int list"
  fn_value_is_unsigned :: "int list"
  fn_value_is_float :: "int list"
  fn_dbg_vars :: "ir_debug_var list"

text \<open>\<open>value_meta_cap\<close>: the common length of the three metadata arrays.\<close>

definition fn_value_meta_cap :: "ir_function \<Rightarrow> int" where
  "fn_value_meta_cap fn = int (length (fn_value_width fn))"

text \<open>An array read at a C index; \<open>d\<close> stands for the out-of-range read the callers exclude.\<close>

definition arr_get :: "'a \<Rightarrow> 'a list \<Rightarrow> int \<Rightarrow> 'a" where
  "arr_get d xs v = (if 0 \<le> v \<and> nat v < length xs then xs ! nat v else d)"

definition arr_set :: "'a list \<Rightarrow> int \<Rightarrow> 'a \<Rightarrow> 'a list" where
  "arr_set xs v x = (if 0 \<le> v then xs[nat v := x] else xs)"

lemma length_arr_set [simp]: "length (arr_set xs v x) = length xs"
  by (simp add: arr_set_def)

lemma arr_get_set_same [simp]:
  "0 \<le> v \<Longrightarrow> nat v < length xs \<Longrightarrow> arr_get d (arr_set xs v x) v = x"
  by (simp add: arr_get_def arr_set_def)

lemma arr_get_set_other [simp]:
  "v \<noteq> w \<Longrightarrow> 0 \<le> w \<Longrightarrow> arr_get d (arr_set xs v x) w = arr_get d xs w"
  by (auto simp: arr_get_def arr_set_def nth_list_update)

section \<open>Opcode classes\<close>

text \<open>Instructions that end a basic block.\<close>

definition is_terminator :: "ir_op \<Rightarrow> bool" where
  "is_terminator opc \<longleftrightarrow>
     opc = IR_BR \<or> opc = IR_CBR \<or> opc = IR_BR_TABLE \<or> opc = IR_JMP_PTR \<or> opc = IR_RETURN"

text \<open>\<open>ir_op_with_overflow\<close>: \<open>c\<close> is a second SSA definition (the overflow flag).\<close>

definition ir_op_with_overflow :: "ir_op \<Rightarrow> bool" where
  "ir_op_with_overflow opc \<longleftrightarrow> opc = IR_ADDO \<or> opc = IR_SUBO \<or> opc = IR_MULO"

text \<open>Vector operations store through \<open>dst\<close>: it is an address they use, not a value they define.\<close>

definition ir_op_vec_store :: "ir_op \<Rightarrow> bool" where
  "ir_op_vec_store opc \<longleftrightarrow> opc = IR_VADD \<or> opc = IR_VSUB \<or> opc = IR_VMUL \<or> opc = IR_VDIV
     \<or> opc = IR_VBAND \<or> opc = IR_VBOR \<or> opc = IR_VBXOR"

end
