(* ===== verification/Operands.thy ===== *)
theory Operands
  imports IR
begin

text \<open>
  What the fields of an instruction mean, opcode by opcode, written from the opcode list and the
  field comments of \<open>include/fakecc/ir.h\<close> and not from any pass: which fields hold values the
  instruction reads, which hold the values it defines, and which opcodes do more than define a value.
  These tables are the specification against which the uses, definitions and side effects of the
  individual passes (dead code, renumbering, liveness, interference, register allocation,
  promotion) are judged; no function of the compiler is written with them.

  Where \<open>ir.h\<close> is terse: a call also reads \<open>a\<close>, the address its aggregate result goes to, and
  defines \<open>dst\<close>, \<open>b\<close>, \<open>c\<close>, \<open>d\<close>, the eightbytes of a result that comes back in registers; a return
  reads \<open>a\<close> to \<open>d\<close>; an indirect call reads \<open>call_callee\<close>.  The vector operations read all three
  fields, \<open>dst\<close> being the address they store through.  \<open>b\<close> of a \<open>CBR\<close> and the arguments of a
  \<open>BR_TABLE\<close> are labels.  \<open>a\<close> of a debug marker is no read.
\<close>

section \<open>The tables\<close>

datatype (plugins only: code size) field = F_dst | F_a | F_b | F_c | F_d | F_callee | F_args

primrec field_values :: "ir_inst \<Rightarrow> field \<Rightarrow> int list" where
    "field_values x F_dst = [i_dst x]"
  | "field_values x F_a = [i_a x]"
  | "field_values x F_b = [i_b x]"
  | "field_values x F_c = [i_c x]"
  | "field_values x F_d = [i_d x]"
  | "field_values x F_callee = [i_call_callee x]"
  | "field_values x F_args = i_call_args x"

primrec read_fields :: "ir_op \<Rightarrow> field list" where
    "read_fields IR_CONST = []" | "read_fields IR_ADD = [F_a, F_b]"
  | "read_fields IR_SUB = [F_a, F_b]" | "read_fields IR_MUL = [F_a, F_b]"
  | "read_fields IR_UMULH = [F_a, F_b]" | "read_fields IR_ADDO = [F_a, F_b]"
  | "read_fields IR_SUBO = [F_a, F_b]" | "read_fields IR_MULO = [F_a, F_b]"
  | "read_fields IR_DIV = [F_a, F_b]" | "read_fields IR_MOD = [F_a, F_b]"
  | "read_fields IR_NEG = [F_a]" | "read_fields IR_BAND = [F_a, F_b]"
  | "read_fields IR_BOR = [F_a, F_b]" | "read_fields IR_BXOR = [F_a, F_b]"
  | "read_fields IR_BNOT = [F_a]" | "read_fields IR_SHL = [F_a, F_b]"
  | "read_fields IR_SHR = [F_a, F_b]" | "read_fields IR_ROL = [F_a, F_b]"
  | "read_fields IR_EQ = [F_a, F_b]" | "read_fields IR_NE = [F_a, F_b]"
  | "read_fields IR_FADD = [F_a, F_b]" | "read_fields IR_FSUB = [F_a, F_b]"
  | "read_fields IR_FMUL = [F_a, F_b]" | "read_fields IR_FDIV = [F_a, F_b]"
  | "read_fields IR_FCMP = [F_a, F_b]" | "read_fields IR_VADD = [F_dst, F_a, F_b]"
  | "read_fields IR_VSUB = [F_dst, F_a, F_b]" | "read_fields IR_VMUL = [F_dst, F_a, F_b]"
  | "read_fields IR_VDIV = [F_dst, F_a, F_b]" | "read_fields IR_VBAND = [F_dst, F_a, F_b]"
  | "read_fields IR_VBOR = [F_dst, F_a, F_b]" | "read_fields IR_VBXOR = [F_dst, F_a, F_b]"
  | "read_fields IR_SITOFP = [F_a]" | "read_fields IR_FPTOSI = [F_a]"
  | "read_fields IR_FPEXT = [F_a]" | "read_fields IR_FPTRUNC = [F_a]"
  | "read_fields IR_LT = [F_a, F_b]" | "read_fields IR_LE = [F_a, F_b]"
  | "read_fields IR_GT = [F_a, F_b]" | "read_fields IR_GE = [F_a, F_b]"
  | "read_fields IR_ALLOCA = []" | "read_fields IR_LOAD = [F_a]"
  | "read_fields IR_STORE = [F_a, F_b]" | "read_fields IR_ADDR = [F_a]"
  | "read_fields IR_LOAD_PTR = [F_a]" | "read_fields IR_STORE_PTR = [F_a, F_b]"
  | "read_fields IR_COPY = [F_a]" | "read_fields IR_LABEL = []"
  | "read_fields IR_BR = []" | "read_fields IR_CBR = [F_a]"
  | "read_fields IR_BR_TABLE = [F_a]" | "read_fields IR_PARAM = []"
  | "read_fields IR_CALL = [F_a, F_args, F_callee]" | "read_fields IR_RETURN = [F_a, F_b, F_c, F_d]"
  | "read_fields IR_SEXT = [F_a]" | "read_fields IR_ZEXT = [F_a]"
  | "read_fields IR_TRUNC = [F_a]" | "read_fields IR_GADDR = []"
  | "read_fields IR_GADDR_TLS = []" | "read_fields IR_FADDR = []"
  | "read_fields IR_LADDR = []" | "read_fields IR_JMP_PTR = [F_a]"
  | "read_fields IR_FRAME_ADDR = []" | "read_fields IR_RETURN_ADDR = []"
  | "read_fields IR_DYN_ALLOCA = [F_a]" | "read_fields IR_STACK_SAVE = []"
  | "read_fields IR_STACK_RESTORE = [F_a]" | "read_fields IR_LONGJMP = [F_a]"
  | "read_fields IR_DBG_VALUE = []" | "read_fields IR_ASM = [F_args]"

primrec result_fields :: "ir_op \<Rightarrow> field list" where
    "result_fields IR_CONST = [F_dst]" | "result_fields IR_ADD = [F_dst]"
  | "result_fields IR_SUB = [F_dst]" | "result_fields IR_MUL = [F_dst]"
  | "result_fields IR_UMULH = [F_dst]" | "result_fields IR_ADDO = [F_dst, F_c]"
  | "result_fields IR_SUBO = [F_dst, F_c]" | "result_fields IR_MULO = [F_dst, F_c]"
  | "result_fields IR_DIV = [F_dst]" | "result_fields IR_MOD = [F_dst]"
  | "result_fields IR_NEG = [F_dst]" | "result_fields IR_BAND = [F_dst]"
  | "result_fields IR_BOR = [F_dst]" | "result_fields IR_BXOR = [F_dst]"
  | "result_fields IR_BNOT = [F_dst]" | "result_fields IR_SHL = [F_dst]"
  | "result_fields IR_SHR = [F_dst]" | "result_fields IR_ROL = [F_dst]"
  | "result_fields IR_EQ = [F_dst]" | "result_fields IR_NE = [F_dst]"
  | "result_fields IR_FADD = [F_dst]" | "result_fields IR_FSUB = [F_dst]"
  | "result_fields IR_FMUL = [F_dst]" | "result_fields IR_FDIV = [F_dst]"
  | "result_fields IR_FCMP = [F_dst]" | "result_fields IR_VADD = []"
  | "result_fields IR_VSUB = []" | "result_fields IR_VMUL = []"
  | "result_fields IR_VDIV = []" | "result_fields IR_VBAND = []"
  | "result_fields IR_VBOR = []" | "result_fields IR_VBXOR = []"
  | "result_fields IR_SITOFP = [F_dst]" | "result_fields IR_FPTOSI = [F_dst]"
  | "result_fields IR_FPEXT = [F_dst]" | "result_fields IR_FPTRUNC = [F_dst]"
  | "result_fields IR_LT = [F_dst]" | "result_fields IR_LE = [F_dst]"
  | "result_fields IR_GT = [F_dst]" | "result_fields IR_GE = [F_dst]"
  | "result_fields IR_ALLOCA = [F_dst]" | "result_fields IR_LOAD = [F_dst]"
  | "result_fields IR_STORE = []" | "result_fields IR_ADDR = [F_dst]"
  | "result_fields IR_LOAD_PTR = [F_dst]" | "result_fields IR_STORE_PTR = []"
  | "result_fields IR_COPY = [F_dst]" | "result_fields IR_LABEL = []"
  | "result_fields IR_BR = []" | "result_fields IR_CBR = []"
  | "result_fields IR_BR_TABLE = []" | "result_fields IR_PARAM = [F_dst]"
  | "result_fields IR_CALL = [F_dst, F_b, F_c, F_d]" | "result_fields IR_RETURN = []"
  | "result_fields IR_SEXT = [F_dst]" | "result_fields IR_ZEXT = [F_dst]"
  | "result_fields IR_TRUNC = [F_dst]" | "result_fields IR_GADDR = [F_dst]"
  | "result_fields IR_GADDR_TLS = [F_dst]" | "result_fields IR_FADDR = [F_dst]"
  | "result_fields IR_LADDR = [F_dst]" | "result_fields IR_JMP_PTR = []"
  | "result_fields IR_FRAME_ADDR = [F_dst]" | "result_fields IR_RETURN_ADDR = [F_dst]"
  | "result_fields IR_DYN_ALLOCA = [F_dst]" | "result_fields IR_STACK_SAVE = [F_dst]"
  | "result_fields IR_STACK_RESTORE = []" | "result_fields IR_LONGJMP = []"
  | "result_fields IR_DBG_VALUE = []" | "result_fields IR_ASM = []"

text \<open>
  The opcodes with an effect besides the values they define: they write memory, transfer control or
  are the target of a transfer, move the stack pointer back, call or run foreign code, or stand for a
  parameter or a stack slot of the function.
\<close>

primrec has_effect :: "ir_op \<Rightarrow> bool" where
    "has_effect IR_CONST = False" | "has_effect IR_ADD = False"
  | "has_effect IR_SUB = False" | "has_effect IR_MUL = False"
  | "has_effect IR_UMULH = False" | "has_effect IR_ADDO = False"
  | "has_effect IR_SUBO = False" | "has_effect IR_MULO = False"
  | "has_effect IR_DIV = False" | "has_effect IR_MOD = False"
  | "has_effect IR_NEG = False" | "has_effect IR_BAND = False"
  | "has_effect IR_BOR = False" | "has_effect IR_BXOR = False"
  | "has_effect IR_BNOT = False" | "has_effect IR_SHL = False"
  | "has_effect IR_SHR = False" | "has_effect IR_ROL = False"
  | "has_effect IR_EQ = False" | "has_effect IR_NE = False"
  | "has_effect IR_FADD = False" | "has_effect IR_FSUB = False"
  | "has_effect IR_FMUL = False" | "has_effect IR_FDIV = False"
  | "has_effect IR_FCMP = False" | "has_effect IR_VADD = True"
  | "has_effect IR_VSUB = True" | "has_effect IR_VMUL = True"
  | "has_effect IR_VDIV = True" | "has_effect IR_VBAND = True"
  | "has_effect IR_VBOR = True" | "has_effect IR_VBXOR = True"
  | "has_effect IR_SITOFP = False" | "has_effect IR_FPTOSI = False"
  | "has_effect IR_FPEXT = False" | "has_effect IR_FPTRUNC = False"
  | "has_effect IR_LT = False" | "has_effect IR_LE = False"
  | "has_effect IR_GT = False" | "has_effect IR_GE = False"
  | "has_effect IR_ALLOCA = True" | "has_effect IR_LOAD = False"
  | "has_effect IR_STORE = True" | "has_effect IR_ADDR = False"
  | "has_effect IR_LOAD_PTR = False" | "has_effect IR_STORE_PTR = True"
  | "has_effect IR_COPY = False" | "has_effect IR_LABEL = True"
  | "has_effect IR_BR = True" | "has_effect IR_CBR = True"
  | "has_effect IR_BR_TABLE = True" | "has_effect IR_PARAM = True"
  | "has_effect IR_CALL = True" | "has_effect IR_RETURN = True"
  | "has_effect IR_SEXT = False" | "has_effect IR_ZEXT = False"
  | "has_effect IR_TRUNC = False" | "has_effect IR_GADDR = False"
  | "has_effect IR_GADDR_TLS = False" | "has_effect IR_FADDR = False"
  | "has_effect IR_LADDR = False" | "has_effect IR_JMP_PTR = True"
  | "has_effect IR_FRAME_ADDR = False" | "has_effect IR_RETURN_ADDR = False"
  | "has_effect IR_DYN_ALLOCA = False" | "has_effect IR_STACK_SAVE = False"
  | "has_effect IR_STACK_RESTORE = True" | "has_effect IR_LONGJMP = True"
  | "has_effect IR_DBG_VALUE = False" | "has_effect IR_ASM = True"

definition ir_reads :: "ir_inst \<Rightarrow> int list" where
  "ir_reads x = concat (map (field_values x) (read_fields (i_op x)))"

definition ir_results :: "ir_inst \<Rightarrow> int list" where
  "ir_results x = concat (map (field_values x) (result_fields (i_op x)))"

text \<open>
  A well-formed instruction: the fields \<open>dst\<close>, \<open>a\<close> and \<open>b\<close> hold no value where the opcode has none
  (``fill -1''; \<open>b\<close> of a \<open>CBR\<close> is a label and \<open>a\<close> of a debug marker no read), nor do \<open>d\<close> of the overflow operations and \<open>c\<close> and \<open>d\<close> of inline
  assembly, and a call has at most \<open>IR_CALL_MAX_ARGS\<close> arguments.
\<close>

definition ir_wf :: "ir_inst \<Rightarrow> bool" where
  "ir_wf x \<longleftrightarrow>
     (F_dst \<in> set (read_fields (i_op x) @ result_fields (i_op x)) \<or> i_dst x < 0) \<and>
     (F_a \<in> set (read_fields (i_op x)) \<or> i_a x < 0 \<or> i_op x = IR_DBG_VALUE) \<and>
     (F_b \<in> set (read_fields (i_op x) @ result_fields (i_op x)) \<or> i_b x < 0 \<or> i_op x = IR_CBR) \<and>
     (i_op x = IR_ASM \<longrightarrow> i_c x < 0) \<and>
     (ir_op_with_overflow (i_op x) \<or> i_op x = IR_ASM \<longrightarrow> i_d x < 0) \<and>
     (F_args \<in> set (read_fields (i_op x)) \<longrightarrow> length (i_call_args x) \<le> 1024)"

definition ir_code_wf :: "ir_function \<Rightarrow> bool" where
  "ir_code_wf fn \<longleftrightarrow> list_all ir_wf (fn_insts fn)"

text \<open>\<open>v\<close> is the callee of no indirect call; a plain value is an id of the function that is none.\<close>

definition no_callee :: "ir_function \<Rightarrow> int \<Rightarrow> bool" where
  "no_callee fn v \<longleftrightarrow> list_all (\<lambda>x. i_op x = IR_CALL \<longrightarrow> i_call_callee x \<noteq> v) (fn_insts fn)"

definition plain_value :: "ir_function \<Rightarrow> nat \<Rightarrow> bool" where
  "plain_value fn v \<longleftrightarrow> v < nat (fn_next_value_id fn) \<and> no_callee fn (int v)"

lemmas operand_defs = ir_reads_def ir_results_def ir_wf_def

lemma ir_code_wfD: "ir_code_wf fn \<Longrightarrow> k < length (fn_insts fn) \<Longrightarrow> ir_wf (fn_insts fn ! k)"
  by (simp add: ir_code_wf_def list_all_length)

lemma no_calleeD:
  "no_callee fn v \<Longrightarrow> k < length (fn_insts fn) \<Longrightarrow> i_op (fn_insts fn ! k) = IR_CALL \<Longrightarrow>
     i_call_callee (fn_insts fn ! k) \<noteq> v"
  by (simp add: no_callee_def list_all_length)

lemma vec_store_tables:
  "ir_op_vec_store opc \<Longrightarrow> read_fields opc = [F_dst, F_a, F_b] \<and> result_fields opc = [] \<and> has_effect opc"
  by (auto simp: ir_op_vec_store_def)

lemma overflow_tables:
  "ir_op_with_overflow opc \<Longrightarrow> read_fields opc = [F_a, F_b] \<and> result_fields opc = [F_dst, F_c]"
  by (auto simp: ir_op_with_overflow_def)

end
