(* ===== verification/ScalarOpt.thy ===== *)
theory ScalarOpt
  imports Operands "HOL-Library.Signed_Division"
begin

text \<open>
  \<open>src/scalar_opt.c\<close>: constant folding, peephole simplification, dead-code elimination, value
  renumbering and the clean-up loop over them.  The passes that rewrite each instruction in place
  from the constant cache built beforehand are maps over the instruction list.  The abstract
  specification is integer arithmetic: \<open>eval_int\<close> gives the mathematical result of an integer
  instruction at its width, independently of how the folder computes it on 64-bit words.
\<close>

section \<open>The constant cache\<close>

text \<open>An entry is \<open>None\<close> where the C array \<open>valid\<close> is 0.\<close>

type_synonym const_cache = "u64 option list"

definition const_cache_add :: "ir_inst \<Rightarrow> const_cache \<Rightarrow> const_cache" where
  "const_cache_add inst c =
     (if i_op inst = IR_CONST \<and> i_is_float inst = 0 \<and> 0 \<le> i_dst inst \<and> i_dst inst < int (length c)
      then arr_set c (i_dst inst) (Some (i_imm inst)) else c)"

definition const_cache_build :: "ir_function \<Rightarrow> const_cache" where
  "const_cache_build fn =
     (let cap = (if fn_next_value_id fn \<le> 0 then 1 else fn_next_value_id fn)
      in fold const_cache_add (fn_insts fn) (replicate (nat cap) None))"

definition const_cache_lookup :: "const_cache \<Rightarrow> int \<Rightarrow> u64 option" where
  "const_cache_lookup c v = (if 0 \<le> v \<and> v < int (length c) then c ! nat v else None)"

section \<open>Folding\<close>

definition trunc_to_width :: "u64 \<Rightarrow> int \<Rightarrow> bool \<Rightarrow> u64" where
  "trunc_to_width v width is_unsigned =
     (if width \<ge> 8 \<or> width \<le> 0 then v
      else
        let mask = (if width = 1 then 0xFF else if width = 2 then 0xFFFF else 0xFFFFFFFF);
            u = v AND mask
        in if is_unsigned then u
           else let sign = drop_bit 1 mask + 1
                in if u AND sign \<noteq> 0 then u OR (NOT mask) else u)"

definition inst_width :: "ir_inst \<Rightarrow> int" where
  "inst_width inst = (if i_width inst \<noteq> 0 then i_width inst else 4)"

definition inst_uns :: "ir_inst \<Rightarrow> bool" where
  "inst_uns inst \<longleftrightarrow> i_is_unsigned inst \<noteq> 0"

definition is_fold_binop :: "ir_op \<Rightarrow> bool" where
  "is_fold_binop opc \<longleftrightarrow> opc = IR_ADD \<or> opc = IR_SUB \<or> opc = IR_MUL \<or> opc = IR_DIV \<or> opc = IR_MOD
     \<or> opc = IR_BAND \<or> opc = IR_BOR \<or> opc = IR_BXOR \<or> opc = IR_SHL \<or> opc = IR_SHR \<or> opc = IR_ROL"

text \<open>
  The folded result of a binary operation on constants \<open>lv\<close> and \<open>rv\<close>; \<open>None\<close> where the C code
  leaves the instruction alone (a shift out of range, a zero divisor, a signed division by \<open>-1\<close>).
\<close>

definition fold_binop :: "ir_op \<Rightarrow> int \<Rightarrow> bool \<Rightarrow> u64 \<Rightarrow> u64 \<Rightarrow> u64 option" where
  "fold_binop opc w uns lv rv =
     (let lu = trunc_to_width lv w uns; ru = trunc_to_width rv w uns;
          ls = sint lu; rs = sint ru in
      if (opc = IR_SHL \<or> opc = IR_SHR \<or> opc = IR_ROL) \<and> (rs < 0 \<or> rs \<ge> w * 8) then None
      else map_option (\<lambda>result. trunc_to_width result w uns)
       (if opc = IR_ADD then Some (lu + ru)
        else if opc = IR_SUB then Some (lu - ru)
        else if opc = IR_MUL then Some (lu * ru)
        else if opc = IR_DIV then
          (if rs = 0 then None
           else if uns then Some (lu div ru)
           else if rs = -1 then None else Some (word_of_int (ls sdiv rs)))
        else if opc = IR_MOD then
          (if rs = 0 then None
           else if uns then Some (lu mod ru)
           else if rs = -1 then None else Some (word_of_int (ls smod rs)))
        else if opc = IR_BAND then Some (lu AND ru)
        else if opc = IR_BOR then Some (lu OR ru)
        else if opc = IR_BXOR then Some (lu XOR ru)
        else if opc = IR_SHL then Some (push_bit (nat rs) lu)
        else if opc = IR_SHR then
          Some (if uns then drop_bit (nat rs) lu else signed_drop_bit (nat rs) lu)
        else if opc = IR_ROL then
          (let bits = w * 8; sh = (if bits \<noteq> 0 then rs mod bits else 0)
           in Some (if sh \<noteq> 0 then push_bit (nat sh) lu OR drop_bit (nat (bits - sh)) lu else lu))
        else None))"

definition set_const :: "u64 \<Rightarrow> ir_inst \<Rightarrow> ir_inst" where
  "set_const v inst = inst\<lparr>i_op := IR_CONST, i_a := -1, i_b := -1, i_imm := v\<rparr>"

definition constfold_inst :: "const_cache \<Rightarrow> ir_inst \<Rightarrow> ir_inst \<times> bool" where
  "constfold_inst cc inst =
     (if is_fold_binop (i_op inst) then
        (case (const_cache_lookup cc (i_a inst), const_cache_lookup cc (i_b inst)) of
           (Some lv, Some rv) \<Rightarrow>
             if i_is_float inst \<noteq> 0 then (inst, False)
             else (case fold_binop (i_op inst) (inst_width inst) (inst_uns inst) lv rv of
                     None \<Rightarrow> (inst, False)
                   | Some v \<Rightarrow> (set_const v inst, True))
         | _ \<Rightarrow> (inst, False))
      else if i_op inst = IR_NEG \<or> i_op inst = IR_BNOT then
        (case const_cache_lookup cc (i_a inst) of
           None \<Rightarrow> (inst, False)
         | Some v \<Rightarrow>
             if i_is_float inst \<noteq> 0 then (inst, False)
             else
               let uv = trunc_to_width v (inst_width inst) (inst_uns inst);
                   r = (if i_op inst = IR_NEG then - uv else NOT uv)
               in (set_const (trunc_to_width r (inst_width inst) (inst_uns inst)) inst, True))
      else (inst, False))"

definition scalar_constfold :: "ir_function \<Rightarrow> ir_function \<times> bool" where
  "scalar_constfold fn =
     (let cc = const_cache_build fn; rs = map (constfold_inst cc) (fn_insts fn)
      in (fn\<lparr>fn_insts := map fst rs\<rparr>, list_ex snd rs))"

section \<open>Peephole\<close>

definition set_copy :: "int \<Rightarrow> ir_inst \<Rightarrow> ir_inst" where
  "set_copy v inst = inst\<lparr>i_op := IR_COPY, i_a := v, i_b := -1\<rparr>"

definition set_neg :: "int \<Rightarrow> ir_inst \<Rightarrow> ir_inst" where
  "set_neg v inst = inst\<lparr>i_op := IR_NEG, i_a := v, i_b := -1\<rparr>"

definition is_peep_op :: "ir_op \<Rightarrow> bool" where
  "is_peep_op opc \<longleftrightarrow> opc = IR_ADD \<or> opc = IR_SUB \<or> opc = IR_MUL \<or>
     opc = IR_BAND \<or> opc = IR_BOR \<or> opc = IR_BXOR"

definition peephole_inst :: "const_cache \<Rightarrow> ir_inst \<Rightarrow> ir_inst \<times> bool" where
  "peephole_inst cc inst =
     (if \<not> is_peep_op (i_op inst) then (inst, False)
      else if i_is_float inst \<noteq> 0 then (inst, False)
      else
        let l = const_cache_lookup cc (i_a inst); r = const_cache_lookup cc (i_b inst); opc = i_op inst in
        if 0 \<le> i_a inst \<and> i_a inst = i_b inst \<and> (opc = IR_SUB \<or> opc = IR_BXOR)
        then (set_const 0 inst, True)
        else if opc = IR_ADD then
          (if l = Some 0 then (set_copy (i_b inst) inst, True)
           else if r = Some 0 then (set_copy (i_a inst) inst, True) else (inst, False))
        else if opc = IR_SUB then
          (if r = Some 0 then (set_copy (i_a inst) inst, True)
           else if l = Some 0 then (set_neg (i_b inst) inst, True)
           else (inst, False))
        else if opc = IR_MUL then
          (if l = Some 0 then (set_const 0 inst, True)
           else if r = Some 0 then (set_const 0 inst, True)
           else if l = Some 1 then (set_copy (i_b inst) inst, True)
           else if r = Some 1 then (set_copy (i_a inst) inst, True) else (inst, False))
        else if opc = IR_BAND then
          (if l = Some 0 then (set_const 0 inst, True)
           else if r = Some 0 then (set_const 0 inst, True) else (inst, False))
        else if opc = IR_BOR then
          (if l = Some 0 then (set_copy (i_b inst) inst, True)
           else if r = Some 0 then (set_copy (i_a inst) inst, True) else (inst, False))
        else
          (if l = Some 0 then (set_copy (i_b inst) inst, True)
           else if r = Some 0 then (set_copy (i_a inst) inst, True) else (inst, False)))"

definition scalar_peephole :: "ir_function \<Rightarrow> ir_function \<times> bool" where
  "scalar_peephole fn =
     (let cc = const_cache_build fn; rs = map (peephole_inst cc) (fn_insts fn)
      in (fn\<lparr>fn_insts := map fst rs\<rparr>, list_ex snd rs))"

section \<open>Dead code\<close>

definition inst_has_side_effect :: "ir_inst \<Rightarrow> bool" where
  "inst_has_side_effect inst \<longleftrightarrow>
     i_is_volatile inst \<noteq> 0 \<or>
     i_op inst = IR_RETURN \<or> i_op inst = IR_STORE \<or> i_op inst = IR_STORE_PTR \<or>
     i_op inst = IR_BR \<or> i_op inst = IR_CBR \<or> i_op inst = IR_BR_TABLE \<or>
     i_op inst = IR_JMP_PTR \<or> i_op inst = IR_LABEL \<or>
     i_op inst = IR_ALLOCA \<or> i_op inst = IR_CALL \<or> i_op inst = IR_ASM \<or> i_op inst = IR_PARAM \<or>
     ir_op_vec_store (i_op inst)"

text \<open>The ids an instruction marks as used (those out of range are ignored by \<open>arr_set\<close>).\<close>

definition dce_uses :: "ir_inst \<Rightarrow> int list" where
  "dce_uses inst =
     (if i_op inst = IR_LABEL \<or> i_op inst = IR_BR \<or> i_op inst = IR_DBG_VALUE then []
      else [i_a inst] @
        (if i_op inst \<noteq> IR_CBR \<and> i_op inst \<noteq> IR_CALL then [i_b inst] else []) @
        (if ir_op_vec_store (i_op inst) then [i_dst inst] else []) @
        (if i_op inst = IR_RETURN then [i_c inst, i_d inst] else []) @
        (if i_op inst = IR_CALL \<or> i_op inst = IR_ASM
         then i_call_args inst @ [i_call_callee inst] else []))"

definition dce_mark :: "ir_inst \<Rightarrow> bool list \<Rightarrow> bool list" where
  "dce_mark inst used = fold (\<lambda>v u. arr_set u v True) (dce_uses inst) used"

definition dce_used :: "ir_function \<Rightarrow> bool list" where
  "dce_used fn = fold dce_mark (fn_insts fn) (replicate (nat (fn_next_value_id fn)) False)"

definition dce_drops :: "int \<Rightarrow> bool list \<Rightarrow> ir_inst \<Rightarrow> bool" where
  "dce_drops nv used inst \<longleftrightarrow>
     \<not> inst_has_side_effect inst \<and> 0 \<le> i_dst inst \<and> i_dst inst < nv \<and>
     \<not> arr_get False used (i_dst inst) \<and>
     \<not> (ir_op_with_overflow (i_op inst) \<and> 0 \<le> i_c inst \<and> i_c inst < nv \<and>
        arr_get False used (i_c inst))"

definition scalar_dce :: "ir_function \<Rightarrow> ir_function \<times> bool" where
  "scalar_dce fn =
     (let used = dce_used fn; drops = dce_drops (fn_next_value_id fn) used
      in (fn\<lparr>fn_insts := filter (\<lambda>x. \<not> drops x) (fn_insts fn)\<rparr>, list_ex drops (fn_insts fn)))"

section \<open>Renumbering\<close>

definition ir_call_max_args :: nat where
  "ir_call_max_args = 1024"

text \<open>The first loop: an upper bound of the ids.\<close>

definition rn_raise :: "int \<Rightarrow> int \<Rightarrow> int" where
  "rn_raise v mx = (if v \<ge> mx then v + 1 else mx)"

definition rn_max :: "ir_inst \<Rightarrow> int \<Rightarrow> int" where
  "rn_max inst m0 =
     (let m1 = rn_raise (i_a inst) (rn_raise (i_dst inst) m0);
          m2 = (if i_op inst \<noteq> IR_CBR then rn_raise (i_b inst) m1 else m1);
          m3 = (if (i_op inst = IR_CALL \<or> i_op inst = IR_RETURN \<or> ir_op_with_overflow (i_op inst))
                   \<and> i_c inst \<ge> 0
                then rn_raise (i_d inst) (rn_raise (i_c inst) m2) else m2)
      in if i_op inst = IR_CALL \<or> i_op inst = IR_ASM
         then fold rn_raise (take ir_call_max_args (i_call_args inst)) (rn_raise (i_call_callee inst) m3)
         else m3)"

text \<open>The ids the second loop numbers, in the order it visits them.\<close>

definition rn_ids :: "ir_inst \<Rightarrow> int list" where
  "rn_ids inst =
     (if i_op inst = IR_LABEL \<or> i_op inst = IR_BR \<or> i_op inst = IR_DBG_VALUE then []
      else [i_dst inst, i_a inst] @
        (if i_op inst \<noteq> IR_CBR then [i_b inst] else []) @
        (if i_op inst = IR_CALL \<or> i_op inst = IR_RETURN \<or> ir_op_with_overflow (i_op inst)
         then [i_c inst, i_d inst] else []) @
        (if i_op inst = IR_CALL then [i_call_callee inst] else []) @
        (if i_op inst = IR_CALL \<or> i_op inst = IR_ASM
         then take ir_call_max_args (i_call_args inst) else []))"

definition rn_see :: "int \<Rightarrow> int list \<times> int \<Rightarrow> int list \<times> int" where
  "rn_see v = (\<lambda>(mp, next). if 0 \<le> v \<and> v < int (length mp) \<and> arr_get 0 mp v = -1
                       then (arr_set mp v next, next + 1) else (mp, next))"

definition rn_number :: "ir_inst list \<Rightarrow> int list \<times> int \<Rightarrow> int list \<times> int" where
  "rn_number insts s = fold (\<lambda>inst. fold rn_see (rn_ids inst)) insts s"

text \<open>The third loop.\<close>

definition rn_map :: "int list \<Rightarrow> int \<Rightarrow> int" where
  "rn_map mp v = (if 0 \<le> v \<and> v < int (length mp) then arr_get 0 mp v else v)"

definition rn_inst :: "int list \<Rightarrow> ir_inst \<Rightarrow> ir_inst" where
  "rn_inst mp inst =
     (if i_op inst = IR_LABEL \<or> i_op inst = IR_BR then inst
      else if i_op inst = IR_DBG_VALUE then inst\<lparr>i_a := rn_map mp (i_a inst)\<rparr>
      else
        let opc = i_op inst;
            i1 = inst\<lparr>i_dst := rn_map mp (i_dst inst), i_a := rn_map mp (i_a inst)\<rparr>;
            i2 = (if opc \<noteq> IR_CBR then i1\<lparr>i_b := rn_map mp (i_b inst)\<rparr> else i1);
            i3 = (if opc = IR_RETURN \<or> opc = IR_CALL \<or> ir_op_with_overflow opc
                  then i2\<lparr>i_c := rn_map mp (i_c inst), i_d := rn_map mp (i_d inst)\<rparr> else i2);
            i4 = (if opc = IR_CALL then i3\<lparr>i_call_callee := rn_map mp (i_call_callee inst)\<rparr> else i3)
        in if opc = IR_CALL \<or> opc = IR_ASM
           then i4\<lparr>i_call_args := map (rn_map mp) (take ir_call_max_args (i_call_args inst))
                     @ drop ir_call_max_args (i_call_args inst)\<rparr>
           else i4)"

definition rn_dbg_var :: "int list \<Rightarrow> ir_debug_var \<Rightarrow> ir_debug_var" where
  "rn_dbg_var mp v = v\<lparr>dv_alloca_ssa :=
     (if 0 \<le> dv_alloca_ssa v \<and> dv_alloca_ssa v < int (length mp)
      then arr_get 0 mp (dv_alloca_ssa v) else -1)\<rparr>"

text \<open>
  One metadata array.  The doubling of the capacity and the zero fill only extend the old array
  with \<open>dflt\<close>, which is what an out-of-range \<open>arr_get\<close> reads here.
\<close>

definition rn_meta :: "int \<Rightarrow> int list \<Rightarrow> int \<Rightarrow> int \<Rightarrow> int list \<Rightarrow> int list" where
  "rn_meta dflt mp old_next next old =
     fold (\<lambda>ov new. if arr_get 0 mp (int ov) < 0 then new
                     else arr_set new (arr_get 0 mp (int ov)) (arr_get dflt old (int ov)))
       [0..<nat old_next] (replicate (nat next) dflt)"

definition scalar_renumber :: "ir_function \<Rightarrow> ir_function" where
  "scalar_renumber fn =
     (let mx = fold rn_max (fn_insts fn) (fn_next_value_id fn) in
      if mx \<le> 0 then fn
      else
        let (mp, next) = rn_number (fn_insts fn) (replicate (nat mx) (-1), 0);
            fn1 = fn\<lparr>fn_insts := map (rn_inst mp) (fn_insts fn),
                     fn_dbg_vars := map (rn_dbg_var mp) (fn_dbg_vars fn)\<rparr>;
            fn2 = (if fn_value_meta_cap fn > 0 then
                     fn1\<lparr>fn_value_width := rn_meta 4 mp (fn_next_value_id fn) next (fn_value_width fn),
                         fn_value_is_unsigned := rn_meta 0 mp (fn_next_value_id fn) next (fn_value_is_unsigned fn),
                         fn_value_is_float := rn_meta 0 mp (fn_next_value_id fn) next (fn_value_is_float fn)\<rparr>
                   else fn1)
        in fn2\<lparr>fn_next_value_id := next\<rparr>)"

section \<open>The clean-up loop\<close>

definition cleanup_step :: "ir_function \<Rightarrow> ir_function \<times> bool" where
  "cleanup_step fn =
     (let (f1, c1) = scalar_constfold fn; (f2, c2) = scalar_peephole f1; (f3, c3) = scalar_dce f2
      in (f3, c1 \<or> c2 \<or> c3))"

text \<open>\<open>op_weight\<close> bounds how often an instruction can still be rewritten.\<close>

definition op_weight :: "ir_op \<Rightarrow> nat" where
  "op_weight opc = (if is_fold_binop opc then 2 else if opc = IR_NEG \<or> opc = IR_BNOT then 1 else 0)"

definition cleanup_measure :: "ir_function \<Rightarrow> nat" where
  "cleanup_measure fn = (\<Sum>x\<leftarrow>fn_insts fn. Suc (op_weight (i_op x)))"

lemma fold_classes [simp]:
  "\<not> is_fold_binop IR_CONST" "\<not> is_fold_binop IR_COPY" "\<not> is_fold_binop IR_NEG" "\<not> is_fold_binop IR_BNOT"
  "op_weight IR_CONST = 0" "op_weight IR_COPY = 0" "op_weight IR_NEG = 1" "op_weight IR_BNOT = 1"
  by (simp_all add: op_weight_def is_fold_binop_def)

lemma op_weight_binop [simp]: "is_fold_binop opc \<Longrightarrow> op_weight opc = 2"
  by (simp add: op_weight_def)

lemma is_peep_fold: "is_peep_op opc \<Longrightarrow> is_fold_binop opc"
  by (auto simp: is_peep_op_def is_fold_binop_def)

lemma set_inst_ops [simp]: "i_op (set_const v x) = IR_CONST" "i_op (set_copy a x) = IR_COPY" "i_op (set_neg a x) = IR_NEG"
  by (simp_all add: set_const_def set_copy_def set_neg_def)

lemma constfold_inst_cases:
  "(snd (constfold_inst cc x) \<longrightarrow> op_weight (i_op (fst (constfold_inst cc x))) < op_weight (i_op x)) \<and>
   (\<not> snd (constfold_inst cc x) \<longrightarrow> fst (constfold_inst cc x) = x)"
proof (cases "is_fold_binop (i_op x)")
  case True
  then show ?thesis by (simp add: constfold_inst_def split: option.splits)
next
  case False
  then show ?thesis by (auto simp: constfold_inst_def Let_def split: option.splits)
qed

lemma peephole_inst_cases:
  "(snd (peephole_inst cc x) \<longrightarrow> op_weight (i_op (fst (peephole_inst cc x))) < op_weight (i_op x)) \<and>
   (\<not> snd (peephole_inst cc x) \<longrightarrow> fst (peephole_inst cc x) = x)"
proof (cases "is_peep_op (i_op x)")
  case True
  then have "op_weight (i_op x) = 2" by (simp add: is_peep_fold)
  then show ?thesis by (simp add: peephole_inst_def Let_def)
qed (simp add: peephole_inst_def)

lemma rewrite_measure:
  assumes "\<And>x. (snd (f x) \<longrightarrow> op_weight (i_op (fst (f x))) < op_weight (i_op x)) \<and>
     (\<not> snd (f x) \<longrightarrow> fst (f x) = x)"
  shows "(\<Sum>x\<leftarrow>map fst (map f xs). Suc (op_weight (i_op x)))
      + (if list_ex snd (map f xs) then 1 else 0) \<le> (\<Sum>x\<leftarrow>xs. Suc (op_weight (i_op x)))"
    and "\<not> list_ex snd (map f xs) \<Longrightarrow> map fst (map f xs) = xs"
proof (induction xs)
  case (Cons x xs)
  { case 1
    have "op_weight (i_op (fst (f x))) + (if snd (f x) then 1 else 0) \<le> op_weight (i_op x)"
      using assms[of x] by auto
    with Cons(1) show ?case by (auto split: if_splits)
  next
    case 2
    with Cons(2) assms[of x] show ?case by auto }
qed simp_all

lemma constfold_measure:
  "cleanup_measure (fst (scalar_constfold fn)) + (if snd (scalar_constfold fn) then 1 else 0) \<le> cleanup_measure fn"
  "\<not> snd (scalar_constfold fn) \<Longrightarrow> fst (scalar_constfold fn) = fn"
  using rewrite_measure[where f = "constfold_inst (const_cache_build fn)" and xs = "fn_insts fn", OF constfold_inst_cases]
  by (simp_all add: scalar_constfold_def cleanup_measure_def Let_def)

lemma peephole_measure:
  "cleanup_measure (fst (scalar_peephole fn)) + (if snd (scalar_peephole fn) then 1 else 0) \<le> cleanup_measure fn"
  "\<not> snd (scalar_peephole fn) \<Longrightarrow> fst (scalar_peephole fn) = fn"
  using rewrite_measure[where f = "peephole_inst (const_cache_build fn)" and xs = "fn_insts fn", OF peephole_inst_cases]
  by (simp_all add: scalar_peephole_def cleanup_measure_def Let_def)

lemma dce_measure:
  "cleanup_measure (fst (scalar_dce fn)) + (if snd (scalar_dce fn) then 1 else 0) \<le> cleanup_measure fn"
  "\<not> snd (scalar_dce fn) \<Longrightarrow> fst (scalar_dce fn) = fn"
proof -
  have *: "(\<Sum>x\<leftarrow>filter (\<lambda>x. \<not> P x) xs. Suc (op_weight (i_op x))) + (if list_ex P xs then 1 else 0)
      \<le> (\<Sum>x\<leftarrow>xs. Suc (op_weight (i_op x)))" for P xs
    by (induction xs) (auto split: if_splits)
  then show "cleanup_measure (fst (scalar_dce fn)) + (if snd (scalar_dce fn) then 1 else 0) \<le> cleanup_measure fn"
    using *[of "dce_drops (fn_next_value_id fn) (dce_used fn)" "fn_insts fn"]
    by (simp add: scalar_dce_def cleanup_measure_def Let_def)
  show "\<not> snd (scalar_dce fn) \<Longrightarrow> fst (scalar_dce fn) = fn"
    by (simp add: scalar_dce_def Let_def list_ex_iff filter_id_conv)
qed

lemma cleanup_step_measure:
  "snd (cleanup_step fn) \<Longrightarrow> cleanup_measure (fst (cleanup_step fn)) < cleanup_measure fn"
  "\<not> snd (cleanup_step fn) \<Longrightarrow> fst (cleanup_step fn) = fn \<and>
     \<not> snd (scalar_constfold fn) \<and> \<not> snd (scalar_peephole fn) \<and> \<not> snd (scalar_dce fn)"
proof -
  obtain f1 c1 where 1: "scalar_constfold fn = (f1, c1)" by fastforce
  obtain f2 c2 where 2: "scalar_peephole f1 = (f2, c2)" by fastforce
  obtain f3 c3 where 3: "scalar_dce f2 = (f3, c3)" by fastforce
  have s: "cleanup_step fn = (f3, c1 \<or> c2 \<or> c3)" by (simp add: cleanup_step_def 1 2 3)
  show "snd (cleanup_step fn) \<Longrightarrow> cleanup_measure (fst (cleanup_step fn)) < cleanup_measure fn"
    using constfold_measure(1)[of fn] peephole_measure(1)[of f1] dce_measure(1)[of f2]
    by (auto simp: s 1 2 3 split: if_splits)
  assume "\<not> snd (cleanup_step fn)"
  then have c: "\<not> c1" "\<not> c2" "\<not> c3" by (simp_all add: s)
  have f1: "f1 = fn" using constfold_measure(2)[of fn] c(1) 1 by simp
  have f2: "f2 = f1" using peephole_measure(2)[of f1] c(2) 2 by simp
  have f3: "f3 = f2" using dce_measure(2)[of f2] c(3) 3 by simp
  with c show "fst (cleanup_step fn) = fn \<and>
     \<not> snd (scalar_constfold fn) \<and> \<not> snd (scalar_peephole fn) \<and> \<not> snd (scalar_dce fn)"
    using 1 2 3 f1 f2 f3 by (simp add: s)
qed

function cleanup_loop :: "ir_function \<Rightarrow> ir_function" where
  "cleanup_loop fn = (let (fn', changed) = cleanup_step fn in if changed then cleanup_loop fn' else fn')"
  by pat_completeness auto
termination
  by (relation "measure cleanup_measure") (metis cleanup_step_measure(1) fst_conv in_measure snd_conv wf_measure)+

declare cleanup_loop.simps [simp del]

definition scalar_cleanup :: "ir_function \<Rightarrow> ir_function" where
  "scalar_cleanup fn = scalar_renumber (cleanup_loop fn)"

section \<open>Integer arithmetic at a width\<close>

text \<open>
  \<open>canon w uns z\<close> is the value of the \<open>w\<close>-byte integer that \<open>z\<close> wraps to, and \<open>den w uns x\<close> the
  value a 64-bit register holds when read at that width and signedness.
\<close>

definition canon :: "int \<Rightarrow> bool \<Rightarrow> int \<Rightarrow> int" where
  "canon w uns z = (if uns then take_bit (nat (8 * w)) z else signed_take_bit (nat (8 * w) - 1) z)"

definition den :: "int \<Rightarrow> bool \<Rightarrow> u64 \<Rightarrow> int" where
  "den w uns x = canon w uns (uint x)"

abbreviation int_width :: "int \<Rightarrow> bool" where
  "int_width w \<equiv> w = 1 \<or> w = 2 \<or> w = 4 \<or> w = 8"

text \<open>The mathematical result of a binary operation; \<open>None\<close> where C leaves it undefined.\<close>

definition spec_binop :: "ir_op \<Rightarrow> int \<Rightarrow> int \<Rightarrow> int \<Rightarrow> int option" where
  "spec_binop opc w l r =
     (if opc = IR_ADD then Some (l + r)
      else if opc = IR_SUB then Some (l - r)
      else if opc = IR_MUL then Some (l * r)
      else if opc = IR_DIV then (if r = 0 then None else Some (l sdiv r))
      else if opc = IR_MOD then (if r = 0 then None else Some (l smod r))
      else if opc = IR_BAND then Some (l AND r)
      else if opc = IR_BOR then Some (l OR r)
      else if opc = IR_BXOR then Some (l XOR r)
      else if opc = IR_SHL then (if 0 \<le> r \<and> r < 8 * w then Some (l * 2 ^ nat r) else None)
      else if opc = IR_SHR then (if 0 \<le> r \<and> r < 8 * w then Some (l div 2 ^ nat r) else None)
      else if opc = IR_ROL then
        (if 0 \<le> r \<and> r < 8 * w then Some (l * 2 ^ nat r + l div 2 ^ nat (8 * w - r)) else None)
      else None)"

lemma canon_cases:
  "int_width w \<Longrightarrow> (w = 1 \<Longrightarrow> P 8) \<Longrightarrow> (w = 2 \<Longrightarrow> P 16) \<Longrightarrow> (w = 4 \<Longrightarrow> P 32) \<Longrightarrow> (w = 8 \<Longrightarrow> P 64) \<Longrightarrow>
   P (nat (8 * w))"
  by auto

lemma canon_word: "int_width w \<Longrightarrow> canon w uns (uint (word_of_int z :: u64)) = canon w uns z"
  by (auto simp: canon_def uint_word_of_int_eq take_bit_take_bit signed_take_bit_take_bit)

lemma canon_idem [simp]: "canon w uns (canon w uns z) = canon w uns z"
  by (simp add: canon_def)

lemma canon_range:
  assumes "int_width w"
  shows "uns \<Longrightarrow> 0 \<le> canon w uns z \<and> canon w uns z < 2 ^ 64"
    and "\<not> uns \<Longrightarrow> - (2 ^ 63) \<le> canon w uns z \<and> canon w uns z < 2 ^ 63"
proof -
  have "take_bit n z < 2 ^ 64" if "n \<le> 64" for n
    using take_bit_int_less_exp[of n z] power_increasing[OF that, of "2::int"] by linarith
  then show "uns \<Longrightarrow> 0 \<le> canon w uns z \<and> canon w uns z < 2 ^ 64" using assms by (auto simp: canon_def)
  have "- (2 ^ 63) \<le> signed_take_bit n z \<and> signed_take_bit n z < 2 ^ 63" if "n \<le> 63" for n
    using signed_take_bit_int_greater_eq_minus_exp[of n z] signed_take_bit_int_less_exp[of n z]
      power_increasing[OF that, of "2::int"] by linarith
  then show "\<not> uns \<Longrightarrow> - (2 ^ 63) \<le> canon w uns z \<and> canon w uns z < 2 ^ 63"
    using assms by (auto simp: canon_def)
qed

lemma word_canon:
  assumes "int_width w"
  shows "uns \<Longrightarrow> uint (word_of_int (canon w uns z) :: u64) = canon w uns z"
    and "\<not> uns \<Longrightarrow> sint (word_of_int (canon w uns z) :: u64) = canon w uns z"
  using canon_range[OF assms, of uns z]
  by (auto simp: uint_word_of_int_eq take_bit_int_eq_self sint_sbintrunc' signed_take_bit_int_eq_self)

lemma take_bit_uint64: "take_bit 64 (uint x) = uint (x :: u64)"
  using uint_lt2p[of x] by (simp add: take_bit_int_eq_self)

lemma trunc_canon:
  assumes "int_width w"
  shows "trunc_to_width x w uns = word_of_int (canon w uns (uint x))"
proof -
  have bits: "(if u AND (drop_bit 1 m + 1) \<noteq> 0 then u OR NOT m else u) =
      word_of_int (signed_take_bit (n - 1) (uint x))" "u = word_of_int (take_bit n (uint x))"
    if "u = x AND m" "m = mask n" "0 < n" "n < 64" for u m :: u64 and n
  proof -
    have m1: "drop_bit 1 m + 1 = (push_bit (n - 1) 1 :: u64)"
    proof -
      have "drop_bit 1 m = (mask (n - 1) :: u64)"
        unfolding that(2) by (rule bit_word_eqI) (use that(3,4) in \<open>auto simp: bit_drop_bit_eq bit_mask_iff\<close>)
      then show ?thesis by (simp add: mask_eq_exp_minus_1 push_bit_eq_mult)
    qed
    have t: "u AND (drop_bit 1 m + 1) \<noteq> 0 \<longleftrightarrow> bit x (n - 1)"
    proof -
      have "u AND push_bit (n - 1) 1 = (if bit x (n - 1) then push_bit (n - 1) 1 else 0)"
        by (rule bit_word_eqI)
          (use that in \<open>auto simp: bit_and_iff bit_push_bit_iff bit_mask_iff bit_1_iff bit_exp_iff split: if_splits\<close>)
      moreover have "push_bit (n - 1) 1 \<noteq> (0::u64)"
      proof
        assume "push_bit (n - 1) 1 = (0::u64)"
        then have "64 \<le> n - 1" by simp
        with that(4) show False by simp
      qed
      ultimately show ?thesis unfolding m1 by simp
    qed
    show "u = word_of_int (take_bit n (uint x))"
      by (rule bit_word_eqI) (use that in \<open>auto simp: bit_and_iff bit_mask_iff bit_word_of_int_iff bit_take_bit_iff bit_uint_iff\<close>)
    show "(if u AND (drop_bit 1 m + 1) \<noteq> 0 then u OR NOT m else u) = word_of_int (signed_take_bit (n - 1) (uint x))"
      unfolding t
    proof (rule bit_word_eqI)
      fix k assume "k < LENGTH(64)"
      then consider "k < n - 1" | "k = n - 1" | "n \<le> k" "k < 64" by fastforce
      then show "bit (if bit x (n - 1) then u OR NOT m else u) k =
          bit (word_of_int (signed_take_bit (n - 1) (uint x)) :: u64) k"
        by cases (use that in \<open>auto simp: bit_and_iff bit_or_iff bit_not_iff bit_mask_iff
          bit_word_of_int_iff bit_signed_take_bit_iff bit_uint_iff min_def\<close>)
    qed
  qed
  consider "w = 1" | "w = 2" | "w = 4" | "w = 8" using assms by blast
  then show ?thesis
  proof cases
    case 1
    have "(0xFF :: u64) = mask 8" by (simp add: mask_eq_exp_minus_1)
    from bits[OF refl this] 1 show ?thesis by (simp add: trunc_to_width_def canon_def Let_def)
  next
    case 2
    have "(0xFFFF :: u64) = mask 16" by (simp add: mask_eq_exp_minus_1)
    from bits[OF refl this] 2 show ?thesis by (simp add: trunc_to_width_def canon_def Let_def)
  next
    case 3
    have "(0xFFFFFFFF :: u64) = mask 32" by (simp add: mask_eq_exp_minus_1)
    from bits[OF refl this] 3 show ?thesis by (simp add: trunc_to_width_def canon_def Let_def)
  next
    case 4
    have "word_of_int (signed_take_bit 63 (uint x)) = x"
      using arg_cong[OF sint_uint[of x], of "word_of_int :: int \<Rightarrow> u64"] by simp
    with 4 show ?thesis by (simp add: trunc_to_width_def canon_def take_bit_uint64)
  qed
qed

text \<open>The word operations compute the integer operations.\<close>

lemma signed_vals:
  assumes "int_width w"
  shows "sint (word_of_int (canon w uns z) :: u64) =
    (if uns \<and> w = 8 then signed_take_bit 63 z else canon w uns z)"
proof (cases uns)
  case True
  then show ?thesis
    using assms by (auto simp: canon_def sint_sbintrunc' signed_take_bit_take_bit
        intro!: signed_take_bit_int_eq_self order.strict_trans2[OF take_bit_int_less_exp])
qed (use word_canon[OF assms] in auto)

lemma sdiv_nonneg: "0 \<le> a \<Longrightarrow> 0 \<le> b \<Longrightarrow> (a::int) sdiv b = a div b" "0 \<le> a \<Longrightarrow> 0 \<le> b \<Longrightarrow> (a::int) smod b = a mod b"
  by (auto simp: signed_divide_int_def signed_modulo_int_def sgn_if minus_mult_div_eq_mod
      dest: order.antisym)

lemma sint_pos_uint: "0 \<le> sint (x :: u64) \<Longrightarrow> sint x = uint x"
  using uint_lt2p[of x] by (auto simp: sint_uint signed_take_bit_eq_take_bit_minus take_bit_int_eq_self)

lemma uint_drop: "uint (drop_bit n (x :: u64)) = uint x div 2 ^ n"
proof -
  have "uint (drop_bit n x) = drop_bit n (uint x)" by (simp add: unsigned_drop_bit_eq take_bit_uint64)
  then show ?thesis by (simp add: drop_bit_eq_div)
qed

lemma word_of_int_drop: "word_of_int (uint x div 2 ^ n) = drop_bit n (x :: u64)"
proof -
  have "word_of_int (uint (drop_bit n x)) = drop_bit n x" by simp
  then show ?thesis unfolding uint_drop .
qed

lemma word_of_int_sdrop: "word_of_int (sint x div 2 ^ n) = signed_drop_bit n (x :: u64)"
proof -
  have "sint (signed_drop_bit n x) = sint x div 2 ^ n"
    using sint_signed_drop_bit_eq[of n x] by (simp add: drop_bit_eq_div)
  moreover have "word_of_int (sint (signed_drop_bit n x)) = signed_drop_bit n x" by simp
  ultimately show ?thesis by simp
qed

lemma rol_canon:
  assumes "int_width w" and l: "0 \<le> l" "l < 2 ^ nat (8 * w)" and s: "0 \<le> s" "s < 8 * w"
  shows "word_of_int (l * 2 ^ nat s + l div 2 ^ nat (8 * w - s)) =
    (push_bit (nat s) (word_of_int l) OR drop_bit (nat (8 * w - s)) (word_of_int l) :: u64)"
proof -
  have w64: "(2::int) ^ nat (8 * w) \<le> 2 ^ 64" by (rule power_increasing) (use assms(1) in auto)
  then have ul: "uint (word_of_int l :: u64) = l" using l by (simp add: uint_word_of_int_eq take_bit_int_eq_self)
  have a: "drop_bit (nat (8 * w - s)) (word_of_int l :: u64) = word_of_int (l div 2 ^ nat (8 * w - s))"
    using word_of_int_drop[of "word_of_int l"] ul by metis
  have b: "push_bit (nat s) (word_of_int l :: u64) = word_of_int (push_bit (nat s) l)"
    by (simp add: push_bit_of_int)
  have c: "push_bit (nat s) l OR l div 2 ^ nat (8 * w - s) = push_bit (nat s) l + l div 2 ^ nat (8 * w - s)"
  proof (rule disjunctive_add_eq_or[symmetric])
    have "nat (8 * w) = nat (8 * w - s) + nat s" using s by simp
    then have "l < 2 ^ nat s * 2 ^ nat (8 * w - s)" using l(2) by (simp add: power_add mult.commute)
    moreover have "l div 2 ^ nat (8 * w - s) * 2 ^ nat (8 * w - s) \<le> l"
      by (simp add: minus_mod_eq_div_mult[symmetric])
    ultimately have "l div 2 ^ nat (8 * w - s) < 2 ^ nat s"
      by (metis mult_right_less_imp_less order.strict_trans1 zero_le_numeral zero_le_power)
    then have t: "take_bit (nat s) (l div 2 ^ nat (8 * w - s)) = l div 2 ^ nat (8 * w - s)"
      using l(1) by (intro take_bit_int_eq_self) (simp_all add: pos_imp_zdiv_nonneg_iff)
    have "push_bit (nat s) l AND take_bit (nat s) y = 0" for y
      by (rule bit_eqI) (simp add: bit_and_iff bit_push_bit_iff bit_take_bit_iff)
    then show "push_bit (nat s) l AND (l div 2 ^ nat (8 * w - s)) = 0" by (metis t)
  qed
  show ?thesis
    unfolding a b push_bit_eq_mult[symmetric] c[symmetric] by (rule of_int_or_eq)
qed

lemma fold_binop_correct:
  assumes w: "int_width w" and f: "fold_binop opc w uns x y = Some v" and rol: "opc = IR_ROL \<Longrightarrow> uns"
  shows "\<exists>z. spec_binop opc w (den w uns x) (den w uns y) = Some z \<and> v = word_of_int (canon w uns z)"
proof -
  define l r where "l = den w uns x" and "r = den w uns y"
  define L R :: u64 where "L = word_of_int l" and "R = word_of_int r"
  have tr: "trunc_to_width x w uns = L" "trunc_to_width y w uns = R"
    by (simp_all add: trunc_canon[OF w] L_def R_def l_def r_def den_def)
  have cl: "l = canon w uns l" "r = canon w uns r" by (simp_all add: l_def r_def den_def)
  have u: "uint L = l" "uint R = r" if uns using word_canon(1)[OF w that] cl by (metis L_def R_def)+
  have sg: "sint L = l" "sint R = r" if "\<not> uns" using word_canon(2)[OF w that] cl by (metis L_def R_def)+
  have rs: "sint R = r" if "0 \<le> sint R" using sint_pos_uint[OF that] u(2) sg(2) by (cases uns) auto
  have fin: "\<exists>z. spec_binop opc w l r = Some z \<and> v = word_of_int (canon w uns z)"
    if "v = trunc_to_width (word_of_int z) w uns" "spec_binop opc w l r = Some z" for z
    using that canon_word[OF w] trunc_canon[OF w] by metis
  have r0: "sint R \<noteq> 0 \<Longrightarrow> r \<noteq> 0" by (auto simp: R_def)
  note F = f[unfolded fold_binop_def Let_def tr]
  have opc: "is_fold_binop opc" using F by (auto simp: is_fold_binop_def split: if_splits)
  have shift: "0 \<le> r \<and> r < 8 * w \<and> sint R = r" if "opc = IR_SHL \<or> opc = IR_SHR \<or> opc = IR_ROL"
    using F that rs by (auto split: if_splits)
  consider (add) "opc = IR_ADD" | (sub) "opc = IR_SUB" | (mul) "opc = IR_MUL" | (div) "opc = IR_DIV"
    | (mod) "opc = IR_MOD" | (band) "opc = IR_BAND" | (bor) "opc = IR_BOR" | (bxor) "opc = IR_BXOR"
    | (shl) "opc = IR_SHL" | (shr) "opc = IR_SHR" | (rol) "opc = IR_ROL"
    using opc by (auto simp: is_fold_binop_def)
  then have "\<exists>z. spec_binop opc w l r = Some z \<and> v = word_of_int (canon w uns z)"
  proof cases
    case add
    with F have "v = trunc_to_width (word_of_int (l + r)) w uns" by (simp add: L_def R_def)
    with add show ?thesis by (intro fin) (simp_all add: spec_binop_def)
  next
    case sub
    with F have "v = trunc_to_width (word_of_int (l - r)) w uns" by (simp add: L_def R_def)
    with sub show ?thesis by (intro fin) (simp_all add: spec_binop_def)
  next
    case mul
    with F have "v = trunc_to_width (word_of_int (l * r)) w uns" by (simp add: L_def R_def)
    with mul show ?thesis by (intro fin) (simp_all add: spec_binop_def)
  next
    case div
    with F have d: "sint R \<noteq> 0" "v = trunc_to_width (if uns then L div R else word_of_int (sint L sdiv sint R)) w uns"
      by (auto split: if_splits)
    have "L div R = word_of_int (l sdiv r)" if uns
      using uint_div[of L R] u[OF that] sdiv_nonneg(1)[of l r] uint_nonnegative[of L] uint_nonnegative[of R]
      by (metis word_of_int_uint)
    with d sg have "v = trunc_to_width (word_of_int (l sdiv r)) w uns" by auto
    with div r0[OF d(1)] show ?thesis by (intro fin) (simp_all add: spec_binop_def)
  next
    case mod
    with F have d: "sint R \<noteq> 0" "v = trunc_to_width (if uns then L mod R else word_of_int (sint L smod sint R)) w uns"
      by (auto split: if_splits)
    have "L mod R = word_of_int (l smod r)" if uns
      using uint_mod[of L R] u[OF that] sdiv_nonneg(2)[of l r] uint_nonnegative[of L] uint_nonnegative[of R]
      by (metis word_of_int_uint)
    with d sg have "v = trunc_to_width (word_of_int (l smod r)) w uns" by auto
    with mod r0[OF d(1)] show ?thesis by (intro fin) (simp_all add: spec_binop_def)
  next
    case band
    with F have "v = trunc_to_width (word_of_int (l AND r)) w uns" by (simp add: L_def R_def of_int_and_eq)
    with band show ?thesis by (intro fin) (simp_all add: spec_binop_def)
  next
    case bor
    with F have "v = trunc_to_width (word_of_int (l OR r)) w uns" by (simp add: L_def R_def of_int_or_eq)
    with bor show ?thesis by (intro fin) (simp_all add: spec_binop_def)
  next
    case bxor
    with F have "v = trunc_to_width (word_of_int (l XOR r)) w uns" by (simp add: L_def R_def of_int_xor_eq)
    with bxor show ?thesis by (intro fin) (simp_all add: spec_binop_def)
  next
    case shl
    note S = shift[OF disjI1[OF shl]]
    with F shl have "v = trunc_to_width (push_bit (nat r) L) w uns" by simp
    then have "v = trunc_to_width (word_of_int (l * 2 ^ nat r)) w uns"
      by (simp add: L_def push_bit_eq_mult)
    with shl S show ?thesis by (intro fin) (simp_all add: spec_binop_def)
  next
    case shr
    have S: "0 \<le> r \<and> r < 8 * w \<and> sint R = r" using shift shr by blast
    with F shr have "v = trunc_to_width (if uns then drop_bit (nat r) L else signed_drop_bit (nat r) L) w uns"
      by (simp split: if_splits)
    moreover have "drop_bit (nat r) L = word_of_int (l div 2 ^ nat r)" if uns
      using u(1)[OF that] word_of_int_drop[of L] by simp
    moreover have "signed_drop_bit (nat r) L = word_of_int (l div 2 ^ nat r)" if "\<not> uns"
      using sg(1)[OF that] word_of_int_sdrop[of L] by simp
    ultimately have "v = trunc_to_width (word_of_int (l div 2 ^ nat r)) w uns" by simp
    with shr S show ?thesis by (intro fin) (simp_all add: spec_binop_def)
  next
    case rol
    have S: "0 \<le> r \<and> r < 8 * w \<and> sint R = r" using shift rol by blast
    have uns using rol assms(3) by blast
    have "0 \<le> l" "l < 2 ^ nat (8 * w)"
      using cl(1) \<open>uns\<close> by (metis canon_def take_bit_nonnegative take_bit_int_less_exp)+
    note RC = rol_canon[OF w this, of r]
    have "v = trunc_to_width (word_of_int (l * 2 ^ nat r + l div 2 ^ nat (8 * w - r))) w uns"
    proof (cases "r = 0")
      case True
      then have "l div 2 ^ nat (8 * w - r) = 0" using \<open>0 \<le> l\<close> \<open>l < _\<close> by simp
      with True F rol S w show ?thesis by (simp add: L_def)
    next
      case False
      with F rol S w RC show ?thesis by (simp add: L_def mult.commute)
    qed
    with rol S show ?thesis by (intro fin) (simp_all add: spec_binop_def)
  qed
  then show ?thesis by (simp add: l_def r_def)
qed

section \<open>The meaning of an integer instruction\<close>

text \<open>
  \<open>eval_int env inst\<close>: the value an integer instruction computes from the registers \<open>env\<close>, at its
  own width; \<open>None\<close> for the other instructions and where C leaves the operation undefined.
\<close>

definition eval_int :: "(int \<Rightarrow> u64) \<Rightarrow> ir_inst \<Rightarrow> int option" where
  "eval_int env inst =
     (let w = inst_width inst; uns = inst_uns inst;
          l = den w uns (env (i_a inst)); r = den w uns (env (i_b inst)) in
      if i_is_float inst \<noteq> 0 then None
      else if i_op inst = IR_CONST then Some (den w uns (i_imm inst))
      else if i_op inst = IR_COPY then Some l
      else if i_op inst = IR_NEG then Some (canon w uns (- l))
      else if i_op inst = IR_BNOT then Some (canon w uns (NOT l))
      else if is_fold_binop (i_op inst) then map_option (canon w uns) (spec_binop (i_op inst) w l r)
      else None)"

text \<open>Registers defined by an integer constant hold it, as they do at every use in SSA form.\<close>

definition consts_hold :: "ir_function \<Rightarrow> (int \<Rightarrow> u64) \<Rightarrow> bool" where
  "consts_hold fn env \<longleftrightarrow> (\<forall>x\<in>set (fn_insts fn).
     i_op x = IR_CONST \<longrightarrow> i_is_float x = 0 \<longrightarrow> env (i_dst x) = i_imm x)"

lemma length_const_cache_add [simp]: "length (const_cache_add x c) = length c"
  by (simp add: const_cache_add_def)

lemma cache_fold:
  "const_cache_lookup (fold const_cache_add xs c) v = Some k \<Longrightarrow>
     const_cache_lookup c v = Some k \<or>
     (\<exists>x\<in>set xs. i_op x = IR_CONST \<and> i_is_float x = 0 \<and> i_dst x = v \<and> i_imm x = k)"
proof (induction xs arbitrary: c)
  case (Cons x xs)
  from Cons.IH[of "const_cache_add x c"] Cons.prems
  consider "const_cache_lookup (const_cache_add x c) v = Some k"
    | "\<exists>x\<in>set xs. i_op x = IR_CONST \<and> i_is_float x = 0 \<and> i_dst x = v \<and> i_imm x = k" by auto
  then show ?case
  proof cases
    case 1
    then show ?thesis
      by (auto simp: const_cache_add_def const_cache_lookup_def arr_set_def nth_list_update split: if_splits)
  qed auto
qed simp

lemma cache_sound:
  assumes "consts_hold fn env" "const_cache_lookup (const_cache_build fn) v = Some k"
  shows "env v = k"
  using cache_fold[of "fn_insts fn" "replicate (nat (if fn_next_value_id fn \<le> 0 then 1 else fn_next_value_id fn)) None" v k]
    assms by (auto simp: const_cache_build_def consts_hold_def Let_def const_cache_lookup_def split: if_splits)

lemma den_canon: "int_width w \<Longrightarrow> den w uns (word_of_int (canon w uns z)) = canon w uns z"
  by (simp add: den_def canon_word)

lemma set_const_fields [simp]:
  "inst_width (set_const v x) = inst_width x" "inst_uns (set_const v x) = inst_uns x"
  "i_is_float (set_const v x) = i_is_float x" "i_imm (set_const v x) = v" "i_dst (set_const v x) = i_dst x"
  "inst_width (set_copy a x) = inst_width x" "inst_uns (set_copy a x) = inst_uns x"
  "i_is_float (set_copy a x) = i_is_float x" "i_a (set_copy a x) = a" "i_dst (set_copy a x) = i_dst x"
  "inst_width (set_neg a x) = inst_width x" "inst_uns (set_neg a x) = inst_uns x"
  "i_is_float (set_neg a x) = i_is_float x" "i_a (set_neg a x) = a" "i_dst (set_neg a x) = i_dst x"
  by (simp_all add: set_const_def set_copy_def set_neg_def inst_width_def inst_uns_def)

lemma neg_not_fold:
  assumes w: "int_width w"
  shows "den w uns (trunc_to_width (- trunc_to_width v w uns) w uns) = canon w uns (- den w uns v)"
    and "den w uns (trunc_to_width (NOT (trunc_to_width v w uns)) w uns) = canon w uns (NOT (den w uns v))"
proof -
  have "- word_of_int z = (word_of_int (- z) :: u64)" "NOT (word_of_int z) = (word_of_int (NOT z) :: u64)" for z
    by (simp_all add: of_int_not_eq)
  then show "den w uns (trunc_to_width (- trunc_to_width v w uns) w uns) = canon w uns (- den w uns v)"
    "den w uns (trunc_to_width (NOT (trunc_to_width v w uns)) w uns) = canon w uns (NOT (den w uns v))"
    by (simp_all only: trunc_canon[OF w] den_canon[OF w] canon_word[OF w]) (simp_all add: den_def)
qed

lemma constfold_inst_eval:
  assumes w: "int_width (inst_width x)" and rol: "i_op x = IR_ROL \<Longrightarrow> inst_uns x"
    and env: "\<And>v k. const_cache_lookup cc v = Some k \<Longrightarrow> env v = k"
  shows "eval_int env (fst (constfold_inst cc x)) = eval_int env x \<and>
    (snd (constfold_inst cc x) \<longrightarrow> eval_int env x \<noteq> None)"
proof -
  let ?w = "inst_width x" and ?u = "inst_uns x"
  consider (bin) lv rv v where "is_fold_binop (i_op x)" "const_cache_lookup cc (i_a x) = Some lv"
      "const_cache_lookup cc (i_b x) = Some rv" "i_is_float x = 0"
      "fold_binop (i_op x) ?w ?u lv rv = Some v" "constfold_inst cc x = (set_const v x, True)"
    | (un) lv where "i_op x = IR_NEG \<or> i_op x = IR_BNOT" "const_cache_lookup cc (i_a x) = Some lv" "i_is_float x = 0"
      "constfold_inst cc x = (set_const (trunc_to_width (if i_op x = IR_NEG then - trunc_to_width lv ?w ?u
         else NOT (trunc_to_width lv ?w ?u)) ?w ?u) x, True)"
    | (no) "constfold_inst cc x = (x, False)"
  proof (cases "is_fold_binop (i_op x)")
    case True
    show thesis
    proof (cases "const_cache_lookup cc (i_a x)"; cases "const_cache_lookup cc (i_b x)")
      fix lv rv assume c: "const_cache_lookup cc (i_a x) = Some lv" "const_cache_lookup cc (i_b x) = Some rv"
      with True no bin[OF True c] show thesis
        by (cases "fold_binop (i_op x) ?w ?u lv rv"; cases "i_is_float x = 0") (auto simp: constfold_inst_def)
    qed (use True no in \<open>auto simp: constfold_inst_def\<close>)
  next
    case False
    with un no show thesis
      by (cases "const_cache_lookup cc (i_a x)"; cases "i_op x = IR_NEG \<or> i_op x = IR_BNOT"; cases "i_is_float x = 0")
        (auto simp: constfold_inst_def Let_def)
  qed
  then show ?thesis
  proof cases
    case bin
    from fold_binop_correct[OF w bin(5) rol] env[OF bin(2)] env[OF bin(3)] obtain z where
      z: "spec_binop (i_op x) ?w (den ?w ?u (env (i_a x))) (den ?w ?u (env (i_b x))) = Some z"
      "v = word_of_int (canon ?w ?u z)" by auto
    have "i_op x \<noteq> IR_CONST" "i_op x \<noteq> IR_COPY" "i_op x \<noteq> IR_NEG" "i_op x \<noteq> IR_BNOT"
      using bin(1) by auto
    with bin z show ?thesis by (simp add: eval_int_def Let_def den_canon[OF w])
  next
    case un
    with env[OF un(2)] neg_not_fold[OF w, of ?u lv] show ?thesis
      by (auto simp: eval_int_def Let_def)
  qed simp
qed

lemma canon_0 [simp]: "canon w uns 0 = 0"
  by (simp add: canon_def)

lemma den_consts:
  assumes "int_width w"
  shows "den w uns 0 = 0" and "uns \<or> w \<noteq> 0 \<Longrightarrow> den w uns 1 = 1"
  using assms by (auto simp: den_def canon_def signed_take_bit_eq_take_bit_minus)

lemma canon_den [simp]: "canon w uns (den w uns x) = den w uns x"
  by (simp add: den_def)

lemma peephole_inst_eval:
  assumes w: "int_width (inst_width x)"
    and env: "\<And>v k. const_cache_lookup cc v = Some k \<Longrightarrow> env v = k"
  shows "eval_int env (fst (peephole_inst cc x)) = eval_int env x"
proof (cases "is_peep_op (i_op x) \<and> i_is_float x = 0")
  case False
  then show ?thesis by (auto simp: peephole_inst_def)
next
  case True
  let ?w = "inst_width x" and ?u = "inst_uns x"
  have d: "den ?w ?u 0 = 0" "den ?w ?u 1 = 1" using den_consts[OF w] w by auto
  have l: "den ?w ?u (env (i_a x)) = den ?w ?u k" if "const_cache_lookup cc (i_a x) = Some k" for k
    using env that by simp
  have r: "den ?w ?u (env (i_b x)) = den ?w ?u k" if "const_cache_lookup cc (i_b x) = Some k" for k
    using env that by simp
  consider "i_op x = IR_ADD" | "i_op x = IR_SUB" | "i_op x = IR_MUL" | "i_op x = IR_BAND"
    | "i_op x = IR_BOR" | "i_op x = IR_BXOR" using True by (auto simp: is_peep_op_def)
  then show ?thesis
    using True l[of 0] l[of 1] r[of 0] r[of 1]
    by cases (simp_all add: peephole_inst_def eval_int_def spec_binop_def is_peep_op_def is_fold_binop_def
        Let_def d)
qed

lemma peephole_changed:
  "fst (peephole_inst cc x) \<noteq> x \<Longrightarrow> i_is_float x = 0 \<and> eval_int env x \<noteq> None"
proof -
  assume "fst (peephole_inst cc x) \<noteq> x"
  then have "is_peep_op (i_op x)" "i_is_float x = 0" by (auto simp: peephole_inst_def split: if_splits)
  then show ?thesis by (auto simp: is_peep_op_def eval_int_def Let_def is_fold_binop_def spec_binop_def)
qed

section \<open>What dead-code elimination keeps\<close>

lemma length_dce_mark [simp]: "length (dce_mark x u) = length u"
proof -
  have "length (fold (\<lambda>v u. arr_set u v True) vs u) = length u" for vs
    by (induction vs arbitrary: u) simp_all
  then show ?thesis by (simp add: dce_mark_def)
qed

lemma dce_mark_iff:
  "0 \<le> v \<Longrightarrow> nat v < length u \<Longrightarrow> arr_get False (dce_mark x u) v \<longleftrightarrow> v \<in> set (dce_uses x) \<or> arr_get False u v"
proof -
  assume v: "0 \<le> v" "nat v < length u"
  have "arr_get False (fold (\<lambda>v u. arr_set u v True) vs u) v \<longleftrightarrow> v \<in> set vs \<or> arr_get False u v" for vs
    using v
  proof (induction vs arbitrary: u)
    case (Cons a vs)
    then show ?case by (cases "a = v") auto
  qed simp
  then show ?thesis by (simp add: dce_mark_def)
qed

lemma dce_used_iff:
  assumes "0 \<le> v" "v < fn_next_value_id fn"
  shows "arr_get False (dce_used fn) v \<longleftrightarrow> (\<exists>x\<in>set (fn_insts fn). v \<in> set (dce_uses x))"
proof -
  have "arr_get False (fold dce_mark xs u) v \<longleftrightarrow> (\<exists>x\<in>set xs. v \<in> set (dce_uses x)) \<or> arr_get False u v"
    if "nat v < length u" for xs u
    using that
  proof (induction xs arbitrary: u)
    case (Cons x xs)
    then show ?case using dce_mark_iff[OF assms(1), of u x] by auto
  qed simp
  from this[of "replicate (nat (fn_next_value_id fn)) False" "fn_insts fn"] assms show ?thesis
    by (simp add: dce_used_def arr_get_def)
qed

text \<open>The marks and the side effects cover the tables of the operands.\<close>

lemma ir_reads_dce: "v \<in> set (ir_reads x) \<Longrightarrow> v \<in> set (dce_uses x)"
  by (cases "i_op x") (simp_all add: ir_reads_def dce_uses_def ir_op_vec_store_def, auto)

lemma dce_drops_tables:
  assumes "ir_wf x" "dce_drops nv used x"
  shows "\<not> has_effect (i_op x) \<and> i_is_volatile x = 0 \<and>
    (\<forall>v\<in>set (ir_results x). 0 \<le> v \<longrightarrow> v < nv \<longrightarrow> \<not> arr_get False used v)"
proof -
  have d: "\<not> inst_has_side_effect x" "0 \<le> i_dst x" "\<not> arr_get False used (i_dst x)"
    "ir_op_with_overflow (i_op x) \<Longrightarrow> 0 \<le> i_c x \<Longrightarrow> i_c x < nv \<Longrightarrow> \<not> arr_get False used (i_c x)"
    using assms(2) unfolding dce_drops_def by blast+
  have "\<not> has_effect (i_op x)"
    using d(1,2) assms(1) by (cases "i_op x") (simp_all add: inst_has_side_effect_def ir_op_vec_store_def ir_wf_def)
  moreover have "\<forall>v\<in>set (ir_results x). v = i_dst x \<or> ir_op_with_overflow (i_op x) \<and> v = i_c x"
    using d(1) by (cases "i_op x") (simp_all add: inst_has_side_effect_def ir_op_with_overflow_def ir_results_def)
  moreover have "i_is_volatile x = 0" using d(1) by (simp add: inst_has_side_effect_def)
  ultimately show ?thesis using d(2-4) by auto
qed

section \<open>Renumbering is a bijection\<close>

text \<open>\<open>rn_inv S s\<close>: the ids in \<open>S\<close> have been numbered, densely and injectively.\<close>

definition rn_inv :: "int \<Rightarrow> int set \<Rightarrow> int list \<times> int \<Rightarrow> bool" where
  "rn_inv mx S s \<longleftrightarrow> int (length (fst s)) = mx \<and> S \<subseteq> {0..<mx} \<and>
     (\<forall>v\<in>{0..<mx} - S. arr_get 0 (fst s) v = -1) \<and> 0 \<le> snd s \<and>
     bij_betw (arr_get 0 (fst s)) S {0..<snd s}"

lemma rn_see_inv:
  assumes inv: "rn_inv mx S s" and v: "v < mx"
  shows "rn_inv mx (S \<union> ({v} \<inter> {0..})) (rn_see v s)"
proof -
  obtain mp nx where s: "s = (mp, nx)" by (cases s)
  note I = inv[unfolded rn_inv_def s, simplified]
  show ?thesis
  proof (cases "0 \<le> v \<and> v \<notin> S")
    case True
    with I v have new: "rn_see v s = (arr_set mp v nx, nx + 1)" by (simp add: rn_see_def s)
    have eq: "arr_get 0 (arr_set mp v nx) u = (if u = v then nx else arr_get 0 mp u)" if "0 \<le> u" for u
      using True I v that by (auto simp: arr_get_def arr_set_def nth_list_update)
    have "bij_betw (arr_get 0 (arr_set mp v nx)) S {0..<nx}"
      using I True eq by (subst bij_betw_cong[where g = "arr_get 0 mp"]) (auto split: if_splits)
    moreover have "bij_betw (arr_get 0 (arr_set mp v nx)) {v} {nx}" using True eq by (simp add: bij_betw_def)
    ultimately have "bij_betw (arr_get 0 (arr_set mp v nx)) (S \<union> {v}) ({0..<nx} \<union> {nx})"
      by (rule bij_betw_combine) simp
    moreover have "{0..<nx} \<union> {nx} = {0..<nx + 1}" using I by auto
    moreover have "S \<union> ({v} \<inter> {0..}) = S \<union> {v}" using True by auto
    ultimately show ?thesis
      unfolding new rn_inv_def using True I v eq by auto
  next
    case False
    have "rn_see v s = s"
    proof (cases "v \<in> S")
      case True
      with I have "arr_get 0 mp v \<in> {0..<nx}" by (meson bij_betwE)
      with s show ?thesis by (simp add: rn_see_def)
    qed (use False s in \<open>simp add: rn_see_def\<close>)
    moreover have "S \<union> ({v} \<inter> {0..}) = S" using False by auto
    ultimately show ?thesis using inv by simp
  qed
qed

lemma rn_number_inv:
  assumes "\<And>x v. x \<in> set insts \<Longrightarrow> v \<in> set (rn_ids x) \<Longrightarrow> v < mx" "rn_inv mx S s"
  shows "rn_inv mx (S \<union> {v. 0 \<le> v \<and> (\<exists>x\<in>set insts. v \<in> set (rn_ids x))}) (rn_number insts s)"
proof -
  have one: "rn_inv mx (S \<union> {v. 0 \<le> v \<and> v \<in> set vs}) (fold rn_see vs s)"
    if "\<And>v. v \<in> set vs \<Longrightarrow> v < mx" "rn_inv mx S s" for vs S s
    using that
  proof (induction vs arbitrary: S s)
    case (Cons v vs)
    have "S \<union> ({v} \<inter> {0..}) \<union> {u. 0 \<le> u \<and> u \<in> set vs} = S \<union> {u. 0 \<le> u \<and> u \<in> set (v # vs)}" by auto
    with Cons.IH[OF _ rn_see_inv[OF Cons.prems(2), of v]] Cons.prems(1) show ?case by simp
  qed simp
  show ?thesis
    using assms
  proof (induction insts arbitrary: S s)
    case (Cons x insts)
    have "S \<union> {v. 0 \<le> v \<and> v \<in> set (rn_ids x)} \<union> {v. 0 \<le> v \<and> (\<exists>x\<in>set insts. v \<in> set (rn_ids x))}
        = S \<union> {v. 0 \<le> v \<and> (\<exists>y\<in>set (x # insts). v \<in> set (rn_ids y))}" by auto
    moreover have *: "rn_inv mx (S \<union> {v. 0 \<le> v \<and> v \<in> set (rn_ids x)}) (fold rn_see (rn_ids x) s)"
      by (rule one) (use Cons.prems in auto)
    moreover have p: "\<And>y v. y \<in> set insts \<Longrightarrow> v \<in> set (rn_ids y) \<Longrightarrow> v < mx" using Cons.prems(1) by auto
    ultimately show ?case using Cons.IH[OF p *] by (simp add: rn_number_def)
  qed (simp add: rn_number_def)
qed

lemma take_map_take: "take n (map f (take n xs) @ drop n xs) = map f (take n xs)"
  by (cases "length xs \<le> n") auto

lemma rn_inst_ids:
  "rn_ids (rn_inst mp x) = map (rn_map mp) (rn_ids x)"
  "i_op (rn_inst mp x) = i_op x" "i_imm (rn_inst mp x) = i_imm x" "i_width (rn_inst mp x) = i_width x"
  "i_is_unsigned (rn_inst mp x) = i_is_unsigned x" "i_is_float (rn_inst mp x) = i_is_float x"
  "i_call_name (rn_inst mp x) = i_call_name x"
  by (simp_all add: rn_ids_def rn_inst_def Let_def take_map_take del: take_append)

text \<open>The ids numbered are the operands of the tables.\<close>

lemma rn_ids_tables:
  "ir_wf x \<Longrightarrow> 0 \<le> v \<Longrightarrow> v \<in> set (rn_ids x) \<longleftrightarrow> v \<in> set (ir_reads x @ ir_results x)"
  by (cases "i_op x")
    (simp_all add: rn_ids_def operand_defs ir_op_with_overflow_def ir_call_max_args_def, auto)

lemma rn_inst_tables:
  assumes "ir_wf x"
  shows "ir_reads (rn_inst mp x) = map (rn_map mp) (ir_reads x)"
    and "ir_results (rn_inst mp x) = map (rn_map mp) (ir_results x)"
  using assms
  by (cases "i_op x"; simp add: rn_inst_def Let_def operand_defs ir_op_with_overflow_def ir_call_max_args_def)+

lemma rn_max_mono: "m \<le> rn_max x m"
proof -
  have r: "m \<le> rn_raise v m" for v m by (simp add: rn_raise_def)
  have f: "m \<le> fold rn_raise vs m" for vs m
  proof (induction vs arbitrary: m)
    case (Cons v vs)
    have "m \<le> rn_raise v m" by (rule r)
    also have "\<dots> \<le> fold rn_raise vs (rn_raise v m)" by (rule Cons)
    finally show ?case by simp
  qed simp
  have t: "m \<le> k \<Longrightarrow> m \<le> rn_raise v k" "m \<le> k \<Longrightarrow> m \<le> fold rn_raise vs k" for v vs m k
    using r[of k v] f[of k vs] by linarith+
  show ?thesis
    unfolding rn_max_def Let_def by (simp add: t)
qed

lemma rn_max_fold: "m \<le> fold rn_max xs m"
proof (induction xs arbitrary: m)
  case (Cons x xs)
  then show ?case using rn_max_mono[of m x] order.trans by fastforce
qed simp

section \<open>The properties\<close>

text \<open>An example function: \<open>v2 = 6 * 6; v5 = v2 + 0; v7 = v0; return v5\<close>.\<close>

definition empty_fn :: ir_function where
  "empty_fn = \<lparr>fn_name = ''f'', fn_insts = [], fn_next_value_id = 0, fn_next_label_id = 0, fn_ra = None,
     fn_ra_xmm = None, fn_value_width = [], fn_value_is_unsigned = [], fn_value_is_float = [], fn_dbg_vars = []\<rparr>"

definition scalar_ex :: ir_function where
  "scalar_ex = empty_fn\<lparr>fn_next_value_id := 8, fn_insts :=
     [mk_inst IR_CONST 0 (-1) (-1) 4 6, mk_inst IR_CONST 1 (-1) (-1) 4 0, mk_inst IR_MUL 2 0 0 4 0,
      mk_inst IR_ADD 5 2 1 4 0, mk_inst IR_COPY 7 0 (-1) 4 0, mk_inst IR_RETURN (-1) 5 (-1) 0 0]\<rparr>"

definition scalar_env :: "int \<Rightarrow> u64" where
  "scalar_env v = (if v = 0 then 6 else if v = 2 then 36 else 0)"

lemma scalar_ex_consts: "consts_hold scalar_ex scalar_env"
  by (simp add: consts_hold_def scalar_ex_def scalar_env_def mk_inst_def zero_inst_def)

text \<open>
  C7.  Constant folding preserves the meaning of every integer instruction: under register contents
  that agree with the function's integer constants, the folded instruction computes the same
  mathematical value at the same width into the same register, and an instruction is only folded
  where its operation is defined.  (Rotates are required to be unsigned, which is how they are
  emitted.)
\<close>

theorem scalar_constfold_preserves:
  assumes "consts_hold fn env" "i < length (fn_insts fn)"
    and "int_width (inst_width (fn_insts fn ! i))"
    and "i_op (fn_insts fn ! i) = IR_ROL \<Longrightarrow> inst_uns (fn_insts fn ! i)"
  shows "eval_int env (fn_insts (fst (scalar_constfold fn)) ! i) = eval_int env (fn_insts fn ! i) \<and>
    i_dst (fn_insts (fst (scalar_constfold fn)) ! i) = i_dst (fn_insts fn ! i) \<and>
    inst_width (fn_insts (fst (scalar_constfold fn)) ! i) = inst_width (fn_insts fn ! i) \<and>
    inst_uns (fn_insts (fst (scalar_constfold fn)) ! i) = inst_uns (fn_insts fn ! i) \<and>
    (fn_insts (fst (scalar_constfold fn)) ! i \<noteq> fn_insts fn ! i \<longrightarrow> eval_int env (fn_insts fn ! i) \<noteq> None)"
proof -
  let ?x = "fn_insts fn ! i" and ?cc = "const_cache_build fn"
  have "fn_insts (fst (scalar_constfold fn)) ! i = fst (constfold_inst ?cc ?x)"
    using assms(2) by (simp add: scalar_constfold_def Let_def)
  moreover have "i_dst (fst (constfold_inst ?cc ?x)) = i_dst ?x \<and>
      inst_width (fst (constfold_inst ?cc ?x)) = inst_width ?x \<and> inst_uns (fst (constfold_inst ?cc ?x)) = inst_uns ?x"
    by (simp add: constfold_inst_def Let_def split: option.splits)
  ultimately show ?thesis
    using constfold_inst_eval[OF assms(3,4) cache_sound[OF assms(1)]] constfold_inst_cases[of ?cc ?x] by auto
qed

theorem scalar_constfold_witness:
  "eval_int scalar_env (fn_insts (fst (scalar_constfold scalar_ex)) ! 2) = Some 36 \<and>
   i_op (fn_insts (fst (scalar_constfold scalar_ex)) ! 2) = IR_CONST"
proof -
  have "i_op (fn_insts (fst (scalar_constfold scalar_ex)) ! 2) = IR_CONST" by code_simp
  moreover have "eval_int scalar_env (fn_insts scalar_ex ! 2) = Some 36" by code_simp
  ultimately show ?thesis
    using scalar_constfold_preserves[OF scalar_ex_consts, of 2]
    by (simp add: scalar_ex_def mk_inst_def inst_width_def)
qed

text \<open>
  C8.  The peephole rewrites (\<open>x + 0\<close>, \<open>x - x\<close>, \<open>0 - x\<close>, \<open>x * 0\<close>, \<open>x * 1\<close>, \<open>x AND 0\<close>, ...) preserve the
  meaning of every integer instruction of width 1, 2, 4 or 8.  They only ever change instructions that
  compute an integer: every floating-point instruction, and every instruction whose value is not
  integer arithmetic, is left as it was.  Destination, width and signedness never change.
\<close>

theorem scalar_peephole_preserves:
  assumes "consts_hold fn env" "i < length (fn_insts fn)"
  shows "(int_width (inst_width (fn_insts fn ! i)) \<longrightarrow>
       eval_int env (fn_insts (fst (scalar_peephole fn)) ! i) = eval_int env (fn_insts fn ! i)) \<and>
    (fn_insts (fst (scalar_peephole fn)) ! i \<noteq> fn_insts fn ! i \<longrightarrow>
       i_is_float (fn_insts fn ! i) = 0 \<and> eval_int env (fn_insts fn ! i) \<noteq> None) \<and>
    i_dst (fn_insts (fst (scalar_peephole fn)) ! i) = i_dst (fn_insts fn ! i) \<and>
    inst_width (fn_insts (fst (scalar_peephole fn)) ! i) = inst_width (fn_insts fn ! i) \<and>
    inst_uns (fn_insts (fst (scalar_peephole fn)) ! i) = inst_uns (fn_insts fn ! i) \<and>
    i_is_float (fn_insts (fst (scalar_peephole fn)) ! i) = i_is_float (fn_insts fn ! i)"
proof -
  let ?x = "fn_insts fn ! i" and ?cc = "const_cache_build fn"
  have "fn_insts (fst (scalar_peephole fn)) ! i = fst (peephole_inst ?cc ?x)"
    using assms(2) by (simp add: scalar_peephole_def Let_def)
  moreover have "i_dst (fst (peephole_inst ?cc ?x)) = i_dst ?x \<and>
      inst_width (fst (peephole_inst ?cc ?x)) = inst_width ?x \<and> inst_uns (fst (peephole_inst ?cc ?x)) = inst_uns ?x \<and>
      i_is_float (fst (peephole_inst ?cc ?x)) = i_is_float ?x"
    by (simp add: peephole_inst_def Let_def)
  ultimately show ?thesis
    using peephole_inst_eval[OF _ cache_sound[OF assms(1)]] peephole_changed[of ?cc ?x env] by auto
qed

theorem scalar_peephole_witness:
  "eval_int scalar_env (fn_insts (fst (scalar_peephole scalar_ex)) ! 3) = Some 36 \<and>
   i_op (fn_insts (fst (scalar_peephole scalar_ex)) ! 3) = IR_COPY"
proof -
  have "i_op (fn_insts (fst (scalar_peephole scalar_ex)) ! 3) = IR_COPY" by code_simp
  moreover have "eval_int scalar_env (fn_insts scalar_ex ! 3) = Some 36" by code_simp
  ultimately show ?thesis
    using scalar_peephole_preserves[OF scalar_ex_consts, of 3]
    by (simp add: scalar_ex_def mk_inst_def inst_width_def)
qed

text \<open>
  C9.  The clean-up loop ends, and what it leaves is a common fixpoint: no pass can fold, simplify
  or remove anything any more.
\<close>

theorem cleanup_fixpoint:
  "scalar_constfold (cleanup_loop fn) = (cleanup_loop fn, False) \<and>
   scalar_peephole (cleanup_loop fn) = (cleanup_loop fn, False) \<and>
   scalar_dce (cleanup_loop fn) = (cleanup_loop fn, False)"
proof (induction fn rule: cleanup_loop.induct)
  case (1 fn)
  obtain fn' c where s: "cleanup_step fn = (fn', c)" by fastforce
  show ?case
  proof (cases c)
    case True
    with 1[OF s[symmetric] refl] s show ?thesis by (simp add: cleanup_loop.simps[of fn])
  next
    case False
    with s cleanup_step_measure(2)[of fn] have f: "fn' = fn" "\<not> snd (scalar_constfold fn)"
      "\<not> snd (scalar_peephole fn)" "\<not> snd (scalar_dce fn)" by auto
    have "cleanup_loop fn = fn" using s False f(1) by (simp add: cleanup_loop.simps[of fn])
    with f constfold_measure(2)[of fn] peephole_measure(2)[of fn] dce_measure(2)[of fn]
    show ?thesis by (metis (full_types) prod.collapse)
  qed
qed

text \<open>
  C10.  Dead-code elimination is safe: it keeps every instruction whose opcode has an effect besides the
  value it defines (stores, calls, control flow, inline assembly, ...), every volatile access, every
  instruction that defines no value, and every instruction one of whose results (value or overflow flag)
  is read by some instruction of the input; what is kept stays in the original order, and something is
  removed exactly if a change is reported.  Effects, results and reads are the tables of the opcodes,
  not those of the pass; the callee of an indirect call and all eightbytes of a return are reads.
\<close>

theorem scalar_dce_keeps:
  assumes "y \<in> set (fn_insts fn)" "ir_wf y"
    and "has_effect (i_op y) \<or> i_is_volatile y \<noteq> 0 \<or> i_dst y < 0 \<or>
      (\<exists>x\<in>set (fn_insts fn). \<exists>v\<in>set (ir_reads x). 0 \<le> v \<and> v < fn_next_value_id fn \<and> v \<in> set (ir_results y))"
  shows "y \<in> set (fn_insts (fst (scalar_dce fn))) \<and>
    (\<exists>P. fn_insts (fst (scalar_dce fn)) = filter P (fn_insts fn)) \<and>
    (snd (scalar_dce fn) \<longleftrightarrow> length (fn_insts (fst (scalar_dce fn))) < length (fn_insts fn))"
proof -
  let ?d = "dce_drops (fn_next_value_id fn) (dce_used fn)"
  have "\<not> ?d y"
  proof
    assume d: "?d y"
    note T = dce_drops_tables[OF assms(2) d]
    from d have "0 \<le> i_dst y" by (simp add: dce_drops_def)
    with T assms(3) obtain x v where "x \<in> set (fn_insts fn)" "v \<in> set (ir_reads x)" "0 \<le> v"
      "v < fn_next_value_id fn" "v \<in> set (ir_results y)" by fastforce
    with T dce_used_iff[of v fn] ir_reads_dce[of v x] show False by blast
  qed
  moreover have "list_ex ?d xs \<longleftrightarrow> length (filter (\<lambda>x. \<not> ?d x) xs) < length xs" for xs
    by (induction xs) (auto simp: less_Suc_eq_le)
  ultimately show ?thesis using assms(1) by (auto simp: scalar_dce_def Let_def)
qed

theorem scalar_dce_witness:
  "mk_inst IR_MUL 2 0 0 4 0 \<in> set (fn_insts (fst (scalar_dce scalar_ex)))"
proof -
  have "mk_inst IR_MUL 2 0 0 4 0 \<in> set (fn_insts scalar_ex)" by (simp add: scalar_ex_def)
  moreover have "ir_wf (mk_inst IR_MUL 2 0 0 4 0)" by code_simp
  moreover have "\<exists>x\<in>set (fn_insts scalar_ex). \<exists>v\<in>set (ir_reads x). 0 \<le> v \<and> v < fn_next_value_id scalar_ex \<and>
     v \<in> set (ir_results (mk_inst IR_MUL 2 0 0 4 0))"
    by (simp add: scalar_ex_def operand_defs mk_inst_def)
  ultimately show ?thesis using scalar_dce_keeps by blast
qed

text \<open>
  C11.  Renumbering is a bijection from the ids that occur as operands onto the ids below the new
  \<open>next_value_id\<close>, applied to every value every instruction reads and to every value it defines;
  opcodes, immediates, widths and names are untouched.  The operands are those of the tables of
  \<open>ir.h\<close>: the third and fourth eightbyte of a call and a return and the callee of an indirect call
  are among them.
\<close>

theorem scalar_renumber_bij:
  assumes "ir_code_wf fn" "0 < fn_next_value_id fn"
    and "\<And>x v. x \<in> set (fn_insts fn) \<Longrightarrow> v \<in> set (ir_reads x @ ir_results x) \<Longrightarrow> v < fn_next_value_id fn"
  shows "\<exists>\<sigma>. bij_betw \<sigma> {v. 0 \<le> v \<and> (\<exists>x\<in>set (fn_insts fn). v \<in> set (ir_reads x @ ir_results x))}
        {0..<fn_next_value_id (scalar_renumber fn)} \<and>
    length (fn_insts (scalar_renumber fn)) = length (fn_insts fn) \<and>
    (\<forall>i<length (fn_insts fn).
       ir_reads (fn_insts (scalar_renumber fn) ! i)
         = map (\<lambda>v. if 0 \<le> v then \<sigma> v else v) (ir_reads (fn_insts fn ! i)) \<and>
       ir_results (fn_insts (scalar_renumber fn) ! i)
         = map (\<lambda>v. if 0 \<le> v then \<sigma> v else v) (ir_results (fn_insts fn ! i)) \<and>
       i_op (fn_insts (scalar_renumber fn) ! i) = i_op (fn_insts fn ! i) \<and>
       i_imm (fn_insts (scalar_renumber fn) ! i) = i_imm (fn_insts fn ! i) \<and>
       i_width (fn_insts (scalar_renumber fn) ! i) = i_width (fn_insts fn ! i) \<and>
       i_call_name (fn_insts (scalar_renumber fn) ! i) = i_call_name (fn_insts fn ! i))"
proof -
  define mx where "mx = fold rn_max (fn_insts fn) (fn_next_value_id fn)"
  have mx: "fn_next_value_id fn \<le> mx" "0 < mx" using rn_max_fold[of "fn_next_value_id fn"] assms(2) by (auto simp: mx_def intro: less_le_trans)
  obtain mp nx where n: "rn_number (fn_insts fn) (replicate (nat mx) (-1), 0) = (mp, nx)" by fastforce
  let ?S = "{v. 0 \<le> v \<and> (\<exists>x\<in>set (fn_insts fn). v \<in> set (ir_reads x @ ir_results x))}"
  have wf: "ir_wf x" if "x \<in> set (fn_insts fn)" for x using assms(1) that by (simp add: ir_code_wf_def list_all_iff)
  have lt: "v < mx" if "x \<in> set (fn_insts fn)" "v \<in> set (rn_ids x)" for x v
    using rn_ids_tables[OF wf[OF that(1)], of v] that assms(3)[OF that(1), of v] mx by force
  have S: "{v. 0 \<le> v \<and> (\<exists>x\<in>set (fn_insts fn). v \<in> set (rn_ids x))} = ?S"
    using rn_ids_tables[OF wf] by blast
  have "rn_inv mx {} (replicate (nat mx) (-1), 0)"
    using mx by (auto simp: rn_inv_def arr_get_def bij_betw_def)
  from rn_number_inv[OF lt this, of "fn_insts fn"]
  have "rn_inv mx {v. 0 \<le> v \<and> (\<exists>x\<in>set (fn_insts fn). v \<in> set (rn_ids x))} (mp, nx)" by (simp add: n)
  then have inv: "rn_inv mx ?S (mp, nx)" unfolding S .
  have ids: "fn_next_value_id (scalar_renumber fn) = nx"
    "fn_insts (scalar_renumber fn) = map (rn_inst mp) (fn_insts fn)"
    using mx n by (simp_all add: scalar_renumber_def Let_def mx_def[symmetric])
  have m: "rn_map mp v = (if 0 \<le> v then arr_get 0 mp v else v)"
    if "x \<in> set (fn_insts fn)" "v \<in> set (ir_reads x @ ir_results x)" for x v
    using inv assms(3)[OF that] mx(1) by (auto simp: rn_map_def rn_inv_def)
  have "ir_reads (rn_inst mp x) = map (\<lambda>v. if 0 \<le> v then arr_get 0 mp v else v) (ir_reads x) \<and>
    ir_results (rn_inst mp x) = map (\<lambda>v. if 0 \<le> v then arr_get 0 mp v else v) (ir_results x)"
    if "x \<in> set (fn_insts fn)" for x
    using rn_inst_tables[OF wf[OF that], of mp] m[OF that] by simp
  with inv ids show ?thesis
    by (intro exI[of _ "arr_get 0 mp"]) (simp add: rn_inv_def rn_inst_ids(2-))
qed

theorem scalar_renumber_witness:
  "ir_reads (fn_insts (scalar_renumber scalar_ex) ! 3) = [2, 1] \<and>
   ir_results (fn_insts (scalar_renumber scalar_ex) ! 3) = [3] \<and>
   (\<exists>\<sigma>. bij_betw \<sigma> {v. 0 \<le> v \<and> (\<exists>x\<in>set (fn_insts scalar_ex). v \<in> set (ir_reads x @ ir_results x))} {0..<(5::int)})"
proof -
  have "fn_next_value_id (scalar_renumber scalar_ex) = 5" "ir_code_wf scalar_ex"
    "ir_reads (fn_insts (scalar_renumber scalar_ex) ! 3) = [2, 1]"
    "ir_results (fn_insts (scalar_renumber scalar_ex) ! 3) = [3]" by code_simp+
  moreover have "v < fn_next_value_id scalar_ex"
    if "x \<in> set (fn_insts scalar_ex)" "v \<in> set (ir_reads x @ ir_results x)" for x v
    using that by (auto simp: scalar_ex_def operand_defs mk_inst_def zero_inst_def)
  moreover have "0 < fn_next_value_id scalar_ex" by (simp add: scalar_ex_def)
  ultimately show ?thesis using scalar_renumber_bij[of scalar_ex] by (metis (no_types, lifting))
qed

end
