(* ===== verification/RegClass.thy ===== *)
theory RegClass
  imports IR
begin

text \<open>
  The register files of \<open>include/fakecc/regalloc.h\<close>, \<open>include/fakecc/reg_arm64.h\<close> and
  \<open>src/reg_arm64.c\<close>, and the choice of the register class of a value (\<open>src/regalloc.c\<close>).  The
  target and the flags that the C code reads from globals (\<open>target_current\<close>, \<open>host_has_avx512f\<close>,
  the flag set by \<open>ra_set_reserve_va_scratch\<close>) are a record argument.
\<close>

section \<open>Register files\<close>

text \<open>x86-64 ModRM codes.\<close>

definition REG_RBX :: int where "REG_RBX = 3"
definition REG_RSI :: int where "REG_RSI = 6"
definition REG_RDI :: int where "REG_RDI = 7"
definition REG_NONE :: int where "REG_NONE = -1"

definition ALLOCATABLE_REGS :: "int list" where
  "ALLOCATABLE_REGS = [REG_RSI, REG_RDI, 8, 9, 10, 11, REG_RBX, 12, 13]"

definition GP_NO_R11 :: "int list" where
  "GP_NO_R11 = [REG_RSI, REG_RDI, 8, 9, 10, REG_RBX, 12, 13]"

definition XMM_ALLOCATABLE_REGS :: "int list" where
  "XMM_ALLOCATABLE_REGS = [0, 1, 2, 3, 4, 5, 6, 7, 8, 9, 10, 11, 12, 13]"

definition XMM_CALLER_SAVED_MASK :: u32 where
  "XMM_CALLER_SAVED_MASK = push_bit 14 1 - 1"

definition a64_gp_allocatable :: "int list" where
  "a64_gp_allocatable = [2, 3, 4, 5, 6, 7, 8, 9, 10, 11, 12, 13, 14, 15, 19, 20, 21, 22, 23, 24, 25, 26, 27, 28]"

definition a64_vec_allocatable :: "int list" where
  "a64_vec_allocatable = [0, 1, 2, 3, 4, 5, 6, 7, 16, 17, 18, 19, 20, 21, 22, 23, 24, 25, 26, 27, 28, 29,
     8, 9, 10, 11, 12, 13, 14, 15]"

record ra_reg_class =
  rc_regs :: "int list"
  rc_nregs :: nat
  rc_caller_saved :: u32
  rc_spill_bytes :: int
  rc_exclude_16byte_ld :: bool

record ra_reg_classes =
  rc_gp :: ra_reg_class
  rc_simd :: ra_reg_class

datatype target_arch = TARGET_ARCH_UNKNOWN | TARGET_ARCH_X86_64 | TARGET_ARCH_ARM64

datatype target_os = TOS_UNKNOWN | TOS_LINUX | TOS_MACOS | TOS_WINDOWS

record ra_target =
  tg_arch :: target_arch
  tg_os :: target_os
  tg_avx512f :: bool
  tg_reserve_va_scratch :: bool

definition ra_classes_x86 :: "ra_target \<Rightarrow> ra_reg_classes" where
  "ra_classes_x86 t =
     (let spill = (if tg_avx512f t then 64 else 32);
          simd = \<lparr>rc_regs = XMM_ALLOCATABLE_REGS, rc_nregs = 14, rc_caller_saved = XMM_CALLER_SAVED_MASK,
                  rc_spill_bytes = spill, rc_exclude_16byte_ld = True\<rparr>
      in if tg_reserve_va_scratch t
         then \<lparr>rc_gp = \<lparr>rc_regs = GP_NO_R11, rc_nregs = 8, rc_caller_saved = 0x1F,
                        rc_spill_bytes = 8, rc_exclude_16byte_ld = False\<rparr>, rc_simd = simd\<rparr>
         else \<lparr>rc_gp = \<lparr>rc_regs = ALLOCATABLE_REGS, rc_nregs = 9, rc_caller_saved = 0x3F,
                        rc_spill_bytes = 8, rc_exclude_16byte_ld = False\<rparr>, rc_simd = simd\<rparr>)"

definition ra_classes_win64 :: "ra_target \<Rightarrow> ra_reg_classes" where
  "ra_classes_win64 t =
     (let spill = (if tg_avx512f t then 64 else 32);
          simd = \<lparr>rc_regs = XMM_ALLOCATABLE_REGS, rc_nregs = 14, rc_caller_saved = XMM_CALLER_SAVED_MASK,
                  rc_spill_bytes = spill, rc_exclude_16byte_ld = False\<rparr>
      in if tg_reserve_va_scratch t
         then \<lparr>rc_gp = \<lparr>rc_regs = GP_NO_R11, rc_nregs = 8, rc_caller_saved = 0x1C,
                        rc_spill_bytes = 8, rc_exclude_16byte_ld = False\<rparr>, rc_simd = simd\<rparr>
         else \<lparr>rc_gp = \<lparr>rc_regs = ALLOCATABLE_REGS, rc_nregs = 9, rc_caller_saved = 0x3C,
                        rc_spill_bytes = 8, rc_exclude_16byte_ld = False\<rparr>, rc_simd = simd\<rparr>)"

definition ra_classes_arm64 :: ra_reg_classes where
  "ra_classes_arm64 =
     \<lparr>rc_gp = \<lparr>rc_regs = a64_gp_allocatable, rc_nregs = 24, rc_caller_saved = 0x00003FFF,
               rc_spill_bytes = 8, rc_exclude_16byte_ld = False\<rparr>,
      rc_simd = \<lparr>rc_regs = a64_vec_allocatable, rc_nregs = 30, rc_caller_saved = 0x003FFFFF,
               rc_spill_bytes = 16, rc_exclude_16byte_ld = False\<rparr>\<rparr>"

definition ra_classes_current :: "ra_target \<Rightarrow> ra_reg_classes" where
  "ra_classes_current t =
     (if tg_arch t = TARGET_ARCH_ARM64 then ra_classes_arm64
      else if tg_os t = TOS_WINDOWS then ra_classes_win64 t
      else ra_classes_x86 t)"

section \<open>The class of a value\<close>

definition value_is_float_class :: "ir_function \<Rightarrow> int \<Rightarrow> int" where
  "value_is_float_class fn v =
     (if v < 0 then 0
      else if fn_value_meta_cap fn \<le> 0 then 0
      else if v \<ge> fn_value_meta_cap fn then 0
      else arr_get 0 (fn_value_is_float fn) v)"

definition value_is_ld :: "ir_function \<Rightarrow> int \<Rightarrow> bool" where
  "value_is_ld fn v =
     (if value_is_float_class fn v = 0 then False
      else if fn_value_meta_cap fn \<le> 0 then False
      else if v \<ge> fn_value_meta_cap fn then False
      else if arr_get 0 (fn_value_is_float fn) v = 4 then False
      else arr_get 0 (fn_value_width fn) v = 16)"

definition value_in_class :: "ir_function \<Rightarrow> int \<Rightarrow> bool \<Rightarrow> bool \<Rightarrow> bool" where
  "value_in_class fn v float_class exclude_16byte_ld =
     (if float_class
      then value_is_float_class fn v \<noteq> 0 \<and> (\<not> exclude_16byte_ld \<or> \<not> value_is_ld fn v)
      else value_is_float_class fn v = 0)"

section \<open>What the allocator relies on\<close>

text \<open>\<open>reg_class_ok\<close>: at most 32 colours (the masks are 32 bits wide), one code per colour, all different.\<close>

definition reg_class_ok :: "ra_reg_class \<Rightarrow> bool" where
  "reg_class_ok c \<longleftrightarrow> length (rc_regs c) = rc_nregs c \<and> rc_nregs c \<le> 32 \<and> distinct (rc_regs c) \<and>
     (\<forall>r\<in>set (rc_regs c). 0 \<le> r)"

lemma reg_classes_ok:
  "reg_class_ok (rc_gp (ra_classes_current t))" "reg_class_ok (rc_simd (ra_classes_current t))"
  by (auto simp: ra_classes_current_def ra_classes_x86_def ra_classes_win64_def ra_classes_arm64_def
      reg_class_ok_def Let_def ALLOCATABLE_REGS_def GP_NO_R11_def XMM_ALLOCATABLE_REGS_def
      a64_gp_allocatable_def a64_vec_allocatable_def REG_RSI_def REG_RDI_def REG_RBX_def)

text \<open>No value belongs to both classes.\<close>

lemma classes_disjoint: "\<not> (value_in_class fn v True e \<and> value_in_class fn v False e')"
  by (auto simp: value_in_class_def)

end
