(* ===== verification/Cfg.thy ===== *)
theory Cfg
  imports IR
begin

text \<open>
  \<open>src/cfg.c\<close>: the control-flow graph of a flat instruction array.  \<open>cfg_build\<close> splits the
  array into basic blocks and links them; \<open>cfg_rpo\<close> numbers the blocks in reverse postorder.
  A C pointer to the current block is the last element of the block list (the code only ever
  points there), and \<open>cfg_find_label\<close>'s \<open>-1\<close> is \<open>None\<close>.
\<close>

section \<open>Data\<close>

record cfg_block =
  blk_id :: nat
  blk_label :: int
  blk_start :: nat
  blk_end :: nat
  blk_preds :: "nat list"
  blk_succs :: "nat list"

record cfg =
  cfg_blocks :: "cfg_block list"
  cfg_entry :: nat

abbreviation cfg_num :: "cfg \<Rightarrow> nat" where
  "cfg_num g \<equiv> length (cfg_blocks g)"

abbreviation succs_of :: "cfg \<Rightarrow> nat \<Rightarrow> nat list" where
  "succs_of g b \<equiv> blk_succs (cfg_blocks g ! b)"

abbreviation preds_of :: "cfg \<Rightarrow> nat \<Rightarrow> nat list" where
  "preds_of g b \<equiv> blk_preds (cfg_blocks g ! b)"

section \<open>Construction\<close>

definition cfg_init :: cfg where
  "cfg_init = \<lparr>cfg_blocks = [], cfg_entry = 0\<rparr>"

definition cfg_new_block :: "cfg \<Rightarrow> nat \<Rightarrow> cfg" where
  "cfg_new_block g start = g\<lparr>cfg_blocks := cfg_blocks g @
     [\<lparr>blk_id = cfg_num g, blk_label = -1, blk_start = start, blk_end = start,
       blk_preds = [], blk_succs = []\<rparr>]\<rparr>"

definition block_add_pred :: "nat \<Rightarrow> cfg_block \<Rightarrow> cfg_block" where
  "block_add_pred p b = b\<lparr>blk_preds := add_unique p (blk_preds b)\<rparr>"

definition block_add_succ :: "nat \<Rightarrow> cfg_block \<Rightarrow> cfg_block" where
  "block_add_succ s b = b\<lparr>blk_succs := add_unique s (blk_succs b)\<rparr>"

definition cfg_upd :: "cfg \<Rightarrow> nat \<Rightarrow> (cfg_block \<Rightarrow> cfg_block) \<Rightarrow> cfg" where
  "cfg_upd g k f = g\<lparr>cfg_blocks := (cfg_blocks g)[k := f (cfg_blocks g ! k)]\<rparr>"

definition cfg_link :: "cfg \<Rightarrow> nat \<Rightarrow> nat \<Rightarrow> cfg" where
  "cfg_link g from to =
     (let g1 = cfg_upd g from (block_add_succ to)
      in cfg_upd g1 to (block_add_pred from))"

definition cfg_find_label :: "cfg \<Rightarrow> int \<Rightarrow> nat option" where
  "cfg_find_label g label = find_index (\<lambda>b. blk_label b = label) (cfg_blocks g)"

text \<open>Pass 1: leaders.  \<open>cur\<close> is the last block.\<close>

definition cfg_leader_step :: "ir_inst list \<Rightarrow> nat \<Rightarrow> cfg \<Rightarrow> cfg" where
  "cfg_leader_step insts i g =
     (let inst = insts ! i; cur = last (cfg_blocks g) in
      if i_op inst = IR_LABEL then
        let g1 = (if blk_end cur > blk_start cur then cfg_new_block g i else g)
        in cfg_upd g1 (cfg_num g1 - 1) (\<lambda>b. b\<lparr>blk_label := imm_int (i_imm inst), blk_end := i + 1\<rparr>)
      else
        let g1 = cfg_upd g (cfg_num g - 1) (\<lambda>b. b\<lparr>blk_end := i + 1\<rparr>)
        in if is_terminator (i_op inst) \<and> i + 1 < length insts
           then cfg_new_block g1 (i + 1) else g1)"

text \<open>Pass 2: successors.\<close>

definition link_opt :: "nat \<Rightarrow> nat option \<Rightarrow> cfg \<Rightarrow> cfg" where
  "link_opt from t g = (case t of None \<Rightarrow> g | Some to \<Rightarrow> cfg_link g from to)"

definition cfg_link_block :: "ir_inst list \<Rightarrow> nat \<Rightarrow> cfg \<Rightarrow> cfg" where
  "cfg_link_block insts bi g =
     (let b = cfg_blocks g ! bi;
          fall = (if bi + 1 < cfg_num g then cfg_link g bi (bi + 1) else g) in
      if blk_start b \<ge> blk_end b then fall
      else
        let inst = insts ! (blk_end b - 1); opc = i_op inst in
        if opc = IR_BR then link_opt bi (cfg_find_label g (imm_int (i_imm inst))) g
        else if opc = IR_CBR then
          let t = cfg_find_label g (imm_int (i_imm inst)); f = cfg_find_label g (i_b inst)
          in link_opt bi f (link_opt bi t g)
        else if opc = IR_BR_TABLE then
          let g1 = link_opt bi (cfg_find_label g (imm_int (i_imm inst))) g
          in fold (\<lambda>l g'. link_opt bi (cfg_find_label g' l) g') (i_call_args inst) g1
        else if opc = IR_JMP_PTR then g
        else if opc = IR_RETURN then g
        else fall)"

definition cfg_build :: "ir_inst list \<Rightarrow> cfg" where
  "cfg_build insts =
     (if insts = [] then cfg_new_block cfg_init 0
      else
        let g1 = fold (cfg_leader_step insts) [0..<length insts] (cfg_new_block cfg_init 0)
        in fold (cfg_link_block insts) [0..<cfg_num g1] g1)"

section \<open>Shape of the blocks\<close>

text \<open>
  \<open>block_ok insts b\<close>: in the range of the block, a label can only stand first and a terminator
  only last, and the block's label field is that of its leading label (\<open>-1\<close> without one).
\<close>

definition block_ok :: "ir_inst list \<Rightarrow> cfg_block \<Rightarrow> bool" where
  "block_ok insts b \<longleftrightarrow>
     (\<forall>j. blk_start b \<le> j \<and> j < blk_end b \<longrightarrow>
        (i_op (insts ! j) = IR_LABEL \<longrightarrow> j = blk_start b) \<and>
        (is_terminator (i_op (insts ! j)) \<longrightarrow> Suc j = blk_end b)) \<and>
     blk_label b = (if blk_start b < blk_end b \<and> i_op (insts ! blk_start b) = IR_LABEL
                    then imm_int (i_imm (insts ! blk_start b)) else -1)"

text \<open>\<open>blocks_tile n bs\<close>: the blocks' ranges follow one another from 0 to \<open>n\<close>.\<close>

definition blocks_tile :: "nat \<Rightarrow> cfg_block list \<Rightarrow> bool" where
  "blocks_tile n bs \<longleftrightarrow> bs \<noteq> [] \<and> blk_start (bs ! 0) = 0 \<and> blk_end (last bs) = n \<and>
     (\<forall>k. Suc k < length bs \<longrightarrow> blk_start (bs ! k) < blk_end (bs ! k) \<and>
        blk_start (bs ! Suc k) = blk_end (bs ! k))"

text \<open>The invariant of pass 1 after \<open>i\<close> instructions.\<close>

definition leaders_inv :: "ir_inst list \<Rightarrow> nat \<Rightarrow> cfg \<Rightarrow> bool" where
  "leaders_inv insts i g \<longleftrightarrow>
     cfg_entry g = 0 \<and> blocks_tile i (cfg_blocks g) \<and>
     (\<forall>k<cfg_num g. blk_id (cfg_blocks g ! k) = k \<and> preds_of g k = [] \<and> succs_of g k = []
        \<and> block_ok insts (cfg_blocks g ! k)) \<and>
     blk_start (last (cfg_blocks g)) \<le> i \<and>
     (blk_start (last (cfg_blocks g)) = i \<longrightarrow> i < length insts \<or> i = 0) \<and>
     (blk_start (last (cfg_blocks g)) < i \<longrightarrow>
        i = length insts \<or> \<not> is_terminator (i_op (insts ! (i - 1))))"

lemma tile_append:
  assumes "blocks_tile n bs" "blk_start (last bs) < n" "blk_start b = n" "blk_end b = m"
  shows "blocks_tile m (bs @ [b])"
proof -
  have ne: "bs \<noteq> []" using assms(1) by (simp add: blocks_tile_def)
  have "blk_start ((bs @ [b]) ! k) < blk_end ((bs @ [b]) ! k) \<and>
        blk_start ((bs @ [b]) ! Suc k) = blk_end ((bs @ [b]) ! k)"
    if k: "Suc k < length (bs @ [b])" for k
  proof (cases "Suc k < length bs")
    case True
    then show ?thesis using assms(1) by (auto simp: blocks_tile_def nth_append)
  next
    case False
    with k have "k = length bs - 1" "Suc k = length bs" by auto
    with ne assms show ?thesis by (auto simp: blocks_tile_def nth_append last_conv_nth)
  qed
  with assms ne show ?thesis by (auto simp: blocks_tile_def nth_append)
qed

lemma tile_upd_last:
  assumes "blocks_tile n bs" "blk_start (f (last bs)) = blk_start (last bs)" "blk_end (f (last bs)) = m"
  shows "blocks_tile m (bs[length bs - 1 := f (last bs)])"
  using assms unfolding blocks_tile_def
  by (auto simp: nth_list_update last_list_update last_conv_nth)

lemma cfg_upd_simps [simp]:
  "cfg_num (cfg_upd g k f) = cfg_num g"
  "cfg_entry (cfg_upd g k f) = cfg_entry g"
  "k < cfg_num g \<Longrightarrow> cfg_blocks (cfg_upd g k f) ! j =
     (if j = k then f (cfg_blocks g ! k) else cfg_blocks g ! j)"
  by (auto simp: cfg_upd_def nth_list_update)

lemma cfg_new_block_simps [simp]:
  "cfg_num (cfg_new_block g s) = Suc (cfg_num g)"
  "cfg_entry (cfg_new_block g s) = cfg_entry g"
  by (simp_all add: cfg_new_block_def)


lemma is_terminator_LABEL [simp]: "\<not> is_terminator IR_LABEL"
  by (simp add: is_terminator_def)

text \<open>Opening a block at \<open>i\<close> after a non-empty one keeps all but the last clause.\<close>

definition shape_inv :: "ir_inst list \<Rightarrow> nat \<Rightarrow> cfg \<Rightarrow> bool" where
  "shape_inv insts i g \<longleftrightarrow>
     cfg_entry g = 0 \<and> blocks_tile i (cfg_blocks g) \<and>
     (\<forall>k<cfg_num g. blk_id (cfg_blocks g ! k) = k \<and> preds_of g k = [] \<and> succs_of g k = []
        \<and> block_ok insts (cfg_blocks g ! k)) \<and>
     blk_start (last (cfg_blocks g)) \<le> i"

lemma leaders_shape: "leaders_inv insts i g \<Longrightarrow> shape_inv insts i g"
  by (auto simp: leaders_inv_def shape_inv_def)

lemma shape_new_block:
  assumes "shape_inv insts i g" and "blk_start (last (cfg_blocks g)) < i"
  shows "shape_inv insts i (cfg_new_block g i)"
    and "blk_start (last (cfg_blocks (cfg_new_block g i))) = i"
    and "blk_end (last (cfg_blocks (cfg_new_block g i))) = i"
proof -
  let ?b = "\<lparr>blk_id = cfg_num g, blk_label = -1, blk_start = i, blk_end = i,
       blk_preds = [], blk_succs = []\<rparr>"
  have "block_ok insts ?b" by (simp add: block_ok_def)
  moreover have "blocks_tile i (cfg_blocks g @ [?b])"
    using assms by (intro tile_append) (auto simp: shape_inv_def)
  ultimately show "shape_inv insts i (cfg_new_block g i)"
    using assms(1) by (auto simp: shape_inv_def cfg_new_block_def nth_append less_Suc_eq)
qed (simp_all add: cfg_new_block_def)

lemma shape_upd_last:
  assumes "shape_inv insts i g" and "j \<ge> i"
    and "f (last (cfg_blocks g)) = (last (cfg_blocks g))\<lparr>blk_label := l, blk_end := j\<rparr>"
    and "block_ok insts (f (last (cfg_blocks g)))"
  shows "shape_inv insts j (cfg_upd g (cfg_num g - 1) f)"
    and "blk_start (last (cfg_blocks (cfg_upd g (cfg_num g - 1) f))) = blk_start (last (cfg_blocks g))"
    and "blk_end (last (cfg_blocks (cfg_upd g (cfg_num g - 1) f))) = j"
proof -
  have ne: "cfg_blocks g \<noteq> []" using assms(1) by (auto simp: shape_inv_def blocks_tile_def)
  then have l: "last (cfg_blocks g) = cfg_blocks g ! (cfg_num g - 1)" by (simp add: last_conv_nth)
  have u: "cfg_blocks (cfg_upd g (cfg_num g - 1) f) = (cfg_blocks g)[cfg_num g - 1 := f (last (cfg_blocks g))]"
    by (simp add: cfg_upd_def l)
  then have last': "last (cfg_blocks (cfg_upd g (cfg_num g - 1) f)) = f (last (cfg_blocks g))"
    using ne by (simp add: last_list_update)
  then show "blk_start (last (cfg_blocks (cfg_upd g (cfg_num g - 1) f))) = blk_start (last (cfg_blocks g))"
    and "blk_end (last (cfg_blocks (cfg_upd g (cfg_num g - 1) f))) = j"
    using assms(3) by simp_all
  have "blocks_tile j (cfg_blocks (cfg_upd g (cfg_num g - 1) f))"
    unfolding u using assms(1,3) by (intro tile_upd_last) (auto simp: shape_inv_def)
  moreover have "blk_id (cfg_blocks (cfg_upd g (cfg_num g - 1) f) ! k) = k \<and>
      preds_of (cfg_upd g (cfg_num g - 1) f) k = [] \<and> succs_of (cfg_upd g (cfg_num g - 1) f) k = [] \<and>
      block_ok insts (cfg_blocks (cfg_upd g (cfg_num g - 1) f) ! k)" if "k < cfg_num g" for k
  proof (cases "k = cfg_num g - 1")
    case True
    have "cfg_blocks (cfg_upd g (cfg_num g - 1) f) ! k = f (last (cfg_blocks g))"
      using ne by (simp add: u True last_conv_nth)
    moreover have "blk_id (last (cfg_blocks g)) = k \<and> blk_preds (last (cfg_blocks g)) = []
        \<and> blk_succs (last (cfg_blocks g)) = []"
      using assms(1) that True unfolding shape_inv_def l by blast
    ultimately show ?thesis using assms(3,4) by simp
  next
    case False
    then show ?thesis using that assms(1) unfolding shape_inv_def u by simp
  qed
  moreover have "blk_start (f (last (cfg_blocks g))) \<le> j"
    using assms(1-3) by (simp add: shape_inv_def)
  ultimately show "shape_inv insts j (cfg_upd g (cfg_num g - 1) f)"
    using assms(1) last' by (simp add: shape_inv_def)
qed

lemma block_ok_extend:
  assumes "block_ok insts b" and "blk_end b = i" and "blk_start b \<le> i"
    and "i_op (insts ! i) \<noteq> IR_LABEL"
    and "blk_start b < i \<Longrightarrow> \<not> is_terminator (i_op (insts ! (i - 1)))"
  shows "block_ok insts (b\<lparr>blk_end := Suc i\<rparr>)"
proof -
  have "is_terminator (i_op (insts ! j)) \<longrightarrow> j = i" if "blk_start b \<le> j" "j < Suc i" for j
  proof (cases "j = i")
    case False
    with that have "j < i" by simp
    with assms(1,2) that(1) have "is_terminator (i_op (insts ! j)) \<longrightarrow> Suc j = i"
      by (auto simp: block_ok_def)
    moreover have "\<not> is_terminator (i_op (insts ! (i - 1)))"
      using assms(5) that(1) \<open>j < i\<close> by simp
    ultimately show ?thesis by (metis diff_Suc_1)
  qed simp
  moreover have "i_op (insts ! j) = IR_LABEL \<longrightarrow> j = blk_start b"
    if "blk_start b \<le> j" "j < Suc i" for j
    using that assms(1,2,4) unfolding block_ok_def by (cases "j = i") auto
  moreover have "blk_label b = (if i_op (insts ! blk_start b) = IR_LABEL
      then imm_int (i_imm (insts ! blk_start b)) else -1)"
    using assms(1-4) unfolding block_ok_def by (cases "blk_start b = i") auto
  ultimately show ?thesis using assms(3) unfolding block_ok_def by simp
qed

lemma block_ok_label:
  assumes "i_op (insts ! i) = IR_LABEL" and "blk_start b = i"
  shows "block_ok insts (b\<lparr>blk_label := imm_int (i_imm (insts ! i)), blk_end := Suc i\<rparr>)"
proof -
  have "j = i" if "i \<le> j" "j < Suc i" for j using that by simp
  then show ?thesis using assms unfolding block_ok_def by fastforce
qed

lemma leaders_step:
  assumes inv: "leaders_inv insts i g" and i: "i < length insts"
  shows "leaders_inv insts (Suc i) (cfg_leader_step insts i g)"
proof -
  let ?c = "last (cfg_blocks g)"
  have sh: "shape_inv insts i g" using inv by (rule leaders_shape)
  have e: "blk_end ?c = i" and s: "blk_start ?c \<le> i" and ne: "cfg_blocks g \<noteq> []"
    using inv by (auto simp: leaders_inv_def blocks_tile_def)
  have ok: "block_ok insts ?c"
    using inv ne by (auto simp: leaders_inv_def last_conv_nth)
  show ?thesis
  proof (cases "i_op (insts ! i) = IR_LABEL")
    case True
    define g1 where "g1 = (if blk_end ?c > blk_start ?c then cfg_new_block g i else g)"
    have g1: "shape_inv insts i g1 \<and> blk_start (last (cfg_blocks g1)) = i"
      using shape_new_block[OF sh] sh e s by (auto simp: g1_def)
    let ?f = "\<lambda>b. b\<lparr>blk_label := imm_int (i_imm (insts ! i)), blk_end := i + 1\<rparr>"
    have "block_ok insts (?f (last (cfg_blocks g1)))"
      using block_ok_label[OF True] g1 by simp
    then have "shape_inv insts (Suc i) (cfg_upd g1 (cfg_num g1 - 1) ?f)"
      "blk_start (last (cfg_blocks (cfg_upd g1 (cfg_num g1 - 1) ?f))) = i"
      using g1 shape_upd_last[where f = ?f and j = "Suc i" and g = g1 and i = i] by auto
    moreover have "cfg_leader_step insts i g = cfg_upd g1 (cfg_num g1 - 1) ?f"
      using True by (simp add: cfg_leader_step_def Let_def g1_def)
    ultimately show ?thesis using True by (simp add: leaders_inv_def shape_inv_def)
  next
    case False
    let ?f = "\<lambda>b. b\<lparr>blk_end := i + 1\<rparr>"
    define g1 where "g1 = cfg_upd g (cfg_num g - 1) ?f"
    have "blk_start ?c < i \<Longrightarrow> \<not> is_terminator (i_op (insts ! (i - 1)))"
      using inv i by (auto simp: leaders_inv_def)
    then have "block_ok insts (?f ?c)" using block_ok_extend[OF ok e s False] by simp
    then have g1: "shape_inv insts (Suc i) g1" "blk_start (last (cfg_blocks g1)) \<le> i"
      using shape_upd_last[OF sh, where f = ?f and j = "Suc i" and l = "blk_label ?c"] s
      by (auto simp: g1_def)
    show ?thesis
    proof (cases "is_terminator (i_op (insts ! i)) \<and> i + 1 < length insts")
      case True
      then have "cfg_leader_step insts i g = cfg_new_block g1 (Suc i)"
        using False by (simp add: cfg_leader_step_def Let_def g1_def)
      with True shape_new_block[OF g1(1)] g1(2) show ?thesis
        by (simp add: leaders_inv_def shape_inv_def)
    next
      case no: False
      then have "cfg_leader_step insts i g = g1"
        using False by (auto simp: cfg_leader_step_def Let_def g1_def)
      with no g1 i show ?thesis by (auto simp: leaders_inv_def shape_inv_def)
    qed
  qed
qed

lemma leaders_init: "leaders_inv insts 0 (cfg_new_block cfg_init 0)"
  by (simp add: leaders_inv_def cfg_new_block_def cfg_init_def blocks_tile_def block_ok_def)

definition cfg_pass1 :: "ir_inst list \<Rightarrow> cfg" where
  "cfg_pass1 insts = fold (cfg_leader_step insts) [0..<length insts] (cfg_new_block cfg_init 0)"

lemma pass1_inv: "leaders_inv insts (length insts) (cfg_pass1 insts)"
  unfolding cfg_pass1_def
  by (rule fold_upt_inv) (auto intro: leaders_init leaders_step)

section \<open>Edges\<close>

text \<open>
  What a well-formed graph is: the entry and every edge end are blocks, the lists hold no
  duplicates, and predecessors are the converse of successors.
\<close>

definition wf_graph :: "cfg \<Rightarrow> bool" where
  "wf_graph g \<longleftrightarrow> cfg_entry g < cfg_num g \<and>
     (\<forall>b<cfg_num g. set (succs_of g b) \<subseteq> {..<cfg_num g} \<and> set (preds_of g b) \<subseteq> {..<cfg_num g}
        \<and> distinct (succs_of g b) \<and> distinct (preds_of g b)) \<and>
     (\<forall>b<cfg_num g. \<forall>c<cfg_num g. c \<in> set (succs_of g b) \<longleftrightarrow> b \<in> set (preds_of g c))"

definition blk_shape :: "cfg_block \<Rightarrow> cfg_block" where
  "blk_shape b = b\<lparr>blk_preds := [], blk_succs := []\<rparr>"

text \<open>The graph without its edges; linking never changes it.\<close>

definition cfg_shape :: "cfg \<Rightarrow> nat \<times> cfg_block list" where
  "cfg_shape g = (cfg_entry g, map blk_shape (cfg_blocks g))"

lemma cfg_link_num [simp]: "cfg_num (cfg_link g f t) = cfg_num g"
  by (simp add: cfg_link_def Let_def)

lemma cfg_link_nth:
  assumes "f < cfg_num g" "t < cfg_num g"
  shows "succs_of (cfg_link g f t) b = (if b = f then add_unique t (succs_of g b) else succs_of g b)"
    and "preds_of (cfg_link g f t) b = (if b = t then add_unique f (preds_of g b) else preds_of g b)"
  using assms by (auto simp: cfg_link_def Let_def block_add_succ_def block_add_pred_def)

lemma cfg_link_shape [simp]:
  assumes "f < cfg_num g" "t < cfg_num g"
  shows "cfg_shape (cfg_link g f t) = cfg_shape g"
  using assms
  by (auto simp: cfg_shape_def cfg_link_def Let_def blk_shape_def block_add_succ_def
      block_add_pred_def intro!: nth_equalityI)

lemma cfg_link_wf:
  "wf_graph g \<Longrightarrow> f < cfg_num g \<Longrightarrow> t < cfg_num g \<Longrightarrow> wf_graph (cfg_link g f t)"
  unfolding wf_graph_def cfg_link_num
  by (simp add: cfg_link_nth) (auto simp: cfg_link_def Let_def)

lemma shape_num: "cfg_shape g = cfg_shape g' \<Longrightarrow> cfg_num g = cfg_num g'"
  by (auto simp: cfg_shape_def dest: map_eq_imp_length_eq)

lemma shape_nth:
  assumes "cfg_shape g = cfg_shape g'" "k < cfg_num g"
  shows "blk_label (cfg_blocks g ! k) = blk_label (cfg_blocks g' ! k)"
    and "blk_start (cfg_blocks g ! k) = blk_start (cfg_blocks g' ! k)"
    and "blk_end (cfg_blocks g ! k) = blk_end (cfg_blocks g' ! k)"
    and "blk_id (cfg_blocks g ! k) = blk_id (cfg_blocks g' ! k)"
proof -
  have "map blk_shape (cfg_blocks g) ! k = map blk_shape (cfg_blocks g') ! k"
    using assms(1) by (simp add: cfg_shape_def)
  then have "blk_shape (cfg_blocks g ! k) = blk_shape (cfg_blocks g' ! k)"
    using assms(2) shape_num[OF assms(1)] by simp
  then show "blk_label (cfg_blocks g ! k) = blk_label (cfg_blocks g' ! k)"
    and "blk_start (cfg_blocks g ! k) = blk_start (cfg_blocks g' ! k)"
    and "blk_end (cfg_blocks g ! k) = blk_end (cfg_blocks g' ! k)"
    and "blk_id (cfg_blocks g ! k) = blk_id (cfg_blocks g' ! k)"
    by (auto simp: blk_shape_def cfg_block.equality dest: arg_cong[of _ _ blk_label]
        arg_cong[of _ _ blk_start] arg_cong[of _ _ blk_end] arg_cong[of _ _ blk_id])
qed

lemma find_index_map: "find_index P (map f xs) = find_index (P \<circ> f) xs"
  by (induction xs) auto

lemma shape_find_label:
  assumes "cfg_shape g = cfg_shape g'"
  shows "cfg_find_label g l = cfg_find_label g' l"
proof -
  have "cfg_find_label h l = find_index (\<lambda>b. blk_label b = l) (snd (cfg_shape h))" for h
    by (simp add: cfg_find_label_def cfg_shape_def find_index_map comp_def blk_shape_def)
  with assms show ?thesis by simp
qed

lemma cfg_find_label_bound: "cfg_find_label g l = Some k \<Longrightarrow> k < cfg_num g"
  unfolding cfg_find_label_def by (rule find_index_bound)

text \<open>
  \<open>block_targets\<close>: the successors \<open>cfg_build\<close> is meant to give block \<open>bi\<close>, as a list; linking a
  block links exactly these.
\<close>

definition block_targets :: "cfg \<Rightarrow> ir_inst list \<Rightarrow> nat \<Rightarrow> nat list" where
  "block_targets g insts bi =
     (let b = cfg_blocks g ! bi; inst = insts ! (blk_end b - 1); opc = i_op inst;
          look = (\<lambda>l. opt_list (cfg_find_label g l));
          fall = (if bi + 1 < cfg_num g then [bi + 1] else []) in
      if blk_start b \<ge> blk_end b then fall
      else if opc = IR_BR then look (imm_int (i_imm inst))
      else if opc = IR_CBR then look (imm_int (i_imm inst)) @ look (i_b inst)
      else if opc = IR_BR_TABLE then look (imm_int (i_imm inst)) @ concat (map look (i_call_args inst))
      else if opc = IR_JMP_PTR \<or> opc = IR_RETURN then []
      else fall)"

lemma shape_targets:
  assumes "cfg_shape g = cfg_shape g'" "bi < cfg_num g"
  shows "block_targets g insts bi = block_targets g' insts bi"
  using shape_nth[OF assms] shape_num[OF assms(1)] shape_find_label[OF assms(1)]
  by (simp add: block_targets_def Let_def)

lemma block_targets_bound: "t \<in> set (block_targets g insts bi) \<Longrightarrow> t < cfg_num g"
  by (auto simp: block_targets_def Let_def dest: cfg_find_label_bound split: if_splits)

definition link_all :: "nat \<Rightarrow> nat list \<Rightarrow> cfg \<Rightarrow> cfg" where
  "link_all from ts g = fold (\<lambda>t g. cfg_link g from t) ts g"

lemma link_all_simps [simp]:
  "link_all from [] g = g"
  "link_all from (t # ts) g = link_all from ts (cfg_link g from t)"
  "link_all from (ts @ us) g = link_all from us (link_all from ts g)"
  by (simp_all add: link_all_def)

lemma link_all_num [simp]: "cfg_num (link_all from ts g) = cfg_num g"
  by (induction ts arbitrary: g) auto

lemma link_all_shape:
  "from < cfg_num g \<Longrightarrow> \<forall>t\<in>set ts. t < cfg_num g \<Longrightarrow> cfg_shape (link_all from ts g) = cfg_shape g"
  by (induction ts arbitrary: g) auto

lemma link_all_wf:
  "wf_graph g \<Longrightarrow> from < cfg_num g \<Longrightarrow> \<forall>t\<in>set ts. t < cfg_num g \<Longrightarrow> wf_graph (link_all from ts g)"
  by (induction ts arbitrary: g) (auto simp: cfg_link_wf)

lemma link_all_succs:
  "from < cfg_num g \<Longrightarrow> \<forall>t\<in>set ts. t < cfg_num g \<Longrightarrow>
   set (succs_of (link_all from ts g) b) = set (succs_of g b) \<union> (if b = from then set ts else {})"
  by (induction ts arbitrary: g) (auto simp: cfg_link_nth)

lemma link_opt_all:
  "link_opt from t g = link_all from (opt_list t) g"
  by (simp add: link_opt_def split: option.splits)

lemma link_table:
  assumes "from < cfg_num g" "cfg_shape g = cfg_shape g0"
  shows "fold (\<lambda>l g'. link_opt from (cfg_find_label g' l) g') ls g =
    link_all from (concat (map (\<lambda>l. opt_list (cfg_find_label g0 l)) ls)) g"
  using assms
proof (induction ls arbitrary: g)
  case (Cons l ls)
  have sh: "cfg_find_label g l = cfg_find_label g0 l" using Cons.prems(2) by (rule shape_find_label)
  let ?g = "link_opt from (cfg_find_label g l) g"
  have "from < cfg_num ?g" "cfg_shape ?g = cfg_shape g0"
    using Cons.prems by (auto simp: link_opt_def dest: cfg_find_label_bound split: option.splits)
  from Cons.IH[OF this] show ?case by (simp add: sh link_opt_all)
qed simp

lemma link_block_all:
  assumes "bi < cfg_num g"
  shows "cfg_link_block insts bi g = link_all bi (block_targets g insts bi) g"
proof -
  have "cfg_shape (link_opt bi (cfg_find_label g l) g) = cfg_shape g" for l
    using assms by (auto simp: link_opt_def dest: cfg_find_label_bound split: option.splits)
  then have tab: "fold (\<lambda>l g'. link_opt bi (cfg_find_label g' l) g') ls (link_opt bi (cfg_find_label g m) g) =
    link_all bi (concat (map (\<lambda>l. opt_list (cfg_find_label g l)) ls))
      (link_opt bi (cfg_find_label g m) g)" for ls m
    using assms by (intro link_table) (auto simp: link_opt_all)
  show ?thesis
    unfolding cfg_link_block_def block_targets_def Let_def
    by (simp only: tab) (simp add: link_opt_all)
qed

text \<open>The whole of pass 2.\<close>

lemma link_blocks:
  fixes insts :: "ir_inst list"
  assumes "wf_graph g" "\<forall>b<cfg_num g. succs_of g b = []" "m \<le> cfg_num g"
  defines "h \<equiv> fold (cfg_link_block insts) [0..<m] g"
  shows "cfg_shape h = cfg_shape g \<and> wf_graph h \<and>
    (\<forall>b<cfg_num g. set (succs_of h b) = (if b < m then set (block_targets g insts b) else {}))"
  unfolding h_def using assms(3)
proof (induction m)
  case 0
  then show ?case using assms(1,2) by simp
next
  case (Suc m)
  let ?h = "fold (cfg_link_block insts) [0..<m] g"
  have IH: "cfg_shape ?h = cfg_shape g" "wf_graph ?h"
    "\<forall>b<cfg_num g. set (succs_of ?h b) = (if b < m then set (block_targets g insts b) else {})"
    using Suc by auto
  have n: "cfg_num ?h = cfg_num g" using IH(1) by (rule shape_num)
  have m: "m < cfg_num ?h" using Suc.prems n by simp
  have t: "block_targets ?h insts m = block_targets g insts m" using IH(1) m by (rule shape_targets)
  have b: "\<forall>t\<in>set (block_targets g insts m). t < cfg_num ?h"
    using block_targets_bound n by fastforce
  show ?case
    using IH link_all_shape[OF m b] link_all_wf[OF IH(2) m b] link_all_succs[OF m b]
    by (simp add: link_block_all[OF m] t less_Suc_eq)
qed

lemma pass1_wf:
  assumes "leaders_inv insts i g" shows "wf_graph g"
  using assms by (auto simp: leaders_inv_def wf_graph_def blocks_tile_def)

lemma cfg_build_pass2:
  "insts \<noteq> [] \<Longrightarrow>
   cfg_build insts = fold (cfg_link_block insts) [0..<cfg_num (cfg_pass1 insts)] (cfg_pass1 insts)"
  by (simp add: cfg_build_def Let_def cfg_pass1_def)

lemma cfg_build_facts:
  "cfg_shape (cfg_build insts) = cfg_shape (cfg_pass1 insts)"
  "wf_graph (cfg_build insts)"
  "b < cfg_num (cfg_build insts) \<Longrightarrow> insts \<noteq> [] \<Longrightarrow>
     set (succs_of (cfg_build insts) b) = set (block_targets (cfg_build insts) insts b)"
proof -
  have inv: "leaders_inv insts (length insts) (cfg_pass1 insts)" by (rule pass1_inv)
  have wf: "wf_graph (cfg_pass1 insts)" using inv by (rule pass1_wf)
  have main: "cfg_shape (cfg_build insts) = cfg_shape (cfg_pass1 insts) \<and> wf_graph (cfg_build insts) \<and>
    (b < cfg_num (cfg_build insts) \<longrightarrow> insts \<noteq> [] \<longrightarrow>
     set (succs_of (cfg_build insts) b) = set (block_targets (cfg_build insts) insts b))" for b
  proof (cases "insts = []")
    case True
    then have "cfg_build insts = cfg_pass1 insts" by (simp add: cfg_build_def cfg_pass1_def)
    with wf True show ?thesis by simp
  next
    case False
    have s: "\<forall>b<cfg_num (cfg_pass1 insts). succs_of (cfg_pass1 insts) b = []"
      using inv by (auto simp: leaders_inv_def)
    note L = link_blocks[OF wf s order_refl, of insts, folded cfg_build_pass2[OF False]]
    then have sh: "cfg_shape (cfg_build insts) = cfg_shape (cfg_pass1 insts)" by simp
    then have n: "cfg_num (cfg_build insts) = cfg_num (cfg_pass1 insts)" by (rule shape_num)
    show ?thesis using L n shape_targets[OF sh, of b insts] by simp
  qed
  then show "cfg_shape (cfg_build insts) = cfg_shape (cfg_pass1 insts)"
    and "wf_graph (cfg_build insts)"
    and "b < cfg_num (cfg_build insts) \<Longrightarrow> insts \<noteq> [] \<Longrightarrow>
      set (succs_of (cfg_build insts) b) = set (block_targets (cfg_build insts) insts b)"
    by blast+
qed

section \<open>The blocks of a built graph\<close>

lemma find_index_eqI:
  "i < length xs \<Longrightarrow> P (xs ! i) \<Longrightarrow> (\<And>j. j < i \<Longrightarrow> \<not> P (xs ! j)) \<Longrightarrow> find_index P xs = Some i"
  by (metis find_index_SomeD find_index_ex le_antisym linorder_not_less)

lemma tile_start_mono:
  assumes "blocks_tile n bs" "k < length bs" "j < k"
  shows "blk_end (bs ! j) \<le> blk_start (bs ! k)"
  using assms(2,3)
proof (induction k)
  case (Suc k)
  have st: "blk_start (bs ! k) < blk_end (bs ! k)" "blk_start (bs ! Suc k) = blk_end (bs ! k)"
    using assms(1) Suc.prems(1) by (auto simp: blocks_tile_def)
  show ?case
  proof (cases "j = k")
    case False
    with Suc have "blk_end (bs ! j) \<le> blk_start (bs ! k)" by simp
    with st show ?thesis by simp
  qed (use st in simp)
qed simp

lemma tile_cover:
  assumes "blocks_tile n bs" "i < n"
  shows "\<exists>k<length bs. blk_start (bs ! k) \<le> i \<and> i < blk_end (bs ! k)"
proof -
  have l: "blk_end (bs ! (length bs - 1)) = n" "bs \<noteq> []" "blk_start (bs ! 0) = 0"
    using assms(1) by (auto simp: blocks_tile_def last_conv_nth)
  have "\<exists>k<length bs. i < blk_end (bs ! k)"
    using l assms(2) by (intro exI[of _ "length bs - 1"]) simp
  then obtain k where k: "k < length bs" "i < blk_end (bs ! k)"
    "\<And>j. j < k \<Longrightarrow> \<not> (j < length bs \<and> i < blk_end (bs ! j))"
    using exists_least_iff[of "\<lambda>k. k < length bs \<and> i < blk_end (bs ! k)"] by blast
  have "blk_start (bs ! k) \<le> i"
  proof (cases k)
    case (Suc m)
    with k assms(1) have "blk_start (bs ! k) = blk_end (bs ! m)" by (simp add: blocks_tile_def)
    moreover have "\<not> i < blk_end (bs ! m)" using k(3)[of m] Suc k(1) by simp
    ultimately show ?thesis by simp
  qed (use l in simp)
  with k show ?thesis by blast
qed

lemma shape_tile: "cfg_shape g = cfg_shape g' \<Longrightarrow> blocks_tile n (cfg_blocks g) = blocks_tile n (cfg_blocks g')"
proof -
  assume s: "cfg_shape g = cfg_shape g'"
  have n: "cfg_num g = cfg_num g'" using s by (rule shape_num)
  have "(cfg_blocks g = []) = (cfg_blocks g' = [])" using n by (metis length_0_conv)
  then show ?thesis
    using shape_nth[OF s] n unfolding blocks_tile_def by (auto simp: last_conv_nth)
qed

lemma shape_block_ok:
  "cfg_shape g = cfg_shape g' \<Longrightarrow> k < cfg_num g \<Longrightarrow>
   block_ok insts (cfg_blocks g ! k) = block_ok insts (cfg_blocks g' ! k)"
  by (simp add: block_ok_def shape_nth[of g g'])

lemma cfg_build_blocks:
  shows "blocks_tile (length insts) (cfg_blocks (cfg_build insts))"
    and "cfg_entry (cfg_build insts) = 0"
    and "k < cfg_num (cfg_build insts) \<Longrightarrow> block_ok insts (cfg_blocks (cfg_build insts) ! k)"
    and "k < cfg_num (cfg_build insts) \<Longrightarrow> blk_id (cfg_blocks (cfg_build insts) ! k) = k"
    and "k < cfg_num (cfg_build insts) \<Longrightarrow> insts \<noteq> [] \<Longrightarrow>
      blk_start (cfg_blocks (cfg_build insts) ! k) < blk_end (cfg_blocks (cfg_build insts) ! k)"
proof -
  let ?g = "cfg_build insts" and ?p = "cfg_pass1 insts"
  have sh: "cfg_shape ?g = cfg_shape ?p" by (rule cfg_build_facts)
  have inv: "leaders_inv insts (length insts) ?p" by (rule pass1_inv)
  have n: "cfg_num ?g = cfg_num ?p" using sh by (rule shape_num)
  show t: "blocks_tile (length insts) (cfg_blocks ?g)"
    using inv by (simp add: shape_tile[OF sh] leaders_inv_def)
  show "cfg_entry ?g = 0" using sh inv by (simp add: cfg_shape_def leaders_inv_def)
  show "block_ok insts (cfg_blocks ?g ! k)" if "k < cfg_num ?g"
    using inv that n by (simp add: shape_block_ok[OF sh that] leaders_inv_def)
  show "blk_id (cfg_blocks ?g ! k) = k" if "k < cfg_num ?g"
    using inv that n by (simp add: shape_nth(4)[OF sh that] leaders_inv_def)
  show "blk_start (cfg_blocks ?g ! k) < blk_end (cfg_blocks ?g ! k)"
    if k: "k < cfg_num ?g" and ne: "insts \<noteq> []"
  proof (cases "Suc k < cfg_num ?g")
    case True
    with t show ?thesis by (simp add: blocks_tile_def)
  next
    case False
    with k n have kl: "k = cfg_num ?p - 1" "cfg_blocks ?p \<noteq> []" by auto
    have "blk_start (last (cfg_blocks ?p)) < length insts" "blk_end (last (cfg_blocks ?p)) = length insts"
      using inv ne by (auto simp: leaders_inv_def blocks_tile_def le_less)
    with kl have "blk_start (cfg_blocks ?p ! k) < blk_end (cfg_blocks ?p ! k)"
      by (simp add: last_conv_nth)
    then show ?thesis using shape_nth(2,3)[OF sh k] by simp
  qed
qed

section \<open>Control flow of the instruction array\<close>

text \<open>
  The specification, read off the opcode comments of \<open>ir.h\<close>: the position a label names, and the
  positions control can reach from instruction \<open>i\<close> (an indirect jump has none recorded).
\<close>

definition label_pc :: "ir_inst list \<Rightarrow> int \<Rightarrow> nat option" where
  "label_pc insts l = find_index (\<lambda>x. i_op x = IR_LABEL \<and> imm_int (i_imm x) = l) insts"

definition branch_labels :: "ir_inst \<Rightarrow> int list" where
  "branch_labels x =
     (if i_op x = IR_BR then [imm_int (i_imm x)]
      else if i_op x = IR_CBR then [imm_int (i_imm x), i_b x]
      else if i_op x = IR_BR_TABLE then imm_int (i_imm x) # i_call_args x
      else [])"

definition flow_succs :: "ir_inst list \<Rightarrow> nat \<Rightarrow> nat list" where
  "flow_succs insts i =
     (if is_terminator (i_op (insts ! i))
      then concat (map (\<lambda>l. opt_list (label_pc insts l)) (branch_labels (insts ! i)))
      else [i + 1])"

text \<open>Every label a branch names is a real label id (the lowering counts them up from 0).\<close>

definition labels_ok :: "ir_inst list \<Rightarrow> bool" where
  "labels_ok insts \<longleftrightarrow> (\<forall>x\<in>set insts. \<forall>l\<in>set (branch_labels x). l \<noteq> -1)"

lemma find_label_pc:
  assumes "l \<noteq> -1" and "insts \<noteq> []"
  shows "label_pc insts l =
    map_option (\<lambda>k. blk_start (cfg_blocks (cfg_build insts) ! k)) (cfg_find_label (cfg_build insts) l)"
proof -
  let ?g = "cfg_build insts" and ?P = "\<lambda>x. i_op x = IR_LABEL \<and> imm_int (i_imm x) = l"
  note B = cfg_build_blocks[where insts = insts]
  have lab: "blk_label (cfg_blocks ?g ! k) = l \<longleftrightarrow> ?P (insts ! blk_start (cfg_blocks ?g ! k))"
    if "k < cfg_num ?g" for k
    using B(3)[OF that] B(5)[OF that assms(2)] assms(1) by (simp add: block_ok_def)
  have pos: "\<exists>k<cfg_num ?g. blk_start (cfg_blocks ?g ! k) = p \<and> blk_label (cfg_blocks ?g ! k) = l"
    if p: "p < length insts" "?P (insts ! p)" for p
  proof -
    from tile_cover[OF B(1) p(1)] obtain k where k: "k < cfg_num ?g"
      "blk_start (cfg_blocks ?g ! k) \<le> p" "p < blk_end (cfg_blocks ?g ! k)" by blast
    with B(3)[OF k(1)] p(2) have "p = blk_start (cfg_blocks ?g ! k)" by (simp add: block_ok_def)
    with k(1) p(2) lab show ?thesis by blast
  qed
  show ?thesis
  proof (cases "cfg_find_label ?g l")
    case None
    have "\<not> ?P x" if x: "x \<in> set insts" for x
    proof
      assume "?P x"
      with x obtain p where "p < length insts" "?P (insts ! p)" by (auto simp: in_set_conv_nth)
      from pos[OF this] None show False
        by (auto simp: cfg_find_label_def find_index_None_iff dest: nth_mem)
    qed
    then have "label_pc insts l = None" unfolding label_pc_def find_index_None_iff by blast
    with None show ?thesis by simp
  next
    case (Some k)
    from find_index_SomeD[OF Some[unfolded cfg_find_label_def]]
    have k: "k < cfg_num ?g" "blk_label (cfg_blocks ?g ! k) = l"
      "\<And>j. j < k \<Longrightarrow> blk_label (cfg_blocks ?g ! j) \<noteq> l" by auto
    have st: "blk_start (cfg_blocks ?g ! k) < length insts"
    proof -
      have "blk_start (cfg_blocks ?g ! k) < blk_end (cfg_blocks ?g ! k)" using B(5)[OF k(1) assms(2)] .
      also have "blk_end (cfg_blocks ?g ! k) \<le> length insts"
      proof (cases "Suc k < cfg_num ?g")
        case True
        then have "k < cfg_num ?g - 1" by simp
        from tile_start_mono[OF B(1) _ this] B(5)[of "cfg_num ?g - 1"] assms(2) k(1) B(1)
        show ?thesis by (auto simp: blocks_tile_def last_conv_nth)
      next
        case False
        with k(1) have "k = cfg_num ?g - 1" by simp
        with B(1) show ?thesis by (auto simp: blocks_tile_def last_conv_nth)
      qed
      finally show ?thesis .
    qed
    have "label_pc insts l = Some (blk_start (cfg_blocks ?g ! k))"
      unfolding label_pc_def
    proof (rule find_index_eqI)
      fix p assume p: "p < blk_start (cfg_blocks ?g ! k)"
      show "\<not> ?P (insts ! p)"
      proof
        assume "?P (insts ! p)"
        from pos[OF _ this] p st obtain j where j: "j < cfg_num ?g"
          "blk_start (cfg_blocks ?g ! j) = p" "blk_label (cfg_blocks ?g ! j) = l" by auto
        with k(3) have "k \<le> j" by (metis linorder_not_less)
        moreover have "k \<noteq> j" using j p by auto
        ultimately have "blk_end (cfg_blocks ?g ! k) \<le> p"
          using tile_start_mono[OF B(1) j(1), of k] j(2) by simp
        with B(5)[OF k(1) assms(2)] p show False by simp
      qed
    qed (use st lab[OF k(1)] k(2) in auto)
    with Some show ?thesis by simp
  qed
qed

lemma build_start_inj:
  assumes "insts \<noteq> []" "j < cfg_num (cfg_build insts)" "k < cfg_num (cfg_build insts)"
    and "blk_start (cfg_blocks (cfg_build insts) ! j) = blk_start (cfg_blocks (cfg_build insts) ! k)"
  shows "j = k"
  using tile_start_mono[OF cfg_build_blocks(1)[of insts], of j k]
    tile_start_mono[OF cfg_build_blocks(1)[of insts], of k j]
    cfg_build_blocks(5)[of j insts] cfg_build_blocks(5)[of k insts] assms
  by (cases j k rule: linorder_cases) auto

lemma target_flow:
  assumes "labels_ok insts" "insts \<noteq> []" "b < cfg_num (cfg_build insts)" "c < cfg_num (cfg_build insts)"
    and "x = insts ! (blk_end (cfg_blocks (cfg_build insts) ! b) - 1)" "x \<in> set insts"
    and "l \<in> set (branch_labels x)"
  shows "cfg_find_label (cfg_build insts) l = Some c \<longleftrightarrow>
    label_pc insts l = Some (blk_start (cfg_blocks (cfg_build insts) ! c))"
proof -
  have "l \<noteq> -1" using assms(1,6,7) by (auto simp: labels_ok_def)
  from find_label_pc[OF this assms(2)] show ?thesis
    using build_start_inj[OF assms(2) _ assms(4)] cfg_find_label_bound[of "cfg_build insts" l]
    by (auto split: option.splits)
qed

lemma build_end_bound:
  assumes "insts \<noteq> []" "b < cfg_num (cfg_build insts)"
  shows "blk_end (cfg_blocks (cfg_build insts) ! b) \<le> length insts"
proof (cases "Suc b < cfg_num (cfg_build insts)")
  case True
  let ?n = "cfg_num (cfg_build insts)"
  have "blk_end (cfg_blocks (cfg_build insts) ! b) \<le> blk_start (cfg_blocks (cfg_build insts) ! (?n - 1))"
    by (rule tile_start_mono[OF cfg_build_blocks(1)[of insts]]) (use True in auto)
  also have "\<dots> \<le> blk_end (cfg_blocks (cfg_build insts) ! (?n - 1))"
    using cfg_build_blocks(5)[of "?n - 1" insts] assms less_imp_le by fastforce
  also have "\<dots> = length insts"
    using cfg_build_blocks(1)[of insts] by (auto simp: blocks_tile_def last_conv_nth)
  finally show ?thesis .
next
  case False
  with assms(2) have "b = cfg_num (cfg_build insts) - 1" by simp
  with cfg_build_blocks(1)[of insts] show ?thesis by (auto simp: blocks_tile_def last_conv_nth)
qed

section \<open>The properties\<close>

text \<open>An example: a diamond, whose two arms meet in block 3.\<close>

definition diamond_insts :: "ir_inst list" where
  "diamond_insts =
     [mk_inst IR_PARAM 0 (-1) (-1) 4 0, mk_inst IR_CBR (-1) 0 2 0 1,
      mk_inst IR_LABEL (-1) (-1) (-1) 0 1, mk_inst IR_CONST 1 (-1) (-1) 4 7, mk_inst IR_BR (-1) (-1) (-1) 0 3,
      mk_inst IR_LABEL (-1) (-1) (-1) 0 2, mk_inst IR_CONST 2 (-1) (-1) 4 9,
      mk_inst IR_LABEL (-1) (-1) (-1) 0 3, mk_inst IR_RETURN (-1) 0 (-1) 0 0]"

lemma diamond_graph:
  "map blk_succs (cfg_blocks (cfg_build diamond_insts)) = [[1, 2], [3], [3], []]"
  "map blk_preds (cfg_blocks (cfg_build diamond_insts)) = [[], [0], [0], [1, 2]]"
  "map blk_start (cfg_blocks (cfg_build diamond_insts)) = [0, 2, 5, 7]"
  by code_simp+

lemma diamond_ok: "labels_ok diamond_insts" by code_simp

text \<open>Blocks are opened nowhere but at the first instruction, at a label and after a terminator.\<close>

definition leader :: "ir_inst list \<Rightarrow> nat \<Rightarrow> bool" where
  "leader insts i \<longleftrightarrow> i = 0 \<or> i_op (insts ! i) = IR_LABEL \<or> is_terminator (i_op (insts ! (i - 1)))"

lemma starts_upd:
  "(\<And>b. blk_start (f b) = blk_start b) \<Longrightarrow> map blk_start (cfg_blocks (cfg_upd g k f)) = map blk_start (cfg_blocks g)"
  by (cases "k < cfg_num g") (auto simp: cfg_upd_def nth_list_update list_update_beyond intro!: nth_equalityI)

lemma starts_step:
  "set (map blk_start (cfg_blocks (cfg_leader_step insts i g))) \<subseteq>
     set (map blk_start (cfg_blocks g)) \<union> {j. leader insts j}"
  by (auto simp: cfg_leader_step_def Let_def starts_upd cfg_new_block_def leader_def simp del: set_map)

lemma build_starts:
  assumes "k < cfg_num (cfg_build insts)"
  shows "leader insts (blk_start (cfg_blocks (cfg_build insts) ! k))"
proof -
  have "set (map blk_start (cfg_blocks (cfg_pass1 insts))) \<subseteq> {j. leader insts j}"
    unfolding cfg_pass1_def
  proof (rule fold_upt_inv[where P = "\<lambda>_ g. set (map blk_start (cfg_blocks g)) \<subseteq> {j. leader insts j}"])
    show "set (map blk_start (cfg_blocks (cfg_new_block cfg_init 0))) \<subseteq> {j. leader insts j}"
      by (simp add: cfg_new_block_def cfg_init_def leader_def)
  qed (use starts_step in blast)+
  moreover have sh: "cfg_shape (cfg_build insts) = cfg_shape (cfg_pass1 insts)" by (rule cfg_build_facts)
  ultimately show ?thesis using assms shape_num[OF sh] by (auto simp: shape_nth[OF sh assms] subset_iff)
qed

text \<open>
  C1.  The blocks \<open>cfg_build\<close> produces partition the instruction array: every instruction lies in
  exactly one block, and for every block: it is not empty and lies inside the array, its id is its
  position, a label in it can only be its first instruction and a branch or return only its last.  No
  block is split without need: its first instruction is the first of the array, a label, or the one after
  a branch or return.
\<close>

theorem cfg_build_partition:
  assumes "insts \<noteq> []"
  shows "(\<forall>i<length insts. \<exists>!k. k < cfg_num (cfg_build insts) \<and>
      blk_start (cfg_blocks (cfg_build insts) ! k) \<le> i \<and> i < blk_end (cfg_blocks (cfg_build insts) ! k)) \<and>
    (\<forall>k<cfg_num (cfg_build insts). blk_id (cfg_blocks (cfg_build insts) ! k) = k \<and>
      blk_start (cfg_blocks (cfg_build insts) ! k) < blk_end (cfg_blocks (cfg_build insts) ! k) \<and>
      blk_end (cfg_blocks (cfg_build insts) ! k) \<le> length insts \<and>
      leader insts (blk_start (cfg_blocks (cfg_build insts) ! k)) \<and>
      (\<forall>i. blk_start (cfg_blocks (cfg_build insts) ! k) \<le> i \<and> i < blk_end (cfg_blocks (cfg_build insts) ! k) \<longrightarrow>
        (i_op (insts ! i) = IR_LABEL \<longrightarrow> i = blk_start (cfg_blocks (cfg_build insts) ! k)) \<and>
        (is_terminator (i_op (insts ! i)) \<longrightarrow> Suc i = blk_end (cfg_blocks (cfg_build insts) ! k))))"
proof (intro conjI allI impI)
  let ?bs = "cfg_blocks (cfg_build insts)"
  note B = cfg_build_blocks[where insts = insts]
  show "\<exists>!k. k < length ?bs \<and> blk_start (?bs ! k) \<le> i \<and> i < blk_end (?bs ! k)" if i: "i < length insts" for i
  proof -
    from tile_cover[OF B(1) i] obtain k where k: "k < length ?bs" "blk_start (?bs ! k) \<le> i" "i < blk_end (?bs ! k)"
      by blast
    have "j = k" if "j < length ?bs" "blk_start (?bs ! j) \<le> i" "i < blk_end (?bs ! j)" for j
      using tile_start_mono[OF B(1), of k j] tile_start_mono[OF B(1), of j k] k that
      by (cases j k rule: linorder_cases) auto
    with k show ?thesis by blast
  qed
  fix k assume k: "k < length ?bs"
  show "blk_id (?bs ! k) = k" "blk_start (?bs ! k) < blk_end (?bs ! k)" "blk_end (?bs ! k) \<le> length insts"
    "leader insts (blk_start (?bs ! k))"
    using B(4)[OF k] B(5)[OF k assms] build_end_bound[OF assms k] build_starts[OF k] by simp_all
  fix i assume i: "blk_start (?bs ! k) \<le> i \<and> i < blk_end (?bs ! k)"
  show "i = blk_start (?bs ! k)" if "i_op (insts ! i) = IR_LABEL"
    using i that B(3)[OF k] unfolding block_ok_def by blast
  show "Suc i = blk_end (?bs ! k)" if "is_terminator (i_op (insts ! i))"
    using i that B(3)[OF k] unfolding block_ok_def by blast
qed

theorem cfg_build_partition_witness:
  "(\<exists>!k. k < cfg_num (cfg_build diamond_insts) \<and>
      blk_start (cfg_blocks (cfg_build diamond_insts) ! k) \<le> 3 \<and> 3 < blk_end (cfg_blocks (cfg_build diamond_insts) ! k)) \<and>
   blk_start (cfg_blocks (cfg_build diamond_insts) ! 2) < blk_end (cfg_blocks (cfg_build diamond_insts) ! 2)"
proof -
  have ne: "diamond_insts \<noteq> []" "3 < length diamond_insts" by (simp_all add: diamond_insts_def)
  have n: "2 < cfg_num (cfg_build diamond_insts)" by code_simp
  from cfg_build_partition[OF ne(1)] ne(2) n show ?thesis by (elim conjE) blast
qed



end
