(* ===== verification/Dominance.thy ===== *)
theory Dominance
  imports Cfg
begin

text \<open>
  The abstract specification behind \<open>src/domtree.c\<close>: walks from the entry block, reachability and
  dominance as a statement about all walks.  The locale \<open>flow_graph\<close> is the interface the
  numbering and the dominator computation need of a graph; \<open>cfg_build\<close> provides it for every
  instruction array.
\<close>

section \<open>Walks and dominance\<close>

inductive walk :: "cfg \<Rightarrow> nat list \<Rightarrow> bool" for g where
  walk_entry: "walk g [cfg_entry g]"
| walk_step: "walk g ns \<Longrightarrow> c \<in> set (succs_of g (last ns)) \<Longrightarrow> walk g (ns @ [c])"

inductive_simps walk_Nil [simp]: "walk g []"

definition reachable :: "cfg \<Rightarrow> nat \<Rightarrow> bool" where
  "reachable g b \<longleftrightarrow> (\<exists>ns. walk g ns \<and> last ns = b)"

definition dominates :: "cfg \<Rightarrow> nat \<Rightarrow> nat \<Rightarrow> bool" where
  "dominates g a b \<longleftrightarrow> (\<forall>ns. walk g ns \<longrightarrow> last ns = b \<longrightarrow> a \<in> set ns)"

definition sdom :: "cfg \<Rightarrow> nat \<Rightarrow> nat \<Rightarrow> bool" where
  "sdom g a b \<longleftrightarrow> dominates g a b \<and> a \<noteq> b"

lemma walk_not_Nil: "walk g ns \<Longrightarrow> ns \<noteq> []"
  by (induction rule: walk.induct) auto

lemma walk_snoc:
  "walk g (ns @ [c]) \<longleftrightarrow> (ns = [] \<and> c = cfg_entry g) \<or> (walk g ns \<and> c \<in> set (succs_of g (last ns)))"
proof
  assume "walk g (ns @ [c])"
  then show "(ns = [] \<and> c = cfg_entry g) \<or> (walk g ns \<and> c \<in> set (succs_of g (last ns)))"
    by (cases rule: walk.cases) auto
next
  assume "(ns = [] \<and> c = cfg_entry g) \<or> (walk g ns \<and> c \<in> set (succs_of g (last ns)))"
  then show "walk g (ns @ [c])" using walk_entry walk_step by fastforce
qed

lemma walk_prefix: "walk g (us @ vs) \<Longrightarrow> us \<noteq> [] \<Longrightarrow> walk g us"
proof (induction vs rule: rev_induct)
  case (snoc v vs)
  then have "walk g ((us @ vs) @ [v])" "us @ vs \<noteq> []" by auto
  then have "walk g (us @ vs)" by (simp only: walk_snoc) blast
  with snoc show ?case by blast
qed simp

lemma walk_hd: "walk g ns \<Longrightarrow> hd ns = cfg_entry g"
proof (induction rule: walk.induct)
  case (walk_step ns c)
  then show ?case using walk_not_Nil[OF walk_step.hyps(1)] by simp
qed simp

lemma walk_split: "walk g ns \<Longrightarrow> x \<in> set ns \<Longrightarrow> \<exists>us vs. ns = us @ x # vs \<and> walk g (us @ [x])"
proof -
  assume w: "walk g ns" and "x \<in> set ns"
  then obtain us vs where "ns = us @ x # vs" by (meson split_list)
  moreover have "walk g (us @ [x])" by (rule walk_prefix[of g "us @ [x]" vs]) (use w calculation in auto)
  ultimately show ?thesis by blast
qed

lemma walk_reachable: "walk g ns \<Longrightarrow> x \<in> set ns \<Longrightarrow> reachable g x"
  using walk_split[of g ns x] unfolding reachable_def by force

lemma reachable_entry [simp]: "reachable g (cfg_entry g)"
  unfolding reachable_def using walk_entry by fastforce

lemma reachable_succ: "reachable g b \<Longrightarrow> c \<in> set (succs_of g b) \<Longrightarrow> reachable g c"
  unfolding reachable_def using walk_step by fastforce

text \<open>A walk can be shortened to one without repetition that visits fewer blocks.\<close>

lemma walk_distinct:
  "walk g ns \<Longrightarrow> \<exists>ms. walk g ms \<and> last ms = last ns \<and> set ms \<subseteq> set ns \<and> distinct ms"
proof (induction rule: walk.induct)
  case walk_entry
  show ?case by (intro exI[of _ "[cfg_entry g]"]) (simp add: walk.walk_entry)
next
  case (walk_step ns c)
  then obtain ms where ms: "walk g ms" "last ms = last ns" "set ms \<subseteq> set ns" "distinct ms" by blast
  show ?case
  proof (cases "c \<in> set ms")
    case True
    with ms(1) obtain us vs where "ms = us @ c # vs" "walk g (us @ [c])" using walk_split by blast
    with ms show ?thesis by (intro exI[of _ "us @ [c]"]) auto
  next
    case False
    with ms walk_step(2) have "walk g (ms @ [c])" by (simp add: walk.walk_step)
    with ms False show ?thesis by (intro exI[of _ "ms @ [c]"]) auto
  qed
qed

lemma dom_refl [simp]: "dominates g a a"
  unfolding dominates_def using walk_not_Nil last_in_set by fastforce

lemma dom_entry [simp]: "dominates g (cfg_entry g) b"
  unfolding dominates_def using walk_hd walk_not_Nil hd_in_set by metis

lemma dom_trans:
  assumes "dominates g a b" "dominates g b c" shows "dominates g a c"
  unfolding dominates_def
proof (intro allI impI)
  fix ns assume "walk g ns" "last ns = c"
  with assms(2) have "b \<in> set ns" by (simp add: dominates_def)
  with \<open>walk g ns\<close> obtain us vs where "ns = us @ b # vs" "walk g (us @ [b])" using walk_split by blast
  with assms(1) have "a \<in> set (us @ [b])" unfolding dominates_def by fastforce
  with \<open>ns = us @ b # vs\<close> show "a \<in> set ns" by auto
qed

lemma dom_antisym:
  assumes "dominates g a b" "dominates g b a" "reachable g a" shows "a = b"
proof (rule ccontr)
  assume ne: "a \<noteq> b"
  let ?P = "\<lambda>ns. walk g ns \<and> last ns = a"
  from assms(3) have ex: "\<exists>ns. ?P ns" by (simp add: reachable_def)
  define m where "m = (ARG_MIN length ns. ?P ns)"
  have m: "?P m" "\<And>ns. ?P ns \<Longrightarrow> length m \<le> length ns"
    unfolding m_def using ex by (metis (mono_tags, lifting) arg_min_natI, metis (mono_tags, lifting) arg_min_nat_le)
  with assms(2) have "b \<in> set m" by (auto simp: dominates_def)
  then obtain us vs where s: "m = us @ b # vs" "walk g (us @ [b])" using walk_split m(1) by blast
  with assms(1) have "a \<in> set (us @ [b])" unfolding dominates_def by fastforce
  with s(2) obtain us' vs' where e: "us @ [b] = us' @ a # vs'" "walk g (us' @ [a])" using walk_split by blast
  then have "length us + 1 = length us' + 1 + length vs'" "vs' \<noteq> []"
    using ne arg_cong[OF e(1), of length] by (auto simp: append_eq_append_conv2)
  then have "length us' + 1 < length m" using s(1) by (cases vs') auto
  with m(2)[of "us' @ [a]"] e(2) show False by simp
qed

lemma dom_reachable: "dominates g a b \<Longrightarrow> reachable g b \<Longrightarrow> reachable g a"
  unfolding dominates_def using walk_reachable by (auto simp: reachable_def)

section \<open>The interface of a flow graph\<close>

locale flow_graph =
  fixes g :: cfg
  assumes entry_block: "cfg_entry g < cfg_num g"
    and succ_block: "b < cfg_num g \<Longrightarrow> c \<in> set (succs_of g b) \<Longrightarrow> c < cfg_num g"
    and pred_block: "c < cfg_num g \<Longrightarrow> b \<in> set (preds_of g c) \<Longrightarrow> b < cfg_num g"
    and succ_pred: "b < cfg_num g \<Longrightarrow> c < cfg_num g \<Longrightarrow>
      c \<in> set (succs_of g b) \<longleftrightarrow> b \<in> set (preds_of g c)"
begin

lemma walk_blocks: "walk g ns \<Longrightarrow> set ns \<subseteq> {..<cfg_num g}"
proof (induction rule: walk.induct)
  case (walk_step ns c)
  then have "last ns < cfg_num g" using walk_not_Nil last_in_set by blast
  with walk_step show ?case by (auto intro: succ_block)
qed (simp add: entry_block)

lemma reachable_block: "reachable g b \<Longrightarrow> b < cfg_num g"
  unfolding reachable_def using walk_blocks walk_not_Nil last_in_set by blast

lemma walk_length: "walk g ns \<Longrightarrow> distinct ns \<Longrightarrow> length ns \<le> cfg_num g"
  using walk_blocks[of ns] card_mono[of "{..<cfg_num g}" "set ns"] by (simp add: distinct_card)

lemma reachable_pred:
  assumes "reachable g b" "b \<noteq> cfg_entry g"
  shows "\<exists>p\<in>set (preds_of g b). reachable g p"
proof -
  from assms(1) obtain ns where ns: "walk g ns" "last ns = b" by (auto simp: reachable_def)
  from ns(1) show ?thesis
  proof (cases rule: walk.cases)
    case walk_entry
    with ns assms(2) show ?thesis by simp
  next
    case (walk_step ms c)
    then have "reachable g (last ms)" "b \<in> set (succs_of g (last ms))"
      using ns by (auto simp: reachable_def)
    then show ?thesis using succ_pred reachable_block assms(1) by blast
  qed
qed

lemma walk_snoc_pred:
  assumes "walk g (ns @ [b])" "ns \<noteq> []"
  shows "walk g ns" and "last ns \<in> set (preds_of g b)"
proof -
  show w: "walk g ns" using walk_prefix assms by blast
  from assms have s: "b \<in> set (succs_of g (last ns))" by (simp add: walk_snoc)
  have "last ns < cfg_num g" using w reachable_block by (auto simp: reachable_def)
  with s show "last ns \<in> set (preds_of g b)" using succ_pred succ_block by blast
qed

lemma sdom_pred:
  assumes "sdom g d b" "b < cfg_num g" "p \<in> set (preds_of g b)"
  shows "dominates g d p"
  unfolding dominates_def
proof (intro allI impI)
  fix ns assume ns: "walk g ns" "last ns = p"
  have "b \<in> set (succs_of g p)" using assms(2,3) succ_pred pred_block by blast
  with ns have "walk g (ns @ [b])" by (simp add: walk.walk_step)
  with assms(1) have "d \<in> set (ns @ [b])" unfolding sdom_def dominates_def by fastforce
  with assms(1) show "d \<in> set ns" by (auto simp: sdom_def)
qed

end

text \<open>\<open>cfg_build\<close> provides the interface, for every instruction array.\<close>

lemma wf_graph_flow_graph: "wf_graph g \<Longrightarrow> flow_graph g"
  unfolding wf_graph_def by unfold_locales blast+

interpretation built: flow_graph "cfg_build insts" for insts
  by (rule wf_graph_flow_graph) (rule cfg_build_facts)

end
