(* ===== verification/Bitset.thy ===== *)
theory Bitset
  imports Prelude
begin

text \<open>
  The \<open>BitSet\<close> of \<open>src/regalloc.c\<close>: sets of value ids packed into 64-bit words.  The locale
  \<open>packed_set\<close> is the contract its clients use (an abstraction to \<open>nat set\<close> and how each operation
  acts on it); the interpretation at the end discharges it for the words.
\<close>

section \<open>The code\<close>

record bitset =
  bs_w :: "u64 list"
  bs_nv :: nat

definition bs_init :: "nat \<Rightarrow> bitset" where
  "bs_init nv = \<lparr>bs_w = replicate ((nv + 63) div 64) 0, bs_nv = nv\<rparr>"

definition bs_clear :: "bitset \<Rightarrow> bitset" where
  "bs_clear b = b\<lparr>bs_w := replicate (length (bs_w b)) 0\<rparr>"

definition bs_test :: "bitset \<Rightarrow> nat \<Rightarrow> bool" where
  "bs_test b v \<longleftrightarrow> drop_bit (v mod 64) (bs_w b ! (v div 64)) AND 1 \<noteq> 0"

definition bs_set :: "bitset \<Rightarrow> nat \<Rightarrow> bitset" where
  "bs_set b v = b\<lparr>bs_w := (bs_w b)[v div 64 := (bs_w b ! (v div 64)) OR push_bit (v mod 64) 1]\<rparr>"

definition bs_clr :: "bitset \<Rightarrow> nat \<Rightarrow> bitset" where
  "bs_clr b v = b\<lparr>bs_w := (bs_w b)[v div 64 := (bs_w b ! (v div 64)) AND NOT (push_bit (v mod 64) 1)]\<rparr>"

definition bs_or_changed :: "bitset \<Rightarrow> bitset \<Rightarrow> bitset \<times> bool" where
  "bs_or_changed dst src =
     (let ws = map2 (OR) (bs_w dst) (bs_w src)
      in (dst\<lparr>bs_w := ws\<rparr>, list_ex (\<lambda>(after, before). after \<noteq> before) (zip ws (bs_w dst))))"

definition bs_copy :: "bitset \<Rightarrow> bitset \<Rightarrow> bitset" where
  "bs_copy dst src = dst\<lparr>bs_w := take (length (bs_w dst)) (bs_w src)\<rparr>"

text \<open>\<open>tmp.w[wi] &= ~def.w[wi]\<close> and \<open>tmp.w[wi] |= use.w[wi]\<close> over all words.\<close>

definition bs_andnot :: "bitset \<Rightarrow> bitset \<Rightarrow> bitset" where
  "bs_andnot b d = b\<lparr>bs_w := map2 (\<lambda>x y. x AND NOT y) (bs_w b) (bs_w d)\<rparr>"

definition bs_or :: "bitset \<Rightarrow> bitset \<Rightarrow> bitset" where
  "bs_or b u = fst (bs_or_changed b u)"

text \<open>\<open>BS_FOREACH\<close>\<close>

definition bs_elems :: "bitset \<Rightarrow> nat list" where
  "bs_elems b = filter (bs_test b) [0..<bs_nv b]"

section \<open>The contract\<close>

locale packed_set =
  fixes ok :: "'b \<Rightarrow> bool" and abs :: "'b \<Rightarrow> nat set" and size :: "'b \<Rightarrow> nat"
    and empty :: "nat \<Rightarrow> 'b" and test :: "'b \<Rightarrow> nat \<Rightarrow> bool" and add :: "'b \<Rightarrow> nat \<Rightarrow> 'b"
    and del :: "'b \<Rightarrow> nat \<Rightarrow> 'b" and union :: "'b \<Rightarrow> 'b \<Rightarrow> 'b" and minus :: "'b \<Rightarrow> 'b \<Rightarrow> 'b"
  assumes empty: "ok (empty n)" "size (empty n) = n" "abs (empty n) = {}"
    and test: "ok b \<Longrightarrow> v < size b \<Longrightarrow> test b v \<longleftrightarrow> v \<in> abs b"
    and add: "ok b \<Longrightarrow> v < size b \<Longrightarrow> ok (add b v) \<and> size (add b v) = size b \<and> abs (add b v) = insert v (abs b)"
    and del: "ok b \<Longrightarrow> v < size b \<Longrightarrow> ok (del b v) \<and> size (del b v) = size b \<and> abs (del b v) = abs b - {v}"
    and union: "ok b \<Longrightarrow> ok c \<Longrightarrow> size b = size c \<Longrightarrow>
      ok (union b c) \<and> size (union b c) = size b \<and> abs (union b c) = abs b \<union> abs c"
    and minus: "ok b \<Longrightarrow> ok c \<Longrightarrow> size b = size c \<Longrightarrow>
      ok (minus b c) \<and> size (minus b c) = size b \<and> abs (minus b c) = abs b - abs c"
    and ext: "ok b \<Longrightarrow> ok c \<Longrightarrow> size b = size c \<Longrightarrow> abs b = abs c \<Longrightarrow> b = c"
begin

lemma add_all:
  "ok b \<Longrightarrow> (\<And>v. v \<in> set vs \<Longrightarrow> v < size b) \<Longrightarrow>
    ok (fold (\<lambda>v b. add b v) vs b) \<and> size (fold (\<lambda>v b. add b v) vs b) = size b \<and>
    abs (fold (\<lambda>v b. add b v) vs b) = abs b \<union> set vs"
proof (induction vs arbitrary: b)
  case (Cons v vs)
  then have a: "ok (add b v)" "size (add b v) = size b" "abs (add b v) = insert v (abs b)"
    using add by simp_all
  with Cons.IH[of "add b v"] Cons.prems show ?case by auto
qed simp

lemma del_all:
  "ok b \<Longrightarrow> (\<And>v. v \<in> set vs \<Longrightarrow> v < size b) \<Longrightarrow>
    ok (fold (\<lambda>v b. del b v) vs b) \<and> size (fold (\<lambda>v b. del b v) vs b) = size b \<and>
    abs (fold (\<lambda>v b. del b v) vs b) = abs b - set vs"
proof (induction vs arbitrary: b)
  case (Cons v vs)
  then have a: "ok (del b v)" "size (del b v) = size b" "abs (del b v) = abs b - {v}"
    using del by simp_all
  with Cons.IH[of "del b v"] Cons.prems show ?case by auto
qed simp

lemma union_all:
  "ok b \<Longrightarrow> (\<And>c. c \<in> set cs \<Longrightarrow> ok c \<and> size c = size b) \<Longrightarrow>
    ok (fold (\<lambda>c b. union b c) cs b) \<and> size (fold (\<lambda>c b. union b c) cs b) = size b \<and>
    abs (fold (\<lambda>c b. union b c) cs b) = abs b \<union> \<Union> (abs ` set cs)"
proof (induction cs arbitrary: b)
  case (Cons c cs)
  then have a: "ok (union b c)" "size (union b c) = size b" "abs (union b c) = abs b \<union> abs c"
    using union by simp_all
  with Cons.IH[of "union b c"] Cons.prems show ?case by auto
qed simp

end

section \<open>The words provide it\<close>

text \<open>Bits above \<open>nv\<close> are never set.\<close>

definition bs_abs :: "bitset \<Rightarrow> nat set" where
  "bs_abs b = {v. v < 64 * length (bs_w b) \<and> bit (bs_w b ! (v div 64)) (v mod 64)}"

definition bs_ok :: "bitset \<Rightarrow> bool" where
  "bs_ok b \<longleftrightarrow> length (bs_w b) = (bs_nv b + 63) div 64 \<and> bs_abs b \<subseteq> {..<bs_nv b}"

lemma bs_test_bit: "bs_test b v \<longleftrightarrow> bit (bs_w b ! (v div 64)) (v mod 64)"
  unfolding bs_test_def by (simp add: bit_iff_and_drop_bit_eq_1 and_one_eq odd_iff_mod_2_eq_one)

lemma bs_index: "v < bs_nv b \<Longrightarrow> length (bs_w b) = (bs_nv b + 63) div 64 \<Longrightarrow>
  v div 64 < length (bs_w b) \<and> v < 64 * length (bs_w b)"
  by auto

lemma bs_abs_upd:
  assumes "v < bs_nv b" "length (bs_w b) = (bs_nv b + 63) div 64"
  shows "bs_abs (bs_set b v) = insert v (bs_abs b)" "bs_abs (bs_clr b v) = bs_abs b - {v}"
proof -
  have l: "v div 64 < length (bs_w b)" "v < 64 * length (bs_w b)" using bs_index[OF assms] by auto
  have u: "u div 64 = v div 64 \<Longrightarrow> u mod 64 = v mod 64 \<Longrightarrow> u = v" for u :: nat
    by (metis div_mult_mod_eq)
  have m: "v mod 64 < 64" by simp
  show "bs_abs (bs_set b v) = insert v (bs_abs b)"
    using l u by (auto simp: bs_abs_def bs_set_def nth_list_update bit_or_iff bit_push_bit_iff bit_1_iff bit_exp_iff
        split: if_splits)
  show "bs_abs (bs_clr b v) = bs_abs b - {v}"
    using l u by (auto simp: bs_abs_def bs_clr_def nth_list_update bit_and_iff bit_not_iff bit_push_bit_iff bit_1_iff bit_exp_iff
        split: if_splits)
qed

lemma bs_ext:
  assumes "length (bs_w b) = length (bs_w c)" "bs_nv b = bs_nv c" "bs_abs b = bs_abs c"
  shows "b = c"
proof -
  have "bs_w b = bs_w c"
  proof (rule nth_equalityI)
    fix i assume i: "i < length (bs_w b)"
    show "bs_w b ! i = bs_w c ! i"
    proof (rule bit_word_eqI)
      fix n assume n: "n < LENGTH(64)"
      have "64 * i + n < 64 * length (bs_w b)" using i n by simp
      moreover have "(64 * i + n) div 64 = i" "(64 * i + n) mod 64 = n" using n by simp_all
      ultimately show "bit (bs_w b ! i) n = bit (bs_w c ! i) n"
        using assms(1,3) unfolding bs_abs_def set_eq_iff mem_Collect_eq by metis
    qed
  qed (rule assms(1))
  with assms(2) show ?thesis by simp
qed

interpretation bs: packed_set bs_ok bs_abs bs_nv bs_init bs_test bs_set bs_clr bs_or bs_andnot
proof
  fix n show "bs_ok (bs_init n)" "bs_nv (bs_init n) = n" "bs_abs (bs_init n) = {}"
    by (auto simp: bs_ok_def bs_init_def bs_abs_def)
next
  fix b v assume b: "bs_ok b" and v: "v < bs_nv b"
  then have l: "length (bs_w b) = (bs_nv b + 63) div 64" by (simp add: bs_ok_def)
  show "bs_test b v \<longleftrightarrow> v \<in> bs_abs b" using bs_index[OF v l] by (simp add: bs_test_bit bs_abs_def)
  have f: "bs_nv (bs_set b v) = bs_nv b" "length (bs_w (bs_set b v)) = length (bs_w b)"
    "bs_nv (bs_clr b v) = bs_nv b" "length (bs_w (bs_clr b v)) = length (bs_w b)"
    by (simp_all add: bs_set_def bs_clr_def)
  show "bs_ok (bs_set b v) \<and> bs_nv (bs_set b v) = bs_nv b \<and> bs_abs (bs_set b v) = insert v (bs_abs b)"
    "bs_ok (bs_clr b v) \<and> bs_nv (bs_clr b v) = bs_nv b \<and> bs_abs (bs_clr b v) = bs_abs b - {v}"
    using b v f bs_abs_upd[OF v l] by (auto simp: bs_ok_def)
next
  fix b c assume bc: "bs_ok b" "bs_ok c" "bs_nv b = bs_nv c"
  then have l: "length (bs_w b) = length (bs_w c)" by (simp add: bs_ok_def)
  have "bs_abs (bs_or b c) = bs_abs b \<union> bs_abs c" "bs_abs (bs_andnot b c) = bs_abs b - bs_abs c"
    using l by (auto simp: bs_abs_def bs_or_def bs_or_changed_def bs_andnot_def Let_def bit_or_iff bit_and_iff bit_not_iff)
  moreover have "bs_nv (bs_or b c) = bs_nv b" "length (bs_w (bs_or b c)) = length (bs_w b)"
    "bs_nv (bs_andnot b c) = bs_nv b" "length (bs_w (bs_andnot b c)) = length (bs_w b)"
    using l by (simp_all add: bs_or_def bs_or_changed_def bs_andnot_def Let_def)
  ultimately show "bs_ok (bs_or b c) \<and> bs_nv (bs_or b c) = bs_nv b \<and> bs_abs (bs_or b c) = bs_abs b \<union> bs_abs c"
    "bs_ok (bs_andnot b c) \<and> bs_nv (bs_andnot b c) = bs_nv b \<and> bs_abs (bs_andnot b c) = bs_abs b - bs_abs c"
    using bc by (auto simp: bs_ok_def)
  show "bs_abs b = bs_abs c \<Longrightarrow> b = c" using bs_ext[OF l bc(3)] .
qed

lemma set_bs_elems: "bs_ok b \<Longrightarrow> set (bs_elems b) = bs_abs b"
  using bs.test[of b] by (auto simp: bs_elems_def bs_ok_def)

lemma bs_clear_abs [simp]: "bs_ok b \<Longrightarrow> bs_ok (bs_clear b) \<and> bs_nv (bs_clear b) = bs_nv b \<and> bs_abs (bs_clear b) = {}"
  by (auto simp: bs_ok_def bs_clear_def bs_abs_def)

lemma bs_copy_eq: "bs_ok b \<Longrightarrow> bs_ok c \<Longrightarrow> bs_nv b = bs_nv c \<Longrightarrow> bs_copy b c = c"
  by (simp add: bs_copy_def bs_ok_def)

end
