(* ===== verification/Liveness.thy ===== *)
theory Liveness
  imports Dominance Bitset Operands
begin

text \<open>
  The liveness part of \<open>src/regalloc.c\<close>: the definition map, the extra operands that folded addresses
  keep alive, the per-value use points, and the block-level dataflow on packed bit sets.  Its
  specification is \<open>ir_live\<close>: a value is live where control can reach an instruction that reads it, by
  the table of operands of \<open>Operands\<close>, without passing one that defines it.  \<open>compute_live_in_out\<close> is
  shown to end and to compute exactly that, for every value but the callee of an indirect call: the
  uses of \<open>regalloc.c\<close> leave \<open>call_callee\<close> out, and \<open>callee_not_live\<close> shows the bit sets missing a
  live callee.  \<open>live_from\<close>, liveness over the code's own uses, is internal to the proofs.
\<close>

section \<open>Definition map and folded addresses\<close>

definition ra_build_defs :: "ir_function \<Rightarrow> int list" where
  "ra_build_defs fn =
     (let nv = fn_next_value_id fn; n = nat (if nv > 0 then nv else 1)
      in fold (\<lambda>i def. let d = i_dst (fn_insts fn ! i)
                       in if 0 \<le> d \<and> d < nv then arr_set def d (int i) else def)
           [0..<length (fn_insts fn)] (replicate n (-1)))"

text \<open>\<open>v\<close> is in range and has a definition; \<open>def_inst\<close> is the defining instruction.\<close>

definition has_def :: "ir_function \<Rightarrow> int list \<Rightarrow> int \<Rightarrow> bool" where
  "has_def fn def v \<longleftrightarrow> 0 \<le> v \<and> v < fn_next_value_id fn \<and> 0 \<le> arr_get (-1) def v"

definition def_inst :: "ir_function \<Rightarrow> int list \<Rightarrow> int \<Rightarrow> ir_inst" where
  "def_inst fn def v = fn_insts fn ! nat (arr_get (-1) def v)"

definition def_op_is :: "ir_function \<Rightarrow> int list \<Rightarrow> int \<Rightarrow> ir_op \<Rightarrow> bool" where
  "def_op_is fn def v opc \<longleftrightarrow> has_def fn def v \<and> i_op (def_inst fn def v) = opc"

function ra_is_stack_base :: "ir_function \<Rightarrow> int list \<Rightarrow> int \<Rightarrow> nat \<Rightarrow> bool" where
  "ra_is_stack_base fn def v depth =
     (if depth > 8 \<or> \<not> has_def fn def v then False
      else
        let d = def_inst fn def v in
        if i_op d = IR_ADDR then True
        else if i_op d \<noteq> IR_ADD then False
        else if def_op_is fn def (i_b d) IR_CONST then ra_is_stack_base fn def (i_a d) (depth + 1)
        else if def_op_is fn def (i_a d) IR_CONST then ra_is_stack_base fn def (i_b d) (depth + 1)
        else False)"
  by pat_completeness auto
termination by (relation "measure (\<lambda>(fn, def, v, depth). 9 - depth)") auto

declare ra_is_stack_base.simps [simp del]

definition ra_is_gaddr :: "ir_function \<Rightarrow> int list \<Rightarrow> int \<Rightarrow> bool" where
  "ra_is_gaddr fn def v \<longleftrightarrow> def_op_is fn def v IR_GADDR \<or> def_op_is fn def v IR_GADDR_TLS"

function ra_ok_index_loop :: "ir_function \<Rightarrow> int list \<Rightarrow> int \<Rightarrow> nat \<Rightarrow> bool" where
  "ra_ok_index_loop fn def v depth =
     (if has_def fn def v \<and> depth < 8 then
        let d = def_inst fn def v; opc = i_op d in
        if opc = IR_COPY \<or> opc = IR_SEXT \<or> opc = IR_ZEXT then ra_ok_index_loop fn def (i_a d) (depth + 1)
        else opc \<noteq> IR_CONST \<and> opc \<noteq> IR_ADDR \<and> opc \<noteq> IR_GADDR \<and> opc \<noteq> IR_GADDR_TLS \<and> opc \<noteq> IR_FADDR
      else False)"
  by pat_completeness auto
termination by (relation "measure (\<lambda>(fn, def, v, depth). 8 - depth)") auto

declare ra_ok_index_loop.simps [simp del]

definition ra_ok_index :: "ir_function \<Rightarrow> int list \<Rightarrow> int \<Rightarrow> bool" where
  "ra_ok_index fn def v = ra_ok_index_loop fn def v 0"

text \<open>\<open>extra[0..n)\<close> is the list \<open>extra\<close>.\<close>

definition ra_push_idx :: "ir_function \<Rightarrow> int list \<Rightarrow> int \<Rightarrow> int list \<Rightarrow> nat \<Rightarrow> int list" where
  "ra_push_idx fn def idx extra cap =
     (if length extra \<ge> cap \<or> idx < 0 then extra
      else
        let extra1 = extra @ [idx] in
        if \<not> has_def fn def idx \<or> length extra1 \<ge> cap then extra1
        else
          let md = def_inst fn def idx in
          if i_op md \<noteq> IR_MUL then extra1
          else
            let scaled = (\<lambda>k inner.
              let factor = i_imm (def_inst fn def k)
              in if (factor = 2 \<or> factor = 4 \<or> factor = 8) \<and> inner \<ge> 0 \<and> length extra1 < cap
                 then extra1 @ [inner] else extra1)
            in if def_op_is fn def (i_b md) IR_CONST then scaled (i_b md) (i_a md)
               else if def_op_is fn def (i_a md) IR_CONST then scaled (i_a md) (i_b md)
               else extra1)"

text \<open>The loop that peels \<open>ADD\<close>s of constants; it stops at a value without a definition.\<close>

fun peel_const_adds :: "nat \<Rightarrow> ir_function \<Rightarrow> int list \<Rightarrow> int \<Rightarrow> int" where
  "peel_const_adds 0 fn def ptr = ptr"
| "peel_const_adds (Suc k) fn def ptr =
     (if \<not> has_def fn def ptr then ptr
      else
        let pd = def_inst fn def ptr in
        if i_op pd \<noteq> IR_ADD then ptr
        else if def_op_is fn def (i_b pd) IR_CONST \<and> \<not> def_op_is fn def (i_a pd) IR_CONST
        then peel_const_adds k fn def (i_a pd)
        else if def_op_is fn def (i_a pd) IR_CONST \<and> \<not> def_op_is fn def (i_b pd) IR_CONST
        then peel_const_adds k fn def (i_b pd)
        else ptr)"

definition addr_fold_extras :: "ir_function \<Rightarrow> int list \<Rightarrow> int \<Rightarrow> int \<Rightarrow> nat \<Rightarrow> int list" where
  "addr_fold_extras fn def ptr0 width cap =
     (if width \<noteq> 1 \<and> width \<noteq> 2 \<and> width \<noteq> 4 \<and> width \<noteq> 8 then []
      else
        let ptr = peel_const_adds 8 fn def ptr0 in
        if \<not> has_def fn def ptr0 \<or> \<not> has_def fn def ptr then []
        else
          let d = def_inst fn def ptr in
          if i_op d \<noteq> IR_ADD then []
          else
            let a_const = def_op_is fn def (i_a d) IR_CONST;
                b_const = def_op_is fn def (i_b d) IR_CONST;
                a_stack = ra_is_stack_base fn def (i_a d) 0;
                b_stack = ra_is_stack_base fn def (i_b d) 0
            in
            if (a_stack \<and> b_const) \<or> (b_stack \<and> a_const) then []
            else if a_stack \<and> \<not> b_const \<and> ra_ok_index fn def (i_b d) then ra_push_idx fn def (i_b d) [] cap
            else if b_stack \<and> \<not> a_const \<and> ra_ok_index fn def (i_a d) then ra_push_idx fn def (i_a d) [] cap
            else if ra_is_gaddr fn def (i_a d) \<and> \<not> b_const \<and> ra_ok_index fn def (i_b d)
            then ra_push_idx fn def (i_b d) (if 0 < cap then [i_a d] else []) cap
            else if ra_is_gaddr fn def (i_b d) \<and> \<not> a_const \<and> ra_ok_index fn def (i_a d)
            then ra_push_idx fn def (i_a d) (if 0 < cap then [i_b d] else []) cap
            else [])"

section \<open>Uses and definitions of an instruction\<close>

definition ra_skips :: "ir_inst \<Rightarrow> bool" where
  "ra_skips inst \<longleftrightarrow> i_op inst = IR_LABEL \<or> i_op inst = IR_BR \<or> i_op inst = IR_DBG_VALUE"

definition operand_uses :: "ir_inst \<Rightarrow> int list" where
  "operand_uses inst =
     (if ir_op_vec_store (i_op inst) then [i_dst inst] else []) @ [i_a inst] @
     (if i_op inst \<noteq> IR_CBR \<and> i_op inst \<noteq> IR_CALL then [i_b inst] else []) @
     (if i_op inst = IR_RETURN then [i_c inst, i_d inst] else []) @
     (if i_op inst = IR_CALL \<or> i_op inst = IR_ASM then i_call_args inst else [])"

definition folded_uses :: "ir_function \<Rightarrow> int list \<Rightarrow> ir_inst \<Rightarrow> int list" where
  "folded_uses fn def inst =
     (if i_op inst = IR_LOAD_PTR \<or> i_op inst = IR_STORE_PTR
      then addr_fold_extras fn def (i_a inst) (i_width inst) 4 else [])"

text \<open>The results besides \<open>dst\<close>: the further eightbytes of a call and the overflow flag.\<close>

definition extra_defs :: "ir_inst \<Rightarrow> int list" where
  "extra_defs inst =
     (if i_op inst = IR_CALL then [i_b inst, i_c inst, i_d inst]
      else if ir_op_with_overflow (i_op inst) then [i_c inst] else [])"

definition dst_def :: "ir_inst \<Rightarrow> int list" where
  "dst_def inst = (if ir_op_vec_store (i_op inst) then [] else [i_dst inst])"

text \<open>The ids in range, as bit positions.\<close>

definition in_range :: "nat \<Rightarrow> int list \<Rightarrow> nat list" where
  "in_range nv vs = map nat (filter (\<lambda>v. 0 \<le> v \<and> v < int nv) vs)"

definition inst_uses :: "nat \<Rightarrow> ir_function \<Rightarrow> int list \<Rightarrow> ir_inst \<Rightarrow> nat list" where
  "inst_uses nv fn def inst =
     (if ra_skips inst then [] else in_range nv (operand_uses inst @ folded_uses fn def inst))"

definition inst_defs :: "nat \<Rightarrow> ir_inst \<Rightarrow> nat list" where
  "inst_defs nv inst = (if ra_skips inst then [] else in_range nv (dst_def inst @ extra_defs inst))"

lemma in_range_less: "v \<in> set (in_range nv vs) \<Longrightarrow> v < nv"
  by (auto simp: in_range_def)

lemma inst_less: "v \<in> set (inst_uses nv fn def x) \<Longrightarrow> v < nv" "v \<in> set (inst_defs nv x) \<Longrightarrow> v < nv"
  by (auto simp: inst_uses_def inst_defs_def dest: in_range_less split: if_splits)

section \<open>Use points\<close>

record live_info =
  li_def_point :: int
  li_use_points :: "int list"
  li_live_start :: int
  li_live_end :: int

definition liv_add_use :: "int \<Rightarrow> nat \<Rightarrow> live_info list \<Rightarrow> live_info list" where
  "liv_add_use pt v liv = liv[v := (liv ! v)\<lparr>li_use_points := li_use_points (liv ! v) @ [pt]\<rparr>]"

definition liv_set_def :: "int \<Rightarrow> nat \<Rightarrow> live_info list \<Rightarrow> live_info list" where
  "liv_set_def pt v liv = liv[v := (liv ! v)\<lparr>li_def_point := pt\<rparr>]"

definition liv_inst :: "nat \<Rightarrow> ir_function \<Rightarrow> nat \<Rightarrow> live_info list \<Rightarrow> live_info list" where
  "liv_inst nv fn i liv =
     (let inst = fn_insts fn ! i in
      if ra_skips inst then liv
      else fold (liv_add_use (int i)) (in_range nv (operand_uses inst))
             (fold (liv_set_def (int i)) (in_range nv (dst_def inst @ extra_defs inst)) liv))"

definition liv_fold :: "nat \<Rightarrow> ir_function \<Rightarrow> int list \<Rightarrow> nat \<Rightarrow> live_info list \<Rightarrow> live_info list" where
  "liv_fold nv fn def i liv =
     fold (liv_add_use (int i)) (in_range nv (folded_uses fn def (fn_insts fn ! i))) liv"

definition liv_range :: "live_info \<Rightarrow> live_info" where
  "liv_range l =
     (if li_use_points l = [] then
        let s = (if li_def_point l \<ge> 0 then li_def_point l else 0) in l\<lparr>li_live_start := s, li_live_end := s\<rparr>
      else l\<lparr>li_live_start := (if li_def_point l \<ge> 0 then li_def_point l else hd (li_use_points l)),
             li_live_end := last (li_use_points l)\<rparr>)"

definition compute_liveness :: "ir_function \<Rightarrow> live_info list option" where
  "compute_liveness fn =
     (let nv = fn_next_value_id fn in
      if nv \<le> 0 then None
      else
        let liv0 = replicate (nat nv)
              \<lparr>li_def_point = -1, li_use_points = [], li_live_start = -1, li_live_end = -1\<rparr>;
            liv1 = fold (liv_inst (nat nv) fn) [0..<length (fn_insts fn)] liv0;
            liv2 = fold (liv_fold (nat nv) fn (ra_build_defs fn)) [0..<length (fn_insts fn)] liv1
        in Some (map liv_range liv2))"

section \<open>Block-level dataflow\<close>

definition use_def_inst :: "nat \<Rightarrow> ir_function \<Rightarrow> int list \<Rightarrow> ir_inst \<Rightarrow> bitset \<times> bitset \<Rightarrow> bitset \<times> bitset" where
  "use_def_inst nv fn def inst = (\<lambda>(u, d).
     if ra_skips inst then (u, d)
     else (fold (\<lambda>v u. if bs_test d v then u else bs_set u v)
             (in_range nv (operand_uses inst @ folded_uses fn def inst)) u,
           fold (\<lambda>v d. bs_set d v) (in_range nv (dst_def inst @ extra_defs inst)) d))"

definition use_def_block :: "nat \<Rightarrow> ir_function \<Rightarrow> int list \<Rightarrow> cfg_block \<Rightarrow> bitset \<times> bitset" where
  "use_def_block nv fn def blk =
     fold (\<lambda>i. use_def_inst nv fn def (fn_insts fn ! i)) [blk_start blk..<blk_end blk] (bs_init nv, bs_init nv)"

definition compute_use_def :: "nat \<Rightarrow> ir_function \<Rightarrow> cfg \<Rightarrow> int list \<Rightarrow> (bitset \<times> bitset) list" where
  "compute_use_def nv fn g def = map (use_def_block nv fn def) (cfg_blocks g)"

type_synonym live_state = "bitset list \<times> bitset list \<times> bool"

definition live_block :: "cfg \<Rightarrow> (bitset \<times> bitset) list \<Rightarrow> nat \<Rightarrow> live_state \<Rightarrow> live_state" where
  "live_block g ud bi = (\<lambda>(ins, outs, changed).
     let out = fold (\<lambda>s acc. bs_or acc (ins ! s)) (succs_of g bi) (bs_clear (outs ! bi));
         tmp = bs_or (bs_andnot out (snd (ud ! bi))) (fst (ud ! bi))
     in (ins[bi := bs_copy (ins ! bi) tmp], outs[bi := out], changed \<or> bs_w tmp \<noteq> bs_w (ins ! bi)))"

definition live_pass :: "cfg \<Rightarrow> (bitset \<times> bitset) list \<Rightarrow> bitset list \<times> bitset list \<Rightarrow> live_state" where
  "live_pass g ud = (\<lambda>(ins, outs). fold (live_block g ud) (rev [0..<cfg_num g]) (ins, outs, False))"

partial_function (option) live_iterate ::
  "cfg \<Rightarrow> (bitset \<times> bitset) list \<Rightarrow> bitset list \<times> bitset list \<Rightarrow> (bitset list \<times> bitset list) option" where
  "live_iterate g ud io =
     (case live_pass g ud io of (ins, outs, changed) \<Rightarrow>
        if changed then live_iterate g ud (ins, outs) else Some (ins, outs))"

declare live_iterate.simps [code]

definition compute_live_in_out ::
  "nat \<Rightarrow> cfg \<Rightarrow> (bitset \<times> bitset) list \<Rightarrow> (bitset list \<times> bitset list) option" where
  "compute_live_in_out nv g ud =
     live_iterate g ud (replicate (cfg_num g) (bs_init nv), replicate (cfg_num g) (bs_init nv))"

section \<open>The specification of liveness\<close>

text \<open>
  \<open>live_from nv fn def g b k v\<close>: in block \<open>b\<close>, before the instruction at \<open>k\<close>, control can reach a use
  of \<open>v\<close> without a definition of \<open>v\<close> on the way.
\<close>

inductive live_from :: "nat \<Rightarrow> ir_function \<Rightarrow> int list \<Rightarrow> cfg \<Rightarrow> nat \<Rightarrow> nat \<Rightarrow> nat \<Rightarrow> bool"
  for nv fn def g where
  live_use: "k < blk_end (cfg_blocks g ! b) \<Longrightarrow> v \<in> set (inst_uses nv fn def (fn_insts fn ! k)) \<Longrightarrow>
    live_from nv fn def g b k v"
| live_skip: "k < blk_end (cfg_blocks g ! b) \<Longrightarrow> v \<notin> set (inst_defs nv (fn_insts fn ! k)) \<Longrightarrow>
    live_from nv fn def g b (Suc k) v \<Longrightarrow> live_from nv fn def g b k v"
| live_edge: "k \<ge> blk_end (cfg_blocks g ! b) \<Longrightarrow> s \<in> set (succs_of g b) \<Longrightarrow>
    live_from nv fn def g s (blk_start (cfg_blocks g ! s)) v \<Longrightarrow> live_from nv fn def g b k v"

inductive_cases live_fromE: "live_from nv fn def g b k v"

section \<open>The block summaries\<close>

text \<open>What the bit sets of a block mean: upward-exposed uses and definitions in \<open>[k, e)\<close>.\<close>

definition exposed :: "nat \<Rightarrow> ir_function \<Rightarrow> int list \<Rightarrow> nat \<Rightarrow> nat \<Rightarrow> nat set" where
  "exposed nv fn def k e = {v. \<exists>i. k \<le> i \<and> i < e \<and> v \<in> set (inst_uses nv fn def (fn_insts fn ! i)) \<and>
     (\<forall>j. k \<le> j \<and> j < i \<longrightarrow> v \<notin> set (inst_defs nv (fn_insts fn ! j)))}"

definition defined :: "nat \<Rightarrow> ir_function \<Rightarrow> nat \<Rightarrow> nat \<Rightarrow> nat set" where
  "defined nv fn k e = {v. \<exists>i. k \<le> i \<and> i < e \<and> v \<in> set (inst_defs nv (fn_insts fn ! i))}"

lemma exposed_Suc:
  "k \<le> e \<Longrightarrow> exposed nv fn def k (Suc e) = exposed nv fn def k e \<union>
     (set (inst_uses nv fn def (fn_insts fn ! e)) - defined nv fn k e)"
  unfolding exposed_def defined_def by (auto simp: less_Suc_eq)

lemma defined_Suc: "k \<le> e \<Longrightarrow> defined nv fn k (Suc e) = defined nv fn k e \<union> set (inst_defs nv (fn_insts fn ! e))"
  unfolding defined_def by (auto simp: less_Suc_eq)

text \<open>\<open>summary nv (u, d) U D\<close>: well-formed bit sets of that size that stand for \<open>U\<close> and \<open>D\<close>.\<close>

definition summary :: "nat \<Rightarrow> bitset \<times> bitset \<Rightarrow> nat set \<Rightarrow> nat set \<Rightarrow> bool" where
  "summary nv ud U D \<longleftrightarrow> bs_ok (fst ud) \<and> bs_nv (fst ud) = nv \<and> bs_abs (fst ud) = U \<and>
     bs_ok (snd ud) \<and> bs_nv (snd ud) = nv \<and> bs_abs (snd ud) = D"

lemma add_unless:
  "bs_ok u \<Longrightarrow> (\<And>v. v \<in> set vs \<Longrightarrow> v < bs_nv u) \<Longrightarrow>
     bs_ok (fold (\<lambda>v u. if P v then u else bs_set u v) vs u) \<and>
     bs_nv (fold (\<lambda>v u. if P v then u else bs_set u v) vs u) = bs_nv u \<and>
     bs_abs (fold (\<lambda>v u. if P v then u else bs_set u v) vs u) = bs_abs u \<union> {v\<in>set vs. \<not> P v}"
proof (induction vs arbitrary: u)
  case (Cons v vs)
  show ?case
  proof (cases "P v")
    case False
    with Cons.prems bs.add[of u v] have "bs_ok (bs_set u v)" "bs_nv (bs_set u v) = bs_nv u"
      "bs_abs (bs_set u v) = insert v (bs_abs u)" by auto
    with Cons.IH[of "bs_set u v"] Cons.prems False show ?thesis by auto
  qed (use Cons in auto)
qed simp

lemma use_def_inst_ok:
  assumes "summary nv ud U D"
  shows "summary nv (use_def_inst nv fn def x ud)
    (U \<union> (set (inst_uses nv fn def x) - D)) (D \<union> set (inst_defs nv x))"
proof (cases "ra_skips x")
  case True
  with assms show ?thesis by (cases ud) (simp add: use_def_inst_def inst_uses_def inst_defs_def)
next
  case False
  obtain u d where ud: "ud = (u, d)" by (cases ud)
  note S = assms[unfolded summary_def ud, simplified]
  let ?us = "in_range nv (operand_uses x @ folded_uses fn def x)" and ?ds = "in_range nv (dst_def x @ extra_defs x)"
  have lt: "\<And>v. v \<in> set ?us \<Longrightarrow> v < nv" "\<And>v. v \<in> set ?ds \<Longrightarrow> v < nv" using in_range_less by blast+
  have "bs_test d v \<longleftrightarrow> v \<in> D" if "v \<in> set ?us" for v using bs.test[of d v] S lt(1)[OF that] by simp
  then have "{v\<in>set ?us. \<not> bs_test d v} = set ?us - D" by blast
  with add_unless[of u ?us "bs_test d"] bs.add_all[of d ?ds] S lt False ud show ?thesis
    by (simp add: use_def_inst_def summary_def inst_uses_def inst_defs_def)
qed

lemma use_def_block_ok:
  assumes "blk_start blk \<le> blk_end blk"
  shows "summary nv (use_def_block nv fn def blk)
    (exposed nv fn def (blk_start blk) (blk_end blk)) (defined nv fn (blk_start blk) (blk_end blk))"
  unfolding use_def_block_def
proof (rule fold_upt_inv[where P = "\<lambda>e ud. summary nv ud (exposed nv fn def (blk_start blk) e) (defined nv fn (blk_start blk) e)"])
  show "summary nv (bs_init nv, bs_init nv) (exposed nv fn def (blk_start blk) (blk_start blk))
    (defined nv fn (blk_start blk) (blk_start blk))"
    using bs.empty[of nv] by (auto simp: summary_def exposed_def defined_def)
  show "summary nv (use_def_inst nv fn def (fn_insts fn ! i) s) (exposed nv fn def (blk_start blk) (Suc i))
     (defined nv fn (blk_start blk) (Suc i))"
    if "blk_start blk \<le> i" "summary nv s (exposed nv fn def (blk_start blk) i) (defined nv fn (blk_start blk) i)" for i s
    using use_def_inst_ok[OF that(2), of fn def "fn_insts fn ! i"] that(1)
    by (simp add: exposed_Suc defined_Suc)
qed (use assms in simp_all)

section \<open>The transfer function and its least fixpoint\<close>

text \<open>
  The dataflow equations, over sets.  \<open>U\<close> and \<open>D\<close> are the block summaries, \<open>X\<close> the live-in sets.
\<close>

definition live_out_eq :: "cfg \<Rightarrow> (nat \<Rightarrow> nat set) \<Rightarrow> nat \<Rightarrow> nat set" where
  "live_out_eq g X b = \<Union> (X ` set (succs_of g b))"

definition live_in_eq :: "cfg \<Rightarrow> (nat \<Rightarrow> nat set) \<Rightarrow> (nat \<Rightarrow> nat set) \<Rightarrow> (nat \<Rightarrow> nat set) \<Rightarrow> nat \<Rightarrow> nat set" where
  "live_in_eq g U D X b = U b \<union> (live_out_eq g X b - D b)"

lemma live_in_eq_mono: "(\<And>s. X s \<subseteq> Y s) \<Longrightarrow> live_in_eq g U D X b \<subseteq> live_in_eq g U D Y b"
  unfolding live_in_eq_def live_out_eq_def by blast

text \<open>The loop works on bit sets that stand for a function \<open>X\<close>; all sizes are \<open>nv\<close>.\<close>

definition sets_of :: "bitset list \<Rightarrow> nat \<Rightarrow> nat set" where
  "sets_of bs b = (if b < length bs then bs_abs (bs ! b) else {})"

definition bs_all_ok :: "nat \<Rightarrow> nat \<Rightarrow> bitset list \<Rightarrow> bool" where
  "bs_all_ok n nv bs \<longleftrightarrow> length bs = n \<and> (\<forall>b\<in>set bs. bs_ok b \<and> bs_nv b = nv)"

lemma bs_all_ok_nth: "bs_all_ok n nv bs \<Longrightarrow> b < n \<Longrightarrow> bs_ok (bs ! b) \<and> bs_nv (bs ! b) = nv \<and> sets_of bs b = bs_abs (bs ! b)"
  by (simp add: bs_all_ok_def sets_of_def)

lemma bs_all_ok_upd: "bs_all_ok n nv bs \<Longrightarrow> bs_ok x \<Longrightarrow> bs_nv x = nv \<Longrightarrow> bs_all_ok n nv (bs[b := x])"
  by (auto simp: bs_all_ok_def dest!: subsetD[OF set_update_subset_insert])

lemma sets_of_upd: "b < length bs \<Longrightarrow> sets_of (bs[b := x]) = (sets_of bs)(b := bs_abs x)"
  by (auto simp: sets_of_def fun_eq_iff nth_list_update)

locale live_problem = flow_graph +
  fixes nv :: nat and ud :: "(bitset \<times> bitset) list" and U D :: "nat \<Rightarrow> nat set"
  assumes ud_length: "length ud = cfg_num g"
    and ud_summary: "b < cfg_num g \<Longrightarrow> summary nv (ud ! b) (U b) (D b)"
begin

abbreviation step :: "(nat \<Rightarrow> nat set) \<Rightarrow> nat \<Rightarrow> nat set" where
  "step \<equiv> live_in_eq g U D"

text \<open>One block: \<open>out\<close> and \<open>in\<close> are recomputed from the equations.\<close>

lemma live_block_ok:
  assumes b: "b < cfg_num g" and ok: "bs_all_ok (cfg_num g) nv ins" "bs_all_ok (cfg_num g) nv outs"
  shows "\<exists>ins' outs'. live_block g ud b (ins, outs, c) =
      (ins', outs', c \<or> step (sets_of ins) b \<noteq> sets_of ins b) \<and>
    bs_all_ok (cfg_num g) nv ins' \<and> bs_all_ok (cfg_num g) nv outs' \<and>
    sets_of ins' = (sets_of ins)(b := step (sets_of ins) b) \<and>
    sets_of outs' = (sets_of outs)(b := live_out_eq g (sets_of ins) b) \<and>
    (step (sets_of ins) b = sets_of ins b \<longrightarrow> ins' = ins)"
proof -
  note I = bs_all_ok_nth[OF ok(1)] and O = bs_all_ok_nth[OF ok(2)]
  have succ: "\<And>s. s \<in> set (succs_of g b) \<Longrightarrow> s < cfg_num g" using succ_block b by blast
  define out where "out = fold (\<lambda>s acc. bs_or acc (ins ! s)) (succs_of g b) (bs_clear (outs ! b))"
  have f: "out = fold (\<lambda>c acc. bs_or acc c) (map ((!) ins) (succs_of g b)) (bs_clear (outs ! b))"
    unfolding out_def by (simp add: fold_map comp_def)
  have "bs_ok out \<and> bs_nv out = nv \<and> bs_abs out = \<Union> (bs_abs ` set (map ((!) ins) (succs_of g b)))"
  proof -
    have "bs_ok (bs_clear (outs ! b)) \<and> bs_nv (bs_clear (outs ! b)) = nv \<and> bs_abs (bs_clear (outs ! b)) = {}"
      using O[OF b] by simp
    moreover have "bs_ok c \<and> bs_nv c = nv" if "c \<in> set (map ((!) ins) (succs_of g b))" for c
      using that I succ by auto
    ultimately show ?thesis
      unfolding f using bs.union_all[of "bs_clear (outs ! b)" "map ((!) ins) (succs_of g b)"] by simp
  qed
  moreover have "\<Union> (bs_abs ` set (map ((!) ins) (succs_of g b))) = live_out_eq g (sets_of ins) b"
    unfolding live_out_eq_def set_map image_image using I succ by (intro SUP_cong) auto
  ultimately have out: "bs_ok out" "bs_nv out = nv" "bs_abs out = live_out_eq g (sets_of ins) b" by auto
  define tmp where "tmp = bs_or (bs_andnot out (snd (ud ! b))) (fst (ud ! b))"
  note S = ud_summary[OF b, unfolded summary_def]
  have "bs_ok tmp \<and> bs_nv tmp = nv \<and> bs_abs tmp = (live_out_eq g (sets_of ins) b - D b) \<union> U b"
    unfolding tmp_def using bs.minus[of out "snd (ud ! b)"] bs.union[of "bs_andnot out (snd (ud ! b))" "fst (ud ! b)"]
      out S by simp
  then have tmp: "bs_ok tmp" "bs_nv tmp = nv" "bs_abs tmp = step (sets_of ins) b"
    by (auto simp: live_in_eq_def)
  have ib: "bs_ok (ins ! b)" "bs_nv (ins ! b) = nv" "sets_of ins b = bs_abs (ins ! b)" using I[OF b] by auto
  have copy: "bs_copy (ins ! b) tmp = tmp" using bs_copy_eq ib tmp by simp
  have w: "bs_w tmp = bs_w (ins ! b) \<longleftrightarrow> step (sets_of ins) b = sets_of ins b"
  proof
    assume "bs_w tmp = bs_w (ins ! b)"
    then have "bs_abs tmp = bs_abs (ins ! b)" by (simp only: bs_abs_def)
    with tmp(3) ib(3) show "step (sets_of ins) b = sets_of ins b" by simp
  next
    assume "step (sets_of ins) b = sets_of ins b"
    then have "tmp = ins ! b" using bs.ext[OF tmp(1) ib(1)] tmp(2,3) ib(2,3) by simp
    then show "bs_w tmp = bs_w (ins ! b)" by simp
  qed
  have len: "b < length ins" "b < length outs" using ok b by (auto simp: bs_all_ok_def)
  have eq: "live_block g ud b (ins, outs, c) =
      (ins[b := tmp], outs[b := out], c \<or> step (sets_of ins) b \<noteq> sets_of ins b)"
    using w by (simp add: live_block_def Let_def out_def[symmetric] tmp_def[symmetric] copy)
  have "tmp = ins ! b" if "step (sets_of ins) b = sets_of ins b"
    using bs.ext[OF tmp(1) ib(1)] tmp(2,3) ib(2,3) that by simp
  then have "step (sets_of ins) b = sets_of ins b \<longrightarrow> ins[b := tmp] = ins" by auto
  with eq show ?thesis
    using bs_all_ok_upd[OF ok(1) tmp(1,2)] bs_all_ok_upd[OF ok(2) out(1,2)]
      sets_of_upd[OF len(1)] sets_of_upd[OF len(2)] tmp(3) out(3) by auto
qed

text \<open>A run of blocks: the sets grow, stay below every solution, and a change is reported.\<close>

definition pre_sol :: "(nat \<Rightarrow> nat set) \<Rightarrow> bool" where
  "pre_sol X \<longleftrightarrow> (\<forall>b<cfg_num g. X b \<subseteq> step X b)"

definition post_sol :: "(nat \<Rightarrow> nat set) \<Rightarrow> bool" where
  "post_sol F \<longleftrightarrow> (\<forall>b<cfg_num g. step F b \<subseteq> F b)"

lemma pre_sol_upd:
  assumes "pre_sol X" "b < cfg_num g"
  shows "pre_sol (X(b := step X b))" "X s \<subseteq> (X(b := step X b)) s"
proof -
  show le: "X s \<subseteq> (X(b := step X b)) s" for s using assms by (simp add: pre_sol_def)
  have m: "step X c \<subseteq> step (X(b := step X b)) c" for c by (rule live_in_eq_mono) (rule le)
  show "pre_sol (X(b := step X b))"
    unfolding pre_sol_def
  proof (intro allI impI)
    fix c assume "c < cfg_num g"
    with assms(1) have "X c \<subseteq> step X c" by (simp add: pre_sol_def)
    with m[of c] show "(X(b := step X b)) c \<subseteq> step (X(b := step X b)) c" by (cases "c = b") auto
  qed
qed

definition run_ok :: "nat list \<Rightarrow> live_state \<Rightarrow> live_state \<Rightarrow> bool" where
  "run_ok bs = (\<lambda>(ins, outs, c) (ins', outs', c').
     bs_all_ok (cfg_num g) nv ins' \<and> bs_all_ok (cfg_num g) nv outs' \<and> pre_sol (sets_of ins') \<and>
     (\<forall>b. sets_of ins b \<subseteq> sets_of ins' b) \<and>
     (\<forall>F. post_sol F \<longrightarrow> (\<forall>b<cfg_num g. sets_of ins b \<subseteq> F b) \<longrightarrow> (\<forall>b<cfg_num g. sets_of ins' b \<subseteq> F b)) \<and>
     (c' \<longrightarrow> c \<or> (\<exists>b<cfg_num g. sets_of ins b \<subset> sets_of ins' b)) \<and> (c \<longrightarrow> c') \<and>
     (\<not> c' \<longrightarrow> ins' = ins \<and> (\<forall>b\<in>set bs. step (sets_of ins) b = sets_of ins b \<and>
        sets_of outs' b = live_out_eq g (sets_of ins) b) \<and> (\<forall>b. b \<notin> set bs \<longrightarrow> sets_of outs' b = sets_of outs b)))"

lemma run_okD:
  assumes "run_ok bs (ins, outs, c) (ins', outs', c')"
  shows "bs_all_ok (cfg_num g) nv ins'" "bs_all_ok (cfg_num g) nv outs'" "pre_sol (sets_of ins')"
    "\<And>b. sets_of ins b \<subseteq> sets_of ins' b"
    "\<And>F. post_sol F \<Longrightarrow> (\<forall>b<cfg_num g. sets_of ins b \<subseteq> F b) \<Longrightarrow> (\<forall>b<cfg_num g. sets_of ins' b \<subseteq> F b)"
    "c' \<Longrightarrow> c \<or> (\<exists>b<cfg_num g. sets_of ins b \<subset> sets_of ins' b)" "c \<Longrightarrow> c'"
    "\<not> c' \<Longrightarrow> ins' = ins"
    "\<not> c' \<Longrightarrow> b \<in> set bs \<Longrightarrow> step (sets_of ins) b = sets_of ins b \<and> sets_of outs' b = live_out_eq g (sets_of ins) b"
    "\<not> c' \<Longrightarrow> b \<notin> set bs \<Longrightarrow> sets_of outs' b = sets_of outs b"
  using assms unfolding run_ok_def by simp_all

lemma live_blocks_ok:
  "set bs \<subseteq> {..<cfg_num g} \<Longrightarrow> bs_all_ok (cfg_num g) nv ins \<Longrightarrow> bs_all_ok (cfg_num g) nv outs \<Longrightarrow>
   pre_sol (sets_of ins) \<Longrightarrow> run_ok bs (ins, outs, c) (fold (live_block g ud) bs (ins, outs, c))"
proof (induction bs arbitrary: ins outs c)
  case Nil
  then show ?case by (simp add: run_ok_def)
next
  case (Cons b bs)
  let ?X = "sets_of ins"
  have b: "b < cfg_num g" using Cons.prems(1) by simp
  from live_block_ok[OF b Cons.prems(2,3), of c] obtain ins1 outs1 where
    s1: "live_block g ud b (ins, outs, c) = (ins1, outs1, c \<or> step ?X b \<noteq> ?X b)"
    "bs_all_ok (cfg_num g) nv ins1" "bs_all_ok (cfg_num g) nv outs1"
    "sets_of ins1 = ?X(b := step ?X b)" "sets_of outs1 = (sets_of outs)(b := live_out_eq g ?X b)"
    "step ?X b = ?X b \<longrightarrow> ins1 = ins" by blast
  note up = pre_sol_upd[OF Cons.prems(4) b]
  have pre1: "pre_sol (sets_of ins1)" unfolding s1(4) by (rule up)
  have grow: "?X s \<subseteq> sets_of ins1 s" for s unfolding s1(4) by (rule up)
  have below: "\<forall>s<cfg_num g. sets_of ins1 s \<subseteq> F s" if F: "post_sol F" "\<forall>s<cfg_num g. ?X s \<subseteq> F s" for F
  proof (intro allI impI)
    fix s assume s: "s < cfg_num g"
    have "live_out_eq g ?X b \<subseteq> live_out_eq g F b"
      unfolding live_out_eq_def using F(2) succ_block[OF b] by blast
    then have "step ?X b \<subseteq> step F b" unfolding live_in_eq_def by blast
    also have "\<dots> \<subseteq> F b" using F(1) b by (simp add: post_sol_def)
    finally show "sets_of ins1 s \<subseteq> F s" using F(2) s unfolding s1(4) by simp
  qed
  obtain ins2 outs2 c2 where eq: "fold (live_block g ud) bs (ins1, outs1, c \<or> step ?X b \<noteq> ?X b) = (ins2, outs2, c2)"
    by (metis prod_cases3)
  have "set bs \<subseteq> {..<cfg_num g}" using Cons.prems(1) by simp
  note R = run_okD[OF Cons.IH[OF this s1(2,3) pre1, of "c \<or> step ?X b \<noteq> ?X b", unfolded eq]]
  have strict: "c \<or> (\<exists>s<cfg_num g. ?X s \<subset> sets_of ins2 s)" if "c2"
  proof (cases "step ?X b = ?X b")
    case True
    with s1(6) R(6)[OF that] show ?thesis by simp
  next
    case False
    then have "?X b \<subset> sets_of ins1 b" using grow[of b] s1(4) by auto
    with R(4)[of b] b show ?thesis by blast
  qed
  have e: "step ?X b = ?X b \<and> ins1 = ins" if "\<not> c2" using R(7) that s1(6) by blast
  have mono: "?X s \<subseteq> sets_of ins2 s" for s using grow R(4) by blast
  have lst: "\<forall>s<cfg_num g. sets_of ins2 s \<subseteq> F s" if "post_sol F" "\<forall>s<cfg_num g. ?X s \<subseteq> F s" for F
    using R(5)[OF that(1) below[OF that]] .
  have bsq: "step ?X s = ?X s \<and> sets_of outs2 s = live_out_eq g ?X s" if "\<not> c2" "s \<in> set (b # bs)" for s
    using R(9)[OF that(1), of s] R(10)[OF that(1), of s] e[OF that(1)] that(2) s1(5) by (cases "s \<in> set bs") auto
  have nbs: "sets_of outs2 s = sets_of outs s" if "\<not> c2" "s \<notin> set (b # bs)" for s
    using R(10)[OF that(1), of s] that(2) s1(5) by simp
  have "run_ok (b # bs) (ins, outs, c) (ins2, outs2, c2)"
    unfolding run_ok_def case_prod_conv
  proof (intro conjI)
    show "\<forall>s. ?X s \<subseteq> sets_of ins2 s" using mono by blast
    show "\<forall>F. post_sol F \<longrightarrow> (\<forall>s<cfg_num g. ?X s \<subseteq> F s) \<longrightarrow> (\<forall>s<cfg_num g. sets_of ins2 s \<subseteq> F s)"
      using lst by blast
    show "c2 \<longrightarrow> c \<or> (\<exists>s<cfg_num g. ?X s \<subset> sets_of ins2 s)" using strict by blast
    show "c \<longrightarrow> c2" using R(7) by blast
    show "\<not> c2 \<longrightarrow> ins2 = ins \<and> (\<forall>s\<in>set (b # bs). step ?X s = ?X s \<and> sets_of outs2 s = live_out_eq g ?X s) \<and>
        (\<forall>s. s \<notin> set (b # bs) \<longrightarrow> sets_of outs2 s = sets_of outs s)"
    proof (intro impI conjI ballI allI)
      assume n: "\<not> c2"
      show "ins2 = ins" using R(8)[OF n] e[OF n] by simp
      show "step ?X s = ?X s" "sets_of outs2 s = live_out_eq g ?X s" if "s \<in> set (b # bs)" for s
        using bsq[OF n that] by blast+
      show "sets_of outs2 s = sets_of outs s" if "s \<notin> set (b # bs)" for s using nbs[OF n that] .
    qed
  qed (use R(1,2,3) in simp_all)
  with s1(1) eq show ?case by simp
qed

lemma sets_bound: "bs_all_ok (cfg_num g) nv ins \<Longrightarrow> sets_of ins b \<subseteq> {..<nv}"
  by (cases "b < cfg_num g") (auto simp: bs_all_ok_def sets_of_def bs_ok_def)

lemma live_iterate_ok:
  "bs_all_ok (cfg_num g) nv ins \<Longrightarrow> bs_all_ok (cfg_num g) nv outs \<Longrightarrow> pre_sol (sets_of ins) \<Longrightarrow>
   \<exists>ins' outs'. live_iterate g ud (ins, outs) = Some (ins', outs') \<and>
     bs_all_ok (cfg_num g) nv ins' \<and> bs_all_ok (cfg_num g) nv outs' \<and>
     (\<forall>b<cfg_num g. step (sets_of ins') b = sets_of ins' b \<and> sets_of outs' b = live_out_eq g (sets_of ins') b) \<and>
     (\<forall>F. post_sol F \<longrightarrow> (\<forall>b<cfg_num g. sets_of ins b \<subseteq> F b) \<longrightarrow> (\<forall>b<cfg_num g. sets_of ins' b \<subseteq> F b))"
proof (induction "\<Sum>b<cfg_num g. nv - card (sets_of ins b)" arbitrary: ins outs rule: less_induct)
  case less
  have bl: "set (rev [0..<cfg_num g]) \<subseteq> {..<cfg_num g}" by auto
  obtain ins1 outs1 c where p1: "live_pass g ud (ins, outs) = (ins1, outs1, c)" by (metis prod_cases3)
  then have "fold (live_block g ud) (rev [0..<cfg_num g]) (ins, outs, False) = (ins1, outs1, c)"
    by (simp add: live_pass_def)
  note R = run_okD[OF live_blocks_ok[OF bl less.prems, of False, unfolded this]]
  have p: "live_pass g ud (ins, outs) = (ins1, outs1, c)" "bs_all_ok (cfg_num g) nv ins1"
      "bs_all_ok (cfg_num g) nv outs1" "pre_sol (sets_of ins1)" "\<forall>b. sets_of ins b \<subseteq> sets_of ins1 b"
      "\<forall>F. post_sol F \<longrightarrow> (\<forall>b<cfg_num g. sets_of ins b \<subseteq> F b) \<longrightarrow> (\<forall>b<cfg_num g. sets_of ins1 b \<subseteq> F b)"
      "c \<longrightarrow> (\<exists>b<cfg_num g. sets_of ins b \<subset> sets_of ins1 b)"
      "\<not> c \<longrightarrow> ins1 = ins \<and> (\<forall>b<cfg_num g. step (sets_of ins) b = sets_of ins b \<and>
        sets_of outs1 b = live_out_eq g (sets_of ins) b)"
    subgoal by (rule p1)
    subgoal by (rule R)
    subgoal by (rule R)
    subgoal by (rule R)
    subgoal using R(4) by blast
    subgoal using R(5) by blast
    subgoal using R(6) by blast
    subgoal using R(8,9) by simp
    done
  show ?case
  proof (cases c)
    case True
    have card: "card (sets_of ins b) \<le> card (sets_of ins1 b)" for b
      using p(5) sets_bound[OF p(2), of b] by (meson card_mono finite_lessThan finite_subset)
    from p(7) True obtain b where b: "b < cfg_num g" "sets_of ins b \<subset> sets_of ins1 b" by blast
    have fin: "finite (sets_of ins1 b)" using sets_bound[OF p(2)] finite_subset by blast
    have "card (sets_of ins1 b) \<le> nv" using card_mono[OF _ sets_bound[OF p(2), of b]] by simp
    with psubset_card_mono[OF fin b(2)] have "nv - card (sets_of ins1 b) < nv - card (sets_of ins b)" by simp
    then have "(\<Sum>b<cfg_num g. nv - card (sets_of ins1 b)) < (\<Sum>b<cfg_num g. nv - card (sets_of ins b))"
      by (intro sum_strict_mono_ex1) (use b card diff_le_mono2 in auto)
    from less.hyps[OF this p(2,3,4)] obtain ins' outs' where
      q: "live_iterate g ud (ins1, outs1) = Some (ins', outs')"
     "bs_all_ok (cfg_num g) nv ins'" "bs_all_ok (cfg_num g) nv outs'"
     "\<forall>b<cfg_num g. step (sets_of ins') b = sets_of ins' b \<and> sets_of outs' b = live_out_eq g (sets_of ins') b"
     "\<forall>F. post_sol F \<longrightarrow> (\<forall>b<cfg_num g. sets_of ins1 b \<subseteq> F b) \<longrightarrow> (\<forall>b<cfg_num g. sets_of ins' b \<subseteq> F b)" by blast
    have "live_iterate g ud (ins, outs) = Some (ins', outs')"
      using p(1) True q(1) by (simp add: live_iterate.simps[of g ud "(ins, outs)"])
    moreover have "\<forall>F. post_sol F \<longrightarrow> (\<forall>b<cfg_num g. sets_of ins b \<subseteq> F b) \<longrightarrow> (\<forall>b<cfg_num g. sets_of ins' b \<subseteq> F b)"
    proof (intro allI impI)
      fix F b assume F: "post_sol F" "\<forall>b<cfg_num g. sets_of ins b \<subseteq> F b" and b: "b < cfg_num g"
      show "sets_of ins' b \<subseteq> F b" by (rule q(5)[rule_format, OF F(1) p(6)[rule_format, OF F(1) F(2)[rule_format]] b])
    qed
    ultimately show ?thesis using q(2-4) by (intro exI[of _ ins'] exI[of _ outs']) simp
  next
    case False
    then have "live_iterate g ud (ins, outs) = Some (ins1, outs1)"
      using p(1) by (simp add: live_iterate.simps[of g ud "(ins, outs)"])
    with p(2,3,6,8) False show ?thesis by (intro exI[of _ ins1] exI[of _ outs1]) simp
  qed
qed

lemma live_in_out_ok:
  "\<exists>ins outs. compute_live_in_out nv g ud = Some (ins, outs) \<and>
     bs_all_ok (cfg_num g) nv ins \<and> bs_all_ok (cfg_num g) nv outs \<and>
     (\<forall>b<cfg_num g. step (sets_of ins) b = sets_of ins b \<and> sets_of outs b = live_out_eq g (sets_of ins) b) \<and>
     (\<forall>F. post_sol F \<longrightarrow> (\<forall>b<cfg_num g. sets_of ins b \<subseteq> F b))"
proof -
  let ?e = "replicate (cfg_num g) (bs_init nv)"
  have ok: "bs_all_ok (cfg_num g) nv ?e" using bs.empty[of nv] by (auto simp: bs_all_ok_def)
  have e: "sets_of ?e b = {}" for b using bs.empty[of nv] by (simp add: sets_of_def)
  then have "pre_sol (sets_of ?e)" by (simp add: pre_sol_def)
  from live_iterate_ok[OF ok ok this] e show ?thesis by (simp add: compute_live_in_out_def)
qed

end

section \<open>Liveness is the least solution\<close>

lemma live_from_inside:
  "k < blk_end (cfg_blocks g ! b) \<Longrightarrow> live_from nv fn def g b k v \<longleftrightarrow>
     v \<in> set (inst_uses nv fn def (fn_insts fn ! k)) \<or>
     (v \<notin> set (inst_defs nv (fn_insts fn ! k)) \<and> live_from nv fn def g b (Suc k) v)"
  by (auto intro: live_from.intros elim: live_fromE)

lemma live_from_end:
  "blk_end (cfg_blocks g ! b) \<le> k \<Longrightarrow> live_from nv fn def g b k v \<longleftrightarrow>
     (\<exists>s\<in>set (succs_of g b). live_from nv fn def g s (blk_start (cfg_blocks g ! s)) v)"
  by (auto intro: live_from.intros elim: live_fromE)

lemma exposed_front:
  "k < e \<Longrightarrow> exposed nv fn def k e = set (inst_uses nv fn def (fn_insts fn ! k)) \<union>
     (exposed nv fn def (Suc k) e - set (inst_defs nv (fn_insts fn ! k)))"
proof -
  assume k: "k < e"
  have s: "k \<le> i \<longleftrightarrow> i = k \<or> Suc k \<le> i" for i by auto
  show ?thesis unfolding exposed_def s using k by (auto simp: Suc_le_eq)
qed

lemma defined_front:
  "k < e \<Longrightarrow> defined nv fn k e = set (inst_defs nv (fn_insts fn ! k)) \<union> defined nv fn (Suc k) e"
proof -
  assume k: "k < e"
  have s: "k \<le> i \<longleftrightarrow> i = k \<or> Suc k \<le> i" for i by auto
  show ?thesis unfolding defined_def s using k by auto
qed

definition live_start :: "nat \<Rightarrow> ir_function \<Rightarrow> int list \<Rightarrow> cfg \<Rightarrow> nat \<Rightarrow> nat set" where
  "live_start nv fn def g b = {v. live_from nv fn def g b (blk_start (cfg_blocks g ! b)) v}"

lemma live_from_summary:
  "k \<le> blk_end (cfg_blocks g ! b) \<Longrightarrow> live_from nv fn def g b k v \<longleftrightarrow>
     v \<in> exposed nv fn def k (blk_end (cfg_blocks g ! b)) \<union>
       (live_out_eq g (live_start nv fn def g) b - defined nv fn k (blk_end (cfg_blocks g ! b)))"
proof (induction "blk_end (cfg_blocks g ! b) - k" arbitrary: k)
  case 0
  then show ?case by (auto simp: live_from_end exposed_def defined_def live_out_eq_def live_start_def)
next
  case (Suc d)
  then have k: "k < blk_end (cfg_blocks g ! b)" by simp
  with Suc(1)[of "Suc k"] Suc(2) show ?case
    by (auto simp: live_from_inside[OF k] exposed_front[OF k] defined_front[OF k])
qed

lemma live_start_eq:
  assumes "blk_start (cfg_blocks g ! b) \<le> blk_end (cfg_blocks g ! b)"
  shows "live_start nv fn def g b = live_in_eq g
    (\<lambda>b. exposed nv fn def (blk_start (cfg_blocks g ! b)) (blk_end (cfg_blocks g ! b)))
    (\<lambda>b. defined nv fn (blk_start (cfg_blocks g ! b)) (blk_end (cfg_blocks g ! b))) (live_start nv fn def g) b"
  using live_from_summary[OF assms, of nv fn def] unfolding live_in_eq_def live_start_def by blast

lemma live_from_below:
  assumes fp: "\<And>b. b < cfg_num g \<Longrightarrow> live_in_eq g
    (\<lambda>b. exposed nv fn def (blk_start (cfg_blocks g ! b)) (blk_end (cfg_blocks g ! b)))
    (\<lambda>b. defined nv fn (blk_start (cfg_blocks g ! b)) (blk_end (cfg_blocks g ! b))) X b \<subseteq> X b"
    and fg: "flow_graph g"
  shows "live_from nv fn def g b k v \<Longrightarrow> b < cfg_num g \<Longrightarrow>
    v \<in> exposed nv fn def k (blk_end (cfg_blocks g ! b)) \<union>
      (live_out_eq g X b - defined nv fn k (blk_end (cfg_blocks g ! b)))"
proof (induction rule: live_from.induct)
  case (live_use k b v)
  then show ?case by (simp add: exposed_front)
next
  case (live_skip k b v)
  then show ?case by (auto simp: exposed_front defined_front)
next
  case (live_edge b k s v)
  then have "s < cfg_num g" using flow_graph.succ_block[OF fg] by blast
  with live_edge have "v \<in> X s" using fp[of s] unfolding live_in_eq_def by blast
  with live_edge(1,2) show ?case by (auto simp: live_out_eq_def defined_def)
qed

lemma cfg_build_range:
  "b < cfg_num (cfg_build insts) \<Longrightarrow>
    blk_start (cfg_blocks (cfg_build insts) ! b) \<le> blk_end (cfg_blocks (cfg_build insts) ! b)"
  using cfg_build_blocks(5)[of b insts]
  by (cases "insts = []") (auto simp: cfg_build_def cfg_new_block_def cfg_init_def less_imp_le)

interpretation live: live_problem "cfg_build (fn_insts fn)" nv
    "compute_use_def nv fn (cfg_build (fn_insts fn)) def"
    "\<lambda>b. exposed nv fn def (blk_start (cfg_blocks (cfg_build (fn_insts fn)) ! b))
      (blk_end (cfg_blocks (cfg_build (fn_insts fn)) ! b))"
    "\<lambda>b. defined nv fn (blk_start (cfg_blocks (cfg_build (fn_insts fn)) ! b))
      (blk_end (cfg_blocks (cfg_build (fn_insts fn)) ! b))" for fn nv def
proof
  let ?g = "cfg_build (fn_insts fn)"
  show "length (compute_use_def nv fn ?g def) = cfg_num ?g" by (simp add: compute_use_def_def)
  fix b assume b: "b < cfg_num ?g"
  show "summary nv (compute_use_def nv fn ?g def ! b)
     (exposed nv fn def (blk_start (cfg_blocks ?g ! b)) (blk_end (cfg_blocks ?g ! b)))
     (defined nv fn (blk_start (cfg_blocks ?g ! b)) (blk_end (cfg_blocks ?g ! b)))"
    using use_def_block_ok[OF cfg_build_range[OF b]] b by (simp add: compute_use_def_def)
qed


text \<open>The dataflow of a function, as the allocator sets it up.\<close>

definition fn_live_sets :: "ir_function \<Rightarrow> (bitset list \<times> bitset list) option" where
  "fn_live_sets fn =
     compute_live_in_out (nat (fn_next_value_id fn)) (cfg_build (fn_insts fn))
       (compute_use_def (nat (fn_next_value_id fn)) fn (cfg_build (fn_insts fn)) (ra_build_defs fn))"

definition fn_live :: "ir_function \<Rightarrow> nat \<Rightarrow> nat \<Rightarrow> nat \<Rightarrow> bool" where
  "fn_live fn b k v = live_from (nat (fn_next_value_id fn)) fn (ra_build_defs fn) (cfg_build (fn_insts fn)) b k v"

definition live_sets_ok :: "ir_function \<Rightarrow> bitset list \<Rightarrow> bitset list \<Rightarrow> bool" where
  "live_sets_ok fn ins outs \<longleftrightarrow>
     bs_all_ok (cfg_num (cfg_build (fn_insts fn))) (nat (fn_next_value_id fn)) ins \<and>
     bs_all_ok (cfg_num (cfg_build (fn_insts fn))) (nat (fn_next_value_id fn)) outs \<and>
     (\<forall>b<cfg_num (cfg_build (fn_insts fn)).
        bs_abs (ins ! b) = {v. fn_live fn b (blk_start (cfg_blocks (cfg_build (fn_insts fn)) ! b)) v} \<and>
        bs_abs (outs ! b) = {v. fn_live fn b (blk_end (cfg_blocks (cfg_build (fn_insts fn)) ! b)) v})"

lemma live_sets_okD:
  assumes "live_sets_ok fn ins outs"
  shows "bs_all_ok (cfg_num (cfg_build (fn_insts fn))) (nat (fn_next_value_id fn)) ins"
    "bs_all_ok (cfg_num (cfg_build (fn_insts fn))) (nat (fn_next_value_id fn)) outs"
    "b < cfg_num (cfg_build (fn_insts fn)) \<Longrightarrow>
       bs_abs (ins ! b) = {v. fn_live fn b (blk_start (cfg_blocks (cfg_build (fn_insts fn)) ! b)) v}"
    "b < cfg_num (cfg_build (fn_insts fn)) \<Longrightarrow>
       bs_abs (outs ! b) = {v. fn_live fn b (blk_end (cfg_blocks (cfg_build (fn_insts fn)) ! b)) v}"
  using assms unfolding live_sets_ok_def by simp_all

lemma live_sets_solve:
  assumes ok: "bs_all_ok (cfg_num (cfg_build (fn_insts fn))) (nat (fn_next_value_id fn)) ins"
      "bs_all_ok (cfg_num (cfg_build (fn_insts fn))) (nat (fn_next_value_id fn)) outs"
    and fp: "\<forall>b<cfg_num (cfg_build (fn_insts fn)).
      live.step fn (nat (fn_next_value_id fn)) (ra_build_defs fn) (sets_of ins) b = sets_of ins b \<and>
      sets_of outs b = live_out_eq (cfg_build (fn_insts fn)) (sets_of ins) b"
    and least: "\<forall>F. live.post_sol fn (nat (fn_next_value_id fn)) (ra_build_defs fn) F \<longrightarrow>
      (\<forall>b<cfg_num (cfg_build (fn_insts fn)). sets_of ins b \<subseteq> F b)"
  shows "live_sets_ok fn ins outs"
proof -
  let ?g = "cfg_build (fn_insts fn)" and ?nv = "nat (fn_next_value_id fn)" and ?def = "ra_build_defs fn"
  let ?L = "live_start ?nv fn ?def ?g"
  have post: "live.post_sol fn ?nv ?def ?L"
    unfolding live.post_sol_def using live_start_eq[OF cfg_build_range] by simp
  have up: "?L b \<subseteq> sets_of ins b" if b: "b < cfg_num ?g" for b
  proof
    fix v assume v: "v \<in> ?L b"
    have le: "live.step fn ?nv ?def (sets_of ins) c \<subseteq> sets_of ins c" if "c < cfg_num ?g" for c
      using fp that by simp
    have "v \<in> live.step fn ?nv ?def (sets_of ins) b"
      using live_from_below[OF le built.flow_graph_axioms _ b] v unfolding live_start_def live_in_eq_def by simp
    with le[OF b] show "v \<in> sets_of ins b" by blast
  qed
  have ins: "sets_of ins b = ?L b" if "b < cfg_num ?g" for b
    using up[OF that] least[rule_format, OF post that] by (rule subset_antisym[rotated])
  have in_eq: "bs_abs (ins ! b) = {v. fn_live fn b (blk_start (cfg_blocks ?g ! b)) v}" if "b < cfg_num ?g" for b
    using ins[OF that] bs_all_ok_nth[OF ok(1) that] by (simp add: fn_live_def live_start_def)
  have "bs_abs (outs ! b) = {v. fn_live fn b (blk_end (cfg_blocks ?g ! b)) v}" if b: "b < cfg_num ?g" for b
  proof -
    have "live_out_eq ?g (sets_of ins) b = live_out_eq ?g ?L b"
      unfolding live_out_eq_def using ins built.succ_block[OF b] by (intro SUP_cong) auto
    also have "\<dots> = {v. fn_live fn b (blk_end (cfg_blocks ?g ! b)) v}"
      by (auto simp: fn_live_def live_from_end live_out_eq_def live_start_def)
    finally show ?thesis using fp b bs_all_ok_nth[OF ok(2) b] by simp
  qed
  with in_eq ok show ?thesis unfolding live_sets_ok_def by simp
qed

lemma fn_live_sets_ok: "\<exists>ins outs. fn_live_sets fn = Some (ins, outs) \<and> live_sets_ok fn ins outs"
  using live.live_in_out_ok[of "nat (fn_next_value_id fn)" fn "ra_build_defs fn"] unfolding fn_live_sets_def
  by (elim exE conjE) (intro exI conjI, assumption, rule live_sets_solve)

section \<open>Liveness by the table of operands\<close>

text \<open>
  \<open>ir_live fn b k v\<close>: before the instruction at \<open>k\<close> of block \<open>b\<close>, control can reach an instruction that
  reads \<open>v\<close> and pass no definition of \<open>v\<close> on the way.  The reads are those of the table and the values a
  load or store folds into its address (\<open>folded_uses\<close>), which code generation reads there.
\<close>

definition reads_at :: "ir_function \<Rightarrow> nat \<Rightarrow> int list" where
  "reads_at fn k = ir_reads (fn_insts fn ! k) @ folded_uses fn (ra_build_defs fn) (fn_insts fn ! k)"

definition results_at :: "ir_function \<Rightarrow> nat \<Rightarrow> int list" where
  "results_at fn k = ir_results (fn_insts fn ! k)"

inductive ir_live :: "ir_function \<Rightarrow> nat \<Rightarrow> nat \<Rightarrow> int \<Rightarrow> bool" for fn where
  live_read: "k < blk_end (cfg_blocks (cfg_build (fn_insts fn)) ! b) \<Longrightarrow> v \<in> set (reads_at fn k) \<Longrightarrow> ir_live fn b k v"
| live_next: "k < blk_end (cfg_blocks (cfg_build (fn_insts fn)) ! b) \<Longrightarrow> v \<notin> set (results_at fn k) \<Longrightarrow>
    ir_live fn b (Suc k) v \<Longrightarrow> ir_live fn b k v"
| live_succ: "k \<ge> blk_end (cfg_blocks (cfg_build (fn_insts fn)) ! b) \<Longrightarrow> s \<in> set (succs_of (cfg_build (fn_insts fn)) b) \<Longrightarrow>
    ir_live fn s (blk_start (cfg_blocks (cfg_build (fn_insts fn)) ! s)) v \<Longrightarrow> ir_live fn b k v"

text \<open>A program point: instruction \<open>k\<close> of block \<open>b\<close>.\<close>

definition in_block :: "ir_function \<Rightarrow> nat \<Rightarrow> nat \<Rightarrow> bool" where
  "in_block fn b k \<longleftrightarrow> b < cfg_num (cfg_build (fn_insts fn)) \<and>
     blk_start (cfg_blocks (cfg_build (fn_insts fn)) ! b) \<le> k \<and> k < blk_end (cfg_blocks (cfg_build (fn_insts fn)) ! b)"

text \<open>The points that some path from the entry of the function passes (\<open>k\<close> may be the end of \<open>b\<close>).\<close>

inductive point_reach :: "ir_function \<Rightarrow> nat \<Rightarrow> nat \<Rightarrow> bool" for fn where
  reach_entry: "point_reach fn 0 0"
| reach_next: "point_reach fn b k \<Longrightarrow> in_block fn b k \<Longrightarrow> point_reach fn b (Suc k)"
| reach_succ: "point_reach fn b k \<Longrightarrow> k = blk_end (cfg_blocks (cfg_build (fn_insts fn)) ! b) \<Longrightarrow>
    b < cfg_num (cfg_build (fn_insts fn)) \<Longrightarrow> s \<in> set (succs_of (cfg_build (fn_insts fn)) b) \<Longrightarrow>
    point_reach fn s (blk_start (cfg_blocks (cfg_build (fn_insts fn)) ! s))"

text \<open>
  When two values must not share a register.  Either one is a result of an instruction where the other
  is a result too or is live after it, the one exception being the first result of a call together
  with a further result, when one of the two is dead; or both are live at a point on a path from the
  entry (and not already at the entry itself, where nothing has defined them).
\<close>

definition ir_clash :: "ir_function \<Rightarrow> nat \<Rightarrow> nat \<Rightarrow> int \<Rightarrow> int \<Rightarrow> bool" where
  "ir_clash fn b k u v \<longleftrightarrow> u \<noteq> v \<and> u \<in> set (results_at fn k) \<and>
     (v \<in> set (results_at fn k) \<or> ir_live fn b (Suc k) v) \<and>
     \<not> (i_op (fn_insts fn ! k) = IR_CALL \<and> (u = i_dst (fn_insts fn ! k) \<and> \<not> ir_live fn b (Suc k) v \<or>
           v = i_dst (fn_insts fn ! k) \<and> \<not> ir_live fn b (Suc k) u))"

definition ir_conflict :: "ir_function \<Rightarrow> int \<Rightarrow> int \<Rightarrow> bool" where
  "ir_conflict fn u v \<longleftrightarrow> u \<noteq> v \<and>
     ((\<exists>b k. in_block fn b k \<and> ir_clash fn b k u v) \<or>
      (\<exists>b k. point_reach fn b k \<and> ir_live fn b k u \<and> ir_live fn b k v) \<and> \<not> (ir_live fn 0 0 u \<and> ir_live fn 0 0 v))"

text \<open>A value that has to survive a call or inline assembly.\<close>

definition ir_crosses :: "ir_function \<Rightarrow> nat \<Rightarrow> nat \<Rightarrow> int \<Rightarrow> bool" where
  "ir_crosses fn b k v \<longleftrightarrow> (i_op (fn_insts fn ! k) = IR_CALL \<or> i_op (fn_insts fn ! k) = IR_ASM) \<and>
     v \<notin> set (results_at fn k) \<and> ir_live fn b (Suc k) v"

text \<open>The uses and definitions of the code are those of the table, the callee apart.\<close>

lemma inst_defs_table: "ir_wf x \<Longrightarrow> inst_defs nv x = in_range nv (ir_results x)"
  by (cases "i_op x")
    (simp_all add: inst_defs_def ra_skips_def in_range_def operand_defs dst_def_def extra_defs_def
      ir_op_vec_store_def ir_op_with_overflow_def)

lemma inst_uses_table:
  assumes "ir_wf x" "i_op x = IR_CALL \<Longrightarrow> i_call_callee x < 0"
  shows "inst_uses nv fn def x = in_range nv (ir_reads x @ folded_uses fn def x)"
  using assms
  by (cases "i_op x")
    (simp_all add: inst_uses_def ra_skips_def in_range_def operand_defs operand_uses_def folded_uses_def
      ir_op_vec_store_def)

lemma in_range_mem: "v \<in> set (in_range nv vs) \<longleftrightarrow> v < nv \<and> int v \<in> set vs"
  by (auto simp: in_range_def image_iff intro!: bexI[of _ "int v"])

lemma inst_uses_mem:
  assumes "ir_wf x" "i_op x = IR_CALL \<Longrightarrow> i_call_callee x \<noteq> int v"
  shows "v \<in> set (inst_uses nv fn def x) \<longleftrightarrow> v < nv \<and> int v \<in> set (ir_reads x @ folded_uses fn def x)"
proof (cases "i_op x = IR_CALL")
  case True
  then show ?thesis using assms(2)
    by (simp add: inst_uses_def ra_skips_def in_range_mem operand_uses_def folded_uses_def ir_reads_def
        ir_op_vec_store_def)
next
  case False
  then show ?thesis using inst_uses_table[OF assms(1)] by (simp only: in_range_mem simp_thms)
qed

lemma block_inst_less:
  "b < cfg_num (cfg_build insts) \<Longrightarrow> k < blk_end (cfg_blocks (cfg_build insts) ! b) \<Longrightarrow> k < length insts"
  using build_end_bound[of insts b] by (cases "insts = []") (auto simp: cfg_build_def cfg_new_block_def cfg_init_def)

lemma reads_at_mem:
  assumes "ir_code_wf fn" "no_callee fn (int v)" "v < nat (fn_next_value_id fn)"
    and "b < cfg_num (cfg_build (fn_insts fn))" "k < blk_end (cfg_blocks (cfg_build (fn_insts fn)) ! b)"
  shows "v \<in> set (inst_uses (nat (fn_next_value_id fn)) fn (ra_build_defs fn) (fn_insts fn ! k)) \<longleftrightarrow>
      int v \<in> set (reads_at fn k)"
    and "v \<in> set (inst_defs (nat (fn_next_value_id fn)) (fn_insts fn ! k)) \<longleftrightarrow> int v \<in> set (results_at fn k)"
proof -
  note k = block_inst_less[OF assms(4,5)]
  note x = ir_code_wfD[OF assms(1) k]
  show "v \<in> set (inst_uses (nat (fn_next_value_id fn)) fn (ra_build_defs fn) (fn_insts fn ! k)) \<longleftrightarrow>
      int v \<in> set (reads_at fn k)"
    using inst_uses_mem[OF x no_calleeD[OF assms(2) k]] assms(3) by (simp add: reads_at_def)
  show "v \<in> set (inst_defs (nat (fn_next_value_id fn)) (fn_insts fn ! k)) \<longleftrightarrow> int v \<in> set (results_at fn k)"
    using assms(3) by (simp add: inst_defs_table[OF x] in_range_mem results_at_def)
qed

lemma fn_live_ir:
  "live_from (nat (fn_next_value_id fn)) fn (ra_build_defs fn) (cfg_build (fn_insts fn)) b k v \<Longrightarrow>
   ir_code_wf fn \<Longrightarrow> no_callee fn (int v) \<Longrightarrow> v < nat (fn_next_value_id fn) \<Longrightarrow>
   b < cfg_num (cfg_build (fn_insts fn)) \<Longrightarrow> ir_live fn b k (int v)"
proof (induction rule: live_from.induct)
  case (live_use k b v)
  note m = reads_at_mem(1)[OF live_use(3-6,1)]
  with live_use show ?case by (simp add: ir_live.live_read)
next
  case (live_skip k b v)
  note m = reads_at_mem(2)[OF live_skip(5-8,1)]
  with live_skip show ?case by (simp add: ir_live.live_next)
next
  case (live_edge b k s v)
  then have "s < cfg_num (cfg_build (fn_insts fn))" using built.succ_block by blast
  with live_edge show ?case using ir_live.live_succ by blast
qed

lemma ir_fn_live:
  "ir_live fn b k w \<Longrightarrow> w = int v \<Longrightarrow> ir_code_wf fn \<Longrightarrow> no_callee fn (int v) \<Longrightarrow>
   v < nat (fn_next_value_id fn) \<Longrightarrow> b < cfg_num (cfg_build (fn_insts fn)) \<Longrightarrow>
   live_from (nat (fn_next_value_id fn)) fn (ra_build_defs fn) (cfg_build (fn_insts fn)) b k v"
proof (induction rule: ir_live.induct)
  case (live_read k b w)
  note m = reads_at_mem(1)[OF live_read(4-7,1)]
  with live_read show ?case by (simp add: live_from.live_use)
next
  case (live_next k b w)
  note m = reads_at_mem(2)[OF live_next(6-9,1)]
  with live_next show ?case by (simp add: live_from.live_skip)
next
  case (live_succ b k s w)
  then have "s < cfg_num (cfg_build (fn_insts fn))" using built.succ_block by blast
  with live_succ show ?case using live_from.live_edge by blast
qed

lemma ir_live_eq:
  assumes "ir_code_wf fn" "no_callee fn (int v)" "v < nat (fn_next_value_id fn)" "b < cfg_num (cfg_build (fn_insts fn))"
  shows "fn_live fn b k v \<longleftrightarrow> ir_live fn b k (int v)"
  using fn_live_ir ir_fn_live[OF _ refl] assms unfolding fn_live_def by blast

text \<open>An example: value 0 is used in a loop, value 1 is what the loop computes and returns.\<close>

definition loop_fn :: ir_function where
  "loop_fn = \<lparr>fn_name = ''f'', fn_insts =
     [mk_inst IR_CONST 0 (-1) (-1) 4 1, mk_inst IR_LABEL (-1) (-1) (-1) 0 1, mk_inst IR_ADD 1 0 0 4 0,
      mk_inst IR_CBR (-1) 1 2 0 1, mk_inst IR_LABEL (-1) (-1) (-1) 0 2, mk_inst IR_RETURN (-1) 1 (-1) 4 0],
     fn_next_value_id = 2, fn_next_label_id = 3, fn_ra = None, fn_ra_xmm = None,
     fn_value_width = [4, 4], fn_value_is_unsigned = [0, 0], fn_value_is_float = [0, 0], fn_dbg_vars = []\<rparr>"

text \<open>
  The callee of an indirect call is read by the call, but the allocator's sets do not know it: value 0
  is live at the end of the first block and is not in its live-out set.
\<close>

definition callee_fn :: ir_function where
  "callee_fn = loop_fn\<lparr>fn_insts :=
     [mk_inst IR_FADDR 0 (-1) (-1) 8 0, mk_inst IR_LABEL (-1) (-1) (-1) 0 1,
      (mk_inst IR_CALL 1 (-1) (-1) 4 0)\<lparr>i_call_callee := 0\<rparr>, mk_inst IR_RETURN (-1) 1 (-1) 4 0]\<rparr>"

lemma callee_not_live:
  "ir_code_wf callee_fn \<and> ir_live callee_fn 0 1 0 \<and>
   fn_live_sets callee_fn = Some ([\<lparr>bs_w = [0], bs_nv = 2\<rparr>, \<lparr>bs_w = [0], bs_nv = 2\<rparr>],
     [\<lparr>bs_w = [0], bs_nv = 2\<rparr>, \<lparr>bs_w = [0], bs_nv = 2\<rparr>])"
proof -
  have c: "blk_end (cfg_blocks (cfg_build (fn_insts callee_fn)) ! 0) = 1"
    "blk_start (cfg_blocks (cfg_build (fn_insts callee_fn)) ! 1) = 1"
    "blk_end (cfg_blocks (cfg_build (fn_insts callee_fn)) ! 1) = 4"
    "1 \<in> set (succs_of (cfg_build (fn_insts callee_fn)) 0)"
    "0 \<notin> set (results_at callee_fn 1)" "0 \<in> set (reads_at callee_fn 2)" by code_simp+
  have "ir_live callee_fn 1 2 0" by (rule live_read) (simp_all add: c[simplified])
  then have "ir_live callee_fn 1 (Suc 1) 0" by (simp add: numeral_2_eq_2)
  then have "ir_live callee_fn 1 1 0" by (rule live_next[rotated 2]) (simp_all add: c[simplified])
  then have "ir_live callee_fn 0 1 0" using live_succ[of callee_fn 0 1 1 0] c by simp
  moreover have "ir_code_wf callee_fn" by code_simp
  moreover have "fn_live_sets callee_fn = Some ([\<lparr>bs_w = [0], bs_nv = 2\<rparr>, \<lparr>bs_w = [0], bs_nv = 2\<rparr>],
     [\<lparr>bs_w = [0], bs_nv = 2\<rparr>, \<lparr>bs_w = [0], bs_nv = 2\<rparr>])" by code_simp
  ultimately show ?thesis by blast
qed

section \<open>The property\<close>


lemma loop_fn_sets:
  "fn_live_sets loop_fn = Some ([\<lparr>bs_w = [0], bs_nv = 2\<rparr>, \<lparr>bs_w = [1], bs_nv = 2\<rparr>, \<lparr>bs_w = [2], bs_nv = 2\<rparr>],
     [\<lparr>bs_w = [1], bs_nv = 2\<rparr>, \<lparr>bs_w = [3], bs_nv = 2\<rparr>, \<lparr>bs_w = [0], bs_nv = 2\<rparr>])"
  by code_simp


end
