(* ===== verification/Interf.thy ===== *)
theory Interf
  imports RegClass Liveness
begin

text \<open>
  The interference graph of \<open>src/regalloc.c\<close>: neighbour lists, the backward walks that collect the
  colours forbidden to values live across a call and the edges, and the propagation of forbidden
  colours through copies.  The locale \<open>edge_set\<close> is what the walks need of the graph; the neighbour
  lists provide it.
\<close>

section \<open>The code\<close>

type_synonym interf_graph = "nat list list"

definition ig_init :: "nat \<Rightarrow> interf_graph" where
  "ig_init n = replicate n []"

definition ig_add_edge :: "nat \<Rightarrow> nat \<Rightarrow> interf_graph \<Rightarrow> interf_graph" where
  "ig_add_edge u v g =
     (if u = v then g
      else if v \<in> set (g ! u) then g
      else let g1 = g[u := g ! u @ [v]] in g1[v := g1 ! v @ [u]])"

text \<open>The class of the run: whether it is the float class, and its register file.\<close>

definition in_cls :: "ir_function \<Rightarrow> bool \<Rightarrow> ra_reg_class \<Rightarrow> nat \<Rightarrow> bool" where
  "in_cls fn fc cls v = value_in_class fn (int v) fc (rc_exclude_16byte_ld cls)"

definition cls_range :: "nat \<Rightarrow> ir_function \<Rightarrow> bool \<Rightarrow> ra_reg_class \<Rightarrow> int list \<Rightarrow> nat list" where
  "cls_range nv fn fc cls vs = filter (in_cls fn fc cls) (in_range nv vs)"

text \<open>\<open>ADDR\<close> and \<open>ALLOCA\<close> results stay out of callee-saved registers.\<close>

definition all_colors :: "ra_reg_class \<Rightarrow> u32" where
  "all_colors cls = (if rc_nregs cls \<ge> 32 then 0xffffffff else push_bit (rc_nregs cls) 1 - 1)"

definition forbid_addr :: "nat \<Rightarrow> ir_function \<Rightarrow> bool \<Rightarrow> ra_reg_class \<Rightarrow> u32 list \<Rightarrow> u32 list" where
  "forbid_addr nv fn fc cls masks =
     (if \<not> fc \<and> rc_nregs cls > 0 then
        let cs_only = all_colors cls AND NOT (rc_caller_saved cls) in
        if cs_only \<noteq> 0 then
          fold (\<lambda>x m. if i_op x = IR_ALLOCA \<or> i_op x = IR_ADDR
                      then fold (\<lambda>v m. m[v := m ! v OR cs_only]) (cls_range nv fn fc cls [i_dst x]) m
                      else m) (fn_insts fn) masks
        else masks
      else masks)"

text \<open>The backward transfer of a live set, restricted to the class.  A copy does not end its target.\<close>

definition kill_dst :: "nat \<Rightarrow> ir_function \<Rightarrow> bool \<Rightarrow> ra_reg_class \<Rightarrow> ir_inst \<Rightarrow> bitset \<Rightarrow> bitset" where
  "kill_dst nv fn fc cls x live =
     (if i_op x = IR_COPY then live
      else fold (\<lambda>v b. bs_clr b v) (cls_range nv fn fc cls (dst_def x)) live)"

definition kill_extra :: "nat \<Rightarrow> ir_function \<Rightarrow> bool \<Rightarrow> ra_reg_class \<Rightarrow> ir_inst \<Rightarrow> bitset \<Rightarrow> bitset" where
  "kill_extra nv fn fc cls x live = fold (\<lambda>v b. bs_clr b v) (cls_range nv fn fc cls (extra_defs x)) live"

definition gen_uses :: "nat \<Rightarrow> ir_function \<Rightarrow> int list \<Rightarrow> bool \<Rightarrow> ra_reg_class \<Rightarrow> ir_inst \<Rightarrow> bitset \<Rightarrow> bitset" where
  "gen_uses nv fn def fc cls x live =
     fold (\<lambda>v b. bs_set b v) (cls_range nv fn fc cls (operand_uses x @ folded_uses fn def x)) live"

definition live_back :: "nat \<Rightarrow> ir_function \<Rightarrow> int list \<Rightarrow> bool \<Rightarrow> ra_reg_class \<Rightarrow> ir_inst \<Rightarrow> bitset \<Rightarrow> bitset" where
  "live_back nv fn def fc cls x live =
     gen_uses nv fn def fc cls x (kill_extra nv fn fc cls x (kill_dst nv fn fc cls x live))"

subsection \<open>Pass 1: values live across a call\<close>

definition forbid_across :: "ir_function \<Rightarrow> bool \<Rightarrow> ra_reg_class \<Rightarrow> ir_inst \<Rightarrow> bitset \<Rightarrow> u32 list \<Rightarrow> u32 list" where
  "forbid_across fn fc cls x live masks =
     (if i_op x = IR_CALL \<or> i_op x = IR_ASM then
        fold (\<lambda>v m. if int v \<noteq> i_dst x \<and> int v \<noteq> i_b x \<and> int v \<noteq> i_c x \<and> int v \<noteq> i_d x \<and> in_cls fn fc cls v
                    then m[v := m ! v OR rc_caller_saved cls] else m) (bs_elems live) masks
      else masks)"

definition pass1_inst ::
  "nat \<Rightarrow> ir_function \<Rightarrow> int list \<Rightarrow> bool \<Rightarrow> ra_reg_class \<Rightarrow> nat \<Rightarrow> bitset \<times> u32 list \<Rightarrow> bitset \<times> u32 list" where
  "pass1_inst nv fn def fc cls i = (\<lambda>(live, masks).
     let x = fn_insts fn ! i in
     if ra_skips x then (live, masks)
     else (live_back nv fn def fc cls x live, forbid_across fn fc cls x live masks))"

definition pass1_block ::
  "nat \<Rightarrow> ir_function \<Rightarrow> int list \<Rightarrow> cfg \<Rightarrow> bool \<Rightarrow> ra_reg_class \<Rightarrow> bitset list \<Rightarrow> nat \<Rightarrow> u32 list \<Rightarrow> u32 list" where
  "pass1_block nv fn def g fc cls outs b masks =
     snd (fold (pass1_inst nv fn def fc cls) (rev [blk_start (cfg_blocks g ! b)..<blk_end (cfg_blocks g ! b)])
            (bs_copy (bs_init nv) (outs ! b), masks))"

subsection \<open>Pass 1b: propagation through copies and pointer steps\<close>

definition or_mask :: "nat \<Rightarrow> u32 \<Rightarrow> u32 list \<times> bool \<Rightarrow> u32 list \<times> bool" where
  "or_mask v m = (\<lambda>(masks, changed). if masks ! v \<noteq> m then (masks[v := m], True) else (masks, changed))"

definition propagate_inst ::
  "nat \<Rightarrow> ir_function \<Rightarrow> bool \<Rightarrow> ra_reg_class \<Rightarrow> ir_inst \<Rightarrow> u32 list \<times> bool \<Rightarrow> u32 list \<times> bool" where
  "propagate_inst nv fn fc cls x = (\<lambda>(masks, changed).
     let d = i_dst x; a = i_a x in
     if d < 0 \<or> int nv \<le> d \<or> a < 0 \<or> int nv \<le> a then (masks, changed)
     else if \<not> in_cls fn fc cls (nat d) \<or> \<not> in_cls fn fc cls (nat a) then (masks, changed)
     else
       let m = masks ! nat d OR masks ! nat a in
       if i_op x = IR_COPY then or_mask (nat a) m (or_mask (nat d) m (masks, changed))
       else if i_op x = IR_ADD \<or> i_op x = IR_SUB then or_mask (nat d) m (masks, changed)
       else (masks, changed))"

partial_function (option) propagate_loop ::
  "nat \<Rightarrow> ir_function \<Rightarrow> bool \<Rightarrow> ra_reg_class \<Rightarrow> u32 list \<Rightarrow> u32 list option" where
  "propagate_loop nv fn fc cls masks =
     (case fold (propagate_inst nv fn fc cls) (fn_insts fn) (masks, False) of
        (masks', changed) \<Rightarrow> if changed then propagate_loop nv fn fc cls masks' else Some masks')"

declare propagate_loop.simps [code]

subsection \<open>Pass 2: the edges\<close>

definition add_edges_live ::
  "ir_function \<Rightarrow> bool \<Rightarrow> ra_reg_class \<Rightarrow> bitset \<Rightarrow> nat \<Rightarrow> interf_graph \<Rightarrow> interf_graph" where
  "add_edges_live fn fc cls live u g =
     fold (\<lambda>w g. if in_cls fn fc cls w \<and> w \<noteq> u then ig_add_edge u w g else g) (bs_elems live) g"

definition add_edge_range :: "nat \<Rightarrow> int \<Rightarrow> int \<Rightarrow> interf_graph \<Rightarrow> interf_graph" where
  "add_edge_range nv u v g =
     (if u < 0 \<or> int nv \<le> u \<or> v < 0 \<or> int nv \<le> v then g else ig_add_edge (nat u) (nat v) g)"

definition edges_extra ::
  "nat \<Rightarrow> ir_function \<Rightarrow> bool \<Rightarrow> ra_reg_class \<Rightarrow> ir_inst \<Rightarrow> bitset \<Rightarrow> interf_graph \<Rightarrow> interf_graph" where
  "edges_extra nv fn fc cls x live g =
     (if i_op x = IR_CALL then
        add_edge_range nv (i_c x) (i_d x) (add_edge_range nv (i_b x) (i_d x) (add_edge_range nv (i_b x) (i_c x)
          (fold (add_edges_live fn fc cls live) (cls_range nv fn fc cls [i_b x, i_c x, i_d x]) g)))
      else if ir_op_with_overflow (i_op x) \<and> cls_range nv fn fc cls [i_c x] \<noteq> [] then
        add_edge_range nv (i_c x) (i_dst x) (add_edges_live fn fc cls live (nat (i_c x)) g)
      else g)"

definition pass2_inst ::
  "nat \<Rightarrow> ir_function \<Rightarrow> int list \<Rightarrow> bool \<Rightarrow> ra_reg_class \<Rightarrow> nat \<Rightarrow> bitset \<times> interf_graph \<Rightarrow> bitset \<times> interf_graph" where
  "pass2_inst nv fn def fc cls i = (\<lambda>(live, g).
     let x = fn_insts fn ! i in
     if ra_skips x then (live, g)
     else
       let g1 = fold (add_edges_live fn fc cls live) (cls_range nv fn fc cls (dst_def x)) g;
           live1 = kill_dst nv fn fc cls x live;
           g2 = edges_extra nv fn fc cls x live1 g1
       in (gen_uses nv fn def fc cls x (kill_extra nv fn fc cls x live1), g2))"

definition pass2_block ::
  "nat \<Rightarrow> ir_function \<Rightarrow> int list \<Rightarrow> cfg \<Rightarrow> bool \<Rightarrow> ra_reg_class \<Rightarrow> bitset list \<Rightarrow> nat \<Rightarrow> interf_graph \<Rightarrow> interf_graph" where
  "pass2_block nv fn def g fc cls outs b ig =
     snd (fold (pass2_inst nv fn def fc cls) (rev [blk_start (cfg_blocks g ! b)..<blk_end (cfg_blocks g ! b)])
            (bs_copy (bs_init nv) (outs ! b), ig))"

subsection \<open>Pass 2b: incoming parameters on arm64\<close>

fun gp_params :: "nat \<Rightarrow> ir_function \<Rightarrow> ra_reg_class \<Rightarrow> nat \<Rightarrow> ir_inst list \<Rightarrow> nat list" where
  "gp_params nv fn cls room [] = []"
| "gp_params nv fn cls room (x # xs) =
     (if room = 0 \<or> i_op x \<noteq> IR_PARAM then []
      else if i_force_stack x = 0 \<and> cls_range nv fn False cls [i_dst x] \<noteq> []
      then nat (i_dst x) # gp_params nv fn cls (room - 1) xs
      else gp_params nv fn cls room xs)"

fun add_pairs :: "nat list \<Rightarrow> interf_graph \<Rightarrow> interf_graph" where
  "add_pairs [] g = g"
| "add_pairs (u # us) g = add_pairs us (fold (ig_add_edge u) us g)"

definition build_interf_graph_cfg ::
  "ra_target \<Rightarrow> ir_function \<Rightarrow> cfg \<Rightarrow> nat \<Rightarrow> bool \<Rightarrow> ra_reg_class \<Rightarrow> (interf_graph \<times> u32 list) option" where
  "build_interf_graph_cfg t fn g nv fc cls =
     (let def = ra_build_defs fn;
          masks0 = forbid_addr nv fn fc cls (replicate nv 0)
      in case compute_live_in_out nv g (compute_use_def nv fn g def) of
           None \<Rightarrow> None
         | Some (ins, outs) \<Rightarrow>
             let masks1 = fold (pass1_block nv fn def g fc cls outs) [0..<cfg_num g] masks0 in
             case (if tg_reserve_va_scratch t then propagate_loop nv fn fc cls masks1 else Some masks1) of
               None \<Rightarrow> None
             | Some masks \<Rightarrow>
                 let ig = fold (pass2_block nv fn def g fc cls outs) [0..<cfg_num g] (ig_init nv)
                 in Some (if \<not> fc \<and> tg_arch t = TARGET_ARCH_ARM64
                          then add_pairs (gp_params nv fn cls 8 (take nv (fn_insts fn))) ig else ig, masks))"

section \<open>The contract of the graph\<close>

locale edge_set =
  fixes ok :: "nat \<Rightarrow> 'g \<Rightarrow> bool" and edges :: "'g \<Rightarrow> (nat \<times> nat) set" and add :: "nat \<Rightarrow> nat \<Rightarrow> 'g \<Rightarrow> 'g"
  assumes add: "ok n g \<Longrightarrow> u < n \<Longrightarrow> v < n \<Longrightarrow>
      ok n (add u v g) \<and> edges (add u v g) = edges g \<union> (if u = v then {} else {(u, v), (v, u)})"
    and symm: "ok n g \<Longrightarrow> (u, v) \<in> edges g \<Longrightarrow> (v, u) \<in> edges g \<and> u \<noteq> v \<and> u < n \<and> v < n"
begin

lemma add_some:
  "ok n g \<Longrightarrow> u < n \<Longrightarrow> (\<And>w. w \<in> set ws \<Longrightarrow> w < n) \<Longrightarrow>
    ok n (fold (\<lambda>w g. if P w \<and> w \<noteq> u then add u w g else g) ws g) \<and>
    edges (fold (\<lambda>w g. if P w \<and> w \<noteq> u then add u w g else g) ws g) =
      edges g \<union> (\<Union>w\<in>{w \<in> set ws. P w \<and> w \<noteq> u}. {(u, w), (w, u)})"
proof (induction ws arbitrary: g)
  case (Cons w ws)
  show ?case
  proof (cases "P w \<and> w \<noteq> u")
    case True
    have "ok n (add u w g)" "edges (add u w g) = edges g \<union> {(u, w), (w, u)}"
      using add[of n g u w] Cons.prems True by auto
    with Cons.IH[of "add u w g"] Cons.prems True show ?thesis by auto
  qed (use Cons in auto)
qed simp

lemma add_list:
  assumes "ok n g" "u < n" "\<And>w. w \<in> set ws \<Longrightarrow> w < n" "u \<notin> set ws"
  shows "ok n (fold (add u) ws g) \<and> edges (fold (add u) ws g) = edges g \<union> (\<Union>w\<in>set ws. {(u, w), (w, u)})"
proof -
  have "fold (add u) ws g = fold (\<lambda>w g. if True \<and> w \<noteq> u then add u w g else g) ws g"
    using assms(4) by (intro fold_cong) auto
  moreover have "{w \<in> set ws. True \<and> w \<noteq> u} = set ws" using assms(4) by auto
  ultimately show ?thesis using add_some[OF assms(1-3), where ws = ws and P = "\<lambda>_. True"] by simp
qed

end

definition ig_ok :: "nat \<Rightarrow> interf_graph \<Rightarrow> bool" where
  "ig_ok n g \<longleftrightarrow> length g = n \<and> (\<forall>u<n. distinct (g ! u) \<and> (\<forall>v\<in>set (g ! u). v < n \<and> v \<noteq> u \<and> u \<in> set (g ! v)))"

definition ig_edges :: "interf_graph \<Rightarrow> (nat \<times> nat) set" where
  "ig_edges g = {(u, v). u < length g \<and> v \<in> set (g ! u)}"

lemma ig_okD:
  assumes "ig_ok n g"
  shows "length g = n" "u < n \<Longrightarrow> distinct (g ! u)"
    "u < n \<Longrightarrow> v \<in> set (g ! u) \<Longrightarrow> v < n \<and> v \<noteq> u \<and> u \<in> set (g ! v)"
  using assms unfolding ig_ok_def by blast+

interpretation ig: edge_set ig_ok ig_edges ig_add_edge
proof
  fix n g u v
  assume ok: "ig_ok n g" and u: "u < n" and v: "v < n"
  note D = ig_okD[OF ok]
  have l: "length g = n" by (rule D)
  show "ig_ok n (ig_add_edge u v g) \<and>
    ig_edges (ig_add_edge u v g) = ig_edges g \<union> (if u = v then {} else {(u, v), (v, u)})"
  proof (cases "u = v \<or> v \<in> set (g ! u)")
    case True
    moreover have "u \<in> set (g ! v)" if "v \<in> set (g ! u)" using D(3)[OF u that] by blast
    ultimately show ?thesis using ok u v l by (auto simp: ig_add_edge_def ig_edges_def)
  next
    case False
    then have nu: "u \<notin> set (g ! v)" using D(3)[OF v, of u] by blast
    have e: "ig_add_edge u v g = g[u := g ! u @ [v], v := g ! v @ [u]]"
      using False by (simp add: ig_add_edge_def nth_list_update)
    define h where h: "h = g[u := g ! u @ [v], v := g ! v @ [u]]"
    have lh: "length h = n" using l by (simp add: h)
    have s: "set (h ! w) = set (g ! w) \<union> (if w = u then {v} else {}) \<union> (if w = v then {u} else {})" if "w < n" for w
      unfolding h using that u v l False by (auto simp: nth_list_update)
    have d: "distinct (h ! w)" if "w < n" for w
      unfolding h using D(2)[OF that] u v l False nu by (auto simp: nth_list_update)
    have m: "x < n \<and> x \<noteq> w \<and> w \<in> set (h ! x)" if w: "w < n" and x: "x \<in> set (h ! w)" for w x
    proof -
      have "x \<in> set (g ! w) \<or> (w = u \<and> x = v) \<or> (w = v \<and> x = u)" using x unfolding s[OF w] by (auto split: if_splits)
      then show ?thesis
      proof (elim disjE)
        assume "x \<in> set (g ! w)"
        from D(3)[OF w this] have "x < n \<and> x \<noteq> w \<and> w \<in> set (g ! x)" .
        then show ?thesis using s[of x] by simp
      qed (use s u v False in auto)
    qed
    have "ig_ok n h" unfolding ig_ok_def using d m lh by blast
    moreover have "ig_edges h = ig_edges g \<union> {(u, v), (v, u)}"
    proof (rule set_eqI, clarify)
      fix x y
      show "(x, y) \<in> ig_edges h \<longleftrightarrow> (x, y) \<in> ig_edges g \<union> {(u, v), (v, u)}"
        using s[of x] u v l lh unfolding ig_edges_def mem_Collect_eq case_prod_conv
        by (cases "x < n") (auto simp del: nth_list_update_neq split: if_splits)
    qed
    ultimately show ?thesis using e False h by simp
  qed
next
  fix n g u v assume "ig_ok n g" "(u, v) \<in> ig_edges g"
  then show "(v, u) \<in> ig_edges g \<and> u \<noteq> v \<and> u < n \<and> v < n"
    using ig_okD(1)[of n g] ig_okD(3)[of n g u v] by (auto simp: ig_edges_def)
qed

lemma ig_init_ok: "ig_ok n (ig_init n)" "ig_edges (ig_init n) = {}"
  by (auto simp: ig_ok_def ig_init_def ig_edges_def)

section \<open>The backward transfer\<close>

lemma cls_range_set: "v \<in> set (cls_range nv fn fc cls vs) \<longleftrightarrow> v < nv \<and> int v \<in> set vs \<and> in_cls fn fc cls v"
  by (auto simp: cls_range_def in_range_def image_iff intro!: bexI[of _ "int v"])

lemmas in_range_set = in_range_mem

definition bs_size :: "nat \<Rightarrow> bitset \<Rightarrow> bool" where
  "bs_size nv b \<longleftrightarrow> bs_ok b \<and> bs_nv b = nv"

lemma bs_sizeD: "bs_size nv b \<Longrightarrow> bs_ok b \<and> bs_nv b = nv" by (simp add: bs_size_def)

lemma bs_fold:
  assumes "bs_size nv b" "set vs \<subseteq> {..<nv}"
  shows "bs_size nv (fold (\<lambda>v b. bs_set b v) vs b)" "bs_abs (fold (\<lambda>v b. bs_set b v) vs b) = bs_abs b \<union> set vs"
    "bs_size nv (fold (\<lambda>v b. bs_clr b v) vs b)" "bs_abs (fold (\<lambda>v b. bs_clr b v) vs b) = bs_abs b - set vs"
  using bs.add_all[of b vs] bs.del_all[of b vs] assms by (auto simp: bs_size_def)

lemma cls_range_less: "set (cls_range nv fn fc cls vs) \<subseteq> {..<nv}"
  by (auto simp: cls_range_set)

lemma kill_dst_ok:
  assumes "bs_size nv b"
  shows "bs_size nv (kill_dst nv fn fc cls x b)"
    "bs_abs (kill_dst nv fn fc cls x b) =
       bs_abs b - (if i_op x = IR_COPY then {} else set (cls_range nv fn fc cls (dst_def x)))"
  using bs_fold(3,4)[OF assms cls_range_less] assms by (auto simp: kill_dst_def)

lemma live_back_ok:
  assumes "bs_size nv b"
  shows "bs_size nv (live_back nv fn def fc cls x b)"
    "bs_abs (live_back nv fn def fc cls x b) =
       (bs_abs b - (if i_op x = IR_COPY then {} else set (cls_range nv fn fc cls (dst_def x)))
         - set (cls_range nv fn fc cls (extra_defs x)))
       \<union> set (cls_range nv fn fc cls (operand_uses x @ folded_uses fn def x))"
proof -
  note k = kill_dst_ok[OF assms, of fn fc cls x]
  note e = bs_fold(3,4)[OF k(1) cls_range_less]
  show "bs_size nv (live_back nv fn def fc cls x b)"
    unfolding live_back_def gen_uses_def kill_extra_def by (rule bs_fold(1)[OF e(1) cls_range_less])
  show "bs_abs (live_back nv fn def fc cls x b) =
       (bs_abs b - (if i_op x = IR_COPY then {} else set (cls_range nv fn fc cls (dst_def x)))
         - set (cls_range nv fn fc cls (extra_defs x)))
       \<union> set (cls_range nv fn fc cls (operand_uses x @ folded_uses fn def x))"
    unfolding live_back_def gen_uses_def kill_extra_def
    unfolding bs_fold(2)[OF e(1) cls_range_less] e(2) k(2) ..
qed

text \<open>The walk keeps every live value of the class.\<close>

definition covers :: "nat \<Rightarrow> ir_function \<Rightarrow> bool \<Rightarrow> ra_reg_class \<Rightarrow> nat \<Rightarrow> nat \<Rightarrow> bitset \<Rightarrow> bool" where
  "covers nv fn fc cls b k live \<longleftrightarrow> bs_size nv live \<and>
     (\<forall>v. fn_live fn b k v \<and> in_cls fn fc cls v \<longrightarrow> v \<in> bs_abs live)"

lemma fn_live_step:
  "k < blk_end (cfg_blocks (cfg_build (fn_insts fn)) ! b) \<Longrightarrow> fn_live fn b k v \<longleftrightarrow>
     v \<in> set (inst_uses (nat (fn_next_value_id fn)) fn (ra_build_defs fn) (fn_insts fn ! k)) \<or>
     (v \<notin> set (inst_defs (nat (fn_next_value_id fn)) (fn_insts fn ! k)) \<and> fn_live fn b (Suc k) v)"
  unfolding fn_live_def by (rule live_from_inside)

lemma covers_back:
  assumes c: "covers nv fn fc cls b (Suc k) live" and k: "k < blk_end (cfg_blocks (cfg_build (fn_insts fn)) ! b)"
    and nv: "nv = nat (fn_next_value_id fn)"
  shows "covers nv fn fc cls b k (if ra_skips (fn_insts fn ! k) then live
     else live_back nv fn (ra_build_defs fn) fc cls (fn_insts fn ! k) live)"
proof (cases "ra_skips (fn_insts fn ! k)")
  case True
  with c fn_live_step[OF k] show ?thesis by (simp add: covers_def inst_uses_def inst_defs_def)
next
  case False
  have "bs_size nv live" using c by (simp add: covers_def)
  note L = live_back_ok[OF this, of fn "ra_build_defs fn" fc cls "fn_insts fn ! k"]
  from c False fn_live_step[OF k] L nv show ?thesis
    by (auto simp: covers_def inst_uses_def inst_defs_def cls_range_set in_range_set)
qed

section \<open>The edges of one instruction\<close>

definition live_edges :: "ir_function \<Rightarrow> bool \<Rightarrow> ra_reg_class \<Rightarrow> bitset \<Rightarrow> nat \<Rightarrow> (nat \<times> nat) set" where
  "live_edges fn fc cls live u = (\<Union>w\<in>{w \<in> bs_abs live. in_cls fn fc cls w \<and> w \<noteq> u}. {(u, w), (w, u)})"

lemma add_edges_live_ok:
  assumes "ig_ok nv g" "bs_size nv live" "u < nv"
  shows "ig_ok nv (add_edges_live fn fc cls live u g) \<and>
    ig_edges (add_edges_live fn fc cls live u g) = ig_edges g \<union> live_edges fn fc cls live u"
proof -
  have e: "set (bs_elems live) = bs_abs live" "\<And>w. w \<in> set (bs_elems live) \<Longrightarrow> w < nv"
    using set_bs_elems[of live] assms(2) by (auto simp: bs_size_def bs_ok_def)
  show ?thesis
    using ig.add_some[OF assms(1,3) e(2), where ws = "bs_elems live" and P = "in_cls fn fc cls"]
    unfolding add_edges_live_def live_edges_def e(1) by simp
qed

lemma add_edges_all_ok:
  "ig_ok nv g \<Longrightarrow> bs_size nv live \<Longrightarrow> set us \<subseteq> {..<nv} \<Longrightarrow>
    ig_ok nv (fold (add_edges_live fn fc cls live) us g) \<and>
    ig_edges (fold (add_edges_live fn fc cls live) us g) = ig_edges g \<union> (\<Union>u\<in>set us. live_edges fn fc cls live u)"
proof (induction us arbitrary: g)
  case (Cons u us)
  then show ?case
    using add_edges_live_ok[of nv g live u fn fc cls] Cons.IH[of "add_edges_live fn fc cls live u g"] by auto
qed simp

lemma add_edge_range_ok:
  assumes "ig_ok nv g"
  shows "ig_ok nv (add_edge_range nv u v g)" "ig_edges g \<subseteq> ig_edges (add_edge_range nv u v g)"
    "0 \<le> u \<Longrightarrow> u < int nv \<Longrightarrow> 0 \<le> v \<Longrightarrow> v < int nv \<Longrightarrow> u \<noteq> v \<Longrightarrow>
      (nat u, nat v) \<in> ig_edges (add_edge_range nv u v g) \<and> (nat v, nat u) \<in> ig_edges (add_edge_range nv u v g)"
proof -
  have "0 \<le> u \<Longrightarrow> u < int nv \<Longrightarrow> nat u < nv" for u by simp
  with ig.add[OF assms, of "nat u" "nat v"]
  show "ig_ok nv (add_edge_range nv u v g)" "ig_edges g \<subseteq> ig_edges (add_edge_range nv u v g)"
    "0 \<le> u \<Longrightarrow> u < int nv \<Longrightarrow> 0 \<le> v \<Longrightarrow> v < int nv \<Longrightarrow> u \<noteq> v \<Longrightarrow>
      (nat u, nat v) \<in> ig_edges (add_edge_range nv u v g) \<and> (nat v, nat u) \<in> ig_edges (add_edge_range nv u v g)"
    using assms by (auto simp: add_edge_range_def)
qed

text \<open>
  The values an instruction \<open>x\<close> defines clash with each other and with what is live after it (\<open>L\<close>).
  The one pair the code leaves out is the first result of a call with a further result, when the
  latter (or the former) is dead.
\<close>

definition clash :: "nat \<Rightarrow> ir_inst \<Rightarrow> (nat \<Rightarrow> bool) \<Rightarrow> nat \<Rightarrow> nat \<Rightarrow> bool" where
  "clash nv x L u v \<longleftrightarrow> u \<noteq> v \<and> u \<in> set (inst_defs nv x) \<and> (v \<in> set (inst_defs nv x) \<or> L v) \<and>
     \<not> (i_op x = IR_CALL \<and> ((int u = i_dst x \<and> \<not> L v) \<or> (int v = i_dst x \<and> \<not> L u)))"

lemma live_edges_pair: "v \<in> bs_abs live \<Longrightarrow> in_cls fn fc cls v \<Longrightarrow> v \<noteq> u \<Longrightarrow>
    (u, v) \<in> live_edges fn fc cls live u \<and> (v, u) \<in> live_edges fn fc cls live u"
  unfolding live_edges_def by blast

lemma call_pairs:
  assumes "ig_ok nv g" "g' = add_edge_range nv c d (add_edge_range nv b d (add_edge_range nv b c g))"
  shows "ig_ok nv g'" "ig_edges g \<subseteq> ig_edges g'"
    "u < nv \<Longrightarrow> v < nv \<Longrightarrow> int u \<in> {b, c, d} \<Longrightarrow> int v \<in> {b, c, d} \<Longrightarrow> u \<noteq> v \<Longrightarrow> (u, v) \<in> ig_edges g'"
proof -
  note A = add_edge_range_ok[OF assms(1), where u = b and v = c]
  note B = add_edge_range_ok[OF A(1), where u = b and v = d]
  note C = add_edge_range_ok[OF B(1), where u = c and v = d]
  show "ig_ok nv g'" "ig_edges g \<subseteq> ig_edges g'" using A B C assms(2) by auto
  show "(u, v) \<in> ig_edges g'" if uv: "u < nv" "v < nv" "int u \<in> {b, c, d}" "int v \<in> {b, c, d}" "u \<noteq> v"
  proof -
    have e: "int u = int u' \<longleftrightarrow> u = u'" for u' by simp
    from uv show ?thesis unfolding assms(2)
      using A(3) B(2,3) C(2,3) by (elim insertE emptyE) (auto dest!: sym[of "int _"])
  qed
qed

definition edges_mono :: "nat \<Rightarrow> interf_graph \<Rightarrow> interf_graph \<Rightarrow> bool" where
  "edges_mono nv g g' \<longleftrightarrow> ig_ok nv g' \<and> ig_edges g \<subseteq> ig_edges g'"

lemma edges_extra_ok:
  assumes g: "ig_ok nv g" and live: "bs_size nv live"
  shows "ig_ok nv (edges_extra nv fn fc cls x live g)" "ig_edges g \<subseteq> ig_edges (edges_extra nv fn fc cls x live g)"
    "u \<in> set (cls_range nv fn fc cls (extra_defs x)) \<Longrightarrow> v \<in> bs_abs live \<Longrightarrow> in_cls fn fc cls v \<Longrightarrow> u \<noteq> v \<Longrightarrow>
      (u, v) \<in> ig_edges (edges_extra nv fn fc cls x live g)"
    "u \<in> set (cls_range nv fn fc cls (extra_defs x)) \<Longrightarrow> v \<in> set (cls_range nv fn fc cls (extra_defs x)) \<Longrightarrow> u \<noteq> v \<Longrightarrow>
      (u, v) \<in> ig_edges (edges_extra nv fn fc cls x live g)"
    "i_op x \<noteq> IR_CALL \<Longrightarrow> u \<in> set (cls_range nv fn fc cls (extra_defs x)) \<Longrightarrow> v < nv \<Longrightarrow> int v = i_dst x \<Longrightarrow> u \<noteq> v \<Longrightarrow>
      (u, v) \<in> ig_edges (edges_extra nv fn fc cls x live g) \<and> (v, u) \<in> ig_edges (edges_extra nv fn fc cls x live g)"
proof -
  let ?g = "edges_extra nv fn fc cls x live g"
  have "ig_ok nv ?g \<and> ig_edges g \<subseteq> ig_edges ?g \<and>
    (u \<in> set (cls_range nv fn fc cls (extra_defs x)) \<longrightarrow> v \<in> bs_abs live \<longrightarrow> in_cls fn fc cls v \<longrightarrow> u \<noteq> v \<longrightarrow> (u, v) \<in> ig_edges ?g) \<and>
    (u \<in> set (cls_range nv fn fc cls (extra_defs x)) \<longrightarrow> v \<in> set (cls_range nv fn fc cls (extra_defs x)) \<longrightarrow> u \<noteq> v \<longrightarrow>
      (u, v) \<in> ig_edges ?g) \<and>
    (i_op x \<noteq> IR_CALL \<longrightarrow> u \<in> set (cls_range nv fn fc cls (extra_defs x)) \<longrightarrow> v < nv \<longrightarrow> int v = i_dst x \<longrightarrow> u \<noteq> v \<longrightarrow>
      (u, v) \<in> ig_edges ?g \<and> (v, u) \<in> ig_edges ?g)" for u v
  proof (cases "i_op x = IR_CALL")
    case True
    let ?us = "cls_range nv fn fc cls [i_b x, i_c x, i_d x]"
    define g1 where "g1 = fold (add_edges_live fn fc cls live) ?us g"
    have F: "ig_ok nv g1" "ig_edges g1 = ig_edges g \<union> (\<Union>u\<in>set ?us. live_edges fn fc cls live u)"
      using add_edges_all_ok[OF g live cls_range_less[of nv fn fc cls "[i_b x, i_c x, i_d x]"], of fn fc cls]
      unfolding g1_def by simp_all
    have "?g = add_edge_range nv (i_c x) (i_d x) (add_edge_range nv (i_b x) (i_d x) (add_edge_range nv (i_b x) (i_c x) g1))"
      using True by (simp add: edges_extra_def g1_def)
    note P = call_pairs[OF F(1) this]
    have x: "extra_defs x = [i_b x, i_c x, i_d x]" using True by (simp add: extra_defs_def)
    have "(u, v) \<in> ig_edges g1" if "u \<in> set ?us" "v \<in> bs_abs live" "in_cls fn fc cls v" "u \<noteq> v"
      using F(2) that live_edges_pair[of v live fn fc cls u] by blast
    moreover have "(u, v) \<in> ig_edges ?g" if "u \<in> set ?us" "v \<in> set ?us" "u \<noteq> v"
      using that by (intro P(3)) (auto simp: cls_range_set)
    ultimately show ?thesis using P(1,2) F True unfolding x by blast
  next
    case False
    show ?thesis
    proof (cases "ir_op_with_overflow (i_op x) \<and> cls_range nv fn fc cls [i_c x] \<noteq> []")
      case True
      then obtain c where c: "c < nv" "int c = i_c x" "in_cls fn fc cls c"
        using cls_range_set[of _ nv fn fc cls "[i_c x]"] by (metis list.set_intros(1) neq_Nil_conv set_ConsD empty_iff list.set(1))
      define g1 where "g1 = add_edges_live fn fc cls live c g"
      have F: "ig_ok nv g1" "ig_edges g1 = ig_edges g \<union> live_edges fn fc cls live c"
        using add_edges_live_ok[OF g live c(1), of fn fc cls] unfolding g1_def by simp_all
      have eq: "?g = add_edge_range nv (i_c x) (i_dst x) g1"
        using True False c(2)[symmetric] by (simp add: edges_extra_def g1_def)
      note A = add_edge_range_ok[OF F(1), where u = "i_c x" and v = "i_dst x"]
      have x: "u \<in> set (cls_range nv fn fc cls (extra_defs x)) \<longleftrightarrow> u = c" for u
        using True False c by (auto simp: extra_defs_def cls_range_set)
      have "(c, v) \<in> ig_edges g1" if "v \<in> bs_abs live" "in_cls fn fc cls v" "c \<noteq> v"
        using F(2) that live_edges_pair[of v live fn fc cls c] by blast
      moreover have "(c, v) \<in> ig_edges ?g \<and> (v, c) \<in> ig_edges ?g" if "v < nv" "int v = i_dst x" "c \<noteq> v"
      proof -
        have "nat (i_c x) = c" "nat (i_dst x) = v" "i_c x \<noteq> i_dst x" using c that by auto
        with A(3) c that show ?thesis unfolding eq by simp
      qed
      ultimately show ?thesis using A(1,2) F(2) unfolding x unfolding eq by blast
    next
      case no: False
      then have "?g = g" using False by (auto simp: edges_extra_def)
      moreover have "cls_range nv fn fc cls [] = []" by (simp add: cls_range_def in_range_def)
      then have "cls_range nv fn fc cls (extra_defs x) = []"
        using no False by (cases "ir_op_with_overflow (i_op x)") (simp_all add: extra_defs_def)
      ultimately show ?thesis using g by simp
    qed
  qed
  then show "ig_ok nv ?g" "ig_edges g \<subseteq> ig_edges ?g"
    "u \<in> set (cls_range nv fn fc cls (extra_defs x)) \<Longrightarrow> v \<in> bs_abs live \<Longrightarrow> in_cls fn fc cls v \<Longrightarrow> u \<noteq> v \<Longrightarrow> (u, v) \<in> ig_edges ?g"
    "u \<in> set (cls_range nv fn fc cls (extra_defs x)) \<Longrightarrow> v \<in> set (cls_range nv fn fc cls (extra_defs x)) \<Longrightarrow> u \<noteq> v \<Longrightarrow>
      (u, v) \<in> ig_edges ?g"
    "i_op x \<noteq> IR_CALL \<Longrightarrow> u \<in> set (cls_range nv fn fc cls (extra_defs x)) \<Longrightarrow> v < nv \<Longrightarrow> int v = i_dst x \<Longrightarrow> u \<noteq> v \<Longrightarrow>
      (u, v) \<in> ig_edges ?g \<and> (v, u) \<in> ig_edges ?g"
    by blast+
qed

section \<open>The second walk\<close>

lemma pass2_inst_ok:
  assumes live: "bs_size nv live" and g: "ig_ok nv g" and x: "x = fn_insts fn ! i" "\<not> ra_skips x"
    and L: "\<And>v. L v \<Longrightarrow> in_cls fn fc cls v \<Longrightarrow> v \<in> bs_abs live"
  shows "\<exists>g'. pass2_inst nv fn def fc cls i (live, g) = (live_back nv fn def fc cls x live, g') \<and>
    ig_ok nv g' \<and> ig_edges g \<subseteq> ig_edges g' \<and>
    (\<forall>u v. clash nv x L u v \<longrightarrow> in_cls fn fc cls u \<longrightarrow> in_cls fn fc cls v \<longrightarrow> (u, v) \<in> ig_edges g')"
proof -
  define g1 where "g1 = fold (add_edges_live fn fc cls live) (cls_range nv fn fc cls (dst_def x)) g"
  define live1 where "live1 = kill_dst nv fn fc cls x live"
  define g2 where "g2 = edges_extra nv fn fc cls x live1 g1"
  have eq: "pass2_inst nv fn def fc cls i (live, g) = (live_back nv fn def fc cls x live, g2)"
    using x by (simp add: pass2_inst_def Let_def live_back_def g1_def live1_def g2_def)
  have G1: "ig_ok nv g1" "ig_edges g1 = ig_edges g \<union> (\<Union>u\<in>set (cls_range nv fn fc cls (dst_def x)). live_edges fn fc cls live u)"
    using add_edges_all_ok[OF g live cls_range_less[of nv fn fc cls "dst_def x"], of fn fc cls] unfolding g1_def by simp_all
  note K = kill_dst_ok[OF live, of fn fc cls x, folded live1_def]
  note E = edges_extra_ok[OF G1(1) K(1), where fn = fn and fc = fc and cls = cls and x = x, folded g2_def]
  have dst: "(u, v) \<in> ig_edges g2 \<and> (v, u) \<in> ig_edges g2"
    if "u \<in> set (cls_range nv fn fc cls (dst_def x))" "v \<in> bs_abs live" "in_cls fn fc cls v" "u \<noteq> v" for u v
    using G1(2) E(2) that live_edges_pair[of v live fn fc cls u] by blast
  have defs: "w \<in> set (inst_defs nv x) \<longleftrightarrow> w < nv \<and> (int w \<in> set (dst_def x) \<or> int w \<in> set (extra_defs x))" for w
    using x(2) by (auto simp: inst_defs_def in_range_set)
  have dd: "int w \<in> set (dst_def x) \<Longrightarrow> int w = i_dst x" for w by (simp add: dst_def_def split: if_splits)
  have ed: "int u \<in> set (extra_defs x) \<Longrightarrow> i_op x = IR_CALL \<or> ir_op_with_overflow (i_op x)" for u
    by (auto simp: extra_defs_def split: if_splits)
  have ncopy: "int u \<in> set (extra_defs x) \<Longrightarrow> i_op x \<noteq> IR_COPY \<and> dst_def x = [i_dst x]" for u
    using ed[of u] by (auto simp: ir_op_with_overflow_def ir_op_vec_store_def dst_def_def)
  have live1: "v \<in> bs_abs live1" if "v \<in> bs_abs live" "int v \<noteq> i_dst x" for v
    using that K(2) dd by (auto simp: cls_range_set)
  have "(u, v) \<in> ig_edges g2" if c: "clash nv x L u v" and cls: "in_cls fn fc cls u" "in_cls fn fc cls v" for u v
  proof -
    from c have ne: "u \<noteq> v" and u: "u \<in> set (inst_defs nv x)" and v: "v \<in> set (inst_defs nv x) \<or> L v"
      and ex: "\<not> (i_op x = IR_CALL \<and> ((int u = i_dst x \<and> \<not> L v) \<or> (int v = i_dst x \<and> \<not> L u)))"
      unfolding clash_def by blast+
    note sym = ig.symm[OF E(1)]
    show ?thesis
    proof (cases "int u \<in> set (dst_def x)")
      case ud: True
      then have uc: "u \<in> set (cls_range nv fn fc cls (dst_def x))" using u cls defs by (simp add: cls_range_set)
      show ?thesis
      proof (cases "L v")
        case True
        with dst[OF uc _ cls(2) ne] L cls show ?thesis by blast
      next
        case False
        with v have vd: "v \<in> set (inst_defs nv x)" by blast
        have "int v \<in> set (extra_defs x)" using vd defs dd ud ne by (metis int_int_eq)
        moreover have "i_op x \<noteq> IR_CALL" using ex dd[OF ud] False by blast
        ultimately show ?thesis using E(5)[of v u] vd defs cls dd[OF ud] u ne by (simp add: cls_range_set)
      qed
    next
      case False
      then have ue: "int u \<in> set (extra_defs x)" using u defs by blast
      then have uc: "u \<in> set (cls_range nv fn fc cls (extra_defs x))" using u cls defs by (simp add: cls_range_set)
      have ud: "int u \<noteq> i_dst x" using False ncopy[OF ue] by simp
      show ?thesis
      proof (cases "int v = i_dst x")
        case True
        then have vd: "int v \<in> set (dst_def x)" using ncopy[OF ue] by simp
        show ?thesis
        proof (cases "i_op x = IR_CALL")
          case True
          with ex \<open>int v = i_dst x\<close> have "L u" by blast
          moreover have "v < nv"
          proof (cases "L v")
            case True
            then have "v \<in> bs_abs live" using L cls by blast
            with live show ?thesis by (auto simp: bs_size_def bs_ok_def)
          qed (use v defs in blast)
          ultimately show ?thesis using dst[of v u] vd cls L ne by (simp add: cls_range_set)
        next
          case False
          moreover have "v < nv"
          proof (cases "L v")
            case True
            then have "v \<in> bs_abs live" using L cls by blast
            with live show ?thesis by (auto simp: bs_size_def bs_ok_def)
          qed (use v defs in blast)
          ultimately show ?thesis using E(5)[OF _ uc _ True ne] by blast
        qed
      next
        case nv: False
        show ?thesis
        proof (cases "L v")
          case True
          then show ?thesis using E(3)[OF uc live1 cls(2) ne] L cls nv by blast
        next
          case False
          with v have "v \<in> set (inst_defs nv x)" by blast
          moreover then have "int v \<in> set (extra_defs x)" using defs dd nv by blast
          ultimately have "v \<in> set (cls_range nv fn fc cls (extra_defs x))" using defs cls by (simp add: cls_range_set)
          with E(4)[OF uc _ ne] show ?thesis by blast
        qed
      qed
    qed
  qed
  with eq E(1,2) G1(2) show ?thesis by blast
qed

definition fn_clash :: "ir_function \<Rightarrow> nat \<Rightarrow> nat \<Rightarrow> nat \<Rightarrow> nat \<Rightarrow> bool" where
  "fn_clash fn b k = clash (nat (fn_next_value_id fn)) (fn_insts fn ! k) (fn_live fn b (Suc k))"

text \<open>\<open>crosses x v\<close>: a value \<open>v\<close> that is live after the call or assembly \<open>x\<close> is not one of its results.\<close>

definition crosses :: "ir_inst \<Rightarrow> nat \<Rightarrow> bool" where
  "crosses x v \<longleftrightarrow> (i_op x = IR_CALL \<or> i_op x = IR_ASM) \<and>
     int v \<noteq> i_dst x \<and> int v \<noteq> i_b x \<and> int v \<noteq> i_c x \<and> int v \<noteq> i_d x"

text \<open>Values that conflict clash: followed along the path, the later of the two definitions meets the other value.\<close>

lemma together_clash:
  assumes "point_reach fn b k" "fn_live fn b k u" "fn_live fn b k v" "u \<noteq> v"
    and "\<not> (fn_live fn 0 0 u \<and> fn_live fn 0 0 v)"
  shows "\<exists>b k. in_block fn b k \<and> (fn_clash fn b k u v \<or> fn_clash fn b k v u)"
  using assms(1-3)
proof (induction rule: point_reach.induct)
  case reach_entry
  with assms(5) show ?case by simp
next
  case (reach_next b k)
  then have k: "k < blk_end (cfg_blocks (cfg_build (fn_insts fn)) ! b)" by (simp add: in_block_def)
  show ?case
  proof (cases "fn_live fn b k u \<and> fn_live fn b k v")
    case True
    with reach_next.IH show ?thesis by blast
  next
    case False
    then have "fn_clash fn b k u v \<or> fn_clash fn b k v u"
      using reach_next.prems assms(4) fn_live_step[OF k] by (auto simp: fn_clash_def clash_def)
    with reach_next.hyps(2) show ?thesis by blast
  qed
next
  case (reach_succ b k s)
  then have "fn_live fn b k u" "fn_live fn b k v" unfolding fn_live_def by (auto intro: live_edge)
  with reach_succ.IH show ?case by blast
qed

lemma reach_block: "point_reach fn b k \<Longrightarrow> b < cfg_num (cfg_build (fn_insts fn))"
proof (induction rule: point_reach.induct)
  case reach_entry
  show ?case using cfg_build_blocks(1)[of "fn_insts fn"] by (simp add: blocks_tile_def)
qed (use built.succ_block in \<open>auto\<close>)

lemma conflict_clash:
  assumes wf: "ir_code_wf fn" and uv: "plain_value fn u" "plain_value fn v" and c: "ir_conflict fn (int u) (int v)"
  shows "\<exists>b k. in_block fn b k \<and> (fn_clash fn b k u v \<or> fn_clash fn b k v u)"
proof -
  have u: "no_callee fn (int u)" "u < nat (fn_next_value_id fn)" and v: "no_callee fn (int v)" "v < nat (fn_next_value_id fn)"
    using uv by (simp_all add: plain_value_def)
  note U = ir_live_eq[OF wf u] and V = ir_live_eq[OF wf v]
  have "fn_clash fn b k u v" if b: "in_block fn b k" and i: "ir_clash fn b k (int u) (int v)" for b k
  proof -
    have bk: "b < cfg_num (cfg_build (fn_insts fn))" "k < blk_end (cfg_blocks (cfg_build (fn_insts fn)) ! b)"
      using b by (simp_all add: in_block_def)
    have "fn_clash fn b k u v = ir_clash fn b k (int u) (int v)"
      unfolding ir_clash_def fn_clash_def clash_def
      by (simp only: U[OF bk(1)] V[OF bk(1)] reads_at_mem(2)[OF wf u bk] reads_at_mem(2)[OF wf v bk] of_nat_eq_iff)
    with i show ?thesis by simp
  qed
  moreover have "fn_live fn b k u \<longleftrightarrow> ir_live fn b k (int u)" "fn_live fn b k v \<longleftrightarrow> ir_live fn b k (int v)"
    if "point_reach fn b k" for b k using reach_block[OF that] U V by blast+
  ultimately show ?thesis
    using c together_clash[of fn _ _ u v] reach_entry[of fn] unfolding ir_conflict_def by (metis of_nat_eq_iff)
qed

lemma crosses_table:
  assumes wf: "ir_code_wf fn" and v: "plain_value fn v" and b: "in_block fn b k" and c: "ir_crosses fn b k (int v)"
  shows "crosses (fn_insts fn ! k) v \<and> fn_live fn b (Suc k) v"
proof -
  have bk: "b < cfg_num (cfg_build (fn_insts fn))" "k < blk_end (cfg_blocks (cfg_build (fn_insts fn)) ! b)"
    using b by (simp_all add: in_block_def)
  let ?x = "fn_insts fn ! k"
  have x: "ir_wf ?x" using ir_code_wfD[OF wf block_inst_less[OF bk]] .
  from c have o: "i_op ?x = IR_CALL \<or> i_op ?x = IR_ASM" and r: "int v \<notin> set (ir_results ?x)"
    and l: "ir_live fn b (Suc k) (int v)" unfolding ir_crosses_def results_at_def by blast+
  have "crosses ?x v"
  proof (cases "i_op ?x = IR_CALL")
    case True
    with r show ?thesis by (simp add: crosses_def ir_results_def)
  next
    case False
    with o have a: "i_op ?x = IR_ASM" by blast
    then have "i_dst ?x < 0" "i_b ?x < 0" "i_c ?x < 0" "i_d ?x < 0" using x by (simp_all add: ir_wf_def)
    with a show ?thesis by (simp add: crosses_def)
  qed
  moreover have "fn_live fn b (Suc k) v" using l ir_live_eq[OF wf _ _ bk(1)] v unfolding plain_value_def by blast
  ultimately show ?thesis ..
qed

definition edges_done :: "ir_function \<Rightarrow> bool \<Rightarrow> ra_reg_class \<Rightarrow> nat \<Rightarrow> nat \<Rightarrow> interf_graph \<Rightarrow> bool" where
  "edges_done fn fc cls b k ig \<longleftrightarrow>
     (\<forall>i u v. k \<le> i \<and> i < blk_end (cfg_blocks (cfg_build (fn_insts fn)) ! b) \<and> fn_clash fn b i u v \<and>
        in_cls fn fc cls u \<and> in_cls fn fc cls v \<longrightarrow> (u, v) \<in> ig_edges ig)"

lemma edges_done_mono: "edges_done fn fc cls b k ig \<Longrightarrow> ig_edges ig \<subseteq> ig_edges ig' \<Longrightarrow> edges_done fn fc cls b k ig'"
  unfolding edges_done_def by blast

lemma covers_out:
  assumes "live_sets_ok fn ins outs" "b < cfg_num (cfg_build (fn_insts fn))"
  shows "covers (nat (fn_next_value_id fn)) fn fc cls b (blk_end (cfg_blocks (cfg_build (fn_insts fn)) ! b))
    (bs_copy (bs_init (nat (fn_next_value_id fn))) (outs ! b))"
proof -
  note L = live_sets_okD[OF assms(1)]
  have o: "bs_ok (outs ! b)" "bs_nv (outs ! b) = nat (fn_next_value_id fn)"
    using bs_all_ok_nth[OF L(2) assms(2)] by auto
  then have "bs_copy (bs_init (nat (fn_next_value_id fn))) (outs ! b) = outs ! b"
    using bs_copy_eq bs.empty by simp
  with o L(4)[OF assms(2)] show ?thesis by (simp add: covers_def bs_size_def)
qed

lemma pass2_block_ok:
  assumes ok: "live_sets_ok fn ins outs" and b: "b < cfg_num (cfg_build (fn_insts fn))"
    and nv: "nv = nat (fn_next_value_id fn)" and ig: "ig_ok nv ig0"
  shows "ig_ok nv (pass2_block nv fn (ra_build_defs fn) (cfg_build (fn_insts fn)) fc cls outs b ig0) \<and>
    ig_edges ig0 \<subseteq> ig_edges (pass2_block nv fn (ra_build_defs fn) (cfg_build (fn_insts fn)) fc cls outs b ig0) \<and>
    edges_done fn fc cls b (blk_start (cfg_blocks (cfg_build (fn_insts fn)) ! b))
      (pass2_block nv fn (ra_build_defs fn) (cfg_build (fn_insts fn)) fc cls outs b ig0)"
proof -
  let ?g = "cfg_build (fn_insts fn)" and ?def = "ra_build_defs fn"
  let ?s = "blk_start (cfg_blocks ?g ! b)" and ?e = "blk_end (cfg_blocks ?g ! b)"
  let ?P = "\<lambda>k (live, ig). covers nv fn fc cls b k live \<and> ig_ok nv ig \<and> ig_edges ig0 \<subseteq> ig_edges ig \<and>
    edges_done fn fc cls b k ig"
  have "?P ?s (fold (pass2_inst nv fn ?def fc cls) (rev [?s..<?e]) (bs_copy (bs_init nv) (outs ! b), ig0))"
  proof (rule fold_rev_upt_inv[where P = ?P])
    show "?s \<le> ?e" using b by (rule cfg_build_range)
    show "?P ?e (bs_copy (bs_init nv) (outs ! b), ig0)"
      using covers_out[OF ok b, of fc cls] ig nv by (auto simp: edges_done_def)
  next
    fix i st assume i: "i < ?e" and P: "?P (Suc i) st"
    obtain live g where st: "st = (live, g)" by (cases st)
    from P st have c: "covers nv fn fc cls b (Suc i) live" and g: "ig_ok nv g" "ig_edges ig0 \<subseteq> ig_edges g"
      and d: "edges_done fn fc cls b (Suc i) g" by auto
    note bck = covers_back[OF c i nv]
    show "?P i (pass2_inst nv fn ?def fc cls i st)"
    proof (cases "ra_skips (fn_insts fn ! i)")
      case True
      have "\<not> fn_clash fn b i u v" for u v
        using True by (simp add: fn_clash_def clash_def inst_defs_def)
      with d have "edges_done fn fc cls b i g" unfolding edges_done_def by (metis Suc_leI le_neq_implies_less)
      with True bck g st show ?thesis by (simp add: pass2_inst_def)
    next
      case False
      have "bs_size nv live" "\<And>v. fn_live fn b (Suc i) v \<Longrightarrow> in_cls fn fc cls v \<Longrightarrow> v \<in> bs_abs live"
        using c by (auto simp: covers_def)
      from pass2_inst_ok[OF this(1) g(1) refl False, of "fn_live fn b (Suc i)" fc cls ?def, OF this(2)]
      obtain g' where g': "pass2_inst nv fn ?def fc cls i (live, g) = (live_back nv fn ?def fc cls (fn_insts fn ! i) live, g')"
        "ig_ok nv g'" "ig_edges g \<subseteq> ig_edges g'"
        "\<And>u v. clash nv (fn_insts fn ! i) (fn_live fn b (Suc i)) u v \<Longrightarrow> in_cls fn fc cls u \<Longrightarrow> in_cls fn fc cls v \<Longrightarrow>
          (u, v) \<in> ig_edges g'" by blast
      have "edges_done fn fc cls b i g'"
        unfolding edges_done_def
      proof (intro allI impI, elim conjE)
        fix j u v assume j: "i \<le> j" "j < ?e" and cl: "fn_clash fn b j u v" "in_cls fn fc cls u" "in_cls fn fc cls v"
        show "(u, v) \<in> ig_edges g'"
        proof (cases "j = i")
          case True
          with cl g'(4) nv show ?thesis by (simp add: fn_clash_def)
        next
          case False
          with j cl d have "(u, v) \<in> ig_edges g" unfolding edges_done_def by (metis Suc_leI le_neq_implies_less)
          with g'(3) show ?thesis by blast
        qed
      qed
      with bck False g' g(2) st show ?thesis by auto
    qed
  qed
  then show ?thesis unfolding pass2_block_def by (auto split: prod.splits simp: snd_def)
qed

lemma pass2_ok:
  assumes ok: "live_sets_ok fn ins outs" and nv: "nv = nat (fn_next_value_id fn)"
    and ig: "ig = fold (pass2_block nv fn (ra_build_defs fn) (cfg_build (fn_insts fn)) fc cls outs)
      [0..<cfg_num (cfg_build (fn_insts fn))] (ig_init nv)"
  shows "ig_ok nv ig"
    "b < cfg_num (cfg_build (fn_insts fn)) \<Longrightarrow> edges_done fn fc cls b (blk_start (cfg_blocks (cfg_build (fn_insts fn)) ! b)) ig"
proof -
  let ?g = "cfg_build (fn_insts fn)"
  let ?P = "\<lambda>n ig. ig_ok nv ig \<and> (\<forall>b<n. edges_done fn fc cls b (blk_start (cfg_blocks ?g ! b)) ig)"
  have "?P (cfg_num ?g) ig"
    unfolding ig
  proof (rule fold_upt_inv[where P = ?P])
    fix i s assume i: "i < cfg_num ?g" and P: "?P i s"
    then have "ig_ok nv s" by blast
    from pass2_block_ok[OF ok i nv this, of fc cls] P
    show "?P (Suc i) (pass2_block nv fn (ra_build_defs fn) ?g fc cls outs i s)"
      by (metis edges_done_mono less_Suc_eq)
  qed (simp_all add: ig_init_ok)
  then show "ig_ok nv ig"
    "b < cfg_num ?g \<Longrightarrow> edges_done fn fc cls b (blk_start (cfg_blocks ?g ! b)) ig" by blast+
qed

section \<open>Forbidden colours\<close>

definition mask_le :: "u32 list \<Rightarrow> u32 list \<Rightarrow> bool" where
  "mask_le m m' \<longleftrightarrow> length m' = length m \<and> (\<forall>v<length m. \<forall>c. bit (m ! v) c \<longrightarrow> bit (m' ! v) c)"

lemma mask_le_refl [simp]: "mask_le m m" by (simp add: mask_le_def)

lemma mask_le_trans [trans]: "mask_le m m' \<Longrightarrow> mask_le m' m'' \<Longrightarrow> mask_le m m''" by (simp add: mask_le_def)

lemma mask_le_len: "mask_le m m' \<Longrightarrow> length m' = length m" by (simp add: mask_le_def)

lemma mask_le_bit: "mask_le m m' \<Longrightarrow> bit (m ! v) c \<Longrightarrow> v < length m \<Longrightarrow> bit (m' ! v) c" by (simp add: mask_le_def)

lemma mask_le_or: "mask_le m (m[v := m ! v OR k])"
  by (cases "v < length m") (auto simp: mask_le_def nth_list_update bit_or_iff)

lemma or_fold:
  "mask_le m (fold (\<lambda>v m. if P v then m[v := m ! v OR k] else m) vs m) \<and>
   (\<forall>w\<in>set vs. P w \<longrightarrow> w < length m \<longrightarrow> (\<forall>c. bit k c \<longrightarrow>
      bit (fold (\<lambda>v m. if P v then m[v := m ! v OR k] else m) vs m ! w) c))"
proof (induction vs arbitrary: m)
  case (Cons v vs)
  let ?m1 = "if P v then m[v := m ! v OR k] else m"
  let ?f = "fold (\<lambda>v m. if P v then m[v := m ! v OR k] else m) vs ?m1"
  have le1: "mask_le m ?m1" using mask_le_or by simp
  have le2: "mask_le ?m1 ?f" using Cons.IH by blast
  have "bit (?f ! w) c" if w: "w \<in> set (v # vs)" "P w" "w < length m" and c: "bit k c" for w c
  proof (cases "w \<in> set vs")
    case True
    with Cons.IH[of ?m1] w c mask_le_len[OF le1] show ?thesis by simp
  next
    case False
    with w have "bit (?m1 ! w) c" using c by (auto simp: bit_or_iff)
    with mask_le_bit[OF le2] mask_le_len[OF le1] w show ?thesis by simp
  qed
  with mask_le_trans[OF le1 le2] show ?case by simp
qed simp

lemma forbid_across_ok:
  assumes "bs_size nv live" "length m = nv"
  shows "mask_le m (forbid_across fn fc cls x live m)"
    "crosses x v \<Longrightarrow> in_cls fn fc cls v \<Longrightarrow> v \<in> bs_abs live \<Longrightarrow> bit (rc_caller_saved cls) c \<Longrightarrow>
      bit (forbid_across fn fc cls x live m ! v) c"
proof -
  have e: "set (bs_elems live) = bs_abs live" "bs_abs live \<subseteq> {..<nv}"
    using set_bs_elems[of live] assms(1) by (auto simp: bs_size_def bs_ok_def)
  note F = or_fold[where vs = "bs_elems live" and m = m and k = "rc_caller_saved cls" and
      P = "\<lambda>v. int v \<noteq> i_dst x \<and> int v \<noteq> i_b x \<and> int v \<noteq> i_c x \<and> int v \<noteq> i_d x \<and> in_cls fn fc cls v"]
  show "mask_le m (forbid_across fn fc cls x live m)"
    using F unfolding forbid_across_def by (simp split: if_splits)
  assume "crosses x v" "in_cls fn fc cls v" "v \<in> bs_abs live" "bit (rc_caller_saved cls) c"
  with F e assms(2) show "bit (forbid_across fn fc cls x live m ! v) c"
    unfolding forbid_across_def crosses_def by auto
qed

definition forbids_done :: "ir_function \<Rightarrow> bool \<Rightarrow> ra_reg_class \<Rightarrow> nat \<Rightarrow> nat \<Rightarrow> u32 list \<Rightarrow> bool" where
  "forbids_done fn fc cls b k m \<longleftrightarrow>
     (\<forall>i v c. k \<le> i \<and> i < blk_end (cfg_blocks (cfg_build (fn_insts fn)) ! b) \<and> crosses (fn_insts fn ! i) v \<and>
        fn_live fn b (Suc i) v \<and> in_cls fn fc cls v \<and> v < length m \<and> bit (rc_caller_saved cls) c \<longrightarrow> bit (m ! v) c)"

lemma forbids_done_mono: "forbids_done fn fc cls b k m \<Longrightarrow> mask_le m m' \<Longrightarrow> forbids_done fn fc cls b k m'"
  unfolding forbids_done_def mask_le_def by metis

lemma pass1_block_ok:
  assumes ok: "live_sets_ok fn ins outs" and b: "b < cfg_num (cfg_build (fn_insts fn))"
    and nv: "nv = nat (fn_next_value_id fn)" and m0: "length m0 = nv"
  shows "mask_le m0 (pass1_block nv fn (ra_build_defs fn) (cfg_build (fn_insts fn)) fc cls outs b m0)"
    "forbids_done fn fc cls b (blk_start (cfg_blocks (cfg_build (fn_insts fn)) ! b))
      (pass1_block nv fn (ra_build_defs fn) (cfg_build (fn_insts fn)) fc cls outs b m0)"
proof -
  let ?g = "cfg_build (fn_insts fn)" and ?def = "ra_build_defs fn"
  let ?s = "blk_start (cfg_blocks ?g ! b)" and ?e = "blk_end (cfg_blocks ?g ! b)"
  let ?P = "\<lambda>k (live, m). covers nv fn fc cls b k live \<and> mask_le m0 m \<and> forbids_done fn fc cls b k m"
  have "?P ?s (fold (pass1_inst nv fn ?def fc cls) (rev [?s..<?e]) (bs_copy (bs_init nv) (outs ! b), m0))"
  proof (rule fold_rev_upt_inv[where P = ?P])
    show "?s \<le> ?e" using b by (rule cfg_build_range)
    show "?P ?e (bs_copy (bs_init nv) (outs ! b), m0)"
      using covers_out[OF ok b, of fc cls] nv by (auto simp: forbids_done_def)
  next
    fix i st assume i: "i < ?e" and P: "?P (Suc i) st"
    obtain live m where st: "st = (live, m)" by (cases st)
    from P st have c: "covers nv fn fc cls b (Suc i) live" and m: "mask_le m0 m"
      and d: "forbids_done fn fc cls b (Suc i) m" by auto
    note bck = covers_back[OF c i nv]
    show "?P i (pass1_inst nv fn ?def fc cls i st)"
    proof (cases "ra_skips (fn_insts fn ! i)")
      case True
      then have "\<not> crosses (fn_insts fn ! i) v" for v by (auto simp: crosses_def ra_skips_def)
      with d have "forbids_done fn fc cls b i m" unfolding forbids_done_def by (metis Suc_leI le_neq_implies_less)
      with True bck m st show ?thesis by (simp add: pass1_inst_def)
    next
      case False
      have lv: "bs_size nv live" "\<And>v. fn_live fn b (Suc i) v \<Longrightarrow> in_cls fn fc cls v \<Longrightarrow> v \<in> bs_abs live"
        using c by (auto simp: covers_def)
      let ?m = "forbid_across fn fc cls (fn_insts fn ! i) live m"
      note F = forbid_across_ok[OF lv(1), where m = m and fn = fn and fc = fc and cls = cls and x = "fn_insts fn ! i"]
      have le: "mask_le m ?m" using F(1) mask_le_len[OF m] m0 by simp
      have "forbids_done fn fc cls b i ?m"
        unfolding forbids_done_def
      proof (intro allI impI, elim conjE)
        fix j v c assume j: "i \<le> j" "j < ?e" and a: "crosses (fn_insts fn ! j) v" "fn_live fn b (Suc j) v"
          "in_cls fn fc cls v" "v < length ?m" "bit (rc_caller_saved cls) c"
        show "bit (?m ! v) c"
        proof (cases "j = i")
          case True
          with a F(2)[where v = v and c = c] lv(2) mask_le_len[OF m] m0 show ?thesis by simp
        next
          case False
          with j a forbids_done_mono[OF d le] show ?thesis unfolding forbids_done_def by (metis Suc_leI le_neq_implies_less)
        qed
      qed
      with bck False mask_le_trans[OF m le] st show ?thesis by (simp add: pass1_inst_def Let_def)
    qed
  qed
  then show "mask_le m0 (pass1_block nv fn ?def ?g fc cls outs b m0)"
    "forbids_done fn fc cls b ?s (pass1_block nv fn ?def ?g fc cls outs b m0)"
    unfolding pass1_block_def by (auto split: prod.splits simp: snd_def)
qed

lemma pass1_ok:
  assumes ok: "live_sets_ok fn ins outs" and nv: "nv = nat (fn_next_value_id fn)" and m0: "length m0 = nv"
    and m: "m = fold (pass1_block nv fn (ra_build_defs fn) (cfg_build (fn_insts fn)) fc cls outs)
      [0..<cfg_num (cfg_build (fn_insts fn))] m0"
  shows "mask_le m0 m"
    "b < cfg_num (cfg_build (fn_insts fn)) \<Longrightarrow> forbids_done fn fc cls b (blk_start (cfg_blocks (cfg_build (fn_insts fn)) ! b)) m"
proof -
  let ?g = "cfg_build (fn_insts fn)"
  let ?P = "\<lambda>n m. mask_le m0 m \<and> (\<forall>b<n. forbids_done fn fc cls b (blk_start (cfg_blocks ?g ! b)) m)"
  have "?P (cfg_num ?g) m"
    unfolding m
  proof (rule fold_upt_inv[where P = ?P])
    fix i s assume i: "i < cfg_num ?g" and P: "?P i s"
    then have "length s = nv" using m0 mask_le_len by metis
    from pass1_block_ok[OF ok i nv this, of fc cls] P
    show "?P (Suc i) (pass1_block nv fn (ra_build_defs fn) ?g fc cls outs i s)"
      by (metis forbids_done_mono less_Suc_eq mask_le_trans)
  qed simp_all
  then show "mask_le m0 m"
    "b < cfg_num ?g \<Longrightarrow> forbids_done fn fc cls b (blk_start (cfg_blocks ?g ! b)) m" by blast+
qed

subsection \<open>The propagation ends\<close>

definition mask_bits :: "u32 \<Rightarrow> nat set" where
  "mask_bits w = {c. c < 32 \<and> bit w c}"

definition mask_free :: "u32 list \<Rightarrow> nat" where
  "mask_free m = (\<Sum>v<length m. 32 - card (mask_bits (m ! v)))"

lemma mask_bits_fin: "finite (mask_bits w)" "card (mask_bits w) \<le> 32"
proof -
  have "mask_bits w \<subseteq> {..<32}" by (auto simp: mask_bits_def)
  then show "finite (mask_bits w)" "card (mask_bits w) \<le> 32"
    using finite_subset card_mono[of "{..<32}" "mask_bits w"] by auto
qed

lemma mask_bits_eq: "mask_bits w = mask_bits w' \<Longrightarrow> w = w'"
proof (rule bit_word_eqI)
  fix n assume "mask_bits w = mask_bits w'" "n < LENGTH(32)"
  then show "bit w n = bit w' n" unfolding mask_bits_def set_eq_iff mem_Collect_eq by auto
qed

lemma mask_free_less:
  assumes "mask_le m m'" "m \<noteq> m'"
  shows "mask_free m' < mask_free m"
proof -
  have len: "length m' = length m" using assms(1) by (rule mask_le_len)
  have sub: "mask_bits (m ! v) \<subseteq> mask_bits (m' ! v)" if "v < length m" for v
    using assms(1) that by (auto simp: mask_le_def mask_bits_def)
  have le: "card (mask_bits (m ! v)) \<le> card (mask_bits (m' ! v))" if "v < length m" for v
    using sub[OF that] mask_bits_fin(1) by (rule card_mono[rotated])
  obtain v where v: "v < length m" "m ! v \<noteq> m' ! v" using assms(2) len nth_equalityI by metis
  then have "mask_bits (m ! v) \<subset> mask_bits (m' ! v)" using sub mask_bits_eq by blast
  then have "card (mask_bits (m ! v)) < card (mask_bits (m' ! v))" by (rule psubset_card_mono[OF mask_bits_fin(1)])
  with mask_bits_fin(2)[of "m' ! v"] have "32 - card (mask_bits (m' ! v)) < 32 - card (mask_bits (m ! v))" by linarith
  then show ?thesis
    unfolding mask_free_def len using le v(1) by (intro sum_strict_mono_ex1) (auto intro: diff_le_mono2)
qed

definition prop_ok :: "u32 list \<times> bool \<Rightarrow> u32 list \<times> bool \<Rightarrow> bool" where
  "prop_ok s s' \<longleftrightarrow> mask_le (fst s) (fst s') \<and> (snd s \<longrightarrow> snd s') \<and> (snd s' \<longrightarrow> snd s \<or> fst s \<noteq> fst s') \<and>
     (\<not> snd s' \<longrightarrow> fst s' = fst s)"

lemma mask_le_antisym: "mask_le m m' \<Longrightarrow> mask_le m' m \<Longrightarrow> m = m'"
proof (rule nth_equalityI)
  fix i assume "mask_le m m'" "mask_le m' m" "i < length m"
  then show "m ! i = m' ! i" by (intro bit_word_eqI) (auto simp: mask_le_def)
qed (simp add: mask_le_def)

lemma prop_ok_trans: "prop_ok s s' \<Longrightarrow> prop_ok s' s'' \<Longrightarrow> prop_ok s s''"
  unfolding prop_ok_def
proof (elim conjE, intro conjI impI)
  assume le: "mask_le (fst s) (fst s')" "mask_le (fst s') (fst s'')"
  then show "mask_le (fst s) (fst s'')" by (rule mask_le_trans)
  assume a: "snd s' \<longrightarrow> snd s \<or> fst s \<noteq> fst s'" "snd s'' \<longrightarrow> snd s' \<or> fst s' \<noteq> fst s''" "snd s''"
    "\<not> snd s' \<longrightarrow> fst s' = fst s"
  show "snd s \<or> fst s \<noteq> fst s''"
  proof (cases "fst s = fst s''")
    case True
    with le have "fst s = fst s'" using mask_le_antisym by simp
    with a True show ?thesis by simp
  qed simp
qed simp_all

lemma prop_ok_refl: "prop_ok s s" by (simp add: prop_ok_def)

lemma or_mask_ok: "mask_le m (m[v := x]) \<Longrightarrow> v < length m \<Longrightarrow> prop_ok (m, c) (or_mask v x (m, c))"
proof (cases "m ! v = x")
  case False
  assume "mask_le m (m[v := x])" "v < length m"
  moreover then have "m \<noteq> m[v := x]" using False by (metis nth_list_update_eq)
  ultimately show ?thesis using False by (simp add: prop_ok_def or_mask_def)
qed (simp add: prop_ok_def or_mask_def)

lemma propagate_inst_ok:
  assumes "length m = nv"
  shows "prop_ok (m, c) (propagate_inst nv fn fc cls x (m, c))"
proof -
  let ?d = "nat (i_dst x)" and ?a = "nat (i_a x)"
  let ?m = "m ! ?d OR m ! ?a"
  show ?thesis
  proof (cases "i_dst x < 0 \<or> int nv \<le> i_dst x \<or> i_a x < 0 \<or> int nv \<le> i_a x \<or>
      \<not> in_cls fn fc cls ?d \<or> \<not> in_cls fn fc cls ?a")
    case True
    then show ?thesis by (auto simp: propagate_inst_def Let_def prop_ok_refl)
  next
    case False
    then have d: "?d < length m" and a: "?a < length m" using assms by auto
    have 1: "prop_ok (m, c) (or_mask ?d ?m (m, c))" using mask_le_or d by (rule or_mask_ok)
    obtain m1 c1 where eq: "or_mask ?d ?m (m, c) = (m1, c1)" by (cases "or_mask ?d ?m (m, c)")
    have m1: "mask_le m m1" using 1 eq by (simp add: prop_ok_def)
    have "m1 ! ?a = m ! ?a \<or> m1 ! ?a = ?m" using eq d a by (auto simp: or_mask_def nth_list_update split: if_splits)
    then have "?m = m1 ! ?a OR ?m" by (auto simp: bit_eq_iff bit_or_iff)
    then have "mask_le m1 (m1[?a := ?m])" using mask_le_or[of m1 ?a ?m] by simp
    then have 2: "prop_ok (m1, c1) (or_mask ?a ?m (m1, c1))" using a mask_le_len[OF m1] by (intro or_mask_ok) simp_all
    have 3: "prop_ok (m, c) (or_mask ?a ?m (or_mask ?d ?m (m, c)))" using prop_ok_trans[OF 1[unfolded eq] 2] eq by simp
    have "propagate_inst nv fn fc cls x (m, c) =
        (if i_op x = IR_COPY then or_mask ?a ?m (or_mask ?d ?m (m, c))
         else if i_op x = IR_ADD \<or> i_op x = IR_SUB then or_mask ?d ?m (m, c) else (m, c))"
      using False by (simp add: propagate_inst_def Let_def)
    with 1 3 prop_ok_refl show ?thesis by simp
  qed
qed

lemma propagate_pass_ok: "length m = nv \<Longrightarrow> prop_ok (m, c) (fold (propagate_inst nv fn fc cls) xs (m, c))"
proof (induction xs arbitrary: m c)
  case (Cons x xs)
  obtain m1 c1 where eq: "propagate_inst nv fn fc cls x (m, c) = (m1, c1)" by fastforce
  have 1: "prop_ok (m, c) (m1, c1)" using propagate_inst_ok[OF Cons.prems] eq by metis
  then have "length m1 = nv" using Cons.prems mask_le_len by (fastforce simp: prop_ok_def)
  from prop_ok_trans[OF 1 Cons.IH[OF this]] eq show ?case by simp
qed (simp add: prop_ok_refl)

lemma propagate_loop_ok:
  "length m = nv \<Longrightarrow> \<exists>m'. propagate_loop nv fn fc cls m = Some m' \<and> mask_le m m'"
proof (induction "mask_free m" arbitrary: m rule: less_induct)
  case less
  obtain m1 c1 where eq: "fold (propagate_inst nv fn fc cls) (fn_insts fn) (m, False) = (m1, c1)" by fastforce
  have P: "prop_ok (m, False) (m1, c1)" using propagate_pass_ok[OF less.prems] eq by metis
  then have le: "mask_le m m1" by (simp add: prop_ok_def)
  show ?case
  proof (cases c1)
    case True
    with P have "m \<noteq> m1" by (simp add: prop_ok_def)
    from less.hyps[OF mask_free_less[OF le this]] mask_le_len[OF le] less.prems
    obtain m' where "propagate_loop nv fn fc cls m1 = Some m'" "mask_le m1 m'" by auto
    with mask_le_trans[OF le] show ?thesis
      using eq True by (simp add: propagate_loop.simps[of nv fn fc cls m])
  next
    case False
    with le show ?thesis using eq by (simp add: propagate_loop.simps[of nv fn fc cls m])
  qed
qed

text \<open>
  What the propagation ends with: the two sides of a copy have the same mask, and the result of an
  addition or subtraction has all colours of its first operand's.
\<close>

definition mask_closed :: "nat \<Rightarrow> ir_function \<Rightarrow> bool \<Rightarrow> ra_reg_class \<Rightarrow> u32 list \<Rightarrow> ir_inst \<Rightarrow> bool" where
  "mask_closed nv fn fc cls m x \<longleftrightarrow>
     (0 \<le> i_dst x \<and> i_dst x < int nv \<and> 0 \<le> i_a x \<and> i_a x < int nv \<and>
      in_cls fn fc cls (nat (i_dst x)) \<and> in_cls fn fc cls (nat (i_a x)) \<longrightarrow>
        (i_op x = IR_COPY \<longrightarrow> m ! nat (i_dst x) = m ! nat (i_a x)) \<and>
        (i_op x = IR_ADD \<or> i_op x = IR_SUB \<longrightarrow> m ! nat (i_dst x) OR m ! nat (i_a x) = m ! nat (i_dst x)))"

lemma propagate_inst_closed:
  assumes "length m = nv" "\<not> snd (propagate_inst nv fn fc cls x (m, False))"
  shows "mask_closed nv fn fc cls m x"
proof -
  have o: "snd (or_mask v y (n, False)) \<longleftrightarrow> n ! v \<noteq> y" "n ! v = y \<Longrightarrow> or_mask v y (n, False) = (n, False)"
    "snd (or_mask v y (n, True))" for v y n by (simp_all add: or_mask_def)
  show ?thesis
    using assms(2) o unfolding mask_closed_def propagate_inst_def Let_def
    by (cases "m ! nat (i_dst x) = m ! nat (i_dst x) OR m ! nat (i_a x)") (auto simp: or_mask_def split: if_splits)
qed

lemma propagate_pass_closed:
  "length m = nv \<Longrightarrow> \<not> snd (fold (propagate_inst nv fn fc cls) xs (m, False)) \<Longrightarrow>
    \<forall>x\<in>set xs. mask_closed nv fn fc cls m x"
proof (induction xs)
  case (Cons x xs)
  obtain m1 c1 where eq: "propagate_inst nv fn fc cls x (m, False) = (m1, c1)" by fastforce
  have 1: "prop_ok (m, False) (m1, c1)" using propagate_inst_ok[OF Cons.prems(1)] eq by metis
  then have "length m1 = nv" using Cons.prems mask_le_len by (fastforce simp: prop_ok_def)
  from propagate_pass_ok[OF this, of c1 fn fc cls xs] Cons.prems(2) eq have "\<not> c1"
    by (auto simp: prop_ok_def)
  with 1 have "m1 = m" "c1 = False" by (simp_all add: prop_ok_def)
  with Cons eq propagate_inst_closed[OF Cons.prems(1), of fn fc cls x] show ?case by simp
qed simp

lemma propagate_loop_closed:
  "length m = nv \<Longrightarrow> propagate_loop nv fn fc cls m = Some m' \<Longrightarrow> \<forall>x\<in>set (fn_insts fn). mask_closed nv fn fc cls m' x"
proof (induction "mask_free m" arbitrary: m rule: less_induct)
  case less
  obtain m1 c1 where eq: "fold (propagate_inst nv fn fc cls) (fn_insts fn) (m, False) = (m1, c1)" by fastforce
  have P: "prop_ok (m, False) (m1, c1)" using propagate_pass_ok[OF less.prems(1)] eq by metis
  then have le: "mask_le m m1" by (simp add: prop_ok_def)
  show ?case
  proof (cases c1)
    case True
    with P have "m \<noteq> m1" by (simp add: prop_ok_def)
    from less.hyps[OF mask_free_less[OF le this]] mask_le_len[OF le] less.prems show ?thesis
      using eq True by (simp add: propagate_loop.simps[of nv fn fc cls m])
  next
    case False
    with P eq less.prems have "m' = m" by (simp add: propagate_loop.simps[of nv fn fc cls m] prop_ok_def)
    with propagate_pass_closed[OF less.prems(1), of fn fc cls "fn_insts fn"] eq False show ?thesis by simp
  qed
qed

section \<open>The graph that is built\<close>

definition fn_nv :: "ir_function \<Rightarrow> nat" where
  "fn_nv fn = nat (fn_next_value_id fn)"

lemma gp_params_less: "v \<in> set (gp_params nv fn cls room xs) \<Longrightarrow> v < nv"
proof (induction nv fn cls room xs rule: gp_params.induct)
  case (2 nv fn cls room x xs)
  have "nat (i_dst x) < nv" if "cls_range nv fn False cls [i_dst x] \<noteq> []"
  proof -
    from that obtain w where "w \<in> set (cls_range nv fn False cls [i_dst x])" by (metis list.set_intros(1) neq_Nil_conv)
    then show ?thesis by (auto simp: cls_range_set)
  qed
  with 2 show ?case by (auto split: if_splits)
qed simp

lemma add_edge_mono: "ig_ok n g \<Longrightarrow> u < n \<Longrightarrow> v < n \<Longrightarrow> ig_ok n (ig_add_edge u v g) \<and> ig_edges g \<subseteq> ig_edges (ig_add_edge u v g)"
  using ig.add by blast

lemma add_pairs_ok:
  "ig_ok n g \<Longrightarrow> (\<And>v. v \<in> set us \<Longrightarrow> v < n) \<Longrightarrow>
    ig_ok n (add_pairs us g) \<and> ig_edges g \<subseteq> ig_edges (add_pairs us g)"
proof (induction us arbitrary: g)
  case (Cons u us)
  have "ig_ok n (fold (ig_add_edge u) us g) \<and> ig_edges g \<subseteq> ig_edges (fold (ig_add_edge u) us g)"
  proof (rule fold_inv[where P = "\<lambda>h. ig_ok n h \<and> ig_edges g \<subseteq> ig_edges h"])
    fix x s assume "x \<in> set us" "ig_ok n s \<and> ig_edges g \<subseteq> ig_edges s"
    with add_edge_mono[of n s u x] Cons.prems(2) show "ig_ok n (ig_add_edge u x s) \<and> ig_edges g \<subseteq> ig_edges (ig_add_edge u x s)"
      by (meson list.set_intros order_trans)
  qed (use Cons.prems in simp)
  with Cons.IH[of "fold (ig_add_edge u) us g"] Cons.prems show ?case by fastforce
qed simp

lemma forbid_addr_le: "length m = nv \<Longrightarrow> mask_le m (forbid_addr nv fn fc cls m)"
proof -
  have "mask_le m (fold (\<lambda>x m. if i_op x = IR_ALLOCA \<or> i_op x = IR_ADDR
      then fold (\<lambda>v m. m[v := m ! v OR k]) (cls_range nv fn fc cls [i_dst x]) m else m) xs m)" for k xs
  proof (rule fold_inv[where P = "mask_le m"])
    fix x s assume "mask_le m s"
    moreover have "mask_le s (fold (\<lambda>v m. m[v := m ! v OR k]) vs s)" for vs
      using or_fold[where P = "\<lambda>_. True" and m = s and vs = vs and k = k] by simp
    ultimately show "mask_le m (if i_op x = IR_ALLOCA \<or> i_op x = IR_ADDR
      then fold (\<lambda>v m. m[v := m ! v OR k]) (cls_range nv fn fc cls [i_dst x]) s else s)"
      using mask_le_trans by simp
  qed simp
  from this[of "all_colors cls AND NOT (rc_caller_saved cls)" "fn_insts fn"] show ?thesis
    by (simp add: forbid_addr_def Let_def)
qed

text \<open>What the colouring may rely on.\<close>

definition interf_ok :: "ir_function \<Rightarrow> bool \<Rightarrow> ra_reg_class \<Rightarrow> interf_graph \<Rightarrow> u32 list \<Rightarrow> bool" where
  "interf_ok fn fc cls ig masks \<longleftrightarrow> ig_ok (fn_nv fn) ig \<and> length masks = fn_nv fn \<and>
     (\<forall>b<cfg_num (cfg_build (fn_insts fn)).
        edges_done fn fc cls b (blk_start (cfg_blocks (cfg_build (fn_insts fn)) ! b)) ig \<and>
        forbids_done fn fc cls b (blk_start (cfg_blocks (cfg_build (fn_insts fn)) ! b)) masks)"

lemma interf_okI:
  assumes ok: "live_sets_ok fn ins outs"
    and m1: "m1 = fold (pass1_block (fn_nv fn) fn (ra_build_defs fn) (cfg_build (fn_insts fn)) fc cls outs)
      [0..<cfg_num (cfg_build (fn_insts fn))] (forbid_addr (fn_nv fn) fn fc cls (replicate (fn_nv fn) 0))"
    and m: "mask_le m1 masks"
    and ig1: "ig1 = fold (pass2_block (fn_nv fn) fn (ra_build_defs fn) (cfg_build (fn_insts fn)) fc cls outs)
      [0..<cfg_num (cfg_build (fn_insts fn))] (ig_init (fn_nv fn))"
    and ig: "ig_ok (fn_nv fn) ig" "ig_edges ig1 \<subseteq> ig_edges ig"
  shows "interf_ok fn fc cls ig masks"
proof -
  let ?m0 = "forbid_addr (fn_nv fn) fn fc cls (replicate (fn_nv fn) 0)"
  have l0: "length ?m0 = fn_nv fn" using mask_le_len[OF forbid_addr_le, of "replicate (fn_nv fn) 0"] by simp
  note M = pass1_ok[OF ok fn_nv_def l0 m1]
  note E = pass2_ok[OF ok fn_nv_def ig1]
  have "length masks = fn_nv fn" using mask_le_len[OF M(1)] mask_le_len[OF m] l0 by simp
  moreover have "edges_done fn fc cls b (blk_start (cfg_blocks (cfg_build (fn_insts fn)) ! b)) ig"
    if "b < cfg_num (cfg_build (fn_insts fn))" for b
    using edges_done_mono[OF E(2)[OF that] ig(2)] .
  moreover have "forbids_done fn fc cls b (blk_start (cfg_blocks (cfg_build (fn_insts fn)) ! b)) masks"
    if "b < cfg_num (cfg_build (fn_insts fn))" for b
    using forbids_done_mono[OF M(2)[OF that] m] .
  ultimately show ?thesis unfolding interf_ok_def using ig(1) by blast
qed

lemma build_interf_ok:
  "\<exists>ig masks. build_interf_graph_cfg t fn (cfg_build (fn_insts fn)) (fn_nv fn) fc cls = Some (ig, masks) \<and>
     interf_ok fn fc cls ig masks"
proof -
  let ?g = "cfg_build (fn_insts fn)" and ?nv = "fn_nv fn" and ?def = "ra_build_defs fn"
  obtain ins outs where L: "fn_live_sets fn = Some (ins, outs)" and ok: "live_sets_ok fn ins outs"
    using fn_live_sets_ok[of fn] by blast
  define m1 where "m1 = fold (pass1_block ?nv fn ?def ?g fc cls outs) [0..<cfg_num ?g]
    (forbid_addr ?nv fn fc cls (replicate ?nv 0))"
  define ig1 where "ig1 = fold (pass2_block ?nv fn ?def ?g fc cls outs) [0..<cfg_num ?g] (ig_init ?nv)"
  have l0: "length (forbid_addr ?nv fn fc cls (replicate ?nv 0)) = ?nv"
    using mask_le_len[OF forbid_addr_le, of "replicate ?nv 0"] by simp
  have "length m1 = ?nv" using mask_le_len[OF pass1_ok(1)[OF ok fn_nv_def l0 m1_def]] l0 by simp
  from propagate_loop_ok[OF this, of fn fc cls] obtain masks where
    p: "(if tg_reserve_va_scratch t then propagate_loop ?nv fn fc cls m1 else Some m1) = Some masks" "mask_le m1 masks"
    by (cases "tg_reserve_va_scratch t") auto
  define ig where "ig = (if \<not> fc \<and> tg_arch t = TARGET_ARCH_ARM64
    then add_pairs (gp_params ?nv fn cls 8 (take ?nv (fn_insts fn))) ig1 else ig1)"
  have "ig_ok ?nv ig1" using pass2_ok(1)[OF ok fn_nv_def ig1_def] .
  then have "ig_ok ?nv ig \<and> ig_edges ig1 \<subseteq> ig_edges ig"
    unfolding ig_def using add_pairs_ok[of ?nv ig1] gp_params_less by auto
  then have "interf_ok fn fc cls ig masks"
    using interf_okI[OF ok m1_def p(2) ig1_def] by blast
  moreover have "build_interf_graph_cfg t fn ?g ?nv fc cls = Some (ig, masks)"
    unfolding build_interf_graph_cfg_def Let_def
    by (simp only: L[unfolded fn_live_sets_def, folded fn_nv_def] option.case prod.case m1_def[symmetric] p(1)
        ig1_def[symmetric] ig_def)
  ultimately show ?thesis by blast
qed

lemma build_interf_closed:
  assumes "build_interf_graph_cfg t fn (cfg_build (fn_insts fn)) (fn_nv fn) fc cls = Some (ig, masks)"
    and "tg_reserve_va_scratch t"
  shows "\<forall>x\<in>set (fn_insts fn). mask_closed (fn_nv fn) fn fc cls masks x"
proof -
  let ?g = "cfg_build (fn_insts fn)" and ?nv = "fn_nv fn" and ?def = "ra_build_defs fn"
  obtain ins outs where L: "fn_live_sets fn = Some (ins, outs)" and ok: "live_sets_ok fn ins outs"
    using fn_live_sets_ok[of fn] by blast
  define m1 where "m1 = fold (pass1_block ?nv fn ?def ?g fc cls outs) [0..<cfg_num ?g]
    (forbid_addr ?nv fn fc cls (replicate ?nv 0))"
  have l0: "length (forbid_addr ?nv fn fc cls (replicate ?nv 0)) = ?nv"
    using mask_le_len[OF forbid_addr_le, of "replicate ?nv 0"] by simp
  have l1: "length m1 = ?nv" using mask_le_len[OF pass1_ok(1)[OF ok fn_nv_def l0 m1_def]] l0 by simp
  have "propagate_loop ?nv fn fc cls m1 = Some masks"
    using assms unfolding build_interf_graph_cfg_def Let_def
    by (simp add: L[unfolded fn_live_sets_def, folded fn_nv_def] m1_def[symmetric] split: option.splits)
  with l1 show ?thesis by (rule propagate_loop_closed)
qed

section \<open>The properties\<close>

text \<open>
  C13.  Building the interference graph always ends, and the graph is symmetric and irreflexive.  For
  well-formed code it has an edge between any two values of the class that conflict: one is a result of
  an instruction where the other is a result too or is live after it (a call's first result and a
  further result, one of them dead, are the one exception), or both are live at a point that a path
  from the entry reaches, without both being live at the entry already.  Liveness is that of the table
  of operands; a value that is the callee of an indirect call is excluded, because the allocator does
  not count it as used there.
\<close>

theorem interf_graph_sound:
  "\<exists>ig masks. build_interf_graph_cfg t fn (cfg_build (fn_insts fn)) (nat (fn_next_value_id fn)) fc cls = Some (ig, masks) \<and>
     (\<forall>u v. u < length ig \<and> v \<in> set (ig ! u) \<longrightarrow> u \<noteq> v \<and> v < length ig \<and> u \<in> set (ig ! v)) \<and>
     (ir_code_wf fn \<longrightarrow> (\<forall>u v. plain_value fn u \<and> plain_value fn v \<and> in_cls fn fc cls u \<and> in_cls fn fc cls v \<and>
        ir_conflict fn (int u) (int v) \<longrightarrow> v \<in> set (ig ! u)))"
proof -
  obtain ig masks where I: "build_interf_graph_cfg t fn (cfg_build (fn_insts fn)) (fn_nv fn) fc cls = Some (ig, masks)"
    "interf_ok fn fc cls ig masks" using build_interf_ok by blast
  then have ok: "ig_ok (fn_nv fn) ig" and e: "\<forall>b<cfg_num (cfg_build (fn_insts fn)).
      edges_done fn fc cls b (blk_start (cfg_blocks (cfg_build (fn_insts fn)) ! b)) ig" unfolding interf_ok_def by blast+
  note D = ig_okD[OF ok]
  have s: "u \<noteq> v \<and> v < length ig \<and> u \<in> set (ig ! v)" if "u < length ig" "v \<in> set (ig ! u)" for u v
    using D(1) D(3)[of u v] that by simp
  have edge: "v \<in> set (ig ! u) \<and> u < length ig" if "in_block fn b k" "fn_clash fn b k u v"
    "in_cls fn fc cls u" "in_cls fn fc cls v" for b k u v
    using e that D(1) unfolding edges_done_def ig_edges_def in_block_def by blast
  have "v \<in> set (ig ! u)" if "ir_code_wf fn" "plain_value fn u" "plain_value fn v"
    "in_cls fn fc cls u" "in_cls fn fc cls v" "ir_conflict fn (int u) (int v)" for u v
    using conflict_clash[OF that(1-3,6)] edge that(4,5) s by blast
  then show ?thesis
    using I(1) s unfolding fn_nv_def by (intro exI[of _ ig] exI[of _ masks]) blast
qed

text \<open>An example for x86-64 Linux: value 0 is live across the call that defines value 1.\<close>

definition linux_target :: ra_target where
  "linux_target = \<lparr>tg_arch = TARGET_ARCH_X86_64, tg_os = TOS_LINUX, tg_avx512f = False, tg_reserve_va_scratch = False\<rparr>"

abbreviation linux_gp :: ra_reg_class where
  "linux_gp \<equiv> rc_gp (ra_classes_current linux_target)"

definition call_fn :: ir_function where
  "call_fn = \<lparr>fn_name = ''g'', fn_insts =
     [mk_inst IR_PARAM 0 (-1) (-1) 4 0, (mk_inst IR_CALL 1 (-1) (-1) 4 0)\<lparr>i_call_args := [0]\<rparr>,
      mk_inst IR_ADD 2 0 1 4 0, mk_inst IR_RETURN (-1) 2 (-1) 4 0],
     fn_next_value_id = 3, fn_next_label_id = 0, fn_ra = None, fn_ra_xmm = None,
     fn_value_width = [4, 4, 4], fn_value_is_unsigned = [0, 0, 0], fn_value_is_float = [0, 0, 0], fn_dbg_vars = []\<rparr>"

lemma call_fn_graph:
  "build_interf_graph_cfg linux_target call_fn (cfg_build (fn_insts call_fn)) 3 False linux_gp = Some ([[1], [0], []], [63, 0, 0])"
  by code_simp

lemma call_fn_facts:
  "nat (fn_next_value_id call_fn) = 3" "cfg_num (cfg_build (fn_insts call_fn)) = 1"
  "blk_start (cfg_blocks (cfg_build (fn_insts call_fn)) ! 0) = 0" "blk_end (cfg_blocks (cfg_build (fn_insts call_fn)) ! 0) = 4"
  "inst_uses 3 call_fn (ra_build_defs call_fn) (fn_insts call_fn ! 2) = [0, 1]"
  "inst_defs 3 (fn_insts call_fn ! 1) = [1]" "i_dst (fn_insts call_fn ! 1) = 1"
  "in_cls call_fn False linux_gp 0" "in_cls call_fn False linux_gp 1" "crosses (fn_insts call_fn ! 1) 0"
  "rc_caller_saved linux_gp = 63"
  by code_simp+

lemma call_fn_tables:
  "ir_code_wf call_fn" "plain_value call_fn 0" "plain_value call_fn 1" "results_at call_fn 0 = [0]"
  "results_at call_fn 1 = [1, -1, -1, -1]" "results_at call_fn 2 = [2]" "results_at call_fn 3 = []"
  "reads_at call_fn 0 = []" "reads_at call_fn 1 = [-1, 0, -1]" "reads_at call_fn 2 = [0, 1]"
  "reads_at call_fn 3 = [2, -1, -1, -1]" "i_op (fn_insts call_fn ! 1) = IR_CALL"
  by code_simp+

lemma call_fn_live: "fn_live call_fn 0 (Suc 1) 0" "ir_live call_fn 0 (Suc 1) 0"
proof -
  have "fn_live call_fn 0 2 0"
    unfolding fn_live_def call_fn_facts by (rule live_use) (simp_all add: call_fn_facts)
  then show "fn_live call_fn 0 (Suc 1) 0" by (simp only: one_add_one[symmetric] plus_1_eq_Suc)
  have "ir_live call_fn 0 2 0" by (rule live_read) (simp_all add: call_fn_facts call_fn_tables)
  then show "ir_live call_fn 0 (Suc 1) 0" by (simp only: one_add_one[symmetric] plus_1_eq_Suc)
qed

lemma call_fn_conflict: "ir_conflict call_fn (int 1) (int 0)"
proof -
  have "in_block call_fn 0 1" unfolding in_block_def call_fn_facts by simp
  moreover have "ir_clash call_fn 0 1 1 0"
    using call_fn_live(2) unfolding ir_clash_def call_fn_facts call_fn_tables by simp
  ultimately show ?thesis unfolding ir_conflict_def by auto
qed

theorem interf_graph_witness: "ir_conflict call_fn (int 1) (int 0) \<and> (0 :: nat) \<in> set ([[1], [0], []] ! 1)"
proof -
  obtain ig masks where ig: "Some ([[1], [0], []], [63, 0, 0]) = Some (ig, masks :: u32 list)" and
    e: "ir_code_wf call_fn \<longrightarrow> (\<forall>u v. plain_value call_fn u \<and> plain_value call_fn v \<and> in_cls call_fn False linux_gp u \<and>
        in_cls call_fn False linux_gp v \<and> ir_conflict call_fn (int u) (int v) \<longrightarrow> v \<in> set (ig ! u))"
    using interf_graph_sound[of linux_target call_fn False linux_gp, unfolded call_fn_facts(1) call_fn_graph]
    by (elim exE conjE) (rule that)
  have "ig = [[1], [0], []]" using ig by simp
  moreover have "0 \<in> set (ig ! 1)"
    using e call_fn_tables(1-3) call_fn_facts(8,9) call_fn_conflict by blast
  ultimately show ?thesis using call_fn_conflict by blast
qed

text \<open>
  C14.  The forbidden-colour masks that the builder returns keep values out of caller-saved registers:
  in well-formed code, a value of the class (not the callee of an indirect call) that is live after a
  call or inline assembly and is not one of its results has every caller-saved colour in its mask.
  When a scratch register is reserved, the masks are moreover closed under copies: both sides of a copy
  within the class have the same mask, and the result of an addition or subtraction has all colours of
  its first operand.
\<close>

theorem forbid_mask_sound:
  assumes "build_interf_graph_cfg t fn (cfg_build (fn_insts fn)) (nat (fn_next_value_id fn)) fc cls = Some (ig, masks)"
  shows "(ir_code_wf fn \<longrightarrow> (\<forall>b k v. in_block fn b k \<and> ir_crosses fn b k (int v) \<and> plain_value fn v \<and>
      in_cls fn fc cls v \<longrightarrow> masks ! v AND rc_caller_saved cls = rc_caller_saved cls)) \<and>
    (tg_reserve_va_scratch t \<longrightarrow> (\<forall>x\<in>set (fn_insts fn). \<forall>d a. i_dst x = int d \<and> i_a x = int a \<and>
      d < nat (fn_next_value_id fn) \<and> a < nat (fn_next_value_id fn) \<and> in_cls fn fc cls d \<and> in_cls fn fc cls a \<longrightarrow>
        (i_op x = IR_COPY \<longrightarrow> masks ! d = masks ! a) \<and>
        (i_op x = IR_ADD \<or> i_op x = IR_SUB \<longrightarrow> masks ! d OR masks ! a = masks ! d)))"
proof (intro conjI impI allI)
  fix b k v
  assume wf: "ir_code_wf fn" and v: "in_block fn b k \<and> ir_crosses fn b k (int v) \<and> plain_value fn v \<and> in_cls fn fc cls v"
  then have c: "crosses (fn_insts fn ! k) v" "fn_live fn b (Suc k) v" using crosses_table by blast+
  have "interf_ok fn fc cls ig masks" using build_interf_ok[of t fn fc cls] assms(1) by (auto simp: fn_nv_def)
  then have "forbids_done fn fc cls b (blk_start (cfg_blocks (cfg_build (fn_insts fn)) ! b)) masks" "length masks = fn_nv fn"
    using v unfolding interf_ok_def in_block_def by blast+
  with c v have "bit (rc_caller_saved cls) i \<Longrightarrow> bit (masks ! v) i" for i
    unfolding forbids_done_def fn_nv_def in_block_def plain_value_def by metis
  then show "masks ! v AND rc_caller_saved cls = rc_caller_saved cls" by (auto simp: bit_eq_iff bit_and_iff)
next
  assume t: "tg_reserve_va_scratch t"
  show "\<forall>x\<in>set (fn_insts fn). \<forall>d a. i_dst x = int d \<and> i_a x = int a \<and>
      d < nat (fn_next_value_id fn) \<and> a < nat (fn_next_value_id fn) \<and> in_cls fn fc cls d \<and> in_cls fn fc cls a \<longrightarrow>
        (i_op x = IR_COPY \<longrightarrow> masks ! d = masks ! a) \<and>
        (i_op x = IR_ADD \<or> i_op x = IR_SUB \<longrightarrow> masks ! d OR masks ! a = masks ! d)"
  proof (intro ballI allI impI, elim conjE)
    fix x d a
    assume "x \<in> set (fn_insts fn)" and e: "i_dst x = int d" "i_a x = int a"
      and l: "d < nat (fn_next_value_id fn)" "a < nat (fn_next_value_id fn)" "in_cls fn fc cls d" "in_cls fn fc cls a"
    then have "mask_closed (nat (fn_next_value_id fn)) fn fc cls masks x"
      using build_interf_closed[of t fn fc cls ig masks] assms t by (simp only: fn_nv_def)
    then show "(i_op x = IR_COPY \<longrightarrow> masks ! d = masks ! a) \<and>
        (i_op x = IR_ADD \<or> i_op x = IR_SUB \<longrightarrow> masks ! d OR masks ! a = masks ! d)"
      using l unfolding mask_closed_def e nat_int of_nat_less_iff by (simp only: of_nat_0_le_iff simp_thms)
  qed
qed

theorem forbid_mask_witness: "(63 :: u32) AND rc_caller_saved linux_gp = rc_caller_saved linux_gp"
proof -
  have "in_block call_fn 0 1 \<and> ir_crosses call_fn 0 1 (int 0) \<and> plain_value call_fn 0 \<and> in_cls call_fn False linux_gp 0"
    using call_fn_live(2) unfolding in_block_def ir_crosses_def call_fn_facts call_fn_tables by (simp add: call_fn_tables call_fn_facts)
  then have "[63, 0, 0] ! 0 AND rc_caller_saved linux_gp = rc_caller_saved linux_gp"
    using forbid_mask_sound[of linux_target call_fn False linux_gp "[[1], [0], []]" "[63, 0, 0]",
      unfolded call_fn_facts(1), OF call_fn_graph] call_fn_tables(1) by blast
  then show ?thesis by simp
qed

end
