(* ===== verification/Coloring.thy ===== *)
theory Coloring
  imports Interf "HOL-Library.Multiset"
begin

text \<open>
  The colouring part of \<open>src/regalloc.c\<close>: the bucket queue that orders the values
  (\<open>compute_mcs_order\<close>), the spill costs, and greedy colouring with eviction.  The order is shown to
  be a permutation (the search through the buckets ends), and the colouring to be proper.
\<close>

section \<open>The order\<close>

text \<open>A link or bucket head of \<open>-1\<close> is \<open>None\<close>.\<close>

record mcs =
  mc_head :: "nat option list"
  mc_lnk :: "nat option list"
  mc_bucket :: "nat list"
  mc_weight :: "nat list"
  mc_picked :: "bool list"
  mc_max :: nat

definition mcs_push :: "nat \<Rightarrow> nat \<Rightarrow> mcs \<Rightarrow> mcs" where
  "mcs_push w v s =
     s\<lparr>mc_lnk := (mc_lnk s)[v := mc_head s ! w], mc_head := (mc_head s)[w := Some v],
       mc_bucket := (mc_bucket s)[v := w]\<rparr>"

definition mcs_init :: "nat \<Rightarrow> mcs" where
  "mcs_init n = fold (mcs_push 0) [0..<n]
     \<lparr>mc_head = replicate (n + 1) None, mc_lnk = replicate n None, mc_bucket = replicate n 0,
      mc_weight = replicate n 0, mc_picked = replicate n False, mc_max = 0\<rparr>"

fun mcs_lower :: "nat option list \<Rightarrow> nat \<Rightarrow> nat" where
  "mcs_lower head 0 = 0"
| "mcs_lower head (Suc w) = (if head ! Suc w = None then mcs_lower head w else Suc w)"

text \<open>The search for the next value; \<open>None\<close> stands for \<open>best = -1\<close>.\<close>

partial_function (option) mcs_pick :: "mcs \<Rightarrow> (nat option \<times> mcs) option" where
  "mcs_pick s =
     (let m = mcs_lower (mc_head s) (mc_max s); s1 = s\<lparr>mc_max := m\<rparr>
      in case mc_head s ! m of
           None \<Rightarrow> Some (find_index (\<lambda>p. \<not> p) (mc_picked s), s1)
         | Some best \<Rightarrow>
             let s2 = s1\<lparr>mc_head := (mc_head s)[m := mc_lnk s ! best]\<rparr>
             in if \<not> mc_picked s ! best \<and> mc_bucket s ! best = m then Some (Some best, s2) else mcs_pick s2)"

declare mcs_pick.simps [code]

definition mcs_bump :: "nat \<Rightarrow> mcs \<Rightarrow> mcs" where
  "mcs_bump w s =
     (if mc_picked s ! w then s
      else
        let nw = mc_weight s ! w + 1; s1 = mcs_push nw w (s\<lparr>mc_weight := (mc_weight s)[w := nw]\<rparr>)
        in s1\<lparr>mc_max := (if nw > mc_max s1 then nw else mc_max s1)\<rparr>)"

definition mcs_visit :: "interf_graph \<Rightarrow> nat \<Rightarrow> mcs \<Rightarrow> mcs" where
  "mcs_visit g best s = fold mcs_bump (g ! best) (s\<lparr>mc_picked := (mc_picked s)[best := True]\<rparr>)"

text \<open>\<open>pos\<close> counts down, so the list grows at its front.\<close>

fun mcs_loop :: "interf_graph \<Rightarrow> nat \<Rightarrow> mcs \<Rightarrow> nat list \<Rightarrow> nat list option" where
  "mcs_loop g 0 s order = Some order"
| "mcs_loop g (Suc k) s order =
     (case mcs_pick s of
        Some (Some best, s1) \<Rightarrow> mcs_loop g k (mcs_visit g best s1) (best # order)
      | _ \<Rightarrow> None)"

definition compute_mcs_order :: "interf_graph \<Rightarrow> nat list option" where
  "compute_mcs_order g = mcs_loop g (length g) (mcs_init (length g)) []"

section \<open>Spill costs\<close>

definition estimate_loop_depth :: "cfg \<Rightarrow> nat \<Rightarrow> int" where
  "estimate_loop_depth g b =
     (let depth = fold (\<lambda>s d. if preds_of g s \<noteq> [] \<and> s \<le> b then d + 1 else d) (succs_of g b) (0 :: int)
      in if depth > 0 then 1 else 0)"

definition find_block_for_inst :: "cfg \<Rightarrow> int \<Rightarrow> nat" where
  "find_block_for_inst g i =
     (case find_index (\<lambda>b. int (blk_start b) \<le> i \<and> i < int (blk_end b)) (cfg_blocks g) of None \<Rightarrow> 0 | Some k \<Rightarrow> k)"

text \<open>The scan for the last instruction with destination \<open>v\<close>, and the walk through extensions.\<close>

definition last_def :: "ir_function \<Rightarrow> int \<Rightarrow> ir_inst option" where
  "last_def fn v = (case filter (\<lambda>x. i_dst x = v) (rev (fn_insts fn)) of [] \<Rightarrow> None | x # _ \<Rightarrow> Some x)"

fun frame_ext_walk :: "ir_function \<Rightarrow> nat \<Rightarrow> int \<Rightarrow> bool" where
  "frame_ext_walk fn 0 v = False"
| "frame_ext_walk fn (Suc k) v =
     (case last_def fn v of
        None \<Rightarrow> False
      | Some d \<Rightarrow>
          if i_op d = IR_LOAD \<or> i_op d = IR_LOAD_PTR then True
          else if i_op d = IR_COPY \<or> i_op d = IR_SEXT \<or> i_op d = IR_ZEXT \<or> i_op d = IR_TRUNC
          then frame_ext_walk fn k (i_a d)
          else False)"

definition ssa_is_frame_ext :: "ir_function \<Rightarrow> int \<Rightarrow> bool" where
  "ssa_is_frame_ext fn v = (if v < 0 \<or> v \<ge> fn_next_value_id fn then False else frame_ext_walk fn 6 v)"

definition compute_spill_cost :: "nat \<Rightarrow> live_info list \<Rightarrow> cfg \<Rightarrow> ir_function \<Rightarrow> int" where
  "compute_spill_cost v liv g fn =
     (let l = liv ! v;
          point = (\<lambda>p cost. cost + 1 + estimate_loop_depth g (find_block_for_inst g p) * 10);
          c1 = fold point (li_use_points l) 0;
          c2 = (if li_def_point l \<ge> 0 then point (li_def_point l) c1 else c1);
          c3 = (if c2 \<le> 0 then 1 else c2)
      in if ssa_is_frame_ext fn (int v) then c3 * 64 else c3)"

section \<open>Greedy colouring\<close>

text \<open>\<open>-1\<close> is uncoloured, \<open>-2\<close> spilled.\<close>

record coloring =
  co_colors :: "int list"
  co_slots :: "int list"
  co_next :: int

definition spill :: "nat \<Rightarrow> coloring \<Rightarrow> coloring" where
  "spill v s = s\<lparr>co_colors := (co_colors s)[v := -2], co_slots := (co_slots s)[v := co_next s], co_next := co_next s + 1\<rparr>"

definition has_color :: "int \<Rightarrow> int \<Rightarrow> bool" where
  "has_color k c \<longleftrightarrow> 0 \<le> c \<and> c < k"

definition used_colors :: "int \<Rightarrow> int list \<Rightarrow> nat list \<Rightarrow> u32 \<Rightarrow> u32" where
  "used_colors k colors ns forbid =
     fold (\<lambda>w used. if has_color k (colors ! w) then used OR push_bit (nat (colors ! w)) 1 else used) ns forbid"

definition first_free :: "nat \<Rightarrow> u32 \<Rightarrow> nat option" where
  "first_free k used = find_index (\<lambda>c. used AND push_bit c 1 = 0) [0..<k]"

definition color_count :: "int \<Rightarrow> int list \<Rightarrow> nat list \<Rightarrow> u32 \<Rightarrow> nat list" where
  "color_count k colors ns forbid =
     fold (\<lambda>w cnt. let c = colors ! w in
             if has_color k c \<and> forbid AND push_bit (nat c) 1 = 0 then cnt[nat c := cnt ! nat c + 1] else cnt)
       ns (replicate 32 0)"

definition pick_victim :: "int \<Rightarrow> int list \<Rightarrow> int list \<Rightarrow> nat list \<Rightarrow> u32 \<Rightarrow> nat option \<times> int" where
  "pick_victim k colors cost ns forbid =
     fold (\<lambda>w (victim, vc). let c = colors ! w in
             if \<not> has_color k c then (victim, vc)
             else if forbid AND push_bit (nat c) 1 \<noteq> 0 then (victim, vc)
             else if color_count k colors ns forbid ! nat c \<noteq> 1 then (victim, vc)
             else if cost ! w < vc then (Some w, cost ! w) else (victim, vc))
       ns (None, 0x7fffffff)"

definition color_one ::
  "interf_graph \<Rightarrow> live_info list \<Rightarrow> int list \<Rightarrow> u32 list \<Rightarrow> nat \<Rightarrow> nat \<Rightarrow> coloring \<Rightarrow> coloring" where
  "color_one g liv cost masks k v s =
     (let l = liv ! v in
      if g ! v = [] \<and> li_use_points l = [] \<and> li_def_point l < 0 then spill v s
      else
        case first_free k (used_colors (int k) (co_colors s) (g ! v) (masks ! v)) of
          Some c \<Rightarrow> s\<lparr>co_colors := (co_colors s)[v := int c]\<rparr>
        | None \<Rightarrow>
            (case pick_victim (int k) (co_colors s) cost (g ! v) (masks ! v) of
               (Some w, vc) \<Rightarrow>
                 if vc < cost ! v
                 then spill w (s\<lparr>co_colors := (co_colors s)[v := co_colors s ! w]\<rparr>)
                 else spill v s
             | (None, vc) \<Rightarrow> spill v s))"

text \<open>\<open>None\<close> is the exit with an error message on a class of more than 32 registers.\<close>

definition greedy_color ::
  "interf_graph \<Rightarrow> nat list \<Rightarrow> live_info list \<Rightarrow> cfg \<Rightarrow> u32 list \<Rightarrow> ra_reg_class \<Rightarrow> ir_function \<Rightarrow> coloring option" where
  "greedy_color g order liv cf masks cls fn =
     (if rc_nregs cls > 32 then None
      else
        let cost = map (\<lambda>v. compute_spill_cost v liv cf fn) [0..<length g]
        in Some (fold (color_one g liv cost masks (rc_nregs cls)) order
             \<lparr>co_colors = replicate (length g) (-1), co_slots = replicate (length g) 0, co_next = 0\<rparr>))"

section \<open>The bucket queue\<close>

text \<open>
  The links of several buckets share one array, so a chain may run on into another bucket.  It cannot
  run in a circle: along a link the weight grows, or it stays and the insertion time falls.
  \<open>mcs_ok n P X t T s\<close>: \<open>t\<close> gives the insertion times, all below \<open>T\<close>; weights are at most \<open>P\<close>, or one
  more for the members of \<open>X\<close>.
\<close>

definition after :: "mcs \<Rightarrow> (nat \<Rightarrow> nat) \<Rightarrow> nat \<Rightarrow> nat \<Rightarrow> bool" where
  "after s t v x \<longleftrightarrow> mc_weight s ! v < mc_weight s ! x \<or> (mc_weight s ! v = mc_weight s ! x \<and> t x < t v)"

definition mcs_ok :: "nat \<Rightarrow> nat \<Rightarrow> nat set \<Rightarrow> (nat \<Rightarrow> nat) \<Rightarrow> nat \<Rightarrow> mcs \<Rightarrow> bool" where
  "mcs_ok n P X t T s \<longleftrightarrow>
     length (mc_head s) = n + 1 \<and> length (mc_lnk s) = n \<and> length (mc_weight s) = n \<and> length (mc_picked s) = n \<and>
     mc_bucket s = mc_weight s \<and> mc_max s \<le> n \<and>
     (\<forall>v<n. t v < T) \<and>
     (\<forall>v<n. mc_weight s ! v \<le> P + (if v \<in> X then 1 else 0)) \<and>
     (\<forall>v<n. \<forall>x. mc_lnk s ! v = Some x \<longrightarrow> x < n \<and> after s t v x) \<and>
     (\<forall>b\<le>n. \<forall>x. mc_head s ! b = Some x \<longrightarrow> x < n \<and> b \<le> mc_weight s ! x)"

lemma mcs_okD:
  assumes "mcs_ok n P X t T s"
  shows "length (mc_head s) = n + 1" "length (mc_lnk s) = n" "length (mc_weight s) = n" "length (mc_picked s) = n"
    "mc_bucket s = mc_weight s" "mc_max s \<le> n" "v < n \<Longrightarrow> t v < T"
    "v < n \<Longrightarrow> mc_weight s ! v \<le> P + (if v \<in> X then 1 else 0)"
    "v < n \<Longrightarrow> mc_lnk s ! v = Some x \<Longrightarrow> x < n \<and> after s t v x"
    "b \<le> n \<Longrightarrow> mc_head s ! b = Some x \<Longrightarrow> x < n \<and> b \<le> mc_weight s ! x"
  using assms unfolding mcs_ok_def by simp_all

lemma mcs_lower_ok: "mcs_lower head m \<le> m" "head ! mcs_lower head m = None \<Longrightarrow> mcs_lower head m = 0"
  by (induction m) (auto split: if_splits)

definition mcs_rank :: "nat \<Rightarrow> (nat \<Rightarrow> nat) \<Rightarrow> mcs \<Rightarrow> nat \<Rightarrow> nat" where
  "mcs_rank n t s x = card {y. y < n \<and> after s t x y}"

lemma mcs_rank_less:
  assumes "after s t v x" "x < n"
  shows "mcs_rank n t s x < mcs_rank n t s v"
  unfolding mcs_rank_def
proof (rule psubset_card_mono)
  show "{y. y < n \<and> after s t x y} \<subset> {y. y < n \<and> after s t v y}"
    using assms by (auto simp: after_def)
qed simp

lemma mcs_rank_bound: "mcs_rank n t s x \<le> n"
  using card_mono[of "{..<n}" "{y. y < n \<and> after s t x y}"] by (auto simp: mcs_rank_def)

definition head_rank :: "nat \<Rightarrow> (nat \<Rightarrow> nat) \<Rightarrow> mcs \<Rightarrow> nat option \<Rightarrow> nat" where
  "head_rank n t s h = (case h of None \<Rightarrow> 0 | Some x \<Rightarrow> Suc (mcs_rank n t s x))"

definition pick_measure :: "nat \<Rightarrow> (nat \<Rightarrow> nat) \<Rightarrow> mcs \<Rightarrow> nat" where
  "pick_measure n t s = mc_max s * (n + 2) + head_rank n t s (mc_head s ! mc_max s)"

lemma head_rank_bound: "head_rank n t s h \<le> n + 1"
  using mcs_rank_bound by (simp add: head_rank_def split: option.splits)

lemma mcs_pop_ok:
  assumes ok: "mcs_ok n P X t T s" and m: "m \<le> n" "mc_head s ! m = Some best"
  shows "mcs_ok n P X t T (s\<lparr>mc_max := m, mc_head := (mc_head s)[m := mc_lnk s ! best]\<rparr>)"
proof -
  note D = mcs_okD[OF ok]
  have best: "best < n" "m \<le> mc_weight s ! best" using D(10)[OF m] by auto
  have a: "after (s\<lparr>mc_max := m, mc_head := h\<rparr>) t v x = after s t v x" for h v x by (simp add: after_def)
  have "x < n \<and> b \<le> mc_weight s ! x" if "b \<le> n" "(mc_head s)[m := mc_lnk s ! best] ! b = Some x" for b x
  proof (cases "b = m")
    case True
    with that have "mc_lnk s ! best = Some x" using D(1) by simp
    with D(9)[OF best(1)] best(2) True show ?thesis by (auto simp: after_def)
  next
    case False
    with that D(10) show ?thesis by simp
  qed
  with D m(1) show ?thesis unfolding mcs_ok_def a by simp
qed

lemma mcs_pick_ok:
  "mcs_ok n P X t T s \<Longrightarrow> \<exists>v<n. \<not> mc_picked s ! v \<Longrightarrow>
    \<exists>best s'. mcs_pick s = Some (Some best, s') \<and> best < n \<and> \<not> mc_picked s ! best \<and>
      mcs_ok n P X t T s' \<and> mc_picked s' = mc_picked s"
proof (induction "pick_measure n t s" arbitrary: s rule: less_induct)
  case less
  note D = mcs_okD[OF less.prems(1)]
  define m where "m = mcs_lower (mc_head s) (mc_max s)"
  have m: "m \<le> mc_max s" "m \<le> n" using mcs_lower_ok(1)[of "mc_head s" "mc_max s"] D(6) by (auto simp: m_def)
  show ?case
  proof (cases "mc_head s ! m")
    case None
    obtain i where i: "find_index (\<lambda>p. \<not> p) (mc_picked s) = Some i"
      using less.prems(2) D(4) find_index_None_iff[of "\<lambda>p. \<not> p" "mc_picked s"] by (metis nth_mem option.exhaust)
    then have "i < n" "\<not> mc_picked s ! i" using find_index_SomeD[OF i] D(4) by auto
    moreover have "mcs_ok n P X t T (s\<lparr>mc_max := m\<rparr>)"
      using less.prems(1) m(2) by (simp add: mcs_ok_def after_def)
    moreover have "mcs_pick s = Some (Some i, s\<lparr>mc_max := m\<rparr>)"
      using None i by (simp add: mcs_pick.simps[of s] m_def[symmetric] Let_def)
    ultimately show ?thesis by auto
  next
    case (Some best)
    let ?s = "s\<lparr>mc_max := m, mc_head := (mc_head s)[m := mc_lnk s ! best]\<rparr>"
    have best: "best < n" using D(10)[OF m(2) Some] by blast
    have ok: "mcs_ok n P X t T ?s" by (rule mcs_pop_ok[OF less.prems(1) m(2) Some])
    show ?thesis
    proof (cases "\<not> mc_picked s ! best \<and> mc_bucket s ! best = m")
      case True
      then have "mcs_pick s = Some (Some best, ?s)"
        using Some by (simp add: mcs_pick.simps[of s] m_def[symmetric] Let_def)
      with True best ok show ?thesis by auto
    next
      case False
      have step: "mcs_pick s = mcs_pick ?s"
        using False Some by (auto simp add: mcs_pick.simps[of s] m_def[symmetric] Let_def)
      have a: "after ?s t = after s t" by (simp add: after_def fun_eq_iff)
      have r: "mcs_rank n t ?s = mcs_rank n t s" "head_rank n t ?s = head_rank n t s"
        by (simp_all add: mcs_rank_def head_rank_def a fun_eq_iff split: option.splits)
      have h: "mc_head ?s ! m = mc_lnk s ! best" using m(2) D(1) by simp
      have lt: "head_rank n t s (mc_lnk s ! best) < head_rank n t s (mc_head s ! m)"
        using Some D(9)[OF best] mcs_rank_less[of s t best] by (cases "mc_lnk s ! best") (auto simp: head_rank_def)
      have "pick_measure n t ?s < pick_measure n t s"
      proof (cases "m = mc_max s")
        case True
        with lt h r show ?thesis by (simp add: pick_measure_def)
      next
        case ne: False
        with m(1) have "Suc m \<le> mc_max s" by simp
        then have "Suc m * (n + 2) \<le> mc_max s * (n + 2)" by (rule mult_le_mono1)
        with head_rank_bound[of n t s "mc_lnk s ! best"] h r show ?thesis by (simp add: pick_measure_def)
      qed
      from less.hyps[OF this ok] less.prems(2) step show ?thesis by auto
    qed
  qed
qed

lemma mcs_ok_grow:
  assumes ok: "mcs_ok n P X t T s" and X: "X \<subseteq> Y"
  shows "mcs_ok n P Y t T s"
proof -
  have "mc_weight s ! v \<le> P + (if v \<in> Y then 1 else 0)" if "v < n" for v
    using mcs_okD(8)[OF ok that] X by (auto split: if_splits)
  with ok show ?thesis unfolding mcs_ok_def by simp
qed

lemma mcs_bump_ok:
  assumes ok: "mcs_ok n P X t T s" and w: "w < n" "w \<notin> X" and P: "P < n"
  shows "\<exists>t T. mcs_ok n P (insert w X) t T (mcs_bump w s)" "mc_picked (mcs_bump w s) = mc_picked s"
proof -
  note D = mcs_okD[OF ok]
  show p: "mc_picked (mcs_bump w s) = mc_picked s" by (simp add: mcs_bump_def mcs_push_def Let_def)
  show "\<exists>t T. mcs_ok n P (insert w X) t T (mcs_bump w s)"
  proof (cases "mc_picked s ! w")
    case True
    have "mcs_ok n P (insert w X) t T s" by (rule mcs_ok_grow[OF ok]) blast
    with True show ?thesis by (auto simp: mcs_bump_def)
  next
    case False
    let ?nw = "mc_weight s ! w + 1" and ?s = "mcs_bump w s" and ?t = "t(w := T)"
    have nw: "?nw \<le> P + 1" "?nw \<le> n" using D(8)[OF w(1)] w(2) P by auto
    have f: "mc_weight ?s = (mc_weight s)[w := ?nw]" "mc_lnk ?s = (mc_lnk s)[w := mc_head s ! ?nw]"
      "mc_head ?s = (mc_head s)[?nw := Some w]" "mc_bucket ?s = (mc_bucket s)[w := ?nw]"
      "mc_max ?s = max (mc_max s) ?nw"
      using False by (auto simp: mcs_bump_def mcs_push_def Let_def)
    have wt: "mc_weight s ! v \<le> mc_weight ?s ! v" if "v < n" for v
      using that D(3) by (cases "v = w") (simp_all add: f)
    have wo: "mc_weight ?s ! v = mc_weight s ! v" if "v \<noteq> w" for v using that by (simp add: f)
    have ww: "mc_weight ?s ! w = ?nw" using w D(3) by (simp add: f)
    have "x < n \<and> after ?s ?t v x" if v: "v < n" and l: "mc_lnk ?s ! v = Some x" for v x
    proof (cases "v = w")
      case True
      with l w D(2) have "mc_head s ! ?nw = Some x" by (simp add: f)
      with D(10) nw(2) have x: "x < n" "?nw \<le> mc_weight s ! x" by auto
      then have "x \<noteq> w" by auto
      with x True D(7) wo ww show ?thesis by (auto simp: after_def)
    next
      case False
      with l have "mc_lnk s ! v = Some x" by (simp add: f)
      with D(9)[OF v] have "x < n" "after s t v x" by auto
      with False wo ww wt show ?thesis by (cases "x = w") (auto simp: after_def)
    qed
    moreover have "x < n \<and> b \<le> mc_weight ?s ! x" if b: "b \<le> n" and h: "mc_head ?s ! b = Some x" for b x
    proof (cases "b = ?nw")
      case True
      with h nw(2) D(1) have "x = w" by (simp add: f)
      with True w ww show ?thesis by simp
    next
      case False
      with h D(10)[OF b] have "x < n" "b \<le> mc_weight s ! x" by (simp_all add: f)
      with wt show ?thesis using le_trans by blast
    qed
    moreover have "mc_weight ?s ! v \<le> P + (if v \<in> insert w X then 1 else 0)" if "v < n" for v
      using that D(8)[of v] wo ww nw(1) by (cases "v = w") auto
    moreover have "?t v < T + 1" if "v < n" for v using that D(7)[of v] by auto
    moreover have "mc_bucket ?s = mc_weight ?s" using D(5) by (simp add: f)
    moreover have "mc_max ?s \<le> n" using D(6) nw(2) by (simp add: f)
    ultimately have "mcs_ok n P (insert w X) ?t (T + 1) ?s"
      using D(1-4) p unfolding mcs_ok_def by (simp add: f(1-3))
    then show ?thesis by blast
  qed
qed

lemma mcs_bumps_ok:
  "mcs_ok n P X t T s \<Longrightarrow> set ws \<subseteq> {..<n} \<Longrightarrow> distinct ws \<Longrightarrow> set ws \<inter> X = {} \<Longrightarrow> P < n \<Longrightarrow>
    (\<exists>t T. mcs_ok n P (X \<union> set ws) t T (fold mcs_bump ws s)) \<and> mc_picked (fold mcs_bump ws s) = mc_picked s"
proof (induction ws arbitrary: X t T s)
  case (Cons w ws)
  have w: "w < n" "w \<notin> X" using Cons.prems by auto
  from mcs_bump_ok[OF Cons.prems(1) w Cons.prems(5)] obtain t' T' where
    1: "mcs_ok n P (insert w X) t' T' (mcs_bump w s)" "mc_picked (mcs_bump w s) = mc_picked s" by blast
  have "set ws \<inter> insert w X = {}" "set ws \<subseteq> {..<n}" "distinct ws" using Cons.prems by auto
  with Cons.IH[OF 1(1) this(2,3,1) Cons.prems(5)] 1(2) show ?case by simp
qed auto

lemma mcs_ok_weaken: "mcs_ok n P X t T s \<Longrightarrow> mcs_ok n (P + 1) {} t T s"
  unfolding mcs_ok_def by (auto simp: le_Suc_eq split: if_splits)

lemma mcs_init_ok: "\<exists>t T. mcs_ok n 0 {} t T (mcs_init n)" "mc_picked (mcs_init n) = replicate n False"
proof -
  let ?st = "\<lambda>k. \<lparr>mc_head = (replicate (n + 1) None)[0 := if k = 0 then None else Some (k - 1)],
      mc_lnk = map (\<lambda>v. if 0 < v \<and> v < k then Some (v - 1) else None) [0..<n], mc_bucket = replicate n 0,
      mc_weight = replicate n 0, mc_picked = replicate n False, mc_max = 0\<rparr>"
  have "fold (mcs_push 0) [0..<n] (?st 0) = ?st n"
  proof (rule fold_upt_inv[where P = "\<lambda>k s. s = ?st k"])
    fix i s assume "i < n" "s = ?st i"
    then show "mcs_push 0 i s = ?st (Suc i)"
      by (auto simp: mcs_push_def list_eq_iff_nth_eq nth_list_update)
  qed simp_all
  moreover have "mcs_init n = fold (mcs_push 0) [0..<n] (?st 0)"
    by (simp add: mcs_init_def map_replicate_const list_update_id)
  ultimately have eq: "mcs_init n = ?st n" by simp
  have "mcs_ok n 0 {} (\<lambda>v. v) n (?st n)"
    by (auto simp: mcs_ok_def after_def nth_list_update nth_Cons split: nat.splits if_splits)
  then show "\<exists>t T. mcs_ok n 0 {} t T (mcs_init n)" unfolding eq by blast
  show "mc_picked (mcs_init n) = replicate n False" unfolding eq by simp
qed

lemma mcs_loop_ok:
  assumes g: "ig_ok n g"
  shows "mcs_ok n P {} t T s \<Longrightarrow> distinct order \<Longrightarrow> set order = {v. v < n \<and> mc_picked s ! v} \<Longrightarrow>
    length order = P \<Longrightarrow> k + P = n \<Longrightarrow>
    \<exists>res. mcs_loop g k s order = Some res \<and> distinct res \<and> set res = {..<n}"
proof (induction k arbitrary: P t T s order)
  case 0
  have "card (set order) = n" using distinct_card[OF 0(2)] 0(4,5) by simp
  moreover have "set order \<subseteq> {..<n}" unfolding 0(3) by blast
  ultimately have "set order = {..<n}" by (intro card_subset_eq) auto
  with 0 show ?case by simp
next
  case (Suc k)
  have "\<exists>v<n. \<not> mc_picked s ! v"
  proof (rule ccontr)
    assume "\<not> ?thesis"
    then have "set order = {..<n}" using Suc.prems(3) by auto
    then have "length order = n" using Suc.prems(2) distinct_card by fastforce
    with Suc.prems(4,5) show False by simp
  qed
  from mcs_pick_ok[OF Suc.prems(1) this] obtain best s1 where
    p: "mcs_pick s = Some (Some best, s1)" "best < n" "\<not> mc_picked s ! best" "mcs_ok n P {} t T s1"
      "mc_picked s1 = mc_picked s" by blast
  note D = ig_okD[OF g]
  let ?s2 = "s1\<lparr>mc_picked := (mc_picked s1)[best := True]\<rparr>"
  have len: "length (mc_picked s1) = n" using mcs_okD(4)[OF p(4)] .
  have "mcs_ok n P {} t T ?s2" using p(4) by (simp add: mcs_ok_def after_def)
  from mcs_bumps_ok[OF this, of "g ! best"] D(2,3)[OF p(2)] Suc.prems(5) obtain t' T' where
    v: "mcs_ok n P (set (g ! best)) t' T' (mcs_visit g best s1)" "mc_picked (mcs_visit g best s1) = (mc_picked s)[best := True]"
    unfolding mcs_visit_def using p(5) by fastforce
  have "set (best # order) = {v. v < n \<and> mc_picked (mcs_visit g best s1) ! v}"
    using Suc.prems(3) p(2,5) len v(2) by (auto simp: nth_list_update)
  moreover have "distinct (best # order)" using Suc.prems(2,3) p(3) by simp
  ultimately show ?case
    using Suc.IH[OF mcs_ok_weaken[OF v(1)], of "best # order"] Suc.prems(4,5) p(1) by simp
qed

lemma mcs_order_ok:
  assumes "ig_ok n g"
  shows "\<exists>order. compute_mcs_order g = Some order \<and> distinct order \<and> set order = {..<n}"
proof -
  obtain t T where ok: "mcs_ok n 0 {} t T (mcs_init n)" and p: "mc_picked (mcs_init n) = replicate n False"
    using mcs_init_ok by blast
  have len: "length g = n" using ig_okD(1)[OF assms] .
  have "set [] = {v. v < n \<and> mc_picked (mcs_init n) ! v}" using p by auto
  from mcs_loop_ok[OF assms ok _ this, of n] show ?thesis by (simp add: compute_mcs_order_def len)
qed

section \<open>The colouring is proper\<close>

lemma bit_pow: "c < 32 \<Longrightarrow> bit (2 ^ c :: u32) n \<longleftrightarrow> n = c"
  by (auto simp: bit_exp_iff possible_bit_def)

lemma bit_test: "c < 32 \<Longrightarrow> (w :: u32) AND 2 ^ c = 0 \<longleftrightarrow> \<not> bit w c"
proof
  assume c: "c < 32" and "w AND 2 ^ c = 0"
  then have "\<not> bit (w AND 2 ^ c) c" by simp
  with c show "\<not> bit w c" by (simp add: bit_and_iff bit_pow)
next
  assume "c < 32" "\<not> bit w c"
  then show "w AND 2 ^ c = 0" by (intro bit_word_eqI) (auto simp: bit_and_iff bit_pow)
qed

lemma used_colors_bit:
  assumes "k \<le> 32" "c < 32"
  shows "bit (used_colors (int k) colors ns forbid) c \<longleftrightarrow>
    bit forbid c \<or> (\<exists>w\<in>set ns. has_color (int k) (colors ! w) \<and> nat (colors ! w) = c)"
proof (induction ns arbitrary: forbid)
  case (Cons w ns)
  show ?case
  proof (cases "has_color (int k) (colors ! w)")
    case True
    then have "bit (forbid OR push_bit (nat (colors ! w)) 1) c \<longleftrightarrow> bit forbid c \<or> nat (colors ! w) = c"
      using assms by (auto simp: bit_or_iff bit_pow has_color_def)
    with Cons[of "forbid OR push_bit (nat (colors ! w)) 1"] True show ?thesis by (auto simp: used_colors_def)
  next
    case False
    with Cons[of forbid] show ?thesis by (auto simp: used_colors_def)
  qed
qed (simp add: used_colors_def)

lemma first_free_ok: "first_free k used = Some c \<Longrightarrow> k \<le> 32 \<Longrightarrow> c < k \<and> \<not> bit used c"
  using find_index_SomeD[of "\<lambda>c. used AND push_bit c 1 = 0" "[0..<k]" c] bit_test by (fastforce simp: first_free_def)

definition counts :: "int \<Rightarrow> int list \<Rightarrow> u32 \<Rightarrow> nat \<Rightarrow> nat \<Rightarrow> bool" where
  "counts k colors forbid c w \<longleftrightarrow> has_color k (colors ! w) \<and> nat (colors ! w) = c \<and> \<not> bit forbid c"

lemma color_count_len:
  assumes "k \<le> 32"
  shows "c < 32 \<Longrightarrow> color_count (int k) colors ns forbid ! c = length (filter (counts (int k) colors forbid c) ns)"
proof -
  let ?f = "\<lambda>w cnt. let c = colors ! w in
    if has_color (int k) c \<and> forbid AND push_bit (nat c) 1 = 0 then cnt[nat c := cnt ! nat c + 1] else cnt"
  have "length cnt = 32 \<Longrightarrow> c < 32 \<Longrightarrow> fold ?f ns cnt ! c = cnt ! c + length (filter (counts (int k) colors forbid c) ns)"
    for cnt :: "nat list"
  proof (induction ns arbitrary: cnt)
    case (Cons w ns)
    have "nat (colors ! w) < 32" if "has_color (int k) (colors ! w)" using that assms by (auto simp: has_color_def)
    with Cons.IH[of "?f w cnt"] Cons.prems show ?case
      by (auto simp: Let_def counts_def bit_test nth_list_update)
  qed simp
  then show "c < 32 \<Longrightarrow> color_count (int k) colors ns forbid ! c = length (filter (counts (int k) colors forbid c) ns)"
    by (simp add: color_count_def)
qed

lemma length_one_unique: "length (filter P xs) = 1 \<Longrightarrow> x \<in> set xs \<Longrightarrow> y \<in> set xs \<Longrightarrow> P x \<Longrightarrow> P y \<Longrightarrow> x = y"
proof -
  assume "length (filter P xs) = 1" and x: "x \<in> set xs" "P x" and y: "y \<in> set xs" "P y"
  then obtain z where "filter P xs = [z]" by (auto simp: length_Suc_conv)
  moreover have "x \<in> set (filter P xs)" "y \<in> set (filter P xs)" using x y by auto
  ultimately show ?thesis by simp
qed

lemma pick_victim_ok:
  assumes "k \<le> 32" and "pick_victim (int k) colors cost ns forbid = (Some w, vc)"
  shows "w \<in> set ns \<and> has_color (int k) (colors ! w) \<and> \<not> bit forbid (nat (colors ! w)) \<and>
    (\<forall>u\<in>set ns. colors ! u = colors ! w \<longrightarrow> u = w)"
proof -
  let ?ok = "\<lambda>w. w \<in> set ns \<and> has_color (int k) (colors ! w) \<and> \<not> bit forbid (nat (colors ! w)) \<and>
    color_count (int k) colors ns forbid ! nat (colors ! w) = 1"
  have n: "nat (colors ! w) < 32" if "has_color (int k) (colors ! w)" for w
    using that assms(1) by (auto simp: has_color_def)
  have "\<forall>w. fst (pick_victim (int k) colors cost ns forbid) = Some w \<longrightarrow> ?ok w"
    unfolding pick_victim_def
    by (rule fold_inv[where P = "\<lambda>s. \<forall>w. fst s = Some w \<longrightarrow> ?ok w"]) (auto simp: Let_def bit_test n split: prod.splits)
  with assms(2) have ok: "?ok w" by simp
  have "u = w" if "u \<in> set ns" "colors ! u = colors ! w" for u
    using length_one_unique[of "counts (int k) colors forbid (nat (colors ! w))" ns u w] ok that
      color_count_len[OF assms(1) n[of w], of colors ns forbid] by (simp add: counts_def)
  with ok show ?thesis by blast
qed

definition color_ok :: "interf_graph \<Rightarrow> u32 list \<Rightarrow> nat \<Rightarrow> nat set \<Rightarrow> coloring \<Rightarrow> bool" where
  "color_ok g masks k P s \<longleftrightarrow>
     length (co_colors s) = length g \<and> length (co_slots s) = length g \<and> 0 \<le> co_next s \<and>
     (\<forall>v<length g. v \<notin> P \<longrightarrow> co_colors s ! v = -1) \<and>
     (\<forall>v<length g. v \<in> P \<longrightarrow> co_colors s ! v = -2 \<or>
        (has_color (int k) (co_colors s ! v) \<and> \<not> bit (masks ! v) (nat (co_colors s ! v)))) \<and>
     (\<forall>u v. (u, v) \<in> ig_edges g \<longrightarrow> 0 \<le> co_colors s ! u \<longrightarrow> co_colors s ! u \<noteq> co_colors s ! v) \<and>
     (\<forall>v<length g. co_colors s ! v = -2 \<longrightarrow> 0 \<le> co_slots s ! v \<and> co_slots s ! v < co_next s) \<and>
     (\<forall>u<length g. \<forall>v<length g. co_colors s ! u = -2 \<longrightarrow> co_colors s ! v = -2 \<longrightarrow> u \<noteq> v \<longrightarrow>
        co_slots s ! u \<noteq> co_slots s ! v)"

lemma color_okD:
  assumes "color_ok g masks k P s"
  shows "length (co_colors s) = length g" "length (co_slots s) = length g" "0 \<le> co_next s"
    "v < length g \<Longrightarrow> v \<notin> P \<Longrightarrow> co_colors s ! v = -1"
    "v < length g \<Longrightarrow> v \<in> P \<Longrightarrow> co_colors s ! v = -2 \<or>
        (has_color (int k) (co_colors s ! v) \<and> \<not> bit (masks ! v) (nat (co_colors s ! v)))"
    "(u, v) \<in> ig_edges g \<Longrightarrow> 0 \<le> co_colors s ! u \<Longrightarrow> co_colors s ! u \<noteq> co_colors s ! v"
    "v < length g \<Longrightarrow> co_colors s ! v = -2 \<Longrightarrow> 0 \<le> co_slots s ! v \<and> co_slots s ! v < co_next s"
    "u < length g \<Longrightarrow> v < length g \<Longrightarrow> co_colors s ! u = -2 \<Longrightarrow> co_colors s ! v = -2 \<Longrightarrow> u \<noteq> v \<Longrightarrow>
        co_slots s ! u \<noteq> co_slots s ! v"
  using assms unfolding color_ok_def by blast+

text \<open>Spilling any vertex that is not spilled yet keeps the invariant.\<close>

lemma spill_ok:
  assumes ok: "color_ok g masks k P s" and g: "ig_ok n g" and v: "v < length g" "co_colors s ! v \<noteq> -2"
  shows "color_ok g masks k (insert v P) (spill v s)"
proof -
  note D = color_okD[OF ok]
  have c: "co_colors (spill v s) ! u = (if u = v then -2 else co_colors s ! u)" if "u < length g" for u
    using that D(1) by (simp add: spill_def)
  have sl: "co_slots (spill v s) ! u = (if u = v then co_next s else co_slots s ! u)" if "u < length g" for u
    using that D(2) by (simp add: spill_def)
  have nx: "co_next (spill v s) = co_next s + 1" by (simp add: spill_def)
  have "co_colors (spill v s) ! u \<noteq> co_colors (spill v s) ! w"
    if e: "(u, w) \<in> ig_edges g" and p: "0 \<le> co_colors (spill v s) ! u" for u w
  proof -
    have uw: "u < length g" "w < length g" using ig.symm[OF g e] ig_okD(1)[OF g] by auto
    with p have "u \<noteq> v" using c by auto
    with p uw D(6)[OF e] show ?thesis using c by auto
  qed
  moreover have "co_slots (spill v s) ! u \<noteq> co_slots (spill v s) ! w"
    if uw: "u < length g" "w < length g" "u \<noteq> w" and s: "co_colors (spill v s) ! u = -2" "co_colors (spill v s) ! w = -2" for u w
    using D(7)[of u] D(7)[of w] D(8)[of u w] uw s v(1) by (auto simp: c sl split: if_splits)
  moreover have "0 \<le> co_slots (spill v s) ! u \<and> co_slots (spill v s) ! u < co_next (spill v s)"
    if "u < length g" "co_colors (spill v s) ! u = -2" for u
    using D(3) D(7)[of u] that v(1) by (auto simp: c sl nx split: if_splits)
  moreover have "length (co_colors (spill v s)) = length g" "length (co_slots (spill v s)) = length g"
    using D(1,2) by (simp_all add: spill_def)
  moreover have "co_colors (spill v s) ! u = -1" if "u < length g" "u \<notin> insert v P" for u
    using D(4)[of u] that by (simp add: c)
  moreover have "co_colors (spill v s) ! u = -2 \<or> (has_color (int k) (co_colors (spill v s) ! u) \<and>
      \<not> bit (masks ! u) (nat (co_colors (spill v s) ! u)))" if "u < length g" "u \<in> insert v P" for u
    using D(5)[of u] that by (auto simp: c)
  moreover have "0 \<le> co_next (spill v s)" using D(3) nx by simp
  ultimately show ?thesis unfolding color_ok_def by blast
qed

text \<open>So does giving an uncoloured vertex a permitted colour that none of its neighbours has.\<close>

lemma assign_ok:
  assumes ok: "color_ok g masks k P s" and g: "ig_ok n g" and v: "v < length g" "v \<notin> P"
    and c: "has_color (int k) c" "\<not> bit (masks ! v) (nat c)"
    and free: "\<And>w. w \<in> set (g ! v) \<Longrightarrow> co_colors s ! w \<noteq> c"
  shows "color_ok g masks k (insert v P) (s\<lparr>co_colors := (co_colors s)[v := c]\<rparr>)"
proof -
  note D = color_okD[OF ok]
  let ?s = "s\<lparr>co_colors := (co_colors s)[v := c]\<rparr>"
  have cl: "co_colors ?s ! u = (if u = v then c else co_colors s ! u)" if "u < length g" for u
    using that D(1) by simp
  note cl' = cl[simplified]
  have "co_colors ?s ! u \<noteq> co_colors ?s ! w" if e: "(u, w) \<in> ig_edges g" and p: "0 \<le> co_colors ?s ! u" for u w
  proof -
    have uw: "u < length g" "w < length g" "u \<noteq> w" and we: "(w, u) \<in> ig_edges g"
      using ig.symm[OF g e] ig_okD(1)[OF g] by auto
    have fr: "co_colors s ! x \<noteq> c" if "(v, x) \<in> ig_edges g" for x using that free by (auto simp: ig_edges_def)
    show ?thesis using cl[OF uw(1)] cl[OF uw(2)] uw(3) p fr e we D(6)[OF e] by (auto split: if_splits)
  qed
  moreover have "0 \<le> co_slots ?s ! u \<and> co_slots ?s ! u < co_next ?s" if "u < length g" "co_colors ?s ! u = -2" for u
    using D(7)[of u] that c(1) by (auto simp: cl' has_color_def split: if_splits)
  moreover have "co_slots ?s ! u \<noteq> co_slots ?s ! w"
    if "u < length g" "w < length g" "u \<noteq> w" "co_colors ?s ! u = -2" "co_colors ?s ! w = -2" for u w
    using D(8)[of u w] that c(1) by (auto simp: cl' has_color_def split: if_splits)
  moreover have "co_colors ?s ! u = -1" if "u < length g" "u \<notin> insert v P" for u
    using D(4)[of u] that by (simp add: cl')
  moreover have "co_colors ?s ! u = -2 \<or> (has_color (int k) (co_colors ?s ! u) \<and> \<not> bit (masks ! u) (nat (co_colors ?s ! u)))"
    if "u < length g" "u \<in> insert v P" for u
    using D(5)[of u] that c by (auto simp: cl')
  moreover have "length (co_colors ?s) = length g" "length (co_slots ?s) = length g" "0 \<le> co_next ?s"
    using D(1-3) by simp_all
  ultimately show ?thesis unfolding color_ok_def by blast
qed

lemma color_one_ok:
  assumes ok: "color_ok g masks k P s" and g: "ig_ok n g" and v: "v < length g" "v \<notin> P" and k: "k \<le> 32"
  shows "color_ok g masks k (insert v P) (color_one g liv cost masks k v s)"
proof -
  note D = color_okD[OF ok]
  let ?used = "used_colors (int k) (co_colors s) (g ! v) (masks ! v)"
  have v1: "co_colors s ! v = -1" using D(4) v by blast
  have sp: "color_ok g masks k (insert v P) (spill v s)" using spill_ok[OF ok g v(1)] v1 by simp
  show ?thesis
  proof (cases "g ! v = [] \<and> li_use_points (liv ! v) = [] \<and> li_def_point (liv ! v) < 0")
    case True
    with sp show ?thesis by (simp add: color_one_def)
  next
    case False
    show ?thesis
    proof (cases "first_free k ?used")
      case (Some c)
      from first_free_ok[OF this k] have c: "c < k" "\<not> bit ?used c" by auto
      with used_colors_bit[OF k, of c] k have m: "\<not> bit (masks ! v) c"
        and fr: "\<And>w. w \<in> set (g ! v) \<Longrightarrow> has_color (int k) (co_colors s ! w) \<Longrightarrow> nat (co_colors s ! w) \<noteq> c" by auto
      have "color_ok g masks k (insert v P) (s\<lparr>co_colors := (co_colors s)[v := int c]\<rparr>)"
      proof (rule assign_ok[OF ok g v])
        fix w assume w: "w \<in> set (g ! v)"
        show "co_colors s ! w \<noteq> int c" using fr[OF w] c(1) by (auto simp: has_color_def)
      qed (use c m in \<open>simp_all add: has_color_def\<close>)
      with Some False show ?thesis by (auto simp: color_one_def Let_def)
    next
      case None
      obtain vic vc where pv: "pick_victim (int k) (co_colors s) cost (g ! v) (masks ! v) = (vic, vc)" by fastforce
      show ?thesis
      proof (cases vic)
        case None
        with \<open>first_free k ?used = None\<close> pv False sp show ?thesis by (auto simp: color_one_def Let_def)
      next
        case (Some w)
        from pick_victim_ok[OF k pv[unfolded Some]] have w: "w \<in> set (g ! v)" "has_color (int k) (co_colors s ! w)"
          "\<not> bit (masks ! v) (nat (co_colors s ! w))" "\<And>u. u \<in> set (g ! v) \<Longrightarrow> co_colors s ! u = co_colors s ! w \<Longrightarrow> u = w"
          by blast+
        have wl: "w < length g" "w \<noteq> v" using ig_okD(3)[OF g, of v w] ig_okD(1)[OF g] v(1) w(1) by auto
        have wP: "w \<in> P" using D(4)[OF wl(1)] w(2) by (auto simp: has_color_def)
        let ?a = "s\<lparr>co_colors := (co_colors s)[v := co_colors s ! w]\<rparr>"
        let ?b = "spill w s"
        have b: "color_ok g masks k P ?b" using spill_ok[OF ok g wl(1)] w(2) wP by (simp add: insert_absorb has_color_def)
        have "color_ok g masks k (insert v P) (?b\<lparr>co_colors := (co_colors ?b)[v := co_colors s ! w]\<rparr>)"
        proof (rule assign_ok[OF b g v w(2,3)])
          fix u assume u: "u \<in> set (g ! v)"
          then have "u < length g" using ig_okD(3)[OF g, of v u] ig_okD(1)[OF g] v(1) by simp
          then show "co_colors ?b ! u \<noteq> co_colors s ! w"
            using w(4)[OF u] w(2) D(1) by (cases "u = w") (auto simp: spill_def has_color_def)
        qed
        moreover have "?b\<lparr>co_colors := (co_colors ?b)[v := co_colors s ! w]\<rparr> = spill w ?a"
          using wl by (simp add: spill_def list_update_swap)
        ultimately show ?thesis
          using sp \<open>first_free k ?used = None\<close> pv Some False by (auto simp: color_one_def Let_def)
      qed
    qed
  qed
qed

lemma color_all_ok:
  "color_ok g masks k P s \<Longrightarrow> ig_ok n g \<Longrightarrow> k \<le> 32 \<Longrightarrow> set vs \<subseteq> {..<length g} \<Longrightarrow> distinct vs \<Longrightarrow> set vs \<inter> P = {} \<Longrightarrow>
    color_ok g masks k (P \<union> set vs) (fold (color_one g liv cost masks k) vs s)"
proof (induction vs arbitrary: P s)
  case (Cons v vs)
  have "color_ok g masks k (insert v P) (color_one g liv cost masks k v s)"
    using Cons.prems by (intro color_one_ok) auto
  from Cons.IH[OF this Cons.prems(2,3)] Cons.prems(4-6) show ?case by auto
qed simp

lemma greedy_color_ok:
  assumes "ig_ok n g" "distinct order" "set order = {..<n}" "rc_nregs cls \<le> 32"
  shows "\<exists>s. greedy_color g order liv cf masks cls fn = Some s \<and> color_ok g masks (rc_nregs cls) {..<n} s"
proof -
  have len: "length g = n" using ig_okD(1)[OF assms(1)] .
  have "color_ok g masks (rc_nregs cls) {}
      \<lparr>co_colors = replicate (length g) (-1), co_slots = replicate (length g) 0, co_next = 0\<rparr>"
    by (auto simp: color_ok_def ig_edges_def)
  from color_all_ok[OF this assms(1,4) _ assms(2)] assms(3,4) len show ?thesis by (simp add: greedy_color_def Let_def)
qed

section \<open>The properties\<close>

text \<open>
  C15.  The bucket search of \<open>compute_mcs_order\<close> always ends, although its buckets share one link array
  and chains run from one bucket into another, and on a graph with symmetric, irreflexive and
  duplicate-free neighbour lists its result is a permutation of the vertices: each is coloured once.
\<close>

theorem mcs_order_permutation:
  assumes "ig_ok n g"
  shows "\<exists>order. compute_mcs_order g = Some order \<and> mset order = mset [0..<n]"
proof -
  obtain order where o: "compute_mcs_order g = Some order" "distinct order" "set order = {..<n}"
    using mcs_order_ok[OF assms] by blast
  then have "mset order = mset [0..<n]"
    using set_eq_iff_mset_eq_distinct[OF o(2), of "[0..<n]"] by (simp add: lessThan_atLeast0)
  with o(1) show ?thesis by blast
qed

lemma path_graph_ok: "ig_ok 3 [[1], [0, 2], [1]]"
  by (simp add: ig_ok_def eval_nat_numeral All_less_Suc)

theorem mcs_order_witness: "compute_mcs_order [[1], [0, 2], [1]] = Some [0, 1, 2] \<and> mset [0, 1, 2] = mset [0..<3]"
proof -
  have "compute_mcs_order [[1], [0, 2], [1]] = Some [0, 1, 2]" by code_simp
  with mcs_order_permutation[OF path_graph_ok] show ?thesis by simp
qed

text \<open>
  C16.  Greedy colouring in any order of the vertices is proper: adjacent vertices never have the same
  colour, a colour is one of the \<open>k\<close> of the class and not forbidden to its vertex, whatever was evicted
  on the way, and the vertices left without a colour have slots of their own below the slot count.
\<close>

theorem greedy_color_proper:
  assumes "ig_ok n g" "mset order = mset [0..<n]" "rc_nregs cls \<le> 32"
  shows "\<exists>s. greedy_color g order liv cf masks cls fn = Some s \<and>
    (\<forall>u v. u < n \<and> v \<in> set (g ! u) \<and> 0 \<le> co_colors s ! u \<longrightarrow> co_colors s ! u \<noteq> co_colors s ! v) \<and>
    (\<forall>v<n. co_colors s ! v = -2 \<or>
       (0 \<le> co_colors s ! v \<and> co_colors s ! v < int (rc_nregs cls) \<and> \<not> bit (masks ! v) (nat (co_colors s ! v)))) \<and>
    (\<forall>v<n. co_colors s ! v = -2 \<longrightarrow> 0 \<le> co_slots s ! v \<and> co_slots s ! v < co_next s) \<and>
    (\<forall>u<n. \<forall>v<n. co_colors s ! u = -2 \<and> co_colors s ! v = -2 \<and> u \<noteq> v \<longrightarrow> co_slots s ! u \<noteq> co_slots s ! v)"
proof -
  have "distinct order" "set order = {..<n}"
    using assms(2) by (metis distinct_upt mset_eq_imp_distinct_iff, metis atLeast_upt mset_eq_setD)
  from greedy_color_ok[OF assms(1) this assms(3)] obtain s where
    s: "greedy_color g order liv cf masks cls fn = Some s" "color_ok g masks (rc_nregs cls) {..<n} s" by blast
  note D = color_okD[OF s(2)] and len = ig_okD(1)[OF assms(1)]
  have "co_colors s ! u \<noteq> co_colors s ! v" if "u < n" "v \<in> set (g ! u)" "0 \<le> co_colors s ! u" for u v
    using D(6)[of u v] that len by (simp add: ig_edges_def)
  with s(1) D(5,7,8) len show ?thesis unfolding has_color_def by (intro exI[of _ s]) simp
qed

text \<open>Two registers, three vertices in a path, the middle one not allowed in register 0.\<close>

definition two_regs :: ra_reg_class where
  "two_regs = \<lparr>rc_regs = [6, 7], rc_nregs = 2, rc_caller_saved = 1, rc_spill_bytes = 8, rc_exclude_16byte_ld = False\<rparr>"

definition no_live :: live_info where
  "no_live = \<lparr>li_def_point = 0, li_use_points = [], li_live_start = 0, li_live_end = 0\<rparr>"

theorem greedy_color_witness:
  "greedy_color [[1], [0, 2], [1]] [0, 1, 2] (replicate 3 no_live) (cfg_build (fn_insts loop_fn)) [0, 1, 0] two_regs loop_fn =
     Some \<lparr>co_colors = [0, 1, 0], co_slots = [0, 0, 0], co_next = 0\<rparr> \<and> \<not> bit (1 :: u32) 1"
proof -
  let ?s = "\<lparr>co_colors = [0, 1, 0], co_slots = [0, 0, 0], co_next = 0\<rparr>"
  have r: "greedy_color [[1], [0, 2], [1]] [0, 1, 2] (replicate 3 no_live) (cfg_build (fn_insts loop_fn)) [0, 1, 0] two_regs loop_fn
     = Some ?s" by code_simp
  have p: "mset [0, 1, 2] = mset [0..<3]" by (simp add: eval_nat_numeral upt_rec)
  have k: "rc_nregs two_regs \<le> 32" by (simp add: two_regs_def)
  obtain s where "Some ?s = Some s" and "\<forall>v<3. co_colors s ! v = -2 \<or>
       (0 \<le> co_colors s ! v \<and> co_colors s ! v < int (rc_nregs two_regs) \<and> \<not> bit ([0, 1, 0 :: u32] ! v) (nat (co_colors s ! v)))"
    using greedy_color_proper[OF path_graph_ok p k, where liv = "replicate 3 no_live" and
        cf = "cfg_build (fn_insts loop_fn)" and masks = "[0, 1, 0]" and fn = loop_fn, unfolded r] by blast
  from this(2)[rule_format, of 1] this(1) r show ?thesis by auto
qed

end
