(* ===== verification/InstSem.thy ===== *)
theory InstSem
  imports IR
begin

text \<open>
  The meaning of an instruction, as the semantic properties of the passes need it: a parameter that
  computes, from the memory and the values the instruction uses, a new memory, the value of its
  \<open>i\<close>-th result and the successor that its block will take.  What an instruction does on the target
  machine is not part of the passes; they must be right for every such meaning.
\<close>

type_synonym ('a, 'm) inst_sem = "ir_inst \<Rightarrow> 'm \<Rightarrow> 'a list \<Rightarrow> 'm \<times> (nat \<Rightarrow> 'a) \<times> nat"

definition write_all :: "('l \<times> 'a) list \<Rightarrow> ('l \<Rightarrow> 'a) \<Rightarrow> 'l \<Rightarrow> 'a" where
  "write_all ws st = fold (\<lambda>(l, x) s. s(l := x)) ws st"

definition results :: "'l list \<Rightarrow> (nat \<Rightarrow> 'a) \<Rightarrow> ('l \<times> 'a) list" where
  "results ds r = zip ds (map r [0..<length ds])"

lemma write_all_other: "l \<notin> fst ` set ws \<Longrightarrow> write_all ws st l = st l"
  unfolding write_all_def by (induction ws arbitrary: st) auto

lemma write_all_agree: "st l = st' l \<Longrightarrow> write_all ws st l = write_all ws st' l"
proof (induction ws arbitrary: st st')
  case (Cons w ws)
  obtain k x where w: "w = (k, x)" by fastforce
  have unf: "write_all (w # ws) s = write_all ws (s(k := x))" for s :: "'b \<Rightarrow> 'a"
    unfolding write_all_def w by simp
  show ?case unfolding unf by (rule Cons.IH) (simp add: Cons.prems)
qed (simp add: write_all_def)

lemma results_locs: "fst ` set (results ds r) \<subseteq> set ds"
  unfolding results_def using set_zip_leftD by fastforce

end
