(* ===== verification/RegAlloc.thy ===== *)
theory RegAlloc
  imports Coloring InstSem
begin

text \<open>
  The allocation pipeline of \<open>src/regalloc.c\<close> for one register class and its two entry points.  Its
  specification is a machine that keeps every value in the home the allocation gives it: running the
  machine from a function's entry is running the function on unboundedly many values.
\<close>

section \<open>The code\<close>

text \<open>
  \<open>coalesce_copies\<close> returns before its loop: the colours stay as they are.
\<close>

definition coalesce_copies :: "ir_function \<Rightarrow> int list \<Rightarrow> interf_graph \<Rightarrow> live_info list \<Rightarrow> int list" where
  "coalesce_copies fn colors g liv = colors"

definition native_reg :: "ir_function \<Rightarrow> bool \<Rightarrow> ra_reg_class \<Rightarrow> int list \<Rightarrow> nat \<Rightarrow> int" where
  "native_reg fn fc cls colors v =
     (if \<not> in_cls fn fc cls v then REG_NONE
      else if 0 \<le> colors ! v \<and> colors ! v < int (rc_nregs cls) then rc_regs cls ! nat (colors ! v)
      else colors ! v)"

definition spill_area :: "bool \<Rightarrow> ra_reg_class \<Rightarrow> int \<Rightarrow> int" where
  "spill_area fc cls spills =
     (if fc then rc_spill_bytes cls * spills
      else rc_spill_bytes cls * (if spills mod 2 \<noteq> 0 then spills + 1 else spills))"

text \<open>The outer \<open>None\<close> is a run that does not return; the inner one is the result \<open>NULL\<close>.\<close>

definition ra_alloc_class :: "ra_target \<Rightarrow> ir_function \<Rightarrow> bool \<Rightarrow> ra_reg_class \<Rightarrow> ra_result option option" where
  "ra_alloc_class t fn fc cls =
     (let nv = nat (fn_next_value_id fn) in
      if fn_next_value_id fn \<le> 0 then Some None
      else if \<not> list_ex (in_cls fn fc cls) [0..<nv] then Some None
      else
        case compute_liveness fn of
          None \<Rightarrow> Some None
        | Some liv \<Rightarrow>
          let g = cfg_build (fn_insts fn) in
          case build_interf_graph_cfg t fn g nv fc cls of
            None \<Rightarrow> None
          | Some (ig, masks) \<Rightarrow>
            (case compute_mcs_order ig of
               None \<Rightarrow> None
             | Some order \<Rightarrow>
               (case greedy_color ig order liv g masks cls fn of
                  None \<Rightarrow> None
                | Some co \<Rightarrow>
                  let regs = map (native_reg fn fc cls (co_colors co)) [0..<nv];
                      regs1 = (if \<not> fc then coalesce_copies fn regs ig liv else regs)
                  in Some (Some \<lparr>ra_reg = regs1, ra_spill_slot = co_slots co, ra_num_spill_slots = co_next co,
                       ra_num_values = fn_next_value_id fn, ra_stack_size = spill_area fc cls (co_next co)\<rparr>))))"

definition reg_alloc :: "ra_target \<Rightarrow> ir_function \<Rightarrow> ra_result option option" where
  "reg_alloc t fn = ra_alloc_class t fn False (rc_gp (ra_classes_current t))"

definition reg_alloc_xmm :: "ra_target \<Rightarrow> ir_function \<Rightarrow> ra_result option option" where
  "reg_alloc_xmm t fn = ra_alloc_class t fn True (rc_simd (ra_classes_current t))"

section \<open>What an allocation guarantees\<close>

definition class_home :: "ra_result option \<Rightarrow> nat \<Rightarrow> (int + int) option" where
  "class_home r v =
     (case r of
        None \<Rightarrow> None
      | Some ra \<Rightarrow> if 0 \<le> ra_reg ra ! v then Some (Inl (ra_reg ra ! v))
                   else if ra_reg ra ! v = -2 then Some (Inr (ra_spill_slot ra ! v)) else None)"

definition caller_reg :: "ra_reg_class \<Rightarrow> int \<Rightarrow> bool" where
  "caller_reg cls r \<longleftrightarrow> (\<exists>c<rc_nregs cls. rc_regs cls ! c = r \<and> bit (rc_caller_saved cls) c)"

definition alloc_ok :: "ir_function \<Rightarrow> bool \<Rightarrow> ra_reg_class \<Rightarrow> ra_result option \<Rightarrow> bool" where
  "alloc_ok fn fc cls r \<longleftrightarrow>
     (\<forall>v<fn_nv fn. class_home r v = None \<longleftrightarrow> \<not> in_cls fn fc cls v) \<and>
     (\<forall>v<fn_nv fn. \<forall>x. class_home r v = Some (Inl x) \<longrightarrow> x \<in> set (rc_regs cls)) \<and>
     (\<forall>v<fn_nv fn. \<forall>x ra. r = Some ra \<longrightarrow> class_home r v = Some (Inr x) \<longrightarrow> 0 \<le> x \<and> x < ra_num_spill_slots ra) \<and>
     (\<forall>b k u v. in_block fn b k \<and> fn_clash fn b k u v \<and> u < fn_nv fn \<and> v < fn_nv fn \<and> class_home r u \<noteq> None \<longrightarrow>
        class_home r u \<noteq> class_home r v) \<and>
     (\<forall>b k v x. in_block fn b k \<and> crosses (fn_insts fn ! k) v \<and> fn_live fn b (Suc k) v \<and> v < fn_nv fn \<and>
        class_home r v = Some (Inl x) \<longrightarrow> \<not> caller_reg cls x)"

lemma alloc_okD:
  assumes "alloc_ok fn fc cls r"
  shows "v < fn_nv fn \<Longrightarrow> class_home r v = None \<longleftrightarrow> \<not> in_cls fn fc cls v"
    "v < fn_nv fn \<Longrightarrow> class_home r v = Some (Inl x) \<Longrightarrow> x \<in> set (rc_regs cls)"
    "v < fn_nv fn \<Longrightarrow> r = Some ra \<Longrightarrow> class_home r v = Some (Inr x) \<Longrightarrow> 0 \<le> x \<and> x < ra_num_spill_slots ra"
    "in_block fn b k \<Longrightarrow> fn_clash fn b k u v \<Longrightarrow> u < fn_nv fn \<Longrightarrow> v < fn_nv fn \<Longrightarrow> class_home r u \<noteq> None \<Longrightarrow>
        class_home r u \<noteq> class_home r v"
    "in_block fn b k \<Longrightarrow> crosses (fn_insts fn ! k) v \<Longrightarrow> fn_live fn b (Suc k) v \<Longrightarrow> v < fn_nv fn \<Longrightarrow>
        class_home r v = Some (Inl x) \<Longrightarrow> \<not> caller_reg cls x"
  using assms unfolding alloc_ok_def by blast+

lemma forbids_doneD:
  assumes "forbids_done fn fc cls b s m" "s \<le> k" "k < blk_end (cfg_blocks (cfg_build (fn_insts fn)) ! b)"
    "crosses (fn_insts fn ! k) v" "fn_live fn b (Suc k) v" "in_cls fn fc cls v" "v < length m" "bit (rc_caller_saved cls) c"
  shows "bit (m ! v) c"
  using assms(1)[unfolded forbids_done_def] assms(2-) by blast

lemma alloc_none_ok: "(\<And>v. v < fn_nv fn \<Longrightarrow> \<not> in_cls fn fc cls v) \<Longrightarrow> alloc_ok fn fc cls None"
  by (simp add: alloc_ok_def class_home_def)

lemma alloc_some_ok:
  assumes I: "interf_ok fn fc cls ig masks" and co: "color_ok ig masks (rc_nregs cls) {..<fn_nv fn} co"
    and cls: "reg_class_ok cls"
    and ra: "ra_reg ra = map (native_reg fn fc cls (co_colors co)) [0..<fn_nv fn]" "ra_spill_slot ra = co_slots co"
      "ra_num_spill_slots ra = co_next co"
  shows "alloc_ok fn fc cls (Some ra)"
proof -
  let ?n = "fn_nv fn" and ?h = "class_home (Some ra)"
  have ig: "ig_ok ?n ig" and ml: "length masks = ?n" using I by (simp_all add: interf_ok_def)
  have len: "length ig = ?n" using ig_okD(1)[OF ig] .
  note D = color_okD[OF co, unfolded len]
  have rl: "length (rc_regs cls) = rc_nregs cls" "distinct (rc_regs cls)" "\<And>r. r \<in> set (rc_regs cls) \<Longrightarrow> 0 \<le> r"
    using cls by (auto simp: reg_class_ok_def)
  have reg0: "0 \<le> rc_regs cls ! c" if "c < rc_nregs cls" for c using rl(1,3) that by simp
  have cases: "co_colors co ! v = -2 \<or> (has_color (int (rc_nregs cls)) (co_colors co ! v) \<and>
      \<not> bit (masks ! v) (nat (co_colors co ! v)))" if "v < ?n" for v using D(5)[OF that] that by simp
  have col: "nat (co_colors co ! v) < rc_nregs cls" if "has_color (int (rc_nregs cls)) (co_colors co ! v)" for v
    using that by (auto simp: has_color_def)
  have h: "?h v = (if \<not> in_cls fn fc cls v then None
      else if co_colors co ! v = -2 then Some (Inr (co_slots co ! v))
      else Some (Inl (rc_regs cls ! nat (co_colors co ! v))))" if v: "v < ?n" for v
    using cases[OF v] v reg0[OF col[of v]]
    by (auto simp: class_home_def ra native_reg_def REG_NONE_def has_color_def)
  have sep: "?h u \<noteq> ?h v" if b: "in_block fn b k" and c: "fn_clash fn b k u v" and uv: "u < ?n" "v < ?n" and s: "?h u \<noteq> None" for b k u v
  proof (cases "in_cls fn fc cls v")
    case False
    then show ?thesis using s h[OF uv(2)] by simp
  next
    case True
    have uc: "in_cls fn fc cls u" using s h[OF uv(1)] by (auto split: if_splits)
    have e: "(u, v) \<in> ig_edges ig"
      using I b c uc True unfolding interf_ok_def edges_done_def in_block_def by blast
    have ne: "u \<noteq> v" using ig.symm[OF ig e] by blast
    show ?thesis
    proof (cases "co_colors co ! u = -2")
      case True
      then show ?thesis using h[OF uv(1)] h[OF uv(2)] uc \<open>in_cls fn fc cls v\<close> D(8)[OF uv True] ne by auto
    next
      case u2: False
      show ?thesis
      proof (cases "co_colors co ! v = -2")
        case False
        from cases[OF uv(1)] u2 have cu: "has_color (int (rc_nregs cls)) (co_colors co ! u)" by blast
        from cases[OF uv(2)] False have cv: "has_color (int (rc_nregs cls)) (co_colors co ! v)" by blast
        have "co_colors co ! u \<noteq> co_colors co ! v" using D(6)[OF e] cu by (simp add: has_color_def)
        then have "nat (co_colors co ! u) \<noteq> nat (co_colors co ! v)" using cu cv by (auto simp: has_color_def)
        then have "rc_regs cls ! nat (co_colors co ! u) \<noteq> rc_regs cls ! nat (co_colors co ! v)"
          using rl(1,2) col[OF cu] col[OF cv] by (simp add: nth_eq_iff_index_eq)
        then show ?thesis using h[OF uv(1)] h[OF uv(2)] uc True u2 False by simp
      qed (use h[OF uv(1)] h[OF uv(2)] uc True u2 in simp)
    qed
  qed
  have call: "\<not> caller_reg cls x" if b: "in_block fn b k" and c: "crosses (fn_insts fn ! k) v" "fn_live fn b (Suc k) v"
    and v: "v < ?n" and s: "?h v = Some (Inl x)" for b k v x
  proof
    assume "caller_reg cls x"
    then obtain c where cc: "c < rc_nregs cls" "rc_regs cls ! c = x" "bit (rc_caller_saved cls) c"
      by (auto simp: caller_reg_def)
    have vc: "in_cls fn fc cls v" "co_colors co ! v \<noteq> -2" "x = rc_regs cls ! nat (co_colors co ! v)"
      using s h[OF v] by (auto split: if_splits)
    with cases[OF v] have k: "has_color (int (rc_nregs cls)) (co_colors co ! v)" "\<not> bit (masks ! v) (nat (co_colors co ! v))" by auto
    have "nat (co_colors co ! v) = c" using vc(3) cc(1,2) col[OF k(1)] rl(1,2) by (simp add: nth_eq_iff_index_eq)
    moreover have "bit (masks ! v) c"
    proof (rule forbids_doneD)
      show "forbids_done fn fc cls b (blk_start (cfg_blocks (cfg_build (fn_insts fn)) ! b)) masks"
        using I b by (simp add: interf_ok_def in_block_def)
    qed (use b c vc(1) v ml cc(3) in \<open>simp_all add: in_block_def\<close>)
    ultimately show False using k(2) by simp
  qed
  have rng: "x \<in> set (rc_regs cls)" if "v < ?n" "?h v = Some (Inl x)" for v x
    using that h[OF that(1)] cases[OF that(1)] col[of v] rl(1) by (auto split: if_splits)
  have slot: "0 \<le> x \<and> x < ra_num_spill_slots ra" if "v < ?n" "?h v = Some (Inr x)" for v x
    using that h[OF that(1)] D(7)[OF that(1)] ra(3) by (auto split: if_splits)
  have "?h v = None \<longleftrightarrow> \<not> in_cls fn fc cls v" if "v < ?n" for v using h[OF that] by simp
  then show ?thesis unfolding alloc_ok_def using rng slot sep call by blast
qed

lemma compute_liveness_some: "0 < fn_next_value_id fn \<Longrightarrow> \<exists>liv. compute_liveness fn = Some liv"
  by (simp add: compute_liveness_def Let_def)

lemma ra_alloc_class_ok:
  assumes cls: "reg_class_ok cls"
  shows "\<exists>r. ra_alloc_class t fn fc cls = Some r \<and> alloc_ok fn fc cls r \<and>
    (\<forall>ra. r = Some ra \<longrightarrow> ra_stack_size ra = spill_area fc cls (ra_num_spill_slots ra) \<and>
       ra_num_values ra = fn_next_value_id fn)"
proof (cases "fn_next_value_id fn \<le> 0 \<or> \<not> list_ex (in_cls fn fc cls) [0..<fn_nv fn]")
  case True
  then have "ra_alloc_class t fn fc cls = Some None"
    by (auto simp: ra_alloc_class_def fn_nv_def Let_def)
  moreover have "alloc_ok fn fc cls None"
    using True by (intro alloc_none_ok) (auto simp: fn_nv_def list_ex_iff)
  ultimately show ?thesis by simp
next
  case False
  obtain liv where liv: "compute_liveness fn = Some liv" using False compute_liveness_some by force
  obtain ig masks where I: "build_interf_graph_cfg t fn (cfg_build (fn_insts fn)) (fn_nv fn) fc cls = Some (ig, masks)"
    "interf_ok fn fc cls ig masks" using build_interf_ok by blast
  have ig: "ig_ok (fn_nv fn) ig" using I(2) by (simp add: interf_ok_def)
  obtain order where o: "compute_mcs_order ig = Some order" "distinct order" "set order = {..<fn_nv fn}"
    using mcs_order_ok[OF ig] by blast
  have k: "rc_nregs cls \<le> 32" using cls by (simp add: reg_class_ok_def)
  obtain co where co: "greedy_color ig order liv (cfg_build (fn_insts fn)) masks cls fn = Some co"
    "color_ok ig masks (rc_nregs cls) {..<fn_nv fn} co" using greedy_color_ok[OF ig o(2,3) k] by blast
  define ra where "ra = \<lparr>ra_reg = map (native_reg fn fc cls (co_colors co)) [0..<fn_nv fn], ra_spill_slot = co_slots co,
    ra_num_spill_slots = co_next co, ra_num_values = fn_next_value_id fn, ra_stack_size = spill_area fc cls (co_next co)\<rparr>"
  have "ra_alloc_class t fn fc cls = Some (Some ra)"
    using False liv I(1) o(1) co(1) by (simp add: ra_alloc_class_def fn_nv_def Let_def coalesce_copies_def ra_def)
  moreover have "alloc_ok fn fc cls (Some ra)"
    by (rule alloc_some_ok[OF I(2) co(2) cls]) (simp_all add: ra_def)
  ultimately show ?thesis by (simp add: ra_def)
qed

section \<open>Homes\<close>

text \<open>
  Where a value lives: a register or a spill slot of its class, or, when it is in neither class (an
  x87 long double), a stack slot of its own.
\<close>

datatype home = GpReg int | GpSlot int | SimdReg int | SimdSlot int | Own nat

definition home_of :: "ra_result option \<Rightarrow> ra_result option \<Rightarrow> nat \<Rightarrow> home" where
  "home_of gp xm v =
     (case class_home gp v of
        Some (Inl r) \<Rightarrow> GpReg r
      | Some (Inr s) \<Rightarrow> GpSlot s
      | None \<Rightarrow> (case class_home xm v of Some (Inl r) \<Rightarrow> SimdReg r | Some (Inr s) \<Rightarrow> SimdSlot s | None \<Rightarrow> Own v))"

text \<open>What a call leaves alone.\<close>

fun call_keeps :: "ra_target \<Rightarrow> home \<Rightarrow> bool" where
  "call_keeps t (GpReg r) = (\<not> caller_reg (rc_gp (ra_classes_current t)) r)"
| "call_keeps t (SimdReg r) = (\<not> caller_reg (rc_simd (ra_classes_current t)) r)"
| "call_keeps t (GpSlot s) = True"
| "call_keeps t (SimdSlot s) = True"
| "call_keeps t (Own v) = True"

definition homes_ok :: "ra_target \<Rightarrow> ir_function \<Rightarrow> (nat \<Rightarrow> home) \<Rightarrow> bool" where
  "homes_ok t fn h \<longleftrightarrow>
     (\<forall>b k u v. in_block fn b k \<and> fn_clash fn b k u v \<and> u < fn_nv fn \<and> v < fn_nv fn \<longrightarrow> h u \<noteq> h v) \<and>
     (\<forall>b k v. in_block fn b k \<and> crosses (fn_insts fn ! k) v \<and> fn_live fn b (Suc k) v \<and> v < fn_nv fn \<longrightarrow>
        call_keeps t (h v))"

lemma homes_okD:
  assumes "homes_ok t fn h" "in_block fn b k"
  shows "fn_clash fn b k u v \<Longrightarrow> u < fn_nv fn \<Longrightarrow> v < fn_nv fn \<Longrightarrow> h u \<noteq> h v"
    "crosses (fn_insts fn ! k) v \<Longrightarrow> fn_live fn b (Suc k) v \<Longrightarrow> v < fn_nv fn \<Longrightarrow> call_keeps t (h v)"
  using assms unfolding homes_ok_def by blast+

lemma alloc_homes_ok:
  assumes gp: "alloc_ok fn False (rc_gp (ra_classes_current t)) gp" and xm: "alloc_ok fn True (rc_simd (ra_classes_current t)) xm"
  shows "homes_ok t fn (home_of gp xm)"
proof -
  have "home_of gp xm u \<noteq> home_of gp xm v"
    if b: "in_block fn b k" and c: "fn_clash fn b k u v" and uv: "u < fn_nv fn" "v < fn_nv fn" for b k u v
  proof -
    have ne: "u \<noteq> v" using c by (simp add: fn_clash_def clash_def)
    note G = alloc_okD(4)[OF gp b c uv] and X = alloc_okD(4)[OF xm b c uv]
    show ?thesis
    proof (cases "class_home gp u")
      case (Some a)
      with G show ?thesis by (auto simp: home_of_def split: option.splits sum.splits)
    next
      case None
      with X ne show ?thesis by (cases "class_home xm u") (auto simp: home_of_def split: option.splits sum.splits)
    qed
  qed
  moreover have "call_keeps t (home_of gp xm v)"
    if b: "in_block fn b k" and c: "crosses (fn_insts fn ! k) v" "fn_live fn b (Suc k) v" "v < fn_nv fn" for b k v
    using alloc_okD(5)[OF gp b c] alloc_okD(5)[OF xm b c] by (auto simp: home_of_def split: option.splits sum.splits)
  ultimately show ?thesis unfolding homes_ok_def by blast
qed

text \<open>
  What that means by the table of operands: values that conflict have different homes, and a value that
  has to survive a call or inline assembly is in a home the call leaves alone.
\<close>

definition homes_sound :: "ra_target \<Rightarrow> ir_function \<Rightarrow> (nat \<Rightarrow> home) \<Rightarrow> bool" where
  "homes_sound t fn h \<longleftrightarrow>
     (\<forall>u v. plain_value fn u \<and> plain_value fn v \<and> ir_conflict fn (int u) (int v) \<longrightarrow> h u \<noteq> h v) \<and>
     (\<forall>b k v. in_block fn b k \<and> plain_value fn v \<and> ir_crosses fn b k (int v) \<longrightarrow> call_keeps t (h v))"

lemma homes_ok_sound:
  assumes "homes_ok t fn h" "ir_code_wf fn"
  shows "homes_sound t fn h"
proof -
  have "h u \<noteq> h v" if "plain_value fn u" "plain_value fn v" and c: "ir_conflict fn (int u) (int v)" for u v
    using conflict_clash[OF assms(2) that] homes_okD(1)[OF assms(1)] that(1,2)
    unfolding plain_value_def fn_nv_def by metis
  moreover have "call_keeps t (h v)" if "in_block fn b k" "plain_value fn v" "ir_crosses fn b k (int v)" for b k v
    using crosses_table[OF assms(2) that(2,1,3)] homes_okD(2)[OF assms(1) that(1)] that(2)
    unfolding plain_value_def fn_nv_def by blast
  ultimately show ?thesis unfolding homes_sound_def by blast
qed

section \<open>The two machines\<close>

text \<open>
  The meaning of an instruction is the parameter of theory \<open>InstSem\<close>; it sees the values the
  instruction reads by the table of operands, with those folded into its address, and its results are
  the values of the table.  A configuration is block, position, chosen successor, store and memory.
\<close>

definition fn_uses :: "ir_function \<Rightarrow> nat \<Rightarrow> nat list" where
  "fn_uses fn k = in_range (fn_nv fn) (reads_at fn k)"

definition fn_defs :: "ir_function \<Rightarrow> nat \<Rightarrow> nat list" where
  "fn_defs fn k = in_range (fn_nv fn) (results_at fn k)"

text \<open>No call is indirect.\<close>

definition direct_calls :: "ir_function \<Rightarrow> bool" where
  "direct_calls fn \<longleftrightarrow> list_all (\<lambda>x. i_op x = IR_CALL \<longrightarrow> i_call_callee x < 0) (fn_insts fn)"

lemma direct_no_callee: "direct_calls fn \<Longrightarrow> no_callee fn (int v)"
  by (fastforce simp: direct_calls_def no_callee_def list_all_iff)

lemma in_block_less: "in_block fn b k \<Longrightarrow> k < length (fn_insts fn)"
  unfolding in_block_def using block_inst_less by blast

lemma fn_uses_code:
  assumes "ir_code_wf fn" "direct_calls fn" "in_block fn b k"
  shows "fn_uses fn k = inst_uses (fn_nv fn) fn (ra_build_defs fn) (fn_insts fn ! k)"
    and "fn_defs fn k = inst_defs (fn_nv fn) (fn_insts fn ! k)"
proof -
  note k = in_block_less[OF assms(3)]
  note x = ir_code_wfD[OF assms(1) k]
  have "i_op (fn_insts fn ! k) = IR_CALL \<Longrightarrow> i_call_callee (fn_insts fn ! k) < 0"
    using assms(2) k by (simp add: direct_calls_def list_all_length)
  then show "fn_uses fn k = inst_uses (fn_nv fn) fn (ra_build_defs fn) (fn_insts fn ! k)"
    unfolding fn_uses_def reads_at_def by (simp only: inst_uses_table[OF x])
  show "fn_defs fn k = inst_defs (fn_nv fn) (fn_insts fn ! k)"
    unfolding fn_defs_def results_at_def by (simp only: inst_defs_table[OF x])
qed

lemma direct_live:
  "ir_code_wf fn \<Longrightarrow> direct_calls fn \<Longrightarrow> b < cfg_num (cfg_build (fn_insts fn)) \<Longrightarrow> v < fn_nv fn \<Longrightarrow>
     fn_live fn b k v \<longleftrightarrow> ir_live fn b k (int v)"
  unfolding fn_nv_def using ir_live_eq direct_no_callee by blast

inductive val_step :: "('a, 'm) inst_sem \<Rightarrow> ir_function \<Rightarrow> nat \<times> nat \<times> nat \<times> (nat \<Rightarrow> 'a) \<times> 'm \<Rightarrow>
    nat \<times> nat \<times> nat \<times> (nat \<Rightarrow> 'a) \<times> 'm \<Rightarrow> bool" for F fn where
  val_inst: "in_block fn b k \<Longrightarrow> F (fn_insts fn ! k) m (map env (fn_uses fn k)) = (m', r, sel') \<Longrightarrow>
    val_step F fn (b, k, sel, env, m) (b, Suc k, sel', write_all (results (fn_defs fn k) r) env, m')"
| val_edge: "k = blk_end (cfg_blocks (cfg_build (fn_insts fn)) ! b) \<Longrightarrow> b < cfg_num (cfg_build (fn_insts fn)) \<Longrightarrow>
    sel < length (succs_of (cfg_build (fn_insts fn)) b) \<Longrightarrow> s = succs_of (cfg_build (fn_insts fn)) b ! sel \<Longrightarrow>
    val_step F fn (b, k, sel, env, m) (s, blk_start (cfg_blocks (cfg_build (fn_insts fn)) ! s), 0, env, m)"

text \<open>
  The machine reads and writes homes.  A call first leaves arbitrary values in the caller-saved
  registers; results are written one after the other.
\<close>

inductive mach_step :: "('a, 'm) inst_sem \<Rightarrow> ra_target \<Rightarrow> (nat \<Rightarrow> home) \<Rightarrow> ir_function \<Rightarrow>
    nat \<times> nat \<times> nat \<times> (home \<Rightarrow> 'a) \<times> 'm \<Rightarrow> nat \<times> nat \<times> nat \<times> (home \<Rightarrow> 'a) \<times> 'm \<Rightarrow> bool" for F t h fn where
  mach_inst: "in_block fn b k \<Longrightarrow> F (fn_insts fn ! k) m (map (\<lambda>v. st (h v)) (fn_uses fn k)) = (m', r, sel') \<Longrightarrow>
    (\<And>l. i_op (fn_insts fn ! k) \<noteq> IR_CALL \<or> call_keeps t l \<Longrightarrow> st1 l = st l) \<Longrightarrow>
    mach_step F t h fn (b, k, sel, st, m) (b, Suc k, sel', write_all (results (map h (fn_defs fn k)) r) st1, m')"
| mach_edge: "k = blk_end (cfg_blocks (cfg_build (fn_insts fn)) ! b) \<Longrightarrow> b < cfg_num (cfg_build (fn_insts fn)) \<Longrightarrow>
    sel < length (succs_of (cfg_build (fn_insts fn)) b) \<Longrightarrow> s = succs_of (cfg_build (fn_insts fn)) b ! sel \<Longrightarrow>
    mach_step F t h fn (b, k, sel, st, m) (s, blk_start (cfg_blocks (cfg_build (fn_insts fn)) ! s), 0, st, m)"

inductive_cases mach_stepE: "mach_step F t h fn c c'"

text \<open>The further results of a call must not be dead (see the clash relation).\<close>

definition call_results_live :: "ir_function \<Rightarrow> bool" where
  "call_results_live fn \<longleftrightarrow>
     (\<forall>b k u. in_block fn b k \<and> i_op (fn_insts fn ! k) = IR_CALL \<and> u \<in> set (fn_defs fn k) \<longrightarrow>
        ir_live fn b (Suc k) (int u) \<or> int u = i_dst (fn_insts fn ! k))"

text \<open>The code a refinement is claimed for.\<close>

definition refinable :: "ir_function \<Rightarrow> bool" where
  "refinable fn \<longleftrightarrow> ir_code_wf fn \<and> direct_calls fn \<and> call_results_live fn"

lemma refinableD: "refinable fn \<Longrightarrow> ir_code_wf fn" "refinable fn \<Longrightarrow> direct_calls fn" "refinable fn \<Longrightarrow> call_results_live fn"
  by (simp_all add: refinable_def)

definition agree :: "ir_function \<Rightarrow> (nat \<Rightarrow> home) \<Rightarrow> nat \<Rightarrow> nat \<Rightarrow> (home \<Rightarrow> 'a) \<Rightarrow> (nat \<Rightarrow> 'a) \<Rightarrow> bool" where
  "agree fn h b k st env \<longleftrightarrow> (\<forall>v. fn_live fn b k v \<longrightarrow> st (h v) = env v)"

section \<open>The simulation\<close>

text \<open>Writing through \<open>h\<close> is writing, where \<open>h\<close> separates the ids written from the id read.\<close>

lemma write_all_home:
  assumes "\<And>u. u \<in> set ds \<Longrightarrow> u \<noteq> v \<Longrightarrow> h u \<noteq> h v" "st (h v) = env v \<or> v \<in> fst ` set (zip ds rs)"
  shows "write_all (zip (map h ds) rs) st (h v) = write_all (zip ds rs) env v"
  using assms
proof (induction ds arbitrary: rs st env)
  case (Cons d ds)
  show ?case
  proof (cases rs)
    case Nil
    with Cons.prems show ?thesis by (simp add: write_all_def)
  next
    case (Cons x xs)
    let ?st = "st(h d := x)" and ?env = "env(d := x)"
    have "?st (h v) = ?env v \<or> v \<in> fst ` set (zip ds xs)"
      using Cons.prems(1)[of d] Cons.prems(2) \<open>rs = x # xs\<close> by auto
    then have "write_all (zip (map h ds) xs) ?st (h v) = write_all (zip ds xs) ?env v"
      using Cons.prems(1) by (intro Cons.IH) simp_all
    then show ?thesis using \<open>rs = x # xs\<close> by (simp add: write_all_def)
  qed
qed (simp add: write_all_def)

lemma fn_live_less: "fn_live fn b k v \<Longrightarrow> v < fn_nv fn"
  unfolding fn_live_def fn_nv_def by (induction rule: live_from.induct) (auto dest: inst_less)

lemma agree_inst:
  assumes h: "homes_ok t fn h" and cl: "refinable fn" and b: "in_block fn b k"
    and a: "agree fn h b k st env" and keep: "\<And>l. i_op (fn_insts fn ! k) \<noteq> IR_CALL \<or> call_keeps t l \<Longrightarrow> st1 l = st l"
  shows "map (\<lambda>v. st (h v)) (fn_uses fn k) = map env (fn_uses fn k)"
    "agree fn h b (Suc k) (write_all (results (map h (fn_defs fn k)) r) st1) (write_all (results (fn_defs fn k) r) env)"
proof -
  have k: "k < blk_end (cfg_blocks (cfg_build (fn_insts fn)) ! b)" using b by (simp add: in_block_def)
  note live = fn_live_step[OF k, folded fn_nv_def, folded fn_uses_code[OF refinableD(1,2)[OF cl] b]]
  have bn: "b < cfg_num (cfg_build (fn_insts fn))" using b by (simp add: in_block_def)
  note FD = fn_uses_code(2)[OF refinableD(1,2)[OF cl] b]
  show "map (\<lambda>v. st (h v)) (fn_uses fn k) = map env (fn_uses fn k)"
    using a live by (auto simp: agree_def)
  let ?rs = "map r [0..<length (fn_defs fn k)]"
  have "write_all (zip (map h (fn_defs fn k)) ?rs) st1 (h v) = write_all (zip (fn_defs fn k) ?rs) env v"
    if v: "fn_live fn b (Suc k) v" for v
  proof (rule write_all_home)
    have vn: "v < fn_nv fn" using v by (rule fn_live_less)
    fix u assume u: "u \<in> set (fn_defs fn k)" "u \<noteq> v"
    then have un: "u < fn_nv fn" unfolding FD by (auto dest: inst_less)
    have "fn_live fn b (Suc k) u \<or> int u = i_dst (fn_insts fn ! k)" if "i_op (fn_insts fn ! k) = IR_CALL"
      using refinableD(3)[OF cl] b u that direct_live[OF refinableD(1,2)[OF cl] bn un] unfolding call_results_live_def by blast
    then have "fn_clash fn b k u v"
      using u v unfolding fn_clash_def clash_def fn_nv_def[symmetric] FD by auto
    then show "h u \<noteq> h v" using homes_okD(1)[OF h b] un vn by blast
  next
    have vn: "v < fn_nv fn" using v by (rule fn_live_less)
    show "st1 (h v) = env v \<or> v \<in> fst ` set (zip (fn_defs fn k) ?rs)"
    proof (cases "v \<in> set (fn_defs fn k)")
      case True
      then show ?thesis unfolding set_map[symmetric] by simp
    next
      case False
      then have "fn_live fn b k v" using v live by blast
      then have e: "st (h v) = env v" using a by (simp add: agree_def)
      have "i_op (fn_insts fn ! k) \<noteq> IR_CALL \<or> call_keeps t (h v)"
      proof (cases "i_op (fn_insts fn ! k) = IR_CALL")
        case True
        then have "int v \<notin> set (dst_def (fn_insts fn ! k) @ extra_defs (fn_insts fn ! k))"
          using False vn by (auto simp: FD inst_defs_def in_range_set ra_skips_def)
        then have "crosses (fn_insts fn ! k) v"
          using True by (auto simp: crosses_def dst_def_def extra_defs_def ir_op_vec_store_def)
        then show ?thesis using homes_okD(2)[OF h b _ v vn] by blast
      qed simp
      with keep e show ?thesis by simp
    qed
  qed
  then show "agree fn h b (Suc k) (write_all (results (map h (fn_defs fn k)) r) st1) (write_all (results (fn_defs fn k) r) env)"
    by (simp add: agree_def results_def)
qed

lemma agree_edge:
  assumes "agree fn h b k st env" "k = blk_end (cfg_blocks (cfg_build (fn_insts fn)) ! b)"
    "s \<in> set (succs_of (cfg_build (fn_insts fn)) b)"
  shows "agree fn h s (blk_start (cfg_blocks (cfg_build (fn_insts fn)) ! s)) st env"
  unfolding agree_def
proof (intro allI impI)
  fix v assume v: "fn_live fn s (blk_start (cfg_blocks (cfg_build (fn_insts fn)) ! s)) v"
  have "fn_live fn b k v"
    unfolding fn_live_def by (rule live_edge[OF _ assms(3)]) (use assms(2) v in \<open>simp_all add: fn_live_def\<close>)
  with assms(1) show "st (h v) = env v" by (simp add: agree_def)
qed

lemma mach_step_sim:
  assumes "homes_ok t fn h" "refinable fn"
  shows "mach_step F t h fn c c' \<Longrightarrow> c = (b, k, sel, st, m) \<Longrightarrow> c' = (b', k', sel', st', m') \<Longrightarrow>
    agree fn h b k st env \<Longrightarrow>
    \<exists>env'. val_step F fn (b, k, sel, env, m) (b', k', sel', env', m') \<and> agree fn h b' k' st' env'"
proof (induction rule: mach_step.induct)
  case (mach_inst b1 k1 m1 st1 m2 r sel2 st2 sel1)
  then have eq: "b1 = b" "k1 = k" "m1 = m" "st1 = st" "m2 = m'" "sel2 = sel'" "sel1 = sel" "b' = b" "k' = Suc k"
    "st' = write_all (results (map h (fn_defs fn k)) r) st2" by simp_all
  note b = mach_inst(1)[unfolded eq]
  have A: "map (\<lambda>v. st (h v)) (fn_uses fn k) = map env (fn_uses fn k)"
    "agree fn h b (Suc k) (write_all (results (map h (fn_defs fn k)) r) st2) (write_all (results (fn_defs fn k) r) env)"
    by (rule agree_inst[OF assms b mach_inst(6) refl], rule agree_inst[OF assms b mach_inst(6)])
      (use mach_inst(3) eq in blast)
  have "val_step F fn (b, k, sel, env, m) (b, Suc k, sel', write_all (results (fn_defs fn k) r) env, m')"
    by (rule val_inst[OF mach_inst(1)[unfolded eq]]) (rule mach_inst(2)[unfolded eq A(1)])
  with A(2) eq show ?case by blast
next
  case (mach_edge k1 b1 sel1 s st1 m1)
  then have eq: "b1 = b" "k1 = k" "m1 = m" "st1 = st" "m' = m" "sel1 = sel" "b' = s" "sel' = 0" "st' = st"
    "k' = blk_start (cfg_blocks (cfg_build (fn_insts fn)) ! s)" by auto
  have "s \<in> set (succs_of (cfg_build (fn_insts fn)) b)" using mach_edge(3,4) eq by simp
  from agree_edge[OF mach_edge(7) _ this] mach_edge(1) eq
  have "agree fn h s (blk_start (cfg_blocks (cfg_build (fn_insts fn)) ! s)) st env" by simp
  moreover have "val_step F fn (b, k, sel, env, m) (s, blk_start (cfg_blocks (cfg_build (fn_insts fn)) ! s), 0, env, m)"
    by (rule val_edge) (use mach_edge(1-4) eq in simp_all)
  ultimately show ?case using eq by blast
qed

lemma mach_run_sim:
  assumes "homes_ok t fn h" "refinable fn" "agree fn h b k st env"
  shows "(mach_step F t h fn)\<^sup>*\<^sup>* (b, k, sel, st, m) c' \<Longrightarrow>
    \<exists>b' k' sel' st' m' env'. c' = (b', k', sel', st', m') \<and>
      (val_step F fn)\<^sup>*\<^sup>* (b, k, sel, env, m) (b', k', sel', env', m') \<and> agree fn h b' k' st' env'"
proof (induction rule: rtranclp_induct)
  case base
  with assms(3) show ?case by blast
next
  case (step y z)
  then obtain b1 k1 sel1 st1 m1 env1 where y: "y = (b1, k1, sel1, st1, m1)"
    "(val_step F fn)\<^sup>*\<^sup>* (b, k, sel, env, m) (b1, k1, sel1, env1, m1)" "agree fn h b1 k1 st1 env1" by blast
  obtain b' k' sel' st' m' where z: "z = (b', k', sel', st', m')" by (metis prod_cases5)
  from mach_step_sim[OF assms(1,2) step(2) y(1) z y(3)] obtain env' where
    "val_step F fn (b1, k1, sel1, env1, m1) (b', k', sel', env', m')" "agree fn h b' k' st' env'" by blast
  moreover from this(1) y(2) have "(val_step F fn)\<^sup>*\<^sup>* (b, k, sel, env, m) (b', k', sel', env', m')" by simp
  ultimately show ?case using z by blast
qed

lemma mach_run_block:
  "(mach_step F t h fn)\<^sup>*\<^sup>* c c' \<Longrightarrow> fst c < cfg_num (cfg_build (fn_insts fn)) \<Longrightarrow> fst c' < cfg_num (cfg_build (fn_insts fn))"
proof (induction rule: rtranclp_induct)
  case (step y z)
  from step(2) step.IH[OF step.prems] show ?case
    by (cases rule: mach_step.cases) (auto simp: in_block_def dest: built.succ_block nth_mem)
qed

section \<open>The properties\<close>

lemma both_allocs_ok:
  "\<exists>gp xm. reg_alloc t fn = Some gp \<and> reg_alloc_xmm t fn = Some xm \<and>
     alloc_ok fn False (rc_gp (ra_classes_current t)) gp \<and> alloc_ok fn True (rc_simd (ra_classes_current t)) xm"
  using ra_alloc_class_ok[OF reg_classes_ok(1), of t fn False t] ra_alloc_class_ok[OF reg_classes_ok(2), of t fn True t]
  unfolding reg_alloc_def reg_alloc_xmm_def by blast

text \<open>
  C17.  Both allocations return for every function on every target, and for well-formed code they are
  sound by the table of operands.  Values that conflict (one a result where the other is a result or
  live, or both live at a point on a path from the entry; see \<open>ir_conflict\<close> for the one exception, a
  call's first result and a further result of which one is dead) never share a register or a slot, and
  a value live across a call or inline assembly is in a register that the call preserves or in memory.
  Both hold for values other than the callees of indirect calls, which the allocator does not count as
  used.  Registers come from the class of the value.
\<close>

theorem reg_alloc_sound:
  "\<exists>gp xm. reg_alloc t fn = Some gp \<and> reg_alloc_xmm t fn = Some xm \<and>
     (ir_code_wf fn \<longrightarrow>
       (\<forall>u v. plain_value fn u \<and> plain_value fn v \<and> ir_conflict fn (int u) (int v) \<longrightarrow>
          home_of gp xm u \<noteq> home_of gp xm v) \<and>
       (\<forall>b k v. in_block fn b k \<and> plain_value fn v \<and> ir_crosses fn b k (int v) \<longrightarrow> call_keeps t (home_of gp xm v))) \<and>
     (\<forall>v<nat (fn_next_value_id fn). \<forall>r.
        (home_of gp xm v = GpReg r \<longrightarrow> r \<in> set (rc_regs (rc_gp (ra_classes_current t))) \<and> value_is_float_class fn (int v) = 0) \<and>
        (home_of gp xm v = SimdReg r \<longrightarrow> r \<in> set (rc_regs (rc_simd (ra_classes_current t))) \<and> value_is_float_class fn (int v) \<noteq> 0))"
proof -
  obtain gp xm where A: "reg_alloc t fn = Some gp" "reg_alloc_xmm t fn = Some xm"
    and gp: "alloc_ok fn False (rc_gp (ra_classes_current t)) gp" and xm: "alloc_ok fn True (rc_simd (ra_classes_current t)) xm"
    using both_allocs_ok by blast
  note H = homes_ok_sound[OF alloc_homes_ok[OF gp xm], unfolded homes_sound_def]
  have "(home_of gp xm v = GpReg r \<longrightarrow> r \<in> set (rc_regs (rc_gp (ra_classes_current t))) \<and> value_is_float_class fn (int v) = 0) \<and>
      (home_of gp xm v = SimdReg r \<longrightarrow> r \<in> set (rc_regs (rc_simd (ra_classes_current t))) \<and> value_is_float_class fn (int v) \<noteq> 0)"
    if v: "v < fn_nv fn" for v r
  proof (intro conjI impI)
    assume "home_of gp xm v = GpReg r"
    then have h: "class_home gp v = Some (Inl r)" by (auto simp: home_of_def split: option.splits sum.splits)
    then show "r \<in> set (rc_regs (rc_gp (ra_classes_current t)))" using alloc_okD(2)[OF gp v] by blast
    show "value_is_float_class fn (int v) = 0"
      using alloc_okD(1)[OF gp v] h by (simp add: in_cls_def value_in_class_def)
  next
    assume "home_of gp xm v = SimdReg r"
    then have h: "class_home xm v = Some (Inl r)" by (auto simp: home_of_def split: option.splits sum.splits)
    then show "r \<in> set (rc_regs (rc_simd (ra_classes_current t)))" using alloc_okD(2)[OF xm v] by blast
    show "value_is_float_class fn (int v) \<noteq> 0"
      using alloc_okD(1)[OF xm v] h by (simp add: in_cls_def value_in_class_def)
  qed
  with A H show ?thesis
    unfolding fn_nv_def by (intro exI[of _ gp] exI[of _ xm]) blast
qed

text \<open>The example of the graph theory: value 0 crosses the call and gets \<open>rbx\<close>.\<close>

lemma call_fn_crosses: "ir_crosses call_fn 0 1 (int 0)"
  using call_fn_live(2) unfolding ir_crosses_def call_fn_tables by simp

lemma call_fn_alloc:
  "reg_alloc linux_target call_fn = Some (Some \<lparr>ra_reg = [3, 6, 6], ra_spill_slot = [0, 0, 0],
     ra_num_spill_slots = 0, ra_num_values = 3, ra_stack_size = 0\<rparr>)"
  "reg_alloc_xmm linux_target call_fn = Some None"
  by code_simp+

lemma call_fn_block: "in_block call_fn b k \<longleftrightarrow> b = 0 \<and> k < 4"
  using call_fn_facts by (auto simp: in_block_def)

theorem reg_alloc_witness:
  "ra_reg (the (the (reg_alloc linux_target call_fn))) = [3, 6, 6] \<and>
   call_keeps linux_target (home_of (the (reg_alloc linux_target call_fn)) None 0)"
proof -
  obtain gp xm where a: "reg_alloc linux_target call_fn = Some gp" "reg_alloc_xmm linux_target call_fn = Some xm"
    and k: "ir_code_wf call_fn \<longrightarrow> (\<forall>u v. plain_value call_fn u \<and> plain_value call_fn v \<and> ir_conflict call_fn (int u) (int v) \<longrightarrow>
          home_of gp xm u \<noteq> home_of gp xm v) \<and>
       (\<forall>b k v. in_block call_fn b k \<and> plain_value call_fn v \<and> ir_crosses call_fn b k (int v) \<longrightarrow>
          call_keeps linux_target (home_of gp xm v))"
    using reg_alloc_sound[of linux_target call_fn] by (elim exE conjE) (rule that)
  have "xm = None" using a(2) call_fn_alloc by simp
  moreover have "in_block call_fn 0 1" unfolding call_fn_block by simp
  then have "call_keeps linux_target (home_of gp xm 0)"
    using k call_fn_tables(1,2) call_fn_crosses by blast
  moreover have "gp = Some \<lparr>ra_reg = [3, 6, 6], ra_spill_slot = [0, 0, 0], ra_num_spill_slots = 0, ra_num_values = 3,
      ra_stack_size = 0\<rparr>" using a(1) call_fn_alloc(1) by simp
  ultimately show ?thesis unfolding call_fn_alloc(1) by simp
qed

text \<open>
  What the allocator does to the callee of an indirect call: value 0, read by the call, is still live
  where value 1 is defined, and both get register 0.
\<close>

definition callee_clash_fn :: ir_function where
  "callee_clash_fn = call_fn\<lparr>fn_insts :=
     [mk_inst IR_FADDR 0 (-1) (-1) 8 0, mk_inst IR_CONST 1 (-1) (-1) 4 5,
      (mk_inst IR_CALL 2 (-1) (-1) 4 0)\<lparr>i_call_args := [1], i_call_callee := 0\<rparr>, mk_inst IR_RETURN (-1) 2 (-1) 4 0]\<rparr>"

lemma callee_clash_alloc:
  "ir_code_wf callee_clash_fn \<and> ir_conflict callee_clash_fn 1 0 \<and>
   map_option (map_option ra_reg) (reg_alloc linux_target callee_clash_fn) = Some (Some [6, 6, 6])"
proof (intro conjI)
  show "ir_code_wf callee_clash_fn"
    "map_option (map_option ra_reg) (reg_alloc linux_target callee_clash_fn) = Some (Some [6, 6, 6])" by code_simp+
  have c: "cfg_num (cfg_build (fn_insts callee_clash_fn)) = 1"
    "blk_start (cfg_blocks (cfg_build (fn_insts callee_clash_fn)) ! 0) = 0"
    "blk_end (cfg_blocks (cfg_build (fn_insts callee_clash_fn)) ! 0) = 4" "1 \<in> set (results_at callee_clash_fn 1)"
    "i_op (fn_insts callee_clash_fn ! 1) = IR_CONST" "0 \<in> set (reads_at callee_clash_fn 2)" by code_simp+
  have "ir_live callee_clash_fn 0 2 0" by (rule live_read) (simp_all add: c)
  then have "ir_clash callee_clash_fn 0 1 1 0" using c(4,5) unfolding ir_clash_def by (simp add: numeral_2_eq_2)
  moreover have "in_block callee_clash_fn 0 1" unfolding in_block_def c by simp
  ultimately show "ir_conflict callee_clash_fn 1 0" unfolding ir_conflict_def by auto
qed

text \<open>
  C18.  Register allocation is a refinement.  Whatever the instructions compute from the values they read
  (by the table of operands and the folded addresses), a run from the entry of a function on homes, where
  a call leaves arbitrary values in the caller-saved registers, is also a run of the function on its
  values: the same path, the same memory, and every live value in its home.  The function's code is
  well-formed, its calls are direct (the allocator does not count the callee of an indirect call as
  used), the further results of a call are live after it, and nothing is live at the entry.
\<close>

theorem reg_alloc_refines:
  assumes "reg_alloc t fn = Some gp" "reg_alloc_xmm t fn = Some xm"
    and "ir_code_wf fn" "direct_calls fn" "call_results_live fn" and "\<forall>v<nat (fn_next_value_id fn). \<not> ir_live fn 0 0 (int v)"
    and "(mach_step F t (home_of gp xm) fn)\<^sup>*\<^sup>* (0, 0, 0, st, m) (b, k, sel, st', m')"
  shows "\<exists>env'. (val_step F fn)\<^sup>*\<^sup>* (0, 0, 0, env, m) (b, k, sel, env', m') \<and>
    (\<forall>v<nat (fn_next_value_id fn). ir_live fn b k (int v) \<longrightarrow> st' (home_of gp xm v) = env' v)"
proof -
  have "alloc_ok fn False (rc_gp (ra_classes_current t)) gp" "alloc_ok fn True (rc_simd (ra_classes_current t)) xm"
    using both_allocs_ok[of t fn] assms(1,2) by auto
  then have h: "homes_ok t fn (home_of gp xm)" by (rule alloc_homes_ok)
  have r: "refinable fn" using assms(3-5) by (simp add: refinable_def)
  have b0: "0 < cfg_num (cfg_build (fn_insts fn))" using reach_block[OF reach_entry] .
  have bn: "b < cfg_num (cfg_build (fn_insts fn))" using mach_run_block[OF assms(7)] b0 by simp
  note L = direct_live[OF assms(3,4)]
  have "agree fn (home_of gp xm) 0 0 st env"
    using assms(6) L[OF b0] fn_live_less[of fn 0 0] unfolding agree_def fn_nv_def by blast
  from mach_run_sim[OF h r this assms(7)] L[OF bn] show ?thesis by (auto simp: agree_def fn_nv_def)
qed

lemma call_fn_uses:
  "fn_uses call_fn 0 = []" "fn_uses call_fn 1 = [0]" "fn_uses call_fn 2 = [0, 1]" "fn_uses call_fn 3 = [2]"
  "fn_defs call_fn 0 = [0]" "fn_defs call_fn 1 = [1]" "fn_defs call_fn 2 = [2]" "fn_defs call_fn 3 = []"
  "succs_of (cfg_build (fn_insts call_fn)) 0 = []"
  by code_simp+

inductive_cases ir_liveE: "ir_live fn b k v"

lemma call_fn_step:
  "k < 4 \<Longrightarrow> ir_live call_fn 0 k v \<longleftrightarrow> v \<in> set (reads_at call_fn k) \<or>
     (v \<notin> set (results_at call_fn k) \<and> ir_live call_fn 0 (Suc k) v)"
proof -
  assume k: "k < 4"
  then have e: "k < blk_end (cfg_blocks (cfg_build (fn_insts call_fn)) ! 0)" by (simp add: call_fn_facts)
  show ?thesis
  proof
    assume "ir_live call_fn 0 k v"
    then show "v \<in> set (reads_at call_fn k) \<or> (v \<notin> set (results_at call_fn k) \<and> ir_live call_fn 0 (Suc k) v)"
      by (cases rule: ir_live.cases) (use e in auto)
  qed (use live_read[OF e] live_next[OF e] in blast)
qed

lemma call_fn_entry: "\<forall>v<nat (fn_next_value_id call_fn). \<not> ir_live call_fn 0 0 (int v)"
proof (intro allI impI)
  fix v :: nat
  have "\<not> ir_live call_fn 0 4 (int v)"
    by (rule notI, erule ir_liveE) (use call_fn_facts call_fn_uses in simp_all)
  then have "ir_live call_fn 0 3 (int v) \<longleftrightarrow> v = 2" using call_fn_step[of 3 "int v"] by (auto simp: call_fn_tables)
  then have "ir_live call_fn 0 2 (int v) \<longleftrightarrow> v = 0 \<or> v = 1"
    using call_fn_step[of 2 "int v"] by (auto simp: call_fn_tables)
  then have "ir_live call_fn 0 1 (int v) \<longleftrightarrow> v = 0"
    using call_fn_step[of 1 "int v"] call_fn_tables by (auto simp: numeral_2_eq_2)
  then show "\<not> ir_live call_fn 0 0 (int v)" using call_fn_step[of 0 "int v"] call_fn_tables by auto
qed

lemma call_fn_results: "call_results_live call_fn"
proof -
  have "i_op (fn_insts call_fn ! k) = IR_CALL \<Longrightarrow> k < 4 \<Longrightarrow> k = 1" for k
    by (auto simp: call_fn_def mk_inst_def zero_inst_def less_Suc_eq eval_nat_numeral)
  moreover have "u \<in> set (fn_defs call_fn 1) \<Longrightarrow> int u = i_dst (fn_insts call_fn ! 1)" for u
    unfolding call_fn_uses call_fn_facts by simp
  ultimately show ?thesis unfolding call_results_live_def call_fn_block by metis
qed

definition count_sem :: "(nat, nat) inst_sem" where
  "count_sem x m args = (m + 1, \<lambda>i. sum_list args + 7, 0)"

lemma call_fn_live2: "ir_live call_fn 0 2 0" "ir_live call_fn 0 2 1"
  using call_fn_step[of 2] by (simp_all add: call_fn_tables)

lemma call_fn_direct: "direct_calls call_fn"
  by code_simp

theorem reg_alloc_refines_witness:
  "\<exists>env'. (val_step count_sem call_fn)\<^sup>*\<^sup>* (0, 0, 0, \<lambda>_. 0, 0) (0, 2, 0, env', 2) \<and> env' 0 = 7 \<and> env' 1 = 14"
proof -
  let ?gp = "Some \<lparr>ra_reg = [3, 6, 6], ra_spill_slot = [0, 0, 0], ra_num_spill_slots = 0, ra_num_values = 3, ra_stack_size = 0\<rparr>"
  let ?h = "home_of ?gp None"
  have h: "?h 0 = GpReg 3" "?h 1 = GpReg 6" by (simp_all add: home_of_def class_home_def)
  let ?st1 = "(\<lambda>_ :: home. 0 :: nat)(GpReg 3 := 7)"
  let ?st2 = "?st1(GpReg 6 := 14)"
  have "mach_step count_sem linux_target ?h call_fn (0, 0, 0, \<lambda>_. 0, 0)
      (0, Suc 0, 0, write_all (results (map ?h (fn_defs call_fn 0)) (\<lambda>i. 7)) (\<lambda>_. 0), 1)"
    by (rule mach_inst) (simp_all add: call_fn_block count_sem_def call_fn_uses)
  then have 1: "mach_step count_sem linux_target ?h call_fn (0, 0, 0, \<lambda>_. 0, 0) (0, 1, 0, ?st1, 1)"
    by (simp add: call_fn_uses h results_def write_all_def)
  have r6: "\<not> call_keeps linux_target (GpReg 6)"
    by (auto simp: caller_reg_def ra_classes_current_def ra_classes_x86_def linux_target_def ALLOCATABLE_REGS_def REG_RSI_def Let_def
        intro!: exI[of _ "0 :: nat"])
  have "mach_step count_sem linux_target ?h call_fn (0, 1, 0, ?st1, 1)
      (0, Suc 1, 0, write_all (results (map ?h (fn_defs call_fn 1)) (\<lambda>i. 14)) (?st1(GpReg 6 := 99)), 2)"
  proof (rule mach_inst)
    show "(?st1(GpReg 6 := 99)) l = ?st1 l" if "i_op (fn_insts call_fn ! 1) \<noteq> IR_CALL \<or> call_keeps linux_target l" for l
      using that r6 by (cases "l = GpReg 6") (auto simp: call_fn_def mk_inst_def)
  qed (simp_all only: call_fn_block call_fn_uses, simp_all add: count_sem_def h)
  then have 2: "mach_step count_sem linux_target ?h call_fn (0, 1, 0, ?st1, 1) (0, 2, 0, ?st2, 2)"
    unfolding call_fn_uses by (simp add: h[unfolded One_nat_def] results_def write_all_def numeral_2_eq_2)
  have "(mach_step count_sem linux_target ?h call_fn)\<^sup>*\<^sup>* (0, 0, 0, \<lambda>_. 0, 0) (0, 2, 0, ?st2, 2)"
    using 1 2 by (meson converse_rtranclp_into_rtranclp rtranclp.rtrancl_refl)
  from reg_alloc_refines[OF call_fn_alloc call_fn_tables(1) call_fn_direct call_fn_results call_fn_entry this, of "\<lambda>_. 0"] obtain env' where
    *: "(val_step count_sem call_fn)\<^sup>*\<^sup>* (0, 0, 0, \<lambda>_. 0, 0) (0, 2, 0, env', 2)" and
    e: "\<forall>v<nat (fn_next_value_id call_fn). ir_live call_fn 0 2 (int v) \<longrightarrow> ?st2 (?h v) = env' v" by blast
  have "?st2 (?h 0) = env' 0" "?st2 (?h 1) = env' 1"
    using e[rule_format, of 0] e[rule_format, of 1] call_fn_live2 by (simp_all add: call_fn_facts(1))
  with * h show ?thesis by (intro exI[of _ env']) simp
qed

end
