(* ===== verification/Rpo.thy ===== *)
theory Rpo
  imports Dominance
begin

text \<open>
  \<open>cfg_rpo\<close> of \<open>src/cfg.c\<close>: reverse-postorder numbering by an iterative depth-first search.
  The two C stacks (\<open>stack_blocks\<close> and \<open>stack_next\<close>) are one list of pairs with the top first.
  The main lemma is that on a flow graph the numbering is injective on the reachable blocks and
  puts every block after its strict dominators; the locale \<open>rpo_numbered\<close> is that contract,
  which is all the dominator computation needs of the numbering.
\<close>

section \<open>The search\<close>

text \<open>
  The next unvisited successor at or after index \<open>ci\<close>, with the index to resume from.  (An edge to
  a block that does not exist is never followed; in a well-formed graph there is none.)
\<close>

function next_unvisited :: "nat list \<Rightarrow> bool list \<Rightarrow> nat \<Rightarrow> (nat \<times> nat) option" where
  "next_unvisited ss visited ci =
     (if ci < length ss then
        if ss ! ci < length visited \<and> \<not> visited ! (ss ! ci) then Some (ss ! ci, ci + 1)
        else next_unvisited ss visited (ci + 1)
      else None)"
  by pat_completeness auto
termination
  by (relation "measure (\<lambda>(ss, visited, ci). length ss - ci)") auto

declare next_unvisited.simps [simp del]

lemma next_unvisited_SomeD:
  "next_unvisited ss visited ci = Some (s, k) \<Longrightarrow>
   ci < k \<and> k \<le> length ss \<and> ss ! (k - 1) = s \<and> s < length visited \<and> \<not> visited ! s \<and>
   (\<forall>j. ci \<le> j \<and> j < k - 1 \<longrightarrow> ss ! j < length visited \<longrightarrow> visited ! (ss ! j))"
proof (induction ss visited ci rule: next_unvisited.induct)
  case (1 ss visited ci)
  show ?case
  proof (cases "ci < length ss \<and> \<not> (ss ! ci < length visited \<and> \<not> visited ! (ss ! ci))")
    case True
    with "1.prems" have n: "next_unvisited ss visited (ci + 1) = Some (s, k)"
      by (simp add: next_unvisited.simps[of ss visited ci] split: if_splits)
    note IH = "1.IH"[OF _ _ n]
    from True IH have h: "ci + 1 < k" "k \<le> length ss" "ss ! (k - 1) = s" "s < length visited" "\<not> visited ! s"
      "\<And>j. ci + 1 \<le> j \<Longrightarrow> j < k - 1 \<Longrightarrow> ss ! j < length visited \<Longrightarrow> visited ! (ss ! j)"
      by auto
    have "visited ! (ss ! j)" if "ci \<le> j" "j < k - 1" "ss ! j < length visited" for j
      using h(6)[of j] True that by (cases "j = ci") auto
    with h show ?thesis by auto
  next
    case False
    with "1.prems" show ?thesis
      by (auto simp: next_unvisited.simps[of ss visited ci] split: if_splits)
  qed
qed

lemma next_unvisited_NoneD:
  "next_unvisited ss visited ci = None \<Longrightarrow> ci \<le> j \<Longrightarrow> j < length ss \<Longrightarrow> ss ! j < length visited
    \<Longrightarrow> visited ! (ss ! j)"
proof (induction ss visited ci rule: next_unvisited.induct)
  case (1 ss visited ci)
  then show ?case
    by (cases "j = ci") (auto simp: next_unvisited.simps[of ss visited ci] split: if_splits)
qed

lemma count_visit: "s < length vs \<Longrightarrow> \<not> vs ! s \<Longrightarrow>
  length (filter Not (vs[s := True])) < length (filter Not vs)"
proof -
  assume s: "s < length vs" "\<not> vs ! s"
  then have v: "vs = take s vs @ False # drop (Suc s) vs" using id_take_nth_drop by fastforce
  from s have u: "vs[s := True] = take s vs @ True # drop (Suc s) vs" by (simp add: upd_conv_take_nth_drop)
  show ?thesis unfolding u by (subst (2) v) simp
qed

function rpo_loop :: "cfg \<Rightarrow> bool list \<Rightarrow> nat list \<Rightarrow> (nat \<times> nat) list \<Rightarrow> nat list" where
  "rpo_loop g visited po [] = po"
| "rpo_loop g visited po ((b, ci) # stk) =
     (case next_unvisited (succs_of g b) visited ci of
        Some (s, k) \<Rightarrow> rpo_loop g (visited[s := True]) po ((s, 0) # (b, k) # stk)
      | None \<Rightarrow> rpo_loop g visited (po @ [b]) stk)"
  by pat_completeness auto

termination
  by (relation "measures [\<lambda>(g, vs, po, stk). length (filter Not vs), \<lambda>(g, vs, po, stk). length stk]")
    (auto dest!: sym[of "Some _"] next_unvisited_SomeD simp: count_visit)

declare rpo_loop.simps(2) [simp del]

text \<open>
  \<open>calloc_ok\<close> says whether the allocation of \<open>visited\<close> succeeds; \<open>None\<close> is the \<open>NULL\<close> the C
  function returns if it does not, or if there are no blocks.
\<close>

definition cfg_rpo :: "bool \<Rightarrow> cfg \<Rightarrow> int list option" where
  "cfg_rpo calloc_ok g =
     (let n = cfg_num g in
      if n = 0 then None
      else if \<not> calloc_ok then None
      else
        let visited = (replicate n False)[cfg_entry g := True];
            po = rpo_loop g visited [] [(cfg_entry g, 0)];
            rpo = replicate n 0x7fffffff
        in Some (fold (\<lambda>i r. r[po ! (length po - 1 - i) := int i]) [0..<length po] rpo))"

section \<open>What the numbering provides\<close>

locale rpo_numbered = flow_graph +
  fixes r :: "int list"
  assumes r_inj: "reachable g a \<Longrightarrow> reachable g b \<Longrightarrow> r ! a = r ! b \<Longrightarrow> a = b"
    and r_sdom: "reachable g b \<Longrightarrow> sdom g a b \<Longrightarrow> r ! a < r ! b"
begin

lemma r_dom: "reachable g b \<Longrightarrow> dominates g a b \<Longrightarrow> r ! a \<le> r ! b"
  using r_sdom[of b a] by (cases "a = b") (auto simp: sdom_def)

lemma r_entry: "reachable g b \<Longrightarrow> r ! cfg_entry g \<le> r ! b"
  by (rule r_dom) simp_all

end

section \<open>The search on a flow graph\<close>

text \<open>
  The invariant of the loop.  \<open>po @ map fst stk\<close> lists the visited blocks in the order in which
  they are or will be finished; strict dominators finish later.
\<close>

definition rpo_inv :: "cfg \<Rightarrow> bool list \<Rightarrow> nat list \<Rightarrow> (nat \<times> nat) list \<Rightarrow> bool" where
  "rpo_inv g visited po stk \<longleftrightarrow>
     length visited = cfg_num g \<and> distinct (po @ map fst stk) \<and>
     (\<forall>b. b \<in> set (po @ map fst stk) \<longleftrightarrow> b < cfg_num g \<and> visited ! b) \<and>
     cfg_entry g \<in> set (po @ map fst stk) \<and>
     (stk \<noteq> [] \<longrightarrow> walk g (rev (map fst stk))) \<and>
     (\<forall>b\<in>set (po @ map fst stk). reachable g b) \<and>
     (\<forall>f\<in>set (po @ map fst stk). \<forall>d. sdom g d f \<longrightarrow> later (po @ map fst stk) f d) \<and>
     (\<forall>b\<in>set po. set (succs_of g b) \<subseteq> set (po @ map fst stk)) \<and>
     (\<forall>(b, ci)\<in>set stk. \<forall>k<ci. k < length (succs_of g b) \<longrightarrow> succs_of g b ! k \<in> set (po @ map fst stk))"

lemma rpo_invD:
  assumes "rpo_inv g visited po stk"
  shows "length visited = cfg_num g" "distinct (po @ map fst stk)"
    "\<And>b. b \<in> set (po @ map fst stk) \<longleftrightarrow> b < cfg_num g \<and> visited ! b"
    "cfg_entry g \<in> set (po @ map fst stk)"
    "stk \<noteq> [] \<Longrightarrow> walk g (rev (map fst stk))"
    "\<And>b. b \<in> set (po @ map fst stk) \<Longrightarrow> reachable g b"
    "\<And>f d. f \<in> set (po @ map fst stk) \<Longrightarrow> sdom g d f \<Longrightarrow> later (po @ map fst stk) f d"
    "\<And>b. b \<in> set po \<Longrightarrow> set (succs_of g b) \<subseteq> set (po @ map fst stk)"
    "\<And>b ci k. (b, ci) \<in> set stk \<Longrightarrow> k < ci \<Longrightarrow> k < length (succs_of g b) \<Longrightarrow>
       succs_of g b ! k \<in> set (po @ map fst stk)"
  using assms unfolding rpo_inv_def by blast+

context flow_graph
begin

lemma rpo_inv_init:
  "rpo_inv g ((replicate (cfg_num g) False)[cfg_entry g := True]) [] [(cfg_entry g, 0)]"
proof -
  have "sdom g d (cfg_entry g) \<Longrightarrow> False" for d
    using dom_antisym[of g d "cfg_entry g"] dom_reachable[of g d "cfg_entry g"] by (auto simp: sdom_def)
  then show ?thesis
    using entry_block by (auto simp: rpo_inv_def Let_def nth_list_update walk.walk_entry)
qed

lemma rpo_inv_push:
  assumes inv: "rpo_inv g visited po ((b, ci) # stk)"
    and nx: "next_unvisited (succs_of g b) visited ci = Some (s, k)"
  shows "rpo_inv g (visited[s := True]) po ((s, 0) # (b, k) # stk)"
proof -
  note N = next_unvisited_SomeD[OF nx] and I = rpo_invD[OF inv]
  let ?vs = "po @ map fst ((b, ci) # stk)" and ?vs' = "po @ map fst ((s, 0::nat) # (b, k) # stk)"
  have eq: "?vs = po @ b # map fst stk" "?vs' = po @ s # b # map fst stk" by simp_all
  have set': "x \<in> set ?vs' \<longleftrightarrow> x = s \<or> x \<in> set ?vs" for x by auto
  have s: "s \<notin> set ?vs" "s \<in> set (succs_of g b)" "s < cfg_num g"
    using N I(1) I(3)[of s] nth_mem[of "k - 1" "succs_of g b"] by auto
  have w: "walk g (rev (map fst stk) @ [b])" using I(5) by simp
  then have "walk g (rev (map fst stk) @ [b] @ [s])"
    using s(2) walk.walk_step[of g "rev (map fst stk) @ [b]" s] by simp
  then have w': "walk g (rev (map fst ((s, 0::nat) # (b, k) # stk)))" by simp
  have lt': "later ?vs' f d" if f: "f \<in> set ?vs'" "sdom g d f" for f d
  proof (cases "f = s")
    case True
    have "last (rev (map fst stk) @ [b] @ [s]) = s" by simp
    with \<open>walk g (rev (map fst stk) @ [b] @ [s])\<close> f(2) True
    have "d \<in> set (rev (map fst stk) @ [b] @ [s])" "d \<noteq> s" unfolding sdom_def dominates_def by blast+
    then have "d \<in> set (b # map fst stk)" by auto
    with True show ?thesis using later_here[of d "b # map fst stk" po s] by simp
  next
    case False
    with f I(7) have "later ?vs f d" unfolding set' by blast
    then show ?thesis using later_insert[of po "b # map fst stk" f d s] by simp
  qed
  have t': "succs_of g x ! j \<in> set ?vs'"
    if x: "(x, cj) \<in> set ((s, 0) # (b, k) # stk)" "j < cj" "j < length (succs_of g x)" for x cj j
  proof -
    consider "(x, cj) \<in> set stk" | "x = b" "cj = k" using x by auto
    then show ?thesis
    proof cases
      case 1
      then show ?thesis using I(9)[of x cj j] x set' by (meson list.set_intros(2))
    next
      case 2
      consider "j < ci" | "ci \<le> j" "j < k - 1" | "j = k - 1" using 2 x(2) by linarith
      then show ?thesis
      proof cases
        case 1
        then show ?thesis using I(9)[of b ci j] x 2 set' by (meson list.set_intros(1))
      next
        case j: 2
        have "b < cfg_num g" using I(3)[of b] by simp
        moreover have "succs_of g b ! j \<in> set (succs_of g b)" using x(3) 2 by simp
        ultimately have "succs_of g b ! j < cfg_num g" by (rule succ_block)
        with j N I(1) have "succs_of g b ! j \<in> set ?vs" unfolding I(3) by auto
        then show ?thesis using 2 set' by blast
      qed (use N 2 in auto)
    qed
  qed
  show ?thesis
    unfolding rpo_inv_def
  proof (intro conjI ballI allI impI)
    show "distinct ?vs'" using I(2) s(1) by simp
    show "x \<in> set ?vs' \<longleftrightarrow> x < cfg_num g \<and> visited[s := True] ! x" for x
      unfolding set' using I(1) I(3)[of x] s by (auto simp: nth_list_update)
    show "reachable g x" if "x \<in> set ?vs'" for x
      using that set' I(6) reachable_succ[of g b s] s(2) by auto
    show "set (succs_of g x) \<subseteq> set ?vs'" if "x \<in> set po" for x using I(8)[OF that] set' by blast
    show "case p of (x, cj) \<Rightarrow> \<forall>j<cj. j < length (succs_of g x) \<longrightarrow> succs_of g x ! j \<in> set ?vs'"
      if "p \<in> set ((s, 0) # (b, k) # stk)" for p using t' that by (cases p) blast
  qed (use I(1,4) w' lt' in \<open>auto simp del: rev.simps\<close>)
qed

lemma rpo_inv_pop:
  assumes inv: "rpo_inv g visited po ((b, ci) # stk)"
    and nx: "next_unvisited (succs_of g b) visited ci = None"
  shows "rpo_inv g visited (po @ [b]) stk"
proof -
  note I = rpo_invD[OF inv]
  have eq: "(po @ [b]) @ map fst stk = po @ map fst ((b, ci) # stk)" by simp
  have b: "b < cfg_num g" using I(3)[of b] by simp
  have "succs_of g b ! j \<in> set (po @ map fst ((b, ci) # stk))" if j: "j < length (succs_of g b)" for j
  proof (cases "j < ci")
    case False
    have "succs_of g b ! j < cfg_num g" using succ_block b j by simp
    with next_unvisited_NoneD[OF nx _ j] False I(1) show ?thesis unfolding I(3) by simp
  qed (use I(9)[of b ci j] j in simp)
  then have sb: "set (succs_of g b) \<subseteq> set (po @ map fst ((b, ci) # stk))" by (metis in_set_conv_nth subsetI)
  have w: "walk g (rev (map fst stk))" if "stk \<noteq> []"
    using I(5) walk_prefix[of g "rev (map fst stk)" "[b]"] that by simp
  show ?thesis
    unfolding rpo_inv_def eq
  proof (intro conjI ballI allI impI)
    show "set (succs_of g x) \<subseteq> set (po @ map fst ((b, ci) # stk))" if "x \<in> set (po @ [b])" for x
      using that sb I(8) by auto
    show "case p of (x, cj) \<Rightarrow> \<forall>j<cj. j < length (succs_of g x) \<longrightarrow>
        succs_of g x ! j \<in> set (po @ map fst ((b, ci) # stk))" if "p \<in> set stk" for p
    proof (cases p)
      case (Pair x cj)
      with that have "(x, cj) \<in> set ((b, ci) # stk)" by simp
      from I(9)[OF this] Pair show ?thesis by blast
    qed
  qed (use I w in blast)+
qed

lemma rpo_loop_inv:
  "g' = g \<Longrightarrow> rpo_inv g visited po stk \<Longrightarrow> \<exists>visited'. rpo_inv g visited' (rpo_loop g' visited po stk) []"
proof (induction g' visited po stk rule: rpo_loop.induct)
  case (1 g' visited po)
  then show ?case by auto
next
  case (2 g' visited po b ci stk)
  show ?case
  proof (cases "next_unvisited (succs_of g b) visited ci")
    case None
    with 2 rpo_inv_pop[OF 2(4) None] show ?thesis by (simp add: rpo_loop.simps)
  next
    case (Some p)
    obtain s k where p: "p = (s, k)" by (cases p)
    with Some 2 rpo_inv_push[of visited po b ci stk s k] show ?thesis by (simp add: rpo_loop.simps)
  qed
qed

text \<open>What the search returns on a flow graph.\<close>

abbreviation rpo_visit :: "nat list" where
  "rpo_visit \<equiv> rpo_loop g ((replicate (cfg_num g) False)[cfg_entry g := True]) [] [(cfg_entry g, 0)]"

lemma rpo_visit_facts:
  shows "distinct rpo_visit" and "set rpo_visit = {b. reachable g b}"
    and "reachable g f \<Longrightarrow> sdom g d f \<Longrightarrow> later rpo_visit f d"
proof -
  obtain v where "rpo_inv g v rpo_visit []" using rpo_loop_inv[OF refl rpo_inv_init] by blast
  note I = rpo_invD[OF this]
  show "distinct rpo_visit" using I(2) by simp
  have "set ns \<subseteq> set rpo_visit" if "walk g ns" for ns
    using that
  proof (induction rule: walk.induct)
    case (walk_step ns c)
    then have "last ns \<in> set rpo_visit" using walk_not_Nil last_in_set by blast
    with walk_step I(8) show ?case by auto
  qed (use I(4) in simp)
  then have "reachable g b \<Longrightarrow> b \<in> set rpo_visit" for b
    unfolding reachable_def using walk_not_Nil last_in_set by blast
  with I(6) show s: "set rpo_visit = {b. reachable g b}" by auto
  show "later rpo_visit f d" if "reachable g f" "sdom g d f"
    using I(7)[of f d] that s by simp
qed

lemma rpo_array:
  fixes n :: nat and m :: int and po :: "nat list"
  assumes "distinct po" "set po \<subseteq> {..<n}"
  defines "res \<equiv> fold (\<lambda>i r. r[po ! (length po - 1 - i) := int i]) [0..<length po] (replicate n m)"
  shows "length res = n" and "j < length po \<Longrightarrow> res ! (po ! j) = int (length po - 1 - j)"
    and "b < n \<Longrightarrow> b \<notin> set po \<Longrightarrow> res ! b = m"
proof -
  let ?P = "\<lambda>k r. length r = n \<and> (\<forall>i<k. r ! (po ! (length po - 1 - i)) = int i) \<and>
    (\<forall>b<n. b \<notin> set po \<longrightarrow> r ! b = m)"
  have "?P (length po) res"
    unfolding res_def
  proof (rule fold_upt_inv[where P = ?P])
    fix i r assume i: "i < length po" and P: "?P i r"
    let ?x = "po ! (length po - 1 - i)"
    have "?x \<in> set po" using i by simp
    with assms(2) P have x: "?x < length r" "?x \<in> set po" by auto
    have "r[?x := int i] ! (po ! (length po - 1 - k)) = int k" if "k < Suc i" for k
    proof (cases "k = i")
      case False
      with that i have "length po - 1 - k \<noteq> length po - 1 - i" "length po - 1 - k < length po" by auto
      then have "po ! (length po - 1 - k) \<noteq> ?x" using assms(1) i by (simp add: nth_eq_iff_index_eq)
      with P that False show ?thesis by simp
    qed (use x in simp)
    moreover have "r[?x := int i] ! b = m" if "b < n" "b \<notin> set po" for b
      using P that x(2) by (metis nth_list_update_neq)
    ultimately show "?P (Suc i) (r[?x := int i])" using P by simp
  qed simp_all
  then have P: "length res = n" "\<And>i. i < length po \<Longrightarrow> res ! (po ! (length po - 1 - i)) = int i"
    "\<And>b. b < n \<Longrightarrow> b \<notin> set po \<Longrightarrow> res ! b = m" by blast+
  show "length res = n" "b < n \<Longrightarrow> b \<notin> set po \<Longrightarrow> res ! b = m" by (fact P)+
  show "j < length po \<Longrightarrow> res ! (po ! j) = int (length po - 1 - j)" using P(2)[of "length po - 1 - j"] by simp
qed

lemma cfg_rpo_facts:
  assumes "cfg_rpo True g = Some r"
  shows "length r = cfg_num g"
    and "reachable g b \<Longrightarrow> \<exists>j<length rpo_visit. b = rpo_visit ! j \<and> r ! b = int (length rpo_visit - 1 - j)"
    and "b < cfg_num g \<Longrightarrow> \<not> reachable g b \<Longrightarrow> r ! b = 0x7fffffff"
proof -
  have sub: "set rpo_visit \<subseteq> {..<cfg_num g}" using rpo_visit_facts(2) reachable_block by auto
  note A = rpo_array[OF rpo_visit_facts(1) sub, where m = "0x7fffffff"]
  have r: "r = fold (\<lambda>i r. r[rpo_visit ! (length rpo_visit - 1 - i) := int i]) [0..<length rpo_visit]
      (replicate (cfg_num g) 0x7fffffff)"
    using assms by (simp add: cfg_rpo_def Let_def split: if_splits)
  show "length r = cfg_num g" unfolding r by (rule A)
  show "b < cfg_num g \<Longrightarrow> \<not> reachable g b \<Longrightarrow> r ! b = 0x7fffffff"
    unfolding r by (rule A(3)) (simp_all add: rpo_visit_facts(2))
  assume "reachable g b"
  then have "b \<in> set rpo_visit" using rpo_visit_facts(2) by blast
  then obtain j where "j < length rpo_visit" "b = rpo_visit ! j" by (metis in_set_conv_nth)
  with A(2)[of j] show "\<exists>j<length rpo_visit. b = rpo_visit ! j \<and> r ! b = int (length rpo_visit - 1 - j)"
    unfolding r by metis
qed

lemma cfg_rpo_numbered:
  assumes "cfg_rpo True g = Some r"
  shows "rpo_numbered g r"
proof unfold_locales
  note R = cfg_rpo_facts[OF assms]
  show "a = b" if "reachable g a" "reachable g b" "r ! a = r ! b" for a b
  proof -
    from R(2)[OF that(1)] R(2)[OF that(2)] obtain i j where
      "i < length rpo_visit" "a = rpo_visit ! i" "r ! a = int (length rpo_visit - 1 - i)"
      "j < length rpo_visit" "b = rpo_visit ! j" "r ! b = int (length rpo_visit - 1 - j)" by blast
    moreover from this that(3) have "i = j" by linarith
    ultimately show ?thesis by simp
  qed
  show "r ! a < r ! b" if "reachable g b" "sdom g a b" for a b
  proof -
    have ra: "reachable g a" using that dom_reachable by (auto simp: sdom_def)
    from rpo_visit_facts(3)[OF that] obtain i j where ij: "i < j" "j < length rpo_visit"
      "rpo_visit ! i = b" "rpo_visit ! j = a" by (rule later_nth)
    from R(2)[OF ra] R(2)[OF that(1)] obtain k l where
      k: "k < length rpo_visit" "a = rpo_visit ! k" "r ! a = int (length rpo_visit - 1 - k)" and
      l: "l < length rpo_visit" "b = rpo_visit ! l" "r ! b = int (length rpo_visit - 1 - l)" by blast
    have i: "i < length rpo_visit" using ij by simp
    have "k = j" "l = i"
      using nth_eq_iff_index_eq[OF rpo_visit_facts(1) k(1) ij(2)] k(2) ij(4)
        nth_eq_iff_index_eq[OF rpo_visit_facts(1) l(1) i] l(2) ij(3) by simp_all
    with ij k l show ?thesis by simp
  qed
qed

lemma cfg_rpo_returns: "\<exists>r. cfg_rpo True g = Some r"
  using entry_block by (auto simp: cfg_rpo_def Let_def)

end

text \<open>\<open>cfg_rpo\<close> on a built graph provides the numbering contract.\<close>

definition build_rpo :: "ir_inst list \<Rightarrow> int list" where
  "build_rpo insts = the (cfg_rpo True (cfg_build insts))"

lemma build_rpo: "cfg_rpo True (cfg_build insts) = Some (build_rpo insts)"
  using built.cfg_rpo_returns by (force simp: build_rpo_def)

interpretation numbered: rpo_numbered "cfg_build insts" "build_rpo insts" for insts
  by (rule built.cfg_rpo_numbered) (rule build_rpo)

text \<open>
  C3.  \<open>cfg_rpo\<close> on a built graph always returns; its numbering gives the entry 0, is injective on
  the blocks reachable from the entry, is below every strictly dominated block's number, and marks
  exactly the unreachable blocks with \<open>INT_MAX\<close> (the reachable ones are numbered below the number
  of blocks).
\<close>

theorem cfg_rpo_order:
  "\<exists>r. cfg_rpo True (cfg_build insts) = Some r \<and> length r = cfg_num (cfg_build insts) \<and>
     r ! cfg_entry (cfg_build insts) = 0 \<and>
     inj_on ((!) r) {b. reachable (cfg_build insts) b} \<and>
     (\<forall>b. reachable (cfg_build insts) b \<longrightarrow> 0 \<le> r ! b \<and> r ! b < int (cfg_num (cfg_build insts))) \<and>
     (\<forall>a b. reachable (cfg_build insts) b \<longrightarrow> sdom (cfg_build insts) a b \<longrightarrow> r ! a < r ! b) \<and>
     (\<forall>b<cfg_num (cfg_build insts). \<not> reachable (cfg_build insts) b \<longrightarrow> r ! b = 0x7fffffff)"
proof -
  let ?g = "cfg_build insts" and ?r = "build_rpo insts"
  let ?po = "built.rpo_visit insts"
  note R = built.cfg_rpo_facts[OF build_rpo]
  have len: "length ?po \<le> cfg_num ?g"
  proof -
    have "card (set ?po) \<le> card {..<cfg_num ?g}"
      by (rule card_mono) (use built.rpo_visit_facts(2) built.reachable_block in auto)
    then show ?thesis using built.rpo_visit_facts(1)[of insts] by (simp add: distinct_card)
  qed
  have lt: "0 \<le> ?r ! b" "?r ! b < int (cfg_num ?g)" if "reachable ?g b" for b using R(2)[OF that] len by auto
  have ne: "0 < length ?po" using R(2)[OF reachable_entry, of insts] by (auto simp del: length_greater_0_conv)
  have "reachable ?g (?po ! (length ?po - 1))"
    using ne built.rpo_visit_facts(2)[of insts] nth_mem[of "length ?po - 1" ?po] by auto
  moreover have "?r ! (?po ! (length ?po - 1)) = 0"
  proof -
    from R(2)[OF calculation] obtain j where j: "j < length ?po" "?po ! (length ?po - 1) = ?po ! j"
      "?r ! (?po ! (length ?po - 1)) = int (length ?po - 1 - j)" by blast
    with ne built.rpo_visit_facts(1)[of insts] have "j = length ?po - 1"
      by (metis diff_less less_numeral_extra(1) nth_eq_iff_index_eq)
    with j(3) show ?thesis by simp
  qed
  ultimately have "?r ! cfg_entry ?g = 0" using numbered.r_entry lt(1)[OF reachable_entry] by (metis order_antisym)
  then show ?thesis
    by (intro exI[of _ ?r] conjI build_rpo R(1) inj_onI allI impI)
      (use numbered.r_inj numbered.r_sdom R(3) lt in auto)
qed

lemma diamond_reachable:
  "reachable (cfg_build diamond_insts) 1" "reachable (cfg_build diamond_insts) 3"
proof -
  have e: "cfg_entry (cfg_build diamond_insts) = 0" by code_simp
  have s: "1 \<in> set (succs_of (cfg_build diamond_insts) 0)" "3 \<in> set (succs_of (cfg_build diamond_insts) 1)"
    by code_simp+
  show "reachable (cfg_build diamond_insts) 1" using reachable_succ[OF _ s(1)] reachable_entry e by metis
  with reachable_succ[OF _ s(2)] show "reachable (cfg_build diamond_insts) 3" by blast
qed

theorem cfg_rpo_order_witness:
  "build_rpo diamond_insts ! 0 = 0 \<and> build_rpo diamond_insts ! 0 < build_rpo diamond_insts ! 3"
proof -
  have e: "cfg_entry (cfg_build diamond_insts) = 0" by code_simp
  have "sdom (cfg_build diamond_insts) 0 3" using dom_entry[of "cfg_build diamond_insts" 3] e by (simp add: sdom_def)
  moreover from cfg_rpo_order[of diamond_insts] build_rpo[of diamond_insts]
  have "build_rpo diamond_insts ! 0 = 0" and
    "\<forall>a b. reachable (cfg_build diamond_insts) b \<longrightarrow> sdom (cfg_build diamond_insts) a b \<longrightarrow>
       build_rpo diamond_insts ! a < build_rpo diamond_insts ! b" by (simp_all add: e)
  ultimately show ?thesis using diamond_reachable(2) by blast
qed

end
