(* ===== verification/Domtree.thy ===== *)
theory Domtree
  imports Rpo "HOL-Library.Sublist"
begin

text \<open>
  \<open>src/domtree.c\<close>: immediate dominators by the iterative algorithm of Cooper, Harvey and Kennedy,
  dominance frontiers, and the dominance query.  The C value \<open>-1\<close> of \<open>idom\<close> is \<open>None\<close>.  The loops
  that follow \<open>idom\<close> chains and the outer fixpoint loop have no bound in the source: they are
  partial functions whose value \<open>None\<close> means that the loop does not return (or reads
  \<open>rpo[-1]\<close>), and that they return is a theorem.
\<close>

section \<open>The code\<close>

type_synonym idoms = "nat option list"

text \<open>\<open>while (rpo[f] > k) f = idom[f]\<close>\<close>

partial_function (option) chase :: "int list \<Rightarrow> idoms \<Rightarrow> nat \<Rightarrow> int \<Rightarrow> nat option" where
  "chase r im f k =
     (if r ! f > k then (case im ! f of None \<Rightarrow> None | Some f' \<Rightarrow> chase r im f' k) else Some f)"

declare chase.simps [code]

partial_function (option) intersect :: "int list \<Rightarrow> idoms \<Rightarrow> nat \<Rightarrow> nat \<Rightarrow> nat option" where
  "intersect r im f1 f2 =
     (if f1 = f2 then Some f1
      else case chase r im f1 (r ! f2) of None \<Rightarrow> None | Some f1' \<Rightarrow>
        (case chase r im f2 (r ! f1') of None \<Rightarrow> None | Some f2' \<Rightarrow> intersect r im f1' f2'))"

declare intersect.simps [code]

fun dom_merge :: "int list \<Rightarrow> idoms \<Rightarrow> nat list \<Rightarrow> nat \<Rightarrow> nat option" where
  "dom_merge r im [] new = Some new"
| "dom_merge r im (p # ps) new =
     (if p = new then dom_merge r im ps new
      else if im ! p = None then dom_merge r im ps new
      else case intersect r im new p of None \<Rightarrow> None | Some x \<Rightarrow> dom_merge r im ps x)"

definition dom_block :: "int list \<Rightarrow> cfg \<Rightarrow> nat \<Rightarrow> idoms \<times> bool \<Rightarrow> (idoms \<times> bool) option" where
  "dom_block r g b = (\<lambda>(im, changed).
     if b = cfg_entry g then Some (im, changed)
     else case find (\<lambda>p. im ! p \<noteq> None) (preds_of g b) of
       None \<Rightarrow> Some (im, changed)
     | Some p \<Rightarrow>
         (case dom_merge r im (preds_of g b) p of
            None \<Rightarrow> None
          | Some new \<Rightarrow>
              if im ! b \<noteq> Some new then Some (im[b := Some new], True) else Some (im, changed)))"

fun fold_opt :: "('a \<Rightarrow> 's \<Rightarrow> 's option) \<Rightarrow> 'a list \<Rightarrow> 's \<Rightarrow> 's option" where
  "fold_opt f [] s = Some s"
| "fold_opt f (x # xs) s = (case f x s of None \<Rightarrow> None | Some s' \<Rightarrow> fold_opt f xs s')"

definition dom_pass :: "int list \<Rightarrow> cfg \<Rightarrow> idoms \<Rightarrow> (idoms \<times> bool) option" where
  "dom_pass r g im = fold_opt (dom_block r g) [0..<cfg_num g] (im, False)"

partial_function (option) dom_iterate :: "int list \<Rightarrow> cfg \<Rightarrow> idoms \<Rightarrow> idoms option" where
  "dom_iterate r g im =
     (case dom_pass r g im of None \<Rightarrow> None
      | Some (im', changed) \<Rightarrow> if changed then dom_iterate r g im' else Some im')"

declare dom_iterate.simps [code]

text \<open>Dominance frontiers.  \<open>stop\<close> is \<open>idom[bi]\<close>.\<close>

partial_function (option) df_walk ::
  "idoms \<Rightarrow> nat \<Rightarrow> nat option \<Rightarrow> nat option \<Rightarrow> nat list list \<Rightarrow> nat list list option" where
  "df_walk im bi stop runner df =
     (case runner of
        None \<Rightarrow> Some df
      | Some x \<Rightarrow> if runner = stop then Some df
                  else df_walk im bi stop (im ! x) (df[x := add_unique bi (df ! x)]))"

declare df_walk.simps [code]

definition df_block :: "idoms \<Rightarrow> cfg \<Rightarrow> nat \<Rightarrow> nat list list \<Rightarrow> nat list list option" where
  "df_block im g bi df =
     (if length (preds_of g bi) < 2 then Some df
      else fold_opt (\<lambda>p. df_walk im bi (im ! bi) (Some p)) (preds_of g bi) df)"

record dom_tree =
  dt_idom :: idoms
  dt_df :: "nat list list"
  dt_n :: nat

definition domtree_build :: "bool \<Rightarrow> cfg \<Rightarrow> dom_tree option" where
  "domtree_build calloc_ok g =
     (let n = cfg_num g;
          im0 = (replicate n None)[cfg_entry g := Some (cfg_entry g)];
          r = (case cfg_rpo calloc_ok g of Some r \<Rightarrow> r | None \<Rightarrow> map int [0..<n])
      in case dom_iterate r g im0 of
           None \<Rightarrow> None
         | Some im1 \<Rightarrow>
             let im = im1[cfg_entry g := None]
             in case fold_opt (df_block im g) [0..<n] (replicate n []) of
                  None \<Rightarrow> None
                | Some df \<Rightarrow> Some \<lparr>dt_idom = im, dt_df = df, dt_n = n\<rparr>)"

partial_function (option) dom_climb :: "idoms \<Rightarrow> nat \<Rightarrow> nat option \<Rightarrow> bool option" where
  "dom_climb im a runner =
     (case runner of
        None \<Rightarrow> Some False
      | Some x \<Rightarrow> if x = a then Some True
                  else if im ! x = Some x then Some False
                  else dom_climb im a (im ! x))"

declare dom_climb.simps [code]

definition domtree_dominates :: "dom_tree \<Rightarrow> nat \<Rightarrow> nat \<Rightarrow> bool option" where
  "domtree_dominates dt a b = dom_climb (dt_idom dt) a (Some b)"

section \<open>Monadic folds\<close>

lemma fold_opt_inv:
  assumes "lo \<le> hi" "P lo s"
    and "\<And>i s. lo \<le> i \<Longrightarrow> i < hi \<Longrightarrow> P i s \<Longrightarrow> \<exists>s'. f i s = Some s' \<and> P (Suc i) s'"
  shows "\<exists>s'. fold_opt f [lo..<hi] s = Some s' \<and> P hi s'"
  using assms
proof (induction "hi - lo" arbitrary: lo s)
  case 0
  then show ?case by simp
next
  case (Suc k)
  then have lt: "lo < hi" by simp
  with Suc.prems obtain s' where s': "f lo s = Some s'" "P (Suc lo) s'" by blast
  have "\<exists>s''. fold_opt f [Suc lo..<hi] s' = Some s'' \<and> P hi s''"
    by (rule Suc.hyps(1)) (use Suc lt s' in auto)
  with s' lt show ?case by (simp add: upt_conv_Cons)
qed

section \<open>The invariant of the iteration\<close>

text \<open>
  \<open>W b\<close> is the walk through the first processed predecessors along which \<open>b\<close> was first reached.
  A block's \<open>idom\<close> lies on it (so chains end), and is dominated by every strict dominator of the
  block (so the true dominators are never skipped).
\<close>

definition dom_inv :: "cfg \<Rightarrow> idoms \<Rightarrow> (nat \<Rightarrow> nat list) \<Rightarrow> bool" where
  "dom_inv g im W \<longleftrightarrow>
     length im = cfg_num g \<and> im ! cfg_entry g = Some (cfg_entry g) \<and> W (cfg_entry g) = [cfg_entry g] \<and>
     (\<forall>b<cfg_num g. im ! b \<noteq> None \<longrightarrow> walk g (W b) \<and> last (W b) = b) \<and>
     (\<forall>b i. b < cfg_num g \<longrightarrow> b \<noteq> cfg_entry g \<longrightarrow> im ! b = Some i \<longrightarrow>
        i < cfg_num g \<and> im ! i \<noteq> None \<and> strict_prefix (W i) (W b) \<and>
        (\<exists>p\<in>set (preds_of g b). im ! p \<noteq> None \<and> W b = W p @ [b]) \<and>
        (\<forall>d. sdom g d b \<longrightarrow> dominates g d i))"

lemma dom_invD:
  assumes "dom_inv g im W"
  shows "length im = cfg_num g" "im ! cfg_entry g = Some (cfg_entry g)" "W (cfg_entry g) = [cfg_entry g]"
    "\<And>b. b < cfg_num g \<Longrightarrow> im ! b \<noteq> None \<Longrightarrow> walk g (W b) \<and> last (W b) = b"
    "\<And>b i. b < cfg_num g \<Longrightarrow> b \<noteq> cfg_entry g \<Longrightarrow> im ! b = Some i \<Longrightarrow>
        i < cfg_num g \<and> im ! i \<noteq> None \<and> strict_prefix (W i) (W b) \<and>
        (\<exists>p\<in>set (preds_of g b). im ! p \<noteq> None \<and> W b = W p @ [b]) \<and>
        (\<forall>d. sdom g d b \<longrightarrow> dominates g d i)"
  using assms unfolding dom_inv_def by blast+

inductive idom_anc :: "idoms \<Rightarrow> nat \<Rightarrow> nat \<Rightarrow> bool" for im where
  anc_refl: "idom_anc im b b"
| anc_up: "im ! b = Some i \<Longrightarrow> idom_anc im a i \<Longrightarrow> idom_anc im a b"

lemma idom_anc_trans: "idom_anc im b c \<Longrightarrow> idom_anc im a b \<Longrightarrow> idom_anc im a c"
  by (induction rule: idom_anc.induct) (auto intro: anc_up)

lemma anc_prefix:
  assumes inv: "dom_inv g im W"
  shows "idom_anc im a b \<Longrightarrow> b < cfg_num g \<Longrightarrow> im ! b \<noteq> None \<Longrightarrow>
    prefix (W a) (W b) \<and> a < cfg_num g \<and> im ! a \<noteq> None"
proof (induction rule: idom_anc.induct)
  case (anc_up b i a)
  show ?case
  proof (cases "b = cfg_entry g")
    case True
    with anc_up dom_invD(2)[OF inv] show ?thesis by auto
  next
    case False
    from dom_invD(5)[OF inv anc_up.prems(1) False anc_up.hyps(1)]
    have "i < cfg_num g" "im ! i \<noteq> None" "prefix (W i) (W b)" by (auto simp: strict_prefix_def)
    with anc_up.IH show ?thesis using prefix_order.trans by blast
  qed
qed auto

text \<open>
  \<open>covers g im L b\<close>: along every walk of at most \<open>L\<close> edges to \<open>b\<close>, \<open>b\<close> is processed and its
  \<open>idom\<close> is on the walk. 
\<close>

definition covers :: "cfg \<Rightarrow> idoms \<Rightarrow> nat \<Rightarrow> nat \<Rightarrow> bool" where
  "covers g im L b \<longleftrightarrow> (\<forall>ns. walk g (ns @ [b]) \<longrightarrow> length ns \<le> L \<longrightarrow> im ! b \<noteq> None \<and>
     (b \<noteq> cfg_entry g \<longrightarrow> (\<exists>i. im ! b = Some i \<and> i \<in> set ns)))"

text \<open>The immediate dominators, as far as the array is concerned.\<close>

definition exact_idoms :: "cfg \<Rightarrow> idoms \<Rightarrow> bool" where
  "exact_idoms g im \<longleftrightarrow> length im = cfg_num g \<and>
     (\<forall>b<cfg_num g. b \<noteq> cfg_entry g \<longrightarrow>
        (\<not> reachable g b \<longrightarrow> im ! b = None) \<and>
        (reachable g b \<longrightarrow> (\<exists>i. im ! b = Some i \<and> sdom g i b \<and> (\<forall>d. sdom g d b \<longrightarrow> dominates g d i))))"

lemma exact_unique:
  assumes "exact_idoms g im" "exact_idoms g im'" "im ! cfg_entry g = im' ! cfg_entry g"
  shows "im = im'"
proof (rule nth_equalityI)
  show len: "length im = length im'" using assms by (simp add: exact_idoms_def)
  fix b assume "b < length im"
  then have b: "b < cfg_num g" using assms by (simp add: exact_idoms_def)
  show "im ! b = im' ! b"
  proof (cases "b \<noteq> cfg_entry g \<and> reachable g b")
    case True
    with assms(1) b obtain i where i: "im ! b = Some i" "sdom g i b" "\<forall>d. sdom g d b \<longrightarrow> dominates g d i"
      unfolding exact_idoms_def by blast
    from assms(2) b True obtain j where j: "im' ! b = Some j" "sdom g j b" "\<forall>d. sdom g d b \<longrightarrow> dominates g d j"
      unfolding exact_idoms_def by blast
    have "reachable g i" using True i(2) dom_reachable by (auto simp: sdom_def)
    with i j dom_antisym[of g i j] show ?thesis by auto
  next
    case False
    with assms b show ?thesis unfolding exact_idoms_def by metis
  qed
qed

context rpo_numbered
begin

lemma processed_reachable: "dom_inv g im W \<Longrightarrow> b < cfg_num g \<Longrightarrow> im ! b \<noteq> None \<Longrightarrow> reachable g b"
  using dom_invD(4)[of g im W b] by (auto simp: reachable_def)

lemma chase_ok:
  assumes inv: "dom_inv g im W" and k: "r ! cfg_entry g \<le> k"
  shows "f < cfg_num g \<Longrightarrow> im ! f \<noteq> None \<Longrightarrow>
    \<exists>f'. chase r im f k = Some f' \<and> idom_anc im f' f \<and> r ! f' \<le> k \<and>
      (r ! f > k \<longrightarrow> length (W f') < length (W f)) \<and> (r ! f \<le> k \<longrightarrow> f' = f) \<and>
      (\<forall>d. r ! d \<le> k \<longrightarrow> dominates g d f \<longrightarrow> dominates g d f')"
proof (induction "length (W f)" arbitrary: f rule: less_induct)
  case less
  show ?case
  proof (cases "r ! f > k")
    case False
    then show ?thesis by (auto simp: chase.simps[of r im f] intro: anc_refl)
  next
    case True
    with k have ne: "f \<noteq> cfg_entry g" by auto
    from less.prems(2) obtain i where i: "im ! f = Some i" by blast
    from dom_invD(5)[OF inv less.prems(1) ne i] have I: "i < cfg_num g" "im ! i \<noteq> None"
      "length (W i) < length (W f)" "\<And>d. sdom g d f \<Longrightarrow> dominates g d i"
      using prefix_length_less by blast+
    from less.hyps[OF I(3,1,2)] obtain f' where f': "chase r im i k = Some f'" "idom_anc im f' i"
      "r ! f' \<le> k" "r ! i > k \<longrightarrow> length (W f') < length (W i)" "r ! i \<le> k \<longrightarrow> f' = i"
      "\<forall>d. r ! d \<le> k \<longrightarrow> dominates g d i \<longrightarrow> dominates g d f'" by blast
    have "dominates g d f'" if "r ! d \<le> k" "dominates g d f" for d
    proof -
      have "sdom g d f" using that True by (auto simp: sdom_def)
      with I(4) f'(6) that(1) show ?thesis by blast
    qed
    moreover have "length (W f') < length (W f)" using f'(4,5) I(3) by (cases "r ! i > k") auto
    ultimately show ?thesis
      using True i f'(1,3) anc_up[OF i f'(2)] by (auto simp: chase.simps[of r im f])
  qed
qed

lemma intersect_ok:
  assumes inv: "dom_inv g im W"
  shows "f1 < cfg_num g \<Longrightarrow> im ! f1 \<noteq> None \<Longrightarrow> f2 < cfg_num g \<Longrightarrow> im ! f2 \<noteq> None \<Longrightarrow>
    \<exists>x. intersect r im f1 f2 = Some x \<and> idom_anc im x f1 \<and> idom_anc im x f2 \<and>
      (\<forall>d. dominates g d f1 \<longrightarrow> dominates g d f2 \<longrightarrow> dominates g d x)"
proof (induction "length (W f1) + length (W f2)" arbitrary: f1 f2 rule: less_induct)
  case less
  note reach = processed_reachable[OF inv]
  show ?case
  proof (cases "f1 = f2")
    case True
    then have "intersect r im f1 f2 = Some f2" by (subst intersect.simps) (simp add: True)
    with True show ?thesis by (auto intro: anc_refl)
  next
    case False
    have ne: "r ! f1 \<noteq> r ! f2" using r_inj reach less.prems False by blast
    from chase_ok[OF inv r_entry less.prems(1,2), of f2] reach[OF less.prems(3,4)] obtain g1 where
      g1: "chase r im f1 (r ! f2) = Some g1" "idom_anc im g1 f1" "r ! g1 \<le> r ! f2"
        "r ! f1 > r ! f2 \<longrightarrow> length (W g1) < length (W f1)" "r ! f1 \<le> r ! f2 \<longrightarrow> g1 = f1"
        "\<forall>d. r ! d \<le> r ! f2 \<longrightarrow> dominates g d f1 \<longrightarrow> dominates g d g1" by blast
    have p1: "g1 < cfg_num g" "im ! g1 \<noteq> None" using anc_prefix[OF inv g1(2) less.prems(1,2)] by auto
    from chase_ok[OF inv r_entry less.prems(3,4), of g1] reach[OF p1] obtain g2 where
      g2: "chase r im f2 (r ! g1) = Some g2" "idom_anc im g2 f2" "r ! g2 \<le> r ! g1"
        "r ! f2 > r ! g1 \<longrightarrow> length (W g2) < length (W f2)" "r ! f2 \<le> r ! g1 \<longrightarrow> g2 = f2"
        "\<forall>d. r ! d \<le> r ! g1 \<longrightarrow> dominates g d f2 \<longrightarrow> dominates g d g2" by blast
    have p2: "g2 < cfg_num g" "im ! g2 \<noteq> None" using anc_prefix[OF inv g2(2) less.prems(3,4)] by auto
    have "length (W g1) + length (W g2) < length (W f1) + length (W f2)"
    proof (cases "r ! f1 > r ! f2")
      case True
      then show ?thesis using g1(4) g2(4,5) by (cases "r ! f2 > r ! g1") auto
    next
      case False
      then have "g1 = f1" "r ! f2 > r ! g1" using g1(5) ne by auto
      with g2(4) show ?thesis by simp
    qed
    from less.hyps[OF this p1 p2] obtain x where x: "intersect r im g1 g2 = Some x"
      "idom_anc im x g1" "idom_anc im x g2"
      "\<forall>d. dominates g d g1 \<longrightarrow> dominates g d g2 \<longrightarrow> dominates g d x" by blast
    have "dominates g d x" if d: "dominates g d f1" "dominates g d f2" for d
    proof -
      have "dominates g d g1" using g1(6) d r_dom[OF reach[OF less.prems(3,4)]] by blast
      moreover from this have "dominates g d g2" using g2(6) d r_dom[OF reach[OF p1]] by blast
      ultimately show ?thesis using x(4) by blast
    qed
    with False g1(1) g2(1) x idom_anc_trans[OF g1(2) x(2)] idom_anc_trans[OF g2(2) x(3)]
    show ?thesis by (auto simp: intersect.simps[of r im f1])
  qed
qed

lemma dom_merge_ok:
  assumes inv: "dom_inv g im W" and "set ps \<subseteq> {..<cfg_num g}" "a < cfg_num g" "im ! a \<noteq> None"
  shows "\<exists>x. dom_merge r im ps a = Some x \<and> idom_anc im x a \<and>
    (\<forall>p\<in>set ps. im ! p \<noteq> None \<longrightarrow> idom_anc im x p) \<and>
    (\<forall>d. dominates g d a \<longrightarrow> (\<forall>p\<in>set ps. dominates g d p) \<longrightarrow> dominates g d x)"
  using assms(2-)
proof (induction ps arbitrary: a)
  case Nil
  then show ?case by (auto intro: anc_refl)
next
  case (Cons p ps)
  show ?case
  proof (cases "p = a \<or> im ! p = None")
    case True
    then have eq: "dom_merge r im (p # ps) a = dom_merge r im ps a" by auto
    from Cons.IH[of a] Cons.prems obtain x where x: "dom_merge r im ps a = Some x" "idom_anc im x a"
      "\<forall>p\<in>set ps. im ! p \<noteq> None \<longrightarrow> idom_anc im x p"
      "\<forall>d. dominates g d a \<longrightarrow> (\<forall>p\<in>set ps. dominates g d p) \<longrightarrow> dominates g d x" by auto
    with True show ?thesis unfolding eq by auto
  next
    case False
    with Cons.prems intersect_ok[OF inv, of a p] obtain y where y: "intersect r im a p = Some y"
      "idom_anc im y a" "idom_anc im y p"
      "\<forall>d. dominates g d a \<longrightarrow> dominates g d p \<longrightarrow> dominates g d y" by auto
    have "y < cfg_num g" "im ! y \<noteq> None" using anc_prefix[OF inv y(2)] Cons.prems by auto
    with Cons.IH[of y] Cons.prems obtain x where x: "dom_merge r im ps y = Some x" "idom_anc im x y"
      "\<forall>p\<in>set ps. im ! p \<noteq> None \<longrightarrow> idom_anc im x p"
      "\<forall>d. dominates g d y \<longrightarrow> (\<forall>p\<in>set ps. dominates g d p) \<longrightarrow> dominates g d x" by auto
    with False y idom_anc_trans[OF y(2) x(2)] idom_anc_trans[OF y(3) x(2)] show ?thesis by auto
  qed
qed

lemma find_SomeD: "find P xs = Some x \<Longrightarrow> x \<in> set xs \<and> P x"
  by (induction xs) (auto split: if_splits)

text \<open>One block.\<close>

lemma dom_block_ok:
  assumes inv: "dom_inv g im W" and b: "b < cfg_num g"
  shows "\<exists>im' c'. dom_block r g b (im, c) = Some (im', c') \<and> (\<exists>W'. dom_inv g im' W') \<and>
    (\<forall>x. x \<noteq> b \<longrightarrow> im' ! x = im ! x) \<and>
    (\<forall>p\<in>set (preds_of g b). b \<noteq> cfg_entry g \<longrightarrow> im ! p \<noteq> None \<longrightarrow>
       (\<exists>i. im' ! b = Some i \<and> idom_anc im i p)) \<and>
    (if im' = im then c' = c else c')"
proof -
  let ?e = "cfg_entry g" and ?P = "\<lambda>p. im ! p \<noteq> None"
  note D = dom_invD[OF inv]
  show ?thesis
  proof (cases "b = ?e \<or> find ?P (preds_of g b) = None")
    case True
    then have "dom_block r g b (im, c) = Some (im, c)" by (auto simp: dom_block_def)
    moreover have "b \<noteq> ?e \<Longrightarrow> p \<in> set (preds_of g b) \<Longrightarrow> im ! p = None" for p
      using True find_None_iff[of ?P "preds_of g b"] by auto
    ultimately show ?thesis using inv by auto
  next
    case False
    then obtain p where p: "find ?P (preds_of g b) = Some p" and be: "b \<noteq> ?e" by auto
    from find_SomeD[OF p] have pp: "p \<in> set (preds_of g b)" "im ! p \<noteq> None" by auto
    have ps: "set (preds_of g b) \<subseteq> {..<cfg_num g}" using pred_block[OF b] by auto
    with pp have pn: "p < cfg_num g" by auto
    from dom_merge_ok[OF inv ps pn pp(2)] obtain x where x: "dom_merge r im (preds_of g b) p = Some x"
      "\<forall>q\<in>set (preds_of g b). im ! q \<noteq> None \<longrightarrow> idom_anc im x q"
      "\<forall>d. dominates g d p \<longrightarrow> (\<forall>q\<in>set (preds_of g b). dominates g d q) \<longrightarrow> dominates g d x"
      by blast
    define W' where "W' = (if im ! b = None then W(b := W p @ [b]) else W)"
    obtain q where q: "q \<in> set (preds_of g b)" "im ! q \<noteq> None" "W' b = W' q @ [b]"
    proof (cases "im ! b")
      case None
      with pp show thesis by (intro that[of p]) (auto simp: W'_def)
    next
      case (Some i)
      with D(5)[OF b be Some] show thesis by (auto simp: W'_def intro: that)
    qed
    have W': "W' y = W y" if "im ! y \<noteq> None" for y using that by (auto simp: W'_def)
    have qn: "q < cfg_num g" using q ps by auto
    have xq: "prefix (W x) (W q)" "x < cfg_num g" "im ! x \<noteq> None"
      using anc_prefix[OF inv _ qn q(2)] x(2) q by blast+
    have sx: "strict_prefix (W' x) (W' b)"
      unfolding q(3) W'[OF xq(3)] W'[OF q(2)] using xq(1) prefix_length_le
      by (fastforce simp: strict_prefix_def)
    then have xb: "x \<noteq> b" by auto
    have dx: "dominates g d x" if "sdom g d b" for d
      using x(3) sdom_pred[OF that b] pp(1) by blast
    let ?im = "im[b := Some x]"
    have bl: "b < length im" using b D(1) by simp
    have eb: "?im ! y = (if y = b then Some x else im ! y)" for y using bl by auto
    have wb: "walk g (W' b) \<and> last (W' b) = b"
    proof -
      have "walk g (W q)" "last (W q) = q" using D(4)[OF qn q(2)] by auto
      moreover have "b \<in> set (succs_of g q)" using succ_pred[OF qn b] q(1) by blast
      ultimately show ?thesis using q(3) W'[OF q(2)] by (auto intro: walk.walk_step)
    qed
    have inv': "dom_inv g ?im W'"
      unfolding dom_inv_def
    proof (intro conjI allI impI)
      fix y i assume y: "y < cfg_num g" "y \<noteq> ?e" "?im ! y = Some i"
      have "i < cfg_num g \<and> im ! i \<noteq> None \<and> strict_prefix (W' i) (W' y) \<and>
        (\<exists>p\<in>set (preds_of g y). im ! p \<noteq> None \<and> W' y = W' p @ [y]) \<and>
        (\<forall>d. sdom g d y \<longrightarrow> dominates g d i)"
      proof (cases "y = b")
        case True
        with y have "i = x" by (simp add: eb)
        with True xq sx dx q show ?thesis by blast
      next
        case False
        with y have iy: "im ! y = Some i" by (simp add: eb)
        from D(5)[OF y(1,2) iy] W' iy show ?thesis by auto
      qed
      then show "i < cfg_num g" "?im ! i \<noteq> None" "strict_prefix (W' i) (W' y)"
        "\<exists>p\<in>set (preds_of g y). ?im ! p \<noteq> None \<and> W' y = W' p @ [y]"
        "\<And>d. sdom g d y \<Longrightarrow> dominates g d i" by (auto simp: eb)
    next
      fix y assume y: "y < cfg_num g" "?im ! y \<noteq> None"
      show "walk g (W' y)" "last (W' y) = y"
        using wb D(4)[OF y(1)] W'[of y] y(2) by (auto simp: eb split: if_splits)
    qed (use D be W'[of ?e] in \<open>auto simp: eb\<close>)
    have res: "dom_block r g b (im, c) = (if im ! b \<noteq> Some x then Some (?im, True) else Some (im, c))"
      using be p x(1) by (simp add: dom_block_def)
    have same: "im ! b = Some x \<Longrightarrow> ?im = im" by (metis list_update_id)
    show ?thesis
    proof (cases "im ! b = Some x")
      case True
      with res x(2) inv show ?thesis by auto
    next
      case False
      then have "?im \<noteq> im" by (metis eb)
      with False res x(2) inv' show ?thesis by (auto simp: eb)
    qed
  qed
qed

text \<open>One pass raises the length of the covered walks by one.\<close>

lemma covers_mono: "covers g im L b \<Longrightarrow> K \<le> L \<Longrightarrow> covers g im K b"
  unfolding covers_def by fastforce

lemma covers_cong: "im ! b = im' ! b \<Longrightarrow> covers g im L b = covers g im' L b"
  unfolding covers_def by simp

lemma covers_entry: "im ! cfg_entry g \<noteq> None \<Longrightarrow> covers g im L (cfg_entry g)"
  unfolding covers_def by simp

lemma anc_covered:
  assumes inv: "dom_inv g im W" and cov: "\<And>b. covers g im L b"
  shows "idom_anc im a b \<Longrightarrow> walk g ns \<Longrightarrow> last ns = b \<Longrightarrow> length ns \<le> Suc L \<Longrightarrow> a \<in> set ns"
proof (induction arbitrary: ns rule: idom_anc.induct)
  case (anc_refl b)
  then show ?case using walk_not_Nil last_in_set by blast
next
  case (anc_up b i a)
  show ?case
  proof (cases "b = cfg_entry g")
    case True
    with dom_invD(2)[OF inv] anc_up.hyps(1) have "i = b" by simp
    with anc_up show ?thesis by blast
  next
    case False
    from anc_up.prems walk_not_Nil obtain ms where ns: "ns = ms @ [b]" by (metis append_butlast_last_id)
    with cov[of b] anc_up.prems False anc_up.hyps(1) have "i \<in> set ms" by (auto simp: covers_def)
    then obtain us vs where ms: "ms = us @ i # vs" by (meson split_list)
    with anc_up.prems(1) ns have "walk g (us @ [i])" using walk_prefix[of g "us @ [i]" "vs @ [b]"] by simp
    with anc_up.IH[of "us @ [i]"] anc_up.prems ns ms show ?thesis by auto
  qed
qed

lemma dom_block_covers:
  assumes inv: "dom_inv g im W" and cov: "\<And>x. covers g im L x" and b: "b < cfg_num g"
    and im': "\<forall>p\<in>set (preds_of g b). b \<noteq> cfg_entry g \<longrightarrow> im ! p \<noteq> None \<longrightarrow>
       (\<exists>i. im' ! b = Some i \<and> idom_anc im i p)" and e: "im' ! cfg_entry g \<noteq> None"
  shows "covers g im' (Suc L) b"
proof (cases "b = cfg_entry g")
  case True
  then show ?thesis using covers_entry[OF e] by simp
next
  case False
  have "\<exists>i. im' ! b = Some i \<and> i \<in> set ns" if w: "walk g (ns @ [b])" "length ns \<le> Suc L" for ns
  proof -
    have ne: "ns \<noteq> []" using w False by (auto simp: walk_snoc)
    note P = walk_snoc_pred[OF w(1) ne]
    from P(1) ne have "walk g (butlast ns @ [last ns])" by simp
    with cov[of "last ns"] w(2) have "im ! last ns \<noteq> None" unfolding covers_def by fastforce
    with im' P(2) False obtain i where "im' ! b = Some i" "idom_anc im i (last ns)" by blast
    with anc_covered[OF inv cov this(2) P(1) refl w(2)] show ?thesis by blast
  qed
  then show ?thesis unfolding covers_def by force
qed

lemma covers_exact:
  assumes inv: "dom_inv g im W" and cov: "\<And>b. covers g im L b" and L: "cfg_num g \<le> L"
  shows "exact_idoms g im"
proof -
  have "\<exists>i. im ! b = Some i \<and> sdom g i b \<and> (\<forall>d. sdom g d b \<longrightarrow> dominates g d i)"
    if b: "b < cfg_num g" "b \<noteq> cfg_entry g" and r: "reachable g b" for b
  proof -
    have short: "\<exists>i. im ! b = Some i \<and> i \<in> set ns - {b}" if ns: "walk g ns" "last ns = b" for ns
    proof -
      from walk_distinct[OF ns(1)] obtain ms where ms: "walk g ms" "last ms = b" "set ms \<subseteq> set ns" "distinct ms"
        using ns by auto
      obtain us where us: "ms = us @ [b]" using ms walk_not_Nil by (metis append_butlast_last_id)
      have "length us \<le> L" using walk_length[OF ms(1,4)] us L by simp
      with cov[of b] ms(1) b(2) obtain i where "im ! b = Some i" "i \<in> set us"
        unfolding covers_def us by blast
      with ms us show ?thesis by auto
    qed
    from r obtain ns where "walk g ns" "last ns = b" by (auto simp: reachable_def)
    with short obtain i where i: "im ! b = Some i" by blast
    then have "sdom g i b"
      using short \<open>walk g ns\<close> \<open>last ns = b\<close> by (fastforce simp: sdom_def dominates_def)
    with dom_invD(5)[OF inv b i] i show ?thesis by blast
  qed
  moreover have "im ! b = None" if "b < cfg_num g" "\<not> reachable g b" for b
    using processed_reachable[OF inv that(1)] that(2) by blast
  ultimately show ?thesis using dom_invD(1)[OF inv] by (auto simp: exact_idoms_def)
qed

lemma dom_pass_ok:
  assumes inv: "dom_inv g im W" and cov: "\<And>b. covers g im L b"
  shows "\<exists>im' c. dom_pass r g im = Some (im', c) \<and> (\<exists>W'. dom_inv g im' W') \<and>
    (\<forall>b. covers g im' (Suc L) b) \<and> (\<not> c \<longrightarrow> im' = im) \<and> (cfg_num g \<le> L \<longrightarrow> \<not> c)"
proof -
  let ?n = "cfg_num g"
  define P where "P j s \<longleftrightarrow> (\<exists>W'. dom_inv g (fst s) W') \<and> (\<forall>b. covers g (fst s) L b) \<and>
    (\<forall>b<j. covers g (fst s) (Suc L) b) \<and> (\<not> snd s \<longrightarrow> fst s = im) \<and> (?n \<le> L \<longrightarrow> \<not> snd s)"
    for j :: nat and s
  have "\<exists>s'. fold_opt (dom_block r g) [0..<?n] (im, False) = Some s' \<and> P ?n s'"
  proof (rule fold_opt_inv[where P = P])
    show "P 0 (im, False)" using inv cov by (auto simp: P_def)
    fix b s assume b: "b < ?n" and "P b s"
    then obtain x c V where s: "s = (x, c)" and V: "dom_inv g x V" and cx: "\<And>b. covers g x L b"
      and lt: "\<forall>y<b. covers g x (Suc L) y" and unch: "\<not> c \<longrightarrow> x = im" and big: "?n \<le> L \<longrightarrow> \<not> c"
      by (cases s) (auto simp: P_def)
    from dom_block_ok[OF V b, of c] obtain x' c' V' where s': "dom_block r g b (x, c) = Some (x', c')"
      and V': "dom_inv g x' V'" and other: "\<forall>y. y \<noteq> b \<longrightarrow> x' ! y = x ! y"
      and new: "\<forall>p\<in>set (preds_of g b). b \<noteq> cfg_entry g \<longrightarrow> x ! p \<noteq> None \<longrightarrow>
         (\<exists>i. x' ! b = Some i \<and> idom_anc x i p)" and ch: "if x' = x then c' = c else c'" by blast
    have cb: "covers g x' (Suc L) b"
      by (rule dom_block_covers[OF V cx b new]) (simp add: dom_invD(2)[OF V'])
    have cx': "covers g x' L y" for y
      using covers_mono[OF cb, of L] covers_cong[of x' y x L] cx[of y] other by (cases "y = b") auto
    have "x' = x" if "?n \<le> L"
      using exact_unique[OF covers_exact[OF V' cx' that] covers_exact[OF V cx that]]
        dom_invD(2)[OF V] dom_invD(2)[OF V'] by simp
    moreover have "covers g x' (Suc L) y" if "y < Suc b" for y
      using that cb lt other covers_cong[of x' y x "Suc L"] by (cases "y = b") auto
    ultimately have "P (Suc b) (x', c')"
      using V' cx' ch unch big unfolding P_def by (auto split: if_splits)
    with s s' show "\<exists>s'. dom_block r g b s = Some s' \<and> P (Suc b) s'" by auto
  qed simp
  then obtain im' c V where res: "dom_pass r g im = Some (im', c)" and V: "dom_inv g im' V"
    and cl: "\<forall>b<?n. covers g im' (Suc L) b" and rest: "\<not> c \<longrightarrow> im' = im" "?n \<le> L \<longrightarrow> \<not> c"
    by (auto simp: dom_pass_def P_def)
  have "covers g im' (Suc L) b" for b
  proof (cases "b < ?n")
    case False
    then show ?thesis
      unfolding covers_def using reachable_block by (metis last_snoc reachable_def)
  qed (use cl in blast)
  with res V rest show ?thesis by blast
qed

lemma covers_stable:
  assumes inv: "dom_inv g im W" and cov: "\<And>b. covers g im L b" and st: "dom_pass r g im = Some (im, False)"
  shows "covers g im (L + k) b"
proof (induction k arbitrary: b)
  case (Suc k)
  from dom_pass_ok[OF inv Suc] st show ?case by auto
qed (use cov in simp)

lemma dom_iterate_ok:
  "dom_inv g im W \<Longrightarrow> (\<And>b. covers g im L b) \<Longrightarrow>
    \<exists>im' W'. dom_iterate r g im = Some im' \<and> dom_inv g im' W' \<and> exact_idoms g im'"
proof (induction "Suc (cfg_num g) - L" arbitrary: im W L rule: less_induct)
  case less
  from dom_pass_ok[OF less.prems] obtain im' c W' where P: "dom_pass r g im = Some (im', c)"
    "dom_inv g im' W'" "\<And>b. covers g im' (Suc L) b" "\<not> c \<longrightarrow> im' = im" "cfg_num g \<le> L \<longrightarrow> \<not> c" by blast
  show ?case
  proof (cases c)
    case True
    with P(5) have "Suc (cfg_num g) - Suc L < Suc (cfg_num g) - L" by linarith
    from less.hyps[OF this P(2,3)] P(1) True show ?thesis by (simp add: dom_iterate.simps[of r g im])
  next
    case False
    with P(1,4) have st: "dom_pass r g im = Some (im, False)" by simp
    have "exact_idoms g im"
      by (rule covers_exact[OF less.prems(1), of "L + cfg_num g"])
        (use covers_stable[OF less.prems st] in auto)
    with st less.prems(1) show ?thesis by (auto simp: dom_iterate.simps[of r g im])
  qed
qed

lemma dom_iterate_exact:
  "\<exists>im. dom_iterate r g ((replicate (cfg_num g) None)[cfg_entry g := Some (cfg_entry g)]) = Some im \<and>
     exact_idoms g im"
proof -
  let ?im = "(replicate (cfg_num g) None)[cfg_entry g := Some (cfg_entry g)]"
  have eb: "?im ! b = (if b = cfg_entry g then Some (cfg_entry g) else None)" if "b < cfg_num g" for b
    using that entry_block by (simp add: nth_list_update)
  have "dom_inv g ?im (\<lambda>_. [cfg_entry g])"
    unfolding dom_inv_def using entry_block by (auto simp: eb walk.walk_entry)
  moreover have "covers g ?im 0 b" for b
    using entry_block by (auto simp: covers_def walk_snoc eb)
  ultimately show ?thesis using dom_iterate_ok by blast
qed

end

section \<open>The contract of a dominator tree\<close>

locale idom_tree = flow_graph +
  fixes im :: idoms
  assumes exact: "exact_idoms g im"
    and root: "im ! cfg_entry g = None"
begin

definition doms :: "nat \<Rightarrow> nat set" where
  "doms b = {d. dominates g d b}"

lemma doms_less:
  assumes "reachable g b" "sdom g i b" shows "card (doms i) < card (doms b)"
proof (rule psubset_card_mono)
  have "doms b \<subseteq> {..<cfg_num g}"
    using assms(1) dom_reachable reachable_block by (auto simp: doms_def)
  then show "finite (doms b)" using finite_subset by blast
  have i: "reachable g i" using assms dom_reachable by (auto simp: sdom_def)
  have "b \<notin> doms i" using assms dom_antisym[of g i b] i by (auto simp: doms_def sdom_def)
  moreover have "doms i \<subseteq> doms b" using assms dom_trans[of g _ i b] by (auto simp: doms_def sdom_def)
  ultimately show "doms i \<subset> doms b" by (auto simp: doms_def)
qed

lemma dom_entry_eq: "dominates g a (cfg_entry g) \<longleftrightarrow> a = cfg_entry g"
  using dom_antisym[of g a "cfg_entry g"] dom_reachable[of g a "cfg_entry g"] by auto

lemma idom_cases:
  assumes "reachable g b"
  obtains (entry) "b = cfg_entry g" "im ! b = None"
  | (parent) i where "b \<noteq> cfg_entry g" "im ! b = Some i" "sdom g i b" "reachable g i"
      "\<And>d. dominates g d b \<longleftrightarrow> d = b \<or> dominates g d i"
proof (cases "b = cfg_entry g")
  case True
  with root that(1) show thesis by simp
next
  case False
  with assms exact reachable_block obtain i where i: "im ! b = Some i" "sdom g i b"
    "\<forall>d. sdom g d b \<longrightarrow> dominates g d i" unfolding exact_idoms_def by blast
  have "reachable g i" using i(2) assms dom_reachable by (auto simp: sdom_def)
  moreover have "dominates g d b \<longleftrightarrow> d = b \<or> dominates g d i" for d
    using i(2,3) dom_trans[of g d i b] by (auto simp: sdom_def)
  ultimately show thesis using False i that(2) by blast
qed

lemma idom_unreachable: "b < cfg_num g \<Longrightarrow> \<not> reachable g b \<Longrightarrow> im ! b = None"
  using exact by (auto simp: exact_idoms_def)

lemma sdom_idom:
  "reachable g b \<Longrightarrow> sdom g y b \<longleftrightarrow> (\<exists>s. im ! b = Some s \<and> dominates g y s)"
proof (cases rule: idom_cases, assumption, goal_cases)
  case (2 i)
  have "\<not> dominates g b i" using 2 dom_antisym[of g b i] by (auto simp: sdom_def)
  with 2 show ?case by (auto simp: sdom_def)
qed (auto simp: sdom_def dom_entry_eq)

lemma dom_climb_ok: "reachable g b \<Longrightarrow> dom_climb im a (Some b) = Some (dominates g a b)"
proof (induction "card (doms b)" arbitrary: b rule: less_induct)
  case less
  from less.prems show ?case
  proof (cases rule: idom_cases)
    case entry
    from entry(2) have "dom_climb im a (Some b) = Some (b = a)"
      by (simp add: dom_climb.simps[of im a "Some b"] dom_climb.simps[of im a None])
    with entry(1) show ?thesis by (auto simp: dom_entry_eq)
  next
    case (parent i)
    with less.hyps[OF doms_less[OF less.prems parent(3)] parent(4)] show ?thesis
      by (auto simp: dom_climb.simps[of im a "Some b"] sdom_def)
  qed
qed

text \<open>What one climb of the frontier loop adds.\<close>

lemma df_walk_ok:
  "reachable g x \<Longrightarrow> (\<And>s. stop = Some s \<Longrightarrow> dominates g s x) \<Longrightarrow> length df = cfg_num g \<Longrightarrow>
    \<exists>df'. df_walk im bi stop (Some x) df = Some df' \<and> length df' = cfg_num g \<and>
      (\<forall>y<cfg_num g. df' ! y = (if dominates g y x \<and> \<not> (\<exists>s. stop = Some s \<and> dominates g y s)
                                then add_unique bi (df ! y) else df ! y))"
proof (induction "card (doms x)" arbitrary: x df rule: less_induct)
  case less
  note unf = df_walk.simps[of im bi stop "Some x" df]
  show ?case
  proof (cases "stop = Some x")
    case True
    then show ?thesis using unf less.prems by auto
  next
    case go: False
    let ?df = "df[x := add_unique bi (df ! x)]"
    have x: "x < length df" using less.prems reachable_block by simp
    from less.prems(1) show ?thesis
    proof (cases rule: idom_cases)
      case entry
      with go less.prems(2) have "stop = None" by (cases stop) (auto simp: dom_entry_eq)
      with entry(2) have "df_walk im bi stop (Some x) df = Some ?df"
        using go by (subst unf) (simp add: df_walk.simps[of im bi _ None])
      with entry(1) \<open>stop = None\<close> less.prems(3) x show ?thesis
        by (auto simp: dom_entry_eq nth_list_update)
    next
      case (parent i)
      have s: "dominates g s i" if "stop = Some s" for s using less.prems(2)[OF that] parent(5) go that by auto
      from less.hyps[OF doms_less[OF less.prems(1) parent(3)] parent(4) s, of ?df] less.prems(3)
      obtain df' where df': "df_walk im bi stop (Some i) ?df = Some df'" "length df' = cfg_num g"
        "\<forall>y<cfg_num g. df' ! y = (if dominates g y i \<and> \<not> (\<exists>s. stop = Some s \<and> dominates g y s)
                                then add_unique bi (?df ! y) else ?df ! y)" by auto
      have xi: "\<not> dominates g x i" using parent dom_antisym[of g x i] less.prems(1) by (auto simp: sdom_def)
      have xs: "\<not> dominates g x s" if "stop = Some s" for s using s[OF that] xi dom_trans by blast
      have "df' ! y = (if dominates g y x \<and> \<not> (\<exists>s. stop = Some s \<and> dominates g y s)
          then add_unique bi (df ! y) else df ! y)" if "y < cfg_num g" for y
        using df'(3) that parent(5) xi xs x by (cases "y = x") auto
      with df'(1,2) go parent(2) show ?thesis by (simp add: unf)
    qed
  qed
qed

lemma df_pred_ok:
  assumes bi: "bi < cfg_num g" and p: "p \<in> set (preds_of g bi)" and len: "length df = cfg_num g"
  shows "\<exists>df'. df_walk im bi (im ! bi) (Some p) df = Some df' \<and> length df' = cfg_num g \<and>
    (\<forall>y. reachable g y \<longrightarrow> set (df' ! y) = set (df ! y) \<union>
       {b. b = bi \<and> reachable g p \<and> dominates g y p \<and> \<not> sdom g y bi})"
proof (cases "reachable g p")
  case True
  have pb: "p < cfg_num g" using pred_block[OF bi p] .
  have rb: "reachable g bi" using True reachable_succ succ_pred[OF pb bi] p by blast
  have s: "dominates g s p" if "im ! bi = Some s" for s
    using sdom_idom[OF rb, of s] that sdom_pred[OF _ bi p] by auto
  from df_walk_ok[OF True s len] obtain df' where "df_walk im bi (im ! bi) (Some p) df = Some df'"
    "length df' = cfg_num g" "\<forall>y<cfg_num g. df' ! y =
       (if dominates g y p \<and> \<not> (\<exists>s. im ! bi = Some s \<and> dominates g y s)
        then add_unique bi (df ! y) else df ! y)" by blast
  with sdom_idom[OF rb] True reachable_block show ?thesis by (intro exI[of _ df']) auto
next
  case False
  have pb: "p < cfg_num g" using pred_block[OF bi p] .
  have none: "im ! p = None" using idom_unreachable[OF pb False] .
  have "im ! bi \<noteq> Some p"
  proof
    assume s: "im ! bi = Some p"
    with idom_unreachable[OF bi] have rb: "reachable g bi" by fastforce
    from sdom_idom[OF rb, of p] s have "sdom g p bi" by simp
    with rb dom_reachable False show False by (auto simp: sdom_def)
  qed
  with none False len pb show ?thesis
    by (auto simp: df_walk.simps[of im bi _ "Some p"] df_walk.simps[of im bi _ None] nth_list_update)
qed

lemma df_preds_ok:
  assumes "bi < cfg_num g"
  shows "set ps \<subseteq> set (preds_of g bi) \<Longrightarrow> length df = cfg_num g \<Longrightarrow>
    \<exists>df'. fold_opt (\<lambda>p. df_walk im bi (im ! bi) (Some p)) ps df = Some df' \<and> length df' = cfg_num g \<and>
    (\<forall>y. reachable g y \<longrightarrow> set (df' ! y) = set (df ! y) \<union>
       {b. b = bi \<and> (\<exists>p\<in>set ps. reachable g p \<and> dominates g y p) \<and> \<not> sdom g y bi})"
proof (induction ps arbitrary: df)
  case (Cons p ps)
  from df_pred_ok[OF assms _ Cons.prems(2), of p] Cons.prems(1) obtain df1 where
    1: "df_walk im bi (im ! bi) (Some p) df = Some df1" "length df1 = cfg_num g"
    "\<forall>y. reachable g y \<longrightarrow> set (df1 ! y) = set (df ! y) \<union>
       {b. b = bi \<and> reachable g p \<and> dominates g y p \<and> \<not> sdom g y bi}" by auto
  from Cons.IH[OF _ 1(2)] Cons.prems(1) obtain df2 where
    2: "fold_opt (\<lambda>p. df_walk im bi (im ! bi) (Some p)) ps df1 = Some df2" "length df2 = cfg_num g"
    "\<forall>y. reachable g y \<longrightarrow> set (df2 ! y) = set (df1 ! y) \<union>
       {b. b = bi \<and> (\<exists>p\<in>set ps. reachable g p \<and> dominates g y p) \<and> \<not> sdom g y bi}" by auto
  from 1 2 show ?case by (intro exI[of _ df2]) auto
qed simp

lemma df_blocks_ok:
  "\<exists>df. fold_opt (df_block im g) [0..<cfg_num g] (replicate (cfg_num g) []) = Some df \<and>
    length df = cfg_num g \<and>
    (\<forall>y b. reachable g y \<longrightarrow> b \<in> set (df ! y) \<longleftrightarrow> b < cfg_num g \<and> 2 \<le> length (preds_of g b) \<and>
       (\<exists>p\<in>set (preds_of g b). reachable g p \<and> dominates g y p) \<and> \<not> sdom g y b)"
proof -
  define P where "P j df \<longleftrightarrow> length df = cfg_num g \<and>
    (\<forall>y b. reachable g y \<longrightarrow> b \<in> set (df ! y) \<longleftrightarrow> b < j \<and> 2 \<le> length (preds_of g b) \<and>
       (\<exists>p\<in>set (preds_of g b). reachable g p \<and> dominates g y p) \<and> \<not> sdom g y b)"
    for j :: nat and df :: "nat list list"
  have "\<exists>df. fold_opt (df_block im g) [0..<cfg_num g] (replicate (cfg_num g) []) = Some df \<and> P (cfg_num g) df"
  proof (rule fold_opt_inv[where P = P])
    show "P 0 (replicate (cfg_num g) [])" using reachable_block by (auto simp: P_def)
    fix b df assume b: "b < cfg_num g" and P: "P b df"
    then have len: "length df = cfg_num g" by (simp add: P_def)
    show "\<exists>df'. df_block im g b df = Some df' \<and> P (Suc b) df'"
    proof (cases "length (preds_of g b) < 2")
      case True
      with P show ?thesis by (auto simp: df_block_def P_def less_Suc_eq)
    next
      case False
      from df_preds_ok[OF b subset_refl len] obtain df' where
        df': "fold_opt (\<lambda>p. df_walk im b (im ! b) (Some p)) (preds_of g b) df = Some df'"
        "length df' = cfg_num g"
        "\<forall>y. reachable g y \<longrightarrow> set (df' ! y) = set (df ! y) \<union>
         {c. c = b \<and> (\<exists>p\<in>set (preds_of g b). reachable g p \<and> dominates g y p) \<and> \<not> sdom g y b}" by blast
      from df'(2,3) P False have "P (Suc b) df'" unfolding P_def by (auto simp: less_Suc_eq)
      with df'(1) False show ?thesis by (simp add: df_block_def)
    qed
  qed simp
  then show ?thesis unfolding P_def by blast
qed

end

section \<open>The built tree\<close>

text \<open>The textbook dominance frontier, over the reachable predecessors.\<close>

definition dom_frontier :: "cfg \<Rightarrow> nat \<Rightarrow> nat \<Rightarrow> bool" where
  "dom_frontier g y b \<longleftrightarrow>
     (\<exists>p\<in>set (preds_of g b). reachable g p \<and> dominates g y p) \<and> \<not> sdom g y b"

context flow_graph
begin

text \<open>A block other than the entry with one predecessor is in no frontier.\<close>

lemma single_pred_no_frontier:
  assumes b: "b < cfg_num g" "b \<noteq> cfg_entry g" and l: "length (preds_of g b) < 2"
  shows "\<not> dom_frontier g y b"
proof
  assume "dom_frontier g y b"
  then obtain p where p: "p \<in> set (preds_of g b)" "reachable g p" "dominates g y p" "\<not> sdom g y b"
    by (auto simp: dom_frontier_def)
  then have ps: "preds_of g b = [p]" using l by (cases "preds_of g b") auto
  have via: "ns \<noteq> [] \<and> walk g ns \<and> last ns = p" if "walk g (ns @ [b])" for ns
  proof -
    have ne: "ns \<noteq> []" using that b(2) by (auto simp: walk_snoc)
    from walk_snoc_pred[OF that ne] ne ps show ?thesis by simp
  qed
  have "dominates g y b"
    unfolding dominates_def
  proof (intro allI impI)
    fix ns assume ns: "walk g ns" "last ns = b"
    then obtain ms where "ns = ms @ [b]" using walk_not_Nil by (metis append_butlast_last_id)
    with via[of ms] ns p(3) show "y \<in> set ns" by (auto simp: dominates_def)
  qed
  with p(3,4) have yb: "dominates g b p" by (simp add: sdom_def)
  have "reachable g b" using p(1,2) reachable_succ succ_pred pred_block b(1) by blast
  then obtain ns where "walk g ns" "last ns = b" by (auto simp: reachable_def)
  from walk_distinct[OF this(1)] this(2) obtain ms where "walk g ms" "last ms = b" "distinct ms" by auto
  then obtain us where "walk g (us @ [b])" "distinct (us @ [b])"
    using walk_not_Nil by (metis append_butlast_last_id)
  with via[of us] yb show False by (auto simp: dominates_def)
qed

end

lemma domtree_built:
  "\<exists>dt. domtree_build True (cfg_build insts) = Some dt \<and> idom_tree (cfg_build insts) (dt_idom dt) \<and>
     (\<forall>y b. reachable (cfg_build insts) y \<longrightarrow> b \<in> set (dt_df dt ! y) \<longleftrightarrow>
        b < cfg_num (cfg_build insts) \<and> 2 \<le> length (preds_of (cfg_build insts) b) \<and>
        dom_frontier (cfg_build insts) y b)"
proof -
  let ?g = "cfg_build insts"
  from numbered.dom_iterate_exact obtain im where im:
    "dom_iterate (build_rpo insts) ?g ((replicate (cfg_num ?g) None)[cfg_entry ?g := Some (cfg_entry ?g)]) = Some im"
    "exact_idoms ?g im" by blast
  let ?im = "im[cfg_entry ?g := None]"
  have "exact_idoms ?g ?im" using im(2) by (auto simp: exact_idoms_def)
  moreover have "?im ! cfg_entry ?g = None"
    using im(2) built.entry_block by (simp add: exact_idoms_def)
  ultimately have tree: "idom_tree ?g ?im"
    by unfold_locales
  from idom_tree.df_blocks_ok[OF tree] obtain df where
    df: "fold_opt (df_block ?im ?g) [0..<cfg_num ?g] (replicate (cfg_num ?g) []) = Some df"
    "\<forall>y b. reachable ?g y \<longrightarrow> b \<in> set (df ! y) \<longleftrightarrow> b < cfg_num ?g \<and> 2 \<le> length (preds_of ?g b) \<and>
       (\<exists>p\<in>set (preds_of ?g b). reachable ?g p \<and> dominates ?g y p) \<and> \<not> sdom ?g y b" by blast
  have "domtree_build True ?g = Some \<lparr>dt_idom = ?im, dt_df = df, dt_n = cfg_num ?g\<rparr>"
    unfolding domtree_build_def Let_def build_rpo option.case im(1) df(1) by simp
  with tree df(2) show ?thesis by (auto simp: dom_frontier_def)
qed

definition build_dt :: "ir_inst list \<Rightarrow> dom_tree" where
  "build_dt insts = the (domtree_build True (cfg_build insts))"

lemma build_dt:
  "domtree_build True (cfg_build insts) = Some (build_dt insts)"
  "idom_tree (cfg_build insts) (dt_idom (build_dt insts))"
  "reachable (cfg_build insts) y \<Longrightarrow> b \<in> set (dt_df (build_dt insts) ! y) \<longleftrightarrow>
     b < cfg_num (cfg_build insts) \<and> 2 \<le> length (preds_of (cfg_build insts) b) \<and>
     dom_frontier (cfg_build insts) y b"
  using domtree_built[of insts] by (auto simp: build_dt_def)

interpretation tree: idom_tree "cfg_build insts" "dt_idom (build_dt insts)" for insts
  by (rule build_dt)

section \<open>The properties\<close>

lemma diamond_dt:
  "cfg_num (cfg_build diamond_insts) = 4"
  "domtree_build True (cfg_build diamond_insts) =
     Some \<lparr>dt_idom = [None, Some 0, Some 0, Some 0], dt_df = [[], [3], [3], []], dt_n = 4\<rparr>"
  by code_simp+

text \<open>
  C4.  \<open>domtree_build\<close> returns on every graph \<open>cfg_build\<close> makes (although its fixpoint loop and its
  chain walks have no bound), and the \<open>idom\<close> array it returns holds the immediate dominators: the
  entry and the unreachable blocks have none, and every other block's is the strict dominator that
  all its other strict dominators dominate.
\<close>

theorem domtree_build_correct:
  "\<exists>dt. domtree_build True (cfg_build insts) = Some dt \<and>
     length (dt_idom dt) = cfg_num (cfg_build insts) \<and>
     (\<forall>b<cfg_num (cfg_build insts).
        dt_idom dt ! b = None \<longleftrightarrow> b = cfg_entry (cfg_build insts) \<or> \<not> reachable (cfg_build insts) b) \<and>
     (\<forall>b<cfg_num (cfg_build insts). \<forall>i. dt_idom dt ! b = Some i \<longrightarrow>
        sdom (cfg_build insts) i b \<and>
        (\<forall>d. sdom (cfg_build insts) d b \<longrightarrow> dominates (cfg_build insts) d i))"
proof (intro exI[of _ "build_dt insts"] conjI allI impI)
  let ?g = "cfg_build insts" and ?im = "dt_idom (build_dt insts)"
  show "length ?im = cfg_num ?g" using tree.exact by (auto simp: exact_idoms_def)
  fix b assume b: "b < cfg_num ?g"
  show "?im ! b = None \<longleftrightarrow> b = cfg_entry ?g \<or> \<not> reachable ?g b"
    using tree.exact tree.root b unfolding exact_idoms_def by (metis option.simps(3))
  fix i assume i: "?im ! b = Some i"
  then have "reachable ?g b" using tree.idom_unreachable[OF b] by fastforce
  then show "sdom ?g i b" "\<And>d. sdom ?g d b \<Longrightarrow> dominates ?g d i"
    using i tree.sdom_idom[of insts b] by auto
qed (rule build_dt)

theorem domtree_build_witness:
  "sdom (cfg_build diamond_insts) 0 3 \<and> \<not> (sdom (cfg_build diamond_insts) 3 3)"
proof -
  have "sdom (cfg_build diamond_insts) 0 3"
    using domtree_build_correct[of diamond_insts] diamond_dt by auto
  then show ?thesis by (simp add: sdom_def)
qed

text \<open>
  C5.  \<open>domtree_dominates\<close> on the built tree returns and decides dominance of a reachable block.
\<close>

theorem domtree_dominates_correct:
  assumes "domtree_build True (cfg_build insts) = Some dt" "reachable (cfg_build insts) b"
  shows "domtree_dominates dt a b = Some (dominates (cfg_build insts) a b)"
  using assms build_dt(1)[of insts] tree.dom_climb_ok[of insts b a] by (simp add: domtree_dominates_def)

theorem domtree_dominates_witness:
  "\<not> dominates (cfg_build diamond_insts) 1 3"
proof -
  have "domtree_dominates \<lparr>dt_idom = [None, Some 0, Some 0, Some 0], dt_df = [[], [3], [3], []], dt_n = 4\<rparr> 1 3
      = Some False" by code_simp
  with domtree_dominates_correct[OF diamond_dt(2) diamond_reachable(2), of 1] show ?thesis by simp
qed

text \<open>
  C6.  The frontier lists of the built tree are the dominance frontiers, with one exception: a block is
  in no list if it is the entry and has exactly one incoming edge.  The loop skips blocks with fewer
  than two predecessors; for every block but the entry that is right, but an entry with one back edge
  has two ways in (see \<open>entry_frontier_missed\<close>).
\<close>

theorem dominance_frontier_correct:
  assumes "domtree_build True (cfg_build insts) = Some dt" "reachable (cfg_build insts) y"
  shows "b \<in> set (dt_df dt ! y) \<longleftrightarrow> b < cfg_num (cfg_build insts) \<and> dom_frontier (cfg_build insts) y b \<and>
    \<not> (b = cfg_entry (cfg_build insts) \<and> length (preds_of (cfg_build insts) b) = 1)"
proof (cases "2 \<le> length (preds_of (cfg_build insts) b)")
  case True
  with assms build_dt(1,3)[of insts] show ?thesis by auto
next
  case False
  have "preds_of (cfg_build insts) b \<noteq> []" if "dom_frontier (cfg_build insts) y b"
    using that by (auto simp: dom_frontier_def)
  then have "length (preds_of (cfg_build insts) b) = 1" if "dom_frontier (cfg_build insts) y b"
    using that False by (cases "preds_of (cfg_build insts) b") (auto simp: Suc_le_eq)
  with False built.single_pred_no_frontier[of b insts] assms(1,2) build_dt(1)[of insts] build_dt(3)[of insts y b]
  show ?thesis by auto
qed

theorem dominance_frontier_witness: "dom_frontier (cfg_build diamond_insts) 1 3"
proof -
  have "3 \<in> set (dt_df \<lparr>dt_idom = [None, Some 0, Some 0, Some 0], dt_df = [[], [3], [3], []], dt_n = 4\<rparr> ! 1)"
    by simp
  with dominance_frontier_correct[OF diamond_dt(2) diamond_reachable(1)] show ?thesis by blast
qed

text \<open>A loop whose head is the entry of the function: the entry is in its own frontier and in no list.\<close>

definition entry_loop :: "ir_inst list" where
  "entry_loop = [mk_inst IR_LABEL (-1) (-1) (-1) 0 0, mk_inst IR_BR (-1) (-1) (-1) 0 0]"

lemma entry_frontier_missed:
  "dom_frontier (cfg_build entry_loop) 0 0 \<and>
   domtree_build True (cfg_build entry_loop) = Some \<lparr>dt_idom = [None], dt_df = [[]], dt_n = 1\<rparr>"
proof
  have g: "cfg_entry (cfg_build entry_loop) = 0" "0 \<in> set (preds_of (cfg_build entry_loop) 0)" by code_simp+
  have w: "walk (cfg_build entry_loop) [0]" using walk_entry[of "cfg_build entry_loop"] g(1) by simp
  have "dominates (cfg_build entry_loop) 0 0" unfolding dominates_def using walk_not_Nil last_in_set by metis
  then show "dom_frontier (cfg_build entry_loop) 0 0"
    using g w by (auto simp: dom_frontier_def reachable_def sdom_def)
  show "domtree_build True (cfg_build entry_loop) = Some \<lparr>dt_idom = [None], dt_df = [[]], dt_n = 1\<rparr>" by code_simp
qed

end
