(* ===== verification/Phi.thy ===== *)
theory Phi
  imports Domtree
begin

text \<open>
  Placement of the phi nodes, the first phase of \<open>src/mem2reg.c\<close> (\<open>mem2reg_place_phis\<close>,
  \<open>include/fakecc/phi.h\<close>): one worklist per promoted stack slot walks the dominance frontiers from
  the blocks that store to the slot.  The specification is the iterated dominance frontier, an
  inductive predicate.  A growing C array is a list; the worklist and the rename stacks, which grow
  and shrink at their end, are lists with the end first.
\<close>

section \<open>Data\<close>

record phi_arg =
  pa_val :: int
  pa_pred :: nat

record ir_phi =
  phi_dst :: int
  phi_slot :: int
  phi_args :: "phi_arg list"
  phi_loc :: source_loc

type_synonym block_phi_info = "ir_phi list"

definition block_has_phi_for :: "block_phi_info \<Rightarrow> int \<Rightarrow> bool" where
  "block_has_phi_for bp slot \<longleftrightarrow> (\<exists>phi\<in>set bp. phi_slot phi = slot)"

definition block_add_phi :: "block_phi_info \<Rightarrow> int \<Rightarrow> int \<Rightarrow> source_loc \<Rightarrow> block_phi_info" where
  "block_add_phi bp slot dst loc =
     bp @ [\<lparr>phi_dst = dst, phi_slot = slot, phi_args = [], phi_loc = loc\<rparr>]"

section \<open>The placement loop\<close>

record place =
  pl_bp :: "block_phi_info list"
  pl_next :: int
  pl_is_def :: "bool list"
  pl_wl :: "nat list"

definition place_df :: "int \<Rightarrow> nat \<Rightarrow> place \<Rightarrow> place" where
  "place_df slot y s =
     (if block_has_phi_for (pl_bp s ! y) slot then s
      else
        let d = pl_next s;
            s1 = s\<lparr>pl_next := d + 1,
                   pl_bp := (pl_bp s)[y := block_add_phi (pl_bp s ! y) slot d no_loc]\<rparr>
        in if pl_is_def s1 ! y then s1
           else s1\<lparr>pl_is_def := (pl_is_def s1)[y := True], pl_wl := y # pl_wl s1\<rparr>)"

partial_function (option) place_loop :: "dom_tree \<Rightarrow> int \<Rightarrow> place \<Rightarrow> place option" where
  "place_loop dt slot s =
     (case pl_wl s of
        [] \<Rightarrow> Some s
      | x # wl \<Rightarrow> place_loop dt slot (fold (place_df slot) (dt_df dt ! x) (s\<lparr>pl_wl := wl\<rparr>)))"

declare place_loop.simps [code]

definition place_seed :: "bool list list \<Rightarrow> nat \<Rightarrow> nat \<Rightarrow> place \<Rightarrow> place" where
  "place_seed stores ai bi s =
     (if stores ! bi ! ai
      then s\<lparr>pl_is_def := (pl_is_def s)[bi := True], pl_wl := bi # pl_wl s\<rparr> else s)"

definition place_slot :: "bool \<Rightarrow> cfg \<Rightarrow> dom_tree \<Rightarrow> int list \<Rightarrow> bool list list \<Rightarrow> nat \<Rightarrow>
    block_phi_info list \<times> int \<Rightarrow> (block_phi_info list \<times> int) option" where
  "place_slot calloc_ok g dt slots stores ai = (\<lambda>(bp, next_id).
     if \<not> calloc_ok then Some (bp, next_id)
     else
       let n = cfg_num g;
           s0 = \<lparr>pl_bp = bp, pl_next = next_id, pl_is_def = replicate n False, pl_wl = []\<rparr>;
           s1 = fold (place_seed stores ai) [0..<n] s0
       in case place_loop dt (slots ! ai) s1 of
            None \<Rightarrow> None
          | Some s \<Rightarrow> Some (pl_bp s, pl_next s))"

definition mem2reg_place_phis :: "bool \<Rightarrow> cfg \<Rightarrow> dom_tree \<Rightarrow> int list \<Rightarrow> bool list list \<Rightarrow> int \<Rightarrow>
    (block_phi_info list \<times> int) option" where
  "mem2reg_place_phis calloc_ok g dt slots stores next_id =
     (if slots = [] then Some (replicate (cfg_num g) [], next_id)
      else fold_opt (place_slot calloc_ok g dt slots stores) [0..<length slots]
             (replicate (cfg_num g) [], next_id))"

section \<open>The iterated dominance frontier\<close>

inductive iter_df :: "(nat \<Rightarrow> nat set) \<Rightarrow> nat set \<Rightarrow> nat \<Rightarrow> bool" for df S where
  idf_def: "x \<in> S \<Longrightarrow> y \<in> df x \<Longrightarrow> iter_df df S y"
| idf_phi: "iter_df df S x \<Longrightarrow> y \<in> df x \<Longrightarrow> iter_df df S y"

text \<open>
  It is the least set of blocks that contains the frontier of every definition, when the blocks of
  the set count as definitions.
\<close>

lemma iter_df_least:
  assumes "\<And>x y. x \<in> S \<union> T \<Longrightarrow> y \<in> df x \<Longrightarrow> y \<in> T"
  shows "iter_df df S y \<Longrightarrow> y \<in> T"
  by (induction rule: iter_df.induct) (use assms in blast)+

section \<open>What a placement adds\<close>

text \<open>
  \<open>phis_ok n lo hi bp\<close>: at most one phi per slot and block, no arguments yet, and results that are
  pairwise different ids between \<open>lo\<close> and \<open>hi\<close>.
\<close>

definition phis_ok :: "nat \<Rightarrow> int \<Rightarrow> int \<Rightarrow> block_phi_info list \<Rightarrow> bool" where
  "phis_ok n lo hi bp \<longleftrightarrow> length bp = n \<and> lo \<le> hi \<and>
     (\<forall>y<n. distinct (map phi_slot (bp ! y)) \<and>
        (\<forall>p\<in>set (bp ! y). lo \<le> phi_dst p \<and> phi_dst p < hi \<and> phi_args p = [])) \<and>
     (\<forall>y<n. \<forall>z<n. \<forall>p\<in>set (bp ! y). \<forall>q\<in>set (bp ! z). phi_dst p = phi_dst q \<longrightarrow> y = z \<and> p = q)"

lemma phis_okD:
  assumes "phis_ok n lo hi bp"
  shows "length bp = n" "lo \<le> hi" "\<And>y. y < n \<Longrightarrow> distinct (map phi_slot (bp ! y))"
    "\<And>y p. y < n \<Longrightarrow> p \<in> set (bp ! y) \<Longrightarrow> lo \<le> phi_dst p \<and> phi_dst p < hi \<and> phi_args p = []"
    "\<And>y z p q. y < n \<Longrightarrow> z < n \<Longrightarrow> p \<in> set (bp ! y) \<Longrightarrow> q \<in> set (bp ! z) \<Longrightarrow>
       phi_dst p = phi_dst q \<Longrightarrow> y = z \<and> p = q"
  using assms unfolding phis_ok_def by blast+

lemma has_phi_add [simp]:
  "block_has_phi_for (block_add_phi bp slot d l) s \<longleftrightarrow> s = slot \<or> block_has_phi_for bp s"
  by (auto simp: block_has_phi_for_def block_add_phi_def)

lemma phis_ok_add:
  assumes ok: "phis_ok n lo hi bp" and y: "y < n" and new: "\<not> block_has_phi_for (bp ! y) slot"
  shows "phis_ok n lo (hi + 1) (bp[y := block_add_phi (bp ! y) slot hi no_loc])" (is "phis_ok n lo _ ?bp")
proof -
  note D = phis_okD[OF ok]
  let ?new = "\<lparr>phi_dst = hi, phi_slot = slot, phi_args = [], phi_loc = no_loc\<rparr>"
  have mem: "p \<in> set (?bp ! z) \<longleftrightarrow> p \<in> set (bp ! z) \<or> z = y \<and> p = ?new" if "z < n" for p z
    using that y D(1) by (auto simp: block_add_phi_def nth_list_update)
  show ?thesis
    unfolding phis_ok_def
  proof (intro conjI allI impI ballI)
    show "length ?bp = n" "lo \<le> hi + 1" using D(1,2) by auto
    fix z assume z: "z < n"
    have "slot \<notin> phi_slot ` set (bp ! y)" using new by (auto simp: block_has_phi_for_def)
    then show "distinct (map phi_slot (?bp ! z))"
      using D(3)[OF z] y D(1) by (auto simp: block_add_phi_def nth_list_update)
    fix p assume p: "p \<in> set (?bp ! z)"
    show "lo \<le> phi_dst p" "phi_dst p < hi + 1" "phi_args p = []"
      using p mem[OF z] D(2) D(4)[OF z, of p] by auto
  next
    fix z w p q assume zw: "z < n" "w < n" and p: "p \<in> set (?bp ! z)" and q: "q \<in> set (?bp ! w)"
      and eq: "phi_dst p = phi_dst q"
    from p q have pq: "p \<in> set (bp ! z) \<or> z = y \<and> p = ?new" "q \<in> set (bp ! w) \<or> w = y \<and> q = ?new"
      using mem zw by blast+
    have "z = w \<and> p = q"
      using pq eq D(4)[OF zw(1), of p] D(4)[OF zw(2), of q] D(5)[OF zw, of p q] by auto
    then show "z = w" "p = q" by auto
  qed
qed

text \<open>The loop for one slot, from blocks \<open>S\<close> that store to it.\<close>

definition place_inv :: "nat \<Rightarrow> int \<Rightarrow> (nat \<Rightarrow> nat set) \<Rightarrow> nat set \<Rightarrow> int \<Rightarrow> block_phi_info list \<Rightarrow> place \<Rightarrow> bool" where
  "place_inv n lo df S slot bp0 s \<longleftrightarrow>
     phis_ok n lo (pl_next s) (pl_bp s) \<and> length (pl_is_def s) = n \<and>
     (\<forall>y<n. pl_is_def s ! y \<longleftrightarrow> y \<in> S \<or> block_has_phi_for (pl_bp s ! y) slot) \<and>
     (\<forall>y<n. block_has_phi_for (pl_bp s ! y) slot \<longrightarrow> iter_df df S y) \<and>
     (\<forall>x\<in>set (pl_wl s). x < n \<and> pl_is_def s ! x) \<and>
     (\<forall>y<n. \<forall>t. t \<noteq> slot \<longrightarrow> block_has_phi_for (pl_bp s ! y) t \<longleftrightarrow> block_has_phi_for (bp0 ! y) t)"

lemma place_invD:
  assumes "place_inv n lo df S slot bp0 s"
  shows "phis_ok n lo (pl_next s) (pl_bp s)" "length (pl_is_def s) = n"
    "\<And>y. y < n \<Longrightarrow> pl_is_def s ! y \<longleftrightarrow> y \<in> S \<or> block_has_phi_for (pl_bp s ! y) slot"
    "\<And>y. y < n \<Longrightarrow> block_has_phi_for (pl_bp s ! y) slot \<Longrightarrow> iter_df df S y"
    "\<And>x. x \<in> set (pl_wl s) \<Longrightarrow> x < n \<and> pl_is_def s ! x"
    "\<And>y t. y < n \<Longrightarrow> t \<noteq> slot \<Longrightarrow> block_has_phi_for (pl_bp s ! y) t \<longleftrightarrow> block_has_phi_for (bp0 ! y) t"
  using assms unfolding place_inv_def by blast+

text \<open>Blocks still without a phi for the slot: what bounds the loop.\<close>

definition phi_less :: "nat \<Rightarrow> int \<Rightarrow> place \<Rightarrow> nat" where
  "phi_less n slot s = card {y. y < n \<and> \<not> block_has_phi_for (pl_bp s ! y) slot}"

text \<open>
  One frontier block.  The definitions off the worklist keep the property that their frontiers
  have phis; \<open>settled\<close> names it.
\<close>

definition settled :: "int \<Rightarrow> (nat \<Rightarrow> nat set) \<Rightarrow> place \<Rightarrow> nat \<Rightarrow> bool" where
  "settled slot df s x \<longleftrightarrow> x \<in> set (pl_wl s) \<or> (\<forall>y\<in>df x. block_has_phi_for (pl_bp s ! y) slot)"

lemma place_df_ok:
  assumes inv: "place_inv n lo df S slot bp0 s" and y: "y < n" and idf: "iter_df df S y"
  defines "s' \<equiv> place_df slot y s"
  shows "place_inv n lo df S slot bp0 s'"
    and "block_has_phi_for (pl_bp s' ! y) slot"
    and "\<And>z. z < n \<Longrightarrow> block_has_phi_for (pl_bp s ! z) slot \<Longrightarrow> block_has_phi_for (pl_bp s' ! z) slot"
    and "set (pl_wl s) \<subseteq> set (pl_wl s')"
    and "\<And>x. x < n \<Longrightarrow> pl_is_def s' ! x \<Longrightarrow> pl_is_def s ! x \<or> x \<in> set (pl_wl s')"
    and "\<And>x. x < n \<Longrightarrow> pl_is_def s ! x \<Longrightarrow> pl_is_def s' ! x"
    and "phi_less n slot s' + length (pl_wl s') \<le> phi_less n slot s + length (pl_wl s)"
proof -
  note D = place_invD[OF inv]
  note len = phis_okD(1)[OF D(1)]
  show "place_inv n lo df S slot bp0 s'"
  proof (cases "block_has_phi_for (pl_bp s ! y) slot")
    case False
    from phis_ok_add[OF D(1) y False] show ?thesis
      using D(2-6) y len idf False
      unfolding place_inv_def s'_def place_df_def Let_def
      by (auto simp: nth_list_update)
  qed (use inv in \<open>simp add: s'_def place_df_def\<close>)
  show "block_has_phi_for (pl_bp s' ! y) slot"
    using y len by (auto simp: s'_def place_df_def Let_def)
  show "block_has_phi_for (pl_bp s' ! z) slot" if "z < n" "block_has_phi_for (pl_bp s ! z) slot" for z
    using that y len by (auto simp: s'_def place_df_def Let_def nth_list_update)
  show "set (pl_wl s) \<subseteq> set (pl_wl s')"
    by (auto simp: s'_def place_df_def Let_def)
  show "pl_is_def s ! x \<or> x \<in> set (pl_wl s')" if "x < n" "pl_is_def s' ! x" for x
    using that y D(2) by (auto simp: s'_def place_df_def Let_def nth_list_update split: if_splits)
  show "pl_is_def s' ! x" if "x < n" "pl_is_def s ! x" for x
    using that y D(2) by (auto simp: s'_def place_df_def Let_def nth_list_update)
  show "phi_less n slot s' + length (pl_wl s') \<le> phi_less n slot s + length (pl_wl s)"
  proof (cases "block_has_phi_for (pl_bp s ! y) slot")
    case False
    have b: "pl_bp s' = (pl_bp s)[y := block_add_phi (pl_bp s ! y) slot (pl_next s) no_loc]"
      using False by (auto simp: s'_def place_df_def Let_def)
    have "{z. z < n \<and> \<not> block_has_phi_for (pl_bp s' ! z) slot} =
        {z. z < n \<and> \<not> block_has_phi_for (pl_bp s ! z) slot} - {y}"
      using y len by (auto simp: b nth_list_update)
    then have "phi_less n slot s' = phi_less n slot s - 1" "0 < phi_less n slot s"
      using y False by (auto simp: phi_less_def card_gt_0_iff)
    moreover have "length (pl_wl s') \<le> Suc (length (pl_wl s))"
      by (auto simp: s'_def place_df_def Let_def)
    ultimately show ?thesis by linarith
  qed (simp add: s'_def place_df_def)
qed

lemma place_frontier_ok:
  assumes "place_inv n lo df S slot bp0 s" "\<And>y. y \<in> set ys \<Longrightarrow> y < n \<and> iter_df df S y"
  defines "s' \<equiv> fold (place_df slot) ys s"
  shows "place_inv n lo df S slot bp0 s' \<and> (\<forall>y\<in>set ys. block_has_phi_for (pl_bp s' ! y) slot) \<and>
    (\<forall>z<n. block_has_phi_for (pl_bp s ! z) slot \<longrightarrow> block_has_phi_for (pl_bp s' ! z) slot) \<and>
    set (pl_wl s) \<subseteq> set (pl_wl s') \<and>
    (\<forall>x<n. pl_is_def s' ! x \<longrightarrow> pl_is_def s ! x \<or> x \<in> set (pl_wl s')) \<and>
    (\<forall>x<n. pl_is_def s ! x \<longrightarrow> pl_is_def s' ! x) \<and>
    phi_less n slot s' + length (pl_wl s') \<le> phi_less n slot s + length (pl_wl s)"
  using assms(1,2) unfolding s'_def
proof (induction ys arbitrary: s)
  case (Cons y ys)
  have y: "y < n" "iter_df df S y" using Cons.prems(2) by auto
  note P = place_df_ok[OF Cons.prems(1) y]
  note I = Cons.IH[OF P(1) Cons.prems(2)[OF list.set_intros(2)]]
  show ?case
    using I P(2) P(3) P(4) P(5) P(6) P(7) y by (simp add: subset_iff) (meson order.trans)
qed simp

definition df_bound :: "nat \<Rightarrow> dom_tree \<Rightarrow> bool" where
  "df_bound n dt \<longleftrightarrow> (\<forall>x<n. \<forall>y\<in>set (dt_df dt ! x). y < n)"

lemma df_boundD: "df_bound n dt \<Longrightarrow> x < n \<Longrightarrow> y \<in> set (dt_df dt ! x) \<Longrightarrow> y < n"
  by (simp add: df_bound_def)

lemma place_loop_ok:
  assumes df: "df_bound n dt"
  shows "place_inv n lo (\<lambda>x. set (dt_df dt ! x)) S slot bp0 s \<Longrightarrow>
    (\<forall>x<n. pl_is_def s ! x \<longrightarrow> settled slot (\<lambda>x. set (dt_df dt ! x)) s x) \<Longrightarrow>
    \<exists>s'. place_loop dt slot s = Some s' \<and> place_inv n lo (\<lambda>x. set (dt_df dt ! x)) S slot bp0 s' \<and>
      (\<forall>x<n. pl_is_def s' ! x \<longrightarrow> (\<forall>y\<in>set (dt_df dt ! x). block_has_phi_for (pl_bp s' ! y) slot))"
proof (induction "phi_less n slot s + length (pl_wl s)" arbitrary: s rule: less_induct)
  case less
  let ?df = "\<lambda>x. set (dt_df dt ! x)"
  note D = place_invD[OF less.prems(1)]
  show ?case
  proof (cases "pl_wl s")
    case Nil
    with less.prems show ?thesis
      by (intro exI[of _ s]) (simp add: place_loop.simps[of dt slot s] settled_def)
  next
    case (Cons x wl)
    let ?s = "s\<lparr>pl_wl := wl\<rparr>"
    let ?s' = "fold (place_df slot) (dt_df dt ! x) ?s"
    have x: "x < n" "pl_is_def s ! x" using D(5) Cons by auto
    have inv: "place_inv n lo ?df S slot bp0 ?s"
      using less.prems(1) Cons unfolding place_inv_def by auto
    have fr: "y < n \<and> iter_df ?df S y" if "y \<in> set (dt_df dt ! x)" for y
      using that df_boundD[OF df x(1)] x D(3,4)[OF x(1)] by (auto intro: iter_df.intros)
    from place_frontier_ok[OF inv fr]
    have F: "place_inv n lo ?df S slot bp0 ?s'" "\<forall>y\<in>?df x. block_has_phi_for (pl_bp ?s' ! y) slot"
      "\<forall>z<n. block_has_phi_for (pl_bp s ! z) slot \<longrightarrow> block_has_phi_for (pl_bp ?s' ! z) slot"
      "set wl \<subseteq> set (pl_wl ?s')" "\<forall>x<n. pl_is_def ?s' ! x \<longrightarrow> pl_is_def s ! x \<or> x \<in> set (pl_wl ?s')"
      "phi_less n slot ?s' + length (pl_wl ?s') \<le> phi_less n slot s + length wl"
      by (simp_all add: phi_less_def)
    have st: "settled slot ?df ?s' z" if z: "z < n" "pl_is_def ?s' ! z" for z
    proof (cases "z \<in> set (pl_wl ?s') \<or> z = x")
      case False
      with F(5) z have "pl_is_def s ! z" by blast
      with less.prems(2) z have "settled slot ?df s z" by blast
      with False F(4) Cons have "\<forall>y\<in>?df z. block_has_phi_for (pl_bp s ! y) slot"
        by (auto simp: settled_def)
      with F(3) df_boundD[OF df z(1)] show ?thesis by (simp add: settled_def)
    qed (use F(2) in \<open>auto simp: settled_def\<close>)
    have "phi_less n slot ?s' + length (pl_wl ?s') < phi_less n slot s + length (pl_wl s)"
      using F(6) Cons by simp
    from less.hyps[OF this F(1)] st Cons show ?thesis
      by (simp add: place_loop.simps[of dt slot s])
  qed
qed

lemma place_seed_ok:
  fixes bp :: "block_phi_info list" and k :: int
  assumes "length stores = n"
  defines "s0 \<equiv> \<lparr>pl_bp = bp, pl_next = k, pl_is_def = replicate n False, pl_wl = []\<rparr>"
  shows "fold (place_seed stores ai) [0..<n] s0 = \<lparr>pl_bp = bp, pl_next = k,
    pl_is_def = map (\<lambda>b. stores ! b ! ai) [0..<n], pl_wl = rev (filter (\<lambda>b. stores ! b ! ai) [0..<n])\<rparr>"
proof -
  have "fold (place_seed stores ai) [0..<m] s0 = \<lparr>pl_bp = bp, pl_next = k,
      pl_is_def = map (\<lambda>b. stores ! b ! ai) [0..<m] @ replicate (n - m) False,
      pl_wl = rev (filter (\<lambda>b. stores ! b ! ai) [0..<m])\<rparr>" if "m \<le> n" for m
    using that
  proof (induction m)
    case (Suc m)
    then have "replicate (n - m) False = False # replicate (n - Suc m) False"
      by (metis Suc_diff_Suc Suc_le_lessD replicate_Suc)
    with Suc show ?case by (auto simp: place_seed_def list_update_append)
  qed (simp add: s0_def)
  from this[of n] show ?thesis by simp
qed

text \<open>The placement for one slot, on top of what the earlier slots placed.\<close>

lemma place_slot_ok:
  assumes df: "df_bound (cfg_num g) dt"
    and st: "length stores = cfg_num g"
    and ok: "phis_ok (cfg_num g) lo k bp"
    and new: "\<forall>y<cfg_num g. \<not> block_has_phi_for (bp ! y) (slots ! ai)"
  shows "\<exists>bp' k'. place_slot True g dt slots stores ai (bp, k) = Some (bp', k') \<and>
    phis_ok (cfg_num g) lo k' bp' \<and>
    (\<forall>y<cfg_num g. block_has_phi_for (bp' ! y) (slots ! ai) \<longleftrightarrow>
       iter_df (\<lambda>x. set (dt_df dt ! x)) {b. b < cfg_num g \<and> stores ! b ! ai} y) \<and>
    (\<forall>y<cfg_num g. \<forall>t. t \<noteq> slots ! ai \<longrightarrow> block_has_phi_for (bp' ! y) t \<longleftrightarrow> block_has_phi_for (bp ! y) t)"
proof -
  let ?n = "cfg_num g" and ?df = "\<lambda>x. set (dt_df dt ! x)" and ?S = "{b. b < cfg_num g \<and> stores ! b ! ai}"
  let ?s = "\<lparr>pl_bp = bp, pl_next = k, pl_is_def = map (\<lambda>b. stores ! b ! ai) [0..<?n],
    pl_wl = rev (filter (\<lambda>b. stores ! b ! ai) [0..<?n])\<rparr>"
  have inv: "place_inv ?n lo ?df ?S (slots ! ai) bp ?s"
    using ok new by (auto simp: place_inv_def)
  have "\<forall>x<?n. pl_is_def ?s ! x \<longrightarrow> settled (slots ! ai) ?df ?s x" by (auto simp: settled_def)
  from place_loop_ok[OF df inv this] obtain s' where s': "place_loop dt (slots ! ai) ?s = Some s'"
    "place_inv ?n lo ?df ?S (slots ! ai) bp s'"
    "\<forall>x<?n. pl_is_def s' ! x \<longrightarrow> (\<forall>y\<in>?df x. block_has_phi_for (pl_bp s' ! y) (slots ! ai))" by blast
  note D = place_invD[OF s'(2)]
  have only: "y \<in> {y. y < ?n \<and> block_has_phi_for (pl_bp s' ! y) (slots ! ai)}" if "iter_df ?df ?S y" for y
    using that
  proof (rule iter_df_least[rotated])
    fix x y assume "x \<in> ?S \<union> {y. y < ?n \<and> block_has_phi_for (pl_bp s' ! y) (slots ! ai)}" "y \<in> ?df x"
    with D(3)[of x] s'(3) df_boundD[OF df, of x y] show "y \<in> {y. y < ?n \<and> block_has_phi_for (pl_bp s' ! y) (slots ! ai)}"
      by blast
  qed
  have "place_slot True g dt slots stores ai (bp, k) = Some (pl_bp s', pl_next s')"
    using s'(1) by (simp add: place_slot_def place_seed_ok[OF st] Let_def)
  with D(1,4,6) only show ?thesis by blast
qed

lemma place_phis_ok:
  assumes df: "df_bound (cfg_num g) dt"
    and st: "length stores = cfg_num g" and dis: "distinct slots"
  shows "\<exists>bp k. mem2reg_place_phis True g dt slots stores next_id = Some (bp, k) \<and>
    phis_ok (cfg_num g) next_id k bp \<and>
    (\<forall>ai<length slots. \<forall>y<cfg_num g. block_has_phi_for (bp ! y) (slots ! ai) \<longleftrightarrow>
       iter_df (\<lambda>x. set (dt_df dt ! x)) {b. b < cfg_num g \<and> stores ! b ! ai} y) \<and>
    (\<forall>y<cfg_num g. \<forall>t. t \<notin> set slots \<longrightarrow> \<not> block_has_phi_for (bp ! y) t)"
proof -
  let ?n = "cfg_num g"
  define P where "P j = (\<lambda>(bp, k). phis_ok ?n next_id k bp \<and>
    (\<forall>ai<j. \<forall>y<?n. block_has_phi_for (bp ! y) (slots ! ai) \<longleftrightarrow>
       iter_df (\<lambda>x. set (dt_df dt ! x)) {b. b < ?n \<and> stores ! b ! ai} y) \<and>
    (\<forall>y<?n. \<forall>t. t \<notin> set (take j slots) \<longrightarrow> \<not> block_has_phi_for (bp ! y) t))" for j :: nat
  have "\<exists>s'. fold_opt (place_slot True g dt slots stores) [0..<length slots] (replicate ?n [], next_id) = Some s' \<and>
      P (length slots) s'"
  proof (rule fold_opt_inv[where P = P])
    show "P 0 (replicate ?n [], next_id)" by (simp add: P_def phis_ok_def block_has_phi_for_def)
    fix ai and s :: "block_phi_info list \<times> int" assume ai: "ai < length slots" and P: "P ai s"
    obtain bp k where s: "s = (bp, k)" by fastforce
    have fresh: "slots ! ai \<notin> set (take ai slots)"
      using ai dis by (auto simp: in_set_conv_nth nth_eq_iff_index_eq)
    with P s have ok: "phis_ok ?n next_id k bp" and new: "\<forall>y<?n. \<not> block_has_phi_for (bp ! y) (slots ! ai)"
      by (auto simp: P_def)
    from place_slot_ok[OF df st ok new] obtain bp' k' where
      r: "place_slot True g dt slots stores ai (bp, k) = Some (bp', k')" "phis_ok ?n next_id k' bp'"
      "\<forall>y<?n. block_has_phi_for (bp' ! y) (slots ! ai) \<longleftrightarrow>
         iter_df (\<lambda>x. set (dt_df dt ! x)) {b. b < ?n \<and> stores ! b ! ai} y"
      "\<forall>y<?n. \<forall>t. t \<noteq> slots ! ai \<longrightarrow> block_has_phi_for (bp' ! y) t \<longleftrightarrow> block_has_phi_for (bp ! y) t" by blast
    have ne: "slots ! aj \<noteq> slots ! ai" if "aj < ai" for aj
      using that ai dis by (simp add: nth_eq_iff_index_eq)
    from r(2-4) P s ai ne have "P (Suc ai) (bp', k')"
      by (auto simp: P_def less_Suc_eq take_Suc_conv_app_nth)
    with r(1) s show "\<exists>s'. place_slot True g dt slots stores ai s = Some s' \<and> P (Suc ai) s'" by blast
  qed simp
  then show ?thesis by (cases "slots = []") (auto simp: P_def mem2reg_place_phis_def)
qed

section \<open>The frontiers of the built tree\<close>

lemma fold_opt_pres:
  "fold_opt f xs s = Some s' \<Longrightarrow> P s \<Longrightarrow> (\<And>x s s'. x \<in> set xs \<Longrightarrow> P s \<Longrightarrow> f x s = Some s' \<Longrightarrow> P s') \<Longrightarrow> P s'"
proof (induction xs arbitrary: s)
  case (Cons x xs)
  from Cons.prems(1) obtain s1 where s1: "f x s = Some s1" "fold_opt f xs s1 = Some s'"
    by (auto split: option.splits)
  from Cons.prems(3)[OF _ Cons.prems(2) s1(1)] have "P s1" by simp
  show ?case
    by (rule Cons.IH[OF s1(2) \<open>P s1\<close>]) (use Cons.prems(3) in \<open>auto intro: list.set_intros\<close>)
qed simp

definition entries_below :: "nat \<Rightarrow> nat list list \<Rightarrow> bool" where
  "entries_below n df \<longleftrightarrow> (\<forall>l\<in>set df. \<forall>y\<in>set l. y < n)"

lemma entries_below_upd:
  assumes "entries_below n df" "bi < n" shows "entries_below n (df[x := add_unique bi (df ! x)])"
proof (cases "x < length df")
  case True
  with assms have "\<forall>y\<in>set (add_unique bi (df ! x)). y < n" by (auto simp: entries_below_def)
  with assms(1) show ?thesis
    using set_update_subset_insert[of df x "add_unique bi (df ! x)"] unfolding entries_below_def by blast
qed (use assms in \<open>simp add: list_update_beyond\<close>)

lemma df_walk_below:
  "df_walk im bi stop r df = Some df' \<Longrightarrow> bi < n \<Longrightarrow> entries_below n df \<Longrightarrow>
    entries_below n df' \<and> length df' = length df"
proof -
  assume "df_walk im bi stop r df = Some df'"
  then have "bi < n \<longrightarrow> entries_below n df \<longrightarrow> entries_below n df' \<and> length df' = length df"
  proof (rule df_walk.raw_induct[rotated])
    fix walk im bi stop runner df df'
    assume IH: "\<And>im bi stop runner df df'. walk im bi stop runner df = Some df' \<Longrightarrow>
        bi < n \<longrightarrow> entries_below n df \<longrightarrow> entries_below n df' \<and> length df' = length df"
      and r: "(case runner of None \<Rightarrow> Some df
        | Some x \<Rightarrow> if runner = stop then Some df
            else walk im bi stop (im ! x) (df[x := add_unique bi (df ! x)])) = Some df'"
    show "bi < n \<longrightarrow> entries_below n df \<longrightarrow> entries_below n df' \<and> length df' = length df"
    proof (cases "runner = None \<or> runner = stop")
      case True
      with r show ?thesis by (auto split: option.splits)
    next
      case False
      then obtain x where "walk im bi stop (im ! x) (df[x := add_unique bi (df ! x)]) = Some df'"
        using r by (auto split: option.splits)
      from IH[OF this] entries_below_upd show ?thesis by auto
    qed
  qed
  then show "bi < n \<Longrightarrow> entries_below n df \<Longrightarrow> entries_below n df' \<and> length df' = length df" by blast
qed

lemma build_df_bound:
  assumes "domtree_build True g = Some dt"
  shows "df_bound (cfg_num g) dt" and "length (dt_df dt) = cfg_num g"
proof -
  let ?n = "cfg_num g"
  from assms obtain im df where df: "fold_opt (df_block im g) [0..<?n] (replicate ?n []) = Some df" "dt_df dt = df"
    unfolding domtree_build_def by (auto simp: Let_def split: option.splits)
  have "entries_below ?n df \<and> length df = ?n"
  proof (rule fold_opt_pres[OF df(1)])
    fix b s s' assume b: "b \<in> set [0..<?n]" and s: "entries_below ?n s \<and> length s = ?n" "df_block im g b s = Some s'"
    show "entries_below ?n s' \<and> length s' = ?n"
    proof (cases "length (preds_of g b) < 2")
      case False
      with s(2) have "fold_opt (\<lambda>p. df_walk im b (im ! b) (Some p)) (preds_of g b) s = Some s'"
        by (simp add: df_block_def)
      then show ?thesis
        by (rule fold_opt_pres) (use b s(1) df_walk_below in \<open>auto\<close>)
    qed (use s in \<open>simp add: df_block_def\<close>)
  qed (auto simp: entries_below_def)
  then show "df_bound ?n dt" "length (dt_df dt) = ?n"
    using df(2) by (auto simp: entries_below_def df_bound_def)
qed


lemma diamond_place:
  "mem2reg_place_phis True (cfg_build diamond_insts) (build_dt diamond_insts) [7]
     [[False], [True], [False], [False]] 20 =
   Some ([[], [], [], [\<lparr>phi_dst = 20, phi_slot = 7, phi_args = [], phi_loc = no_loc\<rparr>]], 21)"
  by code_simp


end
