(* ===== verification/Mem2reg.thy ===== *)
theory Mem2reg
  imports Phi
begin

text \<open>
  \<open>src/mem2reg.c\<close>: promotion of stack slots to SSA values.  The renaming walks the dominator tree
  with one stack of reaching values per slot, turns loads into copies, marks stores dead and fills
  the arguments of the phis; the writeback replaces every phi by copies at the end of the
  predecessors and drops the dead instructions; \<open>opt_mem2reg\<close> chooses the slots and runs the phases.

  The mutable arguments of the C functions (the instruction array, the phis, the \<open>dead\<close> bitmap, the
  stacks) are the record \<open>rename\<close>.  The recursion over the dominator tree has no bound in the
  source, so it is a partial function.
\<close>

section \<open>Renaming\<close>

record rename =
  mr_insts :: "ir_inst list"
  mr_phis :: "block_phi_info list"
  mr_dead :: "bool list"
  mr_stacks :: "int list list"

text \<open>A stack of reaching values, top first.\<close>

definition rstack_push :: "int \<Rightarrow> int list \<Rightarrow> int list" where
  "rstack_push v st = v # st"

fun rstack_top :: "int list \<Rightarrow> int" where
  "rstack_top [] = -1"
| "rstack_top (v # st) = v"

fun rstack_pop :: "int list \<Rightarrow> int list" where
  "rstack_pop [] = []"
| "rstack_pop (v # st) = st"

text \<open>\<open>while (len > k) rstack_pop\<close>\<close>

fun pop_to :: "nat \<Rightarrow> int list \<Rightarrow> int list" where
  "pop_to k [] = []"
| "pop_to k (v # st) = (if k < length (v # st) then pop_to k (rstack_pop (v # st)) else v # st)"

definition find_alloca_slot :: "int list \<Rightarrow> int \<Rightarrow> nat option" where
  "find_alloca_slot slots slot = find_index (\<lambda>x. x = slot) slots"

definition dbg_var_for_slot :: "ir_debug_var list \<Rightarrow> int \<Rightarrow> nat option" where
  "dbg_var_for_slot dbg slot = find_index (\<lambda>d. dv_alloca_ssa d = slot) dbg"

definition make_dbg_value :: "ir_inst \<Rightarrow> nat \<Rightarrow> int \<Rightarrow> ir_inst" where
  "make_dbg_value inst var val = inst\<lparr>i_op := IR_DBG_VALUE, i_dst := -1, i_a := val, i_b := -1,
     i_imm := of_nat var, i_call_name := None, i_call_args := [], i_call_arg_on_stack := [],
     i_call_arg_nbytes := []\<rparr>"

definition phi_add_arg :: "ir_phi \<Rightarrow> int \<Rightarrow> nat \<Rightarrow> ir_phi" where
  "phi_add_arg phi val pred = phi\<lparr>phi_args := phi_args phi @ [\<lparr>pa_val = val, pa_pred = pred\<rparr>]\<rparr>"

definition push_phi :: "int list \<Rightarrow> ir_phi \<Rightarrow> int list list \<Rightarrow> int list list" where
  "push_phi slots phi sts =
     (case find_alloca_slot slots (phi_slot phi) of
        None \<Rightarrow> sts
      | Some ai \<Rightarrow> sts[ai := rstack_push (phi_dst phi) (sts ! ai)])"

definition rename_load :: "ir_inst \<Rightarrow> int \<Rightarrow> ir_inst" where
  "rename_load inst reaching =
     (if 0 \<le> reaching then inst\<lparr>i_op := IR_COPY, i_a := reaching\<rparr>
      else inst\<lparr>i_op := IR_CONST, i_a := -1, i_b := -1, i_imm := 0\<rparr>)"

definition store_marker :: "bool \<Rightarrow> ir_debug_var list \<Rightarrow> ir_inst \<Rightarrow> nat option" where
  "store_marker want_debug dbg inst = (if want_debug then dbg_var_for_slot dbg (i_a inst) else None)"

definition rename_inst :: "bool \<Rightarrow> ir_debug_var list \<Rightarrow> int list \<Rightarrow> nat \<Rightarrow> rename \<Rightarrow> rename" where
  "rename_inst want_debug dbg slots i s =
     (let inst = mr_insts s ! i in
      if i_op inst = IR_LOAD then
        (case find_alloca_slot slots (i_a inst) of
           None \<Rightarrow> s
         | Some ai \<Rightarrow> s\<lparr>mr_insts := (mr_insts s)[i := rename_load inst (rstack_top (mr_stacks s ! ai))]\<rparr>)
      else if i_op inst = IR_STORE then
        (case find_alloca_slot slots (i_a inst) of
           None \<Rightarrow> s
         | Some ai \<Rightarrow>
             let s1 = s\<lparr>mr_stacks := (mr_stacks s)[ai := rstack_push (i_b inst) (mr_stacks s ! ai)]\<rparr>
             in case store_marker want_debug dbg inst of
                  Some var \<Rightarrow> s1\<lparr>mr_insts := (mr_insts s1)[i := make_dbg_value inst var (i_b inst)]\<rparr>
                | None \<Rightarrow> s1\<lparr>mr_dead := (mr_dead s1)[i := True]\<rparr>)
      else s)"

definition fill_phi :: "int list \<Rightarrow> int list list \<Rightarrow> nat \<Rightarrow> ir_phi \<Rightarrow> ir_phi" where
  "fill_phi slots sts b phi =
     (case find_alloca_slot slots (phi_slot phi) of
        None \<Rightarrow> phi
      | Some ai \<Rightarrow> phi_add_arg phi (rstack_top (sts ! ai)) b)"

definition fill_succ :: "int list \<Rightarrow> nat \<Rightarrow> nat \<Rightarrow> rename \<Rightarrow> rename" where
  "fill_succ slots b c s =
     s\<lparr>mr_phis := (mr_phis s)[c := map (fill_phi slots (mr_stacks s) b) (mr_phis s ! c)]\<rparr>"

text \<open>What a visit does before it recurses.\<close>

definition rename_block :: "bool \<Rightarrow> ir_debug_var list \<Rightarrow> cfg \<Rightarrow> int list \<Rightarrow> nat \<Rightarrow> rename \<Rightarrow> rename" where
  "rename_block want_debug dbg g slots b s =
     (let blk = cfg_blocks g ! b;
          s1 = s\<lparr>mr_stacks := fold (push_phi slots) (mr_phis s ! b) (mr_stacks s)\<rparr>;
          s2 = fold (rename_inst want_debug dbg slots) [blk_start blk..<blk_end blk] s1
      in fold (fill_succ slots b) (blk_succs blk) s2)"

lemma mono_fold_opt [partial_function_mono]:
  assumes "\<And>x s. mono_option (\<lambda>f. B f x s)"
  shows "mono_option (\<lambda>f. fold_opt (B f) xs s)"
proof (induction xs arbitrary: s)
  case Nil
  show ?case by (simp add: option.const_mono)
next
  case (Cons x xs)
  have "fold_opt (B f) (x # xs) s = Option.bind (B f x s) (\<lambda>s'. fold_opt (B f) xs s')" for f
    by (cases "B f x s") simp_all
  with assms Cons show ?case by (simp only: bind_mono)
qed

partial_function (option) mem2reg_rename_dfs ::
  "bool \<Rightarrow> ir_debug_var list \<Rightarrow> cfg \<Rightarrow> dom_tree \<Rightarrow> int list \<Rightarrow> nat \<Rightarrow> rename \<Rightarrow> rename option" where
  "mem2reg_rename_dfs want_debug dbg g dt slots b s =
     Option.bind
       (fold_opt
          (\<lambda>i s'. if dt_idom dt ! i = Some b then mem2reg_rename_dfs want_debug dbg g dt slots i s' else Some s')
          [0..<dt_n dt] (rename_block want_debug dbg g slots b s))
       (\<lambda>s'. Some (s'\<lparr>mr_stacks := map2 pop_to (map length (mr_stacks s)) (mr_stacks s')\<rparr>))"

declare mem2reg_rename_dfs.simps [code]

text \<open>Only the allocas of promoted slots are dropped.\<close>

definition promoted_alloca :: "int list \<Rightarrow> ir_inst \<Rightarrow> bool" where
  "promoted_alloca slots inst \<longleftrightarrow> i_op inst = IR_ALLOCA \<and> i_dst inst \<in> set slots"

definition mem2reg_rename :: "bool \<Rightarrow> ir_debug_var list \<Rightarrow> cfg \<Rightarrow> dom_tree \<Rightarrow> int list \<Rightarrow>
    ir_inst list \<Rightarrow> block_phi_info list \<Rightarrow> rename option" where
  "mem2reg_rename want_debug dbg g dt slots insts bp =
     (let s = \<lparr>mr_insts = insts, mr_phis = bp, mr_dead = map (promoted_alloca slots) insts,
               mr_stacks = replicate (length slots) []\<rparr>
      in if slots = [] then Some s
         else mem2reg_rename_dfs want_debug dbg g dt slots (cfg_entry g) s)"

section \<open>Writeback\<close>

definition phi_isfloat :: "ir_function \<Rightarrow> int \<Rightarrow> int" where
  "phi_isfloat fn v = (if v < fn_value_meta_cap fn \<and> fn_value_is_float fn \<noteq> []
                       then arr_get 0 (fn_value_is_float fn) v else 0)"

definition phi_copy :: "ir_function \<Rightarrow> ir_phi \<Rightarrow> int \<Rightarrow> ir_inst" where
  "phi_copy fn phi val =
     (let d = phi_dst phi;
          isfloat = phi_isfloat fn d;
          mv = (if val < 0 \<and> isfloat \<noteq> 0
                then zero_inst\<lparr>i_op := IR_CONST, i_dst := d, i_a := -1, i_b := -1, i_imm := 0\<rparr>
                else if val < 0 then zero_inst\<lparr>i_op := IR_COPY, i_dst := d, i_a := 0, i_b := -1\<rparr>
                else zero_inst\<lparr>i_op := IR_COPY, i_dst := d, i_a := val, i_b := -1\<rparr>)
      in mv\<lparr>i_loc := phi_loc phi,
            i_width := (if d < fn_value_meta_cap fn \<and> fn_value_width fn \<noteq> []
                        then arr_get 0 (fn_value_width fn) d else 8),
            i_is_unsigned := (if d < fn_value_meta_cap fn \<and> fn_value_is_unsigned fn \<noteq> []
                              then arr_get 0 (fn_value_is_unsigned fn) d else 0),
            i_is_float := isfloat\<rparr>)"

text \<open>The copies for one successor: the first argument of a phi that comes from block \<open>b\<close>.\<close>

definition phi_copies :: "ir_function \<Rightarrow> nat \<Rightarrow> block_phi_info \<Rightarrow> ir_inst list" where
  "phi_copies fn b phis =
     concat (map (\<lambda>phi. case find (\<lambda>a. pa_pred a = b) (phi_args phi) of
                          None \<Rightarrow> [] | Some a \<Rightarrow> [phi_copy fn phi (pa_val a)]) phis)"

definition phi_markers :: "ir_debug_var list \<Rightarrow> block_phi_info \<Rightarrow> ir_inst list" where
  "phi_markers dbg phis =
     concat (map (\<lambda>phi. case dbg_var_for_slot dbg (phi_slot phi) of
                          None \<Rightarrow> []
                        | Some var \<Rightarrow> [make_dbg_value (zero_inst\<lparr>i_width := 8, i_loc := phi_loc phi\<rparr>) var (phi_dst phi)])
              phis)"

definition term_idx :: "ir_inst list \<Rightarrow> cfg_block \<Rightarrow> nat" where
  "term_idx insts blk =
     (if blk_start blk < blk_end blk \<and> is_terminator (i_op (insts ! (blk_end blk - 1)))
      then blk_end blk - 1 else blk_end blk)"

definition live_insts :: "ir_inst list \<Rightarrow> bool list \<Rightarrow> nat list \<Rightarrow> ir_inst list" where
  "live_insts insts dead is = map ((!) insts) (filter (\<lambda>i. \<not> dead ! i) is)"

definition wb_block :: "ir_function \<Rightarrow> cfg \<Rightarrow> block_phi_info list \<Rightarrow> bool list \<Rightarrow> bool \<Rightarrow> nat \<Rightarrow> ir_inst list" where
  "wb_block fn g bp dead want_debug b =
     (let blk = cfg_blocks g ! b; t = term_idx (fn_insts fn) blk
      in (if want_debug then phi_markers (fn_dbg_vars fn) (bp ! b) else []) @
         live_insts (fn_insts fn) dead [blk_start blk..<t] @
         concat (map (\<lambda>c. phi_copies fn b (bp ! c)) (blk_succs blk)) @
         live_insts (fn_insts fn) dead [t..<blk_end blk])"

definition mem2reg_writeback :: "ir_function \<Rightarrow> cfg \<Rightarrow> block_phi_info list \<Rightarrow> bool list \<Rightarrow> bool \<Rightarrow> ir_function" where
  "mem2reg_writeback fn g bp dead want_debug =
     fn\<lparr>fn_insts := concat (map (wb_block fn g bp dead want_debug) [0..<cfg_num g])\<rparr>"

section \<open>The pass\<close>

text \<open>Slots whose address is taken, or that have a declared size, stay in memory.\<close>

definition pin_inst :: "int \<Rightarrow> ir_inst \<Rightarrow> bool list \<Rightarrow> bool list" where
  "pin_inst nv inst pinned =
     (let p1 = (if i_op inst = IR_ALLOCA \<and> 0 < i_alloca_bytes inst \<and> 0 \<le> i_dst inst
                then arr_set pinned (i_dst inst) True else pinned)
      in if i_op inst = IR_ADDR \<and> 0 \<le> i_a inst \<and> i_a inst < nv then arr_set p1 (i_a inst) True else p1)"

definition pinned_slots :: "ir_function \<Rightarrow> bool list" where
  "pinned_slots fn = fold (pin_inst (fn_next_value_id fn)) (fn_insts fn)
     (replicate (nat (fn_next_value_id fn)) False)"

definition pin_bytes :: "bool list \<Rightarrow> ir_inst \<Rightarrow> ir_inst" where
  "pin_bytes pinned inst =
     (if i_op inst \<noteq> IR_ALLOCA \<or> i_dst inst < 0 then inst
      else if \<not> arr_get False pinned (i_dst inst) \<or> 0 < i_alloca_bytes inst then inst
      else let w = (if 0 < i_width inst then i_width inst else 4);
               w' = (if w < 1 then 8 else w)
           in inst\<lparr>i_alloca_bytes := w'\<rparr>)"

definition promotable :: "bool list \<Rightarrow> ir_inst \<Rightarrow> bool" where
  "promotable pinned inst \<longleftrightarrow> i_op inst = IR_ALLOCA \<and> \<not> (0 \<le> i_dst inst \<and> arr_get False pinned (i_dst inst))"

definition alloca_slots_of :: "bool list \<Rightarrow> ir_inst list \<Rightarrow> int list" where
  "alloca_slots_of pinned insts = map i_dst (filter (promotable pinned) insts)"

definition mark_store :: "cfg \<Rightarrow> int list \<Rightarrow> ir_inst list \<Rightarrow> nat \<Rightarrow> bool list list \<Rightarrow> bool list list" where
  "mark_store g slots insts i stores =
     (if i_op (insts ! i) \<noteq> IR_STORE then stores
      else case find_index (\<lambda>x. i_a (insts ! i) = x) slots of
        None \<Rightarrow> stores
      | Some ai \<Rightarrow>
          (case find_index (\<lambda>b. blk_start b \<le> i \<and> i < blk_end b) (cfg_blocks g) of
             None \<Rightarrow> stores
           | Some bi \<Rightarrow> stores[bi := (stores ! bi)[ai := True]]))"

definition block_stores_of :: "cfg \<Rightarrow> int list \<Rightarrow> ir_inst list \<Rightarrow> bool list list" where
  "block_stores_of g slots insts = fold (mark_store g slots insts) [0..<length insts]
     (replicate (cfg_num g) (replicate (length slots) False))"

text \<open>Metadata of the phi results: the arrays double until the id fits.\<close>

function grow_cap :: "int \<Rightarrow> int \<Rightarrow> int" where
  "grow_cap cap v = (if 0 < cap \<and> cap \<le> v then grow_cap (cap * 2) v else cap)"
  by auto
termination by (relation "measure (\<lambda>(cap, v). nat (v + 1 - cap))") auto

declare grow_cap.simps [simp del]

definition mem2reg_ensure_value_meta :: "int \<Rightarrow> ir_function \<Rightarrow> ir_function" where
  "mem2reg_ensure_value_meta v fn =
     (if 0 < fn_value_meta_cap fn \<and> v < fn_value_meta_cap fn then fn
      else
        let old_cap = (if 0 < fn_value_meta_cap fn then fn_value_meta_cap fn else 0);
            new_cap = grow_cap (if old_cap \<noteq> 0 then old_cap * 2 else 64) v;
            k = nat (new_cap - old_cap)
        in fn\<lparr>fn_value_width := fn_value_width fn @ replicate k 4,
              fn_value_is_unsigned := fn_value_is_unsigned fn @ replicate k 0,
              fn_value_is_float := fn_value_is_float fn @ replicate k 0\<rparr>)"

definition phi_meta :: "ir_phi \<Rightarrow> ir_function \<Rightarrow> ir_function" where
  "phi_meta phi fn =
     (let fn1 = mem2reg_ensure_value_meta (phi_dst phi) fn; slot = phi_slot phi; d = phi_dst phi
      in if 0 \<le> slot \<and> slot < fn_value_meta_cap fn1 then
           fn1\<lparr>fn_value_width := (if fn_value_width fn1 \<noteq> []
                 then arr_set (fn_value_width fn1) d (arr_get 0 (fn_value_width fn1) slot) else []),
               fn_value_is_unsigned := (if fn_value_is_unsigned fn1 \<noteq> []
                 then arr_set (fn_value_is_unsigned fn1) d (arr_get 0 (fn_value_is_unsigned fn1) slot) else []),
               fn_value_is_float := (if fn_value_is_float fn1 \<noteq> []
                 then arr_set (fn_value_is_float fn1) d (arr_get 0 (fn_value_is_float fn1) slot) else [])\<rparr>
         else fn1)"

text \<open>\<open>opt_mem2reg\<close> returns the number of promoted slots with the function.\<close>

definition opt_mem2reg :: "bool \<Rightarrow> ir_function \<Rightarrow> bool \<Rightarrow> (nat \<times> ir_function) option" where
  "opt_mem2reg calloc_ok fn want_debug =
     (let g = cfg_build (fn_insts fn) in
      case domtree_build calloc_ok g of
        None \<Rightarrow> None
      | Some dt \<Rightarrow>
          let pinned = pinned_slots fn;
              fn1 = fn\<lparr>fn_insts := map (pin_bytes pinned) (fn_insts fn)\<rparr>;
              slots = alloca_slots_of pinned (fn_insts fn1)
          in if slots = [] then Some (0, fn1)
             else
               let stores = block_stores_of g slots (fn_insts fn1)
               in case mem2reg_place_phis calloc_ok g dt slots stores (fn_next_value_id fn1) of
                    None \<Rightarrow> None
                  | Some (bp, next_id) \<Rightarrow>
                      let fn2 = fold phi_meta (concat bp) (fn1\<lparr>fn_next_value_id := next_id\<rparr>)
                      in case mem2reg_rename want_debug (fn_dbg_vars fn2) g dt slots (fn_insts fn2) bp of
                           None \<Rightarrow> None
                         | Some s \<Rightarrow>
                             Some (length slots,
                               mem2reg_writeback (fn2\<lparr>fn_insts := mr_insts s\<rparr>) g (mr_phis s) (mr_dead s) want_debug))"

end
