(* ===== verification/Renaming.thy ===== *)
theory Renaming
  imports Mem2reg
begin

text \<open>
  What the renaming of \<open>src/mem2reg.c\<close> computes.  The specification is the reaching value of a slot:
  at the entry of a block it is the result of the block's phi, or else the value at the end of the
  immediate dominator; inside a block it is the operand of the last store.  The first part shows
  that this value is the same along every edge into a block without a phi (the property phi
  placement at frontiers buys); the second that the walk over the dominator tree with its stacks
  rewrites every load, marks every store and fills every phi with exactly these values.
\<close>

section \<open>Reaching values\<close>

definition phi_res :: "block_phi_info \<Rightarrow> int \<Rightarrow> int option" where
  "phi_res phis slot = map_option phi_dst (find (\<lambda>p. phi_slot p = slot) phis)"

definition stores_to :: "ir_inst list \<Rightarrow> int list \<Rightarrow> nat \<Rightarrow> nat \<Rightarrow> bool" where
  "stores_to insts slots ai i \<longleftrightarrow>
     i_op (insts ! i) = IR_STORE \<and> find_alloca_slot slots (i_a (insts ! i)) = Some ai"

definition store_step :: "ir_inst list \<Rightarrow> int list \<Rightarrow> nat \<Rightarrow> nat \<Rightarrow> int \<Rightarrow> int" where
  "store_step insts slots ai i v = (if stores_to insts slots ai i then i_b (insts ! i) else v)"

text \<open>The value before instruction \<open>i\<close> of a block that starts at \<open>lo\<close> with value \<open>v\<close>.\<close>

definition at_point :: "ir_inst list \<Rightarrow> int list \<Rightarrow> nat \<Rightarrow> nat \<Rightarrow> nat \<Rightarrow> int \<Rightarrow> int" where
  "at_point insts slots lo i ai v = fold (store_step insts slots ai) [lo..<i] v"

abbreviation start_of :: "cfg \<Rightarrow> nat \<Rightarrow> nat" where "start_of g b \<equiv> blk_start (cfg_blocks g ! b)"
abbreviation end_of :: "cfg \<Rightarrow> nat \<Rightarrow> nat" where "end_of g b \<equiv> blk_end (cfg_blocks g ! b)"

primrec reach_in :: "nat \<Rightarrow> cfg \<Rightarrow> idoms \<Rightarrow> block_phi_info list \<Rightarrow> int list \<Rightarrow> ir_inst list \<Rightarrow> nat \<Rightarrow> nat \<Rightarrow> int" where
  "reach_in 0 g im bp slots insts b ai = -1"
| "reach_in (Suc k) g im bp slots insts b ai =
     (case phi_res (bp ! b) (slots ! ai) of
        Some d \<Rightarrow> d
      | None \<Rightarrow> (case im ! b of
                   None \<Rightarrow> -1
                 | Some p \<Rightarrow> at_point insts slots (start_of g p) (end_of g p) ai
                              (reach_in k g im bp slots insts p ai)))"

definition in_blk :: "cfg \<Rightarrow> nat \<Rightarrow> nat \<Rightarrow> bool" where
  "in_blk g b i \<longleftrightarrow> start_of g b \<le> i \<and> i < end_of g b"

lemma at_point_start [simp]: "at_point insts slots lo lo ai v = v"
  by (simp add: at_point_def)

lemma at_point_Suc: "lo \<le> i \<Longrightarrow>
    at_point insts slots lo (Suc i) ai v = store_step insts slots ai i (at_point insts slots lo i ai v)"
  by (simp add: at_point_def)

lemma at_point_no_store:
  "(\<And>i. lo \<le> i \<Longrightarrow> i < hi \<Longrightarrow> \<not> stores_to insts slots ai i) \<Longrightarrow> at_point insts slots lo hi ai v = v"
  unfolding at_point_def
  by (induction hi) (auto simp: store_step_def)

lemma phi_res_None: "phi_res phis slot = None \<longleftrightarrow> \<not> block_has_phi_for phis slot"
  by (auto simp: phi_res_def block_has_phi_for_def find_None_iff)

lemma find_Some_in: "find P xs = Some x \<Longrightarrow> x \<in> set xs \<and> P x"
  by (induction xs) (auto split: if_splits)

lemma phi_res_Some: "phi_res phis slot = Some d \<Longrightarrow> \<exists>p\<in>set phis. phi_slot p = slot \<and> phi_dst p = d"
  by (auto simp: phi_res_def dest!: find_Some_in)

lemma phi_res_unique:
  assumes "distinct (map phi_slot phis)" "p \<in> set phis"
  shows "phi_res phis (phi_slot p) = Some (phi_dst p)"
proof -
  obtain q where q: "find (\<lambda>q. phi_slot q = phi_slot p) phis = Some q"
    using assms(2) by (metis (mono_tags, lifting) find_None_iff not_None_eq)
  with assms have "q = p" by (auto dest!: find_Some_in simp: distinct_map inj_on_def)
  with q show ?thesis by (simp add: phi_res_def)
qed

text \<open>
  What the renaming needs of its inputs: a dominator tree, phis for known slots, closed under the
  frontiers of the blocks that store or hold a phi, and blocks that do not overlap.
\<close>

locale placed_phis = idom_tree +
  fixes bp :: "block_phi_info list" and slots :: "int list" and insts :: "ir_inst list"
  assumes bp_len: "length bp = cfg_num g"
    and slots_distinct: "distinct slots"
    and phi_slots: "b < cfg_num g \<Longrightarrow> distinct (map phi_slot (bp ! b))"
    and phi_known: "b < cfg_num g \<Longrightarrow> p \<in> set (bp ! b) \<Longrightarrow> phi_slot p \<in> set slots"
    and phi_fresh: "b < cfg_num g \<Longrightarrow> p \<in> set (bp ! b) \<Longrightarrow> phi_args p = []"
    and closed: "reachable g x \<Longrightarrow> reachable g c \<Longrightarrow> dom_frontier g x c \<Longrightarrow> ai < length slots \<Longrightarrow>
      block_has_phi_for (bp ! x) (slots ! ai) \<or> (\<exists>i. in_blk g x i \<and> stores_to insts slots ai i) \<Longrightarrow>
      block_has_phi_for (bp ! c) (slots ! ai)"
    and block_range: "b < cfg_num g \<Longrightarrow> end_of g b \<le> length insts \<and> start_of g b \<le> end_of g b"
    and block_disjoint: "b < cfg_num g \<Longrightarrow> c < cfg_num g \<Longrightarrow> in_blk g b i \<Longrightarrow> in_blk g c i \<Longrightarrow> b = c"
begin

abbreviation VI :: "nat \<Rightarrow> nat \<Rightarrow> int" where
  "VI \<equiv> reach_in (cfg_num g) g im bp slots insts"

abbreviation VP :: "nat \<Rightarrow> nat \<Rightarrow> nat \<Rightarrow> int" where
  "VP b i ai \<equiv> at_point insts slots (start_of g b) i ai (VI b ai)"

abbreviation VO :: "nat \<Rightarrow> nat \<Rightarrow> int" where
  "VO b ai \<equiv> VP b (end_of g b) ai"

lemma doms_card: "reachable g b \<Longrightarrow> 0 < card (doms b) \<and> card (doms b) \<le> cfg_num g"
proof -
  assume b: "reachable g b"
  have s: "doms b \<subseteq> {..<cfg_num g}" using b dom_reachable reachable_block by (auto simp: doms_def)
  moreover have "b \<in> doms b" by (simp add: doms_def)
  ultimately show ?thesis
    using card_mono[OF finite_lessThan s] card_gt_0_iff[of "doms b"] finite_subset[OF s] by auto
qed

text \<open>The recursion needs no more fuel than there are blocks.\<close>

lemma reach_in_fuel:
  "reachable g b \<Longrightarrow> card (doms b) \<le> k \<Longrightarrow> card (doms b) \<le> l \<Longrightarrow>
    reach_in k g im bp slots insts b ai = reach_in l g im bp slots insts b ai"
proof (induction k arbitrary: b l)
  case 0
  with doms_card[of b] show ?case by simp
next
  case (Suc k)
  with doms_card[of b] obtain m where l: "l = Suc m" by (cases l) auto
  from Suc.prems(1) show ?case
  proof (cases rule: idom_cases)
    case (parent p)
    from doms_less[OF Suc.prems(1) parent(3)] Suc.prems(2,3) l
    have "reach_in k g im bp slots insts p ai = reach_in m g im bp slots insts p ai"
      by (intro Suc.IH[OF parent(4)]) auto
    with parent(2) l show ?thesis by (simp split: option.split)
  qed (use l in \<open>simp split: option.split\<close>)
qed

lemma VI_eq:
  assumes "reachable g b"
  shows "VI b ai = (case phi_res (bp ! b) (slots ! ai) of Some d \<Rightarrow> d
    | None \<Rightarrow> (case im ! b of None \<Rightarrow> -1 | Some p \<Rightarrow> VO p ai))"
proof -
  obtain n where n: "cfg_num g = Suc n" using reachable_block[OF assms] by (cases "cfg_num g") auto
  from assms show ?thesis
  proof (cases rule: idom_cases)
    case (parent p)
    have "card (doms p) \<le> n" using doms_less[OF assms parent(3)] doms_card[OF assms] n by simp
    then have "reach_in n g im bp slots insts p ai = VI p ai"
      using n by (intro reach_in_fuel[OF parent(4)]) auto
    with n parent(2) show ?thesis by (simp split: option.split)
  qed (use n in \<open>simp split: option.split\<close>)
qed

lemma dom_comparable:
  "reachable g c \<Longrightarrow> dominates g a c \<Longrightarrow> dominates g b c \<Longrightarrow> dominates g a b \<or> dominates g b a"
proof (induction "card (doms c)" arbitrary: c rule: less_induct)
  case less
  from less.prems(1) show ?case
  proof (cases rule: idom_cases)
    case entry
    with less.prems show ?thesis by (simp add: dom_entry_eq)
  next
    case (parent i)
    note IH = less.hyps[OF doms_less[OF less.prems(1) parent(3)] parent(4)]
    show ?thesis
    proof (cases "a = c \<or> b = c")
      case False
      with IH less.prems(2,3) show ?thesis unfolding parent(5)[of a] parent(5)[of b] by blast
    qed (use less.prems in blast)
  qed
qed

text \<open>Above a predecessor, up to the immediate dominator of the successor, nothing defines the slot.\<close>

lemma climb_value:
  assumes p: "reachable g p" "c \<in> set (succs_of g p)" and ai: "ai < length slots"
    and none: "\<not> block_has_phi_for (bp ! c) (slots ! ai)"
  shows "dominates g y p \<Longrightarrow> \<not> sdom g y c \<Longrightarrow>
    VO y ai = (case im ! c of None \<Rightarrow> -1 | Some q \<Rightarrow> VO q ai)"
proof (induction "card (doms y)" arbitrary: y rule: less_induct)
  case less
  have c: "reachable g c" using p reachable_succ by blast
  have cn: "c < cfg_num g" "p < cfg_num g" using c p(1) reachable_block by auto
  have pc: "p \<in> set (preds_of g c)" using p(2) succ_pred cn by blast
  have ry: "reachable g y" using less.prems(1) p(1) dom_reachable by blast
  have "dom_frontier g y c" using less.prems pc p(1) by (auto simp: dom_frontier_def)
  from closed[OF ry c this ai] none
  have ny: "phi_res (bp ! y) (slots ! ai) = None" "\<And>i. in_blk g y i \<Longrightarrow> \<not> stores_to insts slots ai i"
    by (auto simp: phi_res_None)
  have "VO y ai = VI y ai" by (rule at_point_no_store) (use ny(2) in \<open>auto simp: in_blk_def\<close>)
  with ny(1) have yv: "VO y ai = (case im ! y of None \<Rightarrow> -1 | Some z \<Rightarrow> VO z ai)" by (simp add: VI_eq[OF ry])
  from ry show ?case
  proof (cases rule: idom_cases)
    case entry
    have "c = cfg_entry g" using less.prems(2) entry(1) by (auto simp: sdom_def)
    then have "im ! c = None" using root by simp
    with yv entry(2) show ?thesis by simp
  next
    case (parent z)
    show ?thesis
    proof (cases "sdom g z c")
      case True
      then obtain q where q: "im ! c = Some q" "dominates g z q" using sdom_idom[OF c] by blast
      have qc: "sdom g q c" using sdom_idom[OF c, of q] q(1) by simp
      then have qp: "dominates g q p" by (rule sdom_pred[OF _ cn(1) pc])
      have rq: "reachable g q" using qp p(1) dom_reachable by blast
      have "\<not> dominates g y q"
        using less.prems(2) qc dom_trans[of g y q c] dom_antisym[of g q c] c rq by (auto simp: sdom_def)
      then have "dominates g q y" "q \<noteq> y" using dom_comparable[OF p(1) less.prems(1) qp] by auto
      then have "dominates g q z" using parent(5) by blast
      then have "q = z" using q(2) rq dom_antisym by blast
      with q(1) yv parent(2) show ?thesis by simp
    next
      case False
      have "dominates g z p" using parent(3) less.prems(1) dom_trans by (auto simp: sdom_def)
      from less.hyps[OF doms_less[OF ry parent(3)] this False] yv parent(2) show ?thesis by simp
    qed
  qed
qed

text \<open>The reaching value is the same along every edge.\<close>

lemma edge_value:
  assumes "reachable g p" "c \<in> set (succs_of g p)" "ai < length slots"
  shows "VI c ai = (case phi_res (bp ! c) (slots ! ai) of Some d \<Rightarrow> d | None \<Rightarrow> VO p ai)"
proof (cases "phi_res (bp ! c) (slots ! ai)")
  case None
  have c: "reachable g c" using assms reachable_succ by blast
  have none: "\<not> block_has_phi_for (bp ! c) (slots ! ai)" using None by (simp add: phi_res_None)
  have pc: "p \<in> set (preds_of g c)" "c < cfg_num g" using assms c succ_pred reachable_block by blast+
  show ?thesis
  proof (cases "sdom g p c")
    case False
    with climb_value[OF assms none dom_refl] None show ?thesis by (simp add: VI_eq[OF c])
  next
    case True
    then obtain q where q: "im ! c = Some q" "dominates g p q" using sdom_idom[OF c] by blast
    have "sdom g q c" using sdom_idom[OF c, of q] q(1) by simp
    then have "dominates g q p" using sdom_pred pc by blast
    with q(2) assms(1) have "q = p" using dom_antisym by blast
    with q(1) None show ?thesis by (simp add: VI_eq[OF c])
  qed
qed (use assms reachable_succ in \<open>simp add: VI_eq\<close>)

end

section \<open>The walk\<close>

text \<open>What becomes of instruction \<open>i\<close> when the slots hold the values \<open>V\<close> before it.\<close>

definition ren_spec :: "bool \<Rightarrow> ir_debug_var list \<Rightarrow> int list \<Rightarrow> (nat \<Rightarrow> int) \<Rightarrow> ir_inst \<Rightarrow> ir_inst" where
  "ren_spec want_debug dbg slots V inst =
     (if i_op inst = IR_LOAD then
        (case find_alloca_slot slots (i_a inst) of None \<Rightarrow> inst | Some ai \<Rightarrow> rename_load inst (V ai))
      else if i_op inst = IR_STORE \<and> find_alloca_slot slots (i_a inst) \<noteq> None then
        (case store_marker want_debug dbg inst of
           Some var \<Rightarrow> make_dbg_value inst var (i_b inst) | None \<Rightarrow> inst)
      else inst)"

definition dead_spec :: "bool \<Rightarrow> ir_debug_var list \<Rightarrow> int list \<Rightarrow> ir_inst \<Rightarrow> bool" where
  "dead_spec want_debug dbg slots inst \<longleftrightarrow>
     i_op inst = IR_STORE \<and> find_alloca_slot slots (i_a inst) \<noteq> None \<and> store_marker want_debug dbg inst = None"

lemma find_slot_nth: "distinct slots \<Longrightarrow> ai < length slots \<Longrightarrow> find_alloca_slot slots (slots ! ai) = Some ai"
  unfolding find_alloca_slot_def by (rule find_index_eqI) (auto simp: distinct_conv_nth)

lemma find_slot_Some: "find_alloca_slot slots v = Some ai \<Longrightarrow> ai < length slots \<and> slots ! ai = v"
  unfolding find_alloca_slot_def by (auto dest: find_index_SomeD)

lemma find_slot_ex: "v \<in> set slots \<Longrightarrow> \<exists>ai. find_alloca_slot slots v = Some ai"
  unfolding find_alloca_slot_def
  using find_index_None_iff[of "\<lambda>x. x = v" slots] by (cases "find_index (\<lambda>x. x = v) slots") auto

lemma pop_to_append: "pop_to (length st) (ws @ st) = st"
proof (induction ws)
  case Nil
  then show ?case by (cases st) auto
qed simp

lemma push_phis_length: "length (fold (push_phi slots) phis sts) = length sts"
  by (rule fold_inv[where P = "\<lambda>x. length x = length sts"]) (auto simp: push_phi_def split: option.split)

lemma push_phis:
  assumes "distinct slots" "length sts = length slots"
  shows "distinct (map phi_slot phis) \<Longrightarrow> (\<forall>p\<in>set phis. phi_slot p \<in> set slots) \<Longrightarrow> ai < length slots \<Longrightarrow>
    length (fold (push_phi slots) phis sts) = length slots \<and>
    fold (push_phi slots) phis sts ! ai =
      (case phi_res phis (slots ! ai) of Some d \<Rightarrow> d # sts ! ai | None \<Rightarrow> sts ! ai)"
  using assms(2)
proof (induction phis arbitrary: sts)
  case Nil
  then show ?case by (simp add: phi_res_def)
next
  case (Cons p phis)
  obtain aj where aj: "find_alloca_slot slots (phi_slot p) = Some aj" "aj < length slots" "slots ! aj = phi_slot p"
    using find_slot_ex[of "phi_slot p" slots] find_slot_Some Cons.prems(2) by auto
  let ?sts = "sts[aj := phi_dst p # sts ! aj]"
  have f: "fold (push_phi slots) (p # phis) sts = fold (push_phi slots) phis ?sts"
    using aj(1) by (simp add: push_phi_def rstack_push_def)
  have IH: "length (fold (push_phi slots) phis ?sts) = length slots \<and> fold (push_phi slots) phis ?sts ! ai =
      (case phi_res phis (slots ! ai) of Some d \<Rightarrow> d # ?sts ! ai | None \<Rightarrow> ?sts ! ai)"
    by (rule Cons.IH) (use Cons.prems in auto)
  show ?case
  proof (cases "ai = aj")
    case True
    have "phi_res phis (slots ! ai) = None"
      using Cons.prems(1) True aj(3) by (auto simp: phi_res_None block_has_phi_for_def image_iff)
    with f IH True aj Cons.prems show ?thesis by (simp add: phi_res_def)
  next
    case False
    with nth_eq_iff_index_eq[OF assms(1) Cons.prems(3) aj(2)] aj(3) have "slots ! ai \<noteq> phi_slot p" by auto
    with f IH False[symmetric] aj Cons.prems show ?thesis by (simp add: phi_res_def split: option.split)
  qed
qed

context placed_phis
begin

definition sub :: "nat \<Rightarrow> nat set" where
  "sub b = {c. reachable g c \<and> dominates g b c}"

text \<open>The arguments of a phi of block \<open>c\<close> for \<open>slot\<close> once the edges \<open>E\<close> are done.\<close>

definition args_from :: "(nat \<Rightarrow> nat \<Rightarrow> bool) \<Rightarrow> nat \<Rightarrow> int \<Rightarrow> phi_arg set" where
  "args_from E c slot = {a. \<exists>b ai. E b c \<and> find_alloca_slot slots slot = Some ai \<and>
     a = \<lparr>pa_val = VO b ai, pa_pred = b\<rparr>}"

definition phi_filled :: "(nat \<Rightarrow> nat \<Rightarrow> bool) \<Rightarrow> nat \<Rightarrow> ir_phi \<Rightarrow> ir_phi \<Rightarrow> bool" where
  "phi_filled E c p p' \<longleftrightarrow> phi_dst p' = phi_dst p \<and> phi_slot p' = phi_slot p \<and> phi_loc p' = phi_loc p \<and>
     set (phi_args p') = args_from E c (phi_slot p)"

definition edges_of :: "nat set \<Rightarrow> nat \<Rightarrow> nat \<Rightarrow> bool" where
  "edges_of D b c \<longleftrightarrow> b \<in> D \<and> c \<in> set (succs_of g b)"

definition blk_done :: "bool \<Rightarrow> ir_debug_var list \<Rightarrow> nat set \<Rightarrow> rename \<Rightarrow> bool" where
  "blk_done wd dbg D s \<longleftrightarrow> length (mr_insts s) = length insts \<and> length (mr_dead s) = length insts \<and>
     (\<forall>b\<in>D. \<forall>i. in_blk g b i \<longrightarrow> mr_insts s ! i = ren_spec wd dbg slots (VP b i) (insts ! i) \<and>
        (mr_dead s ! i \<longleftrightarrow> promoted_alloca slots (insts ! i) \<or> dead_spec wd dbg slots (insts ! i))) \<and>
     (\<forall>i<length insts. (\<forall>b\<in>D. \<not> in_blk g b i) \<longrightarrow>
        mr_insts s ! i = insts ! i \<and> (mr_dead s ! i \<longleftrightarrow> promoted_alloca slots (insts ! i)))"

definition phi_done :: "(nat \<Rightarrow> nat \<Rightarrow> bool) \<Rightarrow> rename \<Rightarrow> bool" where
  "phi_done E s \<longleftrightarrow> length (mr_phis s) = cfg_num g \<and>
     (\<forall>c<cfg_num g. list_all2 (phi_filled E c) (bp ! c) (mr_phis s ! c))"

definition tops :: "rename \<Rightarrow> nat \<Rightarrow> int" where
  "tops s ai = rstack_top (mr_stacks s ! ai)"

lemma blk_doneD:
  assumes "blk_done wd dbg D s"
  shows "length (mr_insts s) = length insts" "length (mr_dead s) = length insts"
    "\<And>b i. b \<in> D \<Longrightarrow> in_blk g b i \<Longrightarrow> mr_insts s ! i = ren_spec wd dbg slots (VP b i) (insts ! i) \<and>
        (mr_dead s ! i \<longleftrightarrow> promoted_alloca slots (insts ! i) \<or> dead_spec wd dbg slots (insts ! i))"
    "\<And>i. i < length insts \<Longrightarrow> (\<And>b. b \<in> D \<Longrightarrow> \<not> in_blk g b i) \<Longrightarrow>
        mr_insts s ! i = insts ! i \<and> (mr_dead s ! i \<longleftrightarrow> promoted_alloca slots (insts ! i))"
  using assms unfolding blk_done_def by blast+

text \<open>The instructions of one block.\<close>

definition in_progress :: "bool \<Rightarrow> ir_debug_var list \<Rightarrow> nat set \<Rightarrow> nat \<Rightarrow> nat \<Rightarrow> rename \<Rightarrow> rename \<Rightarrow> bool" where
  "in_progress wd dbg D b k s0 s \<longleftrightarrow>
     length (mr_insts s) = length insts \<and> length (mr_dead s) = length insts \<and>
     mr_phis s = mr_phis s0 \<and> length (mr_stacks s) = length slots \<and>
     (\<forall>ai<length slots. tops s ai = VP b k ai \<and> (\<exists>ws. mr_stacks s ! ai = ws @ mr_stacks s0 ! ai)) \<and>
     (\<forall>i<length insts.
        if start_of g b \<le> i \<and> i < k
        then mr_insts s ! i = ren_spec wd dbg slots (VP b i) (insts ! i) \<and>
          (mr_dead s ! i \<longleftrightarrow> promoted_alloca slots (insts ! i) \<or> dead_spec wd dbg slots (insts ! i))
        else mr_insts s ! i = mr_insts s0 ! i \<and> mr_dead s ! i = mr_dead s0 ! i)"

lemma rename_inst_ok:
  assumes ip: "in_progress wd dbg D b k s0 s" and k: "start_of g b \<le> k" "k < length insts"
    and orig: "mr_insts s0 ! k = insts ! k" "mr_dead s0 ! k \<longleftrightarrow> promoted_alloca slots (insts ! k)"
  shows "in_progress wd dbg D b (Suc k) s0 (rename_inst wd dbg slots k s)"
proof -
  have ins: "mr_insts s ! k = insts ! k" and dd: "mr_dead s ! k \<longleftrightarrow> promoted_alloca slots (insts ! k)"
    using ip k orig unfolding in_progress_def by fastforce+
  have len: "length (mr_insts s) = length insts" "length (mr_dead s) = length insts"
    "length (mr_stacks s) = length slots"
    using ip by (auto simp: in_progress_def)
  have vp: "VP b (Suc k) ai = store_step insts slots ai k (VP b k ai)" for ai
    using k(1) by (simp add: at_point_Suc)
  have tp: "tops s ai = VP b k ai" "\<exists>ws. mr_stacks s ! ai = ws @ mr_stacks s0 ! ai" if "ai < length slots" for ai
    using ip that by (auto simp: in_progress_def)
  have rest: "if start_of g b \<le> i \<and> i < k
        then mr_insts s ! i = ren_spec wd dbg slots (VP b i) (insts ! i) \<and>
          (mr_dead s ! i \<longleftrightarrow> promoted_alloca slots (insts ! i) \<or> dead_spec wd dbg slots (insts ! i))
        else mr_insts s ! i = mr_insts s0 ! i \<and> mr_dead s ! i = mr_dead s0 ! i" if "i < length insts" for i
    using ip that by (auto simp: in_progress_def)
  have same: "(mr_insts s)[k := insts ! k] = mr_insts s" using ins list_update_id by metis
  let ?x = "insts ! k"
  let ?s = "rename_inst wd dbg slots k s"
  have R: "mr_insts ?s = (mr_insts s)[k := ren_spec wd dbg slots (VP b k) ?x]"
    and E: "mr_dead ?s = (mr_dead s)[k := (mr_dead s ! k \<or> dead_spec wd dbg slots ?x)]"
    and P: "mr_phis ?s = mr_phis s"
    and S: "mr_stacks ?s = (if i_op ?x = IR_STORE then
        (case find_alloca_slot slots (i_a ?x) of None \<Rightarrow> mr_stacks s
         | Some ai \<Rightarrow> (mr_stacks s)[ai := i_b ?x # mr_stacks s ! ai]) else mr_stacks s)"
    using tp(1) find_slot_Some[of slots "i_a ?x"] len k
    by (auto simp: rename_inst_def Let_def ins same ren_spec_def dead_spec_def tops_def rstack_push_def
        split: option.split)
  have T: "tops ?s ai = VP b (Suc k) ai \<and> (\<exists>ws. mr_stacks ?s ! ai = ws @ mr_stacks s0 ! ai)" if ai: "ai < length slots" for ai
  proof (cases "stores_to insts slots ai k")
    case True
    then have st: "mr_stacks ?s ! ai = i_b ?x # mr_stacks s ! ai"
      using S ai len by (auto simp: stores_to_def)
    obtain ws where "mr_stacks s ! ai = ws @ mr_stacks s0 ! ai" using tp(2)[OF ai] by blast
    then have "mr_stacks ?s ! ai = (i_b ?x # ws) @ mr_stacks s0 ! ai" using st by simp
    moreover have "tops ?s ai = VP b (Suc k) ai" using st True by (simp add: tops_def vp store_step_def)
    ultimately show ?thesis by blast
  next
    case False
    then have "mr_stacks ?s ! ai = mr_stacks s ! ai"
      using S ai len by (auto simp: stores_to_def nth_list_update split: option.split)
    with False tp[OF ai] show ?thesis by (simp add: tops_def vp store_step_def)
  qed
  show ?thesis
    unfolding in_progress_def
  proof (intro conjI allI impI)
    show "length (mr_insts ?s) = length insts" "length (mr_dead ?s) = length insts" using R E len by auto
    show "mr_phis ?s = mr_phis s0" using P ip by (simp add: in_progress_def)
    show "length (mr_stacks ?s) = length slots" using S len by (simp split: option.split)
    fix ai assume "ai < length slots"
    then show "tops ?s ai = VP b (Suc k) ai" "\<exists>ws. mr_stacks ?s ! ai = ws @ mr_stacks s0 ! ai" using T by blast+
  next
    fix i assume i: "i < length insts"
    show "if start_of g b \<le> i \<and> i < Suc k
        then mr_insts ?s ! i = ren_spec wd dbg slots (VP b i) (insts ! i) \<and>
          (mr_dead ?s ! i \<longleftrightarrow> promoted_alloca slots (insts ! i) \<or> dead_spec wd dbg slots (insts ! i))
        else mr_insts ?s ! i = mr_insts s0 ! i \<and> mr_dead ?s ! i = mr_dead s0 ! i"
    proof (cases "i = k")
      case True
      then show ?thesis using R E dd len k by simp
    next
      case False
      then have "mr_insts ?s ! i = mr_insts s ! i" "mr_dead ?s ! i = mr_dead s ! i" using R E by auto
      with rest[OF i] False show ?thesis by (auto split: if_splits)
    qed
  qed
qed

lemma filled_phis:
  assumes "phi_done E s" "b < cfg_num g"
  shows "map phi_slot (mr_phis s ! b) = map phi_slot (bp ! b)" and "map phi_dst (mr_phis s ! b) = map phi_dst (bp ! b)"
    and "phi_res (mr_phis s ! b) slot = phi_res (bp ! b) slot"
proof -
  have l: "list_all2 (phi_filled E b) (bp ! b) (mr_phis s ! b)" using assms by (simp add: phi_done_def)
  then show "map phi_slot (mr_phis s ! b) = map phi_slot (bp ! b)" "map phi_dst (mr_phis s ! b) = map phi_dst (bp ! b)"
    by (induction rule: list_all2_induct) (auto simp: phi_filled_def)
  from l show "phi_res (mr_phis s ! b) slot = phi_res (bp ! b) slot"
    by (induction rule: list_all2_induct) (auto simp: phi_filled_def phi_res_def)
qed

lemma fill_succ_ok:
  assumes pd: "phi_done E s" and c: "c < cfg_num g" and st: "\<And>ai. ai < length slots \<Longrightarrow> tops s ai = VO b ai"
  shows "phi_done (\<lambda>x y. E x y \<or> x = b \<and> y = c) (fill_succ slots b c s)"
proof -
  let ?E = "\<lambda>x y. E x y \<or> x = b \<and> y = c"
  have other: "phi_filled ?E d p p' = phi_filled E d p p'" if "d \<noteq> c" for d p p'
    using that by (simp add: phi_filled_def args_from_def)
  have fill: "phi_filled ?E c p (fill_phi slots (mr_stacks s) b p')" if "phi_filled E c p p'" for p p'
  proof (cases "find_alloca_slot slots (phi_slot p)")
    case None
    with that show ?thesis by (auto simp: phi_filled_def args_from_def fill_phi_def)
  next
    case (Some ai)
    then have "rstack_top (mr_stacks s ! ai) = VO b ai" using st[of ai] find_slot_Some by (simp add: tops_def)
    with that Some show ?thesis
      by (auto simp: phi_filled_def args_from_def fill_phi_def phi_add_arg_def)
  qed
  have len: "length (mr_phis s) = cfg_num g" and all: "\<And>d. d < cfg_num g \<Longrightarrow> list_all2 (phi_filled E d) (bp ! d) (mr_phis s ! d)"
    using pd by (auto simp: phi_done_def)
  have "list_all2 (phi_filled ?E c) (bp ! c) (map (fill_phi slots (mr_stacks s) b) (mr_phis s ! c))"
    using all[OF c] by (simp add: list_all2_map2) (erule list_all2_mono, erule fill)
  moreover have "list_all2 (phi_filled ?E d) (bp ! d) (mr_phis s ! d)" if "d < cfg_num g" "d \<noteq> c" for d
    using all[OF that(1)] by (rule list_all2_mono) (simp add: other[OF that(2)])
  ultimately show ?thesis
    using len c by (simp add: phi_done_def fill_succ_def nth_list_update)
qed

lemma fill_succs_ok:
  "phi_done E s \<Longrightarrow> set cs \<subseteq> {..<cfg_num g} \<Longrightarrow> (\<And>ai. ai < length slots \<Longrightarrow> tops s ai = VO b ai) \<Longrightarrow>
    phi_done (\<lambda>x y. E x y \<or> x = b \<and> y \<in> set cs) (fold (fill_succ slots b) cs s)"
proof (induction cs arbitrary: s E)
  case (Cons c cs)
  have "phi_done (\<lambda>x y. (E x y \<or> x = b \<and> y = c) \<or> x = b \<and> y \<in> set cs) (fold (fill_succ slots b) cs (fill_succ slots b c s))"
    by (rule Cons.IH[OF fill_succ_ok[OF Cons.prems(1) _ Cons.prems(3)]])
      (use Cons.prems in \<open>auto simp: tops_def fill_succ_def\<close>)
  moreover have "(\<lambda>x y. (E x y \<or> x = b \<and> y = c) \<or> x = b \<and> y \<in> set cs) = (\<lambda>x y. E x y \<or> x = b \<and> y \<in> set (c # cs))"
    by (auto simp: fun_eq_iff)
  ultimately show ?case by simp
qed simp

lemma fill_succs_keep [simp]:
  "mr_insts (fold (fill_succ slots b) cs s) = mr_insts s"
  "mr_dead (fold (fill_succ slots b) cs s) = mr_dead s"
  "mr_stacks (fold (fill_succ slots b) cs s) = mr_stacks s"
  by (induction cs arbitrary: s) (auto simp: fill_succ_def)

definition ready :: "bool \<Rightarrow> ir_debug_var list \<Rightarrow> nat set \<Rightarrow> rename \<Rightarrow> bool" where
  "ready wd dbg D s \<longleftrightarrow> blk_done wd dbg D s \<and> phi_done (edges_of D) s \<and> length (mr_stacks s) = length slots"

lemma rename_block_ok:
  assumes b: "reachable g b" "b \<notin> D" and D: "D \<subseteq> {..<cfg_num g}" and rd: "ready wd dbg D s"
    and top: "\<And>ai. ai < length slots \<Longrightarrow> phi_res (bp ! b) (slots ! ai) = None \<Longrightarrow> tops s ai = VI b ai"
  defines "s' \<equiv> rename_block wd dbg g slots b s"
  shows "ready wd dbg (insert b D) s'"
    and "\<And>ai. ai < length slots \<Longrightarrow> tops s' ai = VO b ai \<and> (\<exists>ws. mr_stacks s' ! ai = ws @ mr_stacks s ! ai)"
proof -
  have bn: "b < cfg_num g" using b reachable_block by blast
  note R = block_range[OF bn]
  have bd: "blk_done wd dbg D s" and pd: "phi_done (edges_of D) s" and len: "length (mr_stacks s) = length slots"
    using rd by (auto simp: ready_def)
  note BD = blk_doneD[OF bd]
  let ?s1 = "s\<lparr>mr_stacks := fold (push_phi slots) (mr_phis s ! b) (mr_stacks s)\<rparr>"
  let ?s2 = "fold (rename_inst wd dbg slots) [start_of g b..<end_of g b] ?s1"
  have s': "s' = fold (fill_succ slots b) (succs_of g b) ?s2" by (simp add: s'_def rename_block_def Let_def)
  have known: "\<forall>p\<in>set (mr_phis s ! b). phi_slot p \<in> set slots"
  proof
    fix p assume "p \<in> set (mr_phis s ! b)"
    then have "phi_slot p \<in> set (map phi_slot (mr_phis s ! b))" by simp
    then have "phi_slot p \<in> set (map phi_slot (bp ! b))" by (simp only: filled_phis(1)[OF pd bn])
    then show "phi_slot p \<in> set slots" using phi_known[OF bn] by auto
  qed
  have pp: "length (fold (push_phi slots) (mr_phis s ! b) (mr_stacks s)) = length slots \<and>
    fold (push_phi slots) (mr_phis s ! b) (mr_stacks s) ! ai =
      (case phi_res (bp ! b) (slots ! ai) of Some d \<Rightarrow> d # mr_stacks s ! ai | None \<Rightarrow> mr_stacks s ! ai)"
    if "ai < length slots" for ai
    using push_phis[OF slots_distinct len _ known that] phi_slots[OF bn] filled_phis[OF pd bn] by simp
  have l1: "length (fold (push_phi slots) (mr_phis s ! b) (mr_stacks s)) = length slots"
    by (simp add: push_phis_length len)
  have "tops ?s1 ai = VI b ai \<and> (\<exists>ws. mr_stacks ?s1 ! ai = ws @ mr_stacks s ! ai)" if ai: "ai < length slots" for ai
  proof (cases "phi_res (bp ! b) (slots ! ai)")
    case None
    with pp[OF ai] top[OF ai] show ?thesis by (simp add: tops_def)
  next
    case (Some d)
    then have "VI b ai = d" by (simp add: VI_eq[OF b(1)])
    with pp[OF ai] Some show ?thesis by (auto simp: tops_def)
  qed
  then have "in_progress wd dbg D b (start_of g b) s ?s1"
    using BD(1,2) l1 by (auto simp: in_progress_def)
  then have ip: "in_progress wd dbg D b (end_of g b) s ?s2"
  proof (rule fold_upt_inv[rotated])
    fix i s2 assume i: "start_of g b \<le> i" "i < end_of g b" "in_progress wd dbg D b i s s2"
    then have "i < length insts" using R by simp
    moreover have "\<not> in_blk g c i" if "c \<in> D" for c
      using block_disjoint[OF bn _ _ , of c i] i D that b(2) by (auto simp: in_blk_def)
    ultimately show "in_progress wd dbg D b (Suc i) s (rename_inst wd dbg slots i s2)"
      using BD(4)[of i] i rename_inst_ok by blast
  qed (use R in simp)
  have len2: "length (mr_insts ?s2) = length insts" "length (mr_dead ?s2) = length insts" "mr_phis ?s2 = mr_phis s"
    "length (mr_stacks ?s2) = length slots"
    using ip by (auto simp: in_progress_def)
  have done2: "if in_blk g b i
        then mr_insts ?s2 ! i = ren_spec wd dbg slots (VP b i) (insts ! i) \<and>
          (mr_dead ?s2 ! i \<longleftrightarrow> promoted_alloca slots (insts ! i) \<or> dead_spec wd dbg slots (insts ! i))
        else mr_insts ?s2 ! i = mr_insts s ! i \<and> mr_dead ?s2 ! i = mr_dead s ! i" if "i < length insts" for i
    using ip that by (simp add: in_progress_def in_blk_def)
  show T: "tops s' ai = VO b ai \<and> (\<exists>ws. mr_stacks s' ! ai = ws @ mr_stacks s ! ai)" if "ai < length slots" for ai
    using ip that by (simp add: s' in_progress_def tops_def)
  have "blk_done wd dbg (insert b D) ?s2"
    unfolding blk_done_def
  proof (intro conjI ballI allI impI)
    fix c i assume c: "c \<in> insert b D" "in_blk g c i"
    then have cn: "c < cfg_num g" using bn D by auto
    have il: "i < length insts" using c(2) block_range[OF cn] by (auto simp: in_blk_def)
    have "mr_insts ?s2 ! i = ren_spec wd dbg slots (VP c i) (insts ! i) \<and>
        (mr_dead ?s2 ! i \<longleftrightarrow> promoted_alloca slots (insts ! i) \<or> dead_spec wd dbg slots (insts ! i))"
    proof (cases "c = b")
      case False
      with c block_disjoint[OF bn cn, of i] have "\<not> in_blk g b i" by blast
      with done2[OF il] BD(3)[of c i] c False show ?thesis by simp
    qed (use done2[OF il] c in simp)
    then show "mr_insts ?s2 ! i = ren_spec wd dbg slots (VP c i) (insts ! i)"
      "mr_dead ?s2 ! i \<longleftrightarrow> promoted_alloca slots (insts ! i) \<or> dead_spec wd dbg slots (insts ! i)" by blast+
  next
    fix i assume i: "i < length insts" "\<forall>c\<in>insert b D. \<not> in_blk g c i"
    then show "mr_insts ?s2 ! i = insts ! i" "mr_dead ?s2 ! i \<longleftrightarrow> promoted_alloca slots (insts ! i)"
      using done2[OF i(1)] BD(4)[OF i(1)] by auto
  qed (use len2 in simp_all)
  moreover have "phi_done (edges_of (insert b D)) s'"
  proof -
    have "phi_done (edges_of D) ?s2" using pd len2(3) by (simp add: phi_done_def)
    then have "phi_done (\<lambda>x y. edges_of D x y \<or> x = b \<and> y \<in> set (succs_of g b)) s'"
      unfolding s' by (rule fill_succs_ok) (use succ_block[OF bn] ip in \<open>auto simp: in_progress_def\<close>)
    moreover have "(\<lambda>x y. edges_of D x y \<or> x = b \<and> y \<in> set (succs_of g b)) = edges_of (insert b D)"
      by (auto simp: edges_of_def fun_eq_iff)
    ultimately show ?thesis by simp
  qed
  ultimately show "ready wd dbg (insert b D) s'" using len2(4) by (simp add: ready_def s' blk_done_def)
qed

text \<open>The walk below \<open>b\<close>: it returns, renames every block that \<open>b\<close> dominates, and restores the stacks.\<close>

lemma sub_disjoint:
  assumes "im ! c = Some b" "im ! d = Some b" "c \<noteq> d" "reachable g c" "reachable g d"
  shows "sub c \<inter> sub d = {}"
proof -
  have no: "\<not> dominates g x y" if "im ! x = Some b" "im ! y = Some b" "x \<noteq> y" "reachable g x" "reachable g y" for x y
  proof
    assume xy: "dominates g x y"
    with that(3) have "sdom g x y" by (simp add: sdom_def)
    then have xb: "dominates g x b" using sdom_idom[OF that(5)] that(2) by auto
    have "sdom g b x" using sdom_idom[OF that(4), of b] that(1) by simp
    then show False using xb dom_antisym[of g b x] dom_reachable[of g b x] that(4) by (auto simp: sdom_def)
  qed
  show ?thesis
  proof (rule ccontr)
    assume "sub c \<inter> sub d \<noteq> {}"
    then obtain x where "reachable g x" "dominates g c x" "dominates g d x" by (auto simp: sub_def)
    from dom_comparable[OF this] no assms show False by blast
  qed
qed

lemma sub_children:
  assumes "reachable g b"
  shows "sub b = insert b (\<Union>c\<in>{c. c < cfg_num g \<and> im ! c = Some b}. sub c)"
proof (intro equalityI subsetI)
  fix x assume "x \<in> sub b"
  then have "reachable g x" "dominates g b x" by (auto simp: sub_def)
  then show "x \<in> insert b (\<Union>c\<in>{c. c < cfg_num g \<and> im ! c = Some b}. sub c)"
  proof (induction "card (doms x)" arbitrary: x rule: less_induct)
    case less
    from less.prems(1) show ?case
    proof (cases rule: idom_cases)
      case entry
      with less.prems show ?thesis by (simp add: dom_entry_eq)
    next
      case (parent i)
      show ?thesis
      proof (cases "b = x \<or> b = i")
        case False
        with parent(5) less.prems(2) have "dominates g b i" by blast
        from less.hyps[OF doms_less[OF less.prems(1) parent(3)] parent(4) this] False
        obtain c where c: "c < cfg_num g" "im ! c = Some b" "i \<in> sub c" by auto
        have "dominates g c x" using c(3) parent(5) by (simp add: sub_def)
        with c less.prems(1) show ?thesis by (auto simp: sub_def)
      qed (use parent less.prems(1) reachable_block in \<open>auto simp: sub_def\<close>)
    qed
  qed
next
  fix x assume "x \<in> insert b (\<Union>c\<in>{c. c < cfg_num g \<and> im ! c = Some b}. sub c)"
  then consider "x = b" | c where "c < cfg_num g" "im ! c = Some b" "x \<in> sub c" by auto
  then show "x \<in> sub b"
  proof cases
    case 2
    then have "reachable g c" using idom_unreachable[of c] by fastforce
    then have "dominates g b c" using sdom_idom[of c b] 2(2) by (auto simp: sdom_def)
    with 2(3) show ?thesis using dom_trans by (auto simp: sub_def)
  qed (use assms in \<open>simp add: sub_def\<close>)
qed

lemma sub_blocks: "sub b \<subseteq> {..<cfg_num g}"
  using reachable_block by (auto simp: sub_def)

lemma rename_dfs_ok:
  assumes dt: "dt_idom dt = im" "dt_n dt = cfg_num g"
  shows "reachable g b \<Longrightarrow> sub b \<inter> D = {} \<Longrightarrow> D \<subseteq> {..<cfg_num g} \<Longrightarrow> ready wd dbg D s \<Longrightarrow>
    (\<forall>ai<length slots. phi_res (bp ! b) (slots ! ai) = None \<longrightarrow> tops s ai = VI b ai) \<Longrightarrow>
    \<exists>s'. mem2reg_rename_dfs wd dbg g dt slots b s = Some s' \<and> ready wd dbg (D \<union> sub b) s' \<and>
      mr_stacks s' = mr_stacks s"
proof (induction "cfg_num g - card (doms b)" arbitrary: b D s rule: less_induct)
  case less
  note b = less.prems(1)
  have bD: "b \<notin> D" using less.prems(2) b by (auto simp: sub_def)
  let ?n = "cfg_num g" and ?s3 = "rename_block wd dbg g slots b s"
  let ?rec = "\<lambda>i s'. if dt_idom dt ! i = Some b then mem2reg_rename_dfs wd dbg g dt slots i s' else Some s'"
  note B = rename_block_ok[OF b bD less.prems(3,4)]
  have r3: "ready wd dbg (insert b D) ?s3" by (rule B(1)) (use less.prems(5) in blast)
  have t3: "tops ?s3 ai = VO b ai \<and> (\<exists>ws. mr_stacks ?s3 ! ai = ws @ mr_stacks s ! ai)" if "ai < length slots" for ai
    by (rule B(2)[OF _ that]) (use less.prems(5) in blast)
  define Q where "Q j = insert b D \<union> (\<Union>c\<in>{c. c < j \<and> im ! c = Some b}. sub c)" for j
  define P where "P j s' \<longleftrightarrow> ready wd dbg (Q j) s' \<and> mr_stacks s' = mr_stacks ?s3" for j s'
  have kid: "reachable g c" "sdom g b c" "b \<notin> sub c" if c: "c < ?n" "im ! c = Some b" for c
  proof -
    show rc: "reachable g c" using idom_unreachable[OF c(1)] c(2) by fastforce
    show s: "sdom g b c" using sdom_idom[OF rc, of b] c(2) by simp
    then show "b \<notin> sub c" using dom_antisym[of g b c] b by (auto simp: sub_def sdom_def)
  qed
  have Qn: "Q j \<subseteq> {..<?n}" for j
    using less.prems(3) reachable_block[OF b] sub_blocks by (auto simp: Q_def)
  have "\<exists>s'. fold_opt ?rec [0..<dt_n dt] ?s3 = Some s' \<and> P (dt_n dt) s'"
  proof (rule fold_opt_inv[where P = P])
    show "P 0 ?s3" using r3 by (simp add: P_def Q_def)
    fix i s' assume i: "i < dt_n dt" and P: "P i s'"
    show "\<exists>s''. ?rec i s' = Some s'' \<and> P (Suc i) s''"
    proof (cases "im ! i = Some b")
      case False
      then have "{c. c < Suc i \<and> im ! c = Some b} = {c. c < i \<and> im ! c = Some b}" by (auto simp: less_Suc_eq)
      with P False dt(1) show ?thesis by (simp add: P_def Q_def)
    next
      case True
      have iN: "i < ?n" using i dt(2) by simp
      note K = kid[OF iN True]
      have "card (doms b) < card (doms i)" by (rule doms_less[OF K(1,2)])
      then have m: "?n - card (doms i) < ?n - card (doms b)" using doms_card[OF K(1)] by linarith
      have "sub i \<subseteq> sub b" using K(2) dom_trans[of g b i] by (auto simp: sub_def sdom_def)
      moreover have "sub i \<inter> sub c = {}" if c: "c < i" "im ! c = Some b" for c
        using sub_disjoint[of i b c] True c K(1) kid(1)[of c] iN by auto
      ultimately have d: "sub i \<inter> Q i = {}"
        using less.prems(2) K(3) by (auto simp: Q_def)
      have "\<forall>ai<length slots. phi_res (bp ! i) (slots ! ai) = None \<longrightarrow> tops s' ai = VI i ai"
        using t3 P True by (auto simp: VI_eq[OF K(1)] P_def tops_def)
      from less.hyps[OF m K(1) d Qn _ this] P obtain s'' where
        "mem2reg_rename_dfs wd dbg g dt slots i s' = Some s''" "ready wd dbg (Q i \<union> sub i) s''"
        "mr_stacks s'' = mr_stacks s'" by (auto simp: P_def)
      moreover have "Q i \<union> sub i = Q (Suc i)" using True by (auto simp: Q_def less_Suc_eq)
      ultimately show ?thesis using True P dt(1) by (simp add: P_def)
    qed
  qed simp
  then obtain s4 where s4: "fold_opt ?rec [0..<dt_n dt] ?s3 = Some s4" "P (dt_n dt) s4" by blast
  let ?s5 = "s4\<lparr>mr_stacks := map2 pop_to (map length (mr_stacks s)) (mr_stacks s4)\<rparr>"
  have len: "length (mr_stacks s) = length slots" "length (mr_stacks ?s3) = length slots"
    using less.prems(4) r3 by (auto simp: ready_def)
  have "map2 pop_to (map length (mr_stacks s)) (mr_stacks s4) = mr_stacks s"
  proof (rule nth_equalityI)
    fix ai assume "ai < length (map2 pop_to (map length (mr_stacks s)) (mr_stacks s4))"
    then have ai: "ai < length slots" using len by simp
    from t3[OF ai] obtain ws where "mr_stacks ?s3 ! ai = ws @ mr_stacks s ! ai" by blast
    then show "map2 pop_to (map length (mr_stacks s)) (mr_stacks s4) ! ai = mr_stacks s ! ai"
      using s4(2) ai len by (simp add: P_def pop_to_append)
  qed (use s4(2) len in \<open>simp add: P_def\<close>)
  moreover have "Q (dt_n dt) = D \<union> sub b" using sub_children[OF b] dt(2) by (auto simp: Q_def)
  ultimately have "ready wd dbg (D \<union> sub b) ?s5 \<and> mr_stacks ?s5 = mr_stacks s"
    using s4(2) len by (simp add: P_def ready_def blk_done_def phi_done_def)
  moreover have "mem2reg_rename_dfs wd dbg g dt slots b s = Some ?s5"
    by (subst mem2reg_rename_dfs.simps) (simp add: s4(1))
  ultimately show ?case by blast
qed

lemma sub_entry: "sub (cfg_entry g) = {b. reachable g b}"
  by (simp add: sub_def)

lemma mem2reg_rename_ok:
  assumes dt: "dt_idom dt = im" "dt_n dt = cfg_num g" and ne: "slots \<noteq> []"
  shows "\<exists>s. mem2reg_rename wd dbg g dt slots insts bp = Some s \<and> ready wd dbg {b. reachable g b} s"
proof -
  let ?s = "\<lparr>mr_insts = insts, mr_phis = bp, mr_dead = map (promoted_alloca slots) insts,
    mr_stacks = replicate (length slots) []\<rparr>"
  have "list_all2 (phi_filled (edges_of {}) c) (bp ! c) (bp ! c)" if "c < cfg_num g" for c
    by (rule list_all2_all_nthI) (use phi_fresh[OF that] in \<open>auto simp: phi_filled_def args_from_def edges_of_def\<close>)
  then have rd: "ready wd dbg {} ?s"
    by (simp add: ready_def blk_done_def phi_done_def bp_len)
  have "\<forall>ai<length slots. phi_res (bp ! cfg_entry g) (slots ! ai) = None \<longrightarrow> tops ?s ai = VI (cfg_entry g) ai"
    using root by (simp add: tops_def VI_eq)
  from rename_dfs_ok[OF dt reachable_entry _ _ rd this] obtain s' where
    "mem2reg_rename_dfs wd dbg g dt slots (cfg_entry g) ?s = Some s'" "ready wd dbg (sub (cfg_entry g)) s'"
    by auto
  then show ?thesis using ne by (simp add: mem2reg_rename_def Let_def sub_entry)
qed

end

end
