(* ===== verification/Promote.thy ===== *)
theory Promote
  imports Renaming
begin

text \<open>
  The whole pass \<open>opt_mem2reg\<close>: the slots it chooses, the phis it places for them, and the renamed
  function.  The contract \<open>placed_phis\<close> of the renaming is interpreted here on the slots and phis
  the pass computes.
\<close>

section \<open>The run of the pass\<close>

abbreviation fn_cfg :: "ir_function \<Rightarrow> cfg" where "fn_cfg fn \<equiv> cfg_build (fn_insts fn)"
abbreviation fn_idom :: "ir_function \<Rightarrow> idoms" where "fn_idom fn \<equiv> dt_idom (build_dt (fn_insts fn))"

definition m2r_insts :: "ir_function \<Rightarrow> ir_inst list" where
  "m2r_insts fn = map (pin_bytes (pinned_slots fn)) (fn_insts fn)"

definition m2r_all_slots :: "ir_function \<Rightarrow> int list" where
  "m2r_all_slots fn = alloca_slots_of (pinned_slots fn) (m2r_insts fn)"

text \<open>
  What the pass takes for granted: every alloca has its own id, and the entry block has no
  predecessor (or at least two: with exactly one, \<open>domtree_build\<close> leaves the entry out of the
  frontiers).
\<close>

definition m2r_ok :: "ir_function \<Rightarrow> bool" where
  "m2r_ok fn \<longleftrightarrow> distinct (m2r_all_slots fn) \<and> length (preds_of (fn_cfg fn) (cfg_entry (fn_cfg fn))) \<noteq> 1"

definition m2r_slots :: "ir_function \<Rightarrow> int list" where
  "m2r_slots fn = (if m2r_ok fn then m2r_all_slots fn else [])"

definition m2r_stores :: "ir_function \<Rightarrow> bool list list" where
  "m2r_stores fn = block_stores_of (fn_cfg fn) (m2r_slots fn) (m2r_insts fn)"

definition m2r_placed :: "ir_function \<Rightarrow> block_phi_info list \<times> int" where
  "m2r_placed fn = the (mem2reg_place_phis True (fn_cfg fn) (build_dt (fn_insts fn)) (m2r_slots fn)
     (m2r_stores fn) (fn_next_value_id fn))"

abbreviation m2r_phis :: "ir_function \<Rightarrow> block_phi_info list" where
  "m2r_phis fn \<equiv> fst (m2r_placed fn)"

section \<open>The stores of the blocks\<close>

lemma nth_upd: "xs[i := x] ! j = (if i = j \<and> i < length xs then x else xs ! j)"
  by (cases "i < length xs") (auto simp: list_update_beyond)

lemma mark_store_nth:
  assumes "length stores = cfg_num g" "\<And>b. b < cfg_num g \<Longrightarrow> length (stores ! b) = length slots"
    and dis: "\<And>b c. b < cfg_num g \<Longrightarrow> c < cfg_num g \<Longrightarrow> in_blk g b i \<Longrightarrow> in_blk g c i \<Longrightarrow> b = c"
  shows "length (mark_store g slots insts i stores) = cfg_num g"
    and "\<And>b. b < cfg_num g \<Longrightarrow> length (mark_store g slots insts i stores ! b) = length slots"
    and "\<And>b ai. b < cfg_num g \<Longrightarrow> ai < length slots \<Longrightarrow>
      mark_store g slots insts i stores ! b ! ai \<longleftrightarrow> stores ! b ! ai \<or> in_blk g b i \<and> stores_to insts slots ai i"
proof -
  let ?Q = "\<lambda>b. blk_start b \<le> i \<and> i < blk_end b"
  have eq: "find_index ((=) (i_a (insts ! i))) slots = find_alloca_slot slots (i_a (insts ! i))"
    unfolding find_alloca_slot_def by (rule arg_cong[where f = "\<lambda>P. find_index P slots"]) auto
  show "length (mark_store g slots insts i stores) = cfg_num g"
    using assms(1) by (simp add: mark_store_def split: option.split)
  show "length (mark_store g slots insts i stores ! b) = length slots" if "b < cfg_num g" for b
    using assms(1,2) that by (auto simp: mark_store_def nth_upd split: option.split)
  fix b ai assume b: "b < cfg_num g" and ai: "ai < length slots"
  show "mark_store g slots insts i stores ! b ! ai \<longleftrightarrow> stores ! b ! ai \<or> in_blk g b i \<and> stores_to insts slots ai i"
  proof (cases "find_index ?Q (cfg_blocks g)")
    case None
    then have "\<not> in_blk g b i" using b by (auto simp: find_index_None_iff in_blk_def)
    with None show ?thesis by (simp add: mark_store_def split: option.split)
  next
    case (Some c)
    from find_index_SomeD[OF this] have c: "c < cfg_num g" "in_blk g c i" by (auto simp: in_blk_def)
    then have "in_blk g b i \<longleftrightarrow> b = c" using dis[OF b c(1)] by blast
    with Some c b ai assms(1,2) show ?thesis
      by (auto simp: mark_store_def eq stores_to_def nth_upd split: option.split)
  qed
qed

lemma block_stores_nth:
  assumes dis: "\<And>b c i. b < cfg_num g \<Longrightarrow> c < cfg_num g \<Longrightarrow> in_blk g b i \<Longrightarrow> in_blk g c i \<Longrightarrow> b = c"
    and rng: "\<And>b. b < cfg_num g \<Longrightarrow> end_of g b \<le> length insts"
  shows "length (block_stores_of g slots insts) = cfg_num g"
    and "b < cfg_num g \<Longrightarrow> ai < length slots \<Longrightarrow>
      block_stores_of g slots insts ! b ! ai \<longleftrightarrow> (\<exists>i. in_blk g b i \<and> stores_to insts slots ai i)"
proof -
  define P where "P k st \<longleftrightarrow> length st = cfg_num g \<and> (\<forall>b<cfg_num g. length (st ! b) = length slots) \<and>
    (\<forall>b<cfg_num g. \<forall>ai<length slots. st ! b ! ai \<longleftrightarrow> (\<exists>i<k. in_blk g b i \<and> stores_to insts slots ai i))"
    for k and st :: "bool list list"
  have "P (length insts) (block_stores_of g slots insts)"
    unfolding block_stores_of_def
  proof (rule fold_upt_inv[where P = P])
    show "P 0 (replicate (cfg_num g) (replicate (length slots) False))" by (simp add: P_def)
    fix k st assume P: "P k st"
    then have st: "length st = cfg_num g" "\<And>b. b < cfg_num g \<Longrightarrow> length (st ! b) = length slots"
      "\<And>b ai. b < cfg_num g \<Longrightarrow> ai < length slots \<Longrightarrow> st ! b ! ai \<longleftrightarrow> (\<exists>i<k. in_blk g b i \<and> stores_to insts slots ai i)"
      by (auto simp: P_def)
    note M = mark_store_nth[where i = k, OF st(1) st(2) dis]
    show "P (Suc k) (mark_store g slots insts k st)"
      unfolding P_def using M st(3) by (auto simp: less_Suc_eq)
  qed simp
  then have P: "length (block_stores_of g slots insts) = cfg_num g"
    "\<And>b ai. b < cfg_num g \<Longrightarrow> ai < length slots \<Longrightarrow> block_stores_of g slots insts ! b ! ai \<longleftrightarrow>
       (\<exists>i<length insts. in_blk g b i \<and> stores_to insts slots ai i)"
    by (auto simp: P_def)
  show "length (block_stores_of g slots insts) = cfg_num g" by (rule P)
  show "b < cfg_num g \<Longrightarrow> ai < length slots \<Longrightarrow>
      block_stores_of g slots insts ! b ! ai \<longleftrightarrow> (\<exists>i. in_blk g b i \<and> stores_to insts slots ai i)"
    using P(2)[of b ai] rng[of b] by (auto simp: in_blk_def)
qed

section \<open>The contract of the renaming\<close>

lemma built_block_disjoint:
  "b < cfg_num (cfg_build insts) \<Longrightarrow> c < cfg_num (cfg_build insts) \<Longrightarrow> in_blk (cfg_build insts) b i \<Longrightarrow>
    in_blk (cfg_build insts) c i \<Longrightarrow> b = c"
  using tile_start_mono[OF cfg_build_blocks(1), of c insts b] tile_start_mono[OF cfg_build_blocks(1), of b insts c]
  by (cases b c rule: linorder_cases) (auto simp: in_blk_def)

lemma built_block_range:
  assumes "b < cfg_num (cfg_build insts)"
  shows "end_of (cfg_build insts) b \<le> length insts \<and> start_of (cfg_build insts) b \<le> end_of (cfg_build insts) b"
proof (cases "insts = []")
  case True
  then show ?thesis using assms by (simp add: cfg_build_def cfg_new_block_def cfg_init_def)
next
  case False
  then show ?thesis using cfg_build_blocks(5)[OF assms False] build_end_bound[OF False assms] by simp
qed

lemma m2r_insts_nth:
  "length (m2r_insts fn) = length (fn_insts fn)"
  by (simp add: m2r_insts_def)

lemma m2r_slots_distinct: "distinct (m2r_slots fn)"
  by (simp add: m2r_slots_def m2r_ok_def)

lemma m2r_stores_nth:
  "length (m2r_stores fn) = cfg_num (fn_cfg fn)"
  "b < cfg_num (fn_cfg fn) \<Longrightarrow> ai < length (m2r_slots fn) \<Longrightarrow>
    m2r_stores fn ! b ! ai \<longleftrightarrow> (\<exists>i. in_blk (fn_cfg fn) b i \<and> stores_to (m2r_insts fn) (m2r_slots fn) ai i)"
  unfolding m2r_stores_def
  using block_stores_nth(1)[where g = "fn_cfg fn" and insts = "m2r_insts fn" and slots = "m2r_slots fn"]
    block_stores_nth(2)[where g = "fn_cfg fn" and insts = "m2r_insts fn" and slots = "m2r_slots fn" and b = b and ai = ai]
    built_block_disjoint built_block_range
  by (auto simp: m2r_insts_nth)

lemma m2r_placed_ok:
  "mem2reg_place_phis True (fn_cfg fn) (build_dt (fn_insts fn)) (m2r_slots fn) (m2r_stores fn)
     (fn_next_value_id fn) = Some (m2r_placed fn)"
  "phis_ok (cfg_num (fn_cfg fn)) (fn_next_value_id fn) (snd (m2r_placed fn)) (m2r_phis fn)"
  "ai < length (m2r_slots fn) \<Longrightarrow> y < cfg_num (fn_cfg fn) \<Longrightarrow>
     block_has_phi_for (m2r_phis fn ! y) (m2r_slots fn ! ai) \<longleftrightarrow>
     iter_df (\<lambda>x. set (dt_df (build_dt (fn_insts fn)) ! x)) {b. b < cfg_num (fn_cfg fn) \<and> m2r_stores fn ! b ! ai} y"
  "y < cfg_num (fn_cfg fn) \<Longrightarrow> t \<notin> set (m2r_slots fn) \<Longrightarrow> \<not> block_has_phi_for (m2r_phis fn ! y) t"
  using place_phis_ok[OF build_df_bound(1)[OF build_dt(1)] m2r_stores_nth(1)[of fn] m2r_slots_distinct[of fn],
    where next_id = "fn_next_value_id fn"]
  unfolding m2r_placed_def by auto

interpretation m2r: placed_phis "fn_cfg fn" "fn_idom fn" "m2r_phis fn" "m2r_slots fn" "m2r_insts fn" for fn
proof unfold_locales
  let ?g = "fn_cfg fn"
  note D = phis_okD[OF m2r_placed_ok(2)[of fn]]
  show "length (m2r_phis fn) = cfg_num ?g" by (rule D)
  show "distinct (m2r_slots fn)" by (rule m2r_slots_distinct)
  fix b assume b: "b < cfg_num ?g"
  show "distinct (map phi_slot (m2r_phis fn ! b))" using D(3) b .
  show "end_of ?g b \<le> length (m2r_insts fn) \<and> start_of ?g b \<le> end_of ?g b"
    using built_block_range[OF b] by (simp add: m2r_insts_nth)
  fix p assume p: "p \<in> set (m2r_phis fn ! b)"
  show "phi_slot p \<in> set (m2r_slots fn)"
    using m2r_placed_ok(4)[OF b, of "phi_slot p"] p by (auto simp: block_has_phi_for_def)
  show "phi_args p = []" using D(4)[OF b p] by blast
next
  fix b c i
  assume "b < cfg_num (fn_cfg fn)" "c < cfg_num (fn_cfg fn)" "in_blk (fn_cfg fn) b i" "in_blk (fn_cfg fn) c i"
  then show "b = c" by (rule built_block_disjoint)
next
  let ?g = "fn_cfg fn"
  fix x c ai
  assume x: "reachable ?g x" and c: "reachable ?g c" and df: "dom_frontier ?g x c" and ai: "ai < length (m2r_slots fn)"
    and d: "block_has_phi_for (m2r_phis fn ! x) (m2r_slots fn ! ai) \<or>
      (\<exists>i. in_blk ?g x i \<and> stores_to (m2r_insts fn) (m2r_slots fn) ai i)"
  have xn: "x < cfg_num ?g" and cn: "c < cfg_num ?g" using x c built.reachable_block by auto
  have ok: "m2r_ok fn" using ai by (auto simp: m2r_slots_def split: if_splits)
  have "length (preds_of ?g c) \<noteq> 0" using df by (auto simp: dom_frontier_def)
  moreover have "length (preds_of ?g c) \<noteq> 1 \<or> c \<noteq> cfg_entry ?g" using ok by (auto simp: m2r_ok_def)
  moreover have "\<not> length (preds_of ?g c) < 2 \<or> c = cfg_entry ?g"
    using built.single_pred_no_frontier[OF cn, of x] df by blast
  ultimately have "2 \<le> length (preds_of ?g c)" by linarith
  with df cn build_dt(3)[OF x, of c] have m: "c \<in> set (dt_df (build_dt (fn_insts fn)) ! x)" by blast
  from d have "x \<in> {b. b < cfg_num ?g \<and> m2r_stores fn ! b ! ai} \<or>
      iter_df (\<lambda>x. set (dt_df (build_dt (fn_insts fn)) ! x)) {b. b < cfg_num ?g \<and> m2r_stores fn ! b ! ai} x"
    using m2r_placed_ok(3)[OF ai xn] m2r_stores_nth(2)[OF xn ai] xn by blast
  with m show "block_has_phi_for (m2r_phis fn ! c) (m2r_slots fn ! ai)"
    unfolding m2r_placed_ok(3)[OF ai cn] by (auto intro: iter_df.intros)
qed

section \<open>The result of the pass\<close>

text \<open>The renamed state and the function with the metadata of the phi results.\<close>

definition m2r_state :: "ir_function \<Rightarrow> bool \<Rightarrow> rename" where
  "m2r_state fn wd = the (mem2reg_rename wd (fn_dbg_vars fn) (fn_cfg fn) (build_dt (fn_insts fn)) (m2r_slots fn)
     (m2r_insts fn) (m2r_phis fn))"

definition m2r_meta :: "ir_function \<Rightarrow> ir_function" where
  "m2r_meta fn = fold phi_meta (concat (m2r_phis fn))
     (fn\<lparr>fn_insts := m2r_insts fn, fn_next_value_id := snd (m2r_placed fn)\<rparr>)"

lemma phi_meta_keeps [simp]:
  "fn_insts (phi_meta phi fn) = fn_insts fn"
  "fn_dbg_vars (phi_meta phi fn) = fn_dbg_vars fn"
  "fn_next_value_id (phi_meta phi fn) = fn_next_value_id fn"
  by (simp_all add: phi_meta_def mem2reg_ensure_value_meta_def Let_def)

lemma m2r_meta_keeps [simp]:
  "fn_insts (m2r_meta fn) = m2r_insts fn"
  "fn_dbg_vars (m2r_meta fn) = fn_dbg_vars fn"
  "fn_next_value_id (m2r_meta fn) = snd (m2r_placed fn)"
  unfolding m2r_meta_def
  by (rule fold_inv[where P = "\<lambda>f. fn_insts f = m2r_insts fn"], simp, simp,
      rule fold_inv[where P = "\<lambda>f. fn_dbg_vars f = fn_dbg_vars fn"], simp, simp,
      rule fold_inv[where P = "\<lambda>f. fn_next_value_id f = snd (m2r_placed fn)"], simp, simp)

lemma domtree_build_n: "domtree_build c g = Some dt \<Longrightarrow> dt_n dt = cfg_num g"
  by (auto simp: domtree_build_def Let_def split: option.splits)

lemma build_dt_n: "dt_n (build_dt insts) = cfg_num (cfg_build insts)"
  by (rule domtree_build_n[OF build_dt(1)])

lemma m2r_state_ok:
  assumes "m2r_slots fn \<noteq> []"
  shows "mem2reg_rename wd (fn_dbg_vars fn) (fn_cfg fn) (build_dt (fn_insts fn)) (m2r_slots fn)
     (m2r_insts fn) (m2r_phis fn) = Some (m2r_state fn wd)"
    and "m2r.ready fn wd (fn_dbg_vars fn) {b. reachable (fn_cfg fn) b} (m2r_state fn wd)"
  using m2r.mem2reg_rename_ok[OF refl build_dt_n assms, where wd = wd and dbg = "fn_dbg_vars fn"]
  unfolding m2r_state_def by auto

definition m2r_code :: "ir_function \<Rightarrow> bool \<Rightarrow> nat \<Rightarrow> ir_inst list" where
  "m2r_code fn wd = wb_block ((m2r_meta fn)\<lparr>fn_insts := mr_insts (m2r_state fn wd)\<rparr>) (fn_cfg fn)
     (mr_phis (m2r_state fn wd)) (mr_dead (m2r_state fn wd)) wd"

lemma opt_mem2reg_eq:
  assumes "m2r_ok fn"
  shows "opt_mem2reg True fn wd =
    (if m2r_all_slots fn = [] then Some (0, fn\<lparr>fn_insts := m2r_insts fn\<rparr>)
     else Some (length (m2r_all_slots fn),
       (m2r_meta fn)\<lparr>fn_insts := concat (map (m2r_code fn wd) [0..<cfg_num (fn_cfg fn)])\<rparr>))"
proof -
  have sl: "m2r_slots fn = m2r_all_slots fn" using assms by (simp add: m2r_slots_def)
  have pl: "mem2reg_place_phis True (fn_cfg fn) (build_dt (fn_insts fn)) (m2r_all_slots fn)
      (block_stores_of (fn_cfg fn) (m2r_all_slots fn) (m2r_insts fn)) (fn_next_value_id fn) = Some (m2r_placed fn)"
    using m2r_placed_ok(1)[of fn] by (simp add: sl m2r_stores_def)
  show ?thesis
  proof (cases "m2r_all_slots fn = []")
    case True
    then show ?thesis
      by (simp add: opt_mem2reg_def Let_def build_dt(1) m2r_insts_def[symmetric] m2r_all_slots_def[symmetric])
  next
    case False
    with m2r_state_ok(1)[of fn wd] sl have rn: "mem2reg_rename wd (fn_dbg_vars fn) (fn_cfg fn) (build_dt (fn_insts fn))
        (m2r_all_slots fn) (m2r_insts fn) (m2r_phis fn) = Some (m2r_state fn wd)" by simp
    have meta: "fold phi_meta (concat (m2r_phis fn))
        (fn\<lparr>fn_insts := m2r_insts fn\<rparr>\<lparr>fn_next_value_id := snd (m2r_placed fn)\<rparr>) = m2r_meta fn"
      by (simp add: m2r_meta_def)
    show ?thesis
      using False pl rn meta
      by (simp add: opt_mem2reg_def Let_def build_dt(1) m2r_insts_def[symmetric] m2r_all_slots_def[symmetric]
          mem2reg_writeback_def m2r_code_def[abs_def] split_beta)
  qed
qed

end
