(* ===== verification/PromoteSound.thy ===== *)
theory PromoteSound
  imports Promote ScalarOpt Liveness InstSem
begin

text \<open>
  Promotion of stack slots preserves behaviour.  The source machine keeps the promoted slots in a
  memory of their own, where a load of a slot that was not stored to yields any value; the target
  machine runs, block by block, the code the writeback emits, where slots are gone and the copies of
  the phis of every successor run one after the other before the block's terminator.  Both machines
  leave a block at its first terminator, so nothing emitted behind one is executed.  Every run of the
  target is a run of the source along the same blocks, with the same memory and the same values.
\<close>

section \<open>The two machines\<close>

text \<open>The values an instruction reads and defines, by the table of operands.\<close>

definition reads :: "ir_inst \<Rightarrow> int list" where
  "reads inst = filter (\<lambda>v. 0 \<le> v) (ir_reads inst)"

definition writes :: "ir_inst \<Rightarrow> int list" where
  "writes inst = filter (\<lambda>v. 0 \<le> v) (ir_results inst)"

text \<open>
  Copies, constants and debug markers have their fixed meaning, with the constants' values a
  parameter; every other instruction has the meaning \<open>F\<close>.  Only a terminator chooses the successor.
\<close>

definition plain_step :: "('a, 'm) inst_sem \<Rightarrow> (ir_inst \<Rightarrow> 'a) \<Rightarrow> ir_inst \<Rightarrow>
    (int \<Rightarrow> 'a) \<times> 'm \<times> nat \<Rightarrow> (int \<Rightarrow> 'a) \<times> 'm \<times> nat" where
  "plain_step F cv inst = (\<lambda>(env, m, sel).
     if i_op inst = IR_COPY then (env(i_dst inst := env (i_a inst)), m, sel)
     else if i_op inst = IR_CONST then (env(i_dst inst := cv inst), m, sel)
     else if i_op inst = IR_DBG_VALUE then (env, m, sel)
     else let (m', r, sel') = F inst m (map env (reads inst))
          in (write_all (results (writes inst) r) env, m', if is_terminator (i_op inst) then sel' else sel))"

definition plain_run :: "('a, 'm) inst_sem \<Rightarrow> (ir_inst \<Rightarrow> 'a) \<Rightarrow> ir_inst list \<Rightarrow>
    (int \<Rightarrow> 'a) \<times> 'm \<times> nat \<Rightarrow> (int \<Rightarrow> 'a) \<times> 'm \<times> nat" where
  "plain_run F cv is s = fold (plain_step F cv) is s"

text \<open>Running the code of a block: control leaves at the first terminator.\<close>

fun run_code :: "('a, 'm) inst_sem \<Rightarrow> (ir_inst \<Rightarrow> 'a) \<Rightarrow> ir_inst list \<Rightarrow>
    (int \<Rightarrow> 'a) \<times> 'm \<times> nat \<Rightarrow> (int \<Rightarrow> 'a) \<times> 'm \<times> nat" where
  "run_code F cv [] s = s"
| "run_code F cv (x # xs) s =
     (if is_terminator (i_op x) then plain_step F cv x s else run_code F cv xs (plain_step F cv x s))"

lemma run_code_plain:
  "(\<And>x. x \<in> set (butlast xs) \<Longrightarrow> \<not> is_terminator (i_op x)) \<Longrightarrow> run_code F cv xs s = plain_run F cv xs s"
proof (induction xs arbitrary: s)
  case (Cons x xs)
  then show ?case by (cases "xs = []") (simp_all add: plain_run_def)
qed (simp add: plain_run_def)

text \<open>Labels and terminators: what fixes where the blocks of an instruction array begin and end.\<close>

definition is_ctl :: "ir_inst \<Rightarrow> bool" where
  "is_ctl x \<longleftrightarrow> i_op x = IR_LABEL \<or> is_terminator (i_op x)"

definition slot_access :: "int list \<Rightarrow> ir_inst \<Rightarrow> bool" where
  "slot_access slots inst \<longleftrightarrow>
     (i_op inst = IR_LOAD \<or> i_op inst = IR_STORE) \<and> find_alloca_slot slots (i_a inst) \<noteq> None"

inductive src_inst :: "('a, 'm) inst_sem \<Rightarrow> (ir_inst \<Rightarrow> 'a) \<Rightarrow> int list \<Rightarrow> ir_inst \<Rightarrow>
    (int \<Rightarrow> 'a) \<times> (nat \<Rightarrow> 'a option) \<times> 'm \<times> nat \<Rightarrow> (int \<Rightarrow> 'a) \<times> (nat \<Rightarrow> 'a option) \<times> 'm \<times> nat \<Rightarrow> bool"
  for F cv slots inst where
  src_load: "i_op inst = IR_LOAD \<Longrightarrow> find_alloca_slot slots (i_a inst) = Some ai \<Longrightarrow>
    mem ai = None \<or> mem ai = Some v \<Longrightarrow>
    src_inst F cv slots inst (env, mem, m, sel) (env(i_dst inst := v), mem, m, sel)"
| src_store: "i_op inst = IR_STORE \<Longrightarrow> find_alloca_slot slots (i_a inst) = Some ai \<Longrightarrow>
    src_inst F cv slots inst (env, mem, m, sel) (env, mem(ai := Some (env (i_b inst))), m, sel)"
| src_alloca: "promoted_alloca slots inst \<Longrightarrow>
    src_inst F cv slots inst (env, mem, m, sel) (env, mem, m, sel)"
| src_plain: "\<not> slot_access slots inst \<Longrightarrow> \<not> promoted_alloca slots inst \<Longrightarrow>
    plain_step F cv inst (env, m, sel) = (env', m', sel') \<Longrightarrow>
    src_inst F cv slots inst (env, mem, m, sel) (env', mem, m', sel')"

inductive src_run :: "('a, 'm) inst_sem \<Rightarrow> (ir_inst \<Rightarrow> 'a) \<Rightarrow> int list \<Rightarrow> ir_inst list \<Rightarrow>
    (int \<Rightarrow> 'a) \<times> (nat \<Rightarrow> 'a option) \<times> 'm \<times> nat \<Rightarrow> (int \<Rightarrow> 'a) \<times> (nat \<Rightarrow> 'a option) \<times> 'm \<times> nat \<Rightarrow> bool"
  for F cv slots where
  run_nil: "src_run F cv slots [] s s"
| run_snoc: "src_run F cv slots is s s1 \<Longrightarrow> src_inst F cv slots inst s1 s2 \<Longrightarrow> src_run F cv slots (is @ [inst]) s s2"

definition block_insts :: "cfg \<Rightarrow> ir_inst list \<Rightarrow> nat \<Rightarrow> ir_inst list" where
  "block_insts g insts b = map ((!) insts) [start_of g b..<end_of g b]"

text \<open>Configurations: the block to run (none after the function has left), values, slots, memory.\<close>

inductive src_step :: "('a, 'm) inst_sem \<Rightarrow> (ir_inst \<Rightarrow> 'a) \<Rightarrow> int list \<Rightarrow> cfg \<Rightarrow> ir_inst list \<Rightarrow>
    nat option \<times> (int \<Rightarrow> 'a) \<times> (nat \<Rightarrow> 'a option) \<times> 'm \<Rightarrow> nat option \<times> (int \<Rightarrow> 'a) \<times> (nat \<Rightarrow> 'a option) \<times> 'm \<Rightarrow> bool"
  for F cv slots g insts where
  src_edge: "src_run F cv slots (block_insts g insts b) (env, mem, m, 0) (env', mem', m', sel) \<Longrightarrow>
    sel < length (succs_of g b) \<Longrightarrow>
    src_step F cv slots g insts (Some b, env, mem, m) (Some (succs_of g b ! sel), env', mem', m')"
| src_exit: "src_run F cv slots (block_insts g insts b) (env, mem, m, 0) (env', mem', m', sel) \<Longrightarrow>
    succs_of g b = [] \<Longrightarrow>
    src_step F cv slots g insts (Some b, env, mem, m) (None, env', mem', m')"

inductive tgt_step :: "('a, 'm) inst_sem \<Rightarrow> (ir_inst \<Rightarrow> 'a) \<Rightarrow> cfg \<Rightarrow> (nat \<Rightarrow> ir_inst list) \<Rightarrow>
    nat option \<times> (int \<Rightarrow> 'a) \<times> 'm \<Rightarrow> nat option \<times> (int \<Rightarrow> 'a) \<times> 'm \<Rightarrow> bool"
  for F cv g code where
  tgt_edge: "run_code F cv (code b) (env, m, 0) = (env', m', sel) \<Longrightarrow> sel < length (succs_of g b) \<Longrightarrow>
    tgt_step F cv g code (Some b, env, m) (Some (succs_of g b ! sel), env', m')"
| tgt_exit: "run_code F cv (code b) (env, m, 0) = (env', m', sel) \<Longrightarrow> succs_of g b = [] \<Longrightarrow>
    tgt_step F cv g code (Some b, env, m) (None, env', m')"

inductive_cases tgt_stepE: "tgt_step F cv g code c c'"

lemma tgt_step_result:
  "tgt_step F cv g code (Some b, env, m) C' \<Longrightarrow> run_code F cv (code b) (env, m, 0) = (env', m', sel) \<Longrightarrow>
    sel < length (succs_of g b) \<and> C' = (Some (succs_of g b ! sel), env', m') \<or>
    succs_of g b = [] \<and> C' = (None, env', m')"
  by (erule tgt_stepE) auto

section \<open>What the lowering provides\<close>

text \<open>
  Every instruction works on ids below \<open>next_value_id\<close>, and uses a promoted slot only as the address
  of a load or store.
\<close>

definition kept_id :: "ir_function \<Rightarrow> int \<Rightarrow> bool" where
  "kept_id fn v \<longleftrightarrow> 0 \<le> v \<and> v < fn_next_value_id fn \<and> v \<notin> set (m2r_slots fn)"

definition inst_ids_ok :: "ir_function \<Rightarrow> ir_inst \<Rightarrow> bool" where
  "inst_ids_ok fn inst \<longleftrightarrow>
     (if promoted_alloca (m2r_slots fn) inst then True
      else if slot_access (m2r_slots fn) inst
      then kept_id fn (if i_op inst = IR_LOAD then i_dst inst else i_b inst) \<and>
        (i_op inst = IR_STORE \<longrightarrow> i_dst inst < 0)
      else (\<forall>v\<in>set (reads inst) \<union> set (writes inst). kept_id fn v) \<and>
        (i_op inst = IR_COPY \<longrightarrow> 0 \<le> i_a inst) \<and> (i_op inst = IR_COPY \<or> i_op inst = IR_CONST \<longrightarrow> 0 \<le> i_dst inst))"

text \<open>A value is defined before it is stored: the definition dominates the store.\<close>

definition stored_defs_dominate :: "ir_function \<Rightarrow> bool" where
  "stored_defs_dominate fn \<longleftrightarrow>
     (\<forall>b c i j ai. reachable (fn_cfg fn) b \<and> reachable (fn_cfg fn) c \<and> in_blk (fn_cfg fn) b i \<and> in_blk (fn_cfg fn) c j \<and>
        stores_to (m2r_insts fn) (m2r_slots fn) ai j \<and>
        i_b (fn_insts fn ! j) \<in> set (writes (fn_insts fn ! i)) \<and> \<not> promoted_alloca (m2r_slots fn) (fn_insts fn ! i) \<longrightarrow>
        sdom (fn_cfg fn) b c \<or> b = c \<and> i < j)"

definition m2r_input_ok :: "ir_function \<Rightarrow> bool" where
  "m2r_input_ok fn \<longleftrightarrow> m2r_ok fn \<and> 0 \<le> fn_next_value_id fn \<and> (\<forall>inst\<in>set (fn_insts fn). inst_ids_ok fn inst) \<and> stored_defs_dominate fn"

text \<open>An address-taken alloca without a declared size denotes a cell of its width.\<close>

definition pin_neutral :: "('a, 'm) inst_sem \<Rightarrow> ir_function \<Rightarrow> bool" where
  "pin_neutral F fn \<longleftrightarrow> (\<forall>inst\<in>set (fn_insts fn). F (pin_bytes (pinned_slots fn) inst) = F inst)"

section \<open>Values are not overwritten while they are current\<close>

lemma pin_bytes_keeps [simp]:
  "i_op (pin_bytes p x) = i_op x" "i_dst (pin_bytes p x) = i_dst x" "i_a (pin_bytes p x) = i_a x"
  "i_b (pin_bytes p x) = i_b x" "i_c (pin_bytes p x) = i_c x" "i_d (pin_bytes p x) = i_d x"
  "i_call_args (pin_bytes p x) = i_call_args x" "i_call_callee (pin_bytes p x) = i_call_callee x"
  by (auto simp: pin_bytes_def Let_def)

lemma pin_reads [simp]: "reads (pin_bytes p x) = reads x" "writes (pin_bytes p x) = writes x"
proof -
  have "field_values (pin_bytes p x) F = field_values x F" for F by (cases F) simp_all
  then have "field_values (pin_bytes p x) = field_values x" by (simp add: fun_eq_iff)
  then show "reads (pin_bytes p x) = reads x" "writes (pin_bytes p x) = writes x"
    by (simp_all add: reads_def writes_def ir_reads_def ir_results_def)
qed

lemma pin_other: "i_op x \<noteq> IR_ALLOCA \<Longrightarrow> pin_bytes p x = x"
  by (simp add: pin_bytes_def)

lemma m2r_nth: "i < length (fn_insts fn) \<Longrightarrow> m2r_insts fn ! i = pin_bytes (pinned_slots fn) (fn_insts fn ! i)"
  by (simp add: m2r_insts_def)

text \<open>A reaching value is a phi result or the operand of a store on the dominator path.\<close>

definition comes_from :: "ir_function \<Rightarrow> nat \<Rightarrow> nat \<Rightarrow> nat \<Rightarrow> int \<Rightarrow> bool" where
  "comes_from fn b k ai u \<longleftrightarrow> u < 0 \<or>
     (\<exists>c<cfg_num (fn_cfg fn). \<exists>p\<in>set (m2r_phis fn ! c). phi_dst p = u \<and> phi_slot p = m2r_slots fn ! ai) \<or>
     (\<exists>c j. reachable (fn_cfg fn) c \<and> in_blk (fn_cfg fn) c j \<and> stores_to (m2r_insts fn) (m2r_slots fn) ai j \<and>
        i_b (fn_insts fn ! j) = u \<and> (sdom (fn_cfg fn) c b \<or> c = b \<and> j < k))"

lemma comes_from_store:
  "reachable (fn_cfg fn) c \<Longrightarrow> in_blk (fn_cfg fn) c j \<Longrightarrow> stores_to (m2r_insts fn) (m2r_slots fn) ai j \<Longrightarrow>
    sdom (fn_cfg fn) c b \<or> c = b \<and> j < k \<Longrightarrow> comes_from fn b k ai (i_b (fn_insts fn ! j))"
  unfolding comes_from_def by blast

lemma comes_from_phi:
  "c < cfg_num (fn_cfg fn) \<Longrightarrow> phi_res (m2r_phis fn ! c) (m2r_slots fn ! ai) = Some d \<Longrightarrow> comes_from fn b k ai d"
  using phi_res_Some[of "m2r_phis fn ! c" "m2r_slots fn ! ai" d] unfolding comes_from_def by blast

lemma comes_fromE:
  assumes "comes_from fn b k ai u"
  obtains (undef) "u < 0"
    | (phi) c p where "c < cfg_num (fn_cfg fn)" "p \<in> set (m2r_phis fn ! c)" "phi_dst p = u" "phi_slot p = m2r_slots fn ! ai"
    | (store) c j where "reachable (fn_cfg fn) c" "in_blk (fn_cfg fn) c j" "stores_to (m2r_insts fn) (m2r_slots fn) ai j"
        "i_b (fn_insts fn ! j) = u" "sdom (fn_cfg fn) c b \<or> c = b \<and> j < k"
  using assms unfolding comes_from_def by blast

lemma comes_from_mono:
  assumes "comes_from fn b k ai u"
    and "\<And>c j. sdom (fn_cfg fn) c b \<or> c = b \<and> j < k \<Longrightarrow> sdom (fn_cfg fn) c b' \<or> c = b' \<and> j < k'"
  shows "comes_from fn b' k' ai u"
  using assms(1)
proof (cases rule: comes_fromE)
  case (store c j)
  with comes_from_store[OF store(1-3) assms(2)[OF store(5)]] show ?thesis by simp
qed (auto simp: comes_from_def)

lemma comes_from_point:
  assumes b: "reachable (fn_cfg fn) b" and v: "comes_from fn b (start_of (fn_cfg fn) b) ai (m2r.VI fn b ai)"
  shows "start_of (fn_cfg fn) b \<le> k \<Longrightarrow> k \<le> end_of (fn_cfg fn) b \<Longrightarrow> comes_from fn b k ai (m2r.VP fn b k ai)"
proof (induction k)
  case 0
  then show ?case using v by simp
next
  case (Suc k)
  have bn: "b < cfg_num (fn_cfg fn)" using b built.reachable_block by blast
  show ?case
  proof (cases "start_of (fn_cfg fn) b = Suc k")
    case False
    then have lo: "start_of (fn_cfg fn) b \<le> k" using Suc.prems by simp
    have il: "k < length (fn_insts fn)" using Suc.prems(2) built_block_range[OF bn] by simp
    from Suc.IH lo Suc.prems(2) have IH: "comes_from fn b k ai (m2r.VP fn b k ai)" by simp
    show ?thesis
    proof (cases "stores_to (m2r_insts fn) (m2r_slots fn) ai k")
      case True
      have "in_blk (fn_cfg fn) b k" using lo Suc.prems by (simp add: in_blk_def)
      from comes_from_store[OF b this True] show ?thesis
        using lo il True by (simp add: at_point_Suc store_step_def m2r_nth)
    next
      case False
      then have "m2r.VP fn b (Suc k) ai = m2r.VP fn b k ai" using lo by (simp add: at_point_Suc store_step_def)
      moreover have "comes_from fn b (Suc k) ai (m2r.VP fn b k ai)" by (rule comes_from_mono[OF IH]) auto
      ultimately show ?thesis by simp
    qed
  qed (use v in simp)
qed

lemma comes_from_entry:
  "reachable (fn_cfg fn) b \<Longrightarrow> comes_from fn b (start_of (fn_cfg fn) b) ai (m2r.VI fn b ai)"
proof (induction "card (tree.doms (fn_insts fn) b)" arbitrary: b rule: less_induct)
  case less
  note b = less.prems
  have bn: "b < cfg_num (fn_cfg fn)" using b built.reachable_block by blast
  show ?case
  proof (cases "phi_res (m2r_phis fn ! b) (m2r_slots fn ! ai)")
    case (Some d)
    with comes_from_phi[OF bn this] show ?thesis by (simp add: m2r.VI_eq[OF b])
  next
    case None
    from b show ?thesis
    proof (cases rule: tree.idom_cases)
      case entry
      have "m2r.VI fn b ai = -1" using None entry(2) by (simp add: m2r.VI_eq[OF b])
      then show ?thesis by (simp only: comes_from_def) simp
    next
      case (parent p)
      have pn: "p < cfg_num (fn_cfg fn)" using built.reachable_block[OF parent(4)] .
      have P: "comes_from fn p (end_of (fn_cfg fn) p) ai (m2r.VO fn p ai)"
        by (rule comes_from_point[OF parent(4) less.hyps[OF tree.doms_less[OF b parent(3)] parent(4)]])
          (use built_block_range[OF pn] in simp_all)
      have Q: "sdom (fn_cfg fn) c b" if "sdom (fn_cfg fn) c p \<or> c = p" for c
      proof (cases "c = p")
        case False
        with that have "dominates (fn_cfg fn) c p" by (auto simp: sdom_def)
        moreover have "c \<noteq> b" using parent(3) calculation dom_antisym[of "fn_cfg fn" p b] parent(4)
          by (auto simp: sdom_def)
        ultimately show ?thesis using parent(5) by (simp add: sdom_def)
      qed (use parent(3) in simp)
      have "comes_from fn b (start_of (fn_cfg fn) b) ai (m2r.VO fn p ai)"
        by (rule comes_from_mono[OF P]) (use Q in blast)
      then show ?thesis using None parent(2) by (simp add: m2r.VI_eq[OF b])
    qed
  qed
qed

lemma is_terminator_cases:
  "is_terminator opc \<Longrightarrow> opc \<noteq> IR_LOAD \<and> opc \<noteq> IR_STORE \<and> opc \<noteq> IR_ALLOCA \<and> opc \<noteq> IR_COPY \<and> opc \<noteq> IR_CONST \<and> opc \<noteq> IR_DBG_VALUE"
  by (auto simp: is_terminator_def)

lemma writes_slot:
  "i_op x = IR_LOAD \<Longrightarrow> set (writes x) \<subseteq> {i_dst x}"
  "i_op x = IR_STORE \<Longrightarrow> i_dst x < 0 \<Longrightarrow> writes x = []"
  by (auto simp: writes_def ir_results_def)

lemma writes_copy: "i_op x = IR_COPY \<or> i_op x = IR_CONST \<Longrightarrow> set (writes x) = (if 0 \<le> i_dst x then {i_dst x} else {})"
  by (auto simp: writes_def ir_results_def)

lemma reads_copy: "i_op x = IR_COPY \<Longrightarrow> 0 \<le> i_a x \<Longrightarrow> i_a x \<in> set (reads x)"
  by (simp add: reads_def ir_reads_def)

text \<open>A function the pass can take.\<close>

lemma m2r_input_okD:
  assumes "m2r_input_ok fn"
  shows "m2r_ok fn" "0 \<le> fn_next_value_id fn" "\<And>i. i < length (fn_insts fn) \<Longrightarrow> inst_ids_ok fn (fn_insts fn ! i)"
    "\<And>b c i j ai. reachable (fn_cfg fn) b \<Longrightarrow> reachable (fn_cfg fn) c \<Longrightarrow> in_blk (fn_cfg fn) b i \<Longrightarrow> in_blk (fn_cfg fn) c j \<Longrightarrow>
       stores_to (m2r_insts fn) (m2r_slots fn) ai j \<Longrightarrow> i_b (fn_insts fn ! j) \<in> set (writes (fn_insts fn ! i)) \<Longrightarrow>
       \<not> promoted_alloca (m2r_slots fn) (fn_insts fn ! i) \<Longrightarrow> sdom (fn_cfg fn) b c \<or> b = c \<and> i < j"
proof -
  have "\<forall>inst\<in>set (fn_insts fn). inst_ids_ok fn inst" "stored_defs_dominate fn"
    using assms by (simp_all add: m2r_input_ok_def)
  note A = this(1) and S = this(2)[unfolded stored_defs_dominate_def]
  show "m2r_ok fn" "0 \<le> fn_next_value_id fn" using assms by (simp_all add: m2r_input_ok_def)
  show "inst_ids_ok fn (fn_insts fn ! i)" if "i < length (fn_insts fn)" for i using A that by simp
  show "sdom (fn_cfg fn) b c \<or> b = c \<and> i < j"
    if "reachable (fn_cfg fn) b" "reachable (fn_cfg fn) c" "in_blk (fn_cfg fn) b i" "in_blk (fn_cfg fn) c j"
      "stores_to (m2r_insts fn) (m2r_slots fn) ai j" "i_b (fn_insts fn ! j) \<in> set (writes (fn_insts fn ! i))"
      "\<not> promoted_alloca (m2r_slots fn) (fn_insts fn ! i)" for b c i j ai
    using S that by blast
qed

lemma writes_kept:
  assumes "inst_ids_ok fn x" "\<not> promoted_alloca (m2r_slots fn) x" "v \<in> set (writes x)"
  shows "kept_id fn v"
proof (cases "slot_access (m2r_slots fn) x")
  case True
  then have "i_op x = IR_LOAD \<or> i_op x = IR_STORE" by (auto simp: slot_access_def)
  then show ?thesis
  proof
    assume l: "i_op x = IR_LOAD"
    with assms True show ?thesis using writes_slot(1)[OF l] by (auto simp: inst_ids_ok_def)
  next
    assume l: "i_op x = IR_STORE"
    with assms True have "i_dst x < 0" by (simp add: inst_ids_ok_def)
    with assms(3) writes_slot(2)[OF l] show ?thesis by simp
  qed
qed (use assms in \<open>auto simp: inst_ids_ok_def\<close>)

lemma phi_dst_not_kept:
  assumes "c < cfg_num (fn_cfg fn)" "p \<in> set (m2r_phis fn ! c)"
  shows "fn_next_value_id fn \<le> phi_dst p" "\<not> kept_id fn (phi_dst p)"
  using phis_okD(4)[OF m2r_placed_ok(2) assms] by (auto simp: kept_id_def)

lemma slot_in_range: "stores_to (m2r_insts fn) (m2r_slots fn) ai j \<Longrightarrow> ai < length (m2r_slots fn)"
  using find_slot_Some by (auto simp: stores_to_def)

lemma stored_kept:
  assumes ok: "m2r_input_ok fn" and c: "reachable (fn_cfg fn) c" "in_blk (fn_cfg fn) c j"
    and st: "stores_to (m2r_insts fn) (m2r_slots fn) ai j"
  shows "kept_id fn (i_b (fn_insts fn ! j))"
proof -
  have cn: "c < cfg_num (fn_cfg fn)" using built.reachable_block[OF c(1)] .
  then have j: "j < length (fn_insts fn)" using c(2) built_block_range[OF cn] by (auto simp: in_blk_def)
  with st have "i_op (fn_insts fn ! j) = IR_STORE" "find_alloca_slot (m2r_slots fn) (i_a (fn_insts fn ! j)) = Some ai"
    by (auto simp: stores_to_def m2r_nth)
  with m2r_input_okD(3)[OF ok j] show ?thesis
    by (auto simp: inst_ids_ok_def slot_access_def promoted_alloca_def)
qed

text \<open>No instruction overwrites the current value of a slot.\<close>

lemma no_clobber:
  assumes ok: "m2r_input_ok fn" and b: "reachable (fn_cfg fn) b" and i: "in_blk (fn_cfg fn) b i"
    and na: "\<not> promoted_alloca (m2r_slots fn) (fn_insts fn ! i)" and w: "u \<in> set (writes (fn_insts fn ! i))"
    and u: "0 \<le> m2r.VP fn b i ai"
  shows "m2r.VP fn b i ai \<noteq> u"
proof
  assume eq: "m2r.VP fn b i ai = u"
  have bn: "b < cfg_num (fn_cfg fn)" using built.reachable_block[OF b] .
  have il: "i < length (fn_insts fn)" using i built_block_range[OF bn] by (auto simp: in_blk_def)
  have cf: "comes_from fn b i ai u"
    using comes_from_point[OF b comes_from_entry[OF b], of i] i eq by (auto simp: in_blk_def)
  have kept: "kept_id fn u" by (rule writes_kept[OF m2r_input_okD(3)[OF ok il] na w])
  from cf show False
  proof (cases rule: comes_fromE)
    case (phi c p)
    with phi_dst_not_kept(2)[OF phi(1,2)] kept show ?thesis by simp
  next
    case (store c j)
    from m2r_input_okD(4)[OF ok b store(1) i store(2,3) _ na] w store(4)
    have "sdom (fn_cfg fn) b c \<or> b = c \<and> i < j" by simp
    with store(5) b store(1) show ?thesis using dom_antisym[of "fn_cfg fn" b c] by (auto simp: sdom_def)
  qed (use u eq in simp)
qed

section \<open>One instruction\<close>

definition sim_at :: "ir_function \<Rightarrow> nat \<Rightarrow> nat \<Rightarrow> (int \<Rightarrow> 'a) \<times> (nat \<Rightarrow> 'a option) \<times> 'm \<times> nat \<Rightarrow>
    (int \<Rightarrow> 'a) \<times> 'm \<times> nat \<Rightarrow> bool" where
  "sim_at fn b k = (\<lambda>(envs, mem, ms, sels) (envt, mt, selt).
     (\<forall>v. kept_id fn v \<longrightarrow> envs v = envt v) \<and> ms = mt \<and> sels = selt \<and>
     (\<forall>ai<length (m2r_slots fn). \<forall>v. mem ai = Some v \<longrightarrow>
        0 \<le> m2r.VP fn b k ai \<and> envt (m2r.VP fn b k ai) = v))"

lemma plain_step_other:
  "u \<notin> set (writes x) \<Longrightarrow> 0 \<le> u \<Longrightarrow> plain_step F cv x (env, m, sel) = (env', m', sel') \<Longrightarrow> env' u = env u"
proof -
  assume u: "u \<notin> set (writes x)" "0 \<le> u" and st: "plain_step F cv x (env, m, sel) = (env', m', sel')"
  show ?thesis
  proof (cases "i_op x = IR_COPY \<or> i_op x = IR_CONST \<or> i_op x = IR_DBG_VALUE")
    case True
    have "u \<noteq> i_dst x" if "i_op x = IR_COPY \<or> i_op x = IR_CONST"
      using writes_copy[OF that] u by (simp split: if_splits)
    moreover have "env' = env \<or> (\<exists>y. env' = env(i_dst x := y)) \<and> (i_op x = IR_COPY \<or> i_op x = IR_CONST)"
      using True by (elim disjE) (use st in \<open>simp_all add: plain_step_def, blast+\<close>)
    ultimately show ?thesis by (elim disjE[of "env' = env"] conjE exE) simp_all
  next
    case False
    obtain m1 r sl where "F x m (map env (reads x)) = (m1, r, sl)" by (rule prod_cases3)
    with False st have e: "env' = write_all (results (writes x) r) env" by (simp add: plain_step_def)
    have "u \<notin> fst ` set (results (writes x) r)" using results_locs[of "writes x" r] u(1) by blast
    then show ?thesis unfolding e by (rule write_all_other)
  qed
qed

lemma plain_step_agree:
  assumes ids: "inst_ids_ok fn x" "\<not> promoted_alloca (m2r_slots fn) x" "\<not> slot_access (m2r_slots fn) x"
    and ag: "\<And>v. kept_id fn v \<Longrightarrow> envs v = envt v"
    and st: "plain_step F cv x (envs, m, sel) = (envs', m', sel')"
  shows "\<exists>envt'. plain_step F cv x (envt, m, sel) = (envt', m', sel') \<and> (\<forall>v. kept_id fn v \<longrightarrow> envs' v = envt' v)"
proof (cases "i_op x = IR_COPY \<or> i_op x = IR_CONST \<or> i_op x = IR_DBG_VALUE")
  case True
  have "i_op x = IR_COPY \<Longrightarrow> envs (i_a x) = envt (i_a x)"
    using ids reads_copy[of x] ag by (auto simp: inst_ids_ok_def)
  with True st ag show ?thesis by (auto simp: plain_step_def split: if_splits)
next
  case False
  have mp: "map envs (reads x) = map envt (reads x)"
    using ids ag by (auto simp: inst_ids_ok_def)
  obtain m1 r sl where F: "F x m (map envt (reads x)) = (m1, r, sl)" by (rule prod_cases3)
  then have Fs: "F x m (map envs (reads x)) = (m1, r, sl)" by (simp only: mp)
  have e: "envs' = write_all (results (writes x) r) envs" "m' = m1"
      "sel' = (if is_terminator (i_op x) then sl else sel)"
    using st False by (simp_all add: plain_step_def Fs)
  have "plain_step F cv x (envt, m, sel) = (write_all (results (writes x) r) envt, m', sel')"
    using False F e by (simp add: plain_step_def)
  moreover have "envs' v = write_all (results (writes x) r) envt v" if "kept_id fn v" for v
    unfolding e(1) by (rule write_all_agree) (rule ag[OF that])
  ultimately show ?thesis by blast
qed

lemma plain_step_pin:
  "pin_neutral F fn \<Longrightarrow> x \<in> set (fn_insts fn) \<Longrightarrow> plain_step F cv (pin_bytes (pinned_slots fn) x) = plain_step F cv x"
proof (cases "i_op x = IR_ALLOCA")
  case True
  assume "pin_neutral F fn" "x \<in> set (fn_insts fn)"
  then have "F (pin_bytes (pinned_slots fn) x) = F x" by (simp add: pin_neutral_def)
  with True show ?thesis by (simp add: plain_step_def)
qed (simp add: pin_other)

lemma plain_sim:
  assumes ok: "m2r_input_ok fn" and b: "reachable (fn_cfg fn) b" and i: "in_blk (fn_cfg fn) b i"
    and x: "\<not> promoted_alloca (m2r_slots fn) (fn_insts fn ! i)" "\<not> slot_access (m2r_slots fn) (fn_insts fn ! i)"
    and sim: "sim_at fn b i (envs, mem, m, sel) T" and st: "plain_step F cv (fn_insts fn ! i) T = T'"
  shows "\<exists>envs' m' sel'. plain_step F cv (fn_insts fn ! i) (envs, m, sel) = (envs', m', sel') \<and>
    sim_at fn b (Suc i) (envs', mem, m', sel') T' \<and> sim_at fn b i (envs', mem, m', sel') T'"
proof -
  have bn: "b < cfg_num (fn_cfg fn)" using built.reachable_block[OF b] .
  have il: "i < length (fn_insts fn)" using i built_block_range[OF bn] by (auto simp: in_blk_def)
  obtain envt where T: "T = (envt, m, sel)" and ag: "\<And>v. kept_id fn v \<Longrightarrow> envs v = envt v"
    and sl: "\<And>ai v. ai < length (m2r_slots fn) \<Longrightarrow> mem ai = Some v \<Longrightarrow> 0 \<le> m2r.VP fn b i ai \<and> envt (m2r.VP fn b i ai) = v"
    using sim unfolding sim_at_def by (cases T) auto
  obtain envs' m' sel' where S: "plain_step F cv (fn_insts fn ! i) (envs, m, sel) = (envs', m', sel')"
    by (rule prod_cases3)
  from plain_step_agree[OF m2r_input_okD(3)[OF ok il] x ag S] obtain envt' where
    T': "plain_step F cv (fn_insts fn ! i) (envt, m, sel) = (envt', m', sel')" "\<forall>v. kept_id fn v \<longrightarrow> envs' v = envt' v" by blast
  have keep: "envt' (m2r.VP fn b i ai) = envt (m2r.VP fn b i ai)" if "0 \<le> m2r.VP fn b i ai" for ai
    by (rule plain_step_other[OF _ that T'(1)]) (use no_clobber[OF ok b i x(1) _ that] in blast)
  have "\<not> stores_to (m2r_insts fn) (m2r_slots fn) ai i" for ai
    using x(2) il by (auto simp: stores_to_def slot_access_def m2r_nth)
  then have vp: "m2r.VP fn b (Suc i) ai = m2r.VP fn b i ai" for ai
    using i by (simp add: at_point_Suc in_blk_def store_step_def)
  have "sim_at fn b i (envs', mem, m', sel') (envt', m', sel')"
    using T'(2) sl keep by (simp add: sim_at_def)
  moreover have "sim_at fn b (Suc i) (envs', mem, m', sel') (envt', m', sel')"
    using T'(2) sl keep by (simp add: sim_at_def vp)
  ultimately show ?thesis using S T'(1) st T by auto
qed

text \<open>A load becomes a copy of the current value.\<close>

lemma load_sim:
  assumes ok: "m2r_input_ok fn" and b: "reachable (fn_cfg fn) b" and i: "in_blk (fn_cfg fn) b i"
    and x: "i_op (fn_insts fn ! i) = IR_LOAD" "find_alloca_slot (m2r_slots fn) (i_a (fn_insts fn ! i)) = Some ai"
    and sim: "sim_at fn b i (envs, mem, m, sel) T"
    and st: "plain_step F cv (rename_load (fn_insts fn ! i) (m2r.VP fn b i ai)) T = T'"
  shows "\<exists>v. (mem ai = None \<or> mem ai = Some v) \<and>
    sim_at fn b (Suc i) (envs(i_dst (fn_insts fn ! i) := v), mem, m, sel) T'"
proof -
  let ?x = "fn_insts fn ! i"
  have bn: "b < cfg_num (fn_cfg fn)" using built.reachable_block[OF b] .
  have il: "i < length (fn_insts fn)" using i built_block_range[OF bn] by (auto simp: in_blk_def)
  have ai: "ai < length (m2r_slots fn)" using find_slot_Some[OF x(2)] by simp
  have na: "\<not> promoted_alloca (m2r_slots fn) ?x" using x(1) by (simp add: promoted_alloca_def)
  have kd: "kept_id fn (i_dst ?x)"
    using m2r_input_okD(3)[OF ok il] na x by (simp add: inst_ids_ok_def slot_access_def)
  then have wr: "set (writes ?x) = {i_dst ?x}"
    using x(1) by (auto simp: writes_def ir_results_def kept_id_def)
  obtain envt where T: "T = (envt, m, sel)" and ag: "\<And>v. kept_id fn v \<Longrightarrow> envs v = envt v"
    and sl: "\<And>ai v. ai < length (m2r_slots fn) \<Longrightarrow> mem ai = Some v \<Longrightarrow> 0 \<le> m2r.VP fn b i ai \<and> envt (m2r.VP fn b i ai) = v"
    using sim unfolding sim_at_def by (cases T) auto
  define w where "w = (if 0 \<le> m2r.VP fn b i ai then envt (m2r.VP fn b i ai)
    else cv (rename_load ?x (m2r.VP fn b i ai)))"
  have T': "T' = (envt(i_dst ?x := w), m, sel)"
    using st T by (auto simp: rename_load_def plain_step_def w_def)
  have mw: "mem ai = None \<or> mem ai = Some w" using sl[OF ai] by (cases "mem ai") (auto simp: w_def)
  have vp: "m2r.VP fn b (Suc i) aj = m2r.VP fn b i aj" for aj
    using i x(1) il by (simp add: at_point_Suc in_blk_def store_step_def stores_to_def m2r_nth)
  have "m2r.VP fn b i aj \<noteq> i_dst ?x" if "0 \<le> m2r.VP fn b i aj" for aj
    by (rule no_clobber[OF ok b i na _ that]) (simp add: wr)
  then have "sim_at fn b (Suc i) (envs(i_dst ?x := w), mem, m, sel) T'"
    using ag sl by (simp add: sim_at_def T' vp)
  with mw show ?thesis by blast
qed

text \<open>A store only moves the current value.\<close>

lemma store_sim:
  assumes ok: "m2r_input_ok fn" and b: "reachable (fn_cfg fn) b" and i: "in_blk (fn_cfg fn) b i"
    and x: "i_op (fn_insts fn ! i) = IR_STORE" "find_alloca_slot (m2r_slots fn) (i_a (fn_insts fn ! i)) = Some ai"
    and sim: "sim_at fn b i (envs, mem, m, sel) T"
  shows "sim_at fn b (Suc i) (envs, mem(ai := Some (envs (i_b (fn_insts fn ! i)))), m, sel) T"
proof -
  have bn: "b < cfg_num (fn_cfg fn)" using built.reachable_block[OF b] .
  have il: "i < length (fn_insts fn)" using i built_block_range[OF bn] by (auto simp: in_blk_def)
  have st: "stores_to (m2r_insts fn) (m2r_slots fn) aj i \<longleftrightarrow> aj = ai" for aj
    using x il by (auto simp: stores_to_def m2r_nth)
  have kd: "kept_id fn (i_b (fn_insts fn ! i))" by (rule stored_kept[OF ok b i]) (simp add: st)
  have vp: "m2r.VP fn b (Suc i) aj = (if aj = ai then i_b (fn_insts fn ! i) else m2r.VP fn b i aj)" for aj
    using i il st by (simp add: at_point_Suc in_blk_def store_step_def m2r_nth)
  show ?thesis using sim kd unfolding sim_at_def by (auto simp: vp kept_id_def split: if_splits)
qed

text \<open>One instruction of the renamed block against the original one.\<close>

lemma sim_inst:
  assumes ok: "m2r_input_ok fn" and ne: "m2r_slots fn \<noteq> []" and pn: "pin_neutral F fn"
    and b: "reachable (fn_cfg fn) b" and i: "in_blk (fn_cfg fn) b i"
    and sim: "sim_at fn b i S T"
    and T': "T' = (if mr_dead (m2r_state fn wd) ! i then T else plain_step F cv (mr_insts (m2r_state fn wd) ! i) T)"
  shows "\<exists>S'. src_inst F cv (m2r_slots fn) (fn_insts fn ! i) S S' \<and> sim_at fn b (Suc i) S' T'"
proof -
  let ?x = "fn_insts fn ! i" and ?sl = "m2r_slots fn"
  have bn: "b < cfg_num (fn_cfg fn)" using built.reachable_block[OF b] .
  have il: "i < length (fn_insts fn)" using i built_block_range[OF bn] by (auto simp: in_blk_def)
  obtain envs mem m sel where S: "S = (envs, mem, m, sel)" by (rule prod_cases4)
  have D: "mr_insts (m2r_state fn wd) ! i = ren_spec wd (fn_dbg_vars fn) ?sl (m2r.VP fn b i) (pin_bytes (pinned_slots fn) ?x)"
    "mr_dead (m2r_state fn wd) ! i \<longleftrightarrow> promoted_alloca ?sl ?x \<or> dead_spec wd (fn_dbg_vars fn) ?sl (pin_bytes (pinned_slots fn) ?x)"
    using m2r_state_ok(2)[OF ne, of wd] b i il
    by (simp_all add: m2r.ready_def m2r.blk_done_def m2r_nth promoted_alloca_def)
  consider (alloca) "promoted_alloca ?sl ?x" | (load) ai where "i_op ?x = IR_LOAD" "find_alloca_slot ?sl (i_a ?x) = Some ai"
    | (store) ai where "i_op ?x = IR_STORE" "find_alloca_slot ?sl (i_a ?x) = Some ai"
    | (plain) "\<not> promoted_alloca ?sl ?x" "\<not> slot_access ?sl ?x"
    unfolding slot_access_def by blast
  then show ?thesis
  proof cases
    case alloca
    have "\<not> stores_to (m2r_insts fn) ?sl ai i" for ai
      using alloca il by (auto simp: stores_to_def m2r_nth promoted_alloca_def)
    then have vp: "m2r.VP fn b (Suc i) ai = m2r.VP fn b i ai" for ai
      using i by (simp add: at_point_Suc in_blk_def store_step_def)
    have "sim_at fn b (Suc i) S T'" using sim alloca D(2) T' by (simp add: sim_at_def vp)
    then show ?thesis
      unfolding S by (intro exI[of _ "(envs, mem, m, sel)"] conjI src_alloca[OF alloca])
  next
    case (load ai)
    then have "\<not> mr_dead (m2r_state fn wd) ! i" using D(2) by (simp add: promoted_alloca_def dead_spec_def)
    then have "plain_step F cv (rename_load ?x (m2r.VP fn b i ai)) T = T'"
      using T' D(1) load by (simp add: ren_spec_def pin_other)
    from load_sim[OF ok b i load sim[unfolded S] this] obtain v where
      v: "mem ai = None \<or> mem ai = Some v" "sim_at fn b (Suc i) (envs(i_dst ?x := v), mem, m, sel) T'" by blast
    show ?thesis
      unfolding S
      by (intro exI[of _ "(envs(i_dst ?x := v), mem, m, sel)"] conjI v(2), rule src_load, (rule load v(1))+)
  next
    case (store ai)
    have "T' = T"
    proof (cases "store_marker wd (fn_dbg_vars fn) ?x")
      case None
      then show ?thesis using T' D(2) store by (simp add: dead_spec_def pin_other)
    next
      case (Some var)
      then have "mr_insts (m2r_state fn wd) ! i = make_dbg_value ?x var (i_b ?x)"
        using D(1) store by (simp add: ren_spec_def pin_other)
      moreover have "plain_step F cv (make_dbg_value ?x var (i_b ?x)) T = T"
        by (cases T) (simp add: plain_step_def make_dbg_value_def)
      ultimately show ?thesis using T' by simp
    qed
    then show ?thesis
      unfolding S using store_sim[OF ok b i store sim[unfolded S]]
      by (intro exI[of _ "(envs, mem(ai := Some (envs (i_b ?x))), m, sel)"] conjI src_store[OF store]) simp
  next
    case plain
    have "\<not> mr_dead (m2r_state fn wd) ! i" using D(2) plain by (auto simp: dead_spec_def slot_access_def)
    moreover have "mr_insts (m2r_state fn wd) ! i = pin_bytes (pinned_slots fn) ?x"
      using D(1) plain(2) by (auto simp: ren_spec_def slot_access_def split: option.split)
    ultimately have "plain_step F cv ?x T = T'" using T' il by (simp add: plain_step_pin[OF pn])
    from plain_sim[OF ok b i plain sim[unfolded S] this] obtain envs' m' sel' where
      P: "plain_step F cv ?x (envs, m, sel) = (envs', m', sel')" "sim_at fn b (Suc i) (envs', mem, m', sel') T'" by blast
    show ?thesis
      unfolding S by (intro exI[of _ "(envs', mem, m', sel')"] conjI src_plain[OF plain(2,1) P(1)] P(2))
  qed
qed

section \<open>One block\<close>

lemma plain_run_Nil [simp]: "plain_run F cv [] s = s"
  by (simp add: plain_run_def)

lemma plain_run_append: "plain_run F cv (xs @ ys) s = plain_run F cv ys (plain_run F cv xs s)"
  by (simp add: plain_run_def)

lemma body_sim:
  assumes ok: "m2r_input_ok fn" and ne: "m2r_slots fn \<noteq> []" and pn: "pin_neutral F fn"
    and b: "reachable (fn_cfg fn) b" and sim: "sim_at fn b (start_of (fn_cfg fn) b) S T"
  shows "start_of (fn_cfg fn) b \<le> k \<Longrightarrow> k \<le> end_of (fn_cfg fn) b \<Longrightarrow>
    \<exists>S'. src_run F cv (m2r_slots fn) (map ((!) (fn_insts fn)) [start_of (fn_cfg fn) b..<k]) S S' \<and>
      sim_at fn b k S' (plain_run F cv (live_insts (mr_insts (m2r_state fn wd)) (mr_dead (m2r_state fn wd))
        [start_of (fn_cfg fn) b..<k]) T)"
proof (induction k)
  case 0
  then show ?case using sim by (intro exI[of _ S]) (simp add: live_insts_def plain_run_def run_nil)
next
  case (Suc k)
  show ?case
  proof (cases "start_of (fn_cfg fn) b = Suc k")
    case True
    then show ?thesis using sim by (intro exI[of _ S]) (simp add: live_insts_def plain_run_def run_nil)
  next
    case False
    then have lo: "start_of (fn_cfg fn) b \<le> k" using Suc.prems by simp
    then have i: "in_blk (fn_cfg fn) b k" using Suc.prems by (simp add: in_blk_def)
    let ?run = "\<lambda>k. plain_run F cv (live_insts (mr_insts (m2r_state fn wd)) (mr_dead (m2r_state fn wd))
        [start_of (fn_cfg fn) b..<k]) T"
    from Suc.IH lo Suc.prems(2) obtain S1 where
      S1: "src_run F cv (m2r_slots fn) (map ((!) (fn_insts fn)) [start_of (fn_cfg fn) b..<k]) S S1" "sim_at fn b k S1 (?run k)"
      by auto
    have "?run (Suc k) = (if mr_dead (m2r_state fn wd) ! k then ?run k else plain_step F cv (mr_insts (m2r_state fn wd) ! k) (?run k))"
      using lo by (simp add: live_insts_def plain_run_def)
    from sim_inst[OF ok ne pn b i S1(2) this] obtain S2 where
      "src_inst F cv (m2r_slots fn) (fn_insts fn ! k) S1 S2" "sim_at fn b (Suc k) S2 (?run (Suc k))" by blast
    with run_snoc[OF S1(1)] lo show ?thesis by (intro exI[of _ S2]) simp
  qed
qed

text \<open>
  The copies at the end of a block.  \<open>copied\<close> says where they are: kept ids and current values are as
  before, and the phis handled so far hold the current value of their slot.
\<close>

definition copied :: "ir_function \<Rightarrow> nat \<Rightarrow> (int \<Rightarrow> 'a) \<Rightarrow> (nat \<times> ir_phi) set \<Rightarrow> (int \<Rightarrow> 'a) \<Rightarrow> bool" where
  "copied fn b env0 ps env \<longleftrightarrow>
     (\<forall>v. kept_id fn v \<longrightarrow> env v = env0 v) \<and>
     (\<forall>ai<length (m2r_slots fn). 0 \<le> m2r.VO fn b ai \<longrightarrow> env (m2r.VO fn b ai) = env0 (m2r.VO fn b ai)) \<and>
     (\<forall>(c, p)\<in>ps. \<forall>ai. find_alloca_slot (m2r_slots fn) (phi_slot p) = Some ai \<longrightarrow> 0 \<le> m2r.VO fn b ai \<longrightarrow>
        env (phi_dst p) = env0 (m2r.VO fn b ai))"

lemma phi_copy_fields:
  "i_op (phi_copy fn phi val) = (if val < 0 \<and> phi_isfloat fn (phi_dst phi) \<noteq> 0 then IR_CONST else IR_COPY)"
  "i_dst (phi_copy fn phi val) = phi_dst phi"
  "0 \<le> val \<Longrightarrow> i_a (phi_copy fn phi val) = val"
  by (simp_all add: phi_copy_def Let_def)

lemma phi_copy_step:
  "\<exists>y. plain_step F cv (phi_copy fn phi val) (env, m, sel) = (env(phi_dst phi := y), m, sel) \<and>
     (0 \<le> val \<longrightarrow> y = env val)"
proof -
  let ?c = "phi_copy fn phi val"
  let ?y = "if i_op ?c = IR_COPY then env (i_a ?c) else cv ?c"
  have "i_op ?c = IR_COPY \<or> i_op ?c = IR_CONST" by (simp add: phi_copy_fields)
  then have "plain_step F cv ?c (env, m, sel) = (env(phi_dst phi := ?y), m, sel)"
    by (elim disjE) (simp_all add: plain_step_def phi_copy_fields(2))
  moreover have "0 \<le> val \<Longrightarrow> ?y = env val" by (simp add: phi_copy_fields)
  ultimately show ?thesis by blast
qed

lemma copied_step:
  assumes ok: "m2r_input_ok fn" and b: "reachable (fn_cfg fn) b" and cp: "copied fn b env0 ps env"
    and ps: "\<And>c q. (c, q) \<in> ps \<Longrightarrow> c < cfg_num (fn_cfg fn) \<and> q \<in> set (m2r_phis fn ! c)"
    and p: "c < cfg_num (fn_cfg fn)" "p \<in> set (m2r_phis fn ! c)" "find_alloca_slot (m2r_slots fn) (phi_slot p) = Some ai"
    and y: "0 \<le> m2r.VO fn b ai \<Longrightarrow> y = env (m2r.VO fn b ai)"
  shows "copied fn b env0 (insert (c, p) ps) (env(phi_dst p := y))"
proof -
  have bn: "b < cfg_num (fn_cfg fn)" using built.reachable_block[OF b] .
  have ai: "ai < length (m2r_slots fn)" "m2r_slots fn ! ai = phi_slot p" using find_slot_Some[OF p(3)] by auto
  note D = phis_okD[OF m2r_placed_ok(2)[of fn]]
  have vo: "y = env0 (m2r.VO fn b ai)" if "0 \<le> m2r.VO fn b ai"
    using y[OF that] cp ai that by (simp add: copied_def)
  have own: "aj = ai" if "aj < length (m2r_slots fn)" "m2r.VO fn b aj = phi_dst p" for aj
  proof -
    have "comes_from fn b (end_of (fn_cfg fn) b) aj (phi_dst p)"
      using comes_from_point[OF b comes_from_entry[OF b], of "end_of (fn_cfg fn) b" aj] that(2)
        built_block_range[OF bn] by simp
    then show ?thesis
    proof (cases rule: comes_fromE)
      case undef
      with phi_dst_not_kept(1)[OF p(1,2)] m2r_input_okD(2)[OF ok] show ?thesis by simp
    next
      case (phi d q)
      from D(5)[OF p(1) phi(1) p(2) phi(2)] phi(3) have "p = q" by simp
      then have "m2r_slots fn ! aj = m2r_slots fn ! ai" using phi(4) ai(2) by metis
      then show ?thesis using nth_eq_iff_index_eq[OF m2r_slots_distinct that(1) ai(1)] by blast
    next
      case (store d j)
      with stored_kept[OF ok store(1-3)] phi_dst_not_kept(2)[OF p(1,2)] show ?thesis by simp
    qed
  qed
  show ?thesis
    unfolding copied_def
  proof (intro conjI allI impI ballI)
    fix v assume "kept_id fn v"
    then show "(env(phi_dst p := y)) v = env0 v"
      using cp phi_dst_not_kept(2)[OF p(1,2)] by (auto simp: copied_def)
  next
    fix aj assume aj: "aj < length (m2r_slots fn)" "0 \<le> m2r.VO fn b aj"
    show "(env(phi_dst p := y)) (m2r.VO fn b aj) = env0 (m2r.VO fn b aj)"
    proof (cases "m2r.VO fn b aj = phi_dst p")
      case True
      with own[OF aj(1)] vo aj(2) show ?thesis by simp
    qed (use cp aj in \<open>simp add: copied_def\<close>)
  next
    fix e assume e: "e \<in> insert (c, p) ps"
    obtain d q where dq: "e = (d, q)" by fastforce
    have q: "d < cfg_num (fn_cfg fn)" "q \<in> set (m2r_phis fn ! d)" using e dq ps p by auto
    have "(env(phi_dst p := y)) (phi_dst q) = env0 (m2r.VO fn b aj)"
      if aj: "find_alloca_slot (m2r_slots fn) (phi_slot q) = Some aj" "0 \<le> m2r.VO fn b aj" for aj
    proof (cases "phi_dst q = phi_dst p")
      case True
      then have "q = p" using D(5)[OF q(1) p(1) q(2) p(2)] by simp
      with aj p(3) vo show ?thesis by simp
    next
      case False
      then have "(d, q) \<in> ps" using e dq by auto
      with cp aj have "env (phi_dst q) = env0 (m2r.VO fn b aj)" unfolding copied_def by fastforce
      with False show ?thesis by simp
    qed
    then show "case e of (c, pa) \<Rightarrow> \<forall>ai. find_alloca_slot (m2r_slots fn) (phi_slot pa) = Some ai \<longrightarrow>
        0 \<le> m2r.VO fn b ai \<longrightarrow> (env(phi_dst p := y)) (phi_dst pa) = env0 (m2r.VO fn b ai)"
      using dq by simp
  qed
qed

lemma found_arg:
  assumes b: "reachable (fn_cfg fn) b" "c \<in> set (succs_of (fn_cfg fn) b)"
    and p: "m2r.phi_filled fn (m2r.edges_of fn {b. reachable (fn_cfg fn) b}) c p p'"
      "find_alloca_slot (m2r_slots fn) (phi_slot p) = Some ai"
  shows "\<exists>a. find (\<lambda>a. pa_pred a = b) (phi_args p') = Some a \<and> pa_val a = m2r.VO fn b ai"
proof -
  let ?E = "m2r.edges_of fn {b. reachable (fn_cfg fn) b}"
  have s: "set (phi_args p') = m2r.args_from fn ?E c (phi_slot p)" using p(1) by (simp add: m2r.phi_filled_def)
  have "?E b c" using b by (simp add: m2r.edges_of_def)
  then have "\<lparr>pa_val = m2r.VO fn b ai, pa_pred = b\<rparr> \<in> set (phi_args p')"
    unfolding s m2r.args_from_def using p(2) by blast
  then have "find (\<lambda>a. pa_pred a = b) (phi_args p') \<noteq> None" by (auto simp: find_None_iff)
  then obtain a where a: "find (\<lambda>a. pa_pred a = b) (phi_args p') = Some a" by blast
  from find_Some_in[OF a] have "a \<in> m2r.args_from fn ?E c (phi_slot p)" "pa_pred a = b" using s by auto
  then have "pa_val a = m2r.VO fn b ai" using p(2) by (auto simp: m2r.args_from_def)
  with a show ?thesis by blast
qed

lemma copies_run:
  assumes ok: "m2r_input_ok fn" and b: "reachable (fn_cfg fn) b" "c \<in> set (succs_of (fn_cfg fn) b)"
  shows "list_all2 (m2r.phi_filled fn (m2r.edges_of fn {b. reachable (fn_cfg fn) b}) c) ps ps' \<Longrightarrow>
    set ps \<subseteq> set (m2r_phis fn ! c) \<Longrightarrow> copied fn b env0 D env \<Longrightarrow>
    (\<forall>(d, q)\<in>D. d < cfg_num (fn_cfg fn) \<and> q \<in> set (m2r_phis fn ! d)) \<Longrightarrow>
    \<exists>env'. plain_run F cv (phi_copies f b ps') (env, m, sel) = (env', m, sel) \<and>
      copied fn b env0 (D \<union> Pair c ` set ps) env'"
proof (induction ps ps' arbitrary: D env rule: list_all2_induct)
  case Nil
  then show ?case by (simp add: phi_copies_def plain_run_def)
next
  case (Cons p ps p' ps')
  have cn: "c < cfg_num (fn_cfg fn)" using built.succ_block[OF built.reachable_block[OF b(1)] b(2)] .
  have pm: "p \<in> set (m2r_phis fn ! c)" using Cons.prems(1) by simp
  obtain ai where ai: "find_alloca_slot (m2r_slots fn) (phi_slot p) = Some ai"
    using find_slot_ex[OF m2r.phi_known[OF cn pm]] by blast
  from found_arg[OF b Cons.hyps(1) ai] obtain a where
    a: "find (\<lambda>a. pa_pred a = b) (phi_args p') = Some a" "pa_val a = m2r.VO fn b ai" by blast
  have dst: "phi_dst p' = phi_dst p" using Cons.hyps(1) by (simp add: m2r.phi_filled_def)
  obtain y where y: "plain_step F cv (phi_copy f p' (m2r.VO fn b ai)) (env, m, sel) = (env(phi_dst p := y), m, sel)"
    "0 \<le> m2r.VO fn b ai \<Longrightarrow> y = env (m2r.VO fn b ai)"
    using phi_copy_step[of F cv f p' "m2r.VO fn b ai" env m sel] unfolding dst by blast
  have D: "d < cfg_num (fn_cfg fn) \<and> q \<in> set (m2r_phis fn ! d)" if "(d, q) \<in> D" for d q
    using Cons.prems(3) that by blast
  have cp: "copied fn b env0 (insert (c, p) D) (env(phi_dst p := y))"
    by (rule copied_step[OF ok b(1) Cons.prems(2) D cn pm ai y(2)])
  have "set ps \<subseteq> set (m2r_phis fn ! c)" using Cons.prems(1) by simp
  moreover have "\<forall>(d, q)\<in>insert (c, p) D. d < cfg_num (fn_cfg fn) \<and> q \<in> set (m2r_phis fn ! d)"
    using D cn pm by auto
  ultimately obtain env' where
    "plain_run F cv (phi_copies f b ps') (env(phi_dst p := y), m, sel) = (env', m, sel)"
    "copied fn b env0 (insert (c, p) D \<union> Pair c ` set ps) env'" using Cons.IH[OF _ cp] by blast
  moreover have "insert (c, p) D \<union> Pair c ` set ps = D \<union> Pair c ` set (p # ps)" by auto
  moreover have "plain_run F cv (phi_copies f b (p' # ps')) (env, m, sel) =
      plain_run F cv (phi_copies f b ps') (env(phi_dst p := y), m, sel)"
    using a y(1) by (simp add: phi_copies_def plain_run_def)
  ultimately show ?case by auto
qed

lemma all_copies_run:
  assumes ok: "m2r_input_ok fn" and ne: "m2r_slots fn \<noteq> []" and b: "reachable (fn_cfg fn) b"
  shows "set cs \<subseteq> set (succs_of (fn_cfg fn) b) \<Longrightarrow> copied fn b env0 D env \<Longrightarrow>
    (\<forall>(d, q)\<in>D. d < cfg_num (fn_cfg fn) \<and> q \<in> set (m2r_phis fn ! d)) \<Longrightarrow>
    \<exists>env'. plain_run F cv (concat (map (\<lambda>c. phi_copies f b (mr_phis (m2r_state fn wd) ! c)) cs)) (env, m, sel) = (env', m, sel) \<and>
      copied fn b env0 (D \<union> {(c, p). c \<in> set cs \<and> p \<in> set (m2r_phis fn ! c)}) env'"
proof (induction cs arbitrary: D env)
  case Nil
  then show ?case by (simp add: plain_run_def)
next
  case (Cons c cs)
  have c: "c \<in> set (succs_of (fn_cfg fn) b)" using Cons.prems(1) by simp
  have cn: "c < cfg_num (fn_cfg fn)" using built.succ_block[OF built.reachable_block[OF b] c] .
  have l: "list_all2 (m2r.phi_filled fn (m2r.edges_of fn {b. reachable (fn_cfg fn) b}) c) (m2r_phis fn ! c)
      (mr_phis (m2r_state fn wd) ! c)"
    using m2r_state_ok(2)[OF ne, of wd] cn by (simp add: m2r.ready_def m2r.phi_done_def)
  from copies_run[OF ok b c l subset_refl Cons.prems(2,3), of F cv f m sel] obtain env1 where
    1: "plain_run F cv (phi_copies f b (mr_phis (m2r_state fn wd) ! c)) (env, m, sel) = (env1, m, sel)"
    "copied fn b env0 (D \<union> Pair c ` set (m2r_phis fn ! c)) env1" by blast
  have "set cs \<subseteq> set (succs_of (fn_cfg fn) b)" using Cons.prems(1) by simp
  moreover have "\<forall>(d, q)\<in>D \<union> Pair c ` set (m2r_phis fn ! c). d < cfg_num (fn_cfg fn) \<and> q \<in> set (m2r_phis fn ! d)"
    using Cons.prems(3) cn by auto
  ultimately obtain env' where
    2: "plain_run F cv (concat (map (\<lambda>c. phi_copies f b (mr_phis (m2r_state fn wd) ! c)) cs)) (env1, m, sel) = (env', m, sel)"
    "copied fn b env0 (D \<union> Pair c ` set (m2r_phis fn ! c) \<union> {(c, p). c \<in> set cs \<and> p \<in> set (m2r_phis fn ! c)}) env'"
    using Cons.IH[OF _ 1(2)] by blast
  have "D \<union> Pair c ` set (m2r_phis fn ! c) \<union> {(c, p). c \<in> set cs \<and> p \<in> set (m2r_phis fn ! c)} =
      D \<union> {(d, p). d \<in> set (c # cs) \<and> p \<in> set (m2r_phis fn ! d)}" by auto
  with 1(1) 2 show ?case by (auto simp: plain_run_append)
qed

text \<open>At the end of a block every successor finds the values of its slots.\<close>

definition exit_ok :: "ir_function \<Rightarrow> nat \<Rightarrow> (int \<Rightarrow> 'a) \<times> (nat \<Rightarrow> 'a option) \<times> 'm \<times> nat \<Rightarrow> (int \<Rightarrow> 'a) \<times> 'm \<times> nat \<Rightarrow> bool" where
  "exit_ok fn b = (\<lambda>(envs, mem, ms, sels) (envt, mt, selt).
     (\<forall>v. kept_id fn v \<longrightarrow> envs v = envt v) \<and> ms = mt \<and> sels = selt \<and>
     (\<forall>c\<in>set (succs_of (fn_cfg fn) b). \<forall>ai<length (m2r_slots fn). \<forall>v. mem ai = Some v \<longrightarrow>
        0 \<le> m2r.VI fn c ai \<and> envt (m2r.VI fn c ai) = v))"

lemma copies_sim:
  assumes ok: "m2r_input_ok fn" and ne: "m2r_slots fn \<noteq> []" and b: "reachable (fn_cfg fn) b"
    and sim: "sim_at fn b t (envs, mem, m, sel) (envt, m', sel')"
    and vo: "\<And>ai. ai < length (m2r_slots fn) \<Longrightarrow> m2r.VP fn b t ai = m2r.VO fn b ai"
  shows "\<exists>envt'. plain_run F cv (concat (map (\<lambda>c. phi_copies f b (mr_phis (m2r_state fn wd) ! c)) (succs_of (fn_cfg fn) b)))
      (envt, m', sel') = (envt', m', sel') \<and>
    exit_ok fn b (envs, mem, m, sel) (envt', m', sel')"
proof -
  have "copied fn b envt {} envt" by (simp add: copied_def)
  from all_copies_run[OF ok ne b subset_refl this, of F cv f wd m' sel'] obtain envt' where
    run: "plain_run F cv (concat (map (\<lambda>c. phi_copies f b (mr_phis (m2r_state fn wd) ! c)) (succs_of (fn_cfg fn) b)))
      (envt, m', sel') = (envt', m', sel')"
    and cp: "copied fn b envt {(c, p). c \<in> set (succs_of (fn_cfg fn) b) \<and> p \<in> set (m2r_phis fn ! c)} envt'" by auto
  have ag: "envs v = envt v" if "kept_id fn v" for v using sim that by (simp add: sim_at_def)
  have sl: "0 \<le> m2r.VO fn b ai \<and> envt (m2r.VO fn b ai) = v" if "ai < length (m2r_slots fn)" "mem ai = Some v" for ai v
    using sim that by (simp add: sim_at_def vo)
  have "0 \<le> m2r.VI fn c ai \<and> envt' (m2r.VI fn c ai) = v"
    if c: "c \<in> set (succs_of (fn_cfg fn) b)" and ai: "ai < length (m2r_slots fn)" and v: "mem ai = Some v" for c ai v
  proof (cases "phi_res (m2r_phis fn ! c) (m2r_slots fn ! ai)")
    case None
    with m2r.edge_value[OF b c ai] sl[OF ai v] cp ai show ?thesis by (simp add: copied_def)
  next
    case (Some d)
    from phi_res_Some[OF Some] obtain p where p: "p \<in> set (m2r_phis fn ! c)" "phi_slot p = m2r_slots fn ! ai" "phi_dst p = d" by blast
    have cn: "c < cfg_num (fn_cfg fn)" using built.succ_block[OF built.reachable_block[OF b] c] .
    have "find_alloca_slot (m2r_slots fn) (phi_slot p) = Some ai"
      unfolding p(2) by (rule find_slot_nth[OF m2r_slots_distinct ai])
    then have "envt' (phi_dst p) = envt (m2r.VO fn b ai)"
      using cp c p(1) sl[OF ai v] unfolding copied_def by fastforce
    moreover have "0 \<le> phi_dst p" using phi_dst_not_kept(1)[OF cn p(1)] m2r_input_okD(2)[OF ok] by simp
    moreover have "m2r.VI fn c ai = phi_dst p" using m2r.edge_value[OF b c ai] Some p(3) by simp
    ultimately show ?thesis using sl[OF ai v] by simp
  qed
  moreover have "envs v = envt' v" if "kept_id fn v" for v using ag[OF that] cp that by (simp add: copied_def)
  moreover have "m = m'" "sel = sel'" using sim by (simp_all add: sim_at_def)
  ultimately show ?thesis using run by (intro exI[of _ envt']) (simp add: exit_ok_def)
qed

text \<open>The terminator runs after the copies.\<close>

lemma term_sim:
  assumes ok: "m2r_input_ok fn" and b: "reachable (fn_cfg fn) b" and i: "in_blk (fn_cfg fn) b i" "Suc i = end_of (fn_cfg fn) b"
    and x: "is_terminator (i_op (fn_insts fn ! i))"
    and ex: "exit_ok fn b (envs, mem, m, sel) (envt, m', sel')"
  shows "\<exists>S'. src_inst F cv (m2r_slots fn) (fn_insts fn ! i) (envs, mem, m, sel) S' \<and>
    exit_ok fn b S' (plain_step F cv (fn_insts fn ! i) (envt, m', sel'))"
proof -
  let ?x = "fn_insts fn ! i"
  have bn: "b < cfg_num (fn_cfg fn)" using built.reachable_block[OF b] .
  have il: "i < length (fn_insts fn)" using i built_block_range[OF bn] by (auto simp: in_blk_def)
  have np: "\<not> promoted_alloca (m2r_slots fn) ?x" "\<not> slot_access (m2r_slots fn) ?x"
    using is_terminator_cases[OF x] by (auto simp: promoted_alloca_def slot_access_def)
  have eq: "m' = m" "sel' = sel" and ag: "\<And>v. kept_id fn v \<Longrightarrow> envs v = envt v"
    and vi: "\<And>c ai v. c \<in> set (succs_of (fn_cfg fn) b) \<Longrightarrow> ai < length (m2r_slots fn) \<Longrightarrow> mem ai = Some v \<Longrightarrow>
        0 \<le> m2r.VI fn c ai \<and> envt (m2r.VI fn c ai) = v"
    using ex by (auto simp: exit_ok_def)
  obtain envs' m1 sel1 where S: "plain_step F cv ?x (envs, m, sel) = (envs', m1, sel1)" by (rule prod_cases3)
  from plain_step_agree[OF m2r_input_okD(3)[OF ok il] np ag S] obtain envt' where
    T: "plain_step F cv ?x (envt, m, sel) = (envt', m1, sel1)" "\<forall>v. kept_id fn v \<longrightarrow> envs' v = envt' v" by blast
  have vo: "m2r.VP fn b i ai = m2r.VO fn b ai" for ai
    using i is_terminator_cases[OF x] il unfolding i(2)[symmetric]
    by (simp add: at_point_Suc in_blk_def store_step_def stores_to_def m2r_nth)
  have keep: "envt' (m2r.VI fn c ai) = envt (m2r.VI fn c ai)"
    if c: "c \<in> set (succs_of (fn_cfg fn) b)" and ai: "ai < length (m2r_slots fn)" and nn: "0 \<le> m2r.VI fn c ai" for c ai
  proof (rule plain_step_other[OF _ nn T(1)], rule notI)
    assume w: "m2r.VI fn c ai \<in> set (writes ?x)"
    show False
    proof (cases "phi_res (m2r_phis fn ! c) (m2r_slots fn ! ai)")
      case None
      then have e: "m2r.VI fn c ai = m2r.VP fn b i ai" using m2r.edge_value[OF b c ai] vo by simp
      from no_clobber[OF ok b i(1) np(1) w, of ai] nn e show False by simp
    next
      case (Some d)
      from phi_res_Some[OF Some] obtain p where p: "p \<in> set (m2r_phis fn ! c)" "phi_dst p = d" by blast
      have cn: "c < cfg_num (fn_cfg fn)" using built.succ_block[OF bn c] .
      have "kept_id fn d"
        using writes_kept[OF m2r_input_okD(3)[OF ok il] np(1) w] m2r.edge_value[OF b c ai] Some by simp
      with phi_dst_not_kept(2)[OF cn p(1)] p(2) show False by simp
    qed
  qed
  have "exit_ok fn b (envs', mem, m1, sel1) (envt', m1, sel1)"
    using T(2) vi keep by (simp add: exit_ok_def)
  then show ?thesis
    unfolding eq T(1) by (intro exI[of _ "(envs', mem, m1, sel1)"] conjI src_plain[OF np(2,1) S])
qed

lemma plain_run_skip: "(\<And>x s. x \<in> set xs \<Longrightarrow> plain_step F cv x s = s) \<Longrightarrow> plain_run F cv xs s = s"
  unfolding plain_run_def by (induction xs) auto

lemma markers_run: "plain_run F cv (phi_markers dbg phis) s = s"
proof -
  have "plain_step F cv x s = s" if "x \<in> set (phi_markers dbg phis)" for x s
    using that by (cases s) (auto simp: phi_markers_def make_dbg_value_def plain_step_def split: option.splits)
  then show ?thesis by (rule plain_run_skip)
qed

lemma ren_spec_op: "is_terminator (i_op (ren_spec wd dbg slots V x)) = is_terminator (i_op x)"
  by (simp add: ren_spec_def rename_load_def make_dbg_value_def is_terminator_def split: option.split)

lemma pin_term: "pin_bytes p x = x" if "is_terminator (i_op x)"
  using is_terminator_cases[OF that] by (simp add: pin_other)

lemma block_sim:
  assumes ok: "m2r_input_ok fn" and ne: "m2r_slots fn \<noteq> []" and pn: "pin_neutral F fn"
    and b: "reachable (fn_cfg fn) b" and sim: "sim_at fn b (start_of (fn_cfg fn) b) S T"
  shows "\<exists>S'. src_run F cv (m2r_slots fn) (block_insts (fn_cfg fn) (fn_insts fn) b) S S' \<and>
    exit_ok fn b S' (plain_run F cv (m2r_code fn wd b) T)"
proof -
  let ?g = "fn_cfg fn" and ?st = "m2r_state fn wd" and ?f = "m2r_meta fn\<lparr>fn_insts := mr_insts (m2r_state fn wd)\<rparr>"
  have bn: "b < cfg_num ?g" using built.reachable_block[OF b] .
  note R = built_block_range[OF bn]
  define t where "t = term_idx (mr_insts ?st) (cfg_blocks ?g ! b)"
  let ?copies = "concat (map (\<lambda>c. phi_copies ?f b (mr_phis ?st ! c)) (succs_of ?g b))"
  let ?live = "live_insts (mr_insts ?st) (mr_dead ?st)"
  have code: "plain_run F cv (m2r_code fn wd b) T =
      plain_run F cv (?live [t..<end_of ?g b]) (plain_run F cv ?copies (plain_run F cv (?live [start_of ?g b..<t]) T))"
    by (simp add: m2r_code_def wb_block_def Let_def t_def plain_run_append markers_run)
  have D: "mr_insts ?st ! i = ren_spec wd (fn_dbg_vars fn) (m2r_slots fn) (m2r.VP fn b i) (pin_bytes (pinned_slots fn) (fn_insts fn ! i))"
    "mr_dead ?st ! i \<longleftrightarrow> promoted_alloca (m2r_slots fn) (fn_insts fn ! i) \<or>
       dead_spec wd (fn_dbg_vars fn) (m2r_slots fn) (pin_bytes (pinned_slots fn) (fn_insts fn ! i))"
    if "in_blk ?g b i" for i
    using m2r_state_ok(2)[OF ne, of wd] b that R
    by (simp_all add: m2r.ready_def m2r.blk_done_def m2r_nth promoted_alloca_def in_blk_def)
  have t: "start_of ?g b \<le> t" "t \<le> end_of ?g b" using R by (auto simp: t_def term_idx_def)
  from body_sim[OF ok ne pn b sim t, of cv wd] obtain S1 where
    S1: "src_run F cv (m2r_slots fn) (map ((!) (fn_insts fn)) [start_of ?g b..<t]) S S1"
    "sim_at fn b t S1 (plain_run F cv (?live [start_of ?g b..<t]) T)" by blast
  obtain envs mem m sel where s1: "S1 = (envs, mem, m, sel)" by (rule prod_cases4)
  obtain envt m' sel' where t1: "plain_run F cv (?live [start_of ?g b..<t]) T = (envt, m', sel')" by (rule prod_cases3)
  show ?thesis
  proof (cases "t = end_of ?g b")
    case True
    from copies_sim[OF ok ne b S1(2)[unfolded s1 t1], of F cv ?f wd] True obtain envt' where
      "plain_run F cv ?copies (envt, m', sel') = (envt', m', sel')" "exit_ok fn b (envs, mem, m, sel) (envt', m', sel')" by auto
    moreover have "?live [t..<end_of ?g b] = []" by (simp add: True live_insts_def)
    ultimately have "exit_ok fn b S1 (plain_run F cv (m2r_code fn wd b) T)"
      unfolding code t1 s1 by (simp only: plain_run_Nil)
    then show ?thesis using S1(1) True by (intro exI[of _ S1]) (simp add: block_insts_def)
  next
    case False
    then have tt: "start_of ?g b < end_of ?g b" "t = end_of ?g b - 1" "is_terminator (i_op (mr_insts ?st ! t))"
      by (auto simp: t_def term_idx_def split: if_splits)
    have i: "in_blk ?g b t" "Suc t = end_of ?g b" using tt(1,2) by (auto simp: in_blk_def)
    have x: "is_terminator (i_op (fn_insts fn ! t))" using tt(3) D(1)[OF i(1)] by (simp add: ren_spec_op)
    have il: "t < length (fn_insts fn)" using i R by simp
    have mi: "mr_insts ?st ! t = fn_insts fn ! t" "\<not> mr_dead ?st ! t"
      using D[OF i(1)] is_terminator_cases[OF x] pin_term[OF x]
      by (simp_all add: ren_spec_def dead_spec_def promoted_alloca_def)
    have "m2r.VP fn b t ai = m2r.VO fn b ai" for ai
      using i is_terminator_cases[OF x] il unfolding i(2)[symmetric]
      by (simp add: at_point_Suc in_blk_def store_step_def stores_to_def m2r_nth)
    from copies_sim[OF ok ne b S1(2)[unfolded s1 t1] this, of F cv ?f wd] obtain envt' where
      c: "plain_run F cv ?copies (envt, m', sel') = (envt', m', sel')" "exit_ok fn b (envs, mem, m, sel) (envt', m', sel')" by blast
    from term_sim[OF ok b i x c(2), of F cv] obtain S2 where
      S2: "src_inst F cv (m2r_slots fn) (fn_insts fn ! t) (envs, mem, m, sel) S2"
      "exit_ok fn b S2 (plain_step F cv (fn_insts fn ! t) (envt', m', sel'))" by blast
    have up: "[t..<end_of ?g b] = [t]" "[start_of ?g b..<end_of ?g b] = [start_of ?g b..<t] @ [t]"
      using i t(1) by (simp_all add: upt_conv_Cons flip: i(2))
    have "?live [t..<end_of ?g b] = [fn_insts fn ! t]" by (simp add: up(1) mi live_insts_def)
    then have "plain_run F cv (m2r_code fn wd b) T = plain_run F cv [fn_insts fn ! t] (envt', m', sel')"
      unfolding code t1 c(1) by simp
    then have "plain_run F cv (m2r_code fn wd b) T = plain_step F cv (fn_insts fn ! t) (envt', m', sel')"
      by (simp add: plain_run_def)
    with S2(2) run_snoc[OF S1(1), of "fn_insts fn ! t" S2] S2(1) s1 show ?thesis
      by (intro exI[of _ S2]) (simp add: block_insts_def up(2))
  qed
qed

section \<open>Where the new blocks begin and end\<close>

lemma block_bounds:
  assumes "in_blk (fn_cfg fn) b i" "b < cfg_num (fn_cfg fn)"
  shows "i_op (fn_insts fn ! i) = IR_LABEL \<Longrightarrow> i = start_of (fn_cfg fn) b"
    and "is_terminator (i_op (fn_insts fn ! i)) \<Longrightarrow> Suc i = end_of (fn_cfg fn) b"
  using cfg_build_blocks(3)[OF assms(2)] assms(1) unfolding block_ok_def in_blk_def by blast+

text \<open>What the renaming makes of an instruction, in every block; labels and terminators stay.\<close>

lemma renamed_inst:
  assumes ne: "m2r_slots fn \<noteq> []" and b: "b < cfg_num (fn_cfg fn)" and i: "in_blk (fn_cfg fn) b i"
  defines "p \<equiv> pin_bytes (pinned_slots fn) (fn_insts fn ! i)"
  shows "(\<exists>V. mr_insts (m2r_state fn wd) ! i = ren_spec wd (fn_dbg_vars fn) (m2r_slots fn) V p \<and>
        (mr_dead (m2r_state fn wd) ! i \<longleftrightarrow> promoted_alloca (m2r_slots fn) p \<or> dead_spec wd (fn_dbg_vars fn) (m2r_slots fn) p)) \<or>
      mr_insts (m2r_state fn wd) ! i = p \<and> (mr_dead (m2r_state fn wd) ! i \<longleftrightarrow> promoted_alloca (m2r_slots fn) p)"
proof -
  have il: "i < length (fn_insts fn)" using i built_block_range[OF b] by (auto simp: in_blk_def)
  note R = m2r_state_ok(2)[OF ne, of wd, unfolded m2r.ready_def m2r.blk_done_def]
  show ?thesis
  proof (cases "reachable (fn_cfg fn) b")
    case True
    with R i show ?thesis unfolding p_def by (simp add: m2r_nth[OF il]) blast
  next
    case False
    have "\<not> in_blk (fn_cfg fn) c i" if "reachable (fn_cfg fn) c" for c
      using built_block_disjoint[OF b built.reachable_block[OF that] i] that False by blast
    with R il show ?thesis unfolding p_def by (simp add: m2r_nth[OF il] m2r_insts_nth)
  qed
qed

lemma ctl_inst:
  assumes "m2r_slots fn \<noteq> []" "b < cfg_num (fn_cfg fn)" "in_blk (fn_cfg fn) b i"
  shows "is_ctl (fn_insts fn ! i) \<Longrightarrow>
      mr_insts (m2r_state fn wd) ! i = fn_insts fn ! i \<and> \<not> mr_dead (m2r_state fn wd) ! i"
    and "is_ctl (mr_insts (m2r_state fn wd) ! i) \<Longrightarrow> is_ctl (fn_insts fn ! i)"
  using renamed_inst[OF assms, of wd]
  by (auto simp: is_ctl_def ren_spec_def dead_spec_def rename_load_def make_dbg_value_def is_terminator_def
      promoted_alloca_def pin_other split: option.splits if_splits)

lemma filter_live:
  "\<forall>i\<in>set is. (is_ctl (xs ! i) \<longrightarrow> ys ! i = xs ! i \<and> \<not> dead ! i) \<and> (is_ctl (ys ! i) \<longrightarrow> is_ctl (xs ! i)) \<Longrightarrow>
    filter is_ctl (live_insts ys dead is) = filter is_ctl (map ((!) xs) is)"
proof (induction "is")
  case (Cons i "is")
  then have "filter is_ctl (live_insts ys dead is) = filter is_ctl (map ((!) xs) is)"
    and "is_ctl (xs ! i) \<longrightarrow> ys ! i = xs ! i \<and> \<not> dead ! i" "is_ctl (ys ! i) \<longrightarrow> is_ctl (xs ! i)"
    by (meson list.set_intros)+
  then show ?case by (cases "is_ctl (xs ! i)"; cases "dead ! i") (simp_all add: live_insts_def)
qed (simp add: live_insts_def)

lemma butlast_short: "length zs \<le> 1 \<Longrightarrow> set (butlast (xs @ zs)) \<subseteq> set xs"
  by (cases zs) (auto dest: in_set_butlastD)

lemma code_shape:
  assumes ne: "m2r_slots fn \<noteq> []" and b: "b < cfg_num (fn_cfg fn)"
  shows "filter is_ctl (m2r_code fn wd b) = filter is_ctl (block_insts (fn_cfg fn) (fn_insts fn) b)"
    and "x \<in> set (butlast (m2r_code fn wd b)) \<Longrightarrow> \<not> is_terminator (i_op x)"
    and "\<exists>ms rest. m2r_code fn wd b = ms @ rest \<and> (\<forall>y\<in>set ms. i_op y = IR_DBG_VALUE) \<and>
      (\<forall>y\<in>set (tl rest). i_op y \<noteq> IR_LABEL)"
proof -
  let ?g = "fn_cfg fn" and ?mr = "mr_insts (m2r_state fn wd)" and ?dead = "mr_dead (m2r_state fn wd)"
  let ?s = "start_of ?g b" and ?e = "end_of ?g b"
  let ?live = "live_insts ?mr ?dead"
  define t where "t = term_idx ?mr (cfg_blocks ?g ! b)"
  define mk where "mk = (if wd then phi_markers (fn_dbg_vars fn) (mr_phis (m2r_state fn wd) ! b) else [])"
  define cp where "cp = concat (map (\<lambda>c. phi_copies ((m2r_meta fn)\<lparr>fn_insts := ?mr\<rparr>) b (mr_phis (m2r_state fn wd) ! c)) (succs_of ?g b))"
  have code: "m2r_code fn wd b = mk @ ?live [?s..<t] @ cp @ ?live [t..<?e]"
    by (simp add: m2r_code_def wb_block_def Let_def t_def mk_def cp_def)
  note C = ctl_inst[OF ne b, of _ wd]
  note B = block_bounds[OF _ b]
  have t: "?s \<le> t" "t \<le> ?e" using built_block_range[OF b] by (auto simp: t_def term_idx_def)
  have mk: "i_op x = IR_DBG_VALUE" if "x \<in> set mk" for x
    using that by (auto simp: mk_def phi_markers_def make_dbg_value_def split: if_splits option.splits)
  have cp: "i_op x = IR_CONST \<or> i_op x = IR_COPY" if "x \<in> set cp" for x
    using that by (auto simp: cp_def phi_copies_def phi_copy_fields split: option.splits if_splits)
  have live: "\<exists>i\<in>set is. x = ?mr ! i \<and> \<not> ?dead ! i" if "x \<in> set (?live is)" for x "is"
    using that by (auto simp: live_insts_def)
  have tend: "Suc i = ?e" if "in_blk ?g b i" "is_terminator (i_op (?mr ! i))" for i
    using that C[OF that(1)] B(2)[OF that(1)] by (auto simp: is_ctl_def)
  have label: "i = ?s" if "in_blk ?g b i" "i_op (?mr ! i) = IR_LABEL" for i
    using that C[OF that(1)] B(1)[OF that(1)] by (auto simp: is_ctl_def)
  have nc: "\<not> is_ctl x" if "x \<in> set mk \<or> x \<in> set cp" for x
    using mk[of x] cp[of x] that by (auto simp: is_ctl_def is_terminator_def)
  have up: "[?s..<?e] = [?s..<t] @ [t..<?e]" using t by (metis le_iff_add upt_add_eq_append)
  have "filter is_ctl (m2r_code fn wd b) = filter is_ctl (?live [?s..<?e])"
    unfolding code up using nc by (auto simp: live_insts_def filter_empty_conv)
  also have "\<dots> = filter is_ctl (map ((!) (fn_insts fn)) [?s..<?e])"
  proof (rule filter_live, rule ballI)
    fix i assume "i \<in> set [?s..<?e]"
    then have "in_blk ?g b i" by (simp add: in_blk_def)
    from C[OF this] show "(is_ctl (fn_insts fn ! i) \<longrightarrow> ?mr ! i = fn_insts fn ! i \<and> \<not> ?dead ! i) \<and>
        (is_ctl (?mr ! i) \<longrightarrow> is_ctl (fn_insts fn ! i))" by blast
  qed
  finally show "filter is_ctl (m2r_code fn wd b) = filter is_ctl (block_insts ?g (fn_insts fn) b)"
    by (simp add: block_insts_def)
  have "\<not> is_terminator (i_op y)" if "y \<in> set (?live [?s..<t])" for y
  proof
    assume y: "is_terminator (i_op y)"
    from live[OF that] obtain i where i: "?s \<le> i" "i < t" "y = ?mr ! i" by auto
    with t have bi: "in_blk ?g b i" by (simp add: in_blk_def)
    from tend[OF bi] y i(3) have "Suc i = ?e" by simp
    moreover then have "?e - 1 = i" by simp
    ultimately show False using y i t by (simp add: t_def term_idx_def split: if_splits)
  qed
  then have pre: "\<not> is_terminator (i_op y)" if "y \<in> set (mk @ ?live [?s..<t] @ cp)" for y
    using that nc by (auto simp: is_ctl_def)
  have "length (?live [t..<?e]) \<le> length [t..<?e]" by (simp add: live_insts_def del: length_upt)
  also have "\<dots> \<le> 1" by (auto simp: t_def term_idx_def)
  finally have "length (?live [t..<?e]) \<le> 1" .
  from butlast_short[OF this, of "mk @ ?live [?s..<t] @ cp"] pre
  show "x \<in> set (butlast (m2r_code fn wd b)) \<Longrightarrow> \<not> is_terminator (i_op x)"
    unfolding code by auto
  let ?rest = "?live [?s..<t] @ cp @ ?live [t..<?e]"
  have src: "y \<in> set cp \<or> (\<exists>i. in_blk ?g b i \<and> y = ?mr ! i \<and> \<not> ?dead ! i \<and> i \<in> A)"
    if "y \<in> set (?live us @ cp @ ?live vs)" "set us \<subseteq> A" "set vs \<subseteq> A" "A \<subseteq> {?s..<?e}" for y us vs A
  proof -
    have A: "in_blk ?g b i" if "i \<in> A" for i using that \<open>A \<subseteq> {?s..<?e}\<close> by (auto simp: in_blk_def)
    from that(1) consider "y \<in> set cp" | "y \<in> set (?live us)" | "y \<in> set (?live vs)" by auto
    then show ?thesis
    proof cases
      case 2
      from live[OF this] A that(2) show ?thesis by blast
    next
      case 3
      from live[OF this] A that(3) show ?thesis by blast
    qed simp
  qed
  have "\<forall>y\<in>set (tl ?rest). i_op y \<noteq> IR_LABEL"
  proof (cases "?s < t \<and> \<not> ?dead ! ?s")
    case True
    then have "tl ?rest = ?live [Suc ?s..<t] @ cp @ ?live [t..<?e]" by (simp add: upt_conv_Cons live_insts_def)
    moreover have "i_op y \<noteq> IR_LABEL" if "y \<in> set (?live [Suc ?s..<t] @ cp @ ?live [t..<?e])" for y
      using src[OF that, of "{Suc ?s..<?e}"] True t cp[of y] label by fastforce
    ultimately show ?thesis by simp
  next
    case False
    have "i_op y \<noteq> IR_LABEL" if "y \<in> set ?rest" for y
    proof
      assume y: "i_op y = IR_LABEL"
      from src[OF that, of "{?s..<?e}"] t obtain i where i: "in_blk ?g b i" "y = ?mr ! i" "\<not> ?dead ! i"
        using cp[of y] y by fastforce
      with label y have "i = ?s" by blast
      with False i(3) t have st: "t = ?s" by auto
      with i \<open>i = ?s\<close> have "t = ?e - 1" "is_terminator (i_op (?mr ! ?s))"
        by (auto simp: t_def term_idx_def in_blk_def split: if_splits)
      with y i(2) \<open>i = ?s\<close> show False by (simp add: is_terminator_def)
    qed
    moreover have "set (tl ?rest) \<subseteq> set ?rest" by (cases ?rest) auto
    ultimately show ?thesis by blast
  qed
  with code mk show "\<exists>ms rest. m2r_code fn wd b = ms @ rest \<and> (\<forall>y\<in>set ms. i_op y = IR_DBG_VALUE) \<and>
      (\<forall>y\<in>set (tl rest). i_op y \<noteq> IR_LABEL)" by blast
qed

section \<open>The property\<close>

text \<open>Corresponding configurations.\<close>

definition conf_sim :: "ir_function \<Rightarrow> nat option \<times> (int \<Rightarrow> 'a) \<times> (nat \<Rightarrow> 'a option) \<times> 'm \<Rightarrow>
    nat option \<times> (int \<Rightarrow> 'a) \<times> 'm \<Rightarrow> bool" where
  "conf_sim fn = (\<lambda>(p, envs, mem, m) (p', envt, m').
     p = p' \<and> m = m' \<and> (\<forall>v. kept_id fn v \<longrightarrow> envs v = envt v) \<and>
     (\<forall>b. p = Some b \<longrightarrow> reachable (fn_cfg fn) b \<and>
        sim_at fn b (start_of (fn_cfg fn) b) (envs, mem, m, 0) (envt, m', 0)))"

lemma exit_conf:
  "exit_ok fn b (envs, mem, m, sel) (envt, m', sel') \<Longrightarrow> reachable (fn_cfg fn) b \<Longrightarrow> c \<in> set (succs_of (fn_cfg fn) b) \<Longrightarrow>
    conf_sim fn (Some c, envs, mem, m) (Some c, envt, m')"
  using reachable_succ by (auto simp: exit_ok_def conf_sim_def sim_at_def)

lemma step_sim:
  assumes ok: "m2r_input_ok fn" and ne: "m2r_slots fn \<noteq> []" and pn: "pin_neutral F fn"
    and st: "tgt_step F cv (fn_cfg fn) (m2r_code fn wd) C C'" and sim: "conf_sim fn S C"
  shows "\<exists>S'. src_step F cv (m2r_slots fn) (fn_cfg fn) (fn_insts fn) S S' \<and> conf_sim fn S' C'"
proof -
  obtain b envt m where C: "C = (Some b, envt, m)" using st by (auto elim!: tgt_stepE)
  obtain envs mem where S: "S = (Some b, envs, mem, m)" and b: "reachable (fn_cfg fn) b"
    and s: "sim_at fn b (start_of (fn_cfg fn) b) (envs, mem, m, 0) (envt, m, 0)"
    using sim unfolding C conf_sim_def by (cases S) auto
  from block_sim[OF ok ne pn b s, of cv wd] obtain S1 where
    S1: "src_run F cv (m2r_slots fn) (block_insts (fn_cfg fn) (fn_insts fn) b) (envs, mem, m, 0) S1"
    "exit_ok fn b S1 (plain_run F cv (m2r_code fn wd b) (envt, m, 0))" by blast
  obtain envs' mem' m1 sel where s1: "S1 = (envs', mem', m1, sel)" by (rule prod_cases4)
  obtain envt' m' sel' where t1: "plain_run F cv (m2r_code fn wd b) (envt, m, 0) = (envt', m', sel')" by (rule prod_cases3)
  have t2: "run_code F cv (m2r_code fn wd b) (envt, m, 0) = (envt', m', sel')"
    unfolding t1[symmetric] by (rule run_code_plain) (rule code_shape(2)[OF ne built.reachable_block[OF b]])
  have eq: "m1 = m'" "sel = sel'" and ag: "\<forall>v. kept_id fn v \<longrightarrow> envs' v = envt' v"
    using S1(2) by (auto simp: s1 t1 exit_ok_def)
  from tgt_step_result[OF st[unfolded C] t2] show ?thesis
  proof (elim disjE conjE)
    assume lt: "sel' < length (succs_of (fn_cfg fn) b)" and C': "C' = (Some (succs_of (fn_cfg fn) b ! sel'), envt', m')"
    have "src_step F cv (m2r_slots fn) (fn_cfg fn) (fn_insts fn) S (Some (succs_of (fn_cfg fn) b ! sel'), envs', mem', m')"
      unfolding S by (rule src_edge) (use S1(1) s1 eq lt in simp_all)
    moreover have "conf_sim fn (Some (succs_of (fn_cfg fn) b ! sel'), envs', mem', m') C'"
      using exit_conf[OF S1(2)[unfolded s1 t1] b nth_mem[OF lt]] eq(1) C' by simp
    ultimately show ?thesis by blast
  next
    assume e: "succs_of (fn_cfg fn) b = []" and C': "C' = (None, envt', m')"
    have "src_step F cv (m2r_slots fn) (fn_cfg fn) (fn_insts fn) S (None, envs', mem', m')"
      unfolding S by (rule src_exit[where sel = sel']) (use S1(1) s1 eq e in simp_all)
    moreover have "conf_sim fn (None, envs', mem', m') C'" using ag C' by (simp add: conf_sim_def)
    ultimately show ?thesis by blast
  qed
qed

lemma steps_sim:
  assumes "m2r_input_ok fn" "m2r_slots fn \<noteq> []" "pin_neutral F fn" "conf_sim fn S C"
  shows "(tgt_step F cv (fn_cfg fn) (m2r_code fn wd))\<^sup>*\<^sup>* C C' \<Longrightarrow>
    \<exists>S'. (src_step F cv (m2r_slots fn) (fn_cfg fn) (fn_insts fn))\<^sup>*\<^sup>* S S' \<and> conf_sim fn S' C'"
proof (induction rule: rtranclp_induct)
  case (step y z)
  then obtain S1 where "(src_step F cv (m2r_slots fn) (fn_cfg fn) (fn_insts fn))\<^sup>*\<^sup>* S S1" "conf_sim fn S1 y" by blast
  moreover from step_sim[OF assms(1-3) step(2) this(2)] obtain S2 where
    "src_step F cv (m2r_slots fn) (fn_cfg fn) (fn_insts fn) S1 S2" "conf_sim fn S2 z" by blast
  ultimately show ?case by (meson rtranclp.rtrancl_into_rtrancl)
qed (use assms in blast)

text \<open>
  C20.  Promotion returns, and what it returns refines the function.  The new instruction array is the
  code of the old blocks, one after the other.  The code of a block has the labels and terminators of
  the old block, a terminator only as its last instruction and a label only behind debug markers, so the
  blocks of the new array are where the old ones were.  Whatever the instructions compute from the
  values they read (by the table of operands), every run of that code from the entry, which leaves a
  block at its terminator, is a run of the original function along the same blocks, with the same memory
  and the same value of every id that is not a promoted slot.
\<close>

theorem opt_mem2reg_refines:
  assumes "m2r_input_ok fn" and "pin_neutral F fn" and "m2r_slots fn \<noteq> []"
  shows "\<exists>fn' code. opt_mem2reg True fn wd = Some (length (m2r_slots fn), fn') \<and>
    fn_insts fn' = concat (map code [0..<cfg_num (fn_cfg fn)]) \<and>
    (\<forall>b<cfg_num (fn_cfg fn). filter is_ctl (code b) = filter is_ctl (block_insts (fn_cfg fn) (fn_insts fn) b) \<and>
       (\<forall>x\<in>set (butlast (code b)). \<not> is_terminator (i_op x)) \<and>
       (\<exists>ms rest. code b = ms @ rest \<and> (\<forall>y\<in>set ms. i_op y = IR_DBG_VALUE) \<and> (\<forall>y\<in>set (tl rest). i_op y \<noteq> IR_LABEL))) \<and>
    (\<forall>p env' m'. (tgt_step F cv (fn_cfg fn) code)\<^sup>*\<^sup>* (Some (cfg_entry (fn_cfg fn)), env, m) (p, env', m') \<longrightarrow>
       (\<exists>envs mem. (src_step F cv (m2r_slots fn) (fn_cfg fn) (fn_insts fn))\<^sup>*\<^sup>*
            (Some (cfg_entry (fn_cfg fn)), env, \<lambda>_. None, m) (p, envs, mem, m') \<and>
          (\<forall>v. 0 \<le> v \<and> v < fn_next_value_id fn \<and> v \<notin> set (m2r_slots fn) \<longrightarrow> envs v = env' v)))"
proof -
  have ok: "m2r_ok fn" using assms(1) by (rule m2r_input_okD)
  then have sl: "m2r_slots fn = m2r_all_slots fn" by (simp add: m2r_slots_def)
  let ?fn' = "(m2r_meta fn)\<lparr>fn_insts := concat (map (m2r_code fn wd) [0..<cfg_num (fn_cfg fn)])\<rparr>"
  have "conf_sim fn (Some (cfg_entry (fn_cfg fn)), env, \<lambda>_. None, m) (Some (cfg_entry (fn_cfg fn)), env, m)"
    by (simp add: conf_sim_def sim_at_def)
  note sim = steps_sim[OF assms(1,3,2) this, of cv wd]
  have "\<exists>envs mem. (src_step F cv (m2r_slots fn) (fn_cfg fn) (fn_insts fn))\<^sup>*\<^sup>*
            (Some (cfg_entry (fn_cfg fn)), env, \<lambda>_. None, m) (p, envs, mem, m') \<and>
          (\<forall>v. 0 \<le> v \<and> v < fn_next_value_id fn \<and> v \<notin> set (m2r_slots fn) \<longrightarrow> envs v = env' v)"
    if "(tgt_step F cv (fn_cfg fn) (m2r_code fn wd))\<^sup>*\<^sup>* (Some (cfg_entry (fn_cfg fn)), env, m) (p, env', m')" for p env' m'
    using sim[OF that] unfolding conf_sim_def kept_id_def by auto
  moreover have "opt_mem2reg True fn wd = Some (length (m2r_slots fn), ?fn')"
    using opt_mem2reg_eq[OF ok, of wd] assms(3) sl by simp
  moreover note code_shape[where wd = wd, OF assms(3)]
  ultimately show ?thesis by (intro exI[of _ ?fn'] exI[of _ "m2r_code fn wd"]) simp
qed

text \<open>An example: a parameter kept in a slot, overwritten on one of two paths.\<close>

definition slot_fn :: ir_function where
  "slot_fn = \<lparr>fn_name = ''f'', fn_insts =
     [mk_inst IR_ALLOCA 0 (-1) (-1) 4 0, mk_inst IR_PARAM 1 (-1) (-1) 4 0,
      mk_inst IR_STORE (-1) 0 1 4 0, mk_inst IR_CBR (-1) 1 2 0 1,
      mk_inst IR_LABEL (-1) (-1) (-1) 0 1, mk_inst IR_CONST 2 (-1) (-1) 4 7,
      mk_inst IR_STORE (-1) 0 2 4 0, mk_inst IR_BR (-1) (-1) (-1) 0 2,
      mk_inst IR_LABEL (-1) (-1) (-1) 0 2, mk_inst IR_LOAD 3 0 (-1) 4 0,
      mk_inst IR_RETURN (-1) 3 (-1) 0 0],
     fn_next_value_id = 4, fn_next_label_id = 3, fn_ra = None, fn_ra_xmm = None,
     fn_value_width = replicate 8 4, fn_value_is_unsigned = replicate 8 0, fn_value_is_float = replicate 8 0,
     fn_dbg_vars = []\<rparr>"

lemma slot_fn_facts:
  "length (fn_insts slot_fn) = 11" "m2r_all_slots slot_fn = [0]" "m2r_ok slot_fn"
  "cfg_num (fn_cfg slot_fn) = 3"
  "map blk_start (cfg_blocks (fn_cfg slot_fn)) = [0, 4, 8]" "map blk_end (cfg_blocks (fn_cfg slot_fn)) = [4, 8, 11]"
  "pinned_slots slot_fn = [False, False, False, False]"
  by code_simp+

lemma slot_fn_slots: "m2r_slots slot_fn = [0]"
  using slot_fn_facts by (simp add: m2r_slots_def)

lemma slot_fn_checks:
  "\<forall>i\<in>set [0..<11]. 1 \<in> set (writes (fn_insts slot_fn ! i)) \<longrightarrow> i = 1"
  "\<forall>i\<in>set [0..<11]. 2 \<in> set (writes (fn_insts slot_fn ! i)) \<longrightarrow> i = 5"
  "\<forall>j\<in>set [0..<11]. i_op (fn_insts slot_fn ! j) = IR_STORE \<longrightarrow> j = 2 \<and> i_b (fn_insts slot_fn ! j) = 1 \<or> j = 6 \<and> i_b (fn_insts slot_fn ! j) = 2"
  "\<forall>x\<in>set (fn_insts slot_fn). inst_ids_ok slot_fn x"
  by code_simp+

lemma slot_fn_blocks:
  assumes "reachable (fn_cfg slot_fn) b" "in_blk (fn_cfg slot_fn) b i"
  shows "b = 0 \<and> i < 4 \<or> b = 1 \<and> 4 \<le> i \<and> i < 8 \<or> b = 2 \<and> 8 \<le> i \<and> i < 11"
proof -
  have b: "b < 3" using built.reachable_block[OF assms(1)] slot_fn_facts(4) by simp
  then have l: "length (cfg_blocks (fn_cfg slot_fn)) = 3" using arg_cong[OF slot_fn_facts(5), of length] by simp
  have "start_of (fn_cfg slot_fn) b = [0, 4, 8] ! b" "end_of (fn_cfg slot_fn) b = [4, 8, 11] ! b"
    using b l by (simp_all flip: slot_fn_facts(5,6))
  moreover have "b = 0 \<or> b = 1 \<or> b = 2" using b by linarith
  ultimately show ?thesis using assms(2) by (elim disjE) (simp_all add: in_blk_def)
qed

lemma slot_fn_stored: "stored_defs_dominate slot_fn"
proof -
  have "b = c \<and> i < j"
    if b: "reachable (fn_cfg slot_fn) b" "in_blk (fn_cfg slot_fn) b i" and c: "reachable (fn_cfg slot_fn) c" "in_blk (fn_cfg slot_fn) c j"
      and st: "stores_to (m2r_insts slot_fn) (m2r_slots slot_fn) ai j" and w: "i_b (fn_insts slot_fn ! j) \<in> set (writes (fn_insts slot_fn ! i))"
    for b c i j ai
  proof -
    have B: "b = 0 \<and> i < 4 \<or> b = 1 \<and> 4 \<le> i \<and> i < 8 \<or> b = 2 \<and> 8 \<le> i \<and> i < 11" using b by (rule slot_fn_blocks)
    have C: "c = 0 \<and> j < 4 \<or> c = 1 \<and> 4 \<le> j \<and> j < 8 \<or> c = 2 \<and> 8 \<le> j \<and> j < 11" using c by (rule slot_fn_blocks)
    have ij: "i \<in> set [0..<11]" "j \<in> set [0..<11]" using B C by auto
    have "i_op (fn_insts slot_fn ! j) = IR_STORE" using st ij(2) slot_fn_facts(1) by (simp add: stores_to_def m2r_nth)
    then have "j = 2 \<and> i_b (fn_insts slot_fn ! j) = 1 \<or> j = 6 \<and> i_b (fn_insts slot_fn ! j) = 2"
      using slot_fn_checks(3) ij(2) by blast
    then have "j = 2 \<and> i = 1 \<or> j = 6 \<and> i = 5"
      using w slot_fn_checks(1,2) ij(1) by (elim disjE conjE) simp_all
    then show ?thesis using B C by linarith
  qed
  then show ?thesis unfolding stored_defs_dominate_def by blast
qed

lemma slot_fn_ok: "m2r_input_ok slot_fn"
  using slot_fn_facts(3) slot_fn_checks(4) slot_fn_stored by (simp add: m2r_input_ok_def slot_fn_def)

lemma opt_mem2reg_witness:
  defines "F \<equiv> (\<lambda>x m vs. (m, \<lambda>_. sum_list vs + i_imm x, 0)) :: (64 word, nat) inst_sem"
  shows "\<exists>fn' code. opt_mem2reg True slot_fn False = Some (1, fn') \<and>
    fn_insts fn' = concat (map code [0..<3]) \<and>
    (\<forall>x\<in>set (butlast (code 1)). \<not> is_terminator (i_op x)) \<and>
    (\<forall>p env' m'. (tgt_step F i_imm (fn_cfg slot_fn) code)\<^sup>*\<^sup>* (Some (cfg_entry (fn_cfg slot_fn)), \<lambda>_. 0, 0) (p, env', m') \<longrightarrow>
       (\<exists>envs mem. (src_step F i_imm [0] (fn_cfg slot_fn) (fn_insts slot_fn))\<^sup>*\<^sup>*
            (Some (cfg_entry (fn_cfg slot_fn)), \<lambda>_. 0, \<lambda>_. None, 0) (p, envs, mem, m') \<and>
          (\<forall>v. 0 \<le> v \<and> v < 4 \<and> v \<notin> {0} \<longrightarrow> envs v = env' v)))"
proof -
  have "pin_neutral F slot_fn" by (simp add: pin_neutral_def F_def pin_bytes_def Let_def fun_eq_iff)
  from opt_mem2reg_refines[OF slot_fn_ok this, of False i_imm "\<lambda>_. 0" 0, unfolded slot_fn_slots slot_fn_facts(4)]
  obtain fn' code where R: "opt_mem2reg True slot_fn False = Some (length [0 :: int], fn')"
    "fn_insts fn' = concat (map code [0..<3])" "\<forall>b<3. (\<forall>x\<in>set (butlast (code b)). \<not> is_terminator (i_op x))"
    "\<forall>p env' m'. (tgt_step F i_imm (fn_cfg slot_fn) code)\<^sup>*\<^sup>* (Some (cfg_entry (fn_cfg slot_fn)), \<lambda>_. 0, 0) (p, env', m') \<longrightarrow>
       (\<exists>envs mem. (src_step F i_imm [0] (fn_cfg slot_fn) (fn_insts slot_fn))\<^sup>*\<^sup>*
            (Some (cfg_entry (fn_cfg slot_fn)), \<lambda>_. 0, \<lambda>_. None, 0) (p, envs, mem, m') \<and>
          (\<forall>v. 0 \<le> v \<and> v < fn_next_value_id slot_fn \<and> v \<notin> set [0] \<longrightarrow> envs v = env' v))" by auto
  have "\<forall>x\<in>set (butlast (code 1)). \<not> is_terminator (i_op x)" using R(3)[rule_format, of 1] by simp
  with R show ?thesis
    by (intro exI[of _ fn'] exI[of _ code]) (simp add: slot_fn_def[THEN arg_cong[where f = fn_next_value_id]])
qed

end
