(* ===== verification/Opt.thy ===== *)
theory Opt
  imports ScalarOpt RegAlloc PromoteSound
begin

text \<open>
  \<open>src/opt.c\<close>: the optimisation pipeline of a module.  Every function is promoted (or, at level 0, its
  scalars get stack slots), cleaned up and allocated.  Under \<open>-g\<close> the debug markers are taken out of
  the code before allocation and put back at the same places afterwards, so that the allocator never
  sees them.

  The module is its list of functions, the only part the pass touches; the reservation of the
  variadic scratch register, a static variable of \<open>src/regalloc.c\<close>, is a field of the target.
\<close>

section \<open>The code\<close>

definition pin_scalar_alloca :: "ir_inst \<Rightarrow> ir_inst" where
  "pin_scalar_alloca inst =
     (if i_op inst \<noteq> IR_ALLOCA then inst
      else if 0 < i_alloca_bytes inst then inst
      else let w = (if 0 < i_width inst then i_width inst else 4);
               inst1 = inst\<lparr>i_alloca_bytes := w\<rparr>
           in if i_alloca_bytes inst1 < 1 then inst1\<lparr>i_alloca_bytes := 8\<rparr> else inst1)"

definition pin_scalar_allocas :: "ir_function \<Rightarrow> ir_function" where
  "pin_scalar_allocas fn = fn\<lparr>fn_insts := map pin_scalar_alloca (fn_insts fn)\<rparr>"

record extracted_marker =
  em_var :: int
  em_value :: int
  em_pos :: nat

text \<open>The loop keeps the instructions written back so far, the markers and \<open>pos\<close>.\<close>

definition extract_step :: "ir_inst \<Rightarrow> ir_inst list \<times> extracted_marker list \<times> nat \<Rightarrow>
    ir_inst list \<times> extracted_marker list \<times> nat" where
  "extract_step inst = (\<lambda>(kept, ms, pos).
     if i_op inst \<noteq> IR_DBG_VALUE then (kept @ [inst], ms, pos + 1)
     else (kept, ms @ [\<lparr>em_var = imm_int (i_imm inst), em_value = i_a inst, em_pos = pos\<rparr>], pos))"

definition extract_markers :: "ir_function \<Rightarrow> ir_function \<times> extracted_marker list" where
  "extract_markers fn =
     (case fold extract_step (fn_insts fn) ([], [], 0) of
        (kept, ms, pos) \<Rightarrow> (fn\<lparr>fn_insts := kept\<rparr>, ms))"

definition marker_inst :: "extracted_marker \<Rightarrow> ir_inst" where
  "marker_inst mk = zero_inst\<lparr>i_op := IR_DBG_VALUE, i_dst := -1, i_imm := int_imm (em_var mk), i_a := em_value mk\<rparr>"

text \<open>\<open>while (mi < nmarkers && markers[mi].pos == real)\<close>; the markers not yet inserted are a list.\<close>

fun emit_markers :: "nat \<Rightarrow> extracted_marker list \<Rightarrow> ir_inst list \<times> extracted_marker list" where
  "emit_markers real [] = ([], [])"
| "emit_markers real (mk # ms) =
     (if em_pos mk = real
      then (case emit_markers real ms of (out, rest) \<Rightarrow> (marker_inst mk # out, rest))
      else ([], mk # ms))"

definition reinsert_step :: "ir_inst \<Rightarrow> ir_inst list \<times> extracted_marker list \<times> nat \<Rightarrow>
    ir_inst list \<times> extracted_marker list \<times> nat" where
  "reinsert_step inst = (\<lambda>(out, ms, real).
     case emit_markers real ms of (new, rest) \<Rightarrow> (out @ new @ [inst], rest, real + 1))"

definition reinsert_markers :: "ir_function \<Rightarrow> extracted_marker list \<Rightarrow> ir_function" where
  "reinsert_markers fn markers =
     (case fold reinsert_step (fn_insts fn) ([], markers, 0) of
        (out, ms, real) \<Rightarrow> fn\<lparr>fn_insts := out @ fst (emit_markers real ms)\<rparr>)"

text \<open>
  The body of the loop over the functions.  \<open>None\<close> is a run that does not return.
\<close>

definition alloc_function :: "ra_target \<Rightarrow> ir_function \<Rightarrow> ir_function option" where
  "alloc_function t fn =
     (case reg_alloc t fn of
        None \<Rightarrow> None
      | Some gp \<Rightarrow>
          let fn1 = fn\<lparr>fn_ra := gp\<rparr>
          in case reg_alloc_xmm t fn1 of
               None \<Rightarrow> None
             | Some xm \<Rightarrow> Some (fn1\<lparr>fn_ra_xmm := xm\<rparr>))"

definition opt_function :: "bool \<Rightarrow> ra_target \<Rightarrow> int \<Rightarrow> bool \<Rightarrow> ir_function \<Rightarrow> ir_function option" where
  "opt_function calloc_ok t opt_level want_debug fn =
     (case (if opt_level = 0 then Some (pin_scalar_allocas fn)
            else map_option snd (opt_mem2reg calloc_ok fn want_debug)) of
        None \<Rightarrow> None
      | Some fn1 \<Rightarrow>
          if want_debug then
            let (fn2, markers) = extract_markers (scalar_cleanup fn1)
            in case alloc_function t fn2 of
                 None \<Rightarrow> None
               | Some fn3 \<Rightarrow> Some (if 0 < length markers then reinsert_markers fn3 markers else fn3)
          else alloc_function t (scalar_cleanup fn1))"

primrec opt_functions :: "bool \<Rightarrow> ra_target \<Rightarrow> int \<Rightarrow> bool \<Rightarrow> ir_function list \<Rightarrow> ir_function list option" where
  "opt_functions calloc_ok t opt_level want_debug [] = Some []"
| "opt_functions calloc_ok t opt_level want_debug (fn # fns) =
     (case opt_function calloc_ok t opt_level want_debug fn of
        None \<Rightarrow> None
      | Some fn' \<Rightarrow> map_option ((#) fn') (opt_functions calloc_ok t opt_level want_debug fns))"

definition opt :: "bool \<Rightarrow> ra_target \<Rightarrow> ir_function list \<Rightarrow> int \<Rightarrow> bool \<Rightarrow> ir_function list option" where
  "opt calloc_ok t fns opt_level want_debug =
     opt_functions calloc_ok (t\<lparr>tg_reserve_va_scratch := 0 < opt_level\<rparr>) opt_level want_debug fns"

section \<open>Markers\<close>

definition is_marker :: "ir_inst \<Rightarrow> bool" where
  "is_marker inst \<longleftrightarrow> i_op inst = IR_DBG_VALUE"

abbreviation real_insts :: "ir_inst list \<Rightarrow> ir_inst list" where
  "real_insts insts \<equiv> filter (\<lambda>x. \<not> is_marker x) insts"

text \<open>What the extraction remembers of a marker.\<close>

definition norm_marker :: "ir_inst \<Rightarrow> ir_inst" where
  "norm_marker inst =
     (if is_marker inst
      then zero_inst\<lparr>i_op := IR_DBG_VALUE, i_dst := -1, i_imm := int_imm (imm_int (i_imm inst)), i_a := i_a inst\<rparr>
      else inst)"

fun markers_from :: "nat \<Rightarrow> ir_inst list \<Rightarrow> extracted_marker list" where
  "markers_from pos [] = []"
| "markers_from pos (x # xs) =
     (if is_marker x then \<lparr>em_var = imm_int (i_imm x), em_value = i_a x, em_pos = pos\<rparr> # markers_from pos xs
      else markers_from (Suc pos) xs)"

lemma extract_fold:
  "fold extract_step xs (kept, ms, pos) =
     (kept @ real_insts xs, ms @ markers_from pos xs, pos + length (real_insts xs))"
  by (induction xs arbitrary: kept ms pos) (simp_all add: extract_step_def is_marker_def)

lemma extract_markers_eq:
  "extract_markers fn = (fn\<lparr>fn_insts := real_insts (fn_insts fn)\<rparr>, markers_from 0 (fn_insts fn))"
  by (simp add: extract_markers_def extract_fold)

lemma markers_from_pos: "mk \<in> set (markers_from pos xs) \<Longrightarrow> pos \<le> em_pos mk"
  by (induction xs arbitrary: pos) (auto split: if_splits dest: Suc_leD)

lemma emit_none: "(\<And>mk. mk \<in> set ms \<Longrightarrow> real < em_pos mk) \<Longrightarrow> emit_markers real ms = ([], ms)"
  by (cases ms) (force simp: )+

text \<open>The markers in front of the next real instruction.\<close>

lemma emit_front:
  "emit_markers pos (markers_from pos xs) =
     (map norm_marker (takeWhile is_marker xs), markers_from pos (dropWhile is_marker xs))"
proof (induction xs)
  case (Cons x xs)
  show ?case
  proof (cases "is_marker x")
    case True
    then show ?thesis using Cons by (simp add: marker_inst_def norm_marker_def)
  next
    case False
    have "emit_markers pos (markers_from (Suc pos) xs) = ([], markers_from (Suc pos) xs)"
      by (rule emit_none) (drule markers_from_pos, simp)
    then show ?thesis using False by simp
  qed
qed simp

lemma reinsert_fold:
  "fold reinsert_step (real_insts xs) (out, markers_from pos xs, pos) =
     (out', ms', real) \<Longrightarrow> out' @ fst (emit_markers real ms') = out @ map norm_marker xs"
proof (induction "real_insts xs" arbitrary: xs out pos)
  case Nil
  then have "\<forall>x\<in>set xs. is_marker x" by (auto simp: filter_empty_conv dest: sym)
  then have t: "takeWhile is_marker xs = xs" by (simp add: takeWhile_eq_all_conv)
  have "(out', ms', real) = (out, markers_from pos xs, pos)" using Nil by (metis fold_Nil id_apply)
  then show ?case using emit_front[of pos xs] t by simp
next
  case (Cons y ys)
  define us vs where "us = takeWhile is_marker xs" and "vs = dropWhile is_marker xs"
  have xs: "xs = us @ vs" by (simp add: us_def vs_def)
  have u: "\<forall>x\<in>set us. is_marker x" by (auto simp: us_def dest: set_takeWhileD)
  then have "real_insts us = []" by (simp add: filter_empty_conv)
  then have rv: "real_insts vs = y # ys" using Cons.hyps(2) by (simp add: xs)
  then obtain z zs where vs: "vs = z # zs" by (cases vs) auto
  have "\<not> is_marker z" using vs by (metis hd_dropWhile list.distinct(1) list.sel(1) vs_def)
  then have z: "z = y" "real_insts zs = ys" "norm_marker z = y" using rv by (simp_all add: vs norm_marker_def)
  have e: "emit_markers pos (markers_from pos xs) = (map norm_marker us, markers_from (Suc pos) zs)"
    unfolding emit_front us_def[symmetric] vs_def[symmetric] using \<open>\<not> is_marker z\<close> by (simp add: vs)
  have "fold reinsert_step (real_insts xs) (out, markers_from pos xs, pos) =
      fold reinsert_step (real_insts zs) (out @ map norm_marker us @ [y], markers_from (Suc pos) zs, Suc pos)"
    unfolding Cons.hyps(2)[symmetric] using z(2) by (simp add: reinsert_step_def e)
  from Cons.hyps(1)[OF z(2)[symmetric], of "out @ map norm_marker us @ [y]" "Suc pos"] Cons.prems this
  show ?case using z by (simp add: xs vs)
qed

text \<open>
  C25.  Putting the markers back undoes taking them out: the instructions are the same in the same
  order, and of a marker only what it records, the variable and the value, is kept.
\<close>

theorem markers_roundtrip:
  "(case extract_markers fn of (fn', markers) \<Rightarrow>
      reinsert_markers (fn'\<lparr>fn_ra := gp, fn_ra_xmm := xm\<rparr>) markers =
      fn\<lparr>fn_insts := map norm_marker (fn_insts fn), fn_ra := gp, fn_ra_xmm := xm\<rparr>)"
proof -
  obtain out ms real where f: "fold reinsert_step (real_insts (fn_insts fn)) ([], markers_from 0 (fn_insts fn), 0) = (out, ms, real)"
    by (rule prod_cases3)
  from reinsert_fold[OF this] show ?thesis
    by (simp add: extract_markers_eq reinsert_markers_def f)
qed

section \<open>The allocation fields do not influence the allocation\<close>

definition same_code :: "ir_function \<Rightarrow> ir_function \<Rightarrow> bool" where
  "same_code fn fn' \<longleftrightarrow> fn_insts fn' = fn_insts fn \<and> fn_next_value_id fn' = fn_next_value_id fn \<and>
     fn_value_width fn' = fn_value_width fn \<and> fn_value_is_float fn' = fn_value_is_float fn"

lemma same_code_sym: "same_code fn fn' \<Longrightarrow> same_code fn' fn"
  by (simp add: same_code_def)

lemma same_defs:
  assumes "same_code fn fn'"
  shows "has_def fn' = has_def fn" "def_inst fn' = def_inst fn" "def_op_is fn' = def_op_is fn"
  using assms by (simp_all add: fun_eq_iff has_def_def def_inst_def def_op_is_def same_code_def)

lemma same_stack_base: "same_code fn fn' \<Longrightarrow> ra_is_stack_base fn' def v depth = ra_is_stack_base fn def v depth"
proof (induction fn def v depth rule: ra_is_stack_base.induct)
  case (1 fn def v depth)
  then show ?case
    by (subst (1 2) ra_is_stack_base.simps) (simp add: same_defs[OF 1(3)] Let_def)
qed

lemma same_ok_index: "same_code fn fn' \<Longrightarrow> ra_ok_index_loop fn' def v depth = ra_ok_index_loop fn def v depth"
proof (induction fn def v depth rule: ra_ok_index_loop.induct)
  case (1 fn def v depth)
  then show ?case
    by (subst (1 2) ra_ok_index_loop.simps) (simp add: same_defs[OF 1(2)] Let_def)
qed

lemma same_peel: "same_code fn fn' \<Longrightarrow> peel_const_adds k fn' def v = peel_const_adds k fn def v"
  by (induction k fn def v rule: peel_const_adds.induct) (simp_all add: same_defs Let_def)

lemma same_uses:
  assumes "same_code fn fn'"
  shows "inst_uses nv fn' def x = inst_uses nv fn def x"
proof -
  note D = same_defs[OF assms]
  have "ra_push_idx fn' = ra_push_idx fn" "ra_ok_index fn' = ra_ok_index fn" "ra_is_gaddr fn' = ra_is_gaddr fn"
    by (simp_all only: fun_eq_iff ra_push_idx_def ra_ok_index_def ra_is_gaddr_def D same_ok_index[OF assms] simp_thms)
  then show ?thesis
    by (simp only: inst_uses_def folded_uses_def addr_fold_extras_def D same_stack_base[OF assms] same_peel[OF assms])
qed

lemma same_live_from:
  assumes "same_code fn fn'" "live_from nv fn def g b k v"
  shows "live_from nv fn' def g b k v"
proof -
  have i: "fn_insts fn' = fn_insts fn" using assms(1) by (simp add: same_code_def)
  from assms(2) show ?thesis
  proof (induction rule: live_from.induct)
    case (live_use k b v)
    have "v \<in> set (inst_uses nv fn' def (fn_insts fn' ! k))"
      using live_use.hyps(2) unfolding same_uses[OF assms(1)] i .
    with live_use.hyps(1) show ?case by (rule live_from.live_use)
  next
    case (live_skip k b v)
    have "v \<notin> set (inst_defs nv (fn_insts fn' ! k))" using live_skip.hyps(2) unfolding i .
    from live_skip.hyps(1) this live_skip.IH show ?case by (rule live_from.live_skip)
  next
    case (live_edge b k s v)
    from live_edge.hyps(1,2) live_edge.IH show ?case by (rule live_from.live_edge)
  qed
qed

lemma same_live:
  assumes "same_code fn fn'"
  shows "fn_live fn' = fn_live fn"
proof -
  have d: "ra_build_defs fn' = ra_build_defs fn" "fn_insts fn' = fn_insts fn" "fn_next_value_id fn' = fn_next_value_id fn"
    using assms by (simp_all add: ra_build_defs_def same_code_def)
  show ?thesis
    using same_live_from[OF assms] same_live_from[OF same_code_sym[OF assms]] by (auto simp: fun_eq_iff fn_live_def d)
qed

lemma same_alloc_ok:
  assumes "same_code fn fn'" "alloc_ok fn fc cls r"
  shows "alloc_ok fn' fc cls r"
proof -
  have "in_cls fn' fc cls = in_cls fn fc cls" "fn_nv fn' = fn_nv fn" "in_block fn' = in_block fn" "fn_insts fn' = fn_insts fn"
    using assms(1)
    by (simp_all add: fun_eq_iff same_code_def in_cls_def value_in_class_def value_is_float_class_def value_is_ld_def
        fn_value_meta_cap_def fn_nv_def in_block_def)
  moreover have "fn_clash fn' = fn_clash fn"
  proof (intro ext)
    fix b k u v
    show "fn_clash fn' b k u v = fn_clash fn b k u v"
      using assms(1) unfolding fn_clash_def same_live[OF assms(1)] by (simp add: same_code_def)
  qed
  ultimately show ?thesis using assms(2) same_live[OF assms(1)] by (simp only: alloc_ok_def)
qed

section \<open>Well-formed code stays well-formed\<close>

lemma wf_rewrites [simp]: "ir_wf (set_const v x)" "ir_wf (set_copy a x)" "ir_wf (set_neg a x)"
  by (simp_all add: ir_wf_def set_const_def set_copy_def set_neg_def ir_op_with_overflow_def)

lemma wf_scalar:
  assumes "ir_wf x"
  shows "ir_wf (fst (constfold_inst cc x))" "ir_wf (fst (peephole_inst cc x))"
  using assms by (auto simp: constfold_inst_def peephole_inst_def Let_def split: option.splits)

lemma wf_rn_inst: "ir_wf x \<Longrightarrow> ir_wf (rn_inst mp x)"
proof -
  have n: "v < 0 \<Longrightarrow> rn_map mp v < 0" for v by (simp add: rn_map_def)
  show "ir_wf x \<Longrightarrow> ir_wf (rn_inst mp x)"
    by (cases "i_op x") (auto simp: ir_wf_def rn_inst_def Let_def n ir_op_with_overflow_def)
qed

lemma wf_cleanup_step: "ir_code_wf fn \<Longrightarrow> ir_code_wf (fst (cleanup_step fn))"
  using wf_scalar
  by (auto simp: cleanup_step_def scalar_constfold_def scalar_peephole_def scalar_dce_def Let_def ir_code_wf_def
      list_all_iff split: prod.splits)

lemma wf_scalar_cleanup: "ir_code_wf fn \<Longrightarrow> ir_code_wf (scalar_cleanup fn)"
proof -
  have loop: "ir_code_wf fn \<Longrightarrow> ir_code_wf (cleanup_loop fn)"
  proof (induction fn rule: cleanup_loop.induct)
    case (1 fn)
    then show ?case using wf_cleanup_step[OF 1(2)]
      by (subst cleanup_loop.simps) (auto split: prod.split)
  qed
  have rn: "ir_code_wf fn \<Longrightarrow> ir_code_wf (scalar_renumber fn)" for fn
    using wf_rn_inst by (auto simp: scalar_renumber_def Let_def ir_code_wf_def list_all_iff split: prod.split)
  show "ir_code_wf fn \<Longrightarrow> ir_code_wf (scalar_cleanup fn)" unfolding scalar_cleanup_def by (intro rn loop)
qed

lemma wf_pin: "ir_wf x \<Longrightarrow> ir_wf (pin_scalar_alloca x)" "ir_wf x \<Longrightarrow> ir_wf (pin_bytes p x)"
  by (cases "i_op x = IR_ALLOCA"; simp add: ir_wf_def pin_scalar_alloca_def pin_bytes_def Let_def)+

lemma wf_markers: "ir_wf (make_dbg_value x var v)"
  by (simp add: ir_wf_def make_dbg_value_def ir_op_with_overflow_def)

lemma wf_ren_spec: "ir_wf x \<Longrightarrow> ir_wf (ren_spec wd dbg slots V x)"
  by (auto simp: ren_spec_def rename_load_def wf_markers split: option.split)
    (auto simp: ir_wf_def ir_op_with_overflow_def)

lemma wf_phi_copy: "ir_wf (phi_copy fn phi v)"
  by (simp add: phi_copy_def Let_def ir_wf_def ir_op_with_overflow_def zero_inst_def)

lemma wf_m2r_code:
  assumes wf: "ir_code_wf fn" and ne: "m2r_slots fn \<noteq> []" and b: "b < cfg_num (fn_cfg fn)"
  shows "list_all ir_wf (m2r_code fn wd b)"
proof -
  let ?st = "m2r_state fn wd"
  let ?t = "term_idx (mr_insts ?st) (cfg_blocks (fn_cfg fn) ! b)"
  have mr: "ir_wf (mr_insts ?st ! i)" if i: "in_blk (fn_cfg fn) b i" for i
  proof -
    have "i < length (fn_insts fn)" using i built_block_range[OF b] by (auto simp: in_blk_def)
    then have "ir_wf (pin_bytes (pinned_slots fn) (fn_insts fn ! i))" using ir_code_wfD[OF wf] wf_pin(2) by blast
    then show ?thesis using renamed_inst[OF ne b i, of wd] wf_ren_spec by metis
  qed
  have "start_of (fn_cfg fn) b \<le> ?t \<and> ?t \<le> end_of (fn_cfg fn) b"
    using built_block_range[OF b] by (auto simp: term_idx_def)
  then have "ir_wf x" if "x \<in> set (live_insts (mr_insts ?st) (mr_dead ?st) [start_of (fn_cfg fn) b..<?t]) \<or>
      x \<in> set (live_insts (mr_insts ?st) (mr_dead ?st) [?t..<end_of (fn_cfg fn) b])" for x
    using that mr by (auto simp: live_insts_def in_blk_def)
  then show ?thesis
    using wf_phi_copy wf_markers
    by (auto simp: m2r_code_def wb_block_def Let_def list_all_iff phi_copies_def phi_markers_def
        split: option.splits if_splits)
qed

text \<open>The function the allocator receives, before its markers are taken out.\<close>

definition opt_prepared :: "int \<Rightarrow> bool \<Rightarrow> ir_function \<Rightarrow> ir_function" where
  "opt_prepared opt_level want_debug fn =
     scalar_cleanup (if opt_level = 0 then pin_scalar_allocas fn else snd (the (opt_mem2reg True fn want_debug)))"

lemma wf_prepared:
  assumes "ir_code_wf fn" "opt_level \<noteq> 0 \<Longrightarrow> m2r_ok fn"
  shows "ir_code_wf (opt_prepared opt_level want_debug fn)"
proof (cases "opt_level = 0")
  case True
  have "ir_code_wf (pin_scalar_allocas fn)"
    using assms(1) wf_pin(1) by (simp add: pin_scalar_allocas_def ir_code_wf_def list_all_iff)
  then show ?thesis using True by (simp add: opt_prepared_def wf_scalar_cleanup)
next
  case False
  with assms(2) have ok: "m2r_ok fn" by simp
  then have sl: "m2r_slots fn = m2r_all_slots fn" by (simp add: m2r_slots_def)
  have "ir_code_wf (snd (the (opt_mem2reg True fn want_debug)))"
  proof (cases "m2r_all_slots fn = []")
    case True
    then show ?thesis
      using opt_mem2reg_eq[OF ok, of want_debug] assms(1) wf_pin(2) by (simp add: ir_code_wf_def m2r_insts_def list_all_iff)
  next
    case ne: False
    from wf_m2r_code[OF assms(1), of _ want_debug] ne sl
    show ?thesis using opt_mem2reg_eq[OF ok, of want_debug] by (simp add: ir_code_wf_def list_all_iff)
  qed
  then show ?thesis using False by (simp add: opt_prepared_def wf_scalar_cleanup)
qed

section \<open>The pipeline\<close>

lemma alloc_function_ok:
  obtains gp xm where "alloc_function t fn = Some (fn\<lparr>fn_ra := gp, fn_ra_xmm := xm\<rparr>)"
    "\<And>fn'. same_code fn fn' \<Longrightarrow> ir_code_wf fn' \<Longrightarrow> homes_sound t fn' (home_of gp xm)"
    "\<And>v r. v < fn_nv fn \<Longrightarrow> home_of gp xm v = GpReg r \<Longrightarrow> r \<in> set (rc_regs (rc_gp (ra_classes_current t)))"
proof -
  obtain gp where gp: "reg_alloc t fn = Some gp" "alloc_ok fn False (rc_gp (ra_classes_current t)) gp"
    using both_allocs_ok by blast
  let ?f = "fn\<lparr>fn_ra := gp\<rparr>"
  obtain xm where xm: "reg_alloc_xmm t ?f = Some xm" "alloc_ok ?f True (rc_simd (ra_classes_current t)) xm"
    using both_allocs_ok by blast
  have "alloc_function t fn = Some (fn\<lparr>fn_ra := gp, fn_ra_xmm := xm\<rparr>)"
    using gp(1) xm(1) by (simp add: alloc_function_def)
  moreover have "homes_sound t fn' (home_of gp xm)" if "same_code fn fn'" "ir_code_wf fn'" for fn'
  proof -
    have "same_code ?f fn'" using that(1) by (simp add: same_code_def)
    from alloc_homes_ok[OF same_alloc_ok[OF that(1) gp(2)] same_alloc_ok[OF this xm(2)]] that(2) show ?thesis
      by (rule homes_ok_sound)
  qed
  moreover have "r \<in> set (rc_regs (rc_gp (ra_classes_current t)))" if "v < fn_nv fn" "home_of gp xm v = GpReg r" for v r
    using alloc_okD(2)[OF gp(2) that(1)] that(2) by (auto simp: home_of_def split: option.splits sum.splits)
  ultimately show thesis using that by blast
qed

text \<open>The code without markers, which is what is executed.\<close>

definition without_markers :: "ir_function \<Rightarrow> ir_function" where
  "without_markers fn = fn\<lparr>fn_insts := real_insts (fn_insts fn)\<rparr>"

definition fn_homes :: "ir_function \<Rightarrow> nat \<Rightarrow> home" where
  "fn_homes fn = home_of (fn_ra fn) (fn_ra_xmm fn)"

definition opt_code :: "bool \<Rightarrow> ir_function \<Rightarrow> ir_function" where
  "opt_code want_debug fn' = (if want_debug then without_markers fn' else fn')"

text \<open>What is claimed of the result \<open>fn'\<close> of a function \<open>fn\<close>.\<close>

definition opt_result_ok :: "ra_target \<Rightarrow> int \<Rightarrow> bool \<Rightarrow> ir_function \<Rightarrow> ir_function \<Rightarrow> bool" where
  "opt_result_ok t opt_level want_debug fn fn' \<longleftrightarrow>
     fn_insts fn' = (if want_debug then map norm_marker (fn_insts (opt_prepared opt_level want_debug fn))
                     else fn_insts (opt_prepared opt_level want_debug fn)) \<and>
     (ir_code_wf fn \<longrightarrow> ir_code_wf (opt_code want_debug fn') \<and> homes_sound t (opt_code want_debug fn') (fn_homes fn')) \<and>
     (\<forall>v<fn_nv fn'. \<forall>r. fn_homes fn' v = GpReg r \<longrightarrow> r \<in> set (rc_regs (rc_gp (ra_classes_current t))))"

lemma opt_mem2reg_some: "m2r_ok fn \<Longrightarrow> \<exists>n fn'. opt_mem2reg True fn wd = Some (n, fn')"
  by (auto simp: opt_mem2reg_eq)

lemma real_norm: "real_insts (map norm_marker xs) = real_insts xs"
  by (induction xs) (auto simp: norm_marker_def is_marker_def)

lemma no_markers: "markers_from pos xs = [] \<Longrightarrow> real_insts xs = xs \<and> map norm_marker xs = xs"
  by (induction xs arbitrary: pos) (auto simp: norm_marker_def split: if_splits)

lemma opt_function_ok:
  assumes "opt_level \<noteq> 0 \<Longrightarrow> m2r_ok fn"
  shows "\<exists>fn'. opt_function True t opt_level want_debug fn = Some fn' \<and>
    opt_result_ok t opt_level want_debug fn fn'"
proof -
  define p where "p = opt_prepared opt_level want_debug fn"
  have wf: "ir_code_wf p" if "ir_code_wf fn" using wf_prepared[OF that assms] by (simp add: p_def)
  obtain fn1 where fn1: "(if opt_level = 0 then Some (pin_scalar_allocas fn)
      else map_option snd (opt_mem2reg True fn want_debug)) = Some fn1" "p = scalar_cleanup fn1"
    using assms opt_mem2reg_some[of fn want_debug] unfolding p_def opt_prepared_def by (cases "opt_level = 0") force+
  show ?thesis
  proof (cases want_debug)
    case False
    obtain gp xm where a: "alloc_function t p = Some (p\<lparr>fn_ra := gp, fn_ra_xmm := xm\<rparr>)"
      "\<And>fn'. same_code p fn' \<Longrightarrow> ir_code_wf fn' \<Longrightarrow> homes_sound t fn' (home_of gp xm)"
      "\<And>v r. v < fn_nv p \<Longrightarrow> home_of gp xm v = GpReg r \<Longrightarrow> r \<in> set (rc_regs (rc_gp (ra_classes_current t)))" using alloc_function_ok[of t p] by metis
    let ?r = "p\<lparr>fn_ra := gp, fn_ra_xmm := xm\<rparr>"
    have "ir_code_wf ?r" if "ir_code_wf fn" using wf[OF that] by (simp add: ir_code_wf_def)
    then have "opt_result_ok t opt_level want_debug fn ?r"
      using False a(2,3) unfolding opt_result_ok_def p_def[symmetric]
      by (simp add: opt_code_def fn_homes_def same_code_def fn_nv_def)
    moreover have "opt_function True t opt_level want_debug fn = Some (p\<lparr>fn_ra := gp, fn_ra_xmm := xm\<rparr>)"
      unfolding opt_function_def fn1(1) using False a(1) fn1(2) by simp
    ultimately show ?thesis unfolding p_def by blast
  next
    case True
    define ms where "ms = markers_from 0 (fn_insts p)"
    let ?q = "p\<lparr>fn_insts := real_insts (fn_insts p)\<rparr>"
    obtain gp xm where a: "alloc_function t ?q = Some (?q\<lparr>fn_ra := gp, fn_ra_xmm := xm\<rparr>)"
      "\<And>fn'. same_code ?q fn' \<Longrightarrow> ir_code_wf fn' \<Longrightarrow> homes_sound t fn' (home_of gp xm)"
      "\<And>v r. v < fn_nv ?q \<Longrightarrow> home_of gp xm v = GpReg r \<Longrightarrow> r \<in> set (rc_regs (rc_gp (ra_classes_current t)))" using alloc_function_ok[of t ?q] by metis
    let ?r = "p\<lparr>fn_insts := map norm_marker (fn_insts p), fn_ra := gp, fn_ra_xmm := xm\<rparr>"
    have "reinsert_markers (?q\<lparr>fn_ra := gp, fn_ra_xmm := xm\<rparr>) ms = ?r"
    proof -
      obtain out rest real where f: "fold reinsert_step (real_insts (fn_insts p)) ([], markers_from 0 (fn_insts p), 0) = (out, rest, real)"
        by (rule prod_cases3)
      from reinsert_fold[OF this] show ?thesis by (simp add: ms_def reinsert_markers_def f)
    qed
    moreover have "?q\<lparr>fn_ra := gp, fn_ra_xmm := xm\<rparr> = ?r" if "ms = []"
      using no_markers[of 0 "fn_insts p"] that by (simp add: ms_def)
    ultimately have "opt_function True t opt_level want_debug fn = Some ?r"
      unfolding opt_function_def fn1(1) using True a(1)
      by (simp add: extract_markers_eq flip: fn1(2) ms_def)
    moreover have "ir_code_wf (without_markers ?r)" if "ir_code_wf fn"
      using wf[OF that] by (simp add: ir_code_wf_def without_markers_def real_norm list_all_iff)
    then have "opt_result_ok t opt_level want_debug fn ?r"
      using True a(2,3) unfolding opt_result_ok_def p_def[symmetric]
      by (simp add: opt_code_def fn_homes_def without_markers_def real_norm same_code_def fn_nv_def)
    ultimately show ?thesis unfolding p_def by blast
  qed
qed

text \<open>
  C26.  The pipeline returns on every module whose functions can be promoted (\<open>m2r_ok\<close>: distinct alloca
  ids, and an entry block without exactly one predecessor; at level 0 on every module), and treats its
  functions one by one.  The code of the result is the cleaned-up code, with the markers in their places
  under \<open>-g\<close>.  If the code handed to the pipeline is well-formed, so is the result, and on the code
  without the markers the registers and slots are a sound allocation by the table of operands: values
  that conflict have different homes and a value that survives a call is in a home the call keeps, for
  all values but the callees of indirect calls.  Registers are those of the target's class, and at a
  level above 0 on x86-64 no value is in the scratch register R11.
\<close>

theorem opt_allocates:
  assumes "opt_level \<noteq> 0 \<Longrightarrow> \<forall>fn\<in>set fns. m2r_ok fn"
  shows "\<exists>fns'. opt True t fns opt_level want_debug = Some fns' \<and>
    list_all2 (\<lambda>fn fn'. opt_result_ok (t\<lparr>tg_reserve_va_scratch := 0 < opt_level\<rparr>) opt_level want_debug fn fn' \<and>
      (0 < opt_level \<and> tg_arch t \<noteq> TARGET_ARCH_ARM64 \<longrightarrow> (\<forall>v<fn_nv fn'. fn_homes fn' v \<noteq> GpReg 11))) fns fns'"
proof -
  let ?t = "t\<lparr>tg_reserve_va_scratch := 0 < opt_level\<rparr>"
  let ?ok = "\<lambda>fn fn'. opt_result_ok ?t opt_level want_debug fn fn' \<and>
      (0 < opt_level \<and> tg_arch t \<noteq> TARGET_ARCH_ARM64 \<longrightarrow> (\<forall>v<fn_nv fn'. fn_homes fn' v \<noteq> GpReg 11))"
  have r11: "11 \<notin> set (rc_regs (rc_gp (ra_classes_current ?t)))" if "0 < opt_level" "tg_arch t \<noteq> TARGET_ARCH_ARM64"
    using that by (auto simp: ra_classes_current_def ra_classes_x86_def ra_classes_win64_def GP_NO_R11_def REG_RSI_def
        REG_RDI_def REG_RBX_def Let_def)
  have step: "\<exists>fn'. opt_function True ?t opt_level want_debug fn = Some fn' \<and> ?ok fn fn'"
    if "opt_level \<noteq> 0 \<Longrightarrow> m2r_ok fn" for fn
  proof -
    from opt_function_ok[where fn = fn and opt_level = opt_level and t = ?t and want_debug = want_debug, OF that] obtain fn' where
      "opt_function True ?t opt_level want_debug fn = Some fn'" "opt_result_ok ?t opt_level want_debug fn fn'"
      by blast
    moreover from this(2) r11 have "0 < opt_level \<and> tg_arch t \<noteq> TARGET_ARCH_ARM64 \<longrightarrow> (\<forall>v<fn_nv fn'. fn_homes fn' v \<noteq> GpReg 11)"
      unfolding opt_result_ok_def by blast
    ultimately show ?thesis by blast
  qed
  have "\<exists>fns'. opt_functions True ?t opt_level want_debug fns = Some fns' \<and> list_all2 ?ok fns fns'"
    using assms
  proof (induction fns)
    case (Cons fn fns)
    then obtain fns' where "opt_functions True ?t opt_level want_debug fns = Some fns'" "list_all2 ?ok fns fns'" by auto
    moreover from step[of fn] Cons.prems obtain fn' where "opt_function True ?t opt_level want_debug fn = Some fn'" "?ok fn fn'" by auto
    ultimately show ?case by (intro exI[of _ "fn' # fns'"]) simp
  qed simp
  then show ?thesis by (simp only: opt_def)
qed

lemma opt_allocates_witness:
  "\<exists>fn'. opt True linux_target [slot_fn] 1 True = Some [fn'] \<and> (\<forall>v<fn_nv fn'. fn_homes fn' v \<noteq> GpReg 11)"
proof -
  have "\<forall>fn\<in>set [slot_fn]. m2r_ok fn" using slot_fn_facts(3) by simp
  from opt_allocates[where fns = "[slot_fn]" and opt_level = 1 and t = linux_target and want_debug = True, OF this]
  obtain fns' where f: "opt True linux_target [slot_fn] 1 True = Some fns'"
    and l: "list_all2 (\<lambda>fn fn'. opt_result_ok (linux_target\<lparr>tg_reserve_va_scratch := 0 < (1 :: int)\<rparr>) 1 True fn fn' \<and>
      (0 < (1 :: int) \<and> tg_arch linux_target \<noteq> TARGET_ARCH_ARM64 \<longrightarrow> (\<forall>v<fn_nv fn'. fn_homes fn' v \<noteq> GpReg 11))) [slot_fn] fns'"
    by blast
  from l obtain fn' where "fns' = [fn']" "\<forall>v<fn_nv fn'. fn_homes fn' v \<noteq> GpReg 11"
    by (auto simp: list_all2_Cons1 linux_target_def)
  with f show ?thesis by blast
qed

end
