(* ===== verification/Int128.thy ===== *)
theory Int128
  imports Prelude
begin

text \<open>
  \<open>runtime/int128.c\<close>: the helpers behind \<open>__int128\<close>.  A 128-bit value is two 64-bit halves, low half
  first, and the out-parameters of the C functions are returned as tuples.  The helpers refine
  arithmetic on 128-bit words (\<open>u128\<close> is the abstraction): comparison, subtraction, shifts, increment,
  negation and the division loop.  The conversions to binary floating point round to nearest even,
  those from it truncate.

  A \<open>double\<close>, \<open>float\<close> or 80-bit \<open>long double\<close> is the list of its bytes, which is how the source reads
  and writes it.
\<close>

section \<open>Arithmetic on two halves\<close>

definition u128_ge :: "u64 \<Rightarrow> u64 \<Rightarrow> u64 \<Rightarrow> u64 \<Rightarrow> bool" where
  "u128_ge alo ahi blo bhi = (if ahi \<noteq> bhi then ahi > bhi else alo \<ge> blo)"

definition u128_sub :: "u64 \<Rightarrow> u64 \<Rightarrow> u64 \<Rightarrow> u64 \<Rightarrow> u64 \<times> u64" where
  "u128_sub alo ahi blo bhi =
     (let lo = alo - blo; br = (if alo < blo then 1 else 0) in (lo, ahi - bhi - br))"

record udivmod =
  dq_lo :: u64
  dq_hi :: u64
  dr_lo :: u64
  dr_hi :: u64

text \<open>One round of the loop, for bit \<open>i\<close>.\<close>

definition udivmod_step :: "u64 \<Rightarrow> u64 \<Rightarrow> u64 \<Rightarrow> u64 \<Rightarrow> nat \<Rightarrow> udivmod \<Rightarrow> udivmod" where
  "udivmod_step nlo nhi dlo dhi i s =
     (let carry = drop_bit 63 (dr_hi s);
          r_hi = push_bit 1 (dr_hi s) OR drop_bit 63 (dr_lo s);
          r_lo0 = push_bit 1 (dr_lo s);
          b = (if i \<ge> 64 then drop_bit (i - 64) nhi AND 1 else drop_bit i nlo AND 1);
          r_lo = r_lo0 OR b
      in if carry \<noteq> 0 \<or> u128_ge r_lo r_hi dlo dhi
         then let (lo, hi) = u128_sub r_lo r_hi dlo dhi
              in if i \<ge> 64
                 then s\<lparr>dr_lo := lo, dr_hi := hi, dq_hi := dq_hi s OR push_bit (i - 64) 1\<rparr>
                 else s\<lparr>dr_lo := lo, dr_hi := hi, dq_lo := dq_lo s OR push_bit i 1\<rparr>
         else s\<lparr>dr_lo := r_lo, dr_hi := r_hi\<rparr>)"

text \<open>The result is \<open>(qlo, qhi, rlo, rhi)\<close>.\<close>

definition fakecc_udivmodti4 :: "u64 \<Rightarrow> u64 \<Rightarrow> u64 \<Rightarrow> u64 \<Rightarrow> u64 \<times> u64 \<times> u64 \<times> u64" where
  "fakecc_udivmodti4 nlo nhi dlo dhi =
     (if dlo = 0 \<and> dhi = 0 then (0, 0, nlo, nhi)
      else let s = fold (udivmod_step nlo nhi dlo dhi) (rev [0..<128]) \<lparr>dq_lo = 0, dq_hi = 0, dr_lo = 0, dr_hi = 0\<rparr>
           in (dq_lo s, dq_hi s, dr_lo s, dr_hi s))"

definition clz_step :: "nat \<Rightarrow> u64 \<times> nat \<Rightarrow> u64 \<times> nat" where
  "clz_step k = (\<lambda>(x, n). if x \<le> mask (64 - k) then (push_bit k x, n + k) else (x, n))"

definition clz64 :: "u64 \<Rightarrow> nat" where
  "clz64 x = (if x = 0 then 64 else snd (fold clz_step [32, 16, 8, 4, 2, 1] (x, 0)))"

definition u128_shl :: "u64 \<Rightarrow> u64 \<Rightarrow> int \<Rightarrow> u64 \<times> u64" where
  "u128_shl lo hi n =
     (if n \<le> 0 then (lo, hi)
      else if n \<ge> 128 then (0, 0)
      else if n \<ge> 64 then (0, push_bit (nat (n - 64)) lo)
      else (push_bit (nat n) lo, push_bit (nat n) hi OR drop_bit (nat (64 - n)) lo))"

definition u128_shr :: "u64 \<Rightarrow> u64 \<Rightarrow> int \<Rightarrow> u64 \<times> u64" where
  "u128_shr lo hi n =
     (if n \<le> 0 then (lo, hi)
      else if n \<ge> 128 then (0, 0)
      else if n \<ge> 64 then (drop_bit (nat (n - 64)) hi, 0)
      else (drop_bit (nat n) lo OR push_bit (nat (64 - n)) hi, drop_bit (nat n) hi))"

definition u128_add1 :: "u64 \<Rightarrow> u64 \<Rightarrow> u64 \<times> u64" where
  "u128_add1 lo hi = (let n = lo + 1 in (n, if n < lo then hi + 1 else hi))"

definition u128_neg :: "u64 \<Rightarrow> u64 \<Rightarrow> u64 \<times> u64" where
  "u128_neg lo hi =
     (let nlo = 0 - lo; nhi = 0 - hi in (nlo, if lo \<noteq> 0 then nhi - 1 else nhi))"

section \<open>Conversions to binary floating point\<close>

text \<open>The number of significant bits.\<close>

definition u128_sd :: "u64 \<Rightarrow> u64 \<Rightarrow> int" where
  "u128_sd lo hi = (if hi \<noteq> 0 then 128 - int (clz64 hi) else 64 - int (clz64 lo))"

text \<open>Bring a value of \<open>sd > mant\<close> bits to \<open>mant + 2\<close> bits, the last of them sticky.\<close>

definition round_mask :: "int \<Rightarrow> u64 \<times> u64" where
  "round_mask k =
     (if k \<le> 0 then (0, 0)
      else if k \<ge> 128 then (NOT 0, NOT 0)
      else if k \<ge> 64 then (NOT 0, push_bit (nat (k - 64)) 1 - 1)
      else (push_bit (nat k) 1 - 1, 0))"

definition round_prep :: "int \<Rightarrow> int \<Rightarrow> u64 \<Rightarrow> u64 \<Rightarrow> u64 \<times> u64" where
  "round_prep mant sd lo hi =
     (if sd = mant + 1 then u128_shl lo hi 1
      else if sd \<noteq> mant + 2 then
        let k = sd - (mant + 2);
            (mlo, mhi) = round_mask k;
            sticky = ((lo AND mlo) OR (hi AND mhi)) \<noteq> 0;
            (lo1, hi1) = u128_shr lo hi k
        in (if sticky then lo1 OR 1 else lo1, hi1)
      else (lo, hi))"

definition round_even :: "u64 \<Rightarrow> u64 \<Rightarrow> u64 \<times> u64" where
  "round_even lo hi =
     (let lo1 = (if lo AND 4 \<noteq> 0 then lo OR 1 else lo); (lo2, hi2) = u128_add1 lo1 hi
      in u128_shr lo2 hi2 2)"

definition ieee_norm :: "int \<Rightarrow> u64 \<Rightarrow> u64 \<Rightarrow> u64 \<times> u64 \<times> int" where
  "ieee_norm dst_mant lo hi =
     (let sd = u128_sd lo hi; e = sd - 1 in
      if sd > dst_mant then
        let (l, h) = round_prep dst_mant sd lo hi;
            (l, h) = round_even l h
        in if dst_mant \<ge> 64
           then (if h AND 1 \<noteq> 0 then (let (l, h) = u128_shr l h 1 in (l, h, e + 1)) else (l, h, e))
           else (if drop_bit (nat dst_mant) l AND 1 \<noteq> 0
                 then (let (l, h) = u128_shr l h 1 in (l, h, e + 1)) else (l, h, e))
      else (let (l, h) = u128_shl lo hi (dst_mant - sd) in (l, h, e)))"

definition u128_to_ieee :: "u64 \<Rightarrow> u64 \<Rightarrow> bool \<Rightarrow> nat \<Rightarrow> nat \<Rightarrow> u64" where
  "u128_to_ieee lo hi sign dst_bits dst_sig =
     (let dst_mant = int dst_sig + 1 in
      if lo = 0 \<and> hi = 0 then 0
      else
        let (lo1, hi1, e1) = ieee_norm dst_mant lo hi;
            signbit = push_bit (dst_bits - 1) 1;
            exp_bits = dst_bits - dst_sig - 1;
            bias = 2 ^ (exp_bits - 1) - 1;
            fracmask = push_bit dst_sig 1 - 1
        in (if sign then signbit else 0) OR push_bit dst_sig (word_of_int (e1 + bias)) OR (lo1 AND fracmask))"

definition signed_abs :: "u64 \<Rightarrow> u64 \<Rightarrow> u64 \<times> u64 \<times> bool" where
  "signed_abs lo hi =
     (if drop_bit 63 hi \<noteq> 0 then (let (l, h) = u128_neg lo hi in (l, h, True)) else (lo, hi, False))"

text \<open>The bytes of an object, lowest first.\<close>

primrec store_bytes :: "nat \<Rightarrow> u64 \<Rightarrow> u8 list" where
  "store_bytes 0 x = []"
| "store_bytes (Suc n) x = ucast (x AND 0xff) # store_bytes n (drop_bit 8 x)"

definition bits_to_double :: "u64 \<Rightarrow> u8 list" where
  "bits_to_double x = store_bytes 8 x"

definition bits_to_float :: "u64 \<Rightarrow> u8 list" where
  "bits_to_float x = store_bytes 4 (ucast (ucast x :: u32))"

definition load_bytes :: "u8 list \<Rightarrow> nat \<Rightarrow> u64" where
  "load_bytes b n = fold (\<lambda>i x. x OR push_bit (8 * i) (ucast (b ! i))) [0..<n] 0"

definition fakecc_floattidf :: "u64 \<Rightarrow> u64 \<Rightarrow> u8 list" where
  "fakecc_floattidf lo hi = (case signed_abs lo hi of (l, h, sign) \<Rightarrow> bits_to_double (u128_to_ieee l h sign 64 52))"

definition fakecc_floatuntidf :: "u64 \<Rightarrow> u64 \<Rightarrow> u8 list" where
  "fakecc_floatuntidf lo hi = bits_to_double (u128_to_ieee lo hi False 64 52)"

definition fakecc_floattisf :: "u64 \<Rightarrow> u64 \<Rightarrow> u8 list" where
  "fakecc_floattisf lo hi = (case signed_abs lo hi of (l, h, sign) \<Rightarrow> bits_to_float (u128_to_ieee l h sign 32 23))"

definition fakecc_floatuntisf :: "u64 \<Rightarrow> u64 \<Rightarrow> u8 list" where
  "fakecc_floatuntisf lo hi = bits_to_float (u128_to_ieee lo hi False 32 23)"

text \<open>The 80-bit format: a 64-bit significand with its leading one, then sign and exponent.\<close>

definition pack_xf :: "u64 \<Rightarrow> u64 \<Rightarrow> bool \<Rightarrow> u8 list" where
  "pack_xf lo hi sign =
     (if lo = 0 \<and> hi = 0 then replicate 10 0
      else
        let sd = u128_sd lo hi; e = sd - 1;
            (lo1, e1) =
              (if sd > 64 then
                 let (l, h) = round_prep 64 sd lo hi;
                     (l, h) = round_even l h
                 in if h AND 1 \<noteq> 0 then (fst (u128_shr l h 1), e + 1) else (l, e)
               else (fst (u128_shl lo hi (64 - sd)), e));
            ex = word_of_int (e1 + 16383) :: u32;
            ex1 = (if sign then ex OR 0x8000 else ex)
        in store_bytes 8 lo1 @ [ucast (ex1 AND 0xff), ucast (drop_bit 8 ex1 AND 0xff)])"

definition fakecc_floattixf :: "u64 \<Rightarrow> u64 \<Rightarrow> u8 list" where
  "fakecc_floattixf lo hi = (case signed_abs lo hi of (l, h, sign) \<Rightarrow> pack_xf l h sign)"

definition fakecc_floatuntixf :: "u64 \<Rightarrow> u64 \<Rightarrow> u8 list" where
  "fakecc_floatuntixf lo hi = pack_xf lo hi False"

section \<open>Conversions from binary floating point\<close>

definition mag_to_i128 :: "bool \<Rightarrow> bool \<Rightarrow> int \<Rightarrow> u64 \<Rightarrow> nat \<Rightarrow> bool \<Rightarrow> u64 \<times> u64" where
  "mag_to_i128 sign is_unsigned ex frac frac_bits implicit =
     (if ex < 0 \<or> ex \<ge> 128 then (0, 0)
      else
        let lo = (if implicit \<and> frac_bits < 64 then frac OR push_bit frac_bits 1 else frac);
            hi = (if implicit \<and> \<not> frac_bits < 64 then push_bit (frac_bits - 64) 1 else 0);
            sh = ex - int frac_bits;
            (lo1, hi1) = (if sh < 0 then u128_shr lo hi (- sh) else u128_shl lo hi sh)
        in if sign then (if is_unsigned \<and> hi1 = 0 then (0 - lo1, hi1) else u128_neg lo1 hi1)
           else (lo1, hi1))"

definition nan_pattern :: "u64 \<times> u64" where
  "nan_pattern = (0x8000000000000000, 0x8000000000000000)"

definition fix_special :: "bool \<Rightarrow> bool \<Rightarrow> bool \<Rightarrow> u64 \<times> u64" where
  "fix_special is_inf sign is_unsigned =
     (if is_inf then (if sign \<and> is_unsigned then nan_pattern else (0, 0)) else nan_pattern)"

definition fix_double :: "u8 list \<Rightarrow> bool \<Rightarrow> u64 \<times> u64" where
  "fix_double a is_unsigned =
     (let u = load_bytes a 8;
          sign = drop_bit 63 u AND 1 \<noteq> 0;
          expf = uint (drop_bit 52 u AND 0x7ff);
          frac = u AND 0x000fffffffffffff
      in if expf = 0x7ff then fix_special (frac = 0) sign is_unsigned
         else if expf = 0 then mag_to_i128 sign is_unsigned (- 1022) frac 52 False
         else mag_to_i128 sign is_unsigned (expf - 1023) frac 52 True)"

definition fix_float :: "u8 list \<Rightarrow> bool \<Rightarrow> u64 \<times> u64" where
  "fix_float a is_unsigned =
     (let u = ucast (load_bytes a 4) :: u32;
          sign = drop_bit 31 u AND 1 \<noteq> 0;
          expf = uint (drop_bit 23 u AND 0xff);
          frac = ucast (u AND 0x7fffff)
      in if expf = 0xff then fix_special (frac = 0) sign is_unsigned
         else if expf = 0 then mag_to_i128 sign is_unsigned (- 126) frac 23 False
         else mag_to_i128 sign is_unsigned (expf - 127) frac 23 True)"

definition fix_ld :: "u8 list \<Rightarrow> bool \<Rightarrow> u64 \<times> u64" where
  "fix_ld a is_unsigned =
     (let frac = load_bytes a 8;
          w = ucast (a ! 8) OR push_bit 8 (ucast (a ! 9)) :: u32;
          sign = drop_bit 15 w AND 1 \<noteq> 0;
          expf = uint (w AND 0x7fff)
      in if expf = 0x7fff then fix_special (frac = 0 \<or> frac = 0x8000000000000000) sign is_unsigned
         else mag_to_i128 sign is_unsigned (if expf = 0 then - 16382 else expf - 16383) frac 63 False)"

definition fakecc_fixdfti :: "u8 list \<Rightarrow> u64 \<times> u64" where "fakecc_fixdfti a = fix_double a False"
definition fakecc_fixunsdfti :: "u8 list \<Rightarrow> u64 \<times> u64" where "fakecc_fixunsdfti a = fix_double a True"
definition fakecc_fixsfti :: "u8 list \<Rightarrow> u64 \<times> u64" where "fakecc_fixsfti a = fix_float a False"
definition fakecc_fixunssfti :: "u8 list \<Rightarrow> u64 \<times> u64" where "fakecc_fixunssfti a = fix_float a True"
definition fakecc_fixxfti :: "u8 list \<Rightarrow> u64 \<times> u64" where "fakecc_fixxfti a = fix_ld a False"
definition fakecc_fixunsxfti :: "u8 list \<Rightarrow> u64 \<times> u64" where "fakecc_fixunsxfti a = fix_ld a True"

section \<open>The abstraction\<close>

definition u128 :: "u64 \<Rightarrow> u64 \<Rightarrow> 128 word" where
  "u128 lo hi = push_bit 64 (ucast hi) OR ucast lo"

definition u128p :: "u64 \<times> u64 \<Rightarrow> 128 word" where
  "u128p p = u128 (fst p) (snd p)"

lemma bit_u128: "bit (u128 lo hi) n \<longleftrightarrow> (if n < 64 then bit lo n else n < 128 \<and> bit hi (n - 64))"
  by (auto simp: u128_def bit_simps dest: bit_imp_le_length)

lemma u128_eq_iff [simp]: "u128 a b = u128 c d \<longleftrightarrow> a = c \<and> b = d"
proof
  assume eq: "u128 a b = u128 c d"
  have "bit a n = bit c n" if "n < 64" for n using arg_cong[OF eq, of "\<lambda>w. bit w n"] that by (simp add: bit_u128)
  moreover have "bit b n = bit d n" if "n < 64" for n
    using arg_cong[OF eq, of "\<lambda>w. bit w (n + 64)"] that by (simp add: bit_u128)
  ultimately show "a = c \<and> b = d" by (auto intro!: bit_word_eqI)
qed simp

lemma u128_0 [simp]: "u128 0 0 = 0"
  by (simp add: u128_def)

lemma u128_0_iff [simp]: "u128 a b = 0 \<longleftrightarrow> a = 0 \<and> b = 0"
  using u128_eq_iff[of a b 0 0] unfolding u128_0 .

lemma u128_of_nat: "u128 lo hi = word_of_nat (unat lo + 2 ^ 64 * unat hi)"
proof -
  have "u128 lo hi = push_bit 64 (ucast hi) + ucast lo"
    unfolding u128_def by (rule disjunctive_add[symmetric]) (auto simp: bit_simps dest: bit_imp_le_length)
  also have "\<dots> = word_of_nat (unat lo + 2 ^ 64 * unat hi)"
    by (simp add: push_bit_eq_mult)
  finally show ?thesis .
qed

lemma unat_lt64: "unat (w :: u64) < 2 ^ 64"
  using unsigned_less[of w] by simp

lemma unat_lt128: "unat (w :: 128 word) < 2 ^ 128"
  using unsigned_less[of w] by simp

lemma u128_bound: "unat (lo :: u64) + 2 ^ 64 * unat (hi :: u64) < 2 ^ 128"
proof -
  have "unat lo + 2 ^ 64 * unat hi < 2 ^ 64 + 2 ^ 64 * unat hi" using unat_lt64[of lo] by simp
  also have "\<dots> = 2 ^ 64 * Suc (unat hi)" by simp
  also have "\<dots> \<le> 2 ^ 64 * 2 ^ 64" using unat_lt64[of hi] by (intro mult_le_mono2) (rule Suc_leI)
  also have "\<dots> = 2 ^ 128" by simp
  finally show ?thesis .
qed

lemma unat_u128: "unat (u128 lo hi) = unat lo + 2 ^ 64 * unat hi"
  unfolding u128_of_nat unat_of_nat using u128_bound[of lo hi] by simp

text \<open>Each helper is the operation on 128-bit words.\<close>

lemma u128_ge_iff: "u128_ge alo ahi blo bhi \<longleftrightarrow> u128 alo ahi \<ge> u128 blo bhi"
proof -
  have l: "unat alo < 2 ^ 64" "unat blo < 2 ^ 64" by (rule unat_lt64)+
  consider "unat ahi < unat bhi" | "unat bhi < unat ahi" | "ahi = bhi" using nat_neq_iff unsigned_word_eqI by blast
  then show ?thesis
  proof cases
    case 1
    then have "unat alo + 2 ^ 64 * unat ahi < unat blo + 2 ^ 64 * unat bhi" using l by simp
    then show ?thesis using 1 by (auto simp: u128_ge_def word_le_nat_alt word_less_nat_alt unat_u128)
  next
    case 2
    then have "unat blo + 2 ^ 64 * unat bhi < unat alo + 2 ^ 64 * unat ahi" using l by simp
    then show ?thesis using 2 by (auto simp: u128_ge_def word_le_nat_alt word_less_nat_alt unat_u128)
  qed (simp add: u128_ge_def word_le_nat_alt unat_u128)
qed

lemma u128_shl_eq: "u128p (u128_shl lo hi n) = push_bit (nat n) (u128 lo hi)"
proof (rule bit_word_eqI)
  fix k assume "k < LENGTH(128)"
  then show "bit (u128p (u128_shl lo hi n)) k = bit (push_bit (nat n) (u128 lo hi)) k"
    by (auto simp: u128p_def u128_shl_def bit_u128 bit_simps nat_diff_distrib ac_simps dest: bit_imp_le_length)
qed

lemma u128_shr_eq: "u128p (u128_shr lo hi n) = drop_bit (nat n) (u128 lo hi)"
proof (rule bit_word_eqI)
  fix k assume "k < LENGTH(128)"
  then show "bit (u128p (u128_shr lo hi n)) k = bit (drop_bit (nat n) (u128 lo hi)) k"
    by (auto simp: u128p_def u128_shr_def bit_u128 bit_simps nat_diff_distrib ac_simps dest: bit_imp_le_length)
qed

text \<open>A borrow or carry \<open>c\<close> out of the low half is taken from the high one.\<close>

lemma u128_carry:
  assumes "uint lo = a + 2 ^ 64 * c" and "hi = word_of_int (h - c)"
  shows "u128 lo hi = word_of_int (a + 2 ^ 64 * h)"
proof -
  define q where "q = (h - c) div 2 ^ 64"
  have "uint hi = (h - c) mod 2 ^ 64" unfolding assms(2) uint_word_of_int by simp
  then have hi: "uint hi = h - c - 2 ^ 64 * q" by (simp only: q_def minus_mult_div_eq_mod)
  have "int (unat lo + 2 ^ 64 * unat hi) = uint lo + 2 ^ 64 * uint hi" by simp
  then have "u128 lo hi = word_of_int (uint lo + 2 ^ 64 * uint hi)"
    unfolding u128_of_nat by (metis of_int_of_nat_eq)
  also have "uint lo + 2 ^ 64 * uint hi = a + 2 ^ 64 * h + 2 ^ 128 * (- q)"
  proof -
    have "a + M * c + M * (h - c - M * q) = a + M * h + M * M * (- q)" for M :: int by (simp add: algebra_simps)
    from this[of "2 ^ 64"] show ?thesis unfolding assms(1) hi by (simp flip: power_add)
  qed
  also have "(word_of_int (a + 2 ^ 64 * h + 2 ^ 128 * (- q)) :: 128 word) = word_of_int (a + 2 ^ 64 * h)"
  proof -
    have "take_bit LENGTH(128) (x + 2 ^ 128 * k) = take_bit LENGTH(128) x" for x k :: int
      by (simp add: take_bit_eq_mod)
    then show ?thesis unfolding word_of_int_eq_iff .
  qed
  finally show ?thesis .
qed

lemma u128_of_int: "u128 lo hi = word_of_int (uint lo + 2 ^ 64 * uint hi)"
  by (rule u128_carry[where c = 0]) simp_all

lemma u128_sub_eq: "u128p (u128_sub alo ahi blo bhi) = u128 alo ahi - u128 blo bhi"
proof -
  define c :: int where "c = (if alo < blo then 1 else 0)"
  have lo: "uint (alo - blo) = (uint alo - uint blo) + 2 ^ 64 * c"
    using uint_sub_if'[of alo blo] by (simp add: c_def word_less_def)
  have hi: "ahi - bhi - word_of_int c = word_of_int (uint ahi - uint bhi - c)" by simp
  have "u128_sub alo ahi blo bhi = (alo - blo, ahi - bhi - word_of_int c)"
    by (simp add: u128_sub_def c_def)
  then have "u128p (u128_sub alo ahi blo bhi) = word_of_int (uint alo - uint blo + 2 ^ 64 * (uint ahi - uint bhi))"
    by (simp add: u128p_def u128_carry[OF lo hi])
  also have "\<dots> = u128 alo ahi - u128 blo bhi" by (simp add: u128_of_int algebra_simps)
  finally show ?thesis .
qed

lemma u128_add1_eq: "u128p (u128_add1 lo hi) = u128 lo hi + 1"
proof -
  define c :: int where "c = (if lo + 1 < lo then - 1 else 0)"
  have lo: "uint (lo + 1) = (uint lo + 1) + 2 ^ 64 * c"
    using uint_plus_if'[of lo 1] uint_lt2p[of lo] by (simp add: c_def word_less_def)
  have hi: "hi + word_of_int (- c) = word_of_int (uint hi - c)" by simp
  have "u128_add1 lo hi = (lo + 1, hi + word_of_int (- c))" by (simp add: u128_add1_def c_def)
  then have "u128p (u128_add1 lo hi) = word_of_int (uint lo + 1 + 2 ^ 64 * uint hi)"
    by (simp only: u128p_def fst_conv snd_conv u128_carry[OF lo hi])
  also have "\<dots> = u128 lo hi + 1" by (simp add: u128_of_int algebra_simps)
  finally show ?thesis .
qed

lemma u128_neg_eq: "u128p (u128_neg lo hi) = - u128 lo hi"
proof -
  define c :: int where "c = (if lo \<noteq> 0 then 1 else 0)"
  have lo: "uint (0 - lo) = (- uint lo) + 2 ^ 64 * c"
    using uint_sub_if'[of 0 lo] uint_ge_0[of lo] by (cases "lo = 0") (auto simp: c_def uint_0_iff)
  have hi: "0 - hi - word_of_int c = word_of_int (- uint hi - c)" by simp
  have "u128_neg lo hi = (0 - lo, 0 - hi - word_of_int c)" by (simp add: u128_neg_def c_def)
  then have "u128p (u128_neg lo hi) = word_of_int (- uint lo + 2 ^ 64 * (- uint hi))"
    by (simp only: u128p_def fst_conv snd_conv u128_carry[OF lo hi])
  also have "\<dots> = - u128 lo hi" by (simp add: u128_of_int algebra_simps)
  finally show ?thesis .
qed

section \<open>Division\<close>

text \<open>
  After the rounds for the bits from \<open>127\<close> down to \<open>i\<close>, the quotient and the remainder are those of
  the leading bits of the dividend, the quotient shifted into place.
\<close>

definition udivmod_inv :: "nat \<Rightarrow> nat \<Rightarrow> nat \<Rightarrow> udivmod \<Rightarrow> bool" where
  "udivmod_inv n d i s \<longleftrightarrow>
     unat (u128 (dr_lo s) (dr_hi s)) = n div 2 ^ i mod d \<and>
     unat (u128 (dq_lo s) (dq_hi s)) = n div 2 ^ i div d * 2 ^ i"

lemma shift_in:
  assumes "b = (if bit n i then 1 else 0 :: nat)"
  shows "n div 2 ^ i = 2 * (n div 2 ^ Suc i) + b"
proof -
  have "n div 2 ^ Suc i = n div 2 ^ i div 2" by (simp only: power_Suc2 div_mult2_eq)
  moreover have "b = n div 2 ^ i mod 2" using assms by (simp add: bit_iff_odd odd_iff_mod_2_eq_one even_iff_mod_2_eq_zero)
  ultimately show ?thesis by simp
qed

lemma div_shift:
  fixes m d b :: nat
  assumes "d > 0" "b \<le> 1"
  shows "2 * (m mod d) + b < 2 * d"
    "(2 * m + b) div d = 2 * (m div d) + (if d \<le> 2 * (m mod d) + b then 1 else 0)"
    "(2 * m + b) mod d = 2 * (m mod d) + b - (if d \<le> 2 * (m mod d) + b then d else 0)"
proof -
  have "m mod d + 1 \<le> d" using assms(1) by (simp add: Suc_leI)
  then show lt: "2 * (m mod d) + b < 2 * d" using assms(2) by linarith
  have "2 * m + b = 2 * (m div d * d + m mod d) + b" by simp
  then have e: "2 * m + b = (2 * (m mod d) + b) + 2 * (m div d) * d" by (simp only: algebra_simps)
  define r where "r = 2 * (m mod d) + b - (if d \<le> 2 * (m mod d) + b then d else 0)"
  define k :: nat where "k = (if d \<le> 2 * (m mod d) + b then 1 else 0)"
  have r: "r < d" using lt assms(1) by (auto simp: r_def)
  have "2 * (m mod d) + b = k * d + r" using lt by (simp add: r_def k_def)
  then have e: "2 * m + b = r + (2 * (m div d) + k) * d" using e by (simp add: algebra_simps)
  have "(2 * m + b) div d = 2 * (m div d) + k" unfolding e using r by simp
  then show "(2 * m + b) div d = 2 * (m div d) + (if d \<le> 2 * (m mod d) + b then 1 else 0)" by (simp only: k_def)
  have "(2 * m + b) mod d = r" unfolding e using r by simp
  then show "(2 * m + b) mod d = 2 * (m mod d) + b - (if d \<le> 2 * (m mod d) + b then d else 0)" by (simp only: r_def)
qed

text \<open>The round on the abstraction.\<close>

lemma u128_or: "u128 (lo OR b) hi = u128 lo hi OR ucast b"
  by (rule bit_word_eqI) (auto simp: bit_u128 bit_simps dest: bit_imp_le_length)

lemma u128_double: "u128 (push_bit 1 lo OR b) (push_bit 1 hi OR drop_bit 63 lo) = push_bit 1 (u128 lo hi) OR ucast b"
  using u128_shl_eq[of lo hi 1] by (simp add: u128p_def u128_shl_def u128_or)

lemma bit_and_1: "drop_bit i w AND 1 = (if bit w i then 1 else 0)" for w :: u64
  by (simp add: and_one_eq mod_2_eq_odd bit_iff_odd_drop_bit)

lemma u128_bit:
  "i < 128 \<Longrightarrow> (if i \<ge> 64 then drop_bit (i - 64) hi AND 1 else drop_bit i lo AND 1) = (if bit (u128 lo hi) i then 1 else 0)"
  by (simp add: bit_u128 bit_and_1)

lemma u128_set_lo: "i < 64 \<Longrightarrow> u128 (lo OR push_bit i 1) hi = u128 lo hi OR push_bit i 1"
proof (rule bit_word_eqI)
  fix n assume i: "i < 64" and "n < LENGTH(128)"
  then have n: "n < 128" by simp
  show "bit (u128 (lo OR push_bit i 1) hi) n = bit (u128 lo hi OR push_bit i 1) n"
    using i n by (cases "n < 64") (auto simp: bit_u128 bit_simps bit_1_iff)
qed

lemma u128_set_hi: "64 \<le> i \<Longrightarrow> i < 128 \<Longrightarrow> u128 lo (hi OR push_bit (i - 64) 1) = u128 lo hi OR push_bit i 1"
proof (rule bit_word_eqI)
  fix n assume i: "64 \<le> i" "i < 128" and "n < LENGTH(128)"
  then have n: "n < 128" by simp
  show "bit (u128 lo (hi OR push_bit (i - 64) 1)) n = bit (u128 lo hi OR push_bit i 1) n"
    using i n by (cases "n < 64") (auto simp: bit_u128 bit_simps bit_1_iff eq_diff_iff)
qed

lemma u128_carry_bit: "drop_bit 63 hi \<noteq> 0 \<longleftrightarrow> 2 ^ 127 \<le> unat (u128 lo hi)"
proof -
  have "unat (drop_bit 63 hi) = unat hi div 2 ^ 63" by (subst unat_drop_bit_eq) (rule drop_bit_eq_div)
  then have "drop_bit 63 hi = 0 \<longleftrightarrow> unat hi < 2 ^ 63" using unat_eq_0[of "drop_bit 63 hi"] by (simp add: div_eq_0_iff)
  also have "\<dots> \<longleftrightarrow> unat lo + 2 ^ 64 * unat hi < 2 ^ 127"
  proof -
    have "h < M \<longleftrightarrow> l + 2 * M * h < 2 * M * M" if "l < 2 * M" for l h M :: nat
    proof
      assume "h < M"
      then have "2 * M * Suc h \<le> 2 * M * M" by (intro mult_le_mono2) simp
      then show "l + 2 * M * h < 2 * M * M" using that by simp
    next
      assume "l + 2 * M * h < 2 * M * M"
      then have "2 * M * h < 2 * M * M" by (rule le_less_trans[OF le_add2])
      then show "h < M" by simp
    qed
    from this[of "unat lo" "2 ^ 63" "unat hi"] unat_lt64[of lo] show ?thesis by simp
  qed
  finally show ?thesis by (simp only: unat_u128 not_less)
qed

text \<open>One round keeps the invariant.\<close>

lemma unat_u128p: "unat (u128 (fst p) (snd p)) = unat (u128p p)"
  by (simp add: u128p_def)

lemma push_in_unat:
  assumes "b = 0 \<or> b = (1 :: u64)"
  shows "unat (push_bit 1 w OR (ucast b :: 128 word)) = (2 * unat w + unat b) mod 2 ^ 128"
proof -
  have "push_bit 1 w OR ucast b = push_bit 1 w + (ucast b :: 128 word)"
    using assms by (intro disjunctive_add[symmetric]) (auto simp: bit_simps bit_1_iff bit_0)
  also have "\<dots> = word_of_nat (2 * unat w + unat b)" by (simp add: mult.commute)
  finally show ?thesis by (simp only: unat_of_nat) simp
qed

lemma push_one_unat:
  assumes "unat (w :: 128 word) = m * 2 ^ Suc i" "i < 128"
  shows "unat (w OR push_bit i 1) = unat w + 2 ^ i"
proof -
  have nb: "\<not> bit w i"
  proof -
    have "unat w div 2 ^ i = 2 * m" using assms(1) by simp
    moreover have "bit w i = odd (unat w div 2 ^ i)" by (simp add: bit_unsigned_iff flip: bit_iff_odd)
    ultimately show ?thesis by simp
  qed
  have "w OR push_bit i 1 = w + push_bit i 1"
    using nb by (intro disjunctive_add[symmetric]) (auto simp: bit_simps bit_1_iff)
  also have "\<dots> = word_of_nat (unat w + 2 ^ i)" by (simp add: push_bit_eq_mult)
  finally have e: "unat (w OR push_bit i 1) = (unat w + 2 ^ i) mod 2 ^ 128" by (simp only: unat_of_nat) simp
  have "(2::nat) ^ (127 - i) * 2 ^ Suc i = 2 ^ 128" using assms(2) by (simp only: power_add[symmetric]) simp
  then have "m * 2 ^ Suc i < 2 ^ (127 - i) * 2 ^ Suc i" using assms(1) unat_lt128[of w] by (simp only:)
  then have "Suc m * 2 ^ Suc i \<le> 2 ^ (127 - i) * 2 ^ Suc i" by (intro mult_le_mono1) simp
  also have "\<dots> = 2 ^ 128" using assms(2) by (simp only: power_add[symmetric]) simp
  finally have "Suc m * 2 ^ Suc i \<le> 2 ^ 128" .
  moreover have "(2::nat) ^ i < 2 ^ Suc i" by simp
  ultimately have "unat w + 2 ^ i < 2 ^ 128" unfolding assms(1) mult_Suc by linarith
  then show ?thesis using e by simp
qed

lemma udivmod_step_inv:
  assumes i: "i < 128" and d: "u128 dlo dhi \<noteq> 0"
    and inv: "udivmod_inv (unat (u128 nlo nhi)) (unat (u128 dlo dhi)) (Suc i) s"
  shows "udivmod_inv (unat (u128 nlo nhi)) (unat (u128 dlo dhi)) i (udivmod_step nlo nhi dlo dhi i s)"
proof -
  let ?n = "unat (u128 nlo nhi)" and ?d = "unat (u128 dlo dhi)"
  let ?r = "u128 (dr_lo s) (dr_hi s)" and ?q = "u128 (dq_lo s) (dq_hi s)"
  define m where "m = ?n div 2 ^ Suc i"
  define b :: u64 where "b = (if bit (u128 nlo nhi) i then 1 else 0)"
  define R where "R = 2 * unat ?r + unat b"
  define lo where "lo = push_bit 1 (dr_lo s) OR b"
  define hi where "hi = push_bit 1 (dr_hi s) OR drop_bit 63 (dr_lo s)"
  have d0: "?d > 0" using d by (simp add: unat_gt_0)
  have r: "unat ?r = m mod ?d" and q: "unat ?q = m div ?d * 2 ^ Suc i"
    using inv by (simp_all add: udivmod_inv_def m_def)
  have b: "b = 0 \<or> b = 1" "unat b \<le> 1" by (simp_all add: b_def)
  have n: "?n div 2 ^ i = 2 * m + unat b"
    unfolding m_def by (rule shift_in) (simp add: b_def bit_unsigned_iff)
  note D = div_shift[OF d0 b(2), of m, folded r, folded R_def]
  have rem: "unat (u128 lo hi) = R mod 2 ^ 128"
    unfolding lo_def hi_def u128_double push_in_unat[OF b(1)] R_def ..
  have take: "drop_bit 63 (dr_hi s) \<noteq> 0 \<or> u128_ge lo hi dlo dhi \<longleftrightarrow> ?d \<le> R"
  proof (cases "2 ^ 127 \<le> unat ?r")
    case True
    then have "2 ^ 128 \<le> R" by (simp add: R_def)
    then have "?d \<le> R" using unat_lt128[of "u128 dlo dhi"] by linarith
    then show ?thesis using True u128_carry_bit[of "dr_hi s" "dr_lo s"] by blast
  next
    case False
    then have "R < 2 ^ 128" using b(2) by (simp add: R_def)
    then have "unat (u128 lo hi) = R" using rem by simp
    then show ?thesis using False u128_carry_bit[of "dr_hi s" "dr_lo s"]
      by (simp add: u128_ge_iff word_le_nat_alt)
  qed
  have bv: "(if i \<ge> 64 then drop_bit (i - 64) nhi AND 1 else drop_bit i nlo AND 1) = b"
    using u128_bit[OF i, of nhi nlo] by (simp add: b_def)
  have R2: "R < 2 * ?d" using D(1) .
  have w: "u128 lo hi = word_of_nat R"
  proof -
    have "word_of_nat (unat (u128 lo hi)) = (word_of_nat (R mod 2 ^ 128) :: 128 word)" unfolding rem ..
    also have "\<dots> = word_of_nat R"
      unfolding word_of_nat_eq_iff by (simp add: take_bit_eq_mod)
    finally show ?thesis by simp
  qed
  show ?thesis
  proof (cases "?d \<le> R")
    case True
    obtain lo' hi' where sub: "u128_sub lo hi dlo dhi = (lo', hi')" by (cases "u128_sub lo hi dlo dhi") auto
    have "u128 lo' hi' = word_of_nat R - u128 dlo dhi"
      using u128_sub_eq[of lo hi dlo dhi] unfolding sub w by (simp add: u128p_def)
    also have "\<dots> = word_of_nat (R - ?d)" using True by simp
    finally have e: "unat (u128 lo' hi') = (R - ?d) mod 2 ^ 128" by (simp only: unat_of_nat) simp
    have "R - ?d < 2 ^ 128" using R2 unat_lt128[of "u128 dlo dhi"] by linarith
    then have rr: "unat (u128 lo' hi') = ?n div 2 ^ i mod ?d" using e D(3) True by (simp add: n R_def r)
    have Q: "?n div 2 ^ i div ?d * 2 ^ i = unat ?q + 2 ^ i"
      using D(2) True unfolding n q by (simp add: algebra_simps)
    note q1 = push_one_unat[OF q i]
    have "udivmod_step nlo nhi dlo dhi i s =
        (if i \<ge> 64 then s\<lparr>dr_lo := lo', dr_hi := hi', dq_hi := dq_hi s OR push_bit (i - 64) 1\<rparr>
         else s\<lparr>dr_lo := lo', dr_hi := hi', dq_lo := dq_lo s OR push_bit i 1\<rparr>)"
      using take True by (simp only: udivmod_step_def Let_def bv flip: lo_def hi_def) (simp add: sub)
    then show ?thesis
      using rr Q q1 u128_set_lo[of i "dq_lo s" "dq_hi s"] u128_set_hi[of i "dq_lo s" "dq_hi s"] i
      by (simp add: udivmod_inv_def)
  next
    case False
    have "udivmod_step nlo nhi dlo dhi i s = s\<lparr>dr_lo := lo, dr_hi := hi\<rparr>"
      using take False by (simp only: udivmod_step_def Let_def bv flip: lo_def hi_def) simp
    moreover have "R < 2 ^ 128" using False unat_lt128[of "u128 dlo dhi"] by linarith
    ultimately show ?thesis using rem q D(2,3) False n by (simp add: udivmod_inv_def)
  qed
qed

text \<open>
  C21.  The division routine divides: on every dividend and divisor its results are the quotient and the
  remainder of the 128-bit values, the quotient 0 and the remainder the dividend for a divisor of 0.
\<close>

theorem udivmodti4_correct:
  "case fakecc_udivmodti4 nlo nhi dlo dhi of (qlo, qhi, rlo, rhi) \<Rightarrow>
     unat (u128 qlo qhi) = unat (u128 nlo nhi) div unat (u128 dlo dhi) \<and>
     unat (u128 rlo rhi) = unat (u128 nlo nhi) mod unat (u128 dlo dhi)"
proof (cases "u128 dlo dhi = 0")
  case True
  then show ?thesis by (simp add: fakecc_udivmodti4_def)
next
  case False
  let ?s = "\<lparr>dq_lo = 0, dq_hi = 0, dr_lo = 0, dr_hi = 0\<rparr>"
  have "unat (u128 nlo nhi) div 2 ^ 128 = 0" using unat_lt128 by simp
  then have "udivmod_inv (unat (u128 nlo nhi)) (unat (u128 dlo dhi)) 128 ?s"
    by (simp add: udivmod_inv_def)
  then have "udivmod_inv (unat (u128 nlo nhi)) (unat (u128 dlo dhi)) 0
      (fold (udivmod_step nlo nhi dlo dhi) (rev [0..<128]) ?s)"
    by (rule fold_rev_upt_inv[rotated]) (use udivmod_step_inv False in auto)
  then show ?thesis using False by (simp add: fakecc_udivmodti4_def Let_def udivmod_inv_def)
qed

section \<open>Counting significant bits\<close>

definition clz_inv :: "nat \<Rightarrow> nat \<Rightarrow> u64 \<times> nat \<Rightarrow> bool" where
  "clz_inv x0 k p \<longleftrightarrow> unat (fst p) = x0 * 2 ^ snd p \<and> 2 ^ (64 - k) \<le> unat (fst p)"

lemma clz_step_inv:
  assumes "clz_inv x0 (2 * k) p" "0 < k" "2 * k \<le> 64"
  shows "clz_inv x0 k (clz_step k p)"
proof -
  obtain x n where p: "p = (x, n)" by (cases p)
  have x: "unat x = x0 * 2 ^ n" "2 ^ (64 - 2 * k) \<le> unat x" using assms(1) by (simp_all add: clz_inv_def p)
  have m: "unat (mask (64 - k) :: u64) = 2 ^ (64 - k) - 1"
  proof -
    have "unat (mask (64 - k) :: u64) = mask (64 - k)"
      using assms(2) by (simp add: unsigned_take_bit_eq unsigned_minus_1_eq_mask take_bit_of_mask min_def
        flip: take_bit_minus_one_eq_mask)
    then show ?thesis by (simp add: mask_eq_exp_minus_1)
  qed
  show ?thesis
  proof (cases "x \<le> mask (64 - k)")
    case True
    then have "unat x \<le> 2 ^ (64 - k) - 1" unfolding word_le_nat_alt m .
    moreover have "(0::nat) < 2 ^ (64 - k)" by simp
    ultimately have le: "unat x < 2 ^ (64 - k)" by linarith
    then have "unat x * 2 ^ k < 2 ^ (64 - k) * 2 ^ k" by simp
    also have "\<dots> = 2 ^ 64" using assms(3) by (simp only: power_add[symmetric]) simp
    finally have "unat (push_bit k x) = unat x * 2 ^ k"
      by (subst unsigned_push_bit_eq) (simp add: push_bit_eq_mult take_bit_eq_mod)
    moreover have "2 ^ (64 - 2 * k) * 2 ^ k \<le> unat x * 2 ^ k" using x(2) by simp
    moreover have "(2::nat) ^ (64 - 2 * k) * 2 ^ k = 2 ^ (64 - k)"
      using assms(3) by (simp only: power_add[symmetric]) simp
    ultimately show ?thesis using True x(1) by (simp add: clz_inv_def clz_step_def p power_add)
  next
    case False
    then have "2 ^ (64 - k) - 1 < unat x" unfolding word_le_nat_alt m by simp
    then show ?thesis using False x(1) by (simp add: clz_inv_def clz_step_def p)
  qed
qed

text \<open>\<open>clz64\<close> locates the leading one.\<close>

lemma clz64_bounds:
  assumes "x \<noteq> 0"
  shows "clz64 x < 64" "2 ^ (63 - clz64 x) \<le> unat x" "unat x < 2 ^ (64 - clz64 x)"
proof -
  have "0 < unat x" using assms by (simp add: unat_gt_0)
  then have "clz_inv (unat x) (2 * 32) (x, 0)" by (simp add: clz_inv_def)
  from clz_step_inv[OF this] have "clz_inv (unat x) (2 * 16) (clz_step 32 (x, 0))" by simp
  from clz_step_inv[OF this] have "clz_inv (unat x) (2 * 8) (clz_step 16 (clz_step 32 (x, 0)))" by simp
  from clz_step_inv[OF this] have "clz_inv (unat x) (2 * 4) (clz_step 8 (clz_step 16 (clz_step 32 (x, 0))))" by simp
  from clz_step_inv[OF this] have "clz_inv (unat x) (2 * 2) (clz_step 4 (clz_step 8 (clz_step 16 (clz_step 32 (x, 0)))))" by simp
  from clz_step_inv[OF this] have
    "clz_inv (unat x) (2 * 1) (clz_step 2 (clz_step 4 (clz_step 8 (clz_step 16 (clz_step 32 (x, 0))))))" by simp
  from clz_step_inv[OF this] have "clz_inv (unat x) 1 (fold clz_step [32, 16, 8, 4, 2, 1] (x, 0))" by simp
  then obtain y where y: "unat y = unat x * 2 ^ clz64 x" "2 ^ 63 \<le> unat (y :: u64)"
    using assms by (auto simp: clz_inv_def clz64_def)
  have lt: "unat x * 2 ^ clz64 x < 2 ^ 64" using y(1) unat_lt64[of y] by simp
  moreover have "2 ^ clz64 x \<le> unat x * 2 ^ clz64 x" using \<open>0 < unat x\<close> by simp
  ultimately have "(2::nat) ^ clz64 x < 2 ^ 64" by (rule le_less_trans[rotated])
  then show c: "clz64 x < 64" using power_less_imp_less_exp[of "2::nat" "clz64 x" 64] by simp
  have "(2::nat) ^ (63 - clz64 x) * 2 ^ clz64 x = 2 ^ 63" "(2::nat) ^ (64 - clz64 x) * 2 ^ clz64 x = 2 ^ 64"
    using c by (simp_all only: power_add[symmetric]) simp_all
  then have "2 ^ (63 - clz64 x) * 2 ^ clz64 x \<le> unat x * 2 ^ clz64 x"
    "unat x * 2 ^ clz64 x < 2 ^ (64 - clz64 x) * 2 ^ clz64 x" using y lt by simp_all
  then show "2 ^ (63 - clz64 x) \<le> unat x" "unat x < 2 ^ (64 - clz64 x)" by simp_all
qed

lemma u128_sd_bounds:
  assumes "u128 lo hi \<noteq> 0"
  obtains n where "u128_sd lo hi = int n" "0 < n" "n \<le> 128"
    "2 ^ (n - 1) \<le> unat (u128 lo hi)" "unat (u128 lo hi) < 2 ^ n"
proof (cases "hi = 0")
  case True
  then have l: "lo \<noteq> 0" using assms by simp
  note c = clz64_bounds[OF l]
  show thesis
    by (rule that[of "64 - clz64 lo"]) (use c True in \<open>simp_all add: u128_sd_def unat_u128\<close>)
next
  case False
  note c = clz64_bounds[OF False]
  let ?n = "128 - clz64 hi"
  have e: "(2::nat) ^ (?n - 1) = 2 ^ 64 * 2 ^ (63 - clz64 hi)" "(2::nat) ^ ?n = 2 ^ 64 * 2 ^ (64 - clz64 hi)"
    using c(1) by (simp_all only: power_add[symmetric]) simp_all
  have "2 ^ 64 * 2 ^ (63 - clz64 hi) \<le> 2 ^ 64 * unat hi" using c(2) by (rule mult_le_mono2)
  moreover have "2 ^ 64 * Suc (unat hi) \<le> 2 ^ 64 * 2 ^ (64 - clz64 hi)" using c(3) by (intro mult_le_mono2) simp
  ultimately have "2 ^ (?n - 1) \<le> unat (u128 lo hi)" "unat (u128 lo hi) < 2 ^ ?n"
    using unat_lt64[of lo] unfolding e unat_u128 mult_Suc_right by linarith+
  then show thesis by (intro that[of ?n]) (use c(1) False in \<open>simp_all add: u128_sd_def\<close>)
qed

section \<open>Rounding\<close>

text \<open>\<open>rne x k\<close>: the quotient of \<open>x\<close> by \<open>2 ^ k\<close>, rounded to the nearest integer, ties to even.\<close>

definition rne :: "nat \<Rightarrow> nat \<Rightarrow> nat" where
  "rne x k = (let q = x div 2 ^ k; r = x mod 2 ^ k in
     if 2 * r > 2 ^ k \<or> 2 * r = 2 ^ k \<and> odd q then q + 1 else q)"

text \<open>No multiple of \<open>2 ^ k\<close> is closer, and only an even one is as close as another.\<close>

lemma near_cases:
  fixes q r P j :: int
  assumes "0 \<le> r" "r < P"
  shows "2 * r \<le> P \<Longrightarrow> \<bar>q * P - (q * P + r)\<bar> \<le> \<bar>j * P - (q * P + r)\<bar>"
    "2 * r < P \<Longrightarrow> j \<noteq> q \<Longrightarrow> \<bar>q * P - (q * P + r)\<bar> < \<bar>j * P - (q * P + r)\<bar>"
    "P \<le> 2 * r \<Longrightarrow> \<bar>(q + 1) * P - (q * P + r)\<bar> \<le> \<bar>j * P - (q * P + r)\<bar>"
    "P < 2 * r \<Longrightarrow> j \<noteq> q + 1 \<Longrightarrow> \<bar>(q + 1) * P - (q * P + r)\<bar> < \<bar>j * P - (q * P + r)\<bar>"
proof -
  have e: "j * P - (q * P + r) = (j - q) * P - r" by (simp add: algebra_simps)
  have 1: "(j - q) * P - r \<le> - r" if "j \<le> q" using that assms by (simp add: mult_nonpos_nonneg)
  have 2: "(j - q) * P - r \<le> - P - r" if "j < q"
    using that assms mult_right_mono[of "j - q" "- 1" P] by simp
  have 3: "P - r \<le> (j - q) * P - r" if "q < j"
    using that assms mult_right_mono[of 1 "j - q" P] by simp
  have 4: "2 * P - r \<le> (j - q) * P - r" if "q + 1 < j"
    using that assms mult_right_mono[of 2 "j - q" P] by simp
  have f: "(q + 1) * P - (q * P + r) = P - r" by (simp add: algebra_simps)
  show "2 * r \<le> P \<Longrightarrow> \<bar>q * P - (q * P + r)\<bar> \<le> \<bar>j * P - (q * P + r)\<bar>"
    using 1 3 assms unfolding e by (cases "j \<le> q") linarith+
  show "2 * r < P \<Longrightarrow> j \<noteq> q \<Longrightarrow> \<bar>q * P - (q * P + r)\<bar> < \<bar>j * P - (q * P + r)\<bar>"
    using 2 3 assms unfolding e by (cases "j < q") linarith+
  show "P \<le> 2 * r \<Longrightarrow> \<bar>(q + 1) * P - (q * P + r)\<bar> \<le> \<bar>j * P - (q * P + r)\<bar>"
    using 1 3 assms unfolding e f by (cases "j \<le> q") linarith+
  show "P < 2 * r \<Longrightarrow> j \<noteq> q + 1 \<Longrightarrow> \<bar>(q + 1) * P - (q * P + r)\<bar> < \<bar>j * P - (q * P + r)\<bar>"
    using 1 4 assms unfolding e f by (cases "j \<le> q") linarith+
qed

lemma rne_near:
  defines "d j x k \<equiv> \<bar>int j * 2 ^ k - int x\<bar>"
  shows "d (rne x k) x k \<le> d j x k" "d j x k = d (rne x k) x k \<Longrightarrow> j \<noteq> rne x k \<Longrightarrow> even (rne x k)"
proof -
  define q r where "q = x div 2 ^ k" and "r = x mod 2 ^ k"
  have "x = q * 2 ^ k + r" unfolding q_def r_def by (rule div_mult_mod_eq[symmetric])
  then have x: "int x = int q * 2 ^ k + int r" by (metis of_nat_add of_nat_mult of_nat_numeral of_nat_power)
  have "r < 2 ^ k" by (simp add: r_def)
  then have r: "0 \<le> int r" "int r < 2 ^ k" by (simp_all flip: of_nat_less_iff)
  note N = near_cases[OF r, where q = "int q" and j = "int j"]
  have c: "2 * r > 2 ^ k \<longleftrightarrow> 2 * int r > 2 ^ k" "2 * r = 2 ^ k \<longleftrightarrow> 2 * int r = 2 ^ k"
  proof -
    have "(2::int) ^ k = int (2 ^ k)" by simp
    then show "2 * r > 2 ^ k \<longleftrightarrow> 2 * int r > 2 ^ k" "2 * r = 2 ^ k \<longleftrightarrow> 2 * int r = 2 ^ k" by linarith+
  qed
  have R: "rne x k = (if 2 * int r > 2 ^ k \<or> 2 * int r = 2 ^ k \<and> odd q then q + 1 else q)"
    by (simp only: rne_def Let_def c flip: q_def r_def)
  have "d (rne x k) x k \<le> d j x k \<and> (d j x k = d (rne x k) x k \<longrightarrow> j \<noteq> rne x k \<longrightarrow> even (rne x k))"
  proof (cases "rne x k = q")
    case True
    then have le: "2 * int r \<le> 2 ^ k" "2 * int r = 2 ^ k \<longrightarrow> even q" unfolding R by (auto split: if_splits)
    have "d j x k \<noteq> d q x k" if "2 * int r < 2 ^ k" "j \<noteq> q"
      using N(2)[OF that(1)] that(2) unfolding d_def x by simp
    then show ?thesis using N(1)[OF le(1)] le unfolding True d_def x by fastforce
  next
    case False
    then have e: "rne x k = q + 1" "2 ^ k \<le> 2 * int r" "2 * int r = 2 ^ k \<longrightarrow> odd q"
      unfolding R by (auto split: if_splits)
    have "d j x k \<noteq> d (q + 1) x k" if "2 ^ k < 2 * int r" "j \<noteq> q + 1"
      using N(4)[OF that(1)] that(2) unfolding d_def x by (simp add: add.commute)
    moreover have "d (q + 1) x k \<le> d j x k" using N(3)[OF e(2)] unfolding d_def x by (simp add: add.commute)
    ultimately show ?thesis using e by fastforce
  qed
  then show "d (rne x k) x k \<le> d j x k" "d j x k = d (rne x k) x k \<Longrightarrow> j \<noteq> rne x k \<Longrightarrow> even (rne x k)" by blast+
qed

lemma rne_bounds:
  assumes "2 ^ (n - 1) \<le> x" "x < 2 ^ n" "k < n"
  shows "2 ^ (n - 1 - k) \<le> rne x k" "rne x k \<le> 2 ^ (n - k)"
proof -
  have "2 ^ (n - 1 - k) * 2 ^ k \<le> x" using assms by (simp only: power_add[symmetric]) simp
  then have "2 ^ (n - 1 - k) \<le> x div 2 ^ k" by (simp add: less_eq_div_iff_mult_less_eq)
  then show "2 ^ (n - 1 - k) \<le> rne x k" by (simp add: rne_def Let_def)
  have "x < 2 ^ (n - k) * 2 ^ k" using assms by (simp only: power_add[symmetric]) simp
  then have "x div 2 ^ k < 2 ^ (n - k)" by (simp add: div_less_iff_less_mult)
  then show "rne x k \<le> 2 ^ (n - k)" by (simp add: rne_def Let_def)
qed

text \<open>The two extra bits: the half and the sticky bit.\<close>

definition guarded :: "nat \<Rightarrow> nat \<Rightarrow> nat \<Rightarrow> bool" where
  "guarded x k y \<longleftrightarrow> (\<exists>g < 4. y = 4 * (x div 2 ^ k) + g \<and> (2 \<le> g \<longleftrightarrow> 2 ^ k \<le> 2 * (x mod 2 ^ k)) \<and>
     (odd g \<longleftrightarrow> x mod 2 ^ k mod 2 ^ (k - 1) \<noteq> 0))"

lemma guarded_round:
  assumes "guarded x k y" "0 < k"
  shows "(y + (if odd (y div 4) \<and> even y then 1 else 0) + 1) div 4 = rne x k"
proof -
  define q r where "q = x div 2 ^ k" and "r = x mod 2 ^ k"
  obtain g where g: "g < 4" "y = 4 * q + g" "2 \<le> g \<longleftrightarrow> 2 ^ k \<le> 2 * r" "odd g \<longleftrightarrow> r mod 2 ^ (k - 1) \<noteq> 0"
    using assms(1) by (auto simp: guarded_def q_def r_def)
  have P: "(2::nat) ^ k = 2 * 2 ^ (k - 1)" using assms(2) by (simp flip: power_Suc)
  have r: "r < 2 * 2 ^ (k - 1)" unfolding P[symmetric] by (simp add: r_def)
  have R: "rne x k = (if 2 ^ (k - 1) < r \<or> r = 2 ^ (k - 1) \<and> odd q then q + 1 else q)"
  proof -
    have "rne x k = (if 2 * r > 2 ^ k \<or> 2 * r = 2 ^ k \<and> odd q then q + 1 else q)"
      by (simp only: rne_def Let_def q_def r_def)
    then show ?thesis unfolding P by simp
  qed
  have h: "2 \<le> g \<longleftrightarrow> 2 ^ (k - 1) \<le> r" using g(3) unfolding P by simp
  have eq: "r mod 2 ^ (k - 1) = r - 2 ^ (k - 1)" if "2 ^ (k - 1) \<le> r"
    using that r by (simp add: mod_if)
  have y4: "(4 * q + g) div 4 = q" using g(1) by simp
  have "g = 0 \<or> g = 1 \<or> g = 2 \<or> g = 3" using g(1) by linarith
  then show ?thesis
    unfolding R g(2) y4 using h g(4) eq by (elim disjE) (auto simp: le_less)
qed

lemma guarded_one: "guarded x 1 (2 * x)"
proof -
  have "2 * x = 4 * (x div 2) + 2 * (x mod 2)" using div_mult_mod_eq[of x 2] by linarith
  then show ?thesis unfolding guarded_def by (intro exI[of _ "2 * (x mod 2)"]) auto
qed

lemma guarded_shift:
  assumes "y = x div 2 ^ k + (if x mod 2 ^ k \<noteq> 0 \<and> even (x div 2 ^ k) then 1 else 0)"
  shows "guarded x (k + 2) y"
proof -
  define a b where "a = x div 2 ^ k" and "b = x mod 2 ^ k"
  define g where "g = a mod 4 + (if b \<noteq> 0 \<and> even a then 1 else 0)"
  have q: "x div 2 ^ (k + 2) = a div 4" by (simp only: a_def power_add div_mult2_eq) simp
  have "x mod 2 ^ (k + 2) = 2 ^ k * (a mod 4) + b"
    unfolding power_add by (simp add: mod_mult2_eq a_def b_def)
  then have r: "x mod 2 ^ (k + 2) = a mod 4 * 2 ^ k + b" by (simp add: mult.commute)
  have b: "b < 2 ^ k" by (simp add: b_def)
  have a: "a mod 4 = 0 \<or> a mod 4 = 1 \<or> a mod 4 = 2 \<or> a mod 4 = 3" by linarith
  have ev: "even a \<longleftrightarrow> even (a mod 4)" by presburger
  have "y = 4 * (a div 4) + g" using assms by (simp add: g_def a_def b_def)
  moreover have "g < 4" unfolding g_def ev using a by auto
  moreover have "2 \<le> g \<longleftrightarrow> 2 ^ (k + 2) \<le> 2 * (a mod 4 * 2 ^ k + b)"
    unfolding g_def ev using a b by (elim disjE) (auto simp: power_add)
  moreover have "odd g \<longleftrightarrow> (a mod 4 * 2 ^ k + b) mod 2 ^ (k + 2 - 1) \<noteq> 0"
    unfolding g_def ev using a b by (elim disjE) (auto simp: power_add mod_if)
  ultimately show ?thesis unfolding guarded_def q r by blast
qed

text \<open>The word operations of the rounding.\<close>

lemma unat_or_1: "unat (w OR 1) = unat w + (if even (unat w) then 1 else 0)" for w :: "128 word"
  by (subst unsigned_or_eq) (simp add: or_Suc_0_eq)

lemma unat_drop128: "unat (drop_bit k w) = unat w div 2 ^ k" for w :: "128 word"
  by (subst unat_drop_bit_eq) (rule drop_bit_eq_div)

lemma unat_push128: "unat w * 2 ^ k < 2 ^ 128 \<Longrightarrow> unat (push_bit k w) = unat w * 2 ^ k" for w :: "128 word"
  by (subst unsigned_push_bit_eq) (simp add: push_bit_eq_mult take_bit_eq_mod)

lemma unat_add128: "unat w + 1 < 2 ^ 128 \<Longrightarrow> unat (w + 1) = unat w + 1" for w :: "128 word"
  by (simp add: unat_word_ariths)

lemma u128_or_1: "u128 (lo OR 1) hi = u128 lo hi OR 1"
  using u128_or[of lo 1 hi] by simp

lemma round_mask_sticky:
  assumes "round_mask (int k) = (mlo, mhi)" "0 < k" "k < 128"
  shows "(lo AND mlo) OR (hi AND mhi) = 0 \<longleftrightarrow> unat (u128 lo hi) mod 2 ^ k = 0"
proof -
  have "u128 (lo AND mlo) (hi AND mhi) = take_bit k (u128 lo hi)"
  proof (rule bit_word_eqI)
    fix n assume "n < LENGTH(128)"
    then have n: "n < 128" by simp
    show "bit (u128 (lo AND mlo) (hi AND mhi)) n = bit (take_bit k (u128 lo hi)) n"
      using assms n
      by (cases "k < 64"; cases "n < 64")
        (auto simp: round_mask_def bit_u128 bit_simps nat_diff_distrib simp flip: mask_eq_exp_minus_1)
  qed
  moreover have "(lo AND mlo) OR (hi AND mhi) = 0 \<longleftrightarrow> u128 (lo AND mlo) (hi AND mhi) = 0"
    by (simp add: or_eq_0_iff)
  ultimately have "(lo AND mlo) OR (hi AND mhi) = 0 \<longleftrightarrow> take_bit k (u128 lo hi) = 0" by simp
  also have "\<dots> \<longleftrightarrow> unat (take_bit k (u128 lo hi)) = 0" by (rule unat_eq_0[symmetric])
  also have "unat (take_bit k (u128 lo hi)) = unat (u128 lo hi) mod 2 ^ k"
    by (subst unsigned_take_bit_eq) (rule take_bit_eq_mod)
  finally show ?thesis .
qed

lemma round_prep_guarded:
  assumes "2 ^ (n - 1) \<le> unat (u128 lo hi)" "unat (u128 lo hi) < 2 ^ n" "M < n" "n \<le> 128" "M \<le> 64"
  shows "guarded (unat (u128 lo hi)) (n - M) (unat (u128p (round_prep (int M) (int n) lo hi)))"
proof -
  let ?x = "unat (u128 lo hi)"
  consider "n = M + 1" | "n = M + 2" | "M + 2 < n" using assms(3) by linarith
  then show ?thesis
  proof cases
    case 1
    have "(2::nat) ^ n \<le> 2 ^ 65" using 1 assms(5) by (intro power_increasing) simp_all
    then have "?x * 2 ^ 1 < 2 ^ 128" using assms(2) by simp
    from unat_push128[OF this] show ?thesis
      using 1 guarded_one[of ?x] by (simp add: round_prep_def u128_shl_eq mult.commute)
  next
    case 2
    have "guarded ?x 2 ?x" using guarded_shift[of ?x ?x 0] by (simp add: numeral_2_eq_2)
    then show ?thesis using 2 by (simp add: round_prep_def u128p_def)
  next
    case gt: 3
    define k where "k = n - (M + 2)"
    have 3: "n = M + 2 + k" "0 < k" using gt by (simp_all add: k_def)
    obtain mlo mhi where m: "round_mask (int k) = (mlo, mhi)" by (cases "round_mask (int k)")
    obtain l h where sh: "u128_shr lo hi (int k) = (l, h)" by (cases "u128_shr lo hi (int k)")
    have y: "unat (u128 l h) = ?x div 2 ^ k"
      using u128_shr_eq[of lo hi "int k"] by (simp add: sh u128p_def unat_drop128)
    have "k < 128" using 3 assms(4) by simp
    note st = round_mask_sticky[OF m 3(2) this, of lo hi]
    have "round_prep (int M) (int n) lo hi = (if (lo AND mlo) OR (hi AND mhi) \<noteq> 0 then l OR 1 else l, h)"
      using 3 by (simp add: round_prep_def Let_def m sh)
    then have "unat (u128p (round_prep (int M) (int n) lo hi)) =
        ?x div 2 ^ k + (if ?x mod 2 ^ k \<noteq> 0 \<and> even (?x div 2 ^ k) then 1 else 0)"
      using st by (simp add: u128p_def u128_or_1 unat_or_1 y)
    from guarded_shift[OF this] show ?thesis using 3 by (simp add: add.commute)
  qed
qed

lemma round_even_unat:
  assumes "unat (u128 lo hi) < 2 ^ 127"
  defines "y \<equiv> unat (u128 lo hi)"
  shows "unat (u128p (round_even lo hi)) = (y + (if odd (y div 4) \<and> even y then 1 else 0) + 1) div 4"
proof -
  define l where "l = (if lo AND 4 \<noteq> 0 then lo OR 1 else lo)"
  obtain l2 h2 where a: "u128_add1 l hi = (l2, h2)" by (cases "u128_add1 l hi")
  have "lo AND 4 \<noteq> 0 \<longleftrightarrow> bit (u128 lo hi) 2"
  proof -
    have b4: "bit (4 :: u64) n = (n = 2)" for n
      using bit_exp_iff[of 2 n, where 'a = "64 word"] by auto
    have "bit (lo AND 4) n = (n = 2 \<and> bit lo 2)" for n unfolding bit_and_iff b4 by metis
    then have "lo AND 4 = 0 \<longleftrightarrow> \<not> bit lo 2" by (metis bit_0_eq bit_eq_iff bot_apply bot_bool_def)
    then show ?thesis by (simp add: bit_u128)
  qed
  also have "\<dots> \<longleftrightarrow> bit y 2" by (simp add: y_def bit_unsigned_iff)
  also have "\<dots> \<longleftrightarrow> odd (y div 4)" by (simp add: bit_iff_odd[of y])
  finally have l: "unat (u128 l hi) = y + (if odd (y div 4) \<and> even y then 1 else 0)"
    by (simp add: l_def u128_or_1 unat_or_1 y_def)
  have "unat (u128 l2 h2) = unat (u128 l hi + 1)"
    using u128_add1_eq[of l hi] by (simp add: a u128p_def)
  also have "\<dots> = unat (u128 l hi) + 1"
    using assms(1) l by (intro unat_add128) (simp add: y_def split: if_splits)
  finally show ?thesis
    using u128_shr_eq[of l2 h2 2] l by (simp add: round_even_def Let_def a unat_drop128 flip: l_def)
qed

text \<open>The fields of the result.\<close>

definition ieee_exp :: "nat \<Rightarrow> nat \<Rightarrow> u64 \<Rightarrow> nat" where
  "ieee_exp dst_bits dst_sig w = unat w div 2 ^ dst_sig mod 2 ^ (dst_bits - dst_sig - 1)"

definition ieee_frac :: "nat \<Rightarrow> u64 \<Rightarrow> nat" where
  "ieee_frac dst_sig w = unat w mod 2 ^ dst_sig"

lemma bit_lt: "e < 2 ^ k \<Longrightarrow> bit e n \<Longrightarrow> n < k" for e :: nat
  by (metis bit_take_bit_iff take_bit_nat_eq_self)

lemma ieee_fields:
  assumes sizes: "sig + 2 \<le> bits" "bits \<le> 64" and E: "E < 2 ^ (bits - sig - 1)"
    and r: "r = (if sign then push_bit (bits - 1) 1 else 0) OR push_bit sig (word_of_int (int E)) OR (lo AND (push_bit sig 1 - 1))"
  shows "ieee_exp bits sig r = E" "ieee_frac sig r = unat lo mod 2 ^ sig" "bit r (bits - 1) = sign" "unat r < 2 ^ bits"
proof -
  let ?S = "if sign then 1 else 0 :: nat"
  have B: "unat (push_bit sig (word_of_int (int E)) :: u64) = push_bit sig E"
  proof -
    have "E * 2 ^ sig < 2 ^ (bits - sig - 1) * 2 ^ sig" using E by simp
    also have "\<dots> = 2 ^ (bits - 1)" using sizes by (simp only: power_add[symmetric]) simp
    also have "\<dots> \<le> (2::nat) ^ 64" using sizes by (intro power_increasing) simp_all
    finally have l: "E * 2 ^ sig < 2 ^ 64" .
    then have "E < 2 ^ 64" by (rule le_less_trans[rotated]) simp
    then have "unat (word_of_int (int E) :: u64) = E" by (simp add: unat_of_nat)
    then show ?thesis using l
      by (subst unsigned_push_bit_eq) (simp add: push_bit_eq_mult take_bit_eq_mod)
  qed
  have A: "unat (if sign then push_bit (bits - 1) 1 else 0 :: u64) = push_bit (bits - 1) ?S"
  proof -
    have "(2::nat) ^ (bits - 1) < 2 ^ 64" using sizes by (intro power_strict_increasing) simp_all
    then have "unat (push_bit (bits - 1) (1 :: u64)) = push_bit (bits - 1) 1"
      by (subst unsigned_push_bit_eq) (simp add: push_bit_eq_mult take_bit_eq_mod)
    then show ?thesis by (cases sign) (simp_all only: if_True if_False push_bit_of_0 unsigned_0)
  qed
  have C: "unat (lo AND (push_bit sig 1 - 1)) = take_bit sig (unat lo)"
    by (simp add: unsigned_take_bit_eq flip: take_bit_eq_mask mask_eq_exp_minus_1)
  have "unat r = (push_bit (bits - 1) ?S OR push_bit sig E) OR take_bit sig (unat lo)"
    unfolding r unsigned_or_eq A B C by (simp only: or.assoc)
  also have "push_bit (bits - 1) ?S OR push_bit sig E = push_bit (bits - 1) ?S + push_bit sig E"
    using E sizes by (intro disjunctive_add[symmetric]) (auto simp: bit_simps bit_1_iff dest: bit_lt)
  also have "(push_bit (bits - 1) ?S + push_bit sig E) OR take_bit sig (unat lo) =
      push_bit (bits - 1) ?S + push_bit sig E + take_bit sig (unat lo)"
  proof -
    have "push_bit (bits - 1) ?S + push_bit sig E = push_bit sig (push_bit (bits - 1 - sig) ?S + E)"
      using sizes by (simp add: push_bit_eq_mult algebra_simps flip: power_add)
    then show ?thesis by (intro disjunctive_add[symmetric]) (auto simp: bit_simps)
  qed
  finally have u: "unat r = ?S * 2 ^ (bits - 1) + E * 2 ^ sig + unat lo mod 2 ^ sig"
    by (simp add: push_bit_eq_mult take_bit_eq_mod)
  have "?S * 2 ^ (bits - 1) = ?S * 2 ^ (bits - sig - 1) * 2 ^ sig" using sizes by (simp flip: power_add)
  then have "unat r = (?S * 2 ^ (bits - sig - 1) + E) * 2 ^ sig + unat lo mod 2 ^ sig"
    unfolding u by (simp add: algebra_simps)
  then have d: "unat r div 2 ^ sig = ?S * 2 ^ (bits - sig - 1) + E" and m: "unat r mod 2 ^ sig = unat lo mod 2 ^ sig"
    by simp_all
  show "ieee_exp bits sig r = E" unfolding ieee_exp_def d using E by simp
  show "ieee_frac sig r = unat lo mod 2 ^ sig" unfolding ieee_frac_def by (rule m)
  have "unat r div 2 ^ (bits - 1) = unat r div 2 ^ sig div 2 ^ (bits - sig - 1)"
    using sizes by (simp add: div_mult2_eq[symmetric] flip: power_add)
  also have "\<dots> = ?S" unfolding d using E by simp
  finally have s: "unat r div 2 ^ (bits - 1) = ?S" .
  then have "bit (unat r) (bits - 1) = sign" by (simp add: bit_iff_odd)
  then show "bit r (bits - 1) = sign" using sizes by (simp add: bit_unsigned_iff)
  have "unat r div 2 ^ (bits - 1) < 2" using s by simp
  then have "unat r < 2 * 2 ^ (bits - 1)" by (simp add: div_less_iff_less_mult)
  then show "unat r < 2 ^ bits" using sizes by (simp flip: power_Suc)
qed

section \<open>Conversions to floating point round to nearest\<close>

text \<open>\<open>nearest x m s e\<close>: among all \<open>k * 2 ^ i\<close> with \<open>k < 2 ^ m\<close>, \<open>s * 2 ^ e\<close> is nearest to \<open>x * 2 ^ (m - 1)\<close>, a tie has \<open>s\<close> even.\<close>

definition nearest :: "nat \<Rightarrow> nat \<Rightarrow> nat \<Rightarrow> nat \<Rightarrow> bool" where
  "nearest x m s e \<longleftrightarrow>
     (\<forall>k i. k < 2 ^ m \<longrightarrow>
        \<bar>int (s * 2 ^ e) - int (x * 2 ^ (m - 1))\<bar> \<le> \<bar>int (k * 2 ^ i) - int (x * 2 ^ (m - 1))\<bar> \<and>
        (\<bar>int (k * 2 ^ i) - int (x * 2 ^ (m - 1))\<bar> = \<bar>int (s * 2 ^ e) - int (x * 2 ^ (m - 1))\<bar> \<and> k * 2 ^ i \<noteq> s * 2 ^ e \<longrightarrow> even s))"

lemma nearest_exact: "s * 2 ^ e = x * 2 ^ (m - 1) \<Longrightarrow> nearest x m s e"
  by (auto simp: nearest_def simp del: of_nat_mult)

lemma nearest_rne:
  assumes x: "2 ^ (n - 1) \<le> x" "x < 2 ^ n" and m: "m < n" "0 < m"
  shows "nearest x m (rne x (n - m)) (n - 1)"
  unfolding nearest_def
proof (intro allI impI)
  fix k i :: nat assume k: "k < 2 ^ m"
  let ?c = "2 ^ (m - 1) :: int" and ?R = "rne x (n - m)" and ?d = "\<lambda>j. \<bar>int j * 2 ^ (n - m) - int x\<bar>"
  have scale: "\<bar>int (j * 2 ^ (n - 1)) - int (x * 2 ^ (m - 1))\<bar> = ?d j * ?c" for j
  proof -
    have e: "(2::int) ^ (n - 1) = 2 ^ (n - m) * ?c" using m by (simp flip: power_add)
    have "int (j * 2 ^ (n - 1)) = int j * (2 ^ (n - m) * ?c)" by (simp only: of_nat_mult of_nat_power of_nat_numeral e)
    moreover have "int (x * 2 ^ (m - 1)) = int x * ?c" by simp
    ultimately have "int (j * 2 ^ (n - 1)) - int (x * 2 ^ (m - 1)) = (int j * 2 ^ (n - m) - int x) * ?c"
      by (simp only: algebra_simps)
    then show ?thesis by (simp add: abs_mult)
  qed
  note N = rne_near[where x = x and k = "n - m"]
  show "\<bar>int (?R * 2 ^ (n - 1)) - int (x * 2 ^ (m - 1))\<bar> \<le> \<bar>int (k * 2 ^ i) - int (x * 2 ^ (m - 1))\<bar> \<and>
    (\<bar>int (k * 2 ^ i) - int (x * 2 ^ (m - 1))\<bar> = \<bar>int (?R * 2 ^ (n - 1)) - int (x * 2 ^ (m - 1))\<bar> \<and> k * 2 ^ i \<noteq> ?R * 2 ^ (n - 1) \<longrightarrow> even ?R)"
  proof (cases "n - 1 \<le> i")
    case True
    then have e: "k * 2 ^ i = (k * 2 ^ (i - (n - 1))) * 2 ^ (n - 1)" by (simp flip: power_add)
    show ?thesis unfolding e scale using N(1)[of "k * 2 ^ (i - (n - 1))"] N(2)[of "k * 2 ^ (i - (n - 1))"] by auto
  next
    case False
    have "k * 2 ^ i < 2 ^ m * 2 ^ i" using k by simp
    also have "\<dots> \<le> 2 ^ m * 2 ^ (n - 2)" using False by (intro mult_le_mono2 power_increasing) simp_all
    also have "\<dots> = 2 ^ (m - 1) * 2 ^ (n - 1)" using m by (simp flip: power_add)
    finally have lt: "k * 2 ^ i < 2 ^ (m - 1) * 2 ^ (n - 1)" .
    have le: "2 ^ (m - 1) * 2 ^ (n - 1) \<le> x * 2 ^ (m - 1)" using x(1) by simp
    have "\<bar>int (2 ^ (m - 1) * 2 ^ (n - 1)) - int (x * 2 ^ (m - 1))\<bar> < \<bar>int (k * 2 ^ i) - int (x * 2 ^ (m - 1))\<bar>"
      using lt le by linarith
    moreover have "\<bar>int (?R * 2 ^ (n - 1)) - int (x * 2 ^ (m - 1))\<bar> \<le> \<bar>int (2 ^ (m - 1) * 2 ^ (n - 1)) - int (x * 2 ^ (m - 1))\<bar>"
      unfolding scale using N(1)[of "2 ^ (m - 1)"] by simp
    ultimately show ?thesis by linarith
  qed
qed

lemma u128_small: "unat (u128 l h) < 2 ^ 64 \<Longrightarrow> h = 0 \<and> unat l = unat (u128 l h)"
  by (cases "unat h") (auto simp: unat_u128 unat_eq_zero)

lemma ieee_norm_ok:
  assumes x: "u128 lo hi \<noteq> 0" and m: "2 \<le> m" "m \<le> 63" and eq: "ieee_norm (int m) lo hi = (l, h, e)"
  shows "\<exists>k \<le> 128. e = int k \<and> 2 ^ (m - 1) \<le> unat l \<and> unat l < 2 ^ m \<and> nearest (unat (u128 lo hi)) m (unat l) k"
proof -
  let ?x = "unat (u128 lo hi)"
  obtain n where n: "u128_sd lo hi = int n" "0 < n" "n \<le> 128" "2 ^ (n - 1) \<le> ?x" "?x < 2 ^ n"
    using u128_sd_bounds[OF x] by metis
  have m64: "(2::nat) ^ m < 2 ^ 64" using m by (intro power_strict_increasing) simp_all
  show ?thesis
  proof (cases "m < n")
    case False
    have "?x * 2 ^ (m - n) < 2 ^ n * 2 ^ (m - n)" using n(5) by simp
    also have "\<dots> = 2 ^ m" using False by (simp flip: power_add)
    finally have lt: "?x * 2 ^ (m - n) < 2 ^ m" .
    have "2 ^ (n - 1) * 2 ^ (m - n) \<le> ?x * 2 ^ (m - n)" using n(4) by simp
    moreover have "(2::nat) ^ (n - 1) * 2 ^ (m - n) = 2 ^ (m - 1)" using False n(2) by (simp flip: power_add)
    ultimately have ge: "2 ^ (m - 1) \<le> ?x * 2 ^ (m - n)" by (simp only:)
    have "u128_shl lo hi (int m - int n) = (l, h)" "e = int (n - 1)"
      using eq False n(1,2) by (auto simp: ieee_norm_def Let_def split: prod.splits)
    then have "u128 l h = push_bit (m - n) (u128 lo hi)"
      using u128_shl_eq[of lo hi "int m - int n"] by (simp add: u128p_def nat_minus_as_int)
    then have u: "unat (u128 l h) = ?x * 2 ^ (m - n)"
      using unat_push128[of "u128 lo hi" "m - n"] lt m64 by simp
    then have l: "unat l = ?x * 2 ^ (m - n)" using u128_small[of l h] lt m64 by simp
    have "(2::nat) ^ (m - n) * 2 ^ (n - 1) = 2 ^ (m - 1)" using False n(2) by (simp flip: power_add)
    then have "nearest ?x m (unat l) (n - 1)" by (intro nearest_exact) (simp add: l mult.assoc)
    then show ?thesis using l lt ge \<open>e = int (n - 1)\<close> n(3) by (intro exI[of _ "n - 1"]) simp
  next
    case True
    define k where "k = n - m"
    have k0: "0 < k" using True by (simp add: k_def)
    obtain l1 h1 where p1: "round_prep (int m) (int n) lo hi = (l1, h1)" by (cases "round_prep (int m) (int n) lo hi")
    obtain l2 h2 where p2: "round_even l1 h1 = (l2, h2)" by (cases "round_even l1 h1")
    have g: "guarded ?x k (unat (u128 l1 h1))"
      using round_prep_guarded[OF n(4,5) True n(3)] m(2) p1 by (simp add: u128p_def k_def)
    have "?x div 2 ^ k < 2 ^ m"
    proof -
      have "?x < 2 ^ m * 2 ^ k" using n(5) True by (simp add: k_def flip: power_add)
      then show ?thesis by (simp add: div_less_iff_less_mult)
    qed
    then have "unat (u128 l1 h1) < 4 * 2 ^ 64" using g m64 by (auto simp: guarded_def)
    then have "unat (u128 l1 h1) < 2 ^ 127" by simp
    from round_even_unat[OF this] have r: "unat (u128 l2 h2) = rne ?x k"
      using guarded_round[OF g k0] p2 by (simp add: u128p_def)
    have rb: "2 ^ (m - 1) \<le> rne ?x k" "rne ?x k \<le> 2 ^ m"
      using rne_bounds[OF n(4,5), of k] True n(2) m(1) by (simp_all add: k_def)
    have l2: "unat l2 = rne ?x k" "h2 = 0" using u128_small[of l2 h2] r rb(2) m64 by simp_all
    have near: "nearest ?x m (rne ?x k) (n - 1)"
      unfolding k_def by (rule nearest_rne[OF n(4,5) True]) (use m in simp)
    have bit: "drop_bit m l2 AND 1 \<noteq> 0 \<longleftrightarrow> rne ?x k = 2 ^ m"
    proof -
      have "bit l2 m \<longleftrightarrow> odd (rne ?x k div 2 ^ m)"
      proof -
        have "bit l2 m = bit (unat l2) m" using m(2) by (simp add: bit_unsigned_iff)
        then show ?thesis unfolding l2(1) by (simp only: bit_iff_odd)
      qed
      also have "\<dots> \<longleftrightarrow> rne ?x k = 2 ^ m" using rb(2) by (cases "rne ?x k = 2 ^ m") simp_all
      finally show ?thesis by (simp add: bit_and_1)
    qed
    show ?thesis
    proof (cases "rne ?x k = 2 ^ m")
      case False
      then have "(l, h, e) = (l2, h2, int n - 1)"
        using eq True bit m(2) unfolding ieee_norm_def Let_def n(1) p1 by (simp add: p2)
      then show ?thesis using near rb False l2 n(2,3) by (intro exI[of _ "n - 1"]) auto
    next
      case carry: True
      obtain l3 h3 where p3: "u128_shr l2 h2 1 = (l3, h3)" by (cases "u128_shr l2 h2 1")
      have "(l, h, e) = (l3, h3, int n)"
        using eq True bit m(2) carry unfolding ieee_norm_def Let_def n(1) p1 by (simp add: p2 p3)
      moreover have "unat (u128 l3 h3) = 2 ^ m div 2 ^ 1"
        using u128_shr_eq[of l2 h2 1] r carry p3 by (simp add: u128p_def unat_drop128)
      then have u: "unat (u128 l3 h3) = 2 ^ (m - 1)" using m(1) by (simp add: power_diff)
      then have l3: "unat l3 = 2 ^ (m - 1)"
        using u128_small[of l3 h3] power_strict_increasing[of "m - 1" 64 "2::nat"] m(2) by simp
      moreover have "nearest ?x m (unat l3) n"
      proof -
        have "rne ?x k * 2 ^ (n - 1) = unat l3 * 2 ^ n"
          unfolding carry l3 using m(1) n(2) by (simp flip: power_add)
        moreover have "even (unat l3)" unfolding l3 using m(1) by simp
        ultimately show ?thesis using near unfolding nearest_def by auto
      qed
      ultimately show ?thesis using m(1) n(3) by (intro exI[of _ n]) simp
    qed
  qed
qed

text \<open>
  A float of \<open>bits\<close> bits, \<open>sig\<close> of them fraction, is the rounding of \<open>x\<close> with the given sign: a zero only for 0, and
  otherwise its significand and exponent are nearest to \<open>x\<close> (an exponent field of all ones, which only the
  32-bit format reaches, is the infinity that stands for \<open>2 ^ 128\<close>).
\<close>

definition rounded :: "nat \<Rightarrow> nat \<Rightarrow> nat \<Rightarrow> nat \<Rightarrow> bool \<Rightarrow> u64 \<Rightarrow> bool" where
  "rounded bits sig bias x sign r \<longleftrightarrow>
     (if x = 0 then r = 0
      else unat r < 2 ^ bits \<and> bit r (bits - 1) = sign \<and> bias \<le> ieee_exp bits sig r \<and>
        nearest x (sig + 1) (2 ^ sig + ieee_frac sig r) (ieee_exp bits sig r - bias))"

lemma u128_to_ieee_rounded:
  assumes "1 \<le> sig" "sig \<le> 62" "sig + 2 \<le> bits" "bits \<le> 64" "128 + bias < 2 ^ (bits - sig - 1)"
    and bias: "bias = 2 ^ (bits - sig - 1 - 1) - 1"
  shows "rounded bits sig bias (unat (u128 lo hi)) sign (u128_to_ieee lo hi sign bits sig)"
proof (cases "u128 lo hi = 0")
  case True
  then show ?thesis by (simp add: rounded_def u128_to_ieee_def)
next
  case False
  obtain l h e where n: "ieee_norm (int (sig + 1)) lo hi = (l, h, e)" by (cases "ieee_norm (int (sig + 1)) lo hi")
  from ieee_norm_ok[OF False _ _ n] assms obtain k where
    k: "k \<le> 128" "e = int k" "2 ^ sig \<le> unat l" "unat l < 2 ^ (sig + 1)" "nearest (unat (u128 lo hi)) (sig + 1) (unat l) k" by auto
  have b: "int k + (2 ^ (bits - sig - 1 - 1) - 1) = int (k + bias)"
  proof -
    have "int (2 ^ (bits - sig - 1 - 1) - 1) = 2 ^ (bits - sig - 1 - 1) - 1" by (simp add: of_nat_diff)
    then show ?thesis unfolding bias of_nat_add by (simp only:)
  qed
  have r: "u128_to_ieee lo hi sign bits sig =
      (if sign then push_bit (bits - 1) 1 else 0) OR push_bit sig (word_of_int (int (k + bias))) OR (l AND (push_bit sig 1 - 1))"
  proof -
    have "\<not> (lo = 0 \<and> hi = 0)" using False by simp
    then show ?thesis
      using n unfolding u128_to_ieee_def Let_def b[symmetric] k(2)[symmetric] by (simp only: if_False) (simp add: add.commute)
  qed
  have E: "k + bias < 2 ^ (bits - sig - 1)" using assms(5) k(1) by simp
  note F = ieee_fields[OF assms(3,4) E r]
  have "unat l mod 2 ^ sig = unat l - 2 ^ sig" using k(3,4) by (simp add: mod_if)
  then have "2 ^ sig + ieee_frac sig (u128_to_ieee lo hi sign bits sig) = unat l" using F(2) k(3) by simp
  then have s: "nearest (unat (u128 lo hi)) (sig + 1) (2 ^ sig + ieee_frac sig (u128_to_ieee lo hi sign bits sig)) k"
    using k(5) by (simp only:)
  have x: "unat (u128 lo hi) \<noteq> 0" using False unat_eq_zero by blast
  show ?thesis unfolding rounded_def if_not_P[OF x] F(1) using F(3,4) s by auto
qed

text \<open>The magnitude and sign of a signed value.\<close>

lemma signed_abs_ok:
  assumes "signed_abs lo hi = (l, h, sign)"
  shows "unat (u128 l h) = nat \<bar>sint (u128 lo hi)\<bar>" "sign \<longleftrightarrow> sint (u128 lo hi) < 0"
proof -
  let ?w = "u128 lo hi"
  have c: "drop_bit 63 hi \<noteq> 0 \<longleftrightarrow> 2 ^ 127 \<le> unat ?w" by (rule u128_carry_bit)
  have b: "bit ?w 127 \<longleftrightarrow> 2 ^ 127 \<le> unat ?w"
  proof -
    have "bit ?w 127 = bit (unat ?w) 127" by (simp add: bit_unsigned_iff)
    also have "\<dots> \<longleftrightarrow> odd (unat ?w div 2 ^ 127)" by (simp only: bit_iff_odd)
    also have "unat ?w div 2 ^ 127 = (if 2 ^ 127 \<le> unat ?w then 1 else 0)"
      using unat_lt128[of ?w] by (auto intro: div_nat_eqI)
    finally show ?thesis by simp
  qed
  have si: "sint ?w = (if 2 ^ 127 \<le> unat ?w then int (unat ?w) - 2 ^ 128 else int (unat ?w))"
  proof -
    have "take_bit 128 (uint ?w) = uint ?w"
      using uint_lt2p[of ?w] by (intro take_bit_int_eq_self) simp_all
    then show ?thesis using b by (simp add: sint_uint signed_take_bit_eq_take_bit_minus bit_uint_iff)
  qed
  have neg: "unat (- ?w) = 2 ^ 128 - unat ?w" if "2 ^ 127 \<le> unat ?w"
    using that unat_sub_if'[of 0 ?w] by simp
  show "sign \<longleftrightarrow> sint (u128 lo hi) < 0"
    using assms c si uint_lt2p[of ?w] by (auto simp: signed_abs_def split: if_splits prod.splits)
  show "unat (u128 l h) = nat \<bar>sint (u128 lo hi)\<bar>"
  proof (cases "2 ^ 127 \<le> unat ?w")
    case True
    then have "u128_neg lo hi = (l, h)" using assms c by (auto simp: signed_abs_def split: prod.splits)
    then have "u128 l h = - ?w" using u128_neg_eq[of lo hi] by (simp add: u128p_def)
    then have u: "unat (u128 l h) = 2 ^ 128 - unat ?w" by (simp only: neg[OF True])
    have "2 ^ 128 - x = nat \<bar>int x - 2 ^ 128\<bar>" if "x < 2 ^ 128" for x :: nat using that by simp
    from this[OF unat_lt128] show ?thesis unfolding u si using True by (simp only: if_True)
  next
    case False
    then show ?thesis using assms c si by (simp add: signed_abs_def)
  qed
qed

text \<open>The bytes of a word are the word.\<close>

lemma load_bytes_bit: "bit (load_bytes b n) j \<longleftrightarrow> j < 64 \<and> j < 8 * n \<and> bit (b ! (j div 8)) (j mod 8)"
proof (induction n)
  case (Suc n)
  have e: "load_bytes b (Suc n) = load_bytes b n OR push_bit (8 * n) (ucast (b ! n))" by (simp add: load_bytes_def)
  have "8 * n \<le> j \<and> bit (b ! n) (j - 8 * n) \<longleftrightarrow> j div 8 = n \<and> bit (b ! n) (j mod 8)"
  proof (cases "j div 8 = n")
    case True
    then have "j - 8 * n = j mod 8" "8 * n \<le> j" by (auto simp: minus_mult_div_eq_mod)
    then show ?thesis using True by simp
  next
    case False
    then have "\<not> bit (b ! n) (j - 8 * n)" if "8 * n \<le> j"
      using that bit_imp_le_length[of "b ! n" "j - 8 * n"] by fastforce
    then show ?thesis using False by blast
  qed
  moreover have "8 * n \<le> j \<Longrightarrow> j < 8 + 8 * n \<Longrightarrow> j div 8 = n" by (intro div_nat_eqI) simp_all
  ultimately show ?case unfolding e using Suc by (auto simp: bit_simps)
qed (simp add: load_bytes_def)

lemma ucast_low_byte: "(ucast (x AND 0xff) :: u8) = ucast (x :: u64)"
proof -
  have "(0xff :: u64) = mask 8" by (simp add: mask_eq_exp_minus_1)
  then have "bit (0xff :: u64) n" if "n < 8" for n using that bit_mask_iff[of 8 n, where 'a = "64 word"] by simp
  then show ?thesis by (intro bit_word_eqI) (simp add: bit_simps)
qed

lemma store_bytes_nth: "i < n \<Longrightarrow> store_bytes n x ! i = ucast (drop_bit (8 * i) x)"
proof (induction n arbitrary: x i)
  case (Suc n)
  then show ?case by (cases i) (auto intro!: bit_word_eqI simp: ucast_low_byte bit_simps ac_simps)
qed simp

lemma load_store: "n \<le> 8 \<Longrightarrow> load_bytes (store_bytes n x) n = take_bit (8 * n) x"
  by (rule bit_word_eqI)
    (auto simp: load_bytes_bit bit_simps store_bytes_nth less_mult_imp_div_less mult.commute)

lemma take_bit_self: "unat w < 2 ^ n \<Longrightarrow> take_bit n w = w" for w :: u64
proof -
  assume "unat w < 2 ^ n"
  then have "unat (take_bit n w) = unat w" by (subst unsigned_take_bit_eq) (simp add: take_bit_nat_eq_self)
  then show ?thesis by (simp only: word_unat_eq_iff)
qed

lemma load_double: "load_bytes (bits_to_double w) 8 = w"
  using take_bit_self[of w 64] unat_lt64[of w] by (simp add: bits_to_double_def load_store)

lemma load_float:
  assumes "rounded 32 23 127 x sg w"
  shows "load_bytes (bits_to_float w) 4 = w"
proof -
  have "unat w < 2 ^ 32" using assms by (auto simp: rounded_def split: if_splits)
  then have w: "take_bit 32 w = w" by (rule take_bit_self)
  have "ucast (ucast w :: u32) = take_bit 32 w" by (rule bit_word_eqI) (auto simp: bit_simps)
  then show ?thesis using w by (simp add: bits_to_float_def load_store)
qed

lemma double_rounded: "rounded 64 52 1023 (unat (u128 lo hi)) sg (u128_to_ieee lo hi sg 64 52)"
  by (rule u128_to_ieee_rounded; simp)

lemma float_rounded: "rounded 32 23 127 (unat (u128 lo hi)) sg (u128_to_ieee lo hi sg 32 23)"
  by (rule u128_to_ieee_rounded; simp)

text \<open>
  C22.  The conversions to \<open>double\<close> and \<open>float\<close> are correctly rounded: the bytes they return, read back as
  a word, have the sign of the argument and are the representable value nearest to it, with ties to even.
\<close>

theorem float_conversions_round:
  "rounded 64 52 1023 (nat \<bar>sint (u128 lo hi)\<bar>) (sint (u128 lo hi) < 0) (load_bytes (fakecc_floattidf lo hi) 8) \<and>
   rounded 64 52 1023 (unat (u128 lo hi)) False (load_bytes (fakecc_floatuntidf lo hi) 8) \<and>
   rounded 32 23 127 (nat \<bar>sint (u128 lo hi)\<bar>) (sint (u128 lo hi) < 0) (load_bytes (fakecc_floattisf lo hi) 4) \<and>
   rounded 32 23 127 (unat (u128 lo hi)) False (load_bytes (fakecc_floatuntisf lo hi) 4)"
proof -
  obtain l h s where a: "signed_abs lo hi = (l, h, s)" by (rule prod_cases3)
  show ?thesis
    using double_rounded[of lo hi False] float_rounded[of lo hi False] double_rounded[of l h s] float_rounded[of l h s]
      load_float[OF float_rounded] signed_abs_ok[OF a]
    by (simp add: fakecc_floattidf_def fakecc_floatuntidf_def fakecc_floattisf_def fakecc_floatuntisf_def a load_double)
qed

section \<open>Conversions from floating point truncate\<close>

text \<open>The integer part of the magnitude; 0 also for a magnitude of \<open>2 ^ 128\<close> or more.\<close>

definition trunc_mag :: "nat \<Rightarrow> nat \<Rightarrow> nat \<Rightarrow> nat \<Rightarrow> nat" where
  "trunc_mag sig bias E F = (if E < bias \<or> bias + 128 \<le> E then 0 else (2 ^ sig + F) * 2 ^ (E - bias) div 2 ^ sig)"

text \<open>The two's complement result; the unsigned conversion of a small negative value wraps in the low half only.\<close>

definition trunc_result :: "bool \<Rightarrow> bool \<Rightarrow> nat \<Rightarrow> 128 word" where
  "trunc_result sign is_unsigned t =
     (if \<not> sign then word_of_nat t
      else if is_unsigned \<and> t < 2 ^ 64 then word_of_nat ((2 ^ 64 - t) mod 2 ^ 64)
      else - word_of_nat t)"

lemma mag_shift:
  assumes "unat (u128 lo hi) < 2 ^ (b + 1)" "k < 128"
  shows "unat (u128p (if int k - int b < 0 then u128_shr lo hi (- (int k - int b)) else u128_shl lo hi (int k - int b))) =
    unat (u128 lo hi) * 2 ^ k div 2 ^ b"
proof (cases "k < b")
  case True
  then have n: "nat (- (int k - int b)) = b - k" by simp
  have e: "(2::nat) ^ b = 2 ^ k * 2 ^ (b - k)" using True by (simp flip: power_add)
  have "unat (u128 lo hi) * 2 ^ k div 2 ^ b = unat (u128 lo hi) div 2 ^ (b - k)"
    unfolding e by (simp add: mult.commute[of _ "2 ^ k"])
  moreover have "int k - int b < 0" using True by simp
  ultimately show ?thesis by (simp only: if_True u128_shr_eq n unat_drop128)
next
  case False
  then have n: "nat (int k - int b) = k - b" by simp
  have e: "(2::nat) ^ k = 2 ^ (k - b) * 2 ^ b" using False by (simp flip: power_add)
  have "unat (u128 lo hi) * 2 ^ (k - b) < 2 ^ (b + 1) * 2 ^ (k - b)" using assms(1) by simp
  also have "\<dots> = 2 ^ (k + 1)" using False by (simp flip: power_add)
  also have "\<dots> \<le> 2 ^ 128" using assms(2) by (intro power_increasing) simp_all
  finally have "unat (push_bit (k - b) (u128 lo hi)) = unat (u128 lo hi) * 2 ^ (k - b)" by (rule unat_push128)
  moreover have "\<not> int k - int b < 0" using False by simp
  moreover have "unat (u128 lo hi) * 2 ^ k div 2 ^ b = unat (u128 lo hi) * 2 ^ (k - b)"
    unfolding e mult.assoc[symmetric] by simp
  ultimately show ?thesis by (simp only: if_False u128_shl_eq n)
qed

lemma mag_to_i128_ok:
  assumes f: "unat frac < 2 ^ b" and b: "b \<le> 63"
  shows "u128p (mag_to_i128 sign uns (int E - int bias) frac b True) = trunc_result sign uns (trunc_mag b bias E (unat frac))"
proof (cases "E < bias \<or> bias + 128 \<le> E")
  case True
  then have "mag_to_i128 sign uns (int E - int bias) frac b True = (0, 0)" by (auto simp: mag_to_i128_def)
  then show ?thesis using True by (simp add: trunc_mag_def trunc_result_def u128p_def)
next
  case False
  define k where "k = E - bias"
  have k: "int E - int bias = int k" "k < 128" unfolding k_def using False by linarith+
  define lo where "lo = frac OR push_bit b 1"
  have "unat lo = unat frac + 2 ^ b"
  proof -
    have pb: "unat (push_bit b (1 :: u64)) = 2 ^ b"
      using power_strict_increasing[of b 64 "2::nat"] b
      by (subst unsigned_push_bit_eq) (simp add: push_bit_eq_mult take_bit_eq_mod)
    have "unat lo = unat frac OR push_bit b 1" unfolding lo_def unsigned_or_eq pb by (simp add: push_bit_eq_mult)
    also have "\<dots> = unat frac + push_bit b 1"
      using f by (intro disjunctive_add[symmetric]) (auto simp: bit_simps bit_1_iff dest: bit_lt)
    finally show ?thesis by (simp add: push_bit_eq_mult)
  qed
  then have u: "unat (u128 lo 0) = 2 ^ b + unat frac" by (simp add: unat_u128)
  obtain l h where lh: "(if int k - int b < 0 then u128_shr lo 0 (- (int k - int b)) else u128_shl lo 0 (int k - int b)) = (l, h)"
    by (rule prod.exhaust)
  define t where "t = trunc_mag b bias E (unat frac)"
  have t: "t = (2 ^ b + unat frac) * 2 ^ k div 2 ^ b" using False by (simp add: t_def trunc_mag_def k_def)
  have "unat (u128 lo 0) < 2 ^ (b + 1)" using f unfolding u by simp
  from mag_shift[OF this k(2)] have m: "unat (u128 l h) = t" unfolding lh u t by (simp add: u128p_def)
  have w: "u128 l h = word_of_nat t" using arg_cong[OF m, of "word_of_nat :: nat \<Rightarrow> 128 word"] by simp
  have small: "h = 0 \<longleftrightarrow> t < 2 ^ 64"
    using u128_small[of l h] m unat_lt64[of l] by (auto simp: unat_u128)
  have "mag_to_i128 sign uns (int E - int bias) frac b True =
      (if sign then (if uns \<and> h = 0 then (0 - l, h) else u128_neg l h) else (l, h))"
  proof -
    have "(int k < 0 \<or> int k \<ge> 128) = False" using k(2) by simp
    moreover have "(if True \<and> b < 64 then frac OR push_bit b 1 else frac) = lo"
      "(if True \<and> \<not> b < 64 then push_bit (b - 64) 1 else 0) = (0 :: u64)" using b by (simp_all add: lo_def)
    ultimately show ?thesis by (simp only: mag_to_i128_def k(1) Let_def if_False lh prod.case)
  qed
  moreover have "u128 (0 - l) 0 = word_of_nat ((2 ^ 64 - t) mod 2 ^ 64)" if "h = 0"
  proof -
    have "unat l = t" using m that by (simp add: unat_u128)
    then have "unat (0 - l) = (2 ^ 64 - t) mod 2 ^ 64" using unat_sub_if'[of 0 l] unat_lt64[of l] by (auto simp: mod_if)
    then show ?thesis unfolding u128_of_nat by simp
  qed
  ultimately show ?thesis
    unfolding t_def[symmetric] using small w u128_neg_eq[of l h]
    by (auto simp: trunc_result_def u128p_def)
qed

text \<open>Reading the fields.\<close>

lemma unat_take_bit_mod: "unat (take_bit n w) = unat w mod 2 ^ n"
  by (subst unsigned_take_bit_eq) (rule take_bit_eq_mod)

lemma unat_drop_bit_div: "unat (drop_bit k w) = unat w div 2 ^ k"
  by (subst unat_drop_bit_eq) (rule drop_bit_eq_div)

lemma fix_fields:
  fixes u :: "'a :: len word"
  assumes "m = mask n"
  shows "uint (drop_bit k u AND m) = int (unat u div 2 ^ k mod 2 ^ n)" "unat (u AND m) = unat u mod 2 ^ n"
proof -
  have "unat (drop_bit k u AND m) = unat u div 2 ^ k mod 2 ^ n" "unat (u AND m) = unat u mod 2 ^ n"
    unfolding assms take_bit_eq_mask[symmetric] unat_take_bit_mod unat_drop_bit_div by (rule refl)+
  note A = this
  show "unat (u AND m) = unat u mod 2 ^ n" by (rule A(2))
  have "int (unat (drop_bit k u AND m)) = int (unat u div 2 ^ k mod 2 ^ n)" unfolding A(1) ..
  then show "uint (drop_bit k u AND m) = int (unat u div 2 ^ k mod 2 ^ n)" unfolding of_nat_unat .
qed

lemma fix_sign: "drop_bit k u AND 1 \<noteq> 0 \<longleftrightarrow> bit u k" for u :: "'a :: len word"
  by (simp add: and_one_eq mod_2_eq_odd bit_iff_odd_drop_bit)

lemma subnormal_zero: "ex < 0 \<Longrightarrow> mag_to_i128 sign uns ex frac b imp = (0, 0)"
  by (simp add: mag_to_i128_def)

lemma fix_double_ok:
  "u128p (fix_double a uns) =
     (let w = load_bytes a 8; E = ieee_exp 64 52 w; F = ieee_frac 52 w in
      if E = 2047 then u128p (fix_special (F = 0) (bit w 63) uns)
      else trunc_result (bit w 63) uns (trunc_mag 52 1023 E F))"
proof -
  define w where "w = load_bytes a 8"
  have m: "(0x7ff :: u64) = mask 11" "(0x000fffffffffffff :: u64) = mask 52" by (simp_all add: mask_eq_exp_minus_1)
  define e where "e = ieee_exp 64 52 w"
  define f where "f = w AND 0x000fffffffffffff"
  have E: "uint (drop_bit 52 w AND 0x7ff) = int e" unfolding e_def ieee_exp_def using fix_fields(1)[OF m(1)] by simp
  have F: "unat f = ieee_frac 52 w" unfolding f_def ieee_frac_def using fix_fields(2)[OF m(2)] by simp
  have f0: "f = 0 \<longleftrightarrow> ieee_frac 52 w = 0" unfolding F[symmetric] by (rule unat_eq_0[symmetric])
  have lt: "unat f < 2 ^ 52" unfolding F by (simp add: ieee_frac_def)
  have M: "u128p (mag_to_i128 (bit w 63) uns (int e - 1023) f 52 True) = trunc_result (bit w 63) uns (trunc_mag 52 1023 e (ieee_frac 52 w))"
    using mag_to_i128_ok[OF lt, of "bit w 63" uns e 1023] by (simp add: F)
  have Z: "trunc_result (bit w 63) uns (trunc_mag 52 1023 0 (ieee_frac 52 w)) = 0" by (simp add: trunc_mag_def trunc_result_def)
  show ?thesis
    unfolding fix_double_def Let_def w_def[symmetric] E fix_sign f_def[symmetric] e_def[symmetric]
    using M Z f0 by (auto simp: subnormal_zero u128p_def)
qed

lemma fix_float_ok:
  "u128p (fix_float a uns) =
     (let w = load_bytes a 4; E = ieee_exp 32 23 w; F = ieee_frac 23 w in
      if E = 255 then u128p (fix_special (F = 0) (bit w 31) uns)
      else trunc_result (bit w 31) uns (trunc_mag 23 127 E F))"
proof -
  define w where "w = load_bytes a 4"
  define u :: u32 where "u = ucast w"
  have u: "unat u = unat w"
  proof -
    have "w = take_bit 32 w" unfolding w_def by (rule bit_word_eqI) (auto simp: load_bytes_bit bit_simps)
    then have "unat w < 2 ^ 32" by (metis unat_take_bit_mod mod_less_divisor zero_less_numeral zero_less_power)
    then show ?thesis by (simp add: u_def unsigned_ucast_eq take_bit_nat_eq_self)
  qed
  have b: "bit u 31 = bit w 31" by (simp add: u_def bit_simps)
  have m: "(0xff :: u32) = mask 8" "(0x7fffff :: u32) = mask 23" by (simp_all add: mask_eq_exp_minus_1)
  define e where "e = ieee_exp 32 23 w"
  define f :: u64 where "f = ucast (u AND 0x7fffff)"
  have E: "uint (drop_bit 23 u AND 0xff) = int e" unfolding e_def ieee_exp_def using fix_fields(1)[OF m(1), of 23 u] u by simp
  have lt0: "unat (u AND 0x7fffff) < 2 ^ 23" unfolding fix_fields(2)[OF m(2)] by simp
  then have "unat f = unat (u AND 0x7fffff)" by (simp add: f_def unsigned_ucast_eq take_bit_nat_eq_self)
  then have F: "unat f = ieee_frac 23 w" unfolding fix_fields(2)[OF m(2)] u ieee_frac_def .
  have f0: "f = 0 \<longleftrightarrow> ieee_frac 23 w = 0" unfolding F[symmetric] by (rule unat_eq_0[symmetric])
  have lt: "unat f < 2 ^ 23" unfolding F by (simp add: ieee_frac_def)
  have M: "u128p (mag_to_i128 (bit w 31) uns (int e - 127) f 23 True) = trunc_result (bit w 31) uns (trunc_mag 23 127 e (ieee_frac 23 w))"
    using mag_to_i128_ok[OF lt, of "bit w 31" uns e 127] by (simp add: F)
  have Z: "trunc_result (bit w 31) uns (trunc_mag 23 127 0 (ieee_frac 23 w)) = 0" by (simp add: trunc_mag_def trunc_result_def)
  show ?thesis
    unfolding fix_float_def Let_def w_def[symmetric] u_def[symmetric] E fix_sign b f_def[symmetric] e_def[symmetric]
    using M Z f0 by (auto simp: subnormal_zero u128p_def)
qed

text \<open>
  C23.  The conversions from \<open>double\<close> and \<open>float\<close> truncate, with every special case: a NaN gives the
  pattern \<open>nan_pattern\<close>, and so does a negative infinity converted to unsigned; the other infinities and the
  magnitudes of at least \<open>2 ^ 128\<close> give 0; otherwise the result is the integer part with its sign.
\<close>

theorem fix_truncates:
  "u128p (fix_double a uns) =
     (let w = load_bytes a 8; E = ieee_exp 64 52 w; F = ieee_frac 52 w in
      if E = 2047 then u128p (fix_special (F = 0) (bit w 63) uns)
      else trunc_result (bit w 63) uns (trunc_mag 52 1023 E F)) \<and>
   u128p (fix_float a uns) =
     (let w = load_bytes a 4; E = ieee_exp 32 23 w; F = ieee_frac 23 w in
      if E = 255 then u128p (fix_special (F = 0) (bit w 31) uns)
      else trunc_result (bit w 31) uns (trunc_mag 23 127 E F)) \<and>
   u128p (fix_special is_inf sign uns) = (if is_inf \<and> \<not> (sign \<and> uns) then 0 else u128p nan_pattern)"
  by (intro conjI fix_double_ok fix_float_ok) (simp add: fix_special_def u128p_def)

text \<open>
  C24.  Every signed value that a \<open>double\<close> represents exactly, that is every value with at most 53
  significant bits, survives the round trip through \<open>double\<close>.
\<close>

theorem double_roundtrip:
  assumes "nat \<bar>sint (u128 lo hi)\<bar> = k * 2 ^ i" "k < 2 ^ 53"
  shows "fakecc_fixdfti (fakecc_floattidf lo hi) = (lo, hi)"
proof -
  obtain l h s where a: "signed_abs lo hi = (l, h, s)" by (rule prod_cases3)
  note A = signed_abs_ok[OF a]
  let ?x = "nat \<bar>sint (u128 lo hi)\<bar>"
  define w where "w = load_bytes (fakecc_floattidf lo hi) 8"
  have w: "w = u128_to_ieee l h s 64 52" by (simp add: w_def fakecc_floattidf_def a load_double)
  have r: "rounded 64 52 1023 ?x s w" unfolding w A(1)[symmetric] by (rule double_rounded)
  define E F where "E = ieee_exp 64 52 w" and "F = ieee_frac 52 w"
  have T: "trunc_mag 52 1023 E F = ?x \<and> E \<noteq> 2047 \<and> bit w 63 = s"
  proof (cases "?x = 0")
    case True
    then have "w = 0" "\<not> s" using r A(2) by (simp_all add: rounded_def)
    then show ?thesis using True by (simp add: E_def F_def trunc_mag_def ieee_exp_def)
  next
    case False
    then have b: "bit w 63 = s" "1023 \<le> E" and nr: "nearest ?x (52 + 1) (2 ^ 52 + F) (E - 1023)"
      using r by (simp_all add: rounded_def E_def F_def)
    have "k * 2 ^ (i + 52) = ?x * 2 ^ 52" using assms(1) by (simp add: power_add)
    moreover have "\<bar>int ((2 ^ 52 + F) * 2 ^ (E - 1023)) - int (?x * 2 ^ 52)\<bar> \<le> \<bar>int (k * 2 ^ (i + 52)) - int (?x * 2 ^ 52)\<bar>"
    proof -
      have "k < 2 ^ (52 + 1)" using assms(2) by simp
      from nr[unfolded nearest_def, rule_format, OF this, of "i + 52"] show ?thesis by (simp only: add_diff_cancel_right')
    qed
    ultimately have v: "(2 ^ 52 + F) * 2 ^ (E - 1023) = ?x * 2 ^ 52" by linarith
    have "?x \<le> 2 ^ 127" using sint_ge[of "u128 lo hi"] sint_lt[of "u128 lo hi"] by simp
    then have "?x * 2 ^ 52 \<le> 2 ^ 127 * 2 ^ 52" by (rule mult_le_mono1)
    moreover have "2 ^ (E - 1023) * 2 ^ 52 \<le> (2 ^ 52 + F) * 2 ^ (E - 1023)" by (simp add: add_mult_distrib)
    ultimately have "(2::nat) ^ (E - 1023) * 2 ^ 52 \<le> 2 ^ 127 * 2 ^ 52" unfolding v by (rule order_trans[rotated])
    then have "(2::nat) ^ (E - 1023) \<le> 2 ^ 127" by (simp only: mult_le_cancel2) simp
    then have e: "E - 1023 \<le> 127" by (rule power_le_imp_le_exp[rotated]) simp
    then have "trunc_mag 52 1023 E F = ?x" using b(2) unfolding trunc_mag_def v by simp
    then show ?thesis using b e by simp
  qed
  have "u128p (fakecc_fixdfti (fakecc_floattidf lo hi)) = trunc_result s False ?x"
    using T unfolding fakecc_fixdfti_def fix_double_ok Let_def w_def[symmetric] E_def[symmetric] F_def[symmetric] by simp
  also have "\<dots> = u128 lo hi"
    using A(2) by (cases s) (simp_all add: trunc_result_def)
  finally show ?thesis by (cases "fakecc_fixdfti (fakecc_floattidf lo hi)") (simp add: u128p_def)
qed

lemma double_roundtrip_witness: "fakecc_fixdfti (fakecc_floattidf (- 3) (- 1)) = (- 3, - 1)"
proof (rule double_roundtrip[where k = 3 and i = 0])
  have "u128 (- 3) (- 1) = - 3" by code_simp
  then show "nat \<bar>sint (u128 (- 3) (- 1))\<bar> = 3 * 2 ^ 0" by simp
qed simp

end
