(* ===== verification/Sha256.thy ===== *)
theory Sha256
  imports Complex_Main Prelude
begin

text \<open>
  \<open>src/sha256.c\<close>: the hash the Mach-O writer signs its pages with.  The first half is the C code (a
  context with a 64-byte buffer, filled and compressed as bytes arrive); the second half is the
  standard (FIPS 180-4) as recursive definitions on the whole message.  The invariant \<open>absorbed\<close>
  says which message a context stands for; from it follows that hashing a message in any division
  into chunks gives the digest of the standard, and that the two loops always end.
\<close>

section \<open>The code\<close>

record sha256_ctx =
  sha_h :: "u32 list"
  sha_bit_len :: u64
  sha_block :: "u8 list"
  sha_used :: u64

text \<open>The table, one list per line of the C array.\<close>

definition sha256_k :: "u32 list" where
  "sha256_k = concat
    [[0x428a2f98, 0x71374491, 0xb5c0fbcf, 0xe9b5dba5],
     [0x3956c25b, 0x59f111f1, 0x923f82a4, 0xab1c5ed5],
     [0xd807aa98, 0x12835b01, 0x243185be, 0x550c7dc3],
     [0x72be5d74, 0x80deb1fe, 0x9bdc06a7, 0xc19bf174],
     [0xe49b69c1, 0xefbe4786, 0x0fc19dc6, 0x240ca1cc],
     [0x2de92c6f, 0x4a7484aa, 0x5cb0a9dc, 0x76f988da],
     [0x983e5152, 0xa831c66d, 0xb00327c8, 0xbf597fc7],
     [0xc6e00bf3, 0xd5a79147, 0x06ca6351, 0x14292967],
     [0x27b70a85, 0x2e1b2138, 0x4d2c6dfc, 0x53380d13],
     [0x650a7354, 0x766a0abb, 0x81c2c92e, 0x92722c85],
     [0xa2bfe8a1, 0xa81a664b, 0xc24b8b70, 0xc76c51a3],
     [0xd192e819, 0xd6990624, 0xf40e3585, 0x106aa070],
     [0x19a4c116, 0x1e376c08, 0x2748774c, 0x34b0bcb5],
     [0x391c0cb3, 0x4ed8aa4a, 0x5b9cca4f, 0x682e6ff3],
     [0x748f82ee, 0x78a5636f, 0x84c87814, 0x8cc70208],
     [0x90befffa, 0xa4506ceb, 0xbef9a3f7, 0xc67178f2]]"

definition ROR32 :: "u32 \<Rightarrow> nat \<Rightarrow> u32" where
  "ROR32 x n = drop_bit n x OR push_bit (32 - n) x"

definition load_be32 :: "u8 list \<Rightarrow> nat \<Rightarrow> u32" where
  "load_be32 p i =
     push_bit 24 (ucast (p ! i)) OR push_bit 16 (ucast (p ! (i + 1)))
     OR push_bit 8 (ucast (p ! (i + 2))) OR ucast (p ! (i + 3))"

definition store_be32 :: "u32 \<Rightarrow> u8 list" where
  "store_be32 v = [ucast (drop_bit 24 v), ucast (drop_bit 16 v), ucast (drop_bit 8 v), ucast v]"

text \<open>The array \<open>w\<close> is filled from the front, so round \<open>i\<close> of the second loop appends entry \<open>i\<close>.\<close>

definition sched_step :: "nat \<Rightarrow> u32 list \<Rightarrow> u32 list" where
  "sched_step i w =
     (let s0 = ROR32 (w ! (i - 15)) 7 XOR ROR32 (w ! (i - 15)) 18 XOR drop_bit 3 (w ! (i - 15));
          s1 = ROR32 (w ! (i - 2)) 17 XOR ROR32 (w ! (i - 2)) 19 XOR drop_bit 10 (w ! (i - 2))
      in w @ [w ! (i - 16) + s0 + w ! (i - 7) + s1])"

definition sched :: "u8 list \<Rightarrow> u32 list" where
  "sched block = fold sched_step [16..<64] (map (\<lambda>i. load_be32 block (4 * i)) [0..<16])"

type_synonym sha_regs = "u32 \<times> u32 \<times> u32 \<times> u32 \<times> u32 \<times> u32 \<times> u32 \<times> u32"

fun sha_round :: "u32 list \<Rightarrow> nat \<Rightarrow> sha_regs \<Rightarrow> sha_regs" where
  "sha_round w i (a, b, c, d, e, f, g, hh) =
     (let s1 = ROR32 e 6 XOR ROR32 e 11 XOR ROR32 e 25;
          ch = (e AND f) XOR (NOT e AND g);
          t1 = hh + s1 + ch + sha256_k ! i + w ! i;
          s0 = ROR32 a 2 XOR ROR32 a 13 XOR ROR32 a 22;
          maj = (a AND b) XOR (a AND c) XOR (b AND c);
          t2 = s0 + maj
      in (t1 + t2, a, b, c, d + t1, e, f, g))"

definition sha256_compress :: "u32 list \<Rightarrow> u8 list \<Rightarrow> u32 list" where
  "sha256_compress h block =
     (case fold (sha_round (sched block)) [0..<64]
             (h ! 0, h ! 1, h ! 2, h ! 3, h ! 4, h ! 5, h ! 6, h ! 7) of
        (a, b, c, d, e, f, g, hh) \<Rightarrow>
          [h ! 0 + a, h ! 1 + b, h ! 2 + c, h ! 3 + d, h ! 4 + e, h ! 5 + f, h ! 6 + g, h ! 7 + hh])"

definition sha256_init :: "sha256_ctx \<Rightarrow> sha256_ctx" where
  "sha256_init ctx = ctx\<lparr>
     sha_h := [0x6a09e667, 0xbb67ae85, 0x3c6ef372, 0xa54ff53a,
               0x510e527f, 0x9b05688c, 0x1f83d9ab, 0x5be0cd19],
     sha_bit_len := 0, sha_used := 0\<rparr>"

text \<open>
  One round of the loop of \<open>sha256_update\<close>: \<open>n\<close> bytes of the data go into the buffer, which is
  compressed when it is full.
\<close>

definition sha_take :: "sha256_ctx \<Rightarrow> u8 list \<Rightarrow> nat" where
  "sha_take ctx p = (let room = 64 - sha_used ctx in if length p < unat room then length p else unat room)"

definition sha_fill :: "sha256_ctx \<Rightarrow> u8 list \<Rightarrow> sha256_ctx" where
  "sha_fill ctx p =
     (let n = sha_take ctx p; u = unat (sha_used ctx);
          ctx = ctx\<lparr>sha_block := take u (sha_block ctx) @ take n p @ drop (u + n) (sha_block ctx),
                    sha_used := sha_used ctx + of_nat n\<rparr>
      in if sha_used ctx = 64
         then ctx\<lparr>sha_h := sha256_compress (sha_h ctx) (sha_block ctx), sha_used := 0\<rparr>
         else ctx)"

partial_function (option) sha_absorb :: "sha256_ctx \<Rightarrow> u8 list \<Rightarrow> sha256_ctx option" where
  "sha_absorb ctx p =
     (if p = [] then Some ctx else sha_absorb (sha_fill ctx p) (drop (sha_take ctx p) p))"

definition sha256_update :: "sha256_ctx \<Rightarrow> u8 list \<Rightarrow> sha256_ctx option" where
  "sha256_update ctx data =
     sha_absorb (ctx\<lparr>sha_bit_len := sha_bit_len ctx + of_nat (length data) * 8\<rparr>) data"

partial_function (option) sha_pad :: "sha256_ctx \<Rightarrow> sha256_ctx option" where
  "sha_pad ctx =
     (if sha_used ctx = 56 then Some ctx
      else do { ctx \<leftarrow> sha256_update ctx [0]; sha_pad ctx })"

definition sha256_final :: "sha256_ctx \<Rightarrow> u8 list option" where
  "sha256_final ctx = do {
     let bits = sha_bit_len ctx;
     ctx \<leftarrow> sha256_update ctx [0x80];
     ctx \<leftarrow> sha_pad ctx;
     let lenbuf = map (\<lambda>i. ucast (drop_bit (56 - 8 * i) bits)) [0..<8];
     ctx \<leftarrow> sha256_update ctx lenbuf;
     Some (concat (map (\<lambda>i. store_be32 (sha_h ctx ! i)) [0..<8]))
   }"

text \<open>\<open>ctx\<close> is the uninitialised local of \<open>sha256_buf\<close>.\<close>

definition sha256_buf :: "sha256_ctx \<Rightarrow> u8 list \<Rightarrow> u8 list option" where
  "sha256_buf ctx data = do { ctx \<leftarrow> sha256_update (sha256_init ctx) data; sha256_final ctx }"

text \<open>A client that feeds a message in pieces.\<close>

fun sha256_updates :: "sha256_ctx \<Rightarrow> u8 list list \<Rightarrow> sha256_ctx option" where
  "sha256_updates ctx [] = Some ctx"
| "sha256_updates ctx (d # ds) = do { ctx \<leftarrow> sha256_update ctx d; sha256_updates ctx ds }"

section \<open>The standard\<close>

text \<open>
  The functions of FIPS 180-4, section 4.1.2, on rotations of words; the message schedule as the
  recursion of section 6.2.2; the padding of section 5.1.1.
\<close>

definition Ch :: "u32 \<Rightarrow> u32 \<Rightarrow> u32 \<Rightarrow> u32" where
  "Ch x y z = (x AND y) XOR (NOT x AND z)"

definition Maj :: "u32 \<Rightarrow> u32 \<Rightarrow> u32 \<Rightarrow> u32" where
  "Maj x y z = (x AND y) XOR (x AND z) XOR (y AND z)"

definition Sigma0 :: "u32 \<Rightarrow> u32" where
  "Sigma0 x = word_rotr 2 x XOR word_rotr 13 x XOR word_rotr 22 x"

definition Sigma1 :: "u32 \<Rightarrow> u32" where
  "Sigma1 x = word_rotr 6 x XOR word_rotr 11 x XOR word_rotr 25 x"

definition sigma0 :: "u32 \<Rightarrow> u32" where
  "sigma0 x = word_rotr 7 x XOR word_rotr 18 x XOR drop_bit 3 x"

definition sigma1 :: "u32 \<Rightarrow> u32" where
  "sigma1 x = word_rotr 17 x XOR word_rotr 19 x XOR drop_bit 10 x"

definition be_nat :: "u8 list \<Rightarrow> nat" where
  "be_nat bs = foldl (\<lambda>n b. 256 * n + unat b) 0 bs"

definition be_bytes :: "nat \<Rightarrow> nat \<Rightarrow> u8 list" where
  "be_bytes k n = map (\<lambda>i. of_nat (n div 256 ^ (k - 1 - i))) [0..<k]"

fun sha_W :: "u8 list \<Rightarrow> nat \<Rightarrow> u32" where
  "sha_W M t =
     (if t < 16 then of_nat (be_nat (take 4 (drop (4 * t) M)))
      else sigma1 (sha_W M (t - 2)) + sha_W M (t - 7) + sigma0 (sha_W M (t - 15)) + sha_W M (t - 16))"

declare sha_W.simps [simp del]

primrec sha_regs_at :: "u8 list \<Rightarrow> sha_regs \<Rightarrow> nat \<Rightarrow> sha_regs" where
  "sha_regs_at M r 0 = r"
| "sha_regs_at M r (Suc t) =
     (case sha_regs_at M r t of (a, b, c, d, e, f, g, h) \<Rightarrow>
        (let T1 = h + Sigma1 e + Ch e f g + sha256_k ! t + sha_W M t;
             T2 = Sigma0 a + Maj a b c
         in (T1 + T2, a, b, c, d + T1, e, f, g)))"

definition sha_block_hash :: "sha_regs \<Rightarrow> u8 list \<Rightarrow> sha_regs" where
  "sha_block_hash H M =
     (case (H, sha_regs_at M H 64) of ((a, b, c, d, e, f, g, h), (a', b', c', d', e', f', g', h')) \<Rightarrow>
        (a + a', b + b', c + c', d + d', e + e', f + f', g + g', h + h'))"

function sha_hash :: "sha_regs \<Rightarrow> u8 list \<Rightarrow> sha_regs" where
  "sha_hash H m = (if length m < 64 then H else sha_hash (sha_block_hash H (take 64 m)) (drop 64 m))"
  by pat_completeness auto
termination
  by (relation "measure (\<lambda>(H, m). length m)") auto

declare sha_hash.simps [simp del]

definition sha_H0 :: sha_regs where
  "sha_H0 = (0x6a09e667, 0xbb67ae85, 0x3c6ef372, 0xa54ff53a,
             0x510e527f, 0x9b05688c, 0x1f83d9ab, 0x5be0cd19)"

definition sha_padded :: "u8 list \<Rightarrow> u8 list" where
  "sha_padded m = m @ 0x80 # replicate ((119 - length m mod 64) mod 64) 0 @ be_bytes 8 (8 * length m)"

definition sha_digest :: "sha_regs \<Rightarrow> u8 list" where
  "sha_digest r = (case r of (a, b, c, d, e, f, g, h) \<Rightarrow>
     concat (map (be_bytes 4 \<circ> unat) [a, b, c, d, e, f, g, h]))"

definition sha256_spec :: "u8 list \<Rightarrow> u8 list" where
  "sha256_spec m = sha_digest (sha_hash sha_H0 (sha_padded m))"

section \<open>One block\<close>

lemma ROR32_rotr: "0 < n \<Longrightarrow> n < 32 \<Longrightarrow> ROR32 x n = word_rotr n x"
proof (rule bit_word_eqI)
  fix k assume n: "0 < n" "n < 32" and "k < LENGTH(32)"
  then have k: "k < 32" by simp
  show "bit (ROR32 x n) k \<longleftrightarrow> bit (word_rotr n x) k"
  proof (cases "k + n < 32")
    case True
    with k n show ?thesis by (auto simp: ROR32_def bit_word_rotr_iff bit_simps add.commute)
  next
    case False
    with k n have "(k + n) mod 32 = k + n - 32" by (simp add: mod_if)
    moreover have "\<not> bit x (n + k)" using False bit_imp_le_length[of x "n + k"] by auto
    ultimately show ?thesis using False k n by (auto simp: ROR32_def bit_word_rotr_iff bit_simps)
  qed
qed

lemma be_nat4: "be_nat [a, b, c, d] = unat a * 2 ^ 24 + unat b * 2 ^ 16 + unat c * 2 ^ 8 + unat d"
  by (simp add: be_nat_def)

lemma bit_byte: "bit (ucast (a :: u8) :: u32) n \<Longrightarrow> n < 8"
  using bit_imp_le_length[of a n] by (simp add: bit_unsigned_iff)

lemma be32_or:
  fixes a b c d :: u8
  shows "push_bit 24 (ucast a) OR push_bit 16 (ucast b) OR push_bit 8 (ucast c) OR (ucast d :: u32)
    = of_nat (be_nat [a, b, c, d])"
proof -
  let ?a = "ucast a :: u32" and ?b = "ucast b :: u32" and ?c = "ucast c :: u32" and ?d = "ucast d :: u32"
  have "push_bit 8 ?c OR ?d = push_bit 8 ?c + ?d"
    by (rule disjunctive_add[symmetric]) (auto simp: bit_push_bit_iff dest: bit_byte)
  moreover have "push_bit 16 ?b OR (push_bit 8 ?c OR ?d) = push_bit 16 ?b + (push_bit 8 ?c OR ?d)"
    by (rule disjunctive_add[symmetric]) (auto simp: bit_push_bit_iff bit_or_iff dest: bit_byte)
  moreover have "push_bit 24 ?a OR (push_bit 16 ?b OR (push_bit 8 ?c OR ?d))
      = push_bit 24 ?a + (push_bit 16 ?b OR (push_bit 8 ?c OR ?d))"
    by (rule disjunctive_add[symmetric]) (auto simp: bit_push_bit_iff bit_or_iff dest: bit_byte)
  ultimately show ?thesis
    by (simp add: be_nat4 push_bit_eq_mult or.assoc unsigned_of_nat)
qed

lemma take4: "i + 3 < length xs \<Longrightarrow> take 4 (drop i xs) = [xs ! i, xs ! (i + 1), xs ! (i + 2), xs ! (i + 3)]"
  by (rule nth_equalityI) (auto simp: less_Suc_eq numeral_eq_Suc)

lemma load_be32_spec: "i + 3 < length p \<Longrightarrow> load_be32 p i = of_nat (be_nat (take 4 (drop i p)))"
  unfolding load_be32_def take4 by (simp only: or.assoc be32_or)

lemma sched_step_spec: "16 \<le> i \<Longrightarrow> sched_step i (map (sha_W M) [0..<i]) = map (sha_W M) [0..<Suc i]"
  by (simp add: sched_step_def sha_W.simps[of M i] Let_def nth_append
      sigma0_def sigma1_def ROR32_rotr add_ac)

lemma sched_spec:
  assumes "length M = 64"
  shows "sched M = map (sha_W M) [0..<64]"
proof -
  have "map (\<lambda>i. load_be32 M (4 * i)) [0..<16] = map (sha_W M) [0..<16]"
    using assms by (auto simp: load_be32_spec sha_W.simps)
  moreover have "fold sched_step [16..<64] (map (sha_W M) [0..<16]) = map (sha_W M) [0..<64]"
    by (rule fold_upt_inv[where P = "\<lambda>i w. w = map (sha_W M) [0..<i]"]) (auto simp: sched_step_spec)
  ultimately show ?thesis by (simp only: sched_def)
qed

lemma rounds_spec:
  assumes "length M = 64"
  shows "fold (sha_round (sched M)) [0..<64] r = sha_regs_at M r 64"
proof (rule fold_upt_inv[where P = "\<lambda>t s. s = sha_regs_at M r t"])
  fix t s assume "t < 64" "s = sha_regs_at M r t"
  moreover obtain a b c d e f g h where "sha_regs_at M r t = (a, b, c, d, e, f, g, h)"
    by (cases "sha_regs_at M r t") auto
  ultimately show "sha_round (sched M) t s = sha_regs_at M r (Suc t)"
    by (simp add: sched_spec[OF assms] Let_def Sigma0_def Sigma1_def Ch_def Maj_def ROR32_rotr add_ac)
qed auto

text \<open>The eight words of a context as a tuple, and back.\<close>

definition regs_of :: "u32 list \<Rightarrow> sha_regs" where
  "regs_of h = (h ! 0, h ! 1, h ! 2, h ! 3, h ! 4, h ! 5, h ! 6, h ! 7)"

lemma compress_spec:
  "length M = 64 \<Longrightarrow> regs_of (sha256_compress h M) = sha_block_hash (regs_of h) M"
  "length (sha256_compress h M) = 8"
  by (auto simp: sha256_compress_def sha_block_hash_def regs_of_def rounds_spec split: prod.split)

section \<open>The state of a context\<close>

definition complete :: "u8 list \<Rightarrow> u8 list" where
  "complete m = take (64 * (length m div 64)) m"

definition pending :: "u8 list \<Rightarrow> u8 list" where
  "pending m = drop (64 * (length m div 64)) m"

text \<open>A context has absorbed the message \<open>m\<close>: its words are the hash of the complete blocks of
  \<open>m\<close>, its buffer starts with the bytes after them.\<close>

definition absorbed :: "sha256_ctx \<Rightarrow> u8 list \<Rightarrow> bool" where
  "absorbed c m \<longleftrightarrow>
     length (sha_block c) = 64 \<and> length (sha_h c) = 8 \<and>
     unat (sha_used c) = length m mod 64 \<and>
     take (length m mod 64) (sha_block c) = pending m \<and>
     regs_of (sha_h c) = sha_hash sha_H0 (complete m)"

lemma complete_pending: "complete m @ pending m = m"
  by (simp add: complete_def pending_def)

lemma length_pending: "length (pending m) = length m mod 64"
  by (simp add: pending_def minus_mult_div_eq_mod)

lemma length_complete: "length (complete m) mod 64 = 0"
  by (simp add: complete_def min_absorb2)

lemma blocks_eqI:
  assumes "m = a @ b" "length a mod 64 = 0" "length b < 64"
  shows "complete m = a" "pending m = b"
proof -
  have "64 * (length m div 64) = length a" using assms by auto
  then show "complete m = a" "pending m = b" using assms by (simp_all add: complete_def pending_def)
qed

lemma sha_hash_append:
  "length a mod 64 = 0 \<Longrightarrow> sha_hash H (a @ b) = sha_hash (sha_hash H a) b"
proof (induction H a rule: sha_hash.induct)
  case (1 H a)
  show ?case
  proof (cases "length a < 64")
    case True
    with 1 have "a = []" by auto
    then show ?thesis by (simp add: sha_hash.simps[of H "[]"])
  next
    case False
    then have "length (drop 64 a) mod 64 = 0" using 1 by (simp add: le_mod_geq)
    with False 1 show ?thesis by (simp add: sha_hash.simps[of H a] sha_hash.simps[of H "a @ b"])
  qed
qed

lemma sha_hash_block: "length b = 64 \<Longrightarrow> sha_hash H b = sha_block_hash H b"
  by (simp add: sha_hash.simps[of H b] sha_hash.simps[of _ "[]"])

lemma sha_take_le:
  assumes "absorbed c m"
  shows "sha_take c p = min (length p) (64 - length m mod 64)"
proof -
  have u: "unat (sha_used c) = length m mod 64" using assms by (simp add: absorbed_def)
  then have "sha_used c \<le> 64" by (simp add: word_le_nat_alt)
  then have "unat (64 - sha_used c) = 64 - length m mod 64" using u by (simp add: unat_sub)
  then show ?thesis by (simp add: sha_take_def Let_def)
qed

lemma sha_fill_absorbed:
  assumes c: "absorbed c m"
  shows "absorbed (sha_fill c p) (m @ take (sha_take c p) p)"
    and "sha_bit_len (sha_fill c p) = sha_bit_len c"
proof -
  define n where "n = sha_take c p"
  define x where "x = take n p"
  define r where "r = length m mod 64"
  have nle: "n \<le> 64 - r" and r: "r < 64" and lx: "length x = n"
    using sha_take_le[OF c, of p] by (auto simp: n_def r_def x_def)
  have u: "unat (sha_used c) = r" and blk: "length (sha_block c) = 64"
    and tk: "take r (sha_block c) = pending m" and h: "regs_of (sha_h c) = sha_hash sha_H0 (complete m)"
    and h8: "length (sha_h c) = 8"
    using c by (auto simp: absorbed_def r_def)
  have un: "sha_used c + of_nat n = of_nat (r + n)" unfolding u[symmetric] by simp
  have urn: "unat (sha_used c + of_nat n) = r + n"
    unfolding un using nle r by (simp add: unsigned_of_nat take_bit_nat_eq_self del: of_nat_add)
  let ?blk = "take r (sha_block c) @ x @ drop (r + n) (sha_block c)"
  have lblk: "length ?blk = 64" using blk nle r lx by simp
  have pm: "length (pending m) = r" by (simp add: length_pending r_def)
  have m: "m @ x = complete m @ pending m @ x" by (simp add: complete_pending flip: append_assoc)
  have fill: "sha_fill c p = (let c' = c\<lparr>sha_block := ?blk, sha_used := sha_used c + of_nat n\<rparr>
      in if r + n = 64 then c'\<lparr>sha_h := sha256_compress (sha_h c') ?blk, sha_used := 0\<rparr> else c')"
    using urn by (auto simp: sha_fill_def Let_def u word_unat_eq_iff simp flip: n_def x_def)
  show "sha_bit_len (sha_fill c p) = sha_bit_len c" by (simp add: sha_fill_def Let_def)
  have "absorbed (sha_fill c p) (m @ x)"
  proof (cases "r + n = 64")
    case True
    then have eq: "?blk = pending m @ x" using blk by (simp add: tk)
    have len: "length (complete m @ ?blk) mod 64 = 0" using lblk length_complete by (simp add: mod_add_eq[symmetric])
    have mx: "m @ x = (complete m @ ?blk) @ []" using m eq by simp
    note ce = blocks_eqI[OF mx len]
    have "length (m @ x) mod 64 = 0" using len mx by simp
    with True ce lblk h show ?thesis
      by (simp add: fill Let_def absorbed_def compress_spec sha_hash_append length_complete sha_hash_block)
  next
    case False
    with nle r have lt: "length (pending m @ x) < 64" by (simp add: pm lx)
    note ce = blocks_eqI[OF m length_complete lt]
    have "length (m @ x) mod 64 = r + n" 
      using length_pending[of "m @ x"] ce by (simp add: pm lx)
    with False ce lblk h h8 urn tk pm lx show ?thesis
      by (simp add: fill Let_def absorbed_def)
  qed
  then show "absorbed (sha_fill c p) (m @ take (sha_take c p) p)" by (simp add: x_def n_def)
qed

lemma sha_absorb_correct:
  "absorbed c m \<Longrightarrow> \<exists>c'. sha_absorb c p = Some c' \<and> absorbed c' (m @ p) \<and> sha_bit_len c' = sha_bit_len c"
proof (induction "length p" arbitrary: c m p rule: less_induct)
  case less
  show ?case
  proof (cases "p = []")
    case False
    define n where "n = sha_take c p"
    have "length m mod 64 < 64" by simp
    with False have n: "0 < n" unfolding n_def sha_take_le[OF less.prems] by (simp add: min_def)
    with False have "length (drop n p) < length p" by simp
    from less.hyps[OF this sha_fill_absorbed(1)[OF less.prems, of p]]
    show ?thesis using False sha_fill_absorbed(2)[OF less.prems, of p]
      by (subst sha_absorb.simps) (simp add: n_def)
  qed (use less in \<open>auto simp: sha_absorb.simps\<close>)
qed

text \<open>The context of a message: the bytes absorbed and the length counted modulo \<open>2 ^ 64\<close>.\<close>

definition sha_inv :: "sha256_ctx \<Rightarrow> u8 list \<Rightarrow> bool" where
  "sha_inv c m \<longleftrightarrow> absorbed c m \<and> sha_bit_len c = of_nat (8 * length m)"

lemma sha_init_inv: "length (sha_block c) = 64 \<Longrightarrow> sha_inv (sha256_init c) []"
  by (simp add: sha_inv_def absorbed_def sha256_init_def pending_def complete_def regs_of_def sha_H0_def
      sha_hash.simps)

lemma sha_update_inv:
  assumes "sha_inv c m"
  shows "\<exists>c'. sha256_update c p = Some c' \<and> sha_inv c' (m @ p)"
proof -
  let ?c = "c\<lparr>sha_bit_len := sha_bit_len c + of_nat (length p) * 8\<rparr>"
  have "absorbed ?c m" using assms by (simp add: sha_inv_def absorbed_def)
  from sha_absorb_correct[OF this, of p] assms show ?thesis
    by (auto simp: sha256_update_def sha_inv_def algebra_simps)
qed


definition be64 :: "u64 \<Rightarrow> u8 list" where
  "be64 bits = map (\<lambda>i. ucast (drop_bit (56 - 8 * i) bits)) [0..<8]"

lemma ucast_drop_bit_u8: "ucast (drop_bit k (w :: 'a::len word)) = (of_nat (unat w div 2 ^ k) :: u8)"
proof -
  have "unat (drop_bit k w) = unat w div 2 ^ k" by (simp only: unat_drop_bit_eq drop_bit_nat_def)
  then show ?thesis by (simp only: of_nat_unat flip: \<open>unat (drop_bit k w) = unat w div 2 ^ k\<close>)
qed

lemma be64_spec: "be64 (of_nat n) = be_bytes 8 n"
proof -
  have "ucast (drop_bit (56 - 8 * i) (of_nat n :: u64)) = (of_nat (n div 256 ^ (8 - 1 - i)) :: u8)"
    if "i < 8" for i
  proof -
    have "take_bit 8 (drop_bit k (take_bit 64 n)) = take_bit 8 (drop_bit k n)" if "k \<le> 56" for k :: nat
      using that by (simp add: take_bit_drop_bit)
    from this[of "56 - 8 * i"] 
    have "(of_nat (drop_bit (56 - 8 * i) (take_bit 64 n)) :: u8) = of_nat (drop_bit (56 - 8 * i) n)"
      by (simp add: word_of_nat_eq_iff)
    moreover have "256 ^ (8 - 1 - i) = (2 :: nat) ^ (56 - 8 * i)"
      using that power_mult[of "2 :: nat" 8 "8 - 1 - i"] by (simp add: right_diff_distrib')
    moreover have "unat (of_nat n :: u64) = take_bit 64 n" by (simp add: unsigned_of_nat)
    ultimately show ?thesis unfolding ucast_drop_bit_u8 by (simp only: drop_bit_nat_def)
  qed
  then show ?thesis unfolding be64_def be_bytes_def by (intro map_cong) auto
qed

lemma pad_length:
  "(119 - n mod 64) mod 64 = (if n mod 64 \<le> 55 then 55 - n mod 64 else 119 - n mod 64)" for n :: nat
proof (cases "n mod 64 \<le> 55")
  case True
  then have "119 - n mod 64 = 55 - n mod 64 + 64" by simp
  then show ?thesis using True by (simp only: mod_add_self2) simp
next
  case False
  moreover have "n mod 64 < 64" by simp
  ultimately show ?thesis by simp
qed

lemma Suc_mod_64: "Suc n mod 64 = (if n mod 64 = 63 then 0 else Suc (n mod 64))"
  by (simp add: mod_Suc)

lemma store_be32_spec: "store_be32 v = be_bytes 4 (unat v)"
  by (simp add: store_be32_def be_bytes_def upt_rec ucast_drop_bit_u8)

text \<open>The padding loop appends zero bytes until the buffer holds 56.\<close>

lemma sha_pad_correct:
  assumes "sha_inv c m" "length m mod 64 + k = 56 \<or> length m mod 64 + k = 120 \<and> k < 64"
  shows "\<exists>c'. sha_pad c = Some c' \<and> sha_inv c' (m @ replicate k 0)"
  using assms
proof (induction k arbitrary: c m)
  case 0
  then have "sha_used c = 56" by (auto simp: sha_inv_def absorbed_def word_unat_eq_iff)
  with 0 show ?case by (simp add: sha_pad.simps)
next
  case (Suc k)
  then have "unat (sha_used c) = length m mod 64" "length m mod 64 \<noteq> 56" by (auto simp: sha_inv_def absorbed_def)
  then have "sha_used c \<noteq> 56" by auto
  moreover from sha_update_inv[OF Suc.prems(1), of "[0]"] obtain c1 where
    c1: "sha256_update c [0] = Some c1" "sha_inv c1 (m @ [0])" by auto
  moreover have "length (m @ [0]) mod 64 + k = 56 \<or> length (m @ [0]) mod 64 + k = 120 \<and> k < 64"
    using Suc.prems(2) by (auto simp: Suc_mod_64)
  ultimately show ?case using Suc.IH[OF c1(2)]
    by (subst sha_pad.simps) (simp add: replicate_append_same)
qed

lemma length_padded: "length (sha_padded m) mod 64 = 0"
proof -
  define a q where "a = length m mod 64" and "q = length m div 64"
  have m: "length m = 64 * q + a" and "a < 64" by (simp_all add: a_def q_def)
  have "length (sha_padded m) = length m + 9 + (119 - a mod 64) mod 64"
    by (simp add: sha_padded_def be_bytes_def a_def)
  also have "\<dots> = 64 * (if a \<le> 55 then q + 1 else q + 2)"
    unfolding pad_length m using \<open>a < 64\<close> by simp
  finally show ?thesis by (simp only: mod_mult_self1_is_0)
qed

lemma sha_final_correct:
  assumes "sha_inv c m"
  shows "sha256_final c = Some (sha256_spec m)"
proof -
  let ?k = "(119 - length m mod 64) mod 64" and ?n = "length m"
  from sha_update_inv[OF assms, of "[0x80]"] obtain c1 where
    c1: "sha256_update c [0x80] = Some c1" "sha_inv c1 (m @ [0x80])" by auto
  have "?n mod 64 < 64" by simp
  then have "length (m @ [0x80]) mod 64 + ?k = 56 \<or> length (m @ [0x80]) mod 64 + ?k = 120 \<and> ?k < 64"
    unfolding pad_length by (auto simp: Suc_mod_64)
  from sha_pad_correct[OF c1(2) this] obtain c2 where
    c2: "sha_pad c1 = Some c2" "sha_inv c2 (m @ 0x80 # replicate ?k 0)" by auto
  from sha_update_inv[OF c2(2)] obtain c3 where
    c3: "sha256_update c2 (be64 (sha_bit_len c)) = Some c3"
      "sha_inv c3 ((m @ 0x80 # replicate ?k 0) @ be64 (sha_bit_len c))" by blast
  have "be64 (sha_bit_len c) = be_bytes 8 (8 * ?n)"
    using assms unfolding sha_inv_def by (simp only: be64_spec)
  with c3(2) have inv: "sha_inv c3 (sha_padded m)" by (simp add: sha_padded_def)
  have "length (sha_padded m) mod 64 = 0" by (rule length_padded)
  then have "complete (sha_padded m) = sha_padded m"
    using blocks_eqI[of "sha_padded m" "sha_padded m" "[]"] by simp
  with inv have "regs_of (sha_h c3) = sha_hash sha_H0 (sha_padded m)" by (simp add: sha_inv_def absorbed_def)
  then have "sha256_spec m = concat (map (\<lambda>i. store_be32 (sha_h c3 ! i)) [0..<8])"
    unfolding sha256_spec_def by (simp add: sha_digest_def upt_rec store_be32_spec regs_of_def numeral_eq_Suc flip: \<open>_ = sha_hash _ _\<close>)
  then show ?thesis using c1 c2 c3 by (simp add: sha256_final_def flip: be64_def)
qed


lemma sha_updates_inv:
  "sha_inv c m \<Longrightarrow> \<exists>c'. sha256_updates c ds = Some c' \<and> sha_inv c' (m @ concat ds)"
proof (induction ds arbitrary: c m)
  case (Cons d ds)
  from sha_update_inv[OF Cons.prems, of d] obtain c1 where
    c1: "sha256_update c d = Some c1" "sha_inv c1 (m @ d)" by blast
  then show ?case using Cons.IH[OF c1(2)] by auto
qed simp

section \<open>The constants\<close>

definition first_primes :: "nat list" where
  "first_primes =
    [2, 3, 5, 7, 11, 13, 17, 19, 23, 29, 31, 37, 41, 43, 47, 53, 59, 61, 67, 71, 73, 79, 83, 89,
     97, 101, 103, 107, 109, 113, 127, 131, 137, 139, 149, 151, 157, 163, 167, 173, 179, 181, 191,
     193, 197, 199, 211, 223, 227, 229, 233, 239, 241, 251, 257, 263, 269, 271, 277, 281, 283, 293,
     307, 311]"

text \<open>
  If \<open>m\<close> is the integer \<open>n\<close>-th root of \<open>p * 2 ^ (32 * n)\<close> then \<open>m mod 2 ^ 32\<close> is the first 32 bits
  of the fractional part of the \<open>n\<close>-th root of \<open>p\<close>.
\<close>

lemma root_fraction:
  fixes p m n :: nat
  assumes "0 < n" "m ^ n \<le> p * 2 ^ (32 * n)" "p * 2 ^ (32 * n) < (m + 1) ^ n"
  shows "nat \<lfloor>2 ^ 32 * frac (root n (real p))\<rfloor> = m mod 2 ^ 32"
proof -
  let ?x = "root n (real p)"
  have x: "root n (real (p * 2 ^ (32 * n))) = 2 ^ 32 * ?x"
    using assms(1) by (simp add: real_root_mult power_mult real_root_power_cancel)
  have "root n (real (m ^ n)) \<le> 2 ^ 32 * ?x"
    unfolding x[symmetric] by (subst real_root_le_iff[OF assms(1)]) (use assms(2) of_nat_mono in blast)
  then have le: "real m \<le> 2 ^ 32 * ?x" using assms(1) by (simp add: real_root_power_cancel)
  have "2 ^ 32 * ?x < root n (real ((m + 1) ^ n))"
    unfolding x[symmetric] by (subst real_root_less_iff[OF assms(1)]) (use assms(3) of_nat_less_iff in blast)
  then have lt: "2 ^ 32 * ?x < real m + 1" using assms(1) by (simp add: real_root_power_cancel)
  define k r where "k = m div 2 ^ 32" and "r = m mod 2 ^ 32"
  have m: "real m = 2 ^ 32 * real k + real r"
  proof -
    have "real m = real (2 ^ 32 * k + r)" by (simp add: k_def r_def)
    then show ?thesis by simp
  qed
  have r: "real r + 1 \<le> 2 ^ 32" 
  proof -
    have "r + 1 \<le> 2 ^ 32" by (simp add: r_def Suc_leI)
    then have "real (r + 1) \<le> real (2 ^ 32)" by (simp only: of_nat_le_iff)
    then show ?thesis by simp
  qed
  have "2 ^ 32 * real k \<le> 2 ^ 32 * ?x" using le m by simp
  moreover have "2 ^ 32 * ?x < 2 ^ 32 * (real k + 1)" using lt m r by simp
  ultimately have "\<lfloor>?x\<rfloor> = int k" by (simp add: floor_unique)
  then have "2 ^ 32 * frac ?x = 2 ^ 32 * ?x - 2 ^ 32 * real k" by (simp add: frac_def)
  then have "\<lfloor>2 ^ 32 * frac ?x\<rfloor> = int r" using le lt m by (intro floor_unique) auto
  then show ?thesis by (simp add: r_def)
qed


text \<open>The integer parts of the roots are small, so the candidate \<open>m\<close> is \<open>2 ^ 32 * k + K\<close>.\<close>

definition root_word :: "nat \<Rightarrow> nat \<Rightarrow> u32 \<Rightarrow> bool" where
  "root_word n p w \<longleftrightarrow>
     (let k = length (filter (\<lambda>j. j ^ n \<le> p) [1, 2, 3, 4, 5, 6]); m = 2 ^ 32 * k + unat w
      in m ^ n \<le> p * 2 ^ (32 * n) \<and> p * 2 ^ (32 * n) < (m + 1) ^ n)"

lemma root_word_frac:
  assumes "0 < n" "root_word n p w"
  shows "unat w = nat \<lfloor>2 ^ 32 * frac (root n (real p))\<rfloor>"
proof -
  from assms(2) obtain k where "(2 ^ 32 * k + unat w) ^ n \<le> p * 2 ^ (32 * n)"
      "p * 2 ^ (32 * n) < (2 ^ 32 * k + unat w + 1) ^ n"
    unfolding root_word_def Let_def by blast
  moreover have "unat w < 2 ^ LENGTH(32)" by (rule unsigned_less)
  ultimately show ?thesis using root_fraction[OF assms(1)] by simp
qed

lemma sha256_k_roots: "list_all2 (root_word 3) first_primes sha256_k"
  by (simp add: first_primes_def sha256_k_def root_word_def)

lemma sha256_init_roots: "list_all2 (root_word 2) (take 8 first_primes) (sha_h (sha256_init c))"
  by (simp add: first_primes_def sha256_init_def root_word_def)


section \<open>Properties\<close>

text \<open>
  C27.  Hashing is correct for every division of a message into chunks: after \<open>sha256_init\<close>, any
  sequence of calls of \<open>sha256_update\<close> returns with the context in the state of the concatenation
  of the data (\<open>sha_inv\<close>: complete blocks hashed, the rest in the buffer, the length counted), and
  \<open>sha256_final\<close>, like \<open>sha256_buf\<close> on the whole message, returns the SHA-256 digest the standard defines for it.  Both loops, the one over
  the data and the padding one, end.
\<close>

theorem sha256_correct:
  assumes "length (sha_block c) = 64"
  shows "\<exists>c'. sha256_updates (sha256_init c) ds = Some c' \<and> sha_inv c' (concat ds) \<and>
    sha256_final c' = Some (sha256_spec (concat ds)) \<and>
    sha256_buf c (concat ds) = Some (sha256_spec (concat ds))"
  using sha_updates_inv[OF sha_init_inv[OF assms], of ds] sha_update_inv[OF sha_init_inv[OF assms], of "concat ds"]
    sha_final_correct by (auto simp: sha256_buf_def)

theorem sha256_correct_witness:
  "let c = \<lparr>sha_h = replicate 8 0, sha_bit_len = 7, sha_block = replicate 64 1, sha_used = 5\<rparr>;
       m = [1, 2] @ replicate 130 3
   in \<exists>c'. sha256_updates (sha256_init c) [[1, 2], [], replicate 130 3] = Some c' \<and> sha_inv c' m \<and>
     sha256_final c' = Some (sha256_spec m) \<and> sha256_buf c m = Some (sha256_spec m)"
  using sha256_correct[of "\<lparr>sha_h = replicate 8 0, sha_bit_len = 7, sha_block = replicate 64 1, sha_used = 5\<rparr>"
      "[[1, 2], [], replicate 130 3]"] by (simp add: Let_def)

text \<open>
  The tables of the code are those of the standard: entry \<open>t\<close> of \<open>sha256_k\<close> is the first 32
  bits of the fractional part of the cube root of the \<open>t\<close>-th prime, and the initial hash words are
  those of the square roots of the first eight primes.
\<close>

theorem sha256_constants:
  "map unat sha256_k = map (\<lambda>p. nat \<lfloor>2 ^ 32 * frac (root 3 (real p))\<rfloor>) first_primes \<and>
   map unat (sha_h (sha256_init c)) = map (\<lambda>p. nat \<lfloor>2 ^ 32 * frac (sqrt (real p))\<rfloor>) (take 8 first_primes)"
proof -
  have gen: "map unat ws = map (\<lambda>p. nat \<lfloor>2 ^ 32 * frac (root n (real p))\<rfloor>) ps"
    if "0 < n" "list_all2 (root_word n) ps ws" for n ps ws
    using that(2) root_word_frac[OF that(1)] by (induction rule: list_all2_induct) auto
  show ?thesis using gen[OF _ sha256_k_roots] gen[OF _ sha256_init_roots] by (simp add: sqrt_def)
qed

end
