(* ===== verification/A64.thy ===== *)
theory A64
  imports Prelude "HOL-Library.Signed_Division"
begin

text \<open>
  \<open>src/a64.c\<close>: the A64 instruction encoder with local labels.  An assembler is the byte buffer of the
  code emitted so far, the label table and the list of pending fixups; every emitting function appends
  little-endian words.  Register numbers, condition codes, offsets and label ids are C \<open>int\<close>s, words
  and positions are \<open>u32\<close>; a parameter used only as a truth value is \<open>bool\<close>.  The functions that end
  the process on a bad offset return \<open>None\<close> there.  The growth of the three arrays is not state of the
  model, and neither are the diagnostics printed by \<open>a64_resolve\<close>.
\<close>

section \<open>Labels and fixups\<close>

record a64_label =
  lb_pos :: u32
  lb_bound :: bool

datatype a64_fix_kind = A64_FIX_B26 | A64_FIX_B19 | A64_FIX_ADRP | A64_FIX_ADRP_ADD

record a64_fixup =
  fx_kind :: a64_fix_kind
  fx_at :: u32
  fx_label :: int
  fx_rd :: int

record a64_asm =
  as_code :: "u8 list"
  as_labels :: "a64_label list"
  as_fixups :: "a64_fixup list"
  as_wide_cond :: bool
  as_base_off :: u32

definition a64_init :: a64_asm where
  "a64_init = \<lparr>as_code = [], as_labels = [], as_fixups = [], as_wide_cond = False, as_base_off = 0\<rparr>"

definition a64_set_base :: "a64_asm \<Rightarrow> u32 \<Rightarrow> a64_asm" where
  "a64_set_base a off = a\<lparr>as_base_off := off\<rparr>"

definition a64_set_wide_cond :: "a64_asm \<Rightarrow> int \<Rightarrow> a64_asm" where
  "a64_set_wide_cond a on = a\<lparr>as_wide_cond := on \<noteq> 0\<rparr>"

definition le32 :: "u32 \<Rightarrow> u8 list" where
  "le32 w = [ucast w, ucast (drop_bit 8 w), ucast (drop_bit 16 w), ucast (drop_bit 24 w)]"

definition a64_word :: "a64_asm \<Rightarrow> u32 \<Rightarrow> a64_asm" where
  "a64_word a w = a\<lparr>as_code := as_code a @ le32 w\<rparr>"

definition a64_new_label :: "a64_asm \<Rightarrow> a64_asm \<times> int" where
  "a64_new_label a =
     (a\<lparr>as_labels := as_labels a @ [\<lparr>lb_pos = 0, lb_bound = False\<rparr>]\<rparr>, int (length (as_labels a)))"

definition a64_bind :: "a64_asm \<Rightarrow> int \<Rightarrow> a64_asm" where
  "a64_bind a label = a\<lparr>as_labels := (as_labels a)
     [nat label := \<lparr>lb_pos = of_nat (length (as_code a)), lb_bound = True\<rparr>]\<rparr>"

definition add_fixup_at :: "a64_asm \<Rightarrow> a64_fix_kind \<Rightarrow> int \<Rightarrow> int \<Rightarrow> u32 \<Rightarrow> a64_asm" where
  "add_fixup_at a kind rd label at = a\<lparr>as_fixups := as_fixups a @
     [\<lparr>fx_kind = kind, fx_at = at, fx_label = label, fx_rd = rd\<rparr>]\<rparr>"

definition word_with_fixup :: "a64_asm \<Rightarrow> u32 \<Rightarrow> a64_fix_kind \<Rightarrow> int \<Rightarrow> int \<Rightarrow> a64_asm" where
  "word_with_fixup a w kind rd label =
     (let at = of_nat (length (as_code a)) in add_fixup_at (a64_word a w) kind rd label at)"

definition read_word_at :: "u8 list \<Rightarrow> u32 \<Rightarrow> u32" where
  "read_word_at code off =
     (let k = unat off in
      ucast (code ! k) OR push_bit 8 (ucast (code ! (k + 1))) OR push_bit 16 (ucast (code ! (k + 2)))
      OR push_bit 24 (ucast (code ! (k + 3))))"

definition write_word_at :: "u8 list \<Rightarrow> u32 \<Rightarrow> u32 \<Rightarrow> u8 list" where
  "write_word_at code off w =
     (let k = unat off in take k code @ le32 w @ drop (k + 4) code)"

text \<open>
  One fixup of \<open>a64_resolve\<close>: the code with the displacement patched in, or \<open>None\<close> where the loop
  sets \<open>rc\<close> to \<open>-1\<close> and goes on (an unbound label, a displacement out of range).
\<close>

definition resolve_fixup :: "a64_label list \<Rightarrow> u32 \<Rightarrow> a64_fixup \<Rightarrow> u8 list \<Rightarrow> u8 list option" where
  "resolve_fixup labels base f code =
     (let l = labels ! nat (fx_label f) in
      if \<not> lb_bound l then None
      else
        let tgt = lb_pos l; at = fx_at f; w = read_word_at code at in
        case fx_kind f of
          A64_FIX_B26 \<Rightarrow>
            (let d = uint tgt - uint at in
             if d AND 3 \<noteq> 0 \<or> d < - (2 ^ 27) \<or> d \<ge> 2 ^ 27 then None
             else Some (write_word_at code at (w OR word_of_int (drop_bit 2 d AND 0x3FFFFFF))))
        | A64_FIX_B19 \<Rightarrow>
            (let d = uint tgt - uint at in
             if d AND 3 \<noteq> 0 \<or> d < - (2 ^ 20) \<or> d \<ge> 2 ^ 20 then None
             else Some (write_word_at code at
                    (w OR word_of_int (push_bit 5 (drop_bit 2 d AND 0x7FFFF)))))
        | _ \<Rightarrow>
            (let pc = uint at + uint base; tv = uint tgt + uint base;
                 pages = drop_bit 12 ((tv AND NOT 0xFFF) - (pc AND NOT 0xFFF)) in
             if pages < - (2 ^ 20) \<or> pages \<ge> 2 ^ 20 then None
             else
               let w1 = w OR word_of_int (push_bit 29 (pages AND 3))
                          OR word_of_int (push_bit 5 (drop_bit 2 pages AND 0x7FFFF));
                   code1 = write_word_at code at w1
               in Some (if fx_kind f = A64_FIX_ADRP_ADD
                        then let aw = read_word_at code1 (at + 4)
                                 OR push_bit 10 (word_of_int (tv AND 0xFFF))
                             in write_word_at code1 (at + 4) aw
                        else code1)))"

definition resolve_step :: "a64_label list \<Rightarrow> u32 \<Rightarrow> a64_fixup \<Rightarrow> u8 list \<times> int \<Rightarrow> u8 list \<times> int" where
  "resolve_step labels base f s =
     (case s of (code, rc) \<Rightarrow>
        (case resolve_fixup labels base f code of None \<Rightarrow> (code, -1) | Some code' \<Rightarrow> (code', rc)))"

definition a64_resolve :: "a64_asm \<Rightarrow> a64_asm \<times> int" where
  "a64_resolve a =
     (case fold (resolve_step (as_labels a) (as_base_off a)) (as_fixups a) (as_code a, 0) of
        (code, rc) \<Rightarrow> (a\<lparr>as_code := code, as_fixups := []\<rparr>, rc))"

section \<open>Field helpers\<close>

definition reg_field :: "nat \<Rightarrow> int \<Rightarrow> u32" where
  "reg_field k r = word_of_int (push_bit k (r AND 31))"

abbreviation RD :: "int \<Rightarrow> u32" where "RD \<equiv> reg_field 0"
abbreviation RN :: "int \<Rightarrow> u32" where "RN \<equiv> reg_field 5"
abbreviation RM :: "int \<Rightarrow> u32" where "RM \<equiv> reg_field 16"

section \<open>Moves and constants\<close>

definition a64_mov_reg :: "a64_asm \<Rightarrow> int \<Rightarrow> int \<Rightarrow> bool \<Rightarrow> a64_asm" where
  "a64_mov_reg a rd rm is64 =
     (let base = (if is64 then 0xAA0003E0 else 0x2A0003E0) in a64_word a (base OR RM rm OR RD rd))"

definition mov_wide :: "u32 \<Rightarrow> u32 \<Rightarrow> u32 \<Rightarrow> int \<Rightarrow> u32" where
  "mov_wide base hw imm16 rd =
     base OR push_bit 21 (hw AND 3) OR push_bit 5 (imm16 AND 0xFFFF) OR RD rd"

definition a64_movz :: "a64_asm \<Rightarrow> int \<Rightarrow> u32 \<Rightarrow> u32 \<Rightarrow> bool \<Rightarrow> a64_asm" where
  "a64_movz a rd imm16 hw is64 =
     (let base = (if is64 then 0xD2800000 else 0x52800000) in a64_word a (mov_wide base hw imm16 rd))"

definition a64_movk :: "a64_asm \<Rightarrow> int \<Rightarrow> u32 \<Rightarrow> u32 \<Rightarrow> bool \<Rightarrow> a64_asm" where
  "a64_movk a rd imm16 hw is64 =
     (let base = (if is64 then 0xF2800000 else 0x72800000) in a64_word a (mov_wide base hw imm16 rd))"

definition a64_movn :: "a64_asm \<Rightarrow> int \<Rightarrow> u32 \<Rightarrow> u32 \<Rightarrow> bool \<Rightarrow> a64_asm" where
  "a64_movn a rd imm16 hw is64 =
     (let base = (if is64 then 0x92800000 else 0x12800000) in a64_word a (mov_wide base hw imm16 rd))"

definition halfword :: "u64 \<Rightarrow> nat \<Rightarrow> u32" where
  "halfword v i = ucast (drop_bit (16 * i) v AND 0xFFFF)"

definition movk_step :: "int \<Rightarrow> u64 \<Rightarrow> nat \<Rightarrow> a64_asm \<Rightarrow> a64_asm" where
  "movk_step rd v i a =
     (let h = halfword v i in if h \<noteq> 0 then a64_movk a rd h (of_nat i) True else a)"

definition a64_mov_imm64 :: "a64_asm \<Rightarrow> int \<Rightarrow> u64 \<Rightarrow> a64_asm" where
  "a64_mov_imm64 a rd v =
     (case find_index (\<lambda>i. drop_bit (16 * i) v AND 0xFFFF \<noteq> 0) [0..<4] of
        None \<Rightarrow> a64_movz a rd 0 0 True
      | Some first \<Rightarrow>
          fold (movk_step rd v) [first + 1..<4]
            (a64_movz a rd (halfword v first) (of_nat first) True))"

section \<open>Integer arithmetic\<close>

definition addsub_imm_base :: "bool \<Rightarrow> bool \<Rightarrow> bool \<Rightarrow> u32" where
  "addsub_imm_base is64 is_sub setflags =
     (if is64 then 0x80000000 else 0) OR (if is_sub then 0x40000000 else 0)
     OR (if setflags then 0x20000000 else 0) OR 0x11000000"

definition a64_add_imm12 :: "a64_asm \<Rightarrow> int \<Rightarrow> int \<Rightarrow> u32 \<Rightarrow> bool \<Rightarrow> bool \<Rightarrow> bool \<Rightarrow> a64_asm" where
  "a64_add_imm12 a rd rn imm12 shift12 is64 setflags =
     a64_word a (addsub_imm_base is64 False setflags OR (if shift12 then 0x400000 else 0)
       OR push_bit 10 (imm12 AND 0xFFF) OR RN rn OR RD rd)"

definition a64_sub_imm12 :: "a64_asm \<Rightarrow> int \<Rightarrow> int \<Rightarrow> u32 \<Rightarrow> bool \<Rightarrow> bool \<Rightarrow> bool \<Rightarrow> a64_asm" where
  "a64_sub_imm12 a rd rn imm12 shift12 is64 setflags =
     a64_word a (addsub_imm_base is64 True setflags OR (if shift12 then 0x400000 else 0)
       OR push_bit 10 (imm12 AND 0xFFF) OR RN rn OR RD rd)"

definition addsub_reg_base :: "bool \<Rightarrow> bool \<Rightarrow> bool \<Rightarrow> u32" where
  "addsub_reg_base is64 is_sub setflags =
     (if is64 then 0x80000000 else 0) OR (if is_sub then 0x40000000 else 0)
     OR (if setflags then 0x20000000 else 0) OR 0x0B000000"

definition a64_add_reg ::
  "a64_asm \<Rightarrow> int \<Rightarrow> int \<Rightarrow> int \<Rightarrow> int \<Rightarrow> u32 \<Rightarrow> bool \<Rightarrow> bool \<Rightarrow> a64_asm" where
  "a64_add_reg a rd rn rm shift amt is64 setflags =
     a64_word a (addsub_reg_base is64 False setflags OR word_of_int (push_bit 22 (shift AND 3))
       OR push_bit 10 (amt AND 0x3F) OR RM rm OR RN rn OR RD rd)"

definition a64_sub_reg ::
  "a64_asm \<Rightarrow> int \<Rightarrow> int \<Rightarrow> int \<Rightarrow> int \<Rightarrow> u32 \<Rightarrow> bool \<Rightarrow> bool \<Rightarrow> a64_asm" where
  "a64_sub_reg a rd rn rm shift amt is64 setflags =
     a64_word a (addsub_reg_base is64 True setflags OR word_of_int (push_bit 22 (shift AND 3))
       OR push_bit 10 (amt AND 0x3F) OR RM rm OR RN rn OR RD rd)"

definition a64_neg :: "a64_asm \<Rightarrow> int \<Rightarrow> int \<Rightarrow> bool \<Rightarrow> a64_asm" where
  "a64_neg a rd rm is64 = a64_sub_reg a rd 31 rm 0 0 is64 False"

section \<open>Logical immediates\<close>

definition limm_mask :: "nat \<Rightarrow> u64" where
  "limm_mask esize = (if esize = 64 then - 1 else push_bit esize 1 - 1)"

definition limm_rep :: "nat \<Rightarrow> nat \<Rightarrow> u64 \<Rightarrow> u64" where
  "limm_rep datasize esize pat =
     fold (\<lambda>e rep. rep OR push_bit (e * esize) pat) [0..<datasize div esize] 0"

definition limm_rot :: "nat \<Rightarrow> u64 \<Rightarrow> nat \<Rightarrow> u64" where
  "limm_rot esize pat r =
     (if r = 0 then pat AND limm_mask esize
      else (drop_bit r pat OR push_bit (esize - r) pat) AND limm_mask esize)"

function limm_run :: "u64 \<Rightarrow> nat \<Rightarrow> nat \<Rightarrow> nat" where
  "limm_run w esize k = (if k < esize \<and> drop_bit k w AND 1 \<noteq> 0 then limm_run w esize (k + 1) else k)"
  by pat_completeness auto
termination
  by (relation "measure (\<lambda>(w, esize, k). esize - k)") auto

declare limm_run.simps [simp del]

text \<open>One element size: the replication test and the search for a rotation.\<close>

definition limm_size :: "u64 \<Rightarrow> bool \<Rightarrow> nat \<Rightarrow> (u32 \<times> u32 \<times> u32) option" where
  "limm_size v is64 esize =
     (let datasize = (if is64 then 64 else 32);
          vmask = (if is64 then - 1 else 0xFFFFFFFF) in
      if esize > datasize then None
      else
        let pat = v AND limm_mask esize in
        if limm_rep datasize esize pat AND vmask \<noteq> v then None
        else
          case find_index (\<lambda>r. let w = limm_rot esize pat r in w \<noteq> 0 \<and> w AND (w + 1) = 0) [0..<esize] of
            None \<Rightarrow> None
          | Some r \<Rightarrow>
              let w = limm_rot esize pat r; k = limm_run w esize 0; s = k - 1
              in Some (if is64 then 1 else 0, of_nat ((esize - r) mod esize), of_nat s))"

fun first_some :: "('a \<Rightarrow> 'b option) \<Rightarrow> 'a list \<Rightarrow> 'b option" where
  "first_some f [] = None"
| "first_some f (x # xs) = (case f x of None \<Rightarrow> first_some f xs | Some y \<Rightarrow> Some y)"

definition encode_limm :: "u64 \<Rightarrow> bool \<Rightarrow> (u32 \<times> u32 \<times> u32) option" where
  "encode_limm v is64 =
     (let v = v AND (if is64 then - 1 else 0xFFFFFFFF)
      in first_some (limm_size v is64) [64, 32, 16, 8, 4, 2])"

definition logical_imm :: "a64_asm \<Rightarrow> int \<Rightarrow> int \<Rightarrow> int \<Rightarrow> u64 \<Rightarrow> bool \<Rightarrow> a64_asm \<times> bool" where
  "logical_imm a opc rd rn v is64 =
     (case encode_limm v is64 of
        None \<Rightarrow> (a, False)
      | Some (n, immr, imms) \<Rightarrow>
          (a64_word a ((if is64 then 0x80000000 else 0) OR word_of_int (push_bit 29 (opc AND 3))
             OR push_bit 23 0x24 OR push_bit 22 n OR push_bit 16 immr OR push_bit 10 imms
             OR RN rn OR RD rd), True))"

definition a64_and_imm :: "a64_asm \<Rightarrow> int \<Rightarrow> int \<Rightarrow> u64 \<Rightarrow> bool \<Rightarrow> a64_asm \<times> int" where
  "a64_and_imm a rd rn v is64 =
     (case logical_imm a 0 rd rn v is64 of (a, ok) \<Rightarrow> (a, if ok then 0 else -1))"

definition a64_or_imm :: "a64_asm \<Rightarrow> int \<Rightarrow> int \<Rightarrow> u64 \<Rightarrow> bool \<Rightarrow> a64_asm \<times> int" where
  "a64_or_imm a rd rn v is64 =
     (case logical_imm a 1 rd rn v is64 of (a, ok) \<Rightarrow> (a, if ok then 0 else -1))"

definition a64_eor_imm :: "a64_asm \<Rightarrow> int \<Rightarrow> int \<Rightarrow> u64 \<Rightarrow> bool \<Rightarrow> a64_asm \<times> int" where
  "a64_eor_imm a rd rn v is64 =
     (case logical_imm a 2 rd rn v is64 of (a, ok) \<Rightarrow> (a, if ok then 0 else -1))"

section \<open>Logical, bitfield and multiply operations\<close>

definition logical_reg_base :: "bool \<Rightarrow> int \<Rightarrow> u32" where
  "logical_reg_base is64 opc =
     (if is64 then 0x80000000 else 0) OR word_of_int (push_bit 29 (opc AND 3)) OR 0x0A000000"

definition logical_reg :: "a64_asm \<Rightarrow> int \<Rightarrow> int \<Rightarrow> int \<Rightarrow> int \<Rightarrow> bool \<Rightarrow> a64_asm" where
  "logical_reg a opc rd rn rm is64 = a64_word a (logical_reg_base is64 opc OR RM rm OR RN rn OR RD rd)"

definition a64_and_reg :: "a64_asm \<Rightarrow> int \<Rightarrow> int \<Rightarrow> int \<Rightarrow> bool \<Rightarrow> a64_asm" where
  "a64_and_reg a rd rn rm is64 = logical_reg a 0 rd rn rm is64"

definition a64_or_reg :: "a64_asm \<Rightarrow> int \<Rightarrow> int \<Rightarrow> int \<Rightarrow> bool \<Rightarrow> a64_asm" where
  "a64_or_reg a rd rn rm is64 = logical_reg a 1 rd rn rm is64"

definition a64_eor_reg :: "a64_asm \<Rightarrow> int \<Rightarrow> int \<Rightarrow> int \<Rightarrow> bool \<Rightarrow> a64_asm" where
  "a64_eor_reg a rd rn rm is64 = logical_reg a 2 rd rn rm is64"

definition bitfield :: "a64_asm \<Rightarrow> bool \<Rightarrow> int \<Rightarrow> int \<Rightarrow> u32 \<Rightarrow> u32 \<Rightarrow> bool \<Rightarrow> a64_asm" where
  "bitfield a is_signed rd rn immr imms is64 =
     (let base = (if is64 then 0x80000000 OR 0x400000 else 0)
                 OR (if is_signed then 0x13000000 else 0x53000000)
      in a64_word a (base OR push_bit 16 immr OR push_bit 10 imms OR RN rn OR RD rd))"

definition a64_lsl_imm :: "a64_asm \<Rightarrow> int \<Rightarrow> int \<Rightarrow> u32 \<Rightarrow> bool \<Rightarrow> a64_asm" where
  "a64_lsl_imm a rd rn amt is64 =
     (let w = (if is64 then 64 else 32) in bitfield a False rd rn ((w - amt) AND (w - 1)) (w - 1 - amt) is64)"

definition a64_lsr_imm :: "a64_asm \<Rightarrow> int \<Rightarrow> int \<Rightarrow> u32 \<Rightarrow> bool \<Rightarrow> a64_asm" where
  "a64_lsr_imm a rd rn amt is64 =
     (let w = (if is64 then 64 else 32) in bitfield a False rd rn amt (w - 1) is64)"

definition a64_asr_imm :: "a64_asm \<Rightarrow> int \<Rightarrow> int \<Rightarrow> u32 \<Rightarrow> bool \<Rightarrow> a64_asm" where
  "a64_asr_imm a rd rn amt is64 =
     (let w = (if is64 then 64 else 32) in bitfield a True rd rn amt (w - 1) is64)"

definition a64_mul :: "a64_asm \<Rightarrow> int \<Rightarrow> int \<Rightarrow> int \<Rightarrow> bool \<Rightarrow> a64_asm" where
  "a64_mul a rd rn rm is64 =
     a64_word a ((if is64 then 0x80000000 else 0) OR 0x1B000000 OR RM rm OR push_bit 10 31
       OR RN rn OR RD rd)"

definition a64_umulh :: "a64_asm \<Rightarrow> int \<Rightarrow> int \<Rightarrow> int \<Rightarrow> a64_asm" where
  "a64_umulh a rd rn rm = a64_word a (0x9BC07C00 OR RM rm OR RN rn OR RD rd)"

definition a64_msub :: "a64_asm \<Rightarrow> int \<Rightarrow> int \<Rightarrow> int \<Rightarrow> int \<Rightarrow> bool \<Rightarrow> a64_asm" where
  "a64_msub a rd rn rm ra is64 =
     a64_word a ((if is64 then 0x80000000 else 0) OR 0x1B000000 OR push_bit 15 1
       OR RM rm OR reg_field 10 ra OR RN rn OR RD rd)"

definition a64_udiv :: "a64_asm \<Rightarrow> int \<Rightarrow> int \<Rightarrow> int \<Rightarrow> bool \<Rightarrow> a64_asm" where
  "a64_udiv a rd rn rm is64 =
     a64_word a ((if is64 then 0x80000000 else 0) OR 0x1AC00800 OR RM rm OR RN rn OR RD rd)"

definition a64_sdiv :: "a64_asm \<Rightarrow> int \<Rightarrow> int \<Rightarrow> int \<Rightarrow> bool \<Rightarrow> a64_asm" where
  "a64_sdiv a rd rn rm is64 =
     a64_word a ((if is64 then 0x80000000 else 0) OR 0x1AC00C00 OR RM rm OR RN rn OR RD rd)"

definition var_shift :: "a64_asm \<Rightarrow> u32 \<Rightarrow> int \<Rightarrow> int \<Rightarrow> int \<Rightarrow> bool \<Rightarrow> a64_asm" where
  "var_shift a base64 rd rn rm is64 =
     a64_word a ((if is64 then base64 else base64 AND NOT 0x80000000) OR RM rm OR RN rn OR RD rd)"

definition a64_lslv :: "a64_asm \<Rightarrow> int \<Rightarrow> int \<Rightarrow> int \<Rightarrow> bool \<Rightarrow> a64_asm" where
  "a64_lslv a rd rn rm is64 = var_shift a 0x9AC02000 rd rn rm is64"

definition a64_lsrv :: "a64_asm \<Rightarrow> int \<Rightarrow> int \<Rightarrow> int \<Rightarrow> bool \<Rightarrow> a64_asm" where
  "a64_lsrv a rd rn rm is64 = var_shift a 0x9AC02400 rd rn rm is64"

definition a64_asrv :: "a64_asm \<Rightarrow> int \<Rightarrow> int \<Rightarrow> int \<Rightarrow> bool \<Rightarrow> a64_asm" where
  "a64_asrv a rd rn rm is64 = var_shift a 0x9AC02800 rd rn rm is64"

definition a64_rorv :: "a64_asm \<Rightarrow> int \<Rightarrow> int \<Rightarrow> int \<Rightarrow> bool \<Rightarrow> a64_asm" where
  "a64_rorv a rd rn rm is64 = var_shift a 0x9AC02C00 rd rn rm is64"

definition a64_cset :: "a64_asm \<Rightarrow> int \<Rightarrow> int \<Rightarrow> bool \<Rightarrow> a64_asm" where
  "a64_cset a rd cond is64 =
     a64_word a ((if is64 then 0x9A9F07E0 else 0x1A9F07E0)
       OR push_bit 12 (word_of_int cond XOR 1) OR RD rd)"

definition a64_mvn :: "a64_asm \<Rightarrow> int \<Rightarrow> int \<Rightarrow> bool \<Rightarrow> a64_asm" where
  "a64_mvn a rd rm is64 = a64_word a ((if is64 then 0xAA2003E0 else 0x2A2003E0) OR RM rm OR RD rd)"

definition ext_imms :: "u32 \<Rightarrow> u32" where
  "ext_imms from_bytes = (if from_bytes \<le> 1 then 7 else if from_bytes = 2 then 15 else 31)"

definition a64_sxt :: "a64_asm \<Rightarrow> int \<Rightarrow> int \<Rightarrow> u32 \<Rightarrow> bool \<Rightarrow> a64_asm" where
  "a64_sxt a rd rn from_bytes is64 = bitfield a True rd rn 0 (ext_imms from_bytes) is64"

definition a64_uxt :: "a64_asm \<Rightarrow> int \<Rightarrow> int \<Rightarrow> u32 \<Rightarrow> bool \<Rightarrow> a64_asm" where
  "a64_uxt a rd rn from_bytes is64 = bitfield a False rd rn 0 (ext_imms from_bytes) is64"

definition a64_cmp_imm12 :: "a64_asm \<Rightarrow> int \<Rightarrow> u32 \<Rightarrow> bool \<Rightarrow> bool \<Rightarrow> a64_asm" where
  "a64_cmp_imm12 a rn imm12 shift12 is64 =
     a64_word a (addsub_imm_base is64 True True OR (if shift12 then 0x400000 else 0)
       OR push_bit 10 (imm12 AND 0xFFF) OR RN rn OR 31)"

definition a64_cmp_reg :: "a64_asm \<Rightarrow> int \<Rightarrow> int \<Rightarrow> bool \<Rightarrow> a64_asm" where
  "a64_cmp_reg a rn rm is64 = a64_word a (addsub_reg_base is64 True True OR RM rm OR RN rn OR 31)"

section \<open>Loads and stores\<close>

text \<open>\<open>None\<close>: the process ends with a diagnostic.\<close>

definition ls_imm :: "a64_asm \<Rightarrow> u32 \<Rightarrow> int \<Rightarrow> int \<Rightarrow> int \<Rightarrow> int \<Rightarrow> a64_asm option" where
  "ls_imm a base rt rn off scale =
     (if off < 0 \<or> off AND (scale - 1) \<noteq> 0 then None
      else let pimm = word_of_int (off div scale) AND 0xFFF
           in Some (a64_word a (base OR push_bit 10 pimm OR RN rn OR RD rt)))"

definition ls_unscaled :: "a64_asm \<Rightarrow> u32 \<Rightarrow> int \<Rightarrow> int \<Rightarrow> int \<Rightarrow> a64_asm option" where
  "ls_unscaled a base rt rn off =
     (if off < - 256 \<or> off > 255 then None
      else let pimm = word_of_int (off AND 0x1FF)
           in Some (a64_word a (base OR push_bit 12 pimm OR RN rn OR RD rt)))"

definition a64_stur64 :: "a64_asm \<Rightarrow> int \<Rightarrow> int \<Rightarrow> int \<Rightarrow> a64_asm option" where
  "a64_stur64 a rt rn off = ls_unscaled a 0xF8000000 rt rn off"

definition a64_ldur64 :: "a64_asm \<Rightarrow> int \<Rightarrow> int \<Rightarrow> int \<Rightarrow> a64_asm option" where
  "a64_ldur64 a rt rn off = ls_unscaled a 0xF8400000 rt rn off"

definition a64_stur32 :: "a64_asm \<Rightarrow> int \<Rightarrow> int \<Rightarrow> int \<Rightarrow> a64_asm option" where
  "a64_stur32 a rt rn off = ls_unscaled a 0xB8000000 rt rn off"

definition a64_ldur32 :: "a64_asm \<Rightarrow> int \<Rightarrow> int \<Rightarrow> int \<Rightarrow> a64_asm option" where
  "a64_ldur32 a rt rn off = ls_unscaled a 0xB8400000 rt rn off"

definition a64_stur16 :: "a64_asm \<Rightarrow> int \<Rightarrow> int \<Rightarrow> int \<Rightarrow> a64_asm option" where
  "a64_stur16 a rt rn off = ls_unscaled a 0x78000000 rt rn off"

definition a64_ldur16 :: "a64_asm \<Rightarrow> int \<Rightarrow> int \<Rightarrow> int \<Rightarrow> a64_asm option" where
  "a64_ldur16 a rt rn off = ls_unscaled a 0x78400000 rt rn off"

definition a64_stur8 :: "a64_asm \<Rightarrow> int \<Rightarrow> int \<Rightarrow> int \<Rightarrow> a64_asm option" where
  "a64_stur8 a rt rn off = ls_unscaled a 0x38000000 rt rn off"

definition a64_ldur8 :: "a64_asm \<Rightarrow> int \<Rightarrow> int \<Rightarrow> int \<Rightarrow> a64_asm option" where
  "a64_ldur8 a rt rn off = ls_unscaled a 0x38400000 rt rn off"

definition a64_ldursb64 :: "a64_asm \<Rightarrow> int \<Rightarrow> int \<Rightarrow> int \<Rightarrow> a64_asm option" where
  "a64_ldursb64 a rt rn off = ls_unscaled a 0x38800000 rt rn off"

definition a64_ldursh64 :: "a64_asm \<Rightarrow> int \<Rightarrow> int \<Rightarrow> int \<Rightarrow> a64_asm option" where
  "a64_ldursh64 a rt rn off = ls_unscaled a 0x78800000 rt rn off"

definition a64_ldursw :: "a64_asm \<Rightarrow> int \<Rightarrow> int \<Rightarrow> int \<Rightarrow> a64_asm option" where
  "a64_ldursw a rt rn off = ls_unscaled a 0xB8800000 rt rn off"

definition a64_str64 :: "a64_asm \<Rightarrow> int \<Rightarrow> int \<Rightarrow> int \<Rightarrow> a64_asm option" where
  "a64_str64 a rt rn off = ls_imm a 0xF9000000 rt rn off 8"

definition a64_ldr64 :: "a64_asm \<Rightarrow> int \<Rightarrow> int \<Rightarrow> int \<Rightarrow> a64_asm option" where
  "a64_ldr64 a rt rn off = ls_imm a 0xF9400000 rt rn off 8"

definition a64_str32 :: "a64_asm \<Rightarrow> int \<Rightarrow> int \<Rightarrow> int \<Rightarrow> a64_asm option" where
  "a64_str32 a rt rn off = ls_imm a 0xB9000000 rt rn off 4"

definition a64_ldr32 :: "a64_asm \<Rightarrow> int \<Rightarrow> int \<Rightarrow> int \<Rightarrow> a64_asm option" where
  "a64_ldr32 a rt rn off = ls_imm a 0xB9400000 rt rn off 4"

definition a64_str16 :: "a64_asm \<Rightarrow> int \<Rightarrow> int \<Rightarrow> int \<Rightarrow> a64_asm option" where
  "a64_str16 a rt rn off = ls_imm a 0x79000000 rt rn off 2"

definition a64_ldr16 :: "a64_asm \<Rightarrow> int \<Rightarrow> int \<Rightarrow> int \<Rightarrow> a64_asm option" where
  "a64_ldr16 a rt rn off = ls_imm a 0x79400000 rt rn off 2"

definition a64_str8 :: "a64_asm \<Rightarrow> int \<Rightarrow> int \<Rightarrow> int \<Rightarrow> a64_asm option" where
  "a64_str8 a rt rn off = ls_imm a 0x39000000 rt rn off 1"

definition a64_ldr8 :: "a64_asm \<Rightarrow> int \<Rightarrow> int \<Rightarrow> int \<Rightarrow> a64_asm option" where
  "a64_ldr8 a rt rn off = ls_imm a 0x39400000 rt rn off 1"

definition a64_ldrsw :: "a64_asm \<Rightarrow> int \<Rightarrow> int \<Rightarrow> int \<Rightarrow> a64_asm option" where
  "a64_ldrsw a rt rn off = ls_imm a 0xB9800000 rt rn off 4"

definition a64_ldrsb64 :: "a64_asm \<Rightarrow> int \<Rightarrow> int \<Rightarrow> int \<Rightarrow> a64_asm option" where
  "a64_ldrsb64 a rt rn off = ls_imm a 0x39800000 rt rn off 1"

definition a64_ldrsh64 :: "a64_asm \<Rightarrow> int \<Rightarrow> int \<Rightarrow> int \<Rightarrow> a64_asm option" where
  "a64_ldrsh64 a rt rn off = ls_imm a 0x79800000 rt rn off 2"

definition a64_str_d :: "a64_asm \<Rightarrow> int \<Rightarrow> int \<Rightarrow> int \<Rightarrow> a64_asm option" where
  "a64_str_d a rt rn off = ls_imm a 0xFD000000 rt rn off 8"

definition a64_ldr_d :: "a64_asm \<Rightarrow> int \<Rightarrow> int \<Rightarrow> int \<Rightarrow> a64_asm option" where
  "a64_ldr_d a rt rn off = ls_imm a 0xFD400000 rt rn off 8"

definition a64_str_s :: "a64_asm \<Rightarrow> int \<Rightarrow> int \<Rightarrow> int \<Rightarrow> a64_asm option" where
  "a64_str_s a rt rn off = ls_imm a 0xBD000000 rt rn off 4"

definition a64_ldr_s :: "a64_asm \<Rightarrow> int \<Rightarrow> int \<Rightarrow> int \<Rightarrow> a64_asm option" where
  "a64_ldr_s a rt rn off = ls_imm a 0xBD400000 rt rn off 4"

definition ls_reg :: "a64_asm \<Rightarrow> u32 \<Rightarrow> int \<Rightarrow> int \<Rightarrow> int \<Rightarrow> a64_asm" where
  "ls_reg a base rt rn rm = a64_word a (base OR RM rm OR RN rn OR RD rt)"

definition a64_ldr64_reg :: "a64_asm \<Rightarrow> int \<Rightarrow> int \<Rightarrow> int \<Rightarrow> a64_asm" where
  "a64_ldr64_reg a rt rn rm = ls_reg a 0xF8606800 rt rn rm"

definition a64_str64_reg :: "a64_asm \<Rightarrow> int \<Rightarrow> int \<Rightarrow> int \<Rightarrow> a64_asm" where
  "a64_str64_reg a rt rn rm = ls_reg a 0xF8206800 rt rn rm"

definition a64_ldr16_reg :: "a64_asm \<Rightarrow> int \<Rightarrow> int \<Rightarrow> int \<Rightarrow> a64_asm" where
  "a64_ldr16_reg a rt rn rm = ls_reg a 0x78606800 rt rn rm"

definition a64_ldrsb64_reg :: "a64_asm \<Rightarrow> int \<Rightarrow> int \<Rightarrow> int \<Rightarrow> a64_asm" where
  "a64_ldrsb64_reg a rt rn rm = ls_reg a 0x38A06800 rt rn rm"

datatype a64_pair_mode = A64_PAIR_OFFSET | A64_PAIR_POST | A64_PAIR_PRE

text \<open>The offset is divided by the element size with the truncating division of C.\<close>

definition pair_op :: "a64_asm \<Rightarrow> u32 \<Rightarrow> int \<Rightarrow> int \<Rightarrow> int \<Rightarrow> int \<Rightarrow> a64_pair_mode \<Rightarrow> a64_asm" where
  "pair_op a base rt rt2 rn scaled_off mode =
     (let w = (case mode of
                 A64_PAIR_POST \<Rightarrow> (base AND NOT 0x01000000) OR 0x00800000
               | A64_PAIR_PRE \<Rightarrow> base OR 0x00800000
               | A64_PAIR_OFFSET \<Rightarrow> base);
          w = w OR word_of_int (push_bit 15 (scaled_off AND 0x7F))
      in a64_word a (w OR reg_field 10 rt2 OR RN rn OR RD rt))"

definition a64_stp64 :: "a64_asm \<Rightarrow> int \<Rightarrow> int \<Rightarrow> int \<Rightarrow> int \<Rightarrow> a64_pair_mode \<Rightarrow> a64_asm" where
  "a64_stp64 a rt rt2 rn off mode = pair_op a 0xA9000000 rt rt2 rn (off sdiv 8) mode"

definition a64_ldp64 :: "a64_asm \<Rightarrow> int \<Rightarrow> int \<Rightarrow> int \<Rightarrow> int \<Rightarrow> a64_pair_mode \<Rightarrow> a64_asm" where
  "a64_ldp64 a rt rt2 rn off mode = pair_op a 0xA9400000 rt rt2 rn (off sdiv 8) mode"

definition a64_stp32 :: "a64_asm \<Rightarrow> int \<Rightarrow> int \<Rightarrow> int \<Rightarrow> int \<Rightarrow> a64_pair_mode \<Rightarrow> a64_asm" where
  "a64_stp32 a rt rt2 rn off mode = pair_op a 0x29000000 rt rt2 rn (off sdiv 4) mode"

definition a64_ldp32 :: "a64_asm \<Rightarrow> int \<Rightarrow> int \<Rightarrow> int \<Rightarrow> int \<Rightarrow> a64_pair_mode \<Rightarrow> a64_asm" where
  "a64_ldp32 a rt rt2 rn off mode = pair_op a 0x29400000 rt rt2 rn (off sdiv 4) mode"

section \<open>Branches, system instructions, page addressing\<close>

definition a64_b :: "a64_asm \<Rightarrow> int \<Rightarrow> a64_asm" where
  "a64_b a label = word_with_fixup a 0x14000000 A64_FIX_B26 0 label"

definition a64_bl :: "a64_asm \<Rightarrow> int \<Rightarrow> a64_asm" where
  "a64_bl a label = word_with_fixup a 0x94000000 A64_FIX_B26 0 label"

definition wide_branch_over :: "a64_asm \<Rightarrow> u32 \<Rightarrow> int \<Rightarrow> a64_asm" where
  "wide_branch_over a inv_word label =
     (case a64_new_label a of (a, over) \<Rightarrow>
        a64_bind (a64_b (word_with_fixup a inv_word A64_FIX_B19 0 over) label) over)"

definition a64_bcond :: "a64_asm \<Rightarrow> int \<Rightarrow> int \<Rightarrow> a64_asm" where
  "a64_bcond a cond label =
     (if as_wide_cond a then wide_branch_over a (0x54000000 OR word_of_int ((cond XOR 1) AND 15)) label
      else word_with_fixup a (0x54000000 OR word_of_int (cond AND 15)) A64_FIX_B19 0 label)"

definition a64_cbz :: "a64_asm \<Rightarrow> int \<Rightarrow> int \<Rightarrow> bool \<Rightarrow> a64_asm" where
  "a64_cbz a rt label is64 =
     (if as_wide_cond a then wide_branch_over a ((if is64 then 0xB5000000 else 0x35000000) OR RD rt) label
      else word_with_fixup a ((if is64 then 0xB4000000 else 0x34000000) OR RD rt) A64_FIX_B19 0 label)"

definition a64_cbnz :: "a64_asm \<Rightarrow> int \<Rightarrow> int \<Rightarrow> bool \<Rightarrow> a64_asm" where
  "a64_cbnz a rt label is64 =
     (if as_wide_cond a then wide_branch_over a ((if is64 then 0xB4000000 else 0x34000000) OR RD rt) label
      else word_with_fixup a ((if is64 then 0xB5000000 else 0x35000000) OR RD rt) A64_FIX_B19 0 label)"

definition a64_ret :: "a64_asm \<Rightarrow> int \<Rightarrow> a64_asm" where
  "a64_ret a rn = a64_word a (0xD65F0000 OR RN rn)"

definition a64_svc :: "a64_asm \<Rightarrow> u32 \<Rightarrow> a64_asm" where
  "a64_svc a imm16 = a64_word a (0xD4000001 OR push_bit 5 (imm16 AND 0xFFFF))"

definition a64_adrp_label :: "a64_asm \<Rightarrow> int \<Rightarrow> int \<Rightarrow> a64_asm" where
  "a64_adrp_label a rd label = word_with_fixup a (0x90000000 OR RD rd) A64_FIX_ADRP rd label"

definition a64_adrp_add_label :: "a64_asm \<Rightarrow> int \<Rightarrow> int \<Rightarrow> a64_asm" where
  "a64_adrp_add_label a rd label =
     (let at = of_nat (length (as_code a));
          a = a64_word a (0x90000000 OR RD rd);
          a = a64_add_imm12 a rd rd 0 False True False
      in add_fixup_at a A64_FIX_ADRP_ADD rd label at)"

definition a64_br_reg :: "a64_asm \<Rightarrow> int \<Rightarrow> a64_asm" where
  "a64_br_reg a rn = a64_word a (0xD61F0000 OR RN rn)"

definition a64_blr :: "a64_asm \<Rightarrow> int \<Rightarrow> a64_asm" where
  "a64_blr a rn = a64_word a (0xD63F0000 OR RN rn)"

definition a64_paciasp :: "a64_asm \<Rightarrow> a64_asm" where
  "a64_paciasp a = a64_word a 0xD503233F"

definition a64_pacia :: "a64_asm \<Rightarrow> int \<Rightarrow> a64_asm" where
  "a64_pacia a rt = a64_word a (0xDAC10000 OR RD rt)"

definition a64_autda :: "a64_asm \<Rightarrow> int \<Rightarrow> int \<Rightarrow> a64_asm" where
  "a64_autda a rt rn = a64_word a (0xDAC10000 OR RD rt OR RN rn)"

definition a64_retab :: "a64_asm \<Rightarrow> a64_asm" where
  "a64_retab a = a64_word a 0xD65F0FFF"

section \<open>Scalar floating point\<close>

definition a64_fmov_reg :: "a64_asm \<Rightarrow> int \<Rightarrow> int \<Rightarrow> bool \<Rightarrow> a64_asm" where
  "a64_fmov_reg a rd rm is_double =
     (let base = (if is_double then 0x1E604000 else 0x1E204000) in a64_word a (base OR RN rm OR RD rd))"

definition a64_fmov_gp :: "a64_asm \<Rightarrow> int \<Rightarrow> int \<Rightarrow> bool \<Rightarrow> bool \<Rightarrow> a64_asm" where
  "a64_fmov_gp a rd rn to_vec is64 =
     (let base = (if is64 then (if to_vec then 0x9E670000 else 0x9E660000)
                  else (if to_vec then 0x1E270000 else 0x1E260000))
      in a64_word a (base OR RN rn OR RD rd))"

definition fp_op :: "a64_asm \<Rightarrow> u32 \<Rightarrow> u32 \<Rightarrow> int \<Rightarrow> int \<Rightarrow> int \<Rightarrow> bool \<Rightarrow> a64_asm" where
  "fp_op a base_d base_s rd rn rm is_double =
     a64_word a ((if is_double then base_d else base_s) OR RM rm OR RN rn OR RD rd)"

definition a64_fadd :: "a64_asm \<Rightarrow> int \<Rightarrow> int \<Rightarrow> int \<Rightarrow> bool \<Rightarrow> a64_asm" where
  "a64_fadd a rd rn rm is_double = fp_op a 0x1E602800 0x1E202800 rd rn rm is_double"

definition a64_fsub :: "a64_asm \<Rightarrow> int \<Rightarrow> int \<Rightarrow> int \<Rightarrow> bool \<Rightarrow> a64_asm" where
  "a64_fsub a rd rn rm is_double = fp_op a 0x1E603800 0x1E203800 rd rn rm is_double"

definition a64_fmul :: "a64_asm \<Rightarrow> int \<Rightarrow> int \<Rightarrow> int \<Rightarrow> bool \<Rightarrow> a64_asm" where
  "a64_fmul a rd rn rm is_double = fp_op a 0x1E600800 0x1E200800 rd rn rm is_double"

definition a64_fdiv :: "a64_asm \<Rightarrow> int \<Rightarrow> int \<Rightarrow> int \<Rightarrow> bool \<Rightarrow> a64_asm" where
  "a64_fdiv a rd rn rm is_double = fp_op a 0x1E601800 0x1E201800 rd rn rm is_double"

definition a64_fcmp :: "a64_asm \<Rightarrow> int \<Rightarrow> int \<Rightarrow> bool \<Rightarrow> a64_asm" where
  "a64_fcmp a rn rm is_double = fp_op a 0x1E602000 0x1E202000 0 rn rm is_double"

definition a64_scvtf :: "a64_asm \<Rightarrow> int \<Rightarrow> int \<Rightarrow> bool \<Rightarrow> a64_asm" where
  "a64_scvtf a rd rn from64 = a64_word a ((if from64 then 0x9E620000 else 0x1E220000) OR RN rn OR RD rd)"

definition a64_fcvtzs :: "a64_asm \<Rightarrow> int \<Rightarrow> int \<Rightarrow> bool \<Rightarrow> a64_asm" where
  "a64_fcvtzs a rd rn to64 = a64_word a ((if to64 then 0x9E780000 else 0x1E380000) OR RN rn OR RD rd)"

end
