(* ===== verification/A64Isa.thy ===== *)
theory A64Isa
  imports Prelude "HOL-Library.Signed_Division"
begin

text \<open>
  The part of the A64 instruction set the encoder of \<open>src/a64.c\<close> emits, as the ARM Architecture
  Reference Manual defines it: the fields of each encoding class (\<open>decode\<close>) and, for the instructions
  whose meaning the encoder's aliases rely on, their effect on the general registers (\<open>exec\<close>).  This is
  the reference the encoder is proved against; nothing of it comes from the encoder.
\<close>

section \<open>Instructions\<close>

text \<open>
  One constructor per encoding class, its arguments the operand fields of the class from the most
  significant one down.  The first argument of most is the operand size bit \<open>sf\<close>.
\<close>

datatype (plugins only: code) a64_inst =
    MovWide bool u32 u32 u32 u32                         \<comment> \<open>sf, opc, hw, imm16, Rd\<close>
  | AddSubImm bool bool bool bool u32 u32 u32            \<comment> \<open>sf, op, S, shift 12, imm12, Rn, Rd\<close>
  | AddSubReg bool bool bool u32 u32 u32 u32 u32         \<comment> \<open>sf, op, S, shift, Rm, amount, Rn, Rd\<close>
  | LogImm bool u32 bool u32 u32 u32 u32                 \<comment> \<open>sf, opc, N, immr, imms, Rn, Rd\<close>
  | LogReg bool u32 u32 bool u32 u32 u32 u32             \<comment> \<open>sf, opc, shift, N, Rm, amount, Rn, Rd\<close>
  | BitField bool u32 bool u32 u32 u32 u32               \<comment> \<open>sf, opc, N, immr, imms, Rn, Rd\<close>
  | Dp3 bool u32 u32 bool u32 u32 u32                    \<comment> \<open>sf, op31, Rm, o0, Ra, Rn, Rd\<close>
  | Dp2 bool u32 u32 u32 u32                             \<comment> \<open>sf, Rm, opcode, Rn, Rd\<close>
  | Dp1 u32 u32 u32                                      \<comment> \<open>opcode (pointer authentication), Rn, Rd\<close>
  | CondSel bool bool bool u32 u32 u32 u32 u32           \<comment> \<open>sf, op, S, Rm, cond, op2, Rn, Rd\<close>
  | LdStImm u32 bool u32 u32 u32 u32                     \<comment> \<open>size, V, opc, imm12, Rn, Rt\<close>
  | LdStUnscaled u32 bool u32 u32 u32 u32                \<comment> \<open>size, V, opc, imm9, Rn, Rt\<close>
  | LdStReg u32 bool u32 u32 u32 bool u32 u32            \<comment> \<open>size, V, opc, Rm, option, S, Rn, Rt\<close>
  | LdStPair u32 bool u32 bool u32 u32 u32 u32           \<comment> \<open>opc, V, mode, L, imm7, Rt2, Rn, Rt\<close>
  | BranchImm bool u32                                   \<comment> \<open>link, imm26\<close>
  | BranchCond u32 u32                                   \<comment> \<open>imm19, cond\<close>
  | CmpBranch bool bool u32 u32                          \<comment> \<open>sf, non-zero, imm19, Rt\<close>
  | BranchReg u32 u32                                    \<comment> \<open>opc, Rn\<close>
  | RetAuth bool                                         \<comment> \<open>key B\<close>
  | SupCall u32                                          \<comment> \<open>imm16\<close>
  | Adrp u32 u32 u32                                     \<comment> \<open>immlo, immhi, Rd\<close>
  | PacIaSp
  | FpDp1 u32 u32 u32 u32                                \<comment> \<open>type, opcode, Rn, Rd\<close>
  | FpDp2 u32 u32 u32 u32 u32                            \<comment> \<open>type, Rm, opcode, Rn, Rd\<close>
  | FpCmp u32 u32 u32                                    \<comment> \<open>type, Rm, Rn\<close>
  | FpInt bool u32 u32 u32 u32 u32                       \<comment> \<open>sf, type, rmode, opcode, Rn, Rd\<close>

section \<open>Decoding\<close>

definition fld :: "nat \<Rightarrow> nat \<Rightarrow> u32 \<Rightarrow> u32" where
  "fld lo n w = take_bit n (drop_bit lo w)"

abbreviation rd_of :: "u32 \<Rightarrow> u32" where "rd_of \<equiv> fld 0 5"
abbreviation rn_of :: "u32 \<Rightarrow> u32" where "rn_of \<equiv> fld 5 5"
abbreviation rm_of :: "u32 \<Rightarrow> u32" where "rm_of \<equiv> fld 16 5"

text \<open>The groups of the top-level table, then the classes of each group.\<close>

definition decode_dp_imm :: "u32 \<Rightarrow> a64_inst option" where
  "decode_dp_imm w =
    (if fld 24 2 w = 0 then
       if bit w 31 then Some (Adrp (fld 29 2 w) (fld 5 19 w) (rd_of w)) else None
     else if fld 23 3 w = 2 then
       Some (AddSubImm (bit w 31) (bit w 30) (bit w 29) (bit w 22) (fld 10 12 w) (rn_of w) (rd_of w))
     else if fld 23 3 w = 4 then
       Some (LogImm (bit w 31) (fld 29 2 w) (bit w 22) (fld 16 6 w) (fld 10 6 w) (rn_of w) (rd_of w))
     else if fld 23 3 w = 5 then
       Some (MovWide (bit w 31) (fld 29 2 w) (fld 21 2 w) (fld 5 16 w) (rd_of w))
     else if fld 23 3 w = 6 then
       Some (BitField (bit w 31) (fld 29 2 w) (bit w 22) (fld 16 6 w) (fld 10 6 w) (rn_of w) (rd_of w))
     else None)"

definition decode_branch :: "u32 \<Rightarrow> a64_inst option" where
  "decode_branch w =
    (if fld 29 2 w = 0 then Some (BranchImm (bit w 31) (fld 0 26 w))
     else if fld 29 2 w = 1 then
       if bit w 25 then None else Some (CmpBranch (bit w 31) (bit w 24) (fld 5 19 w) (rd_of w))
     else if fld 29 3 w = 2 then
       if fld 24 2 w = 0 \<and> \<not> bit w 4 then Some (BranchCond (fld 5 19 w) (fld 0 4 w)) else None
     else if fld 24 8 w = 0xD4 then
       if fld 21 3 w = 0 \<and> fld 0 5 w = 1 then Some (SupCall (fld 5 16 w)) else None
     else if fld 24 8 w = 0xD5 then if w = 0xD503233F then Some PacIaSp else None
     else if fld 24 8 w = 0xD6 then
       if fld 10 6 w = 0 \<and> fld 16 5 w = 31 \<and> fld 23 1 w = 0 \<and> fld 0 5 w = 0 then
         Some (BranchReg (fld 21 2 w) (rn_of w))
       else if w = 0xD65F0BFF then Some (RetAuth False)
       else if w = 0xD65F0FFF then Some (RetAuth True)
       else None
     else None)"

definition decode_ldst :: "u32 \<Rightarrow> a64_inst option" where
  "decode_ldst w =
    (if fld 28 2 w = 2 then
       Some (LdStPair (fld 30 2 w) (bit w 26) (fld 23 2 w) (bit w 22) (fld 15 7 w) (fld 10 5 w) (rn_of w) (rd_of w))
     else if fld 28 2 w = 3 \<and> bit w 24 then
       Some (LdStImm (fld 30 2 w) (bit w 26) (fld 22 2 w) (fld 10 12 w) (rn_of w) (rd_of w))
     else if fld 28 2 w = 3 \<and> \<not> bit w 21 \<and> fld 10 2 w = 0 then
       Some (LdStUnscaled (fld 30 2 w) (bit w 26) (fld 22 2 w) (fld 12 9 w) (rn_of w) (rd_of w))
     else if fld 28 2 w = 3 \<and> bit w 21 \<and> fld 10 2 w = 2 then
       Some (LdStReg (fld 30 2 w) (bit w 26) (fld 22 2 w) (rm_of w) (fld 13 3 w) (bit w 12) (rn_of w) (rd_of w))
     else None)"

definition decode_dp_reg :: "u32 \<Rightarrow> a64_inst option" where
  "decode_dp_reg w =
    (if fld 24 5 w = 0x0A then
       Some (LogReg (bit w 31) (fld 29 2 w) (fld 22 2 w) (bit w 21) (rm_of w) (fld 10 6 w) (rn_of w) (rd_of w))
     else if fld 24 5 w = 0x0B then
       if bit w 21 then None
       else Some (AddSubReg (bit w 31) (bit w 30) (bit w 29) (fld 22 2 w) (rm_of w) (fld 10 6 w) (rn_of w) (rd_of w))
     else if fld 24 7 w = 0x1B then
       Some (Dp3 (bit w 31) (fld 21 3 w) (rm_of w) (bit w 15) (fld 10 5 w) (rn_of w) (rd_of w))
     else if fld 21 8 w = 0xD4 then
       Some (CondSel (bit w 31) (bit w 30) (bit w 29) (rm_of w) (fld 12 4 w) (fld 10 2 w) (rn_of w) (rd_of w))
     else if fld 21 10 w = 0xD6 then
       Some (Dp2 (bit w 31) (rm_of w) (fld 10 6 w) (rn_of w) (rd_of w))
     else if fld 21 11 w = 0x6D6 \<and> fld 16 5 w = 1 then Some (Dp1 (fld 10 6 w) (rn_of w) (rd_of w))
     else None)"

definition decode_fp :: "u32 \<Rightarrow> a64_inst option" where
  "decode_fp w =
    (if fld 24 7 w \<noteq> 0x1E \<or> \<not> bit w 21 then None
     else if fld 10 6 w = 0 then
       Some (FpInt (bit w 31) (fld 22 2 w) (fld 19 2 w) (fld 16 3 w) (rn_of w) (rd_of w))
     else if bit w 31 then None
     else if fld 10 5 w = 0x10 then Some (FpDp1 (fld 22 2 w) (fld 15 6 w) (rn_of w) (rd_of w))
     else if fld 10 6 w = 8 then
       if fld 0 5 w = 0 then Some (FpCmp (fld 22 2 w) (rm_of w) (rn_of w)) else None
     else if fld 10 2 w = 2 then
       Some (FpDp2 (fld 22 2 w) (rm_of w) (fld 12 4 w) (rn_of w) (rd_of w))
     else None)"

definition decode :: "u32 \<Rightarrow> a64_inst option" where
  "decode w =
    (if fld 26 3 w = 4 then decode_dp_imm w
     else if fld 26 3 w = 5 then decode_branch w
     else if bit w 27 \<and> \<not> bit w 25 then decode_ldst w
     else if fld 25 3 w = 5 then decode_dp_reg w
     else if fld 25 3 w = 7 then decode_fp w
     else None)"

lemmas decode_defs = decode_def decode_dp_imm_def decode_branch_def decode_ldst_def decode_dp_reg_def
  decode_fp_def

section \<open>Words built from fields\<close>

text \<open>\<open>put k n x\<close> is the field of \<open>n\<close> bits at bit \<open>k\<close> with value \<open>x\<close>.\<close>

definition put :: "nat \<Rightarrow> nat \<Rightarrow> u32 \<Rightarrow> u32" where
  "put k n x = push_bit k (take_bit n x)"

lemma bit_put: "bit (put k n x) i \<longleftrightarrow> i < 32 \<and> k \<le> i \<and> i - k < n \<and> bit x (i - k)"
  by (auto simp: put_def bit_simps)

lemma put_and: "(put k n x AND m) = 0" if "push_bit k (mask n) AND m = 0"
proof (rule bit_word_eqI)
  fix i assume i: "i < LENGTH(32)"
  have "\<not> bit (push_bit k (mask n) AND m) i" unfolding that by simp
  with i show "bit (put k n x AND m) i \<longleftrightarrow> bit 0 i"
    by (auto simp: bit_put bit_simps)
qed

lemma fld_or [simp]: "fld k n (a OR b) = fld k n a OR fld k n b"
  by (simp add: fld_def)

lemma fld_put_same: "k + n \<le> 32 \<Longrightarrow> fld k n (put k n x) = take_bit n x"
  by (rule bit_word_eqI) (auto simp: fld_def bit_put bit_simps)

lemma fld_put_other: "k + n \<le> lo \<or> lo + m \<le> k \<Longrightarrow> fld lo m (put k n x) = 0"
  by (rule bit_word_eqI) (auto simp: fld_def bit_put bit_simps)

lemma bit_put_other: "i < k \<or> k + n \<le> i \<Longrightarrow> bit (put k n x) i = False"
  by (auto simp: bit_put)

lemmas put_simps = fld_put_same fld_put_other bit_put_other bit_or_iff fld_def[of _ _ "numeral _"]
  fld_def[of _ _ 0] fld_def[of _ _ 1]

section \<open>Effect on the registers\<close>

text \<open>
  Register 31 reads as zero and ignores writes.  The forms in which it is the stack pointer, undefined
  encodings, and the instructions whose effect is not on general registers and flags have no effect
  here (\<open>None\<close>).  A 32-bit operation uses the low halves and clears the high half of its result.
\<close>

record a64_state =
  xregs :: "u32 \<Rightarrow> u64"
  flag_n :: bool
  flag_z :: bool
  flag_c :: bool
  flag_v :: bool

definition rreg :: "bool \<Rightarrow> a64_state \<Rightarrow> u32 \<Rightarrow> u64" where
  "rreg sf s r = (let x = (if r = 31 then 0 else xregs s r) in if sf then x else take_bit 32 x)"

definition wreg :: "bool \<Rightarrow> a64_state \<Rightarrow> u32 \<Rightarrow> u64 \<Rightarrow> a64_state" where
  "wreg sf s r v =
     (if r = 31 then s else s\<lparr>xregs := (xregs s)(r := if sf then v else take_bit 32 v)\<rparr>)"

definition exec_mov_wide :: "bool \<Rightarrow> u32 \<Rightarrow> u32 \<Rightarrow> u32 \<Rightarrow> u32 \<Rightarrow> a64_state \<Rightarrow> a64_state option" where
  "exec_mov_wide sf opc hw imm rd s =
     (let sh = 16 * unat hw; x = push_bit sh (ucast imm) in
      if \<not> sf \<and> hw \<ge> 2 then None
      else if opc = 0 then Some (wreg sf s rd (NOT x))
      else if opc = 2 then Some (wreg sf s rd x)
      else if opc = 3 then Some (wreg sf s rd ((rreg sf s rd AND NOT (push_bit sh 0xFFFF)) OR x))
      else None)"

text \<open>\<open>AddWithCarry\<close>, on words of either size, with the flags.\<close>

definition addc :: "'a::len word \<Rightarrow> 'a word \<Rightarrow> bool \<Rightarrow> 'a word \<times> bool \<times> bool \<times> bool \<times> bool" where
  "addc x y c =
     (let r = x + y + of_bool c in
      (r, sint r < 0, r = 0, uint x + uint y + of_bool c \<noteq> uint r, sint x + sint y + of_bool c \<noteq> sint r))"

definition exec_addsub :: "bool \<Rightarrow> bool \<Rightarrow> bool \<Rightarrow> u32 \<Rightarrow> u64 \<Rightarrow> u64 \<Rightarrow> a64_state \<Rightarrow> a64_state" where
  "exec_addsub sf op S rd x y s =
     (let (r, n, z, c, v) =
        (if sf then addc x (if op then NOT y else y) op
         else (case addc (ucast x :: u32) (ucast (if op then NOT y else y)) op of
                 (r, n, z, c, v) \<Rightarrow> (ucast r, n, z, c, v)));
        s = wreg sf s rd r
      in if S then s\<lparr>flag_n := n, flag_z := z, flag_c := c, flag_v := v\<rparr> else s)"

definition shift_reg :: "bool \<Rightarrow> u32 \<Rightarrow> u64 \<Rightarrow> nat \<Rightarrow> u64" where
  "shift_reg sf shift x n =
     (if shift = 0 then push_bit n x
      else if shift = 1 then drop_bit n x
      else if shift = 2 then
        (if sf then signed_drop_bit n x else ucast (signed_drop_bit n (ucast x :: u32)))
      else (if sf then word_rotr n x else ucast (word_rotr n (ucast x :: u32))))"

definition log_op :: "u32 \<Rightarrow> u64 \<Rightarrow> u64 \<Rightarrow> u64" where
  "log_op opc x y = (if opc = 1 then x OR y else if opc = 2 then x XOR y else x AND y)"

definition set_log_flags :: "bool \<Rightarrow> u64 \<Rightarrow> a64_state \<Rightarrow> a64_state" where
  "set_log_flags sf r s =
     s\<lparr>flag_n := bit r (if sf then 63 else 31), flag_z := (if sf then r else take_bit 32 r) = 0,
       flag_c := False, flag_v := False\<rparr>"

text \<open>\<open>DecodeBitMasks\<close>: the element is a run of \<open>S + 1\<close> ones rotated right by \<open>R\<close>, replicated.\<close>

definition limm_len :: "bool \<Rightarrow> u32 \<Rightarrow> nat option" where
  "limm_len N imms =
     (if N then Some 6
      else map_option (\<lambda>i. 5 - i) (find_index (\<lambda>k. \<not> bit imms k) [5, 4, 3, 2, 1]))"

definition decode_bit_masks :: "bool \<Rightarrow> bool \<Rightarrow> u32 \<Rightarrow> u32 \<Rightarrow> u64 option" where
  "decode_bit_masks sf N immr imms =
     (if N \<and> \<not> sf then None
      else case limm_len N imms of
        None \<Rightarrow> None
      | Some len \<Rightarrow>
          let esize = 2 ^ len; S = unat (take_bit len imms); R = unat (take_bit len immr) in
          if S = esize - 1 then None
          else Some (horner_sum of_bool 2 (map (\<lambda>i. (i + R) mod esize \<le> S) [0..<if sf then 64 else 32])))"

definition exec_bitfield :: "bool \<Rightarrow> u32 \<Rightarrow> bool \<Rightarrow> u32 \<Rightarrow> u32 \<Rightarrow> u32 \<Rightarrow> u32 \<Rightarrow> a64_state \<Rightarrow> a64_state option" where
  "exec_bitfield sf opc N immr imms rn rd s =
     (let x = rreg sf s rn; r = unat immr; k = unat imms; w = (if sf then 64 else 32) in
      if N \<noteq> sf \<or> w \<le> r \<or> w \<le> k then None
      else if opc = 2 then
        Some (wreg sf s rd (if r \<le> k then take_bit (k - r + 1) (drop_bit r x)
                            else push_bit (w - r) (take_bit (k + 1) x)))
      else if opc = 0 then
        Some (wreg sf s rd (if r \<le> k then signed_take_bit (k - r) (drop_bit r x)
                            else push_bit (w - r) (signed_take_bit k x)))
      else None)"

definition exec_dp2 :: "bool \<Rightarrow> u32 \<Rightarrow> u64 \<Rightarrow> u64 \<Rightarrow> u64 option" where
  "exec_dp2 sf opcode x y =
     (let n = unat y mod (if sf then 64 else 32) in
      if opcode = 2 then Some (if y = 0 then 0 else x div y)
      else if opcode = 3 then
        Some (if y = 0 then 0
              else if sf then word_of_int (sint x sdiv sint y)
              else ucast (word_of_int (sint (ucast x :: u32) sdiv sint (ucast y :: u32)) :: u32))
      else if 8 \<le> opcode \<and> opcode < 12 then Some (shift_reg sf (opcode - 8) x n)
      else None)"

definition cond_holds :: "u32 \<Rightarrow> a64_state \<Rightarrow> bool" where
  "cond_holds cond s =
     (let base = (if cond div 2 = 0 then flag_z s
                  else if cond div 2 = 1 then flag_c s
                  else if cond div 2 = 2 then flag_n s
                  else if cond div 2 = 3 then flag_v s
                  else if cond div 2 = 4 then flag_c s \<and> \<not> flag_z s
                  else if cond div 2 = 5 then flag_n s = flag_v s
                  else if cond div 2 = 6 then flag_n s = flag_v s \<and> \<not> flag_z s
                  else True)
      in if cond mod 2 = 1 \<and> cond \<noteq> 15 then \<not> base else base)"

fun exec :: "a64_inst \<Rightarrow> a64_state \<Rightarrow> a64_state option" where
  "exec (MovWide sf opc hw imm rd) s = exec_mov_wide sf opc hw imm rd s"
| "exec (AddSubImm sf op S sh imm rn rd) s =
     (if rn = 31 \<or> rd = 31 \<and> \<not> S then None
      else Some (exec_addsub sf op S rd (rreg sf s rn) (push_bit (if sh then 12 else 0) (ucast imm)) s))"
| "exec (AddSubReg sf op S shift rm amount rn rd) s =
     (if shift = 3 \<or> \<not> sf \<and> amount \<ge> 32 then None
      else Some (exec_addsub sf op S rd (rreg sf s rn) (shift_reg sf shift (rreg sf s rm) (unat amount)) s))"
| "exec (LogImm sf opc N immr imms rn rd) s =
     (case decode_bit_masks sf N immr imms of
        None \<Rightarrow> None
      | Some m \<Rightarrow>
          let r = log_op opc (rreg sf s rn) m in
          if opc = 3 then Some (set_log_flags sf r (wreg sf s rd r))
          else if rd = 31 then None
          else Some (wreg sf s rd r))"
| "exec (LogReg sf opc shift N rm amount rn rd) s =
     (if \<not> sf \<and> amount \<ge> 32 then None
      else
        let y = shift_reg sf shift (rreg sf s rm) (unat amount);
            r = log_op opc (rreg sf s rn) (if N then NOT y else y)
        in Some (if opc = 3 then set_log_flags sf r (wreg sf s rd r) else wreg sf s rd r))"
| "exec (BitField sf opc N immr imms rn rd) s = exec_bitfield sf opc N immr imms rn rd s"
| "exec (Dp3 sf op31 rm o0 ra rn rd) s =
     (if op31 = 0 then
        let p = rreg sf s rn * rreg sf s rm; a = rreg sf s ra
        in Some (wreg sf s rd (if o0 then a - p else a + p))
      else if op31 = 6 \<and> sf \<and> \<not> o0 then
        Some (wreg sf s rd (of_nat (unat (rreg sf s rn) * unat (rreg sf s rm) div 2 ^ 64)))
      else None)"
| "exec (Dp2 sf rm opcode rn rd) s = map_option (wreg sf s rd) (exec_dp2 sf opcode (rreg sf s rn) (rreg sf s rm))"
| "exec (CondSel sf op S rm cond op2 rn rd) s =
     (if S \<or> op2 \<ge> 2 then None
      else Some (wreg sf s rd
        (if cond_holds cond s then rreg sf s rn
         else (let y = (if op then NOT (rreg sf s rm) else rreg sf s rm) in if op2 = 1 then y + 1 else y))))"
| "exec _ s = None"

text \<open>A sequence of instruction words.\<close>

fun run_words :: "u32 list \<Rightarrow> a64_state \<Rightarrow> a64_state option" where
  "run_words [] s = Some s"
| "run_words (w # ws) s = do { i \<leftarrow> decode w; s \<leftarrow> exec i s; run_words ws s }"

end
