(* ===== verification/A64Sound.thy ===== *)
theory A64Sound
  imports A64 A64Isa
begin

text \<open>
  The encoder against the instruction set: every emitted word decodes to the intended instruction with
  the operands in their fields; loads and stores reject the offsets their field cannot hold where the
  code checks them.
\<close>

section \<open>Operand fields\<close>

text \<open>The field value of a C register number, and of other operands.\<close>

definition regno :: "int \<Rightarrow> u32" where
  "regno r = take_bit 5 (word_of_int r)"

lemma and_mask_int: "(x :: int) AND 31 = take_bit 5 x" "x AND 3 = take_bit 2 x" "x AND 15 = take_bit 4 x"
  "x AND 0x7F = take_bit 7 x" "x AND 0x1FF = take_bit 9 x" "x AND 0x3FFFFFF = take_bit 26 x"
  "x AND 0x7FFFF = take_bit 19 x" "x AND 0xFFF = take_bit 12 x"
  by (simp_all add: take_bit_eq_mask mask_numeral flip: and.commute)

lemma and_mask_word: "(x :: u32) AND 0xFFFF = take_bit 16 x" "x AND 3 = take_bit 2 x"
  "x AND 0xFFF = take_bit 12 x" "x AND 0x3F = take_bit 6 x"
  by (simp_all add: take_bit_eq_mask mask_numeral)

lemma put_word_of_int: "n \<le> 32 \<Longrightarrow> word_of_int (push_bit k (take_bit n x)) = put k n (word_of_int x)"
  by (rule bit_word_eqI) (auto simp: bit_put bit_simps)

lemma reg_field_put: "reg_field k r = put k 5 (word_of_int r)"
  by (simp add: reg_field_def and_mask_int put_word_of_int)

lemma push_take_put: "push_bit k (take_bit n x) = put k n x"
  by (simp add: put_def)

lemma put_small: "x < 2 ^ n \<Longrightarrow> n < 32 \<Longrightarrow> push_bit k x = put k n x"
  by (simp add: put_def less_mask_eq take_bit_eq_mask)

lemma take_regno [simp]: "take_bit 5 (regno r) = regno r"
  by (simp add: regno_def)

lemmas field_simps = reg_field_put and_mask_int and_mask_word put_word_of_int push_take_put


section \<open>One instruction per call\<close>

definition emits :: "a64_asm \<Rightarrow> a64_inst \<Rightarrow> a64_asm \<Rightarrow> bool" where
  "emits a i a' \<longleftrightarrow> (\<exists>w. a' = a64_word a w \<and> decode w = Some i)"

lemma emitsI: "decode w = Some i \<Longrightarrow> emits a i (a64_word a w)"
  by (auto simp: emits_def)

named_theorems encodes "the instruction a function emits"

lemmas op_simps = field_simps mov_wide_def if_True if_False Let_def
lemmas enc_simps = put_simps decode_defs word_bw_assocs regno_def

lemma emits_mov_wide [encodes]:
  "emits a (MovWide is64 2 (take_bit 2 hw) (take_bit 16 imm) (regno rd)) (a64_movz a rd imm hw is64)"
  "emits a (MovWide is64 3 (take_bit 2 hw) (take_bit 16 imm) (regno rd)) (a64_movk a rd imm hw is64)"
  "emits a (MovWide is64 0 (take_bit 2 hw) (take_bit 16 imm) (regno rd)) (a64_movn a rd imm hw is64)"
  by (cases is64; simp only: a64_movz_def a64_movk_def a64_movn_def op_simps;
      rule emitsI; simp add: enc_simps)+

lemma emits_addsub_imm [encodes]:
  "emits a (AddSubImm is64 False setf sh (take_bit 12 imm) (regno rn) (regno rd))
     (a64_add_imm12 a rd rn imm sh is64 setf)"
  "emits a (AddSubImm is64 True setf sh (take_bit 12 imm) (regno rn) (regno rd))
     (a64_sub_imm12 a rd rn imm sh is64 setf)"
  "emits a (AddSubImm is64 True True sh (take_bit 12 imm) (regno rn) 31) (a64_cmp_imm12 a rn imm sh is64)"
  by (cases is64; cases setf; cases sh;
      simp only: a64_add_imm12_def a64_sub_imm12_def a64_cmp_imm12_def addsub_imm_base_def op_simps;
      rule emitsI; simp add: enc_simps)+

lemma emits_addsub_reg [encodes]:
  "emits a (AddSubReg is64 False setf (take_bit 2 (word_of_int shift)) (regno rm) (take_bit 6 amt) (regno rn) (regno rd))
     (a64_add_reg a rd rn rm shift amt is64 setf)"
  "emits a (AddSubReg is64 True setf (take_bit 2 (word_of_int shift)) (regno rm) (take_bit 6 amt) (regno rn) (regno rd))
     (a64_sub_reg a rd rn rm shift amt is64 setf)"
  "emits a (AddSubReg is64 True False 0 (regno rm) 0 31 (regno rd)) (a64_neg a rd rm is64)"
  "emits a (AddSubReg is64 True True 0 (regno rm) 0 (regno rn) 31) (a64_cmp_reg a rn rm is64)"
  by (cases is64; cases setf;
      simp only: a64_neg_def a64_add_reg_def a64_sub_reg_def a64_cmp_reg_def addsub_reg_base_def op_simps;
      rule emitsI; simp add: enc_simps)+

lemma emits_log_reg [encodes]:
  "emits a (LogReg is64 1 0 False (regno rm) 0 31 (regno rd)) (a64_mov_reg a rd rm is64)"
  "emits a (LogReg is64 1 0 True (regno rm) 0 31 (regno rd)) (a64_mvn a rd rm is64)"
  "emits a (LogReg is64 0 0 False (regno rm) 0 (regno rn) (regno rd)) (a64_and_reg a rd rn rm is64)"
  "emits a (LogReg is64 1 0 False (regno rm) 0 (regno rn) (regno rd)) (a64_or_reg a rd rn rm is64)"
  "emits a (LogReg is64 2 0 False (regno rm) 0 (regno rn) (regno rd)) (a64_eor_reg a rd rn rm is64)"
  by (cases is64;
      simp only: a64_mov_reg_def a64_mvn_def a64_and_reg_def a64_or_reg_def a64_eor_reg_def logical_reg_def
        logical_reg_base_def op_simps;
      rule emitsI; simp add: enc_simps)+

lemma emits_bitfield:
  assumes "immr < 64" "imms < 64"
  shows "emits a (BitField is64 (if sg then 0 else 2) is64 immr imms (regno rn) (regno rd))
     (bitfield a sg rd rn immr imms is64)"
proof -
  have f: "push_bit 16 immr = put 16 6 immr" "push_bit 10 imms = put 10 6 imms"
    using assms by (simp_all add: put_small)
  have t: "take_bit 6 immr = immr" "take_bit 6 imms = imms"
    using assms by (simp_all add: take_bit_eq_mask less_mask_eq)
  show ?thesis
    by (cases is64; cases sg; simp only: bitfield_def f op_simps; rule emitsI; simp add: enc_simps t)
qed

lemma emits_dp [encodes]:
  "emits a (Dp3 is64 0 (regno rm) False 31 (regno rn) (regno rd)) (a64_mul a rd rn rm is64)"
  "emits a (Dp3 True 6 (regno rm) False 31 (regno rn) (regno rd)) (a64_umulh a rd rn rm)"
  "emits a (Dp3 is64 0 (regno rm) True (regno ra) (regno rn) (regno rd)) (a64_msub a rd rn rm ra is64)"
  "emits a (Dp2 is64 (regno rm) 2 (regno rn) (regno rd)) (a64_udiv a rd rn rm is64)"
  "emits a (Dp2 is64 (regno rm) 3 (regno rn) (regno rd)) (a64_sdiv a rd rn rm is64)"
  "emits a (Dp2 is64 (regno rm) 8 (regno rn) (regno rd)) (a64_lslv a rd rn rm is64)"
  "emits a (Dp2 is64 (regno rm) 9 (regno rn) (regno rd)) (a64_lsrv a rd rn rm is64)"
  "emits a (Dp2 is64 (regno rm) 10 (regno rn) (regno rd)) (a64_asrv a rd rn rm is64)"
  "emits a (Dp2 is64 (regno rm) 11 (regno rn) (regno rd)) (a64_rorv a rd rn rm is64)"
  by (cases is64;
      simp only: a64_mul_def a64_umulh_def a64_msub_def a64_udiv_def a64_sdiv_def a64_lslv_def a64_lsrv_def
        a64_asrv_def a64_rorv_def var_shift_def op_simps;
      rule emitsI; simp add: enc_simps)+

section \<open>Loads and stores\<close>

lemma and_scale: "(x :: int) AND 7 = x mod 8" "x AND 3 = x mod 4" "x AND 1 = x mod 2" "x AND 0 = 0"
  using take_bit_eq_mod[of 3 x] take_bit_eq_mod[of 2 x] take_bit_eq_mod[of 1 x]
  by (simp_all add: take_bit_eq_mask mask_numeral)

text \<open>
  A scaled access ends the process exactly on a negative or misaligned offset.  Otherwise its immediate
  times the access size is the offset, as long as the offset is below 4096 units; a larger one is not
  rejected, and the access is at the offset modulo 4096 units.  An unscaled access takes exactly the
  offsets of its signed field.  A pair never ends the process; its signed immediate times the register
  size is the offset if that is a multiple of the size between -64 and 63 units, and in every case is the
  low seven bits of the quotient.
\<close>

definition scaled_access ::
  "(a64_asm \<Rightarrow> int \<Rightarrow> int \<Rightarrow> int \<Rightarrow> a64_asm option) \<Rightarrow> int \<Rightarrow> u32 \<Rightarrow> bool \<Rightarrow> u32 \<Rightarrow> bool" where
  "scaled_access f scale sz v opc \<longleftrightarrow> (\<forall>a rt rn off.
     (case f a rt rn off of
        None \<Rightarrow> off < 0 \<or> off mod scale \<noteq> 0
      | Some a' \<Rightarrow> 0 \<le> off \<and> off mod scale = 0 \<and>
          (\<exists>imm. emits a (LdStImm sz v opc imm (regno rn) (regno rt)) a' \<and>
             uint imm * scale = (if off < 4096 * scale then off else off mod (4096 * scale)))))"

definition unscaled_access ::
  "(a64_asm \<Rightarrow> int \<Rightarrow> int \<Rightarrow> int \<Rightarrow> a64_asm option) \<Rightarrow> u32 \<Rightarrow> u32 \<Rightarrow> bool" where
  "unscaled_access f sz opc \<longleftrightarrow> (\<forall>a rt rn off.
     (case f a rt rn off of
        None \<Rightarrow> off < - 256 \<or> 255 < off
      | Some a' \<Rightarrow> - 256 \<le> off \<and> off \<le> 255 \<and>
          (\<exists>imm. emits a (LdStUnscaled sz False opc imm (regno rn) (regno rt)) a' \<and>
             sint (signed_take_bit 8 imm) = off)))"

definition pair_mode :: "a64_pair_mode \<Rightarrow> u32" where
  "pair_mode m = (case m of A64_PAIR_OFFSET \<Rightarrow> 2 | A64_PAIR_POST \<Rightarrow> 1 | A64_PAIR_PRE \<Rightarrow> 3)"

definition pair_access ::
  "(a64_asm \<Rightarrow> int \<Rightarrow> int \<Rightarrow> int \<Rightarrow> int \<Rightarrow> a64_pair_mode \<Rightarrow> a64_asm) \<Rightarrow> int \<Rightarrow> u32 \<Rightarrow> bool \<Rightarrow> bool" where
  "pair_access f scale opc ld \<longleftrightarrow> (\<forall>a rt rt2 rn off m. \<exists>imm.
     emits a (LdStPair opc False (pair_mode m) ld imm (regno rt2) (regno rn) (regno rt)) (f a rt rt2 rn off m) \<and>
     imm = take_bit 7 (word_of_int (off sdiv scale)) \<and>
     (off mod scale = 0 \<and> - 64 \<le> off div scale \<and> off div scale \<le> 63 \<longrightarrow>
        sint (signed_take_bit 6 imm) * scale = off))"

lemma off_and: "off AND (8 - 1) = off mod 8" "off AND (4 - 1) = off mod 4" "off AND (2 - 1) = off mod 2"
  "(off :: int) AND (1 - 1) = 0"
  using and_scale[of off] by simp_all

lemma scaled_imm:
  assumes "0 \<le> off" "off mod scale = 0"
  shows "uint (take_bit 12 (word_of_int (off div scale)) :: u32) * scale =
    (if off < 4096 * scale then off else off mod (4096 * scale))"
proof -
  have "uint (take_bit 12 (word_of_int (off div scale)) :: u32) = off div scale mod 4096"
    by (simp only: unsigned_take_bit_eq uint_word_of_int_eq take_bit_take_bit) (simp add: take_bit_eq_mod)
  moreover have "off mod (4096 * scale) = scale * (off div scale mod 4096)"
    using zmod_zmult2_eq[of 4096 off scale] assms(2) by (simp add: mult.commute)
  ultimately show ?thesis
    using mod_pos_pos_trivial[OF assms(1), of "4096 * scale"] by (auto simp: mult.commute)
qed

lemma signed_field:
  assumes "- (2 ^ n) \<le> k" "k < 2 ^ n" "n < 31"
  shows "sint (signed_take_bit n (take_bit (Suc n) (word_of_int k)) :: u32) = k"
proof -
  have "signed_take_bit n (take_bit (Suc n) (word_of_int k)) = (word_of_int (signed_take_bit n k) :: u32)"
    using assms(3) by (intro bit_word_eqI) (auto simp: bit_simps min_def)
  also have "signed_take_bit n k = k" using assms by (simp add: signed_take_bit_int_eq_self)
  finally have *: "signed_take_bit n (take_bit (Suc n) (word_of_int k)) = (word_of_int k :: u32)" .
  have "(2 :: int) ^ n \<le> 2 ^ 31" using assms(3) by (intro power_increasing) auto
  then have "signed_take_bit 31 k = k"
    using assms(1,2) by (intro signed_take_bit_int_eq_self) simp_all
  then show ?thesis unfolding * by (simp add: sint_sbintrunc' signed_of_int)
qed

lemma scaled_accessI:
  assumes "\<And>a rt rn off. f a rt rn off = ls_imm a base rt rn off scale"
    and "\<And>off. off AND (scale - 1) = off mod scale"
    and "\<And>imm rn rt. decode (base OR put 10 12 imm OR put 5 5 rn OR put 0 5 rt) =
      Some (LdStImm sz v opc (take_bit 12 imm) (take_bit 5 rn) (take_bit 5 rt))"
  shows "scaled_access f scale sz v opc"
proof -
  have "emits a (LdStImm sz v opc (take_bit 12 (word_of_int (off div scale))) (regno rn) (regno rt)) a'"
    if "ls_imm a base rt rn off scale = Some a'" for a rt rn off a'
    using that by (auto simp: ls_imm_def Let_def regno_def field_simps assms(3) intro!: emitsI
        simp del: push_bit_and split: if_splits)
  moreover have "f a rt rn off = None \<longleftrightarrow> off < 0 \<or> off mod scale \<noteq> 0" for a rt rn off
    by (simp add: assms(1) ls_imm_def assms(2))
  ultimately show ?thesis
    unfolding scaled_access_def using scaled_imm assms(1)
    by (auto split: option.split) (metis not_less option.distinct(1))+
qed

lemma unscaled_accessI:
  assumes "\<And>a rt rn off. f a rt rn off = ls_unscaled a base rt rn off"
    and "\<And>imm rn rt. decode (base OR put 12 9 imm OR put 5 5 rn OR put 0 5 rt) =
      Some (LdStUnscaled sz False opc (take_bit 9 imm) (take_bit 5 rn) (take_bit 5 rt))"
  shows "unscaled_access f sz opc"
proof -
  have p: "push_bit 12 (word_of_int (take_bit 9 off)) = put 12 9 (word_of_int off)" for off
    using put_word_of_int[of 9 0 off] by (simp add: put_def)
  have "emits a (LdStUnscaled sz False opc (take_bit 9 (word_of_int off)) (regno rn) (regno rt)) a'"
    if "ls_unscaled a base rt rn off = Some a'" for a rt rn off a'
    using that by (auto simp: ls_unscaled_def Let_def regno_def field_simps p assms(2) intro!: emitsI
        simp del: push_bit_and split: if_splits)
  moreover have "sint (signed_take_bit 8 (take_bit 9 (word_of_int off)) :: u32) = off"
    if "- 256 \<le> off" "off \<le> 255" for off
    using signed_field[of 8 off] that by simp
  moreover have "f a rt rn off = None \<longleftrightarrow> off < - 256 \<or> 255 < off" for a rt rn off
    by (simp add: assms(1) ls_unscaled_def Let_def)
  ultimately show ?thesis
    unfolding unscaled_access_def using assms(1)
    by (auto split: option.split) (metis not_less option.distinct(1))+
qed

lemma scaled_accesses [encodes]:
  "scaled_access a64_str64 8 3 False 0"
  "scaled_access a64_ldr64 8 3 False 1"
  "scaled_access a64_str32 4 2 False 0"
  "scaled_access a64_ldr32 4 2 False 1"
  "scaled_access a64_str16 2 1 False 0"
  "scaled_access a64_ldr16 2 1 False 1"
  "scaled_access a64_str8 1 0 False 0"
  "scaled_access a64_ldr8 1 0 False 1"
  "scaled_access a64_ldrsw 4 2 False 2"
  "scaled_access a64_ldrsb64 1 0 False 2"
  "scaled_access a64_ldrsh64 2 1 False 2"
  "scaled_access a64_str_d 8 3 True 0"
  "scaled_access a64_ldr_d 8 3 True 1"
  "scaled_access a64_str_s 4 2 True 0"
  "scaled_access a64_ldr_s 4 2 True 1"
  by (rule scaled_accessI, simp only: a64_str64_def a64_ldr64_def a64_str32_def a64_ldr32_def a64_str16_def a64_ldr16_def a64_str8_def a64_ldr8_def a64_ldrsw_def a64_ldrsb64_def a64_ldrsh64_def a64_str_d_def a64_ldr_d_def a64_str_s_def a64_ldr_s_def, (rule off_and | simp), simp add: enc_simps)+

lemma unscaled_accesses [encodes]:
  "unscaled_access a64_stur64 3 0"
  "unscaled_access a64_ldur64 3 1"
  "unscaled_access a64_stur32 2 0"
  "unscaled_access a64_ldur32 2 1"
  "unscaled_access a64_stur16 1 0"
  "unscaled_access a64_ldur16 1 1"
  "unscaled_access a64_stur8 0 0"
  "unscaled_access a64_ldur8 0 1"
  "unscaled_access a64_ldursb64 0 2"
  "unscaled_access a64_ldursh64 1 2"
  "unscaled_access a64_ldursw 2 2"
  by (rule unscaled_accessI, simp only: a64_stur64_def a64_ldur64_def a64_stur32_def a64_ldur32_def a64_stur16_def a64_ldur16_def a64_stur8_def a64_ldur8_def a64_ldursb64_def a64_ldursh64_def a64_ldursw_def, simp add: enc_simps)+

text \<open>The register-offset forms take the offset register as it is (\<open>option\<close> 3, \<open>S\<close> 0: no shift).\<close>

lemma emits_ls_reg:
  "emits a (LdStReg 3 False 1 (regno rm) 3 False (regno rn) (regno rt)) (a64_ldr64_reg a rt rn rm)"
  "emits a (LdStReg 3 False 0 (regno rm) 3 False (regno rn) (regno rt)) (a64_str64_reg a rt rn rm)"
  "emits a (LdStReg 1 False 1 (regno rm) 3 False (regno rn) (regno rt)) (a64_ldr16_reg a rt rn rm)"
  "emits a (LdStReg 0 False 2 (regno rm) 3 False (regno rn) (regno rt)) (a64_ldrsb64_reg a rt rn rm)"
  by (simp only: a64_ldr64_reg_def a64_str64_reg_def a64_ldr16_reg_def a64_ldrsb64_reg_def ls_reg_def op_simps;
      rule emitsI; simp add: enc_simps)+

lemma emits_pair:
  "emits a (LdStPair 2 False (pair_mode m) False (take_bit 7 (word_of_int (off sdiv 8))) (regno rt2) (regno rn) (regno rt))
     (a64_stp64 a rt rt2 rn off m)"
  "emits a (LdStPair 2 False (pair_mode m) True (take_bit 7 (word_of_int (off sdiv 8))) (regno rt2) (regno rn) (regno rt))
     (a64_ldp64 a rt rt2 rn off m)"
  "emits a (LdStPair 0 False (pair_mode m) False (take_bit 7 (word_of_int (off sdiv 4))) (regno rt2) (regno rn) (regno rt))
     (a64_stp32 a rt rt2 rn off m)"
  "emits a (LdStPair 0 False (pair_mode m) True (take_bit 7 (word_of_int (off sdiv 4))) (regno rt2) (regno rn) (regno rt))
     (a64_ldp32 a rt rt2 rn off m)"
  by (cases m; simp only: a64_stp64_def a64_ldp64_def a64_stp32_def a64_ldp32_def pair_op_def op_simps
        a64_pair_mode.simps; rule emitsI; simp add: enc_simps pair_mode_def)+

lemma pair_accessI:
  assumes "\<And>a rt rt2 rn off m. emits a (LdStPair opc False (pair_mode m) ld
      (take_bit 7 (word_of_int (off sdiv scale))) (regno rt2) (regno rn) (regno rt)) (f a rt rt2 rn off m)"
    and "0 < scale"
  shows "pair_access f scale opc ld"
proof -
  have "off sdiv scale = off div scale" if "off mod scale = 0" for off
  proof -
    from that obtain k where "off = scale * k" by (metis dvdE dvd_eq_mod_eq_0)
    with assms(2) show ?thesis by (simp add: signed_divide_int_def sgn_mult abs_mult mult_sgn_abs)
  qed
  moreover have "sint (signed_take_bit 6 (take_bit 7 (word_of_int k)) :: u32) = k"
    if "- 64 \<le> k" "k \<le> 63" for k
    using signed_field[of 6 k] that by simp
  ultimately show ?thesis
    using assms(1) unfolding pair_access_def by (metis mult.commute mult_div_mod_eq add.right_neutral)
qed

lemma pair_accesses [encodes]:
  "pair_access a64_stp64 8 2 False"
  "pair_access a64_ldp64 8 2 True"
  "pair_access a64_stp32 4 0 False"
  "pair_access a64_ldp32 4 0 True"
  by (rule pair_accessI, rule emits_pair, simp)+

section \<open>System and floating-point instructions\<close>

lemma emits_sys [encodes]:
  "emits a (BranchReg 2 (regno rn)) (a64_ret a rn)"
  "emits a (BranchReg 0 (regno rn)) (a64_br_reg a rn)"
  "emits a (BranchReg 1 (regno rn)) (a64_blr a rn)"
  "emits a (SupCall (take_bit 16 imm)) (a64_svc a imm)"
  "emits a PacIaSp (a64_paciasp a)"
  "emits a (Dp1 0 0 (regno rt)) (a64_pacia a rt)"
  "emits a (Dp1 0 (regno rn) (regno rt)) (a64_autda a rt rn)"
  "emits a (RetAuth True) (a64_retab a)"
  by (simp only: a64_ret_def a64_br_reg_def a64_blr_def a64_svc_def a64_paciasp_def a64_pacia_def a64_autda_def
        a64_retab_def op_simps; rule emitsI; simp add: enc_simps)+

lemma emits_cset [encodes]:
  assumes "0 \<le> cond" "cond < 16"
  shows "emits a (CondSel is64 False False 31 (word_of_int cond XOR 1) 1 31 (regno rd)) (a64_cset a rd cond is64)"
proof -
  have "take_bit 4 (word_of_int cond :: u32) = word_of_int (take_bit 4 cond)"
    by (rule bit_word_eqI) (auto simp: bit_simps)
  also have "take_bit 4 cond = cond" using assms by (simp add: take_bit_int_eq_self)
  finally have t: "take_bit 4 (word_of_int cond XOR 1 :: u32) = word_of_int cond XOR 1" by simp
  then have lt: "push_bit 12 (word_of_int cond XOR 1 :: u32) = put 12 4 (word_of_int cond XOR 1)"
    by (simp only: put_def)
  show ?thesis
    by (cases is64; simp only: a64_cset_def lt op_simps; rule emitsI; simp add: enc_simps t del: take_bit_xor)
qed

lemma emits_fp [encodes]:
  "emits a (FpDp1 (of_bool dbl) 0 (regno rm) (regno rd)) (a64_fmov_reg a rd rm dbl)"
  "emits a (FpInt is64 (of_bool is64) 0 (if to_vec then 7 else 6) (regno rn) (regno rd)) (a64_fmov_gp a rd rn to_vec is64)"
  "emits a (FpDp2 (of_bool dbl) (regno rm) 2 (regno rn) (regno rd)) (a64_fadd a rd rn rm dbl)"
  "emits a (FpDp2 (of_bool dbl) (regno rm) 3 (regno rn) (regno rd)) (a64_fsub a rd rn rm dbl)"
  "emits a (FpDp2 (of_bool dbl) (regno rm) 0 (regno rn) (regno rd)) (a64_fmul a rd rn rm dbl)"
  "emits a (FpDp2 (of_bool dbl) (regno rm) 1 (regno rn) (regno rd)) (a64_fdiv a rd rn rm dbl)"
  "emits a (FpCmp (of_bool dbl) (regno rm) (regno rn)) (a64_fcmp a rn rm dbl)"
  "emits a (FpInt is64 (of_bool is64) 0 2 (regno rn) (regno rd)) (a64_scvtf a rd rn is64)"
  "emits a (FpInt is64 (of_bool is64) 3 0 (regno rn) (regno rd)) (a64_fcvtzs a rd rn is64)"
  by (cases dbl; cases is64; cases to_vec;
      simp only: a64_fmov_reg_def a64_fmov_gp_def a64_fadd_def a64_fsub_def a64_fmul_def a64_fdiv_def
        a64_fcmp_def a64_scvtf_def a64_fcvtzs_def fp_op_def op_simps; rule emitsI; simp add: enc_simps)+

section \<open>Properties\<close>

text \<open>
  C29. The move-wide, add/subtract and compare (immediate and register), move, \<open>mvn\<close>, logical-register,
  multiply, divide, variable-shift, branch-register, \<open>svc\<close>, \<open>paciasp\<close>, \<open>pacia\<close>, \<open>retab\<close> and floating-point
  functions of the encoder append one word, and that word decodes to the class and opcode of the instruction
  the function is named after, with each operand, cut to the width of its field, in its own field.
  \<open>a64_autda\<close> does not: its word has opcode 0 of the pointer-authentication class, which is \<open>pacia rt, rn\<close>;
  \<open>autda\<close> is opcode 6.  The functions whose fields are computed from their arguments are not part of this
  statement: shifts by a constant and extensions are in C32, \<open>a64_cset\<close> in C34, logical immediates in C35.
\<close>

theorem encode_data_processing:
  "emits a (MovWide is64 2 (take_bit 2 hw) (take_bit 16 imm) (regno rd)) (a64_movz a rd imm hw is64) \<and>
    emits a (MovWide is64 3 (take_bit 2 hw) (take_bit 16 imm) (regno rd)) (a64_movk a rd imm hw is64) \<and>
    emits a (MovWide is64 0 (take_bit 2 hw) (take_bit 16 imm) (regno rd)) (a64_movn a rd imm hw is64) \<and>
    emits a (AddSubImm is64 False setf sh (take_bit 12 imm) (regno rn) (regno rd)) (a64_add_imm12 a rd rn imm sh is64 setf) \<and>
    emits a (AddSubImm is64 True setf sh (take_bit 12 imm) (regno rn) (regno rd)) (a64_sub_imm12 a rd rn imm sh is64 setf) \<and>
    emits a (AddSubImm is64 True True sh (take_bit 12 imm) (regno rn) 31) (a64_cmp_imm12 a rn imm sh is64) \<and>
    emits a (AddSubReg is64 False setf (take_bit 2 (word_of_int shift)) (regno rm) (take_bit 6 amt) (regno rn) (regno rd)) (a64_add_reg a rd rn rm shift amt is64 setf) \<and>
    emits a (AddSubReg is64 True setf (take_bit 2 (word_of_int shift)) (regno rm) (take_bit 6 amt) (regno rn) (regno rd)) (a64_sub_reg a rd rn rm shift amt is64 setf) \<and>
    emits a (AddSubReg is64 True False 0 (regno rm) 0 31 (regno rd)) (a64_neg a rd rm is64) \<and>
    emits a (AddSubReg is64 True True 0 (regno rm) 0 (regno rn) 31) (a64_cmp_reg a rn rm is64) \<and>
    emits a (LogReg is64 1 0 False (regno rm) 0 31 (regno rd)) (a64_mov_reg a rd rm is64) \<and>
    emits a (LogReg is64 1 0 True (regno rm) 0 31 (regno rd)) (a64_mvn a rd rm is64) \<and>
    emits a (LogReg is64 0 0 False (regno rm) 0 (regno rn) (regno rd)) (a64_and_reg a rd rn rm is64) \<and>
    emits a (LogReg is64 1 0 False (regno rm) 0 (regno rn) (regno rd)) (a64_or_reg a rd rn rm is64) \<and>
    emits a (LogReg is64 2 0 False (regno rm) 0 (regno rn) (regno rd)) (a64_eor_reg a rd rn rm is64) \<and>
    emits a (Dp3 is64 0 (regno rm) False 31 (regno rn) (regno rd)) (a64_mul a rd rn rm is64) \<and>
    emits a (Dp3 True 6 (regno rm) False 31 (regno rn) (regno rd)) (a64_umulh a rd rn rm) \<and>
    emits a (Dp3 is64 0 (regno rm) True (regno ra) (regno rn) (regno rd)) (a64_msub a rd rn rm ra is64) \<and>
    emits a (Dp2 is64 (regno rm) 2 (regno rn) (regno rd)) (a64_udiv a rd rn rm is64) \<and>
    emits a (Dp2 is64 (regno rm) 3 (regno rn) (regno rd)) (a64_sdiv a rd rn rm is64) \<and>
    emits a (Dp2 is64 (regno rm) 8 (regno rn) (regno rd)) (a64_lslv a rd rn rm is64) \<and>
    emits a (Dp2 is64 (regno rm) 9 (regno rn) (regno rd)) (a64_lsrv a rd rn rm is64) \<and>
    emits a (Dp2 is64 (regno rm) 10 (regno rn) (regno rd)) (a64_asrv a rd rn rm is64) \<and>
    emits a (Dp2 is64 (regno rm) 11 (regno rn) (regno rd)) (a64_rorv a rd rn rm is64) \<and>
    emits a (BranchReg 2 (regno rn)) (a64_ret a rn) \<and>
    emits a (BranchReg 0 (regno rn)) (a64_br_reg a rn) \<and>
    emits a (BranchReg 1 (regno rn)) (a64_blr a rn) \<and>
    emits a (SupCall (take_bit 16 imm)) (a64_svc a imm) \<and>
    emits a PacIaSp (a64_paciasp a) \<and>
    emits a (Dp1 0 0 (regno rt)) (a64_pacia a rt) \<and>
    emits a (Dp1 0 (regno rn) (regno rt)) (a64_autda a rt rn) \<and>
    emits a (RetAuth True) (a64_retab a) \<and>
    emits a (FpDp1 (of_bool dbl) 0 (regno rm) (regno rd)) (a64_fmov_reg a rd rm dbl) \<and>
    emits a (FpInt is64 (of_bool is64) 0 (if to_vec then 7 else 6) (regno rn) (regno rd)) (a64_fmov_gp a rd rn to_vec is64) \<and>
    emits a (FpDp2 (of_bool dbl) (regno rm) 2 (regno rn) (regno rd)) (a64_fadd a rd rn rm dbl) \<and>
    emits a (FpDp2 (of_bool dbl) (regno rm) 3 (regno rn) (regno rd)) (a64_fsub a rd rn rm dbl) \<and>
    emits a (FpDp2 (of_bool dbl) (regno rm) 0 (regno rn) (regno rd)) (a64_fmul a rd rn rm dbl) \<and>
    emits a (FpDp2 (of_bool dbl) (regno rm) 1 (regno rn) (regno rd)) (a64_fdiv a rd rn rm dbl) \<and>
    emits a (FpCmp (of_bool dbl) (regno rm) (regno rn)) (a64_fcmp a rn rm dbl) \<and>
    emits a (FpInt is64 (of_bool is64) 0 2 (regno rn) (regno rd)) (a64_scvtf a rd rn is64) \<and>
    emits a (FpInt is64 (of_bool is64) 3 0 (regno rn) (regno rd)) (a64_fcvtzs a rd rn is64)"
  by (intro conjI) (rule encodes)+

text \<open>
  C30. Every load, store and pair with an immediate offset appends one word that decodes to the access of
  its size, sign and register file.  A scaled access ends the process exactly on a negative or misaligned
  offset; otherwise the access is at the offset if that is below 4096 units, and an offset of 4096 units or
  more is silently taken modulo 4096 units.  An unscaled access ends the process exactly outside -256..255
  and otherwise is at the offset.  A pair is never refused; it is at the offset if that is a multiple of the
  register size between -64 and 63 units, and otherwise its field is the low seven bits of the quotient.
  (The register-offset forms are in \<open>emits_ls_reg\<close>.)
\<close>

theorem encode_memory_access:
  "scaled_access a64_str64 8 3 False 0 \<and>
    scaled_access a64_ldr64 8 3 False 1 \<and>
    scaled_access a64_str32 4 2 False 0 \<and>
    scaled_access a64_ldr32 4 2 False 1 \<and>
    scaled_access a64_str16 2 1 False 0 \<and>
    scaled_access a64_ldr16 2 1 False 1 \<and>
    scaled_access a64_str8 1 0 False 0 \<and>
    scaled_access a64_ldr8 1 0 False 1 \<and>
    scaled_access a64_ldrsw 4 2 False 2 \<and>
    scaled_access a64_ldrsb64 1 0 False 2 \<and>
    scaled_access a64_ldrsh64 2 1 False 2 \<and>
    scaled_access a64_str_d 8 3 True 0 \<and>
    scaled_access a64_ldr_d 8 3 True 1 \<and>
    scaled_access a64_str_s 4 2 True 0 \<and>
    scaled_access a64_ldr_s 4 2 True 1 \<and>
    unscaled_access a64_stur64 3 0 \<and>
    unscaled_access a64_ldur64 3 1 \<and>
    unscaled_access a64_stur32 2 0 \<and>
    unscaled_access a64_ldur32 2 1 \<and>
    unscaled_access a64_stur16 1 0 \<and>
    unscaled_access a64_ldur16 1 1 \<and>
    unscaled_access a64_stur8 0 0 \<and>
    unscaled_access a64_ldur8 0 1 \<and>
    unscaled_access a64_ldursb64 0 2 \<and>
    unscaled_access a64_ldursh64 1 2 \<and>
    unscaled_access a64_ldursw 2 2 \<and>
    pair_access a64_stp64 8 2 False \<and>
    pair_access a64_ldp64 8 2 True \<and>
    pair_access a64_stp32 4 0 False \<and>
    pair_access a64_ldp32 4 0 True"
  by (intro conjI) (rule encodes)+

end
