(* ===== verification/A64Exec.thy ===== *)
theory A64Exec
  imports A64Sound
begin

text \<open>
  What the code emitted by the encoder does: constants, shifts and extensions, arithmetic, comparisons
  and logical immediates, executed by the reference semantics of \<open>A64Isa\<close>.
\<close>

section \<open>Running emitted words\<close>

definition emits_run :: "a64_asm \<Rightarrow> u32 list \<Rightarrow> a64_asm \<Rightarrow> bool" where
  "emits_run a ws a' \<longleftrightarrow> a' = fold (\<lambda>w a. a64_word a w) ws a"

text \<open>\<open>a'\<close> is \<open>a\<close> with words appended that take the state \<open>s\<close> to \<open>s'\<close>.\<close>

definition computes :: "a64_asm \<Rightarrow> a64_asm \<Rightarrow> a64_state \<Rightarrow> a64_state \<Rightarrow> bool" where
  "computes a a' s s' \<longleftrightarrow> (\<exists>ws. emits_run a ws a' \<and> run_words ws s = Some s')"

lemma run_words_append: "run_words (us @ vs) s = Option.bind (run_words us s) (run_words vs)"
  by (induction us arbitrary: s) (auto split: Option.bind_splits)

lemma computes_trans: "computes a b s t \<Longrightarrow> computes b c t u \<Longrightarrow> computes a c s u"
  unfolding computes_def emits_run_def by (metis fold_append comp_apply run_words_append bind.bind_lunit)

lemma computes_emits: "emits a i a' \<Longrightarrow> exec i s = Some s' \<Longrightarrow> computes a a' s s'"
  unfolding computes_def emits_run_def emits_def
proof (elim exE conjE)
  fix w assume "a' = a64_word a w" "decode w = Some i" "exec i s = Some s'"
  then show "\<exists>ws. a' = fold (\<lambda>w a. a64_word a w) ws a \<and> run_words ws s = Some s'"
    by (intro exI[of _ "[w]"]) simp
qed

lemma computes_refl: "computes a a s s"
  unfolding computes_def emits_run_def by (auto intro: exI[of _ "[]"])

lemma wreg_wreg [simp]: "wreg sf (wreg sf' s r x) r y = wreg sf s r y"
  by (simp add: wreg_def)

lemma rreg_wreg: "rreg True (wreg True s r x) r = (if r = 31 then 0 else x)"
  by (simp add: rreg_def wreg_def)

section \<open>Constants\<close>

lemma unat_halfword: "halfword v i = ucast (take_bit 16 (drop_bit (16 * i) v))"
  by (simp add: halfword_def take_bit_eq_mask mask_numeral)

lemma take_halfword: "take_bit 16 (halfword v i) = halfword v i"
  by (rule bit_word_eqI) (auto simp: unat_halfword bit_simps)

lemma ucast_halfword: "ucast (halfword v i) = take_bit 16 (drop_bit (16 * i) v)"
  by (rule bit_word_eqI) (auto simp: unat_halfword bit_simps)

lemma take_bit_halfword:
  "(take_bit (16 * i) v AND NOT (push_bit (16 * i) 0xFFFF)) OR push_bit (16 * i) (take_bit 16 (drop_bit (16 * i) v))
   = take_bit (16 + 16 * i) (v :: u64)"
proof (rule bit_word_eqI)
  fix k assume "k < LENGTH(64)"
  then have k: "k < 64" by simp
  have m: "bit (0xFFFF :: u64) j \<longleftrightarrow> j < 16" for j
    using bit_mask_iff[of 16 j, where 'a = u64] by (auto simp: mask_numeral)
  show "bit ((take_bit (16 * i) v AND NOT (push_bit (16 * i) 0xFFFF))
      OR push_bit (16 * i) (take_bit 16 (drop_bit (16 * i) v))) k \<longleftrightarrow> bit (take_bit (16 + 16 * i) v) k"
    using k by (auto simp: bit_take_bit_iff bit_or_iff bit_and_iff bit_not_iff bit_push_bit_iff bit_drop_bit_eq m)
qed

lemma take_bit_keep: "take_bit k v AND NOT (push_bit k x) = take_bit k (v :: u64)"
  by (rule bit_word_eqI) (auto simp: bit_simps)

lemma halfword_0_iff: "halfword v i = 0 \<longleftrightarrow> take_bit 16 (drop_bit (16 * i) v) = 0"
  by (metis unat_halfword ucast_halfword unsigned_0)

lemma take_bit_skip:
  "take_bit 16 (drop_bit (16 * i) v) = 0 \<Longrightarrow> take_bit (16 + 16 * i) (v :: u64) = take_bit (16 * i) v"
  using take_bit_halfword[of i v] by (simp add: take_bit_keep)

lemma hw_small: "i < 4 \<Longrightarrow> unat (take_bit 2 (of_nat i :: u32)) = i"
  by (simp add: unsigned_take_bit_eq unsigned_of_nat take_bit_nat_eq_self)

lemma movk_step_computes:
  assumes "i < 4"
  shows "computes a (movk_step rd v i a) (wreg True s (regno rd) (take_bit (16 * i) v))
    (wreg True s (regno rd) (take_bit (16 + 16 * i) v))"
proof (cases "halfword v i = 0")
  case True
  then show ?thesis by (simp add: movk_step_def take_bit_skip halfword_0_iff computes_refl)
next
  case False
  have "exec (MovWide True 3 (take_bit 2 (of_nat i)) (take_bit 16 (halfword v i)) (regno rd))
      (wreg True s (regno rd) (take_bit (16 * i) v)) = Some (wreg True s (regno rd) (take_bit (16 + 16 * i) v))"
    using take_bit_halfword[of i v]
    by (cases "regno rd = 31")
      (simp_all add: exec_mov_wide_def Let_def hw_small[OF assms] take_halfword ucast_halfword rreg_def wreg_def)
  with False show ?thesis
    by (simp add: movk_step_def Let_def) (rule computes_emits[OF emits_mov_wide(2)], simp)
qed

lemma movk_steps_computes:
  assumes "j \<le> 4" "i \<le> j"
  shows "computes a (fold (movk_step rd v) [i..<j] a) (wreg True s (regno rd) (take_bit (16 * i) v))
    (wreg True s (regno rd) (take_bit (16 * j) v))"
  using assms(2,1)
proof (induction j rule: dec_induct)
  case (step j)
  then show ?case
    using computes_trans[OF step.IH movk_step_computes[of j]] by simp
qed (simp add: computes_refl)

lemma drop_and_mask: "drop_bit k v AND 0xFFFF = take_bit 16 (drop_bit k (v :: u64))"
  by (simp add: take_bit_eq_mask mask_numeral)

lemma take_bit_zero_prefix:
  "(\<And>i. i < n \<Longrightarrow> take_bit 16 (drop_bit (16 * i) v) = 0) \<Longrightarrow> take_bit (16 * n) (v :: u64) = 0"
  by (induction n) (use take_bit_skip in auto)

lemma mov_imm64_computes:
  "computes a (a64_mov_imm64 a rd v) s (wreg True s (regno rd) v)"
proof (cases "find_index (\<lambda>i. drop_bit (16 * i) v AND 0xFFFF \<noteq> 0) [0..<4]")
  case None
  then have "\<forall>i<4. take_bit 16 (drop_bit (16 * i) v) = 0"
    by (auto simp: find_index_None_iff drop_and_mask)
  then have "v = 0" using take_bit_zero_prefix[of 4 v] by (simp add: take_bit_word_beyond_length_eq)
  have "computes a (a64_movz a rd 0 0 True) s (wreg True s (regno rd) 0)"
    by (rule computes_emits[OF emits_mov_wide(1)]) (simp add: exec_mov_wide_def)
  then show ?thesis using None \<open>v = 0\<close> by (simp add: a64_mov_imm64_def)
next
  case (Some i)
  from find_index_SomeD[OF Some] have i: "i < 4"
    and lo: "\<And>j. j < i \<Longrightarrow> take_bit 16 (drop_bit (16 * j) v) = 0" by (auto simp: drop_and_mask)
  have "push_bit (16 * i) (take_bit 16 (drop_bit (16 * i) v)) = take_bit (16 + 16 * i) v"
    using take_bit_halfword[of i v] take_bit_zero_prefix[OF lo] by simp
  then have "computes a (a64_movz a rd (halfword v i) (of_nat i) True) s
      (wreg True s (regno rd) (take_bit (16 + 16 * i) v))"
    by (intro computes_emits[OF emits_mov_wide(1)])
      (simp add: exec_mov_wide_def Let_def hw_small[OF i] take_halfword ucast_halfword)
  moreover have "computes a' (fold (movk_step rd v) [i + 1..<4] a') (wreg True s (regno rd) (take_bit (16 + 16 * i) v))
      (wreg True s (regno rd) v)" for a'
    using movk_steps_computes[of 4 "i + 1" a' rd v s] i by (simp add: take_bit_word_beyond_length_eq)
  ultimately show ?thesis using Some computes_trans by (auto simp: a64_mov_imm64_def)
qed


section \<open>Shifts, extensions and arithmetic\<close>

lemma rreg_W: "take_bit 32 (rreg False s r) = rreg False s r"
  by (simp add: rreg_def)

lemma wreg_W: "wreg False s r (take_bit 32 x) = wreg False s r x"
  by (simp add: wreg_def)

lemma wreg_cong: "take_bit 32 x = take_bit 32 y \<Longrightarrow> wreg False s r x = wreg False s r y"
  by (simp add: wreg_def)

lemma computes_bitfield:
  assumes "immr < 64" "imms < 64"
    and "exec_bitfield is64 (if sg then 0 else 2) is64 immr imms (regno rn) (regno rd) s = Some s'"
  shows "computes a (bitfield a sg rd rn immr imms is64) s s'"
  using assms by (intro computes_emits[OF emits_bitfield]) auto

text \<open>The arithmetic shift of an operand of either size.\<close>

definition asr_value :: "bool \<Rightarrow> nat \<Rightarrow> u64 \<Rightarrow> u64" where
  "asr_value is64 n x = (if is64 then signed_drop_bit n x else ucast (signed_drop_bit n (ucast x :: u32)))"

abbreviation reg_width :: "bool \<Rightarrow> u32" where "reg_width is64 \<equiv> (if is64 then 64 else 32)"

lemma unat_width:
  assumes "amt < reg_width is64"
  shows "unat amt < (if is64 then 64 else 32)" "amt < 64"
    "unat ((reg_width is64 - amt) AND (reg_width is64 - 1)) = ((if is64 then 64 else 32) - unat amt) mod (if is64 then 64 else 32)"
    "unat (reg_width is64 - 1 - amt) = (if is64 then 64 else 32) - 1 - unat amt"
    "unat (reg_width is64 - 1) = (if is64 then 64 else 32) - 1"
proof -
  have and63: "(x :: u32) AND 63 = take_bit 6 x" "x AND 31 = take_bit 5 x" for x
    by (simp_all add: take_bit_eq_mask mask_numeral)
  show "unat amt < (if is64 then 64 else 32)" "amt < 64"
    using assms by (auto simp: word_less_nat_alt split: if_splits)
  show "unat ((reg_width is64 - amt) AND (reg_width is64 - 1)) = ((if is64 then 64 else 32) - unat amt) mod (if is64 then 64 else 32)"
  proof (cases is64)
    case True
    with assms have "unat (64 - amt) = 64 - unat amt" by (simp add: unat_sub word_le_nat_alt word_less_nat_alt)
    then have "unat (take_bit 6 (64 - amt)) = (64 - unat amt) mod 64"
      by (simp only: unsigned_take_bit_eq) (simp add: take_bit_eq_mod)
    with True show ?thesis by (simp add: and63)
  next
    case False
    with assms have "unat (32 - amt) = 32 - unat amt" by (simp add: unat_sub word_le_nat_alt word_less_nat_alt)
    then have "unat (take_bit 5 (32 - amt)) = (32 - unat amt) mod 32"
      by (simp only: unsigned_take_bit_eq) (simp add: take_bit_eq_mod)
    with False show ?thesis by (simp add: and63)
  qed
  show "unat (reg_width is64 - 1 - amt) = (if is64 then 64 else 32) - 1 - unat amt"
    using assms by (cases is64) (simp_all add: unat_sub word_le_nat_alt word_less_nat_alt)
  show "unat (reg_width is64 - 1) = (if is64 then 64 else 32) - 1" by simp
qed

lemma width_lt: "unat x < (if is64 then 64 else 32) \<Longrightarrow> x < (64 :: u32)"
  by (auto simp: word_less_nat_alt split: if_splits)

lemma computes_bitfieldI:
  assumes "unat immr = r" "unat imms = k" "r < (if is64 then 64 else 32)" "k < (if is64 then 64 else 32)"
    and "y = (if r \<le> k then (if sg then signed_take_bit (k - r) else take_bit (k - r + 1)) (drop_bit r (rreg is64 s (regno rn)))
              else push_bit ((if is64 then 64 else 32) - r)
                     ((if sg then signed_take_bit k else take_bit (k + 1)) (rreg is64 s (regno rn))))"
    and "wreg is64 s (regno rd) y = s'"
  shows "computes a (bitfield a sg rd rn immr imms is64) s s'"
  using assms width_lt[of immr is64] width_lt[of imms is64]
  by (intro computes_bitfield) (auto simp: exec_bitfield_def Let_def simp del: fun_upd_apply)

lemma bit_rreg: "bit (rreg sf s r) j \<Longrightarrow> j < (if sf then 64 else 32)"
  using bit_imp_le_length[of "rreg sf s r" j] by (auto simp: rreg_def bit_simps Let_def split: if_splits)

lemma lsl_computes:
  assumes "amt < reg_width is64"
  shows "computes a (a64_lsl_imm a rd rn amt is64) s (wreg is64 s (regno rd) (push_bit (unat amt) (rreg is64 s (regno rn))))"
proof -
  note u = unat_width[OF assms]
  let ?w = "if is64 then 64 else 32 :: nat"
  let ?x = "rreg is64 s (regno rn)"
  let ?r = "(?w - unat amt) mod ?w" and ?k = "?w - 1 - unat amt"
  define y where "y = (if ?r \<le> ?k then take_bit (?k - ?r + 1) (drop_bit ?r ?x) else push_bit (?w - ?r) (take_bit (?k + 1) ?x))"
  have y: "y = push_bit (unat amt) (take_bit (?w - unat amt) ?x)"
  proof (cases "unat amt = 0")
    case True
    then show ?thesis by (cases is64) (simp_all add: y_def)
  next
    case False
    with u(1) have "?r = ?w - unat amt" "\<not> ?r \<le> ?k" "?w - ?r = unat amt" "?k + 1 = ?w - unat amt"
      by (auto split: if_splits)
    then show ?thesis by (simp add: y_def)
  qed
  have "wreg is64 s (regno rd) y = wreg is64 s (regno rd) (push_bit (unat amt) ?x)"
  proof (cases is64)
    case True
    then have "y = push_bit (unat amt) ?x" unfolding y
      by (auto intro!: bit_word_eqI simp: bit_simps)
    then show ?thesis by simp
  next
    case False
    then have "take_bit 32 y = take_bit 32 (push_bit (unat amt) ?x)" unfolding y
      by (auto intro!: bit_word_eqI simp: bit_simps)
    from wreg_cong[OF this] show ?thesis using False by simp
  qed
  then show ?thesis unfolding a64_lsl_imm_def Let_def
    by (intro computes_bitfieldI[OF u(3) u(4), where y = y]) (use u(1) in \<open>auto simp: y_def\<close>)
qed

lemma lsr_computes:
  assumes "amt < reg_width is64"
  shows "computes a (a64_lsr_imm a rd rn amt is64) s (wreg is64 s (regno rd) (drop_bit (unat amt) (rreg is64 s (regno rn))))"
proof -
  note u = unat_width[OF assms]
  let ?w = "if is64 then 64 else 32 :: nat" and ?n = "unat amt"
  let ?x = "rreg is64 s (regno rn)"
  have "take_bit (?w - 1 - ?n + 1) (drop_bit ?n ?x) = drop_bit ?n ?x"
  proof (rule bit_word_eqI)
    fix k
    have "bit ?x (?n + k) \<Longrightarrow> ?n + k < ?w" by (rule bit_rreg)
    with u(1) show "bit (take_bit (?w - 1 - ?n + 1) (drop_bit ?n ?x)) k \<longleftrightarrow> bit (drop_bit ?n ?x) k"
      by (cases is64) (auto simp: bit_take_bit_iff bit_drop_bit_eq)
  qed
  then show ?thesis unfolding a64_lsr_imm_def Let_def
    by (intro computes_bitfieldI[OF refl u(5)]) (use u(1) in auto)
qed

lemma asr_computes:
  assumes "amt < reg_width is64"
  shows "computes a (a64_asr_imm a rd rn amt is64) s (wreg is64 s (regno rd) (asr_value is64 (unat amt) (rreg is64 s (regno rn))))"
proof -
  note u = unat_width[OF assms]
  let ?w = "if is64 then 64 else 32 :: nat" and ?n = "unat amt"
  let ?x = "rreg is64 s (regno rn)"
  have "wreg is64 s (regno rd) (signed_take_bit (?w - 1 - ?n) (drop_bit ?n ?x)) = wreg is64 s (regno rd) (asr_value is64 ?n ?x)"
  proof (cases is64)
    case True
    have "signed_take_bit (63 - ?n) (drop_bit ?n ?x) = signed_drop_bit ?n ?x"
    proof (rule bit_word_eqI)
      fix k assume "k < LENGTH(64)"
      with u(1) True show "bit (signed_take_bit (63 - ?n) (drop_bit ?n ?x)) k \<longleftrightarrow> bit (signed_drop_bit ?n ?x) k"
        by (cases "k = 63 - ?n") (auto simp: bit_simps min_def)
    qed
    with True show ?thesis by (simp add: asr_value_def)
  next
    case False
    have "take_bit 32 (signed_take_bit (31 - ?n) (drop_bit ?n ?x)) = take_bit 32 (ucast (signed_drop_bit ?n (ucast ?x :: u32)))"
    proof (rule bit_word_eqI)
      fix k assume "k < LENGTH(64)"
      with u(1) False show "bit (take_bit 32 (signed_take_bit (31 - ?n) (drop_bit ?n ?x))) k
          \<longleftrightarrow> bit (take_bit 32 (ucast (signed_drop_bit ?n (ucast ?x :: u32)) :: u64)) k"
        by (cases "k = 31 - ?n") (auto simp: bit_simps min_def)
    qed
    from wreg_cong[OF this] False show ?thesis by (simp add: asr_value_def)
  qed
  then show ?thesis unfolding a64_asr_imm_def Let_def
    by (intro computes_bitfieldI[OF refl u(5), where y = "signed_take_bit (?w - 1 - ?n) (drop_bit ?n ?x)"])
      (use u(1) in auto)
qed


text \<open>The extensions of a value of 1, 2 or 4 bytes.\<close>

lemma ext_computes:
  assumes "n = 1 \<or> n = 2 \<or> n = 4"
  shows "computes a (a64_sxt a rd rn n is64) s (wreg is64 s (regno rd) (signed_take_bit (8 * unat n - 1) (rreg is64 s (regno rn))))"
    and "computes a (a64_uxt a rd rn n is64) s (wreg is64 s (regno rd) (take_bit (8 * unat n) (rreg is64 s (regno rn))))"
proof -
  have k: "unat (ext_imms n) = 8 * unat n - 1" "8 * unat n - 1 < (if is64 then 64 else 32)"
      "8 * unat n - 1 - 0 + 1 = 8 * unat n"
    using assms by (auto simp: ext_imms_def word_le_nat_alt)
  show "computes a (a64_sxt a rd rn n is64) s (wreg is64 s (regno rd) (signed_take_bit (8 * unat n - 1) (rreg is64 s (regno rn))))"
    and "computes a (a64_uxt a rd rn n is64) s (wreg is64 s (regno rd) (take_bit (8 * unat n) (rreg is64 s (regno rn))))"
    unfolding a64_sxt_def a64_uxt_def
    by (intro computes_bitfieldI[OF unat_0 k(1)]; use k in simp)+
qed

lemma not_plus_1: "- (x :: 'a::len word) = NOT x + 1"
  by (simp add: minus_eq_not_plus_1)

text \<open>The low half of a word is compatible with the ring operations.\<close>

lemma ucast_word_of_int: "(ucast (word_of_int z :: u64) :: u32) = word_of_int z"
  by (rule bit_word_eqI) (auto simp: bit_simps)

lemma ucast_ring:
  "(ucast (x + y :: u64) :: u32) = ucast x + ucast y"
  "(ucast (NOT x :: u64) :: u32) = NOT (ucast x)"
proof -
  have x: "ucast z = (word_of_int (uint z) :: u32)" for z :: u64
    using ucast_word_of_int[of "uint z"] by simp
  have "(ucast (x + y) :: u32) = ucast (word_of_int (uint x + uint y) :: u64)" by simp
  also have "\<dots> = word_of_int (uint x + uint y)" by (rule ucast_word_of_int)
  finally show "(ucast (x + y :: u64) :: u32) = ucast x + ucast y"
    by (simp only: of_int_add x)
  show "(ucast (NOT x :: u64) :: u32) = NOT (ucast x)"
    by (rule bit_word_eqI) (auto simp: bit_simps)
qed

lemma wreg_low: "wreg False s rd (ucast (ucast z :: u32)) = wreg False s rd z"
proof -
  have "take_bit 32 (ucast (ucast z :: u32) :: u64) = take_bit 32 z"
    by (rule bit_word_eqI) (auto simp: bit_simps)
  then show ?thesis by (rule wreg_cong)
qed

lemma sub_as_add: "(x :: 'a::len word) - y = x + (NOT y + 1)"
  by (simp add: not_plus_1[symmetric])

lemma addsub_value:
  "exec_addsub sf op False rd x y s = wreg sf s rd (if op then x - y else x + y)"
proof (cases sf)
  case True
  then show ?thesis by (simp add: exec_addsub_def addc_def Let_def sub_as_add add.assoc)
next
  case False
  have "ucast (x - y) = (ucast x + (NOT (ucast y) + 1) :: u32)"
    unfolding sub_as_add[of x y] by (simp only: ucast_ring) simp
  with False show ?thesis
    using wreg_low[of s rd "x - y"] wreg_low[of s rd "x + y"]
    by (simp add: exec_addsub_def addc_def Let_def ucast_ring add.assoc)
qed

lemma log_mov: "log_op 1 0 y = y"
  by (simp add: log_op_def)

lemma alu_computes:
  "computes a (a64_mov_reg a rd rm is64) s (wreg is64 s (regno rd) (rreg is64 s (regno rm)))"
  "computes a (a64_mvn a rd rm is64) s (wreg is64 s (regno rd) (NOT (rreg is64 s (regno rm))))"
  "computes a (a64_neg a rd rm is64) s (wreg is64 s (regno rd) (- rreg is64 s (regno rm)))"
  "computes a (a64_add_reg a rd rn rm 0 0 is64 False) s
     (wreg is64 s (regno rd) (rreg is64 s (regno rn) + rreg is64 s (regno rm)))"
  "computes a (a64_sub_reg a rd rn rm 0 0 is64 False) s
     (wreg is64 s (regno rd) (rreg is64 s (regno rn) - rreg is64 s (regno rm)))"
  "computes a (a64_and_reg a rd rn rm is64) s
     (wreg is64 s (regno rd) (rreg is64 s (regno rn) AND rreg is64 s (regno rm)))"
  "computes a (a64_or_reg a rd rn rm is64) s
     (wreg is64 s (regno rd) (rreg is64 s (regno rn) OR rreg is64 s (regno rm)))"
  "computes a (a64_eor_reg a rd rn rm is64) s
     (wreg is64 s (regno rd) (rreg is64 s (regno rn) XOR rreg is64 s (regno rm)))"
  "computes a (a64_mul a rd rn rm is64) s
     (wreg is64 s (regno rd) (rreg is64 s (regno rn) * rreg is64 s (regno rm)))"
  "computes a (a64_msub a rd rn rm ra is64) s
     (wreg is64 s (regno rd) (rreg is64 s (regno ra) - rreg is64 s (regno rn) * rreg is64 s (regno rm)))"
  "computes a (a64_umulh a rd rn rm) s
     (wreg True s (regno rd) (of_nat (unat (rreg True s (regno rn)) * unat (rreg True s (regno rm)) div 2 ^ 64)))"
  by (rule computes_emits, rule encodes,
      simp add: addsub_value shift_reg_def log_op_def Let_def rreg_def[of _ s 31])+


section \<open>Comparisons\<close>

lemma signed_wrap:
  assumes "- (2 ^ Suc n) \<le> d" "d < (2 :: int) ^ Suc n"
  shows "(signed_take_bit n d < 0) = (signed_take_bit n d \<noteq> d) \<longleftrightarrow> 0 \<le> d"
proof -
  consider "d < - (2 ^ n)" | "- (2 ^ n) \<le> d" "d < 2 ^ n" | "2 ^ n \<le> d" by linarith
  then show ?thesis
  proof cases
    case 1
    have "signed_take_bit n d = signed_take_bit n (d + 2 ^ Suc n)"
      by (simp add: signed_take_bit_eq_iff_take_bit_eq take_bit_eq_mod)
    also have "\<dots> = d + 2 ^ Suc n" using 1 assms by (intro signed_take_bit_int_eq_self) auto
    finally show ?thesis using 1 assms by auto
  next
    case 2
    then have "signed_take_bit n d = d" by (intro signed_take_bit_int_eq_self) auto
    then show ?thesis by auto
  next
    case 3
    have "signed_take_bit n (d - 2 ^ Suc n + 2 ^ Suc n) = signed_take_bit n (d - 2 ^ Suc n)"
      by (simp only: signed_take_bit_eq_iff_take_bit_eq) (simp add: take_bit_eq_mod)
    also have "\<dots> = d - 2 ^ Suc n" using 3 assms by (intro signed_take_bit_int_eq_self) auto
    finally show ?thesis using 3 assms by auto
  qed
qed

lemma addc_sub:
  fixes x y :: "'a::len word"
  assumes "addc x (NOT y) True = (r, n, z, c, v)"
  shows "r = x - y" "z \<longleftrightarrow> x = y" "c \<longleftrightarrow> y \<le> x" "n = v \<longleftrightarrow> sint y \<le> sint x"
proof -
  have eqs: "r = x + NOT y + 1" "n \<longleftrightarrow> sint r < 0" "z \<longleftrightarrow> r = 0"
      "c \<longleftrightarrow> uint x + uint (NOT y) + 1 \<noteq> uint r" "v \<longleftrightarrow> sint x + sint (NOT y) + 1 \<noteq> sint r"
    using assms by (auto simp: addc_def Let_def)
  show r: "r = x - y" unfolding eqs(1) sub_as_add by (simp only: add.assoc)
  show "z \<longleftrightarrow> x = y" unfolding eqs(3) r by simp
  have "uint y < 2 ^ LENGTH('a)" by (rule uint_lt2p)
  have "uint (NOT y) = take_bit LENGTH('a) (NOT (uint y))" by (simp add: unsigned_not_eq)
  also have "\<dots> = 2 ^ LENGTH('a) - 1 - uint y"
    using \<open>uint y < 2 ^ LENGTH('a)\<close>
    by (simp add: take_bit_not_eq_mask_diff mask_eq_exp_minus_1 take_bit_int_eq_self)
  finally show "c \<longleftrightarrow> y \<le> x"
    unfolding eqs(4) r by (auto simp: uint_sub_if' word_le_def)
  let ?n = "LENGTH('a) - 1"
  have ranges: "- (2 ^ ?n) \<le> sint z" "sint z < 2 ^ ?n" for z :: "'a word"
    by (rule sint_ge, rule sint_lt)
  have "(2 :: int) ^ ?n \<le> 2 ^ LENGTH('a)" by (rule power_increasing) auto
  have "sint (NOT y) = signed_take_bit LENGTH('a) (NOT (sint y))" by (simp add: signed_not_eq)
  also have "\<dots> = - sint y - 1"
  proof -
    have "- (2 ^ LENGTH('a)) \<le> - sint y - 1" "- sint y - 1 < 2 ^ LENGTH('a)"
      using ranges[of y] \<open>(2 :: int) ^ ?n \<le> 2 ^ LENGTH('a)\<close> by linarith+
    then show ?thesis by (simp only: not_int_def signed_take_bit_int_eq_self)
  qed
  finally have e: "sint x + sint (NOT y) + 1 = sint x - sint y" by simp
  have "n \<longleftrightarrow> sint (x - y) < 0" "v \<longleftrightarrow> sint x - sint y \<noteq> sint (x - y)"
    using eqs(2) eqs(5)[unfolded r e] unfolding r by blast+
  moreover have "sint (x - y) = signed_take_bit ?n (sint x - sint y)" by (simp add: sint_word_ariths)
  moreover have "(2 :: int) ^ Suc ?n = 2 ^ ?n + 2 ^ ?n" by (simp only: power_Suc mult_2)
  then have "- (2 ^ Suc ?n) \<le> sint x - sint y" "sint x - sint y < 2 ^ Suc ?n"
    using ranges[of x] ranges[of y] by linarith+
  ultimately show "n = v \<longleftrightarrow> sint y \<le> sint x"
    using signed_wrap[of ?n "sint x - sint y"] by auto
qed


text \<open>The relation a condition code names, on the operands of a comparison.\<close>

definition sval :: "bool \<Rightarrow> u64 \<Rightarrow> int" where
  "sval is64 x = (if is64 then sint x else sint (ucast x :: u32))"

definition cond_rel :: "int \<Rightarrow> bool \<Rightarrow> u64 \<Rightarrow> u64 \<Rightarrow> bool" where
  "cond_rel cond is64 x y =
     (if cond = 0 then x = y else if cond = 1 then x \<noteq> y
      else if cond = 2 then y \<le> x else if cond = 3 then x < y
      else if cond = 8 then y < x else if cond = 9 then x \<le> y
      else if cond = 10 then sval is64 y \<le> sval is64 x
      else if cond = 11 then sval is64 x < sval is64 y
      else if cond = 12 then sval is64 y < sval is64 x
      else sval is64 x \<le> sval is64 y)"

definition rel_codes :: "int set" where
  "rel_codes = {0, 1, 2, 3, 8, 9, 10, 11, 12, 13}"

lemma ucast_W_eq_iff: "(ucast (rreg False s r) :: u32) = ucast (rreg False s r') \<longleftrightarrow> rreg False s r = rreg False s r'"
  and ucast_W_le_iff: "(ucast (rreg False s r) :: u32) \<le> ucast (rreg False s r') \<longleftrightarrow> rreg False s r \<le> rreg False s r'"
proof -
  have u: "uint (ucast (rreg False s r) :: u32) = uint (rreg False s r)" for r
  proof -
    have "uint (ucast (rreg False s r) :: u32) = take_bit 32 (uint (rreg False s r))"
      by (rule bit_eqI) (auto simp: bit_simps)
    also have "\<dots> = uint (take_bit 32 (rreg False s r))" by (rule bit_eqI) (auto simp: bit_simps)
    finally show ?thesis by (simp add: rreg_W)
  qed
  show "(ucast (rreg False s r) :: u32) = ucast (rreg False s r') \<longleftrightarrow> rreg False s r = rreg False s r'"
    by (simp add: word_uint_eq_iff u del: uint_cong)
  show "(ucast (rreg False s r) :: u32) \<le> ucast (rreg False s r') \<longleftrightarrow> rreg False s r \<le> rreg False s r'"
    by (simp add: word_le_def u)
qed

text \<open>The flags after a comparison.\<close>

lemma cmp_flags:
  fixes x y :: u64
  assumes s': "s' = exec_addsub is64 True True 31 x y s"
    and xy: "x = rreg is64 s r" "y = rreg is64 s r'"
  shows "xregs s' = xregs s" "flag_z s' \<longleftrightarrow> x = y" "flag_c s' \<longleftrightarrow> y \<le> x"
    "flag_n s' = flag_v s' \<longleftrightarrow> sval is64 y \<le> sval is64 x"
proof -
  show "xregs s' = xregs s"
    by (simp add: s' exec_addsub_def wreg_def Let_def addc_def)
  have "(flag_z s' \<longleftrightarrow> x = y) \<and> (flag_c s' \<longleftrightarrow> y \<le> x) \<and> (flag_n s' = flag_v s' \<longleftrightarrow> sval is64 y \<le> sval is64 x)"
  proof (cases is64)
    case True
    obtain q n z c v where a: "addc x (NOT y) True = (q, n, z, c, v)" by (cases "addc x (NOT y) True") auto
    with True addc_sub[OF a] show ?thesis by (simp add: s' exec_addsub_def sval_def)
  next
    case False
    obtain q n z c v where a: "addc (ucast x :: u32) (NOT (ucast y)) True = (q, n, z, c, v)"
      by (cases "addc (ucast x :: u32) (NOT (ucast y)) True") auto
    with False addc_sub[OF a] show ?thesis
      by (simp add: s' exec_addsub_def sval_def ucast_ring xy ucast_W_eq_iff ucast_W_le_iff)
  qed
  then show "flag_z s' \<longleftrightarrow> x = y" "flag_c s' \<longleftrightarrow> y \<le> x" "flag_n s' = flag_v s' \<longleftrightarrow> sval is64 y \<le> sval is64 x"
    by blast+
qed


lemma sint_inject: "sint x = sint y \<longleftrightarrow> x = (y :: 'a::len word)"
  by (auto intro: signed_word_eqI)

lemma cond_codes:
  "cond_holds 0 s = flag_z s" "cond_holds 1 s = (\<not> flag_z s)"
  "cond_holds 2 s = flag_c s" "cond_holds 3 s = (\<not> flag_c s)"
  "cond_holds 8 s = (flag_c s \<and> \<not> flag_z s)" "cond_holds 9 s = (\<not> (flag_c s \<and> \<not> flag_z s))"
  "cond_holds 10 s = (flag_n s = flag_v s)" "cond_holds 11 s = (flag_n s \<noteq> flag_v s)"
  "cond_holds 12 s = (flag_n s = flag_v s \<and> \<not> flag_z s)"
  "cond_holds 13 s = (\<not> (flag_n s = flag_v s \<and> \<not> flag_z s))"
  by (simp_all add: cond_holds_def Let_def)

lemma cond_invert:
  assumes "cond \<in> rel_codes"
  shows "cond_holds (word_of_int cond XOR 1) s \<longleftrightarrow> \<not> cond_holds (word_of_int cond) s"
  using assms unfolding rel_codes_def by (elim insertE; simp add: cond_codes)

lemma cmp_cond:
  fixes x y :: u64
  assumes "s' = exec_addsub is64 True True 31 x y s"
    and "x = rreg is64 s r" "y = rreg is64 s r'" "cond \<in> rel_codes"
  shows "cond_holds (word_of_int cond) s' \<longleftrightarrow> cond_rel cond is64 x y"
proof -
  note f = cmp_flags[OF assms(1,2,3)]
  have inj: "sval is64 x = sval is64 y \<longleftrightarrow> x = y"
    by (cases is64) (simp_all add: sval_def assms(2,3) ucast_W_eq_iff sint_inject)
  show ?thesis
    using assms(4) inj unfolding rel_codes_def
    by (elim insertE; simp add: cond_codes f(2-4) cond_rel_def) auto
qed

text \<open>A comparison followed by \<open>cset\<close> leaves the truth value of the relation.\<close>

lemma cmp_cset_computes:
  assumes "cond \<in> rel_codes"
  shows "\<exists>s'. computes a (a64_cset (a64_cmp_reg a rn rm is64) rd cond True) s s' \<and>
    xregs s' = xregs (wreg True s (regno rd) (of_bool (cond_rel cond is64 (rreg is64 s (regno rn)) (rreg is64 s (regno rm)))))"
proof -
  let ?x = "rreg is64 s (regno rn)" and ?y = "rreg is64 s (regno rm)"
  define s1 where "s1 = exec_addsub is64 True True 31 ?x ?y s"
  have range: "0 \<le> cond" "cond < 16" using assms by (auto simp: rel_codes_def)
  have 1: "computes a (a64_cmp_reg a rn rm is64) s s1"
    by (rule computes_emits, rule encodes) (simp add: s1_def shift_reg_def)
  let ?s2 = "wreg True s1 (regno rd) (of_bool (cond_rel cond is64 ?x ?y))"
  have "cond_holds (word_of_int cond XOR 1) s1 \<longleftrightarrow> \<not> cond_rel cond is64 ?x ?y"
    unfolding cond_invert[OF assms] cmp_cond[OF s1_def refl refl assms] ..
  then have "exec (CondSel True False False 31 (word_of_int cond XOR 1) 1 31 (regno rd)) s1 = Some ?s2"
    by (simp add: rreg_def[of _ s1 31] word_le_nat_alt)
  then have "computes (a64_cmp_reg a rn rm is64) (a64_cset (a64_cmp_reg a rn rm is64) rd cond True) s1 ?s2"
    by (rule computes_emits[OF emits_cset[OF range]])
  moreover have "xregs ?s2 = xregs (wreg True s (regno rd) (of_bool (cond_rel cond is64 ?x ?y)))"
    using cmp_flags(1)[OF s1_def refl refl] by (simp add: wreg_def)
  ultimately show ?thesis using computes_trans[OF 1] by blast
qed

section \<open>Properties\<close>

text \<open>
  C31. The instructions \<open>a64_mov_imm64\<close> emits, one \<open>movz\<close> and a \<open>movk\<close> for each further non-zero
  halfword, leave exactly the 64-bit constant in the register and change nothing else.
\<close>

theorem mov_imm64_correct:
  "computes a (a64_mov_imm64 a rd v) s (wreg True s (regno rd) v)"
  by (rule mov_imm64_computes)

text \<open>
  C32. Shifts by a constant below the operand width, and extensions from 1, 2 or 4 bytes, which are all
  emitted as bitfield moves with computed fields, compute the left, logical right and arithmetic right
  shift of the operand, and the sign or zero extension of its low bytes.
\<close>

theorem shift_extend_correct:
  assumes "amt < reg_width is64" "n = 1 \<or> n = 2 \<or> n = 4"
  shows "computes a (a64_lsl_imm a rd rn amt is64) s (wreg is64 s (regno rd) (push_bit (unat amt) (rreg is64 s (regno rn)))) \<and>
    computes a (a64_lsr_imm a rd rn amt is64) s (wreg is64 s (regno rd) (drop_bit (unat amt) (rreg is64 s (regno rn)))) \<and>
    computes a (a64_asr_imm a rd rn amt is64) s (wreg is64 s (regno rd) (asr_value is64 (unat amt) (rreg is64 s (regno rn)))) \<and>
    computes a (a64_sxt a rd rn n is64) s (wreg is64 s (regno rd) (signed_take_bit (8 * unat n - 1) (rreg is64 s (regno rn)))) \<and>
    computes a (a64_uxt a rd rn n is64) s (wreg is64 s (regno rd) (take_bit (8 * unat n) (rreg is64 s (regno rn))))"
  using assms by (intro conjI lsl_computes lsr_computes asr_computes ext_computes)

definition example_state :: a64_state where
  "example_state = \<lparr>xregs = (\<lambda>r. ucast r), flag_n = False, flag_z = False, flag_c = False, flag_v = False\<rparr>"

theorem shift_extend_correct_witness:
  "computes a64_init (a64_lsl_imm a64_init 1 2 31 False) example_state (wreg False example_state 1 (push_bit 31 2)) \<and>
   computes a64_init (a64_uxt a64_init 1 2 2 False) example_state (wreg False example_state 1 2)"
  using shift_extend_correct[of 31 False 2 a64_init 1 2 example_state]
  by (simp add: regno_def rreg_def example_state_def word_less_nat_alt)

text \<open>
  C33. Register moves, negation, addition, subtraction, the bitwise operations, multiplication,
  multiply-subtract and the high product compute their operation at the operand width.
\<close>

theorem alu_correct:
  "computes a (a64_mov_reg a rd rm is64) s (wreg is64 s (regno rd) (rreg is64 s (regno rm))) \<and>
    computes a (a64_mvn a rd rm is64) s (wreg is64 s (regno rd) (NOT (rreg is64 s (regno rm)))) \<and>
    computes a (a64_neg a rd rm is64) s (wreg is64 s (regno rd) (- rreg is64 s (regno rm))) \<and>
    computes a (a64_add_reg a rd rn rm 0 0 is64 False) s (wreg is64 s (regno rd) (rreg is64 s (regno rn) + rreg is64 s (regno rm))) \<and>
    computes a (a64_sub_reg a rd rn rm 0 0 is64 False) s (wreg is64 s (regno rd) (rreg is64 s (regno rn) - rreg is64 s (regno rm))) \<and>
    computes a (a64_and_reg a rd rn rm is64) s (wreg is64 s (regno rd) (rreg is64 s (regno rn) AND rreg is64 s (regno rm))) \<and>
    computes a (a64_or_reg a rd rn rm is64) s (wreg is64 s (regno rd) (rreg is64 s (regno rn) OR rreg is64 s (regno rm))) \<and>
    computes a (a64_eor_reg a rd rn rm is64) s (wreg is64 s (regno rd) (rreg is64 s (regno rn) XOR rreg is64 s (regno rm))) \<and>
    computes a (a64_mul a rd rn rm is64) s (wreg is64 s (regno rd) (rreg is64 s (regno rn) * rreg is64 s (regno rm))) \<and>
    computes a (a64_msub a rd rn rm ra is64) s (wreg is64 s (regno rd) (rreg is64 s (regno ra) - rreg is64 s (regno rn) * rreg is64 s (regno rm))) \<and>
    computes a (a64_umulh a rd rn rm) s (wreg True s (regno rd) (of_nat (unat (rreg True s (regno rn)) * unat (rreg True s (regno rm)) div 2 ^ 64)))"
  by (intro conjI) (rule alu_computes)+

text \<open>
  C34. A comparison followed by \<open>a64_cset\<close> with one of the ten relational conditions leaves 1 in the
  register if the relation, signed or unsigned as the condition says, holds of the operands, and 0 if not.
\<close>

theorem cmp_cset_correct:
  assumes "cond \<in> rel_codes"
  shows "\<exists>s'. computes a (a64_cset (a64_cmp_reg a rn rm is64) rd cond True) s s' \<and>
    xregs s' = xregs (wreg True s (regno rd) (of_bool (cond_rel cond is64 (rreg is64 s (regno rn)) (rreg is64 s (regno rm)))))"
  using assms by (rule cmp_cset_computes)

theorem cmp_cset_correct_witness:
  "\<exists>s'. computes a64_init (a64_cset (a64_cmp_reg a64_init 2 3 True) 1 11 True) example_state s' \<and> xregs s' 1 = 1"
  using cmp_cset_correct[of 11 a64_init 2 3 True 1 example_state]
  by (auto simp: rel_codes_def regno_def rreg_def wreg_def example_state_def cond_rel_def sval_def)

end
