(* ===== verification/A64Limm.thy ===== *)
theory A64Limm
  imports A64Exec
begin

text \<open>
  Logical immediates.  The encoder looks for a rotation that turns the value into a run of ones; for a
  value that is a rotated run in the whole register (the masks the code generators use) the encoding
  decodes to the value.  The fields it emits do not name the element size, so a replicated pattern is
  encoded as one copy of it, and the all-ones value gets a reserved encoding (\<open>encode_limm_replicated\<close>).
\<close>

section \<open>Runs of ones\<close>

abbreviation dsize :: "bool \<Rightarrow> nat" where "dsize is64 \<equiv> (if is64 then 64 else 32)"

lemma bit_mask64: "bit (mask k :: u64) i \<longleftrightarrow> i < 64 \<and> i < k"
  by (simp add: bit_mask_iff)

lemma and_inc_mask:
  fixes w :: u64
  assumes "w AND (w + 1) = 0" "w \<noteq> 0"
  obtains k where "0 < k" "k \<le> 64" "w = mask k"
proof -
  define k where "k = (LEAST j. \<not> bit w j)"
  have "\<not> bit w 64" using bit_imp_le_length[of w 64] by auto
  then have k: "\<not> bit w k" "k \<le> 64" and lo: "\<And>j. j < k \<Longrightarrow> bit w j"
    unfolding k_def
    using LeastI[of "\<lambda>j. \<not> bit w j" 64] Least_le[of "\<lambda>j. \<not> bit w j" 64] not_less_Least by blast+
  define u where "u = w AND NOT (mask k)"
  have bu: "bit u i \<longleftrightarrow> bit w i \<and> k < i" for i
    using k(1) bit_imp_le_length[of w i]
    by (cases "i = k") (auto simp: u_def bit_and_iff bit_not_iff bit_mask64)
  have w: "w = mask k OR u"
    by (rule bit_word_eqI) (use lo k in \<open>auto simp: bit_or_iff bu bit_mask64 not_less le_less\<close>)
  also have "\<dots> = mask k + u"
    by (rule disjunctive_add[symmetric]) (auto simp: bu bit_mask64)
  finally have "w + 1 = push_bit k 1 + u"
    by (simp add: mask_eq_exp_minus_1 push_bit_eq_mult)
  also have "\<dots> = push_bit k 1 OR u"
    by (rule disjunctive_add) (auto simp: bu bit_exp_iff)
  finally have "bit (w AND (w + 1)) i = bit u i" for i
    using k(1) bit_imp_le_length[of w i]
    by (auto simp: bit_and_iff bit_or_iff bu bit_exp_iff)
  then have "u = 0" using assms(1) by (intro bit_word_eqI) simp
  with w have "w = mask k" by simp
  moreover have "0 < k" using assms(2) \<open>w = mask k\<close> by (cases k) auto
  ultimately show ?thesis using that k(2) by blast
qed

lemma limm_run_mask: "j \<le> k \<Longrightarrow> k \<le> e \<Longrightarrow> e \<le> 64 \<Longrightarrow> limm_run (mask k) e j = k"
proof (induction "k - j" arbitrary: j)
  case 0
  then have "\<not> bit (mask k :: u64) j" by (simp add: bit_mask64)
  then show ?case using 0 by (subst limm_run.simps) (simp add: bit_iff_and_drop_bit_eq_1 and_one_eq odd_iff_mod_2_eq_one)
next
  case (Suc d)
  then have "j < k" by simp
  with Suc have "bit (mask k :: u64) j" by (simp add: bit_mask64)
  then show ?case using Suc \<open>j < k\<close> by (subst limm_run.simps) (simp add: bit_iff_and_drop_bit_eq_1)
qed

lemma bit_limm_mask: "e \<le> 64 \<Longrightarrow> bit (limm_mask e) i \<longleftrightarrow> i < e"
proof -
  assume "e \<le> 64"
  have "limm_mask e = mask e" by (simp add: limm_mask_def mask_eq_exp_minus_1 push_bit_eq_mult)
  with \<open>e \<le> 64\<close> show ?thesis by (auto simp: bit_mask64)
qed

lemma bit_limm_rot:
  assumes v: "\<And>j. bit v j \<Longrightarrow> j < e" and e: "e \<le> 64" and r: "r < e" and i: "i < e"
  shows "bit (limm_rot e v r) i \<longleftrightarrow> bit v ((i + r) mod e)"
proof (cases "r = 0")
  case True
  then show ?thesis using i by (simp add: limm_rot_def bit_and_iff bit_limm_mask[OF e])
next
  case False
  have "bit (limm_rot e v r) i \<longleftrightarrow> bit v (r + i) \<or> e - r \<le> i \<and> bit v (i - (e - r))"
    using False i e bit_limm_mask[OF e, of i]
    by (simp add: limm_rot_def bit_and_iff bit_or_iff bit_drop_bit_eq bit_push_bit_iff)
  also have "\<dots> \<longleftrightarrow> bit v ((i + r) mod e)"
  proof (cases "i + r < e")
    case True
    then have "\<not> e - r \<le> i" using r by simp
    then show ?thesis using True by (simp add: add.commute)
  next
    case wrap: False
    then have "(i + r) mod e = i - (e - r)" "e - r \<le> i" using r i by (simp_all add: mod_if)
    moreover have "\<not> bit v (r + i)" using v[of "r + i"] wrap by auto
    ultimately show ?thesis by simp
  qed
  finally show ?thesis .
qed

lemma bit_limm_rot_ge: "e \<le> 64 \<Longrightarrow> e \<le> i \<Longrightarrow> \<not> bit (limm_rot e v r) i"
  by (simp add: limm_rot_def bit_and_iff bit_limm_mask)

text \<open>The mask that is a run of \<open>k\<close> ones in a register of \<open>e\<close> bits, rotated right by \<open>R\<close>.\<close>

definition rotated_run :: "nat \<Rightarrow> nat \<Rightarrow> nat \<Rightarrow> u64" where
  "rotated_run e R k = horner_sum of_bool 2 (map (\<lambda>i. (i + R) mod e < k) [0..<e])"

lemma bit_rotated_run: "e \<le> 64 \<Longrightarrow> bit (rotated_run e R k) i \<longleftrightarrow> i < e \<and> (i + R) mod e < k"
  by (auto simp: rotated_run_def bit_horner_sum_bit_word_iff)

lemma rotate_back:
  assumes "i < e" "r < (e :: nat)"
  shows "((i + r) mod e + (e - r)) mod e = i" "((i + (e - r)) mod e + r) mod e = i"
    "(i + (e - r) mod e) mod e = (i + (e - r)) mod e"
proof -
  have "((i + r) mod e + (e - r)) mod e = (i + r + (e - r)) mod e" by (simp add: mod_add_left_eq)
  also have "i + r + (e - r) = i + e" using assms by simp
  finally show "((i + r) mod e + (e - r)) mod e = i" using assms by simp
  have "((i + (e - r)) mod e + r) mod e = (i + (e - r) + r) mod e" by (simp add: mod_add_left_eq)
  also have "i + (e - r) + r = i + e" using assms by simp
  finally show "((i + (e - r)) mod e + r) mod e = i" using assms by simp
  show "(i + (e - r) mod e) mod e = (i + (e - r)) mod e" by (simp add: mod_add_right_eq)
qed

text \<open>A rotation of a value that is a low run makes the value a rotated run.\<close>

lemma rot_mask_rotated:
  assumes v: "\<And>j. bit v j \<Longrightarrow> j < e" and e: "e \<le> 64" and r: "r < e"
    and m: "limm_rot e v r = mask k" "k \<le> 64"
  shows "v = rotated_run e ((e - r) mod e) k"
proof (rule bit_word_eqI)
  fix i
  show "bit v i \<longleftrightarrow> bit (rotated_run e ((e - r) mod e) k) i"
  proof (cases "i < e")
    case True
    let ?j = "(i + (e - r)) mod e"
    have "?j < e" using r by simp
    have "bit v i \<longleftrightarrow> bit (limm_rot e v r) ?j"
      using bit_limm_rot[OF v e r \<open>?j < e\<close>] rotate_back(2)[OF True r] by simp
    also have "\<dots> \<longleftrightarrow> ?j < k" using m \<open>?j < e\<close> e by (simp add: bit_mask64)
    finally show ?thesis using True e by (simp add: bit_rotated_run rotate_back(3)[OF True r])
  qed (use v e in \<open>auto simp: bit_rotated_run\<close>)
qed

lemma rotated_run_rot:
  assumes e: "e \<le> 64" and R: "R < e" and k: "k \<le> e"
  shows "limm_rot e (rotated_run e R k) ((e - R) mod e) = mask k"
proof (rule bit_word_eqI)
  fix i
  have v: "\<And>j. bit (rotated_run e R k) j \<Longrightarrow> j < e" using e by (simp add: bit_rotated_run)
  have r: "(e - R) mod e < e" using R by simp
  show "bit (limm_rot e (rotated_run e R k) ((e - R) mod e)) i \<longleftrightarrow> bit (mask k :: u64) i"
  proof (cases "i < e")
    case True
    let ?j = "(i + (e - R) mod e) mod e"
    have "?j < e" using R by simp
    have "bit (limm_rot e (rotated_run e R k) ((e - R) mod e)) i \<longleftrightarrow> (?j + R) mod e < k"
      using bit_limm_rot[of "rotated_run e R k", OF v e r True] bit_rotated_run[OF e, of R k ?j] \<open>?j < e\<close> by blast
    also have "(?j + R) mod e = i" using rotate_back(2,3)[OF True R] by simp
    finally show ?thesis using True e by (simp add: bit_mask64)
  qed (use e k bit_limm_rot_ge in \<open>auto simp: bit_mask64\<close>)
qed


section \<open>Encoding and decoding\<close>

lemma limm_rep_full: "0 < e \<Longrightarrow> limm_rep e e pat = pat"
  by (simp add: limm_rep_def)

lemma rotated_run_ones:
  assumes e: "e \<le> 64" and "R < e" "0 < k" "k < e" "rotated_run e R k = rotated_run e R' k'" "0 < e" "0 < k'" "k' \<le> e"
  shows "k' < e"
proof (rule ccontr)
  assume "\<not> k' < e"
  with assms have "k' = e" by simp
  let ?i = "(k + (e - R)) mod e"
  have "?i < e" "(?i + R) mod e = k" using assms rotate_back(2)[of k e R] by auto
  then have "\<not> bit (rotated_run e R k) ?i" using e by (simp add: bit_rotated_run)
  moreover have "bit (rotated_run e R' k') ?i" using e \<open>?i < e\<close> \<open>k' = e\<close> \<open>0 < e\<close> by (simp add: bit_rotated_run)
  ultimately show False using assms(5) by simp
qed

lemma limm_size_full:
  assumes v: "v = rotated_run (dsize is64) R k" and R: "R < dsize is64" and k: "0 < k" "k < dsize is64"
  obtains R' k' where "limm_size v is64 (dsize is64) = Some (if is64 then 1 else 0, of_nat R', of_nat (k' - 1))"
    "R' < dsize is64" "0 < k'" "k' < dsize is64" "v = rotated_run (dsize is64) R' k'"
proof -
  let ?e = "dsize is64"
  have e: "?e \<le> 64" "0 < ?e" by simp_all
  have vb: "\<And>j. bit v j \<Longrightarrow> j < ?e" using e by (simp add: v bit_rotated_run)
  let ?P = "\<lambda>r. let w = limm_rot ?e v r in w \<noteq> 0 \<and> w AND (w + 1) = 0"
  have "mask k AND (mask k + 1) = (0 :: u64)"
  proof -
    have "mask k + 1 = (2 ^ k :: u64)" by (simp add: mask_eq_exp_minus_1)
    then show ?thesis by (intro bit_word_eqI) (auto simp: bit_and_iff bit_exp_iff bit_mask64)
  qed
  moreover have "mask k \<noteq> (0 :: u64)"
    using k bit_mask64[of k 0] by auto
  ultimately have "?P ((?e - R) mod ?e)"
    using rotated_run_rot[OF e(1) R less_imp_le[OF k(2)]] by (simp add: v)
  moreover have "(?e - R) mod ?e < ?e" by simp
  ultimately obtain r where "find_index ?P [0..<?e] = Some r"
    using find_index_ex[of "(?e - R) mod ?e" "[0..<?e]" ?P] by auto
  note fi = this
  from find_index_SomeD[OF fi] have r: "r < ?e" and P: "limm_rot ?e v r \<noteq> 0"
      "limm_rot ?e v r AND (limm_rot ?e v r + 1) = 0" by (auto simp: Let_def)
  from and_inc_mask[OF P(2,1)] obtain k' where k': "0 < k'" "k' \<le> 64" "limm_rot ?e v r = mask k'" by blast
  have "k' \<le> ?e"
  proof (rule ccontr)
    assume "\<not> k' \<le> ?e"
    then have "bit (limm_rot ?e v r) ?e" using k' by (simp add: bit_mask64)
    then show False using bit_limm_rot_ge[OF e(1) order_refl] by blast
  qed
  have v': "v = rotated_run ?e ((?e - r) mod ?e) k'"
    by (rule rot_mask_rotated[OF vb e(1) r k'(3,2)])
  have "k' < ?e"
    using rotated_run_ones[OF e(1) R k] v v' k' \<open>k' \<le> ?e\<close> e by metis
  have pat: "v AND limm_mask ?e = v"
    by (rule bit_word_eqI) (use vb e in \<open>auto simp: bit_and_iff bit_limm_mask\<close>)
  have vm: "v AND (if is64 then - 1 else 0xFFFFFFFF) = v"
    using pat by (cases is64) (simp_all add: limm_mask_def)
  have "limm_size v is64 ?e = Some (if is64 then 1 else 0, of_nat ((?e - r) mod ?e), of_nat (k' - 1))"
    unfolding limm_size_def Let_def using vm fi limm_run_mask[of 0 k' ?e] k' \<open>k' \<le> ?e\<close>
    by (simp add: pat limm_rep_full Let_def)
  then show ?thesis using that \<open>k' < ?e\<close> k' v' r by simp
qed

lemma encode_limm_run:
  assumes "v AND (if is64 then - 1 else 0xFFFFFFFF) = rotated_run (dsize is64) R k"
    and "R < dsize is64" "0 < k" "k < dsize is64"
  obtains R' k' where "encode_limm v is64 = Some (if is64 then 1 else 0, of_nat R', of_nat (k' - 1))"
    "R' < dsize is64" "0 < k'" "k' < dsize is64" "rotated_run (dsize is64) R k = rotated_run (dsize is64) R' k'"
proof -
  from limm_size_full[OF refl assms(2-4)] obtain R' k' where
    s: "limm_size (rotated_run (dsize is64) R k) is64 (dsize is64) = Some (if is64 then 1 else 0, of_nat R', of_nat (k' - 1))"
      "R' < dsize is64" "0 < k'" "k' < dsize is64" "rotated_run (dsize is64) R k = rotated_run (dsize is64) R' k'" by blast
  have "limm_size w False 64 = None" for w by (simp add: limm_size_def)
  then have "encode_limm v is64 = Some (if is64 then 1 else 0, of_nat R', of_nat (k' - 1))"
    using s(1) unfolding encode_limm_def Let_def assms(1) by (cases is64) simp_all
  with that s show ?thesis by blast
qed

lemma decode_run:
  assumes "R < dsize is64" "0 < k" "k < dsize is64"
  shows "decode_bit_masks is64 is64 (of_nat R) (of_nat (k - 1)) = Some (rotated_run (dsize is64) R k)"
proof -
  obtain j where j: "k = Suc j" using assms(2) by (cases k) auto
  define len where "len = (if is64 then 6 else 5 :: nat)"
  have lens: "dsize is64 = 2 ^ len" "len < 32" by (auto simp: len_def)
  have small: "unat (take_bit len (of_nat n :: u32)) = n" if "n < dsize is64" for n
    using that lens by (simp add: unsigned_take_bit_eq unsigned_of_nat take_bit_nat_eq_self min_def)
  have "\<not> bit (of_nat j :: u32) 5" if "\<not> is64"
  proof -
    have "j < 2 ^ 5" using assms that j by simp
    then have "unat (take_bit 5 (of_nat j :: u32)) = unat (of_nat j :: u32)"
      by (simp add: unsigned_take_bit_eq unsigned_of_nat take_bit_nat_eq_self)
    then have "take_bit 5 (of_nat j :: u32) = of_nat j" by (simp only: word_unat_eq_iff)
    then show ?thesis using bit_take_bit_iff[of 5 "of_nat j :: u32" 5] by simp
  qed
  then have len: "limm_len is64 (of_nat j) = Some len" by (auto simp: limm_len_def len_def)
  have "j < dsize is64" "j \<noteq> 2 ^ len - 1" using assms(3) lens(1) j by auto
  then have "decode_bit_masks is64 is64 (of_nat R) (of_nat j)
      = Some (horner_sum of_bool 2 (map (\<lambda>i. (i + R) mod 2 ^ len \<le> j) [0..<dsize is64]))"
    using small[of R] small[of j] assms(1) len by (simp add: decode_bit_masks_def Let_def)
  then show ?thesis unfolding j rotated_run_def lens(1) by (simp add: less_Suc_eq_le)
qed

section \<open>The functions\<close>

lemma emits_logical_imm:
  assumes "encode_limm v is64 = Some (if is64 then 1 else 0, immr, imms)" "immr < 64" "imms < 64"
    and "opc = 0 \<or> opc = 1 \<or> opc = 2"
  shows "\<exists>a'. logical_imm a opc rd rn v is64 = (a', True) \<and>
    emits a (LogImm is64 (word_of_int opc) is64 immr imms (regno rn) (regno rd)) a'"
proof -
  have f: "push_bit 16 immr = put 16 6 immr" "push_bit 10 imms = put 10 6 imms"
    using assms(2,3) by (simp_all add: put_small)
  have t: "take_bit 6 immr = immr" "take_bit 6 imms = imms"
    using assms(2,3) by (simp_all add: take_bit_eq_mask less_mask_eq)
  have opc: "word_of_int (push_bit 29 (opc AND 3)) = (push_bit 29 (word_of_int opc) :: u32)"
    using assms(4) by auto
  have "emits a (LogImm is64 (word_of_int opc) is64 immr imms (regno rn) (regno rd))
    (a64_word a ((if is64 then 0x80000000 else 0) OR push_bit 29 (word_of_int opc)
       OR push_bit 23 0x24 OR push_bit 22 (if is64 then 1 else 0) OR put 16 6 immr OR put 10 6 imms
       OR put 5 5 (word_of_int rn) OR put 0 5 (word_of_int rd)))"
  proof -
    from assms(4) consider "opc = 0" | "opc = 1" | "opc = 2" by blast
    then show ?thesis
      by cases (cases is64; simp only: if_True if_False; rule emitsI; simp add: enc_simps t)+
  qed
  then show ?thesis unfolding logical_imm_def assms(1) option.case prod.case opc f reg_field_put by blast
qed

lemma logical_imm_computes:
  assumes "v AND (if is64 then - 1 else 0xFFFFFFFF) = rotated_run (dsize is64) R k"
    and "R < dsize is64" "0 < k" "k < dsize is64" and "regno rd \<noteq> 31"
    and "opc = 0 \<or> opc = 1 \<or> opc = 2"
  shows "\<exists>a'. logical_imm a opc rd rn v is64 = (a', True) \<and>
    computes a a' s (wreg is64 s (regno rd) (log_op (word_of_int opc) (rreg is64 s (regno rn)) v))"
proof -
  from encode_limm_run[OF assms(1-4)] obtain R' k' where
    e: "encode_limm v is64 = Some (if is64 then 1 else 0, of_nat R', of_nat (k' - 1))"
      "R' < dsize is64" "0 < k'" "k' < dsize is64" "rotated_run (dsize is64) R k = rotated_run (dsize is64) R' k'" by blast
  have lt: "(of_nat R' :: u32) < 64" "(of_nat (k' - 1) :: u32) < 64"
    using e(2,4) by (auto simp: word_less_nat_alt unsigned_of_nat take_bit_nat_eq_self split: if_splits)
  from emits_logical_imm[OF e(1) lt assms(6)] obtain a' where
    a': "logical_imm a opc rd rn v is64 = (a', True)"
      "emits a (LogImm is64 (word_of_int opc) is64 (of_nat R') (of_nat (k' - 1)) (regno rn) (regno rd)) a'" by blast
  let ?m = "rotated_run (dsize is64) R k" and ?x = "rreg is64 s (regno rn)"
  have "wreg is64 s (regno rd) (log_op (word_of_int opc) ?x ?m) = wreg is64 s (regno rd) (log_op (word_of_int opc) ?x v)"
  proof (cases is64)
    case False
    have "take_bit 32 ?m = take_bit 32 v"
      unfolding assms(1)[symmetric] using False by (simp add: take_bit_eq_mask mask_numeral and.assoc)
    then have "take_bit 32 (log_op (word_of_int opc) ?x ?m) = take_bit 32 (log_op (word_of_int opc) ?x v)"
      by (simp add: log_op_def)
    from wreg_cong[OF this] False show ?thesis by simp
  qed (use assms(1) in simp)
  moreover have "word_of_int opc \<noteq> (3 :: u32)" using assms(6) by auto
  ultimately have "exec (LogImm is64 (word_of_int opc) is64 (of_nat R') (of_nat (k' - 1)) (regno rn) (regno rd)) s
      = Some (wreg is64 s (regno rd) (log_op (word_of_int opc) ?x v))"
    using assms(5) unfolding exec.simps decode_run[OF e(2-4)] e(5)[symmetric] Let_def option.case
    by (simp only: if_False)
  with a' show ?thesis by (blast intro: computes_emits)
qed


lemma limm_run_values: "limm_run (- 1) 64 0 = 64" "limm_run 0xFF 16 0 = 8"
proof -
  have "mask 64 = (- 1 :: u64)" by (rule bit_word_eqI) (auto simp: bit_mask64)
  then show "limm_run (- 1) 64 0 = 64" using limm_run_mask[of 0 64 64] by simp
  show "limm_run 0xFF 16 0 = 8" using limm_run_mask[of 0 8 16] by (simp add: mask_numeral)
qed

lemma encode_limm_ones: "encode_limm (- 1) True = Some (1, 0, 63)"
  by (simp add: encode_limm_def limm_size_def limm_mask_def limm_rot_def limm_rep_def limm_run_values upt_conv_Cons)

lemma encode_limm_replicated: "encode_limm 0xFF00FF False = Some (0, 0, 7)"
  by (simp add: encode_limm_def limm_size_def limm_mask_def limm_rot_def limm_rep_def limm_run_values upt_conv_Cons)

lemma decode_replicated: "decode_bit_masks False False 0 7 = Some 0xFF \<and> decode_bit_masks True True 0 63 = None"
  by (simp add: decode_bit_masks_def limm_len_def upt_conv_Cons)

section \<open>Properties\<close>

text \<open>
  C35. A bitwise operation with an immediate that is a run of ones rotated in the operand, not empty and
  not the whole operand, is encodable, and the emitted instruction computes the operation with it.
\<close>

theorem logical_imm_correct:
  assumes "v AND (if is64 then - 1 else 0xFFFFFFFF) = rotated_run (dsize is64) R k"
    and "R < dsize is64" "0 < k" "k < dsize is64" and "regno rd \<noteq> 31"
    and "opc = 0 \<or> opc = 1 \<or> opc = 2"
  shows "\<exists>a'. logical_imm a opc rd rn v is64 = (a', True) \<and>
    computes a a' s (wreg is64 s (regno rd) (log_op (word_of_int opc) (rreg is64 s (regno rn)) v))"
  using assms by (rule logical_imm_computes)

theorem logical_imm_correct_witness:
  "\<exists>a'. logical_imm a64_init 0 1 2 0xFF True = (a', True) \<and>
    computes a64_init a' example_state (wreg True example_state 1 2)"
proof -
  have "0xFF AND - 1 = rotated_run (dsize True) 0 8"
    by (simp add: rotated_run_def upt_conv_Cons)
  then show ?thesis
    using logical_imm_correct[of "0xFF" True 0 8 1 0 a64_init 2 example_state]
    by (simp add: regno_def rreg_def example_state_def log_op_def)
qed

end
