(* ===== verification/A64Fix.thy ===== *)
theory A64Fix
  imports A64Sound
begin

text \<open>
  Labels and fixups of the A64 encoder.  \<open>asm_ok\<close> is the invariant of an assembler: word-aligned code,
  bound labels inside it, and pending fixups at disjoint places that hold instructions of their kind
  with an empty displacement field.  Every emitting function keeps it, and from it follows what
  \<open>a64_resolve\<close> does: each fixup whose label is bound and in range becomes an instruction with that
  label as its target, all other bytes stay, and the result tells whether there was one that is not.
\<close>

section \<open>Words in the code\<close>

lemma bit_byte_of: "bit (ucast (x :: u8) :: u32) i \<longleftrightarrow> i < 8 \<and> bit x i"
  using bit_imp_le_length[of x i] by (auto simp: bit_unsigned_iff)

lemma read_le32:
  assumes "unat off + 4 \<le> length code" "take 4 (drop (unat off) code) = le32 w"
  shows "read_word_at code off = w"
proof -
  have n: "code ! (unat off + i) = le32 w ! i" if "i < 4" for i
    using assms that by (metis add.commute add_leD2 nth_drop nth_take)
  have "read_word_at code off = ucast (le32 w ! 0) OR push_bit 8 (ucast (le32 w ! 1))
      OR push_bit 16 (ucast (le32 w ! 2)) OR push_bit 24 (ucast (le32 w ! 3))"
    using n[of 0] n[of 1] n[of 2] n[of 3] by (simp add: read_word_at_def Let_def)
  also have "\<dots> = w"
  proof (rule bit_word_eqI)
    fix i assume "i < LENGTH(32)"
    then have "i < 32" by simp
    then consider "i < 8" | "8 \<le> i" "i < 16" | "16 \<le> i" "i < 24" | "24 \<le> i" "i < 32" by linarith
    then show "bit (ucast (le32 w ! 0) OR push_bit 8 (ucast (le32 w ! 1))
      OR push_bit 16 (ucast (le32 w ! 2)) OR push_bit 24 (ucast (le32 w ! 3)) :: u32) i \<longleftrightarrow> bit w i"
      by cases (auto simp: le32_def bit_or_iff bit_push_bit_iff bit_byte_of bit_unsigned_iff bit_drop_bit_eq bit_ucast_iff)
  qed
  finally show ?thesis .
qed

lemma length_le32 [simp]: "length (le32 w) = 4"
  by (simp add: le32_def)

lemma length_a64_word [simp]: "length (as_code (a64_word a w)) = length (as_code a) + 4"
  by (simp add: a64_word_def)

lemma read_cong:
  "(\<And>i. i < 4 \<Longrightarrow> code ! (unat off + i) = code' ! (unat off + i)) \<Longrightarrow> read_word_at code off = read_word_at code' off"
proof -
  assume a: "\<And>i. i < 4 \<Longrightarrow> code ! (unat off + i) = code' ! (unat off + i)"
  show ?thesis using a[of 0] a[of 1] a[of 2] a[of 3] by (simp add: read_word_at_def Let_def)
qed

lemma read_append: "unat off + 4 \<le> length code \<Longrightarrow> read_word_at (code @ xs) off = read_word_at code off"
  by (rule read_cong) (simp add: nth_append)

lemma read_appended: "unat off = length code \<Longrightarrow> read_word_at (code @ le32 w @ xs) off = w"
  by (rule read_le32) auto

lemma write_word:
  assumes "unat off + 4 \<le> length code"
  shows "length (write_word_at code off w) = length code"
    and "read_word_at (write_word_at code off w) off = w"
    and "j < unat off \<or> unat off + 4 \<le> j \<Longrightarrow> write_word_at code off w ! j = code ! j"
proof -
  show "length (write_word_at code off w) = length code"
    using assms by (simp add: write_word_at_def Let_def)
  show "read_word_at (write_word_at code off w) off = w"
    by (rule read_le32) (use assms in \<open>auto simp: write_word_at_def Let_def\<close>)
  show "write_word_at code off w ! j = code ! j" if "j < unat off \<or> unat off + 4 \<le> j"
    using assms that by (auto simp: write_word_at_def Let_def nth_append min_def)
qed

section \<open>The invariant\<close>

definition fix_size :: "a64_fixup \<Rightarrow> nat" where
  "fix_size f = (if fx_kind f = A64_FIX_ADRP_ADD then 8 else 4)"

definition fix_range :: "a64_fixup \<Rightarrow> nat set" where
  "fix_range f = {unat (fx_at f) ..< unat (fx_at f) + fix_size f}"

text \<open>The instruction words a fixup is recorded for.\<close>

definition branch_word :: "a64_fix_kind \<Rightarrow> int \<Rightarrow> u32 \<Rightarrow> bool" where
  "branch_word k rd w \<longleftrightarrow>
     (case k of
        A64_FIX_B26 \<Rightarrow> w = 0x14000000 \<or> w = 0x94000000
      | A64_FIX_B19 \<Rightarrow> (\<exists>x. w = 0x54000000 OR put 0 4 x) \<or>
          (\<exists>x. w = 0x34000000 OR put 0 5 x \<or> w = 0x35000000 OR put 0 5 x \<or>
               w = 0xB4000000 OR put 0 5 x \<or> w = 0xB5000000 OR put 0 5 x)
      | _ \<Rightarrow> w = 0x90000000 OR RD rd)"

definition fixup_ok :: "u8 list \<Rightarrow> nat \<Rightarrow> a64_fixup \<Rightarrow> bool" where
  "fixup_ok code n f \<longleftrightarrow>
     unat (fx_at f) mod 4 = 0 \<and> unat (fx_at f) + fix_size f \<le> length code \<and>
     0 \<le> fx_label f \<and> fx_label f < int n \<and>
     branch_word (fx_kind f) (fx_rd f) (read_word_at code (fx_at f)) \<and>
     (fx_kind f = A64_FIX_ADRP_ADD \<longrightarrow>
        read_word_at code (fx_at f + 4) = 0x91000000 OR RN (fx_rd f) OR RD (fx_rd f))"

definition labels_ok :: "nat \<Rightarrow> a64_label list \<Rightarrow> bool" where
  "labels_ok n ls \<longleftrightarrow> (\<forall>l\<in>set ls. lb_bound l \<longrightarrow> unat (lb_pos l) \<le> n \<and> unat (lb_pos l) mod 4 = 0)"

definition asm_ok :: "a64_asm \<Rightarrow> bool" where
  "asm_ok a \<longleftrightarrow>
     length (as_code a) mod 4 = 0 \<and> length (as_code a) < 2 ^ 32 \<and>
     labels_ok (length (as_code a)) (as_labels a) \<and>
     (\<forall>f\<in>set (as_fixups a). fixup_ok (as_code a) (length (as_labels a)) f) \<and>
     sorted_wrt (\<lambda>f g. fix_range f \<inter> fix_range g = {}) (as_fixups a)"

text \<open>The labels a client may use.\<close>

abbreviation is_label :: "a64_asm \<Rightarrow> int \<Rightarrow> bool" where
  "is_label a l \<equiv> 0 \<le> l \<and> l < int (length (as_labels a))"

lemma asm_ok_init: "asm_ok a64_init"
  by (simp add: asm_ok_def a64_init_def labels_ok_def)

lemma at_plus4: "unat at + 8 \<le> n \<Longrightarrow> n < 2 ^ 32 \<Longrightarrow> unat (at + 4 :: u32) = unat at + 4"
  by (simp add: unat_word_ariths)

lemma fixup_ok_append:
  assumes "fixup_ok code n f" "length code < 2 ^ 32" "n \<le> m"
  shows "fixup_ok (code @ xs) m f"
proof -
  have "fx_kind f = A64_FIX_ADRP_ADD \<Longrightarrow> unat (fx_at f + 4) + 4 \<le> length code"
    using assms(1,2) at_plus4[of "fx_at f" "length code"] by (auto simp: fixup_ok_def fix_size_def)
  moreover have "unat (fx_at f) + 4 \<le> length code" using assms(1) by (auto simp: fixup_ok_def fix_size_def split: if_splits)
  ultimately show ?thesis using assms(1,3) by (auto simp: fixup_ok_def read_append)
qed

lemma asm_ok_word:
  assumes "asm_ok a" "length (as_code a) + 4 < 2 ^ 32"
  shows "asm_ok (a64_word a w)"
  using assms fixup_ok_append[of "as_code a" _ _ _ "le32 w"]
  by (fastforce simp: asm_ok_def a64_word_def labels_ok_def)

lemma asm_ok_new_label:
  "asm_ok a \<Longrightarrow> asm_ok (fst (a64_new_label a)) \<and> is_label (fst (a64_new_label a)) (snd (a64_new_label a))"
  using fixup_ok_append[of "as_code a" _ _ _ "[]"]
  by (auto simp: asm_ok_def a64_new_label_def labels_ok_def)

lemma asm_ok_bind:
  assumes "asm_ok a"
  shows "asm_ok (a64_bind a l)"
proof -
  have "unat (of_nat (length (as_code a)) :: u32) = length (as_code a)"
    using assms by (simp add: asm_ok_def unsigned_of_nat take_bit_nat_eq_self)
  then show ?thesis
    using assms by (auto simp: asm_ok_def a64_bind_def labels_ok_def dest!: set_update_subset_insert[THEN subsetD])
qed

lemma asm_ok_word_with_fixup:
  assumes ok: "asm_ok a" and len: "length (as_code a) + 4 < 2 ^ 32" and l: "is_label a l"
    and w: "branch_word k rd w" "k \<noteq> A64_FIX_ADRP_ADD"
  shows "asm_ok (word_with_fixup a w k rd l)"
proof -
  let ?at = "of_nat (length (as_code a)) :: u32"
  have at: "unat ?at = length (as_code a)"
    using ok by (simp add: asm_ok_def unsigned_of_nat take_bit_nat_eq_self)
  let ?f = "\<lparr>fx_kind = k, fx_at = ?at, fx_label = l, fx_rd = rd\<rparr>"
  let ?a = "a64_word a w"
  note ok' = asm_ok_word[OF ok len, of w]
  have "fixup_ok (as_code ?a) (length (as_labels ?a)) ?f"
    using ok l w at read_appended[of ?at "as_code a" w "[]"]
    by (auto simp: fixup_ok_def a64_word_def fix_size_def asm_ok_def)
  moreover have "fix_range f \<inter> fix_range ?f = {}" if "f \<in> set (as_fixups a)" for f
    using ok that at by (auto simp: asm_ok_def fixup_ok_def fix_range_def)
  moreover have "as_fixups ?a = as_fixups a" "as_labels ?a = as_labels a" by (simp_all add: a64_word_def)
  ultimately show ?thesis
    using ok' by (auto simp: asm_ok_def word_with_fixup_def add_fixup_at_def Let_def sorted_wrt_append)
qed


lemma as_word [simp]: "as_labels (a64_word a w) = as_labels a" "as_fixups (a64_word a w) = as_fixups a"
  "as_wide_cond (a64_word a w) = as_wide_cond a"
  by (simp_all add: a64_word_def)

lemma as_wwf [simp]: "as_labels (word_with_fixup a w k rd l) = as_labels a"
  "length (as_code (word_with_fixup a w k rd l)) = length (as_code a) + 4"
  by (simp_all add: word_with_fixup_def add_fixup_at_def Let_def)

lemma as_new_label [simp]: "length (as_labels (fst (a64_new_label a))) = Suc (length (as_labels a))"
  "as_code (fst (a64_new_label a)) = as_code a" "snd (a64_new_label a) = int (length (as_labels a))"
  by (simp_all add: a64_new_label_def)

lemma asm_ok_b: "asm_ok a \<Longrightarrow> length (as_code a) + 4 < 2 ^ 32 \<Longrightarrow> is_label a l \<Longrightarrow> asm_ok (a64_b a l)"
  unfolding a64_b_def by (rule asm_ok_word_with_fixup) (auto simp: branch_word_def)

lemma asm_ok_bl: "asm_ok a \<Longrightarrow> length (as_code a) + 4 < 2 ^ 32 \<Longrightarrow> is_label a l \<Longrightarrow> asm_ok (a64_bl a l)"
  unfolding a64_bl_def by (rule asm_ok_word_with_fixup) (auto simp: branch_word_def)

lemma asm_ok_wide:
  assumes "asm_ok a" "length (as_code a) + 8 < 2 ^ 32" "is_label a l" "branch_word A64_FIX_B19 0 w"
  shows "asm_ok (wide_branch_over a w l)"
proof -
  obtain a1 over where n: "a64_new_label a = (a1, over)" by (cases "a64_new_label a") auto
  then have a1: "asm_ok a1" "is_label a1 over" "is_label a1 l" "length (as_code a1) = length (as_code a)"
    using asm_ok_new_label[OF assms(1)] as_new_label[of a] assms(3) by auto
  have "asm_ok (word_with_fixup a1 w A64_FIX_B19 0 over)"
    by (rule asm_ok_word_with_fixup) (use a1 assms in auto)
  then have "asm_ok (a64_b (word_with_fixup a1 w A64_FIX_B19 0 over) l)"
    by (rule asm_ok_b) (use a1 assms in auto)
  then show ?thesis by (simp add: wide_branch_over_def n asm_ok_bind)
qed

lemma b19_words:
  "branch_word A64_FIX_B19 0 (0x54000000 OR word_of_int (c AND 15))"
  "branch_word A64_FIX_B19 0 ((if is64 then 0xB4000000 else 0x34000000) OR RD rt)"
  "branch_word A64_FIX_B19 0 ((if is64 then 0xB5000000 else 0x35000000) OR RD rt)"
proof -
  have "word_of_int (c AND 15) = put 0 4 (word_of_int c)"
    using put_word_of_int[of 4 0 c] by (simp add: and_mask_int)
  then show "branch_word A64_FIX_B19 0 (0x54000000 OR word_of_int (c AND 15))"
    by (auto simp: branch_word_def)
qed (auto simp: branch_word_def reg_field_put)

lemma asm_ok_cond:
  assumes "asm_ok a" "length (as_code a) + 8 < 2 ^ 32" "is_label a l"
  shows "asm_ok (a64_bcond a cond l)" "asm_ok (a64_cbz a rt l is64)" "asm_ok (a64_cbnz a rt l is64)"
  using assms b19_words(2)[of True rt] b19_words(2)[of False rt] b19_words(3)[of True rt] b19_words(3)[of False rt]
  by (auto simp: a64_bcond_def a64_cbz_def a64_cbnz_def intro!: asm_ok_wide asm_ok_word_with_fixup b19_words(1))

lemma asm_ok_adrp:
  "asm_ok a \<Longrightarrow> length (as_code a) + 4 < 2 ^ 32 \<Longrightarrow> is_label a l \<Longrightarrow> asm_ok (a64_adrp_label a rd l)"
  unfolding a64_adrp_label_def by (rule asm_ok_word_with_fixup) (auto simp: branch_word_def)

lemma add_word: "addsub_imm_base True False False OR 0 OR push_bit 10 (0 AND 0xFFF) OR x = (0x91000000 :: u32) OR x"
  by (simp add: addsub_imm_base_def or.assoc[symmetric])

lemma asm_ok_adrp_add:
  assumes ok: "asm_ok a" and len: "length (as_code a) + 8 < 2 ^ 32" and l: "is_label a l"
  shows "asm_ok (a64_adrp_add_label a rd l)"
proof -
  let ?at = "of_nat (length (as_code a)) :: u32"
  have at: "unat ?at = length (as_code a)"
    using ok by (simp add: asm_ok_def unsigned_of_nat take_bit_nat_eq_self)
  let ?f = "\<lparr>fx_kind = A64_FIX_ADRP_ADD, fx_at = ?at, fx_label = l, fx_rd = rd\<rparr>"
  let ?w1 = "0x90000000 OR RD rd :: u32" and ?w2 = "0x91000000 OR RN rd OR RD rd :: u32"
  let ?a = "a64_word (a64_word a ?w1) ?w2"
  have ok': "asm_ok ?a" using ok len by (intro asm_ok_word) auto
  have "unat (?at + 4) = length (as_code a @ le32 ?w1)"
    using at_plus4[of ?at "length (as_code a) + 8"] at len by simp
  from read_appended[OF this, of ?w2 "[]"] have "read_word_at (as_code ?a) (?at + 4) = ?w2"
    by (simp add: a64_word_def)
  moreover have "read_word_at (as_code ?a) ?at = ?w1"
    using read_appended[OF at, of ?w1 "le32 ?w2"] by (simp add: a64_word_def)
  ultimately have "fixup_ok (as_code ?a) (length (as_labels ?a)) ?f"
    using ok l at by (auto simp: fixup_ok_def fix_size_def asm_ok_def branch_word_def)
  moreover have "fix_range f \<inter> fix_range ?f = {}" if "f \<in> set (as_fixups a)" for f
    using ok that at by (auto simp: asm_ok_def fixup_ok_def fix_range_def)
  moreover have "a64_adrp_add_label a rd l = add_fixup_at ?a A64_FIX_ADRP_ADD rd l ?at"
    unfolding a64_adrp_add_label_def a64_add_imm12_def Let_def if_False add_word ..
  ultimately show ?thesis
    using ok' by (auto simp: asm_ok_def add_fixup_at_def sorted_wrt_append)
qed

section \<open>Resolving\<close>

definition fix_target :: "a64_asm \<Rightarrow> a64_fixup \<Rightarrow> int" where
  "fix_target a f = uint (lb_pos (as_labels a ! nat (fx_label f)))"

text \<open>The page of an address, as \<open>adrp\<close> computes it.\<close>

definition page_of :: "int \<Rightarrow> int" where
  "page_of x = x - x mod 4096"

text \<open>A fixup is in range: its label is bound and the displacement fits the field.\<close>

definition in_range :: "a64_asm \<Rightarrow> a64_fixup \<Rightarrow> bool" where
  "in_range a f \<longleftrightarrow>
     lb_bound (as_labels a ! nat (fx_label f)) \<and>
     (let d = fix_target a f - uint (fx_at f);
          p = (page_of (fix_target a f + uint (as_base_off a)) - page_of (uint (fx_at f) + uint (as_base_off a))) div 4096
      in case fx_kind f of
           A64_FIX_B26 \<Rightarrow> - (2 ^ 27) \<le> d \<and> d < 2 ^ 27
         | A64_FIX_B19 \<Rightarrow> - (2 ^ 20) \<le> d \<and> d < 2 ^ 20
         | _ \<Rightarrow> - (2 ^ 20) \<le> p \<and> p < 2 ^ 20)"

text \<open>The address an instruction at address \<open>pc\<close> refers to.\<close>

definition sext :: "nat \<Rightarrow> u32 \<Rightarrow> int" where
  "sext n x = signed_take_bit (n - 1) (uint x)"

definition branch_target :: "a64_inst \<Rightarrow> int \<Rightarrow> int option" where
  "branch_target i pc =
     (case i of
        BranchImm l imm \<Rightarrow> Some (pc + 4 * sext 26 imm)
      | BranchCond imm c \<Rightarrow> Some (pc + 4 * sext 19 imm)
      | CmpBranch sf nz imm rt \<Rightarrow> Some (pc + 4 * sext 19 imm)
      | Adrp lo hi rd \<Rightarrow> Some (page_of pc + 4096 * sext 21 (push_bit 2 hi OR lo))
      | _ \<Rightarrow> None)"

text \<open>An instruction without its displacement.\<close>

definition no_disp :: "a64_inst \<Rightarrow> a64_inst" where
  "no_disp i =
     (case i of
        BranchImm l imm \<Rightarrow> BranchImm l 0
      | BranchCond imm c \<Rightarrow> BranchCond 0 c
      | CmpBranch sf nz imm rt \<Rightarrow> CmpBranch sf nz 0 rt
      | Adrp lo hi rd \<Rightarrow> Adrp 0 0 rd
      | _ \<Rightarrow> i)"

text \<open>What a resolved fixup is: the recorded instruction, now with the label as its target.\<close>

definition resolved :: "a64_asm \<Rightarrow> u8 list \<Rightarrow> a64_fixup \<Rightarrow> bool" where
  "resolved a code f \<longleftrightarrow>
     (\<exists>i0 i. decode (read_word_at (as_code a) (fx_at f)) = Some i0 \<and>
        decode (read_word_at code (fx_at f)) = Some i \<and> no_disp i = no_disp i0 \<and>
        (case fx_kind f of
           A64_FIX_B26 \<Rightarrow> branch_target i (uint (fx_at f)) = Some (fix_target a f)
         | A64_FIX_B19 \<Rightarrow> branch_target i (uint (fx_at f)) = Some (fix_target a f)
         | _ \<Rightarrow> branch_target i (uint (fx_at f) + uint (as_base_off a))
                 = Some (page_of (fix_target a f + uint (as_base_off a))))) \<and>
     (fx_kind f = A64_FIX_ADRP_ADD \<longrightarrow>
        (\<exists>imm. decode (read_word_at code (fx_at f + 4))
                 = Some (AddSubImm True False False False imm (regno (fx_rd f)) (regno (fx_rd f))) \<and>
               uint imm = (fix_target a f + uint (as_base_off a)) mod 4096))"


lemma and_not_page: "(x :: int) AND NOT 0xFFF = page_of x"
proof -
  have m: "(0xFFF :: int) = mask 12" by (simp add: mask_numeral)
  have "x AND NOT 0xFFF = push_bit 12 (drop_bit 12 x)"
    unfolding m by (rule bit_eqI) (auto simp: bit_and_iff bit_not_iff bit_mask_iff bit_push_bit_iff bit_drop_bit_eq)
  also have "\<dots> = x div 4096 * 4096" by (simp add: push_bit_eq_mult drop_bit_eq_div)
  finally show ?thesis by (simp add: page_of_def minus_mod_eq_div_mult)
qed

lemma sext_field:
  assumes "0 < n" "n \<le> 32" "- (2 ^ (n - 1)) \<le> q" "q < 2 ^ (n - 1)"
  shows "sext n (take_bit n (word_of_int q)) = q"
proof -
  have "uint (take_bit n (word_of_int q :: u32)) = take_bit n q"
    using assms(2) by (intro bit_eqI) (auto simp: bit_simps)
  moreover have "signed_take_bit (n - 1) (take_bit n q) = signed_take_bit (n - 1) q"
    using assms(1) by (intro bit_eqI) (auto simp: bit_simps min_def)
  ultimately show ?thesis using assms(3,4) by (simp add: sext_def signed_take_bit_int_eq_self)
qed

lemma adrp_field: "push_bit 2 (take_bit 19 (word_of_int (drop_bit 2 p))) OR take_bit 2 (word_of_int p) = (take_bit 21 (word_of_int p) :: u32)"
proof (rule bit_word_eqI)
  fix i
  show "bit (push_bit 2 (take_bit 19 (word_of_int (drop_bit 2 p))) OR take_bit 2 (word_of_int p) :: u32) i
      \<longleftrightarrow> bit (take_bit 21 (word_of_int p) :: u32) i"
  proof (cases "i < 2")
    case False
    then obtain j where "i = 2 + j" by (metis le_Suc_ex not_less)
    then show ?thesis by (auto simp: bit_simps)
  qed (auto simp: bit_simps)
qed

lemma decode_b26:
  "w = 0x14000000 \<or> w = 0x94000000 \<Longrightarrow> decode w = Some (BranchImm (w = 0x94000000) 0)"
  "w = 0x14000000 \<or> w = 0x94000000 \<Longrightarrow> decode (w OR put 0 26 x) = Some (BranchImm (w = 0x94000000) (take_bit 26 x))"
  by (elim disjE; simp add: enc_simps)+

lemma decode_b19:
  assumes "branch_word A64_FIX_B19 rd w"
  shows "\<exists>i0 i. decode w = Some i0 \<and> decode (w OR put 5 19 x) = Some i \<and> no_disp i = no_disp i0 \<and>
    branch_target i pc = Some (pc + 4 * sext 19 (take_bit 19 x))"
  using assms unfolding branch_word_def a64_fix_kind.case
  by (elim disjE exE; simp add: enc_simps no_disp_def branch_target_def)

lemma decode_adrp_word:
  "decode (0x90000000 OR RD rd) = Some (Adrp 0 0 (regno rd))"
  "decode (0x90000000 OR RD rd OR put 29 2 x OR put 5 19 y) = Some (Adrp (take_bit 2 x) (take_bit 19 y) (regno rd))"
  "decode (0x91000000 OR RN rd OR RD rd OR put 10 12 z) = Some (AddSubImm True False False False (take_bit 12 z) (regno rd) (regno rd))"
  by (simp_all add: enc_simps reg_field_put)

lemma div4: "d mod 4 = 0 \<Longrightarrow> 4 * (d div 4) = (d :: int)"
  using mult_div_mod_eq[of 4 d] by simp

text \<open>What \<open>resolve_fixup\<close> computes for each kind of fixup.\<close>

abbreviation pages :: "a64_asm \<Rightarrow> a64_fixup \<Rightarrow> int" where
  "pages a f \<equiv> (page_of (fix_target a f + uint (as_base_off a)) - page_of (uint (fx_at f) + uint (as_base_off a))) div 4096"

definition adrp_code :: "a64_asm \<Rightarrow> a64_fixup \<Rightarrow> u8 list \<Rightarrow> u8 list" where
  "adrp_code a f code = write_word_at code (fx_at f)
     (read_word_at code (fx_at f) OR put 29 2 (word_of_int (pages a f)) OR put 5 19 (word_of_int (drop_bit 2 (pages a f))))"

definition add_code :: "a64_asm \<Rightarrow> a64_fixup \<Rightarrow> u8 list \<Rightarrow> u8 list" where
  "add_code a f code = write_word_at code (fx_at f + 4)
     (read_word_at code (fx_at f + 4) OR put 10 12 (word_of_int (fix_target a f + uint (as_base_off a))))"

lemma and_m4096: "(x :: int) AND - 4096 = page_of x"
  using and_not_page[of x] by simp

lemma put_woi:
  "word_of_int (push_bit 5 (take_bit 19 x)) = put 5 19 (word_of_int x)"
  "word_of_int (take_bit 26 x) = put 0 26 (word_of_int x)"
  "word_of_int (push_bit 29 (take_bit 2 x)) = put 29 2 (word_of_int x)"
  "push_bit 10 (word_of_int (take_bit 12 x)) = put 10 12 (word_of_int x)"
  using put_word_of_int[of 19 5 x] put_word_of_int[of 26 0 x] put_word_of_int[of 2 29 x] put_word_of_int[of 12 0 x]
  by (simp_all add: put_def)

lemma resolve_fixup_unbound:
  "\<not> lb_bound (as_labels a ! nat (fx_label f)) \<Longrightarrow> resolve_fixup (as_labels a) (as_base_off a) f code = None"
  by (simp add: resolve_fixup_def Let_def)

lemma resolve_fixup_branch:
  fixes a f defines "d \<equiv> fix_target a f - uint (fx_at f)"
  assumes "lb_bound (as_labels a ! nat (fx_label f))" "d mod 4 = 0"
  shows "fx_kind f = A64_FIX_B26 \<Longrightarrow> resolve_fixup (as_labels a) (as_base_off a) f code =
      (if in_range a f then Some (write_word_at code (fx_at f) (read_word_at code (fx_at f) OR put 0 26 (word_of_int (d div 4)))) else None)"
    and "fx_kind f = A64_FIX_B19 \<Longrightarrow> resolve_fixup (as_labels a) (as_base_off a) f code =
      (if in_range a f then Some (write_word_at code (fx_at f) (read_word_at code (fx_at f) OR put 5 19 (word_of_int (d div 4)))) else None)"
proof -
  have "d AND 3 = 0" "drop_bit 2 d = d div 4" using assms(3) by (simp_all add: and_mask_int take_bit_eq_mod drop_bit_eq_div)
  then show "fx_kind f = A64_FIX_B26 \<Longrightarrow> resolve_fixup (as_labels a) (as_base_off a) f code =
      (if in_range a f then Some (write_word_at code (fx_at f) (read_word_at code (fx_at f) OR put 0 26 (word_of_int (d div 4)))) else None)"
    and "fx_kind f = A64_FIX_B19 \<Longrightarrow> resolve_fixup (as_labels a) (as_base_off a) f code =
      (if in_range a f then Some (write_word_at code (fx_at f) (read_word_at code (fx_at f) OR put 5 19 (word_of_int (d div 4)))) else None)"
    using assms(2) put_woi(1,2)[of "d div 4"]
    by (auto simp: resolve_fixup_def in_range_def Let_def fix_target_def and_mask_int d_def)
qed

lemma resolve_fixup_adrp:
  assumes "lb_bound (as_labels a ! nat (fx_label f))"
  shows "fx_kind f = A64_FIX_ADRP \<Longrightarrow> resolve_fixup (as_labels a) (as_base_off a) f code =
      (if in_range a f then Some (adrp_code a f code) else None)"
    and "fx_kind f = A64_FIX_ADRP_ADD \<Longrightarrow> resolve_fixup (as_labels a) (as_base_off a) f code =
      (if in_range a f then Some (add_code a f (adrp_code a f code)) else None)"
proof -
  have p: "drop_bit 12 x = x div 4096" for x :: int by (simp add: drop_bit_eq_div)
  show "fx_kind f = A64_FIX_ADRP \<Longrightarrow> resolve_fixup (as_labels a) (as_base_off a) f code =
      (if in_range a f then Some (adrp_code a f code) else None)"
    and "fx_kind f = A64_FIX_ADRP_ADD \<Longrightarrow> resolve_fixup (as_labels a) (as_base_off a) f code =
      (if in_range a f then Some (add_code a f (adrp_code a f code)) else None)"
    using assms
    by (simp_all add: resolve_fixup_def in_range_def Let_def fix_target_def and_mask_int put_woi and_m4096 p or.assoc
      adrp_code_def add_code_def)
qed

text \<open>A fixup that is in range becomes the instruction with its label as the target.\<close>

definition patched :: "a64_asm \<Rightarrow> a64_fixup \<Rightarrow> u8 list \<Rightarrow> u8 list \<Rightarrow> bool" where
  "patched a f code code' \<longleftrightarrow>
     length code' = length code \<and> (\<forall>j. j \<notin> fix_range f \<longrightarrow> code' ! j = code ! j) \<and> resolved a code' f"

definition recorded :: "a64_asm \<Rightarrow> u8 list \<Rightarrow> a64_fixup \<Rightarrow> bool" where
  "recorded a code f \<longleftrightarrow>
     length code = length (as_code a) \<and> (\<forall>j\<in>fix_range f. code ! j = as_code a ! j)"

lemma fixup_facts:
  assumes "asm_ok a" "f \<in> set (as_fixups a)" "recorded a code f"
  shows "fixup_ok (as_code a) (length (as_labels a)) f" "unat (fx_at f) + 4 \<le> length code"
    "read_word_at code (fx_at f) = read_word_at (as_code a) (fx_at f)"
    "branch_word (fx_kind f) (fx_rd f) (read_word_at code (fx_at f))"
proof -
  show fo: "fixup_ok (as_code a) (length (as_labels a)) f" using assms by (auto simp: asm_ok_def)
  then show "unat (fx_at f) + 4 \<le> length code"
    using assms by (auto simp: fixup_ok_def fix_size_def recorded_def split: if_splits)
  show "read_word_at code (fx_at f) = read_word_at (as_code a) (fx_at f)"
    by (rule read_cong) (use assms in \<open>auto simp: recorded_def fix_range_def fix_size_def\<close>)
  then show "branch_word (fx_kind f) (fx_rd f) (read_word_at code (fx_at f))"
    using fo by (simp add: fixup_ok_def)
qed

lemma displacement_aligned:
  assumes "asm_ok a" "f \<in> set (as_fixups a)" "lb_bound (as_labels a ! nat (fx_label f))"
  shows "(fix_target a f - uint (fx_at f)) mod 4 = 0"
proof -
  let ?l = "as_labels a ! nat (fx_label f)"
  have fo: "fixup_ok (as_code a) (length (as_labels a)) f" using assms by (auto simp: asm_ok_def)
  then have "?l \<in> set (as_labels a)" by (intro nth_mem) (auto simp: fixup_ok_def)
  then have "unat (lb_pos ?l) mod 4 = 0" using assms by (auto simp: asm_ok_def labels_ok_def)
  moreover have "uint w mod 4 = int (unat w mod 4)" for w :: u32 by (simp add: zmod_int)
  ultimately have "uint (lb_pos ?l) mod 4 = 0" "uint (fx_at f) mod 4 = 0" using fo by (simp_all add: fixup_ok_def)
  then show ?thesis by (simp add: fix_target_def mod_diff_eq[symmetric])
qed

lemma patched_branch:
  assumes ok: "asm_ok a" "f \<in> set (as_fixups a)" "recorded a code f" and r: "in_range a f"
    and k: "fx_kind f = A64_FIX_B26 \<or> fx_kind f = A64_FIX_B19"
  shows "\<exists>code'. resolve_fixup (as_labels a) (as_base_off a) f code = Some code' \<and> patched a f code code'"
proof -
  let ?d = "fix_target a f - uint (fx_at f)" and ?at = "fx_at f" and ?w = "read_word_at code (fx_at f)"
  note F = fixup_facts[OF ok]
  have b: "lb_bound (as_labels a ! nat (fx_label f))" using r by (simp add: in_range_def)
  note d4 = displacement_aligned[OF ok(1,2) b]
  note ww = write_word[OF F(2)]
  have out: "j \<notin> fix_range f \<Longrightarrow> write_word_at code ?at x ! j = code ! j" for j x
    by (rule ww(3)) (auto simp: fix_range_def fix_size_def split: if_splits)
  from k show ?thesis
  proof
    assume K: "fx_kind f = A64_FIX_B26"
    have "- (2 ^ 25) \<le> ?d div 4" "?d div 4 < 2 ^ 25" using r K by (auto simp: in_range_def Let_def)
    then have s: "sext 26 (take_bit 26 (word_of_int (?d div 4))) = ?d div 4" by (intro sext_field) auto
    have w': "?w = 0x14000000 \<or> ?w = 0x94000000" using F(4) K by (simp add: branch_word_def)
    have "resolved a (write_word_at code ?at (?w OR put 0 26 (word_of_int (?d div 4)))) f"
      using decode_b26[OF w'] K F(3) ww(2) s div4[OF d4]
      by (simp add: resolved_def no_disp_def branch_target_def)
    then show ?thesis
      using resolve_fixup_branch(1)[OF b d4 K] r ww(1) out by (auto simp: patched_def)
  next
    assume K: "fx_kind f = A64_FIX_B19"
    have "- (2 ^ 18) \<le> ?d div 4" "?d div 4 < 2 ^ 18" using r K by (auto simp: in_range_def Let_def)
    then have s: "sext 19 (take_bit 19 (word_of_int (?d div 4))) = ?d div 4" by (intro sext_field) auto
    obtain i0 i where "decode ?w = Some i0" "decode (?w OR put 5 19 (word_of_int (?d div 4))) = Some i"
      "no_disp i = no_disp i0"
      "branch_target i (uint ?at) = Some (uint ?at + 4 * sext 19 (take_bit 19 (word_of_int (?d div 4))))"
      using decode_b19[OF F(4)[unfolded K]] by blast
    moreover have "uint ?at + 4 * sext 19 (take_bit 19 (word_of_int (?d div 4))) = fix_target a f"
      unfolding s div4[OF d4] by simp
    ultimately have "resolved a (write_word_at code ?at (?w OR put 5 19 (word_of_int (?d div 4)))) f"
      unfolding resolved_def ww(2) F(3)[symmetric] by (simp add: K)
    then show ?thesis
      using resolve_fixup_branch(2)[OF b d4 K] r ww(1) out by (auto simp: patched_def)
  qed
qed

lemma page_diff: "4096 * ((page_of x - page_of y) div 4096) = page_of x - page_of y"
proof -
  have "page_of z = 4096 * (z div 4096)" for z by (simp add: page_of_def minus_mod_eq_mult_div)
  then have "page_of x - page_of y = 4096 * (x div 4096 - y div 4096)" by (simp only: right_diff_distrib)
  then show ?thesis by simp
qed

definition adrp_inst :: "a64_asm \<Rightarrow> a64_fixup \<Rightarrow> a64_inst" where
  "adrp_inst a f =
     Adrp (take_bit 2 (word_of_int (pages a f))) (take_bit 19 (word_of_int (drop_bit 2 (pages a f)))) (regno (fx_rd f))"

lemma adrp_target:
  assumes "in_range a f" "fx_kind f = A64_FIX_ADRP \<or> fx_kind f = A64_FIX_ADRP_ADD"
  shows "branch_target (adrp_inst a f) (uint (fx_at f) + uint (as_base_off a))
      = Some (page_of (fix_target a f + uint (as_base_off a)))"
    and "no_disp (adrp_inst a f) = no_disp (Adrp 0 0 (regno (fx_rd f)))"
proof -
  have "- (2 ^ 20) \<le> pages a f" "pages a f < 2 ^ 20" using assms by (auto simp: in_range_def Let_def)
  then have "sext 21 (take_bit 21 (word_of_int (pages a f))) = pages a f" by (intro sext_field) auto
  then show "branch_target (adrp_inst a f) (uint (fx_at f) + uint (as_base_off a))
      = Some (page_of (fix_target a f + uint (as_base_off a)))"
    using page_diff[of "fix_target a f + uint (as_base_off a)" "uint (fx_at f) + uint (as_base_off a)"]
    by (simp add: branch_target_def adrp_field adrp_inst_def)
qed (simp add: no_disp_def adrp_inst_def)

lemma patched_adrp:
  assumes ok: "asm_ok a" "f \<in> set (as_fixups a)" "recorded a code f" and r: "in_range a f"
    and k: "fx_kind f = A64_FIX_ADRP"
  shows "\<exists>code'. resolve_fixup (as_labels a) (as_base_off a) f code = Some code' \<and> patched a f code code'"
proof -
  note F = fixup_facts[OF ok]
  have w: "read_word_at code (fx_at f) = 0x90000000 OR RD (fx_rd f)" using F(4) k by (simp add: branch_word_def)
  note ww = write_word[OF F(2)]
  have "decode (read_word_at (as_code a) (fx_at f)) = Some (Adrp 0 0 (regno (fx_rd f)))"
    unfolding F(3)[symmetric] w by (rule decode_adrp_word(1))
  moreover have "decode (read_word_at (adrp_code a f code) (fx_at f)) = Some (adrp_inst a f)"
    using ww(2) w decode_adrp_word(2) by (simp add: adrp_code_def adrp_inst_def or.assoc)
  ultimately have "resolved a (adrp_code a f code) f"
    using adrp_target[OF r] k by (simp add: resolved_def)
  moreover have "length (adrp_code a f code) = length code" "j \<notin> fix_range f \<Longrightarrow> adrp_code a f code ! j = code ! j" for j
    using ww(1,3) by (auto simp: adrp_code_def fix_range_def fix_size_def k)
  ultimately show ?thesis
    using resolve_fixup_adrp(1)[of a f code] r k by (auto simp: patched_def in_range_def)
qed

lemma patched_adrp_add:
  assumes ok: "asm_ok a" "f \<in> set (as_fixups a)" "recorded a code f" and r: "in_range a f"
    and k: "fx_kind f = A64_FIX_ADRP_ADD"
  shows "\<exists>code'. resolve_fixup (as_labels a) (as_base_off a) f code = Some code' \<and> patched a f code code'"
proof -
  let ?at = "fx_at f" and ?tv = "fix_target a f + uint (as_base_off a)"
  note F = fixup_facts[OF ok]
  let ?c1 = "adrp_code a f code" and ?c2 = "add_code a f (adrp_code a f code)"
  have n: "unat ?at + 8 \<le> length code" "length code < 2 ^ 32"
    using F(1) k ok(1,3) by (auto simp: fixup_ok_def fix_size_def recorded_def asm_ok_def)
  note at4 = at_plus4[OF n]
  have w: "read_word_at code ?at = 0x90000000 OR RD (fx_rd f)" using F(4) k by (simp add: branch_word_def)
  note w1 = write_word[OF F(2)]
  have l1: "length ?c1 = length code" using w1(1) by (simp add: adrp_code_def)
  have "unat (?at + 4) + 4 \<le> length ?c1" using at4 n l1 by simp
  note w2 = write_word[OF this]
  have "read_word_at ?c2 ?at = read_word_at ?c1 ?at"
    unfolding add_code_def by (rule read_cong) (use w2(3) at4 in auto)
  moreover have r2: "read_word_at ?c1 (?at + 4) = 0x91000000 OR RN (fx_rd f) OR RD (fx_rd f)"
  proof -
    have "read_word_at ?c1 (?at + 4) = read_word_at code (?at + 4)"
      unfolding adrp_code_def by (rule read_cong) (use w1(3) at4 in auto)
    also have "\<dots> = read_word_at (as_code a) (?at + 4)"
      by (rule read_cong) (use ok(3) at4 k in \<open>auto simp: recorded_def fix_range_def fix_size_def\<close>)
    finally show ?thesis using F(1) k by (simp add: fixup_ok_def)
  qed
  moreover have "uint (take_bit 12 (word_of_int ?tv) :: u32) = ?tv mod 4096"
    by (simp only: unsigned_take_bit_eq uint_word_of_int) (simp add: take_bit_eq_mod mod_mod_cancel)
  moreover have "decode (read_word_at (as_code a) ?at) = Some (Adrp 0 0 (regno (fx_rd f)))"
    unfolding F(3)[symmetric] w by (rule decode_adrp_word(1))
  moreover have "decode (read_word_at ?c1 ?at) = Some (adrp_inst a f)"
    using w1(2) w decode_adrp_word(2) by (simp add: adrp_code_def adrp_inst_def or.assoc)
  moreover have "decode (read_word_at ?c2 (?at + 4))
      = Some (AddSubImm True False False False (take_bit 12 (word_of_int ?tv)) (regno (fx_rd f)) (regno (fx_rd f)))"
    using w2(2) r2 decode_adrp_word(3) by (simp add: add_code_def or.assoc)
  ultimately have "resolved a ?c2 f"
    using adrp_target[OF r] k by (simp add: resolved_def)
  moreover have "length ?c2 = length code" using w2(1) l1 by (simp add: add_code_def)
  moreover have "?c2 ! j = code ! j" if "j \<notin> fix_range f" for j
  proof -
    have "j < unat ?at \<or> unat ?at + 8 \<le> j" using that k by (auto simp: fix_range_def fix_size_def)
    then have "?c2 ! j = ?c1 ! j" "?c1 ! j = code ! j"
      using w1(3) w2(3) at4 by (auto simp: adrp_code_def add_code_def)
    then show ?thesis by simp
  qed
  ultimately show ?thesis
    using resolve_fixup_adrp(2)[of a f code] r k by (auto simp: patched_def in_range_def)
qed

lemma resolve_fixup_patched:
  assumes "asm_ok a" "f \<in> set (as_fixups a)" "recorded a code f" "in_range a f"
  shows "\<exists>code'. resolve_fixup (as_labels a) (as_base_off a) f code = Some code' \<and> patched a f code code'"
  using patched_branch[OF assms] patched_adrp[OF assms] patched_adrp_add[OF assms] by (cases "fx_kind f") auto

lemma resolve_fixup_fails:
  assumes "asm_ok a" "f \<in> set (as_fixups a)" "\<not> in_range a f"
  shows "resolve_fixup (as_labels a) (as_base_off a) f code = None"
proof (cases "lb_bound (as_labels a ! nat (fx_label f))")
  case True
  then show ?thesis
    using resolve_fixup_branch[OF True displacement_aligned[OF assms(1,2) True]] resolve_fixup_adrp[OF True] assms(3)
    by (cases "fx_kind f") auto
qed (rule resolve_fixup_unbound)

lemma resolved_cong:
  assumes "asm_ok a" "f \<in> set (as_fixups a)" "\<forall>j\<in>fix_range f. code' ! j = code ! j" "resolved a code f"
  shows "resolved a code' f"
proof -
  have n: "unat (fx_at f) + fix_size f \<le> length (as_code a)" "length (as_code a) < 2 ^ 32"
    using assms by (auto simp: asm_ok_def fixup_ok_def)
  have "read_word_at code' (fx_at f) = read_word_at code (fx_at f)"
    by (rule read_cong) (use assms(3) in \<open>auto simp: fix_range_def fix_size_def\<close>)
  moreover have "read_word_at code' (fx_at f + 4) = read_word_at code (fx_at f + 4)" if "fx_kind f = A64_FIX_ADRP_ADD"
    by (rule read_cong) (use assms(3) that at_plus4[of "fx_at f" "length (as_code a)"] n in \<open>auto simp: fix_range_def fix_size_def\<close>)
  ultimately show ?thesis using assms(4) by (simp add: resolved_def)
qed

text \<open>The state after some of the fixups.\<close>

definition resolved_upto :: "a64_asm \<Rightarrow> a64_fixup list \<Rightarrow> u8 list \<times> int \<Rightarrow> bool" where
  "resolved_upto a fs s \<longleftrightarrow>
     length (fst s) = length (as_code a) \<and>
     (\<forall>f\<in>set fs. in_range a f \<longrightarrow> resolved a (fst s) f) \<and>
     (\<forall>j. (\<forall>f\<in>set fs. in_range a f \<longrightarrow> j \<notin> fix_range f) \<longrightarrow> fst s ! j = as_code a ! j) \<and>
     snd s = (if \<forall>f\<in>set fs. in_range a f then 0 else -1)"

lemma resolve_step_upto:
  assumes ok: "asm_ok a" and fx: "as_fixups a = fs @ f # gs" and u: "resolved_upto a fs s"
  shows "resolved_upto a (fs @ [f]) (resolve_step (as_labels a) (as_base_off a) f s)"
proof -
  obtain code rc where s: "s = (code, rc)" by (cases s)
  have f: "f \<in> set (as_fixups a)" and dj: "\<forall>g\<in>set fs. fix_range g \<inter> fix_range f = {}"
    using ok fx by (auto simp: asm_ok_def sorted_wrt_append)
  have rec: "recorded a code f"
    unfolding recorded_def
  proof (intro conjI ballI)
    fix j assume "j \<in> fix_range f"
    then have "\<forall>g\<in>set fs. in_range a g \<longrightarrow> j \<notin> fix_range g" using dj by blast
    then show "code ! j = as_code a ! j" using u s by (auto simp: resolved_upto_def)
  qed (use u s in \<open>simp add: resolved_upto_def\<close>)
  show ?thesis
  proof (cases "in_range a f")
    case True
    obtain code' where c: "resolve_fixup (as_labels a) (as_base_off a) f code = Some code'" "patched a f code code'"
      using resolve_fixup_patched[OF ok f rec True] by blast
    have "resolved a code' g" if "g \<in> set fs" "in_range a g" for g
      by (rule resolved_cong[OF ok, of g code' code]) (use that fx c(2) dj u s in \<open>auto simp: patched_def resolved_upto_def\<close>)
    then show ?thesis
      using c u s True by (auto simp: resolved_upto_def resolve_step_def patched_def)
  next
    case False
    then show ?thesis
      using resolve_fixup_fails[OF ok f False, of code] u s by (auto simp: resolved_upto_def resolve_step_def)
  qed
qed

lemma resolve_fold_upto:
  assumes "asm_ok a"
  shows "as_fixups a = fs @ gs \<Longrightarrow> resolved_upto a fs s \<Longrightarrow>
    resolved_upto a (fs @ gs) (fold (resolve_step (as_labels a) (as_base_off a)) gs s)"
proof (induction gs arbitrary: fs s)
  case (Cons f gs)
  then show ?case using Cons.IH[of "fs @ [f]"] resolve_step_upto[OF assms Cons.prems] by simp
qed simp

lemma a64_resolve_upto:
  assumes "asm_ok a"
  shows "resolved_upto a (as_fixups a) (as_code (fst (a64_resolve a)), snd (a64_resolve a))"
proof -
  let ?s = "fold (resolve_step (as_labels a) (as_base_off a)) (as_fixups a) (as_code a, 0)"
  have "resolved_upto a (as_fixups a) ?s"
    using resolve_fold_upto[OF assms, of "[]" "as_fixups a" "(as_code a, 0)"] by (simp add: resolved_upto_def)
  then show ?thesis by (cases ?s) (simp add: a64_resolve_def)
qed

section \<open>Clients of the encoder\<close>

text \<open>
  The calls a client may make: labels come from \<open>a64_new_label\<close> and are bound once, and the code stays
  below \<open>2^32\<close> bytes, the range of its 32-bit positions.
\<close>

inductive emit_step :: "a64_asm \<Rightarrow> a64_asm \<Rightarrow> bool" where
  base: "emit_step a (a64_set_base a off)"
| mode: "emit_step a (a64_set_wide_cond a on)"
| label: "emit_step a (fst (a64_new_label a))"
| bind: "is_label a l \<Longrightarrow> \<not> lb_bound (as_labels a ! nat l) \<Longrightarrow> emit_step a (a64_bind a l)"
| word: "length (as_code a) + 4 < 2 ^ 32 \<Longrightarrow> emit_step a (a64_word a w)"
| b: "length (as_code a) + 4 < 2 ^ 32 \<Longrightarrow> is_label a l \<Longrightarrow> emit_step a (a64_b a l)"
| bl: "length (as_code a) + 4 < 2 ^ 32 \<Longrightarrow> is_label a l \<Longrightarrow> emit_step a (a64_bl a l)"
| bcond: "length (as_code a) + 8 < 2 ^ 32 \<Longrightarrow> is_label a l \<Longrightarrow> emit_step a (a64_bcond a c l)"
| cbz: "length (as_code a) + 8 < 2 ^ 32 \<Longrightarrow> is_label a l \<Longrightarrow> emit_step a (a64_cbz a rt l is64)"
| cbnz: "length (as_code a) + 8 < 2 ^ 32 \<Longrightarrow> is_label a l \<Longrightarrow> emit_step a (a64_cbnz a rt l is64)"
| adrp: "length (as_code a) + 4 < 2 ^ 32 \<Longrightarrow> is_label a l \<Longrightarrow> emit_step a (a64_adrp_label a rd l)"
| adrp_add: "length (as_code a) + 8 < 2 ^ 32 \<Longrightarrow> is_label a l \<Longrightarrow> emit_step a (a64_adrp_add_label a rd l)"

text \<open>The assemblers a client can reach.\<close>

inductive built :: "a64_asm \<Rightarrow> bool" where
  init: "built a64_init"
| step: "built a \<Longrightarrow> emit_step a b \<Longrightarrow> built b"
| resolve: "built a \<Longrightarrow> built (fst (a64_resolve a))"

lemma asm_ok_update:
  "asm_ok (a64_set_base a off) = asm_ok a" "asm_ok (a64_set_wide_cond a on) = asm_ok a"
  by (simp_all add: asm_ok_def a64_set_base_def a64_set_wide_cond_def)

lemma asm_ok_step: "emit_step a b \<Longrightarrow> asm_ok a \<Longrightarrow> asm_ok b"
  by (induction rule: emit_step.induct)
    (simp_all add: asm_ok_update asm_ok_new_label asm_ok_bind asm_ok_word asm_ok_b asm_ok_bl asm_ok_cond
      asm_ok_adrp asm_ok_adrp_add)

lemma resolve_fields [simp]: "as_fixups (fst (a64_resolve a)) = []" "as_labels (fst (a64_resolve a)) = as_labels a"
  by (simp_all add: a64_resolve_def split: prod.split)

lemma asm_ok_resolve: "asm_ok a \<Longrightarrow> asm_ok (fst (a64_resolve a))"
  using a64_resolve_upto[of a] by (auto simp: resolved_upto_def asm_ok_def)

lemma built_asm_ok: "built a \<Longrightarrow> asm_ok a"
  by (induction rule: built.induct) (simp_all add: asm_ok_init asm_ok_step asm_ok_resolve)

text \<open>Later calls only append: what is emitted, recorded and bound stays.\<close>

definition extends :: "a64_asm \<Rightarrow> a64_asm \<Rightarrow> bool" where
  "extends a b \<longleftrightarrow>
     (\<exists>xs. as_code b = as_code a @ xs) \<and> (\<exists>fs. as_fixups b = as_fixups a @ fs) \<and>
     length (as_labels a) \<le> length (as_labels b) \<and>
     (\<forall>i<length (as_labels a). lb_bound (as_labels a ! i) \<longrightarrow> as_labels b ! i = as_labels a ! i)"

lemma extends_refl [simp]: "extends a a"
  by (simp add: extends_def)

lemma extends_trans [trans]: "extends a b \<Longrightarrow> extends b c \<Longrightarrow> extends a c"
  unfolding extends_def by (metis append.assoc order_less_le_trans order_trans)

lemma extends_word: "extends a (a64_word a w)"
  by (auto simp: extends_def a64_word_def)

lemma extends_word_with_fixup: "extends a (word_with_fixup a w k rd l)"
  by (auto simp: extends_def word_with_fixup_def add_fixup_at_def a64_word_def Let_def)

lemma extends_new_label: "extends a (fst (a64_new_label a))"
  by (auto simp: extends_def a64_new_label_def nth_append)

lemma extends_bind: "\<not> lb_bound (as_labels a ! nat l) \<Longrightarrow> extends a (a64_bind a l)"
  by (auto simp: extends_def a64_bind_def) (metis nth_list_update_neq)

lemma extends_wide: "extends a (wide_branch_over a w l)"
proof -
  let ?a1 = "fst (a64_new_label a)" and ?o = "snd (a64_new_label a)"
  let ?a3 = "a64_b (word_with_fixup ?a1 w A64_FIX_B19 0 ?o) l"
  have "extends a ?a1" by (rule extends_new_label)
  also have "extends \<dots> (word_with_fixup ?a1 w A64_FIX_B19 0 ?o)" by (rule extends_word_with_fixup)
  also have "extends \<dots> ?a3" unfolding a64_b_def by (rule extends_word_with_fixup)
  also have "extends \<dots> (a64_bind ?a3 ?o)"
    by (rule extends_bind) (simp add: a64_b_def a64_new_label_def)
  finally show ?thesis by (cases "a64_new_label a") (simp add: wide_branch_over_def)
qed

lemma extends_adrp_add: "extends a (a64_adrp_add_label a rd l)"
  by (auto simp: extends_def a64_adrp_add_label_def a64_add_imm12_def add_fixup_at_def a64_word_def Let_def)

lemma extends_update: "extends a (a64_set_base a off)" "extends a (a64_set_wide_cond a on)"
  by (simp_all add: extends_def a64_set_base_def a64_set_wide_cond_def)

lemma extends_step: "emit_step a b \<Longrightarrow> extends a b"
  by (induction rule: emit_step.induct)
    (simp_all add: extends_update extends_word extends_new_label extends_bind extends_adrp_add a64_b_def a64_bl_def
      a64_bcond_def a64_cbz_def a64_cbnz_def a64_adrp_label_def extends_word_with_fixup extends_wide)

lemma extends_steps: "emit_step\<^sup>*\<^sup>* a b \<Longrightarrow> extends a b"
  by (induction rule: rtranclp_induct) (auto intro: extends_trans extends_step)

lemma built_steps: "emit_step\<^sup>*\<^sup>* a b \<Longrightarrow> built a \<Longrightarrow> built b"
  by (induction rule: rtranclp_induct) (auto intro: built.step)

section \<open>Properties\<close>

text \<open>
  C36. Whatever calls built an assembler, its code is a whole number of words, every bound label is a
  word boundary inside the code, and every pending fixup names an allocated label and sits on an
  instruction of its own kind with an empty displacement, apart from every other fixup.
\<close>

theorem a64_invariant:
  assumes "built a"
  shows "length (as_code a) mod 4 = 0 \<and>
    (\<forall>l\<in>set (as_labels a). lb_bound l \<longrightarrow> unat (lb_pos l) \<le> length (as_code a) \<and> unat (lb_pos l) mod 4 = 0) \<and>
    (\<forall>f\<in>set (as_fixups a). fixup_ok (as_code a) (length (as_labels a)) f) \<and>
    sorted_wrt (\<lambda>f g. fix_range f \<inter> fix_range g = {}) (as_fixups a)"
  using built_asm_ok[OF assms] by (simp add: asm_ok_def labels_ok_def)

text \<open>A loop: a label, a branch back to it, and a wide conditional branch to it.\<close>

definition loop_asm :: a64_asm where
  "loop_asm = a64_cbz (a64_set_wide_cond (a64_b (a64_bind (fst (a64_new_label a64_init)) 0) 0) 1) 3 0 True"

lemmas loop_simps = loop_asm_def a64_cbz_def a64_set_wide_cond_def a64_b_def a64_bind_def a64_new_label_def a64_init_def
  word_with_fixup_def add_fixup_at_def a64_word_def wide_branch_over_def Let_def

lemma loop_built: "built loop_asm"
  unfolding loop_asm_def
  by (intro built.step[OF _ emit_step.cbz] built.step[OF _ emit_step.mode] built.step[OF _ emit_step.b]
      built.step[OF _ emit_step.bind] built.step[OF _ emit_step.label] built.init) (simp_all add: loop_simps le32_def)

theorem a64_invariant_witness: "length (as_code loop_asm) mod 4 = 0 \<and> length (as_fixups loop_asm) = 3"
  using a64_invariant[OF loop_built] by (simp add: loop_simps)

text \<open>
  C37. \<open>a64_resolve\<close> returns 0 exactly if every pending fixup's label is bound and in range of its
  instruction, and \<open>-1\<close> otherwise.  Each fixup in range becomes the instruction it was recorded for with
  its label as the target (for an \<open>adrp\<close>/\<open>add\<close> pair, the page and the offset in the page); no other byte
  changes, the labels stay, and no fixup is left.
\<close>

theorem a64_resolve_correct:
  assumes "built a" "a64_resolve a = (a', rc)"
  shows "rc = (if \<forall>f\<in>set (as_fixups a). in_range a f then 0 else -1) \<and>
    (\<forall>f\<in>set (as_fixups a). in_range a f \<longrightarrow> resolved a (as_code a') f) \<and>
    (\<forall>j. (\<forall>f\<in>set (as_fixups a). in_range a f \<longrightarrow> j \<notin> fix_range f) \<longrightarrow> as_code a' ! j = as_code a ! j) \<and>
    length (as_code a') = length (as_code a) \<and> as_labels a' = as_labels a \<and> as_fixups a' = []"
  using a64_resolve_upto[OF built_asm_ok[OF assms(1)]] resolve_fields[of a] assms(2)
  by (simp add: resolved_upto_def)

theorem a64_resolve_correct_witness:
  "snd (a64_resolve loop_asm) = 0 \<and> length (as_code (fst (a64_resolve loop_asm))) = 12"
  using a64_resolve_correct[OF loop_built, of "fst (a64_resolve loop_asm)" "snd (a64_resolve loop_asm)"]
  by (simp add: loop_simps in_range_def fix_target_def)

end
