(* ===== verification/A64Flow.thy ===== *)
theory A64Flow
  imports A64Fix A64Exec
begin

text \<open>
  What the resolved branches do.  A conditional branch of the encoder, in its short form or in the long
  form that jumps over an unconditional one, goes to its label exactly if its condition holds, whatever
  is emitted after it.
\<close>

section \<open>Branch instructions\<close>

definition is_branch :: "a64_inst \<Rightarrow> bool" where
  "is_branch i = (case i of BranchImm l imm \<Rightarrow> True | BranchCond imm c \<Rightarrow> True | CmpBranch sf nz imm rt \<Rightarrow> True | _ \<Rightarrow> False)"

definition taken :: "a64_inst \<Rightarrow> a64_state \<Rightarrow> bool" where
  "taken i s =
     (case i of BranchCond imm c \<Rightarrow> cond_holds c s | CmpBranch sf nz imm rt \<Rightarrow> (rreg sf s rt = 0) \<noteq> nz | _ \<Rightarrow> True)"

text \<open>One branch of the code at \<open>pc\<close>: to its target when it is taken, else to the next instruction.\<close>

definition jump :: "u8 list \<Rightarrow> a64_state \<Rightarrow> int \<Rightarrow> int \<Rightarrow> bool" where
  "jump code s pc pc' \<longleftrightarrow>
     0 \<le> pc \<and> pc + 4 \<le> int (length code) \<and>
     (\<exists>i. decode (read_word_at code (word_of_int pc)) = Some i \<and> is_branch i \<and>
        (if taken i s then branch_target i pc = Some pc' else pc' = pc + 4))"

lemma jump_deterministic: "jump code s pc p \<Longrightarrow> jump code s pc q \<Longrightarrow> p = q"
  by (auto simp: jump_def split: if_splits)

lemma no_disp_branch: "no_disp i = no_disp j \<Longrightarrow> is_branch i = is_branch j \<and> taken i s = taken j s"
  by (cases i; cases j) (auto simp: no_disp_def is_branch_def taken_def)

section \<open>Recorded branches\<close>

definition label_pos :: "a64_asm \<Rightarrow> int \<Rightarrow> int" where
  "label_pos a l = uint (lb_pos (as_labels a ! nat l))"

lemma extends_jump:
  assumes ok: "asm_ok a" and len: "length (as_code a) + 4 < 2 ^ 32" and w: "decode w = Some i" "is_branch i"
    and k: "k = A64_FIX_B26 \<or> k = A64_FIX_B19"
    and b: "extends (word_with_fixup a w k rd l) b" "built b" and r: "a64_resolve b = (r, 0)"
  shows "jump (as_code r) s (int (length (as_code a)))
    (if taken i s then label_pos b l else int (length (as_code a)) + 4)"
proof -
  let ?n = "length (as_code a)" and ?at = "of_nat (length (as_code a)) :: u32"
  let ?f = "\<lparr>fx_kind = k, fx_at = ?at, fx_label = l, fx_rd = rd\<rparr>"
  have at: "unat ?at = ?n" using len by (simp add: unsigned_of_nat take_bit_nat_eq_self)
  then have uat: "uint ?at = int ?n" by (simp only: uint_nat)
  obtain xs fs where x: "as_code b = as_code a @ le32 w @ xs" "as_fixups b = as_fixups a @ ?f # fs"
    using b(1) by (auto simp: extends_def word_with_fixup_def add_fixup_at_def a64_word_def Let_def)
  have "\<forall>f\<in>set (as_fixups b). in_range b f" "\<forall>f\<in>set (as_fixups b). in_range b f \<longrightarrow> resolved b (as_code r) f"
    "length (as_code r) = length (as_code b)"
    using a64_resolve_upto[OF built_asm_ok[OF b(2)]] r by (auto simp: resolved_upto_def split: if_splits)
  then have "resolved b (as_code r) ?f" "length (as_code r) = length (as_code b)" using x(2) by auto
  moreover have "read_word_at (as_code b) ?at = w" using read_appended[OF at] x(1) by simp
  ultimately obtain j where j: "decode (read_word_at (as_code r) ?at) = Some j" "no_disp j = no_disp i"
    "branch_target j (int ?n) = Some (label_pos b l)" and lr: "length (as_code r) = length (as_code b)"
    using w k uat by (auto simp: resolved_def fix_target_def label_pos_def)
  then show ?thesis
    using no_disp_branch[OF j(2), of s] w x(1) by (auto simp: jump_def)
qed

text \<open>The long form: the inverted branch over a \<open>b\<close>.\<close>

lemma extends_wide_jump:
  assumes ok: "asm_ok a" and len: "length (as_code a) + 8 < 2 ^ 32" and l: "is_label a l"
    and w: "decode w = Some i" "is_branch i" and w': "branch_word A64_FIX_B19 0 w"
    and b: "extends (wide_branch_over a w l) b" "built b" and r: "a64_resolve b = (r, 0)"
  shows "(jump (as_code r) s)\<^sup>+\<^sup>+ (int (length (as_code a)))
    (if taken i s then int (length (as_code a)) + 8 else label_pos b l)"
proof -
  let ?n = "length (as_code a)" and ?o = "int (length (as_labels a))"
  let ?a1 = "fst (a64_new_label a)"
  let ?a2 = "word_with_fixup ?a1 w A64_FIX_B19 0 ?o"
  let ?a3 = "a64_b ?a2 l"
  have wide: "wide_branch_over a w l = a64_bind ?a3 ?o"
    by (simp add: wide_branch_over_def a64_new_label_def)
  have "\<not> lb_bound (as_labels ?a3 ! nat ?o)" by (simp add: a64_b_def a64_new_label_def)
  then have e3: "extends ?a3 b" using extends_bind[of ?a3 ?o] extends_trans b(1) unfolding wide by blast
  then have e2: "extends ?a2 b" unfolding a64_b_def using extends_trans extends_word_with_fixup by blast
  have a1: "asm_ok ?a1" using asm_ok_new_label[OF ok] by simp
  have j1: "jump (as_code r) s (int ?n) (if taken i s then label_pos b ?o else int ?n + 4)"
    using extends_jump[OF a1 _ w _ e2 b(2) r, of s] len unfolding as_new_label by simp
  have n: "length (as_code ?a3) = ?n + 8" by (simp add: a64_b_def)
  have lab: "as_labels (a64_bind ?a3 ?o) ! length (as_labels a) = \<lparr>lb_pos = of_nat (?n + 8), lb_bound = True\<rparr>"
    using n by (simp add: a64_bind_def a64_b_def a64_new_label_def)
  have "\<forall>j<length (as_labels (a64_bind ?a3 ?o)). lb_bound (as_labels (a64_bind ?a3 ?o) ! j) \<longrightarrow>
      as_labels b ! j = as_labels (a64_bind ?a3 ?o) ! j"
    using b(1) unfolding wide extends_def by (elim conjE)
  moreover have "length (as_labels a) < length (as_labels (a64_bind ?a3 ?o))"
    by (simp add: a64_bind_def a64_b_def)
  moreover have "lb_bound (as_labels (a64_bind ?a3 ?o) ! length (as_labels a))" unfolding lab by simp
  ultimately have "as_labels b ! length (as_labels a) = as_labels (a64_bind ?a3 ?o) ! length (as_labels a)" by blast
  moreover have "uint (of_nat (?n + 8) :: u32) = int (?n + 8)"
    unfolding unsigned_of_nat using len by (simp add: take_bit_nat_eq_self)
  ultimately have over: "label_pos b ?o = int ?n + 8"
    unfolding lab label_pos_def nat_int by simp
  show ?thesis
  proof (cases "taken i s")
    case True
    then show ?thesis using j1 over by auto
  next
    case False
    have a2: "asm_ok ?a2"
      by (rule asm_ok_word_with_fixup) (use a1 len w' in auto)
    have "decode 0x14000000 = Some (BranchImm False 0)" using decode_b26(1)[of "0x14000000"] by simp
    moreover have "is_branch (BranchImm False 0)" "taken (BranchImm False 0) s" by (simp_all add: is_branch_def taken_def)
    ultimately have "jump (as_code r) s (int ?n + 4) (label_pos b l)"
      using extends_jump[OF a2 _ _ _ _ _ b(2) r, of "0x14000000" "BranchImm False 0" A64_FIX_B26 0 l s] e3 len
      by (simp add: a64_b_def add.commute)
    then show ?thesis using j1 False by (simp add: tranclp.intros)
  qed
qed

section \<open>Conditional branches\<close>

lemma decode_cond:
  assumes "0 \<le> c" "c < 16"
  shows "decode (0x54000000 OR word_of_int (c AND 15)) = Some (BranchCond 0 (word_of_int c))"
proof -
  have "word_of_int (c AND 15) = put 0 4 (word_of_int c)"
    using put_word_of_int[of 4 0 c] by (simp add: and_mask_int)
  moreover have "take_bit 4 (word_of_int c :: u32) = word_of_int c"
  proof -
    have "take_bit 4 (word_of_int c :: u32) = word_of_int (take_bit 4 c)"
      by (rule bit_word_eqI) (auto simp: bit_simps)
    also have "take_bit 4 c = c" using assms by (simp add: take_bit_int_eq_self)
    finally show ?thesis .
  qed
  ultimately show ?thesis by (simp add: enc_simps)
qed

lemma decode_cmp:
  "decode ((if is64 then 0xB4000000 else 0x34000000) OR RD rt) = Some (CmpBranch is64 False 0 (regno rt))"
  "decode ((if is64 then 0xB5000000 else 0x35000000) OR RD rt) = Some (CmpBranch is64 True 0 (regno rt))"
  by (cases is64; simp add: enc_simps reg_field_put)+

lemma cond_flip:
  assumes "0 \<le> c" "c < 14"
  shows "0 \<le> c XOR 1" "c XOR 1 < 16" "cond_holds (word_of_int (c XOR 1)) s \<longleftrightarrow> \<not> cond_holds (word_of_int c) s"
proof -
  have "c = 0 \<or> c = 1 \<or> c = 2 \<or> c = 3 \<or> c = 4 \<or> c = 5 \<or> c = 6 \<or> c = 7 \<or> c = 8 \<or> c = 9 \<or> c = 10 \<or> c = 11 \<or> c = 12 \<or> c = 13"
    using assms by presburger
  then have m: "c \<in> {0, 1, 2, 3, 4, 5, 6, 7, 8, 9, 10, 11, 12, 13}" by simp
  from m show "0 \<le> c XOR 1" by auto
  from m show "c XOR 1 < 16" by auto
  from m show "cond_holds (word_of_int (c XOR 1)) s \<longleftrightarrow> \<not> cond_holds (word_of_int c) s"
    by (elim insertE emptyE; simp add: cond_holds_def Let_def)
qed

text \<open>A conditional branch of the encoder, and when it is to be taken.\<close>

inductive cond_branch :: "a64_state \<Rightarrow> a64_asm \<Rightarrow> int \<Rightarrow> a64_asm \<Rightarrow> bool \<Rightarrow> bool" for s a l where
  bcond: "0 \<le> c \<Longrightarrow> c < 14 \<Longrightarrow> cond_branch s a l (a64_bcond a c l) (cond_holds (word_of_int c) s)"
| cbz: "cond_branch s a l (a64_cbz a rt l is64) (rreg is64 s (regno rt) = 0)"
| cbnz: "cond_branch s a l (a64_cbnz a rt l is64) (rreg is64 s (regno rt) \<noteq> 0)"

text \<open>Each is one word, or its inversion over a \<open>b\<close>.\<close>

lemma cond_branch_words:
  assumes "cond_branch s a l a' t"
  obtains w i w' i' where
    "a' = (if as_wide_cond a then wide_branch_over a w' l else word_with_fixup a w A64_FIX_B19 0 l)"
    "decode w = Some i" "is_branch i" "taken i s = t"
    "decode w' = Some i'" "is_branch i'" "taken i' s = (\<not> t)" "branch_word A64_FIX_B19 0 w'"
  using assms
proof (cases rule: cond_branch.cases)
  case (bcond c)
  then show ?thesis
    using cond_flip[OF bcond(3,4)] decode_cond[of c] decode_cond[of "c XOR 1"] b19_words(1)[of "c XOR 1"]
    by (intro that[of "0x54000000 OR word_of_int ((c XOR 1) AND 15)" "0x54000000 OR word_of_int (c AND 15)"
          "BranchCond 0 (word_of_int c)" "BranchCond 0 (word_of_int (c XOR 1))"])
      (simp_all add: a64_bcond_def is_branch_def taken_def)
next
  case (cbz rt is64)
  show ?thesis
    by (rule that[of "(if is64 then 0xB5000000 else 0x35000000) OR RD rt" "(if is64 then 0xB4000000 else 0x34000000) OR RD rt"
          "CmpBranch is64 False 0 (regno rt)" "CmpBranch is64 True 0 (regno rt)"])
      (simp_all only: cbz a64_cbz_def decode_cmp b19_words, simp_all add: is_branch_def taken_def)
next
  case (cbnz rt is64)
  show ?thesis
    by (rule that[of "(if is64 then 0xB4000000 else 0x34000000) OR RD rt" "(if is64 then 0xB5000000 else 0x35000000) OR RD rt"
          "CmpBranch is64 True 0 (regno rt)" "CmpBranch is64 False 0 (regno rt)"])
      (simp_all only: cbnz a64_cbnz_def decode_cmp b19_words, simp_all add: is_branch_def taken_def)
qed

text \<open>
  \<open>A64_AL\<close> (14) has no inverse: the long form of \<open>b.al\<close> starts with condition 15, which always holds too,
  so it always skips the branch to the label.
\<close>

lemma wide_bcond_al:
  assumes "as_wide_cond a"
  shows "a64_bcond a 14 l = wide_branch_over a 0x5400000F l \<and>
    decode 0x5400000F = Some (BranchCond 0 15) \<and> taken (BranchCond 0 15) s"
proof (intro conjI)
  show "a64_bcond a 14 l = wide_branch_over a 0x5400000F l" using assms by (simp add: a64_bcond_def)
  show "decode 0x5400000F = Some (BranchCond 0 15)" by code_simp
  show "taken (BranchCond 0 15) s" by (simp add: taken_def cond_holds_def Let_def)
qed

text \<open>
  C38. A conditional branch works the same in its short and its long form: once everything is emitted and
  \<open>a64_resolve\<close> has succeeded, control at it reaches its label if the condition (of \<open>b.cond\<close> with one of the
  fourteen conditions from \<open>A64_EQ\<close> to \<open>A64_LE\<close>, \<open>cbz\<close> or \<open>cbnz\<close>) holds, and the instruction after the
  branch if not.  \<open>A64_AL\<close> is excluded: its long form never branches to the label (see \<open>wide_bcond_al\<close>).
\<close>

theorem cond_branch_correct:
  assumes "built a" "length (as_code a) + 8 < 2 ^ 32" "is_label a l"
    and "cond_branch s a l a' t"
    and "emit_step\<^sup>*\<^sup>* a' b" "a64_resolve b = (r, 0)"
  shows "(jump (as_code r) s)\<^sup>+\<^sup>+ (int (length (as_code a)))
    (if t then label_pos b l else int (length (as_code a')))"
proof -
  have len: "length (as_code a) < 4294967288" using assms(2) by simp
  have "emit_step a a'"
    using assms(4)
    by (rule cond_branch.cases) (simp_all add: emit_step.bcond emit_step.cbz emit_step.cbnz assms(3) len)
  then have b: "built b" using built_steps[OF assms(5)] built.step[OF assms(1)] by blast
  note e = extends_steps[OF assms(5)]
  obtain w i w' i' where *:
    "a' = (if as_wide_cond a then wide_branch_over a w' l else word_with_fixup a w A64_FIX_B19 0 l)"
    "decode w = Some i" "is_branch i" "taken i s = t"
    "decode w' = Some i'" "is_branch i'" "taken i' s = (\<not> t)" "branch_word A64_FIX_B19 0 w'"
    using cond_branch_words[OF assms(4)] .
  show ?thesis
  proof (cases "as_wide_cond a")
    case True
    then have "length (as_code a') = length (as_code a) + 8"
      using *(1) by (simp add: wide_branch_over_def a64_bind_def a64_b_def split: prod.split) 
        (metis as_new_label(2) fst_conv)
    then show ?thesis
      using extends_wide_jump[OF built_asm_ok[OF assms(1)] assms(2,3) *(5,6,8) _ b assms(6), of s] e True *(1,7)
      by (auto split: if_splits)
  next
    case False
    then show ?thesis
      using extends_jump[OF built_asm_ok[OF assms(1)] _ *(2,3) _ _ b assms(6), of A64_FIX_B19 0 l s] e *(1,4) assms(2)
      by (auto split: if_splits)
  qed
qed

definition example_flags :: "u64 \<Rightarrow> a64_state" where
  "example_flags x = \<lparr>xregs = (\<lambda>r. x), flag_n = False, flag_z = False, flag_c = False, flag_v = False\<rparr>"

theorem cond_branch_correct_witness:
  "(jump (as_code (fst (a64_resolve loop_asm))) (example_flags 0))\<^sup>+\<^sup>+ 4 0 \<and>
   (jump (as_code (fst (a64_resolve loop_asm))) (example_flags 1))\<^sup>+\<^sup>+ 4 12"
proof -
  let ?a = "a64_set_wide_cond (a64_b (a64_bind (fst (a64_new_label a64_init)) 0) 0) 1"
  have b: "built ?a"
    by (intro built.step[OF _ emit_step.mode] built.step[OF _ emit_step.b] built.step[OF _ emit_step.bind]
        built.step[OF _ emit_step.label] built.init) (simp_all add: loop_simps)
  have r: "a64_resolve loop_asm = (fst (a64_resolve loop_asm), 0)"
    using a64_resolve_upto[OF built_asm_ok[OF loop_built]]
    by (intro prod_eqI) (simp_all add: resolved_upto_def loop_simps in_range_def fix_target_def)
  have c: "cond_branch s ?a 0 loop_asm (rreg True s (regno 3) = 0)" for s
    unfolding loop_asm_def by (rule cond_branch.cbz)
  have s: "length (as_code ?a) = 4" "length (as_code loop_asm) = 12" "label_pos loop_asm 0 = 0" "is_label ?a 0"
    by (simp_all add: loop_simps label_pos_def)
  show ?thesis
    using cond_branch_correct[OF b _ s(4) c rtranclp.rtrancl_refl r, of "example_flags 0"]
      cond_branch_correct[OF b _ s(4) c rtranclp.rtrancl_refl r, of "example_flags 1"]
    by (simp add: s rreg_def example_flags_def regno_def)
qed

end
