(* ===== verification/RtMemory.thy ===== *)
theory RtMemory
  imports Prelude
begin

text \<open>
  The address space of a compiled program and the block routines of its runtime library
  (\<open>runtime/string.c\<close>): bytes at 64-bit addresses, the 8-byte words the runtime's structs are made of,
  \<open>memcpy\<close> and \<open>memset\<close>, and what each of them leaves alone.
\<close>

type_synonym mem = "u64 \<Rightarrow> u8"

section \<open>Words in memory\<close>

definition load64 :: "mem \<Rightarrow> u64 \<Rightarrow> u64" where
  "load64 m a = foldr (\<lambda>i w. ucast (m (a + of_nat i)) OR push_bit 8 w) [0..<8] 0"

definition store64 :: "u64 \<Rightarrow> u64 \<Rightarrow> mem \<Rightarrow> mem" where
  "store64 a v m = (\<lambda>x. if x - a < 8 then ucast (drop_bit (8 * unat (x - a)) v) else m x)"

text \<open>Two memories agree on a set of addresses.\<close>

definition same_on :: "nat set \<Rightarrow> mem \<Rightarrow> mem \<Rightarrow> bool" where
  "same_on S m m' \<longleftrightarrow> (\<forall>x. unat x \<in> S \<longrightarrow> m' x = m x)"

lemma same_on_refl [simp]: "same_on S m m"
  by (simp add: same_on_def)

lemma same_on_trans: "same_on S m1 m2 \<Longrightarrow> same_on S m2 m3 \<Longrightarrow> same_on S m1 m3"
  by (simp add: same_on_def)

lemma same_on_mono: "same_on S m m' \<Longrightarrow> T \<subseteq> S \<Longrightarrow> same_on T m m'"
  by (auto simp: same_on_def)

lemma unat_bound: "unat (x :: u64) < 2 ^ 64"
proof -
  have "unat x < 2 ^ LENGTH(64)" by (rule unsigned_less)
  then show ?thesis by simp
qed

lemma unat_plus: "unat a + n < 2 ^ 64 \<Longrightarrow> unat ((a :: u64) + of_nat n) = unat a + n"
  by (simp add: unat_word_ariths unsigned_of_nat take_bit_nat_eq_self)

lemma unat_step: "(i :: u64) < n \<Longrightarrow> unat (i + 1) = unat i + 1"
proof -
  assume "i < n"
  moreover have "unat n < 2 ^ LENGTH(64)" by (rule unsigned_less)
  ultimately have "unat i + 1 < 2 ^ 64" by (simp add: word_less_nat_alt)
  then show ?thesis using unat_plus[of i 1] by simp
qed

lemma offset_less:
  fixes x a :: u64
  assumes "unat a + unat n \<le> 2 ^ 64"
  shows "x - a < n \<longleftrightarrow> unat a \<le> unat x \<and> unat x < unat a + unat n"
proof (cases "a \<le> x")
  case True
  then show ?thesis by (auto simp: word_less_nat_alt unat_sub word_le_nat_alt)
next
  case False
  then have "unat (x - a) = unat x + 2 ^ 64 - unat a"
    by (simp add: unat_sub_if' word_le_nat_alt)
  then show ?thesis using assms False by (auto simp: word_less_nat_alt word_le_nat_alt)
qed

lemma store64_same: "unat a + 8 \<le> 2 ^ 64 \<Longrightarrow> S \<inter> {unat a ..< unat a + 8} = {} \<Longrightarrow> same_on S m (store64 a v m)"
  using offset_less[of a 8] by (auto simp: same_on_def store64_def)

lemma bit_of_byte: "bit (ucast (x :: u8) :: u64) i \<longleftrightarrow> i < 8 \<and> bit x i"
  using bit_imp_le_length[of x i] by (auto simp: bit_unsigned_iff)

lemma load64_store64 [simp]: "load64 (store64 a v m) a = v"
proof (rule bit_word_eqI)
  have b: "store64 a v m (a + of_nat i) = ucast (drop_bit (8 * i) v)" if "i < 8" for i
  proof -
    have "unat (of_nat i :: u64) = i" using that by (simp add: unsigned_of_nat take_bit_nat_eq_self)
    then show ?thesis using that by (simp add: store64_def word_less_nat_alt)
  qed
  fix j assume "j < LENGTH(64)"
  then have "j < 64" by simp
  then consider "j < 8" | "8 \<le> j" "j < 16" | "16 \<le> j" "j < 24" | "24 \<le> j" "j < 32" | "32 \<le> j" "j < 40"
    | "40 \<le> j" "j < 48" | "48 \<le> j" "j < 56" | "56 \<le> j" "j < 64" by linarith
  then show "bit (load64 (store64 a v m) a) j \<longleftrightarrow> bit v j"
    using b[of 0] b[of 1] b[of 2] b[of 3] b[of 4] b[of 5] b[of 6] b[of 7]
    by cases (auto simp: load64_def upt_conv_Cons bit_or_iff bit_push_bit_iff bit_of_byte bit_ucast_iff bit_drop_bit_eq)
qed

lemma load64_cong:
  assumes "same_on {unat a ..< unat a + 8} m m'" "unat a + 8 \<le> 2 ^ 64"
  shows "load64 m' a = load64 m a"
proof -
  have "m' (a + of_nat i) = m (a + of_nat i)" if "i < 8" for i
    using assms that unat_plus[of a i] by (simp add: same_on_def)
  from this[of 0] this[of 1] this[of 2] this[of 3] this[of 4] this[of 5] this[of 6] this[of 7]
  show ?thesis by (simp add: load64_def upt_conv_Cons)
qed

section \<open>Block routines\<close>

text \<open>The loops count \<open>i\<close> up to \<open>n\<close>; \<open>char\<close> values are bytes.\<close>

function memcpy_loop :: "u64 \<Rightarrow> u64 \<Rightarrow> u64 \<Rightarrow> u64 \<Rightarrow> mem \<Rightarrow> mem" where
  "memcpy_loop d s n i m = (if i < n then memcpy_loop d s n (i + 1) (m(d + i := m (s + i))) else m)"
  by pat_completeness auto
termination
  by (relation "measure (\<lambda>(d, s, n, i, m). unat n - unat i)")
    (auto simp: unat_step, simp add: word_less_nat_alt)

function memset_loop :: "u64 \<Rightarrow> u8 \<Rightarrow> u64 \<Rightarrow> u64 \<Rightarrow> mem \<Rightarrow> mem" where
  "memset_loop d b n i m = (if i < n then memset_loop d b n (i + 1) (m(d + i := b)) else m)"
  by pat_completeness auto
termination
  by (relation "measure (\<lambda>(d, b, n, i, m). unat n - unat i)")
    (auto simp: unat_step, simp add: word_less_nat_alt)

definition memcpy :: "u64 \<Rightarrow> u64 \<Rightarrow> u64 \<Rightarrow> mem \<Rightarrow> mem" where
  "memcpy dst src n m = memcpy_loop dst src n 0 m"

definition memset :: "u64 \<Rightarrow> int \<Rightarrow> u64 \<Rightarrow> mem \<Rightarrow> mem" where
  "memset dst c n m = memset_loop dst (word_of_int c) n 0 m"

declare memcpy_loop.simps [simp del] memset_loop.simps [simp del]

text \<open>The offset of an address in a block that does not wrap.\<close>

lemma memset_loop_effect:
  "memset_loop d b n i m = (\<lambda>x. if i \<le> x - d \<and> x - d < n then b else m x)"
proof (induction d b n i m rule: memset_loop.induct)
  case (1 d b n i m)
  show ?case
  proof (cases "i < n")
    case True
    then have "unat (i + 1) = unat i + 1" by (rule unat_step)
    then have split: "i \<le> y \<longleftrightarrow> y = i \<or> i + 1 \<le> y" for y
      by (auto simp: word_le_nat_alt word_unat_eq_iff)
    have "x - d = i \<longleftrightarrow> x = d + i" for x by (auto simp: algebra_simps)
    with split show ?thesis
      by (subst memset_loop.simps) (auto simp only: True if_True 1(1)[OF True] fun_eq_iff fun_upd_apply add_diff_cancel_left' split: if_splits)
  qed (subst memset_loop.simps, auto simp: fun_eq_iff dest: le_less_trans)
qed

lemma memset_effect:
  assumes "unat d + unat n \<le> 2 ^ 64"
  shows "memset d c n m x = (if unat d \<le> unat x \<and> unat x < unat d + unat n then word_of_int c else m x)"
  by (simp add: memset_def memset_loop_effect offset_less[OF assms])

text \<open>Copying between blocks that do not overlap.\<close>

lemma memcpy_loop_effect:
  assumes "unat d + unat n \<le> 2 ^ 64" "unat s + unat n \<le> 2 ^ 64"
    and "{unat d ..< unat d + unat n} \<inter> {unat s ..< unat s + unat n} = {}"
  shows "memcpy_loop d s n i m = (\<lambda>x. if i \<le> x - d \<and> x - d < n then m (s + (x - d)) else m x)"
  using assms
proof (induction d s n i m rule: memcpy_loop.induct)
  case (1 d s n i m)
  show ?case
  proof (cases "i < n")
    case True
    then have "unat (i + 1) = unat i + 1" by (rule unat_step)
    then have split: "i \<le> y \<longleftrightarrow> y = i \<or> i + 1 \<le> y" for y
      by (auto simp: word_le_nat_alt word_unat_eq_iff)
    have "s + y \<noteq> d + i" if "y < n" for y
    proof
      assume "s + y = d + i"
      moreover have "unat (s + y) = unat s + unat y" "unat (d + i) = unat d + unat i"
        using 1(2,3) that True by (auto simp: unat_word_ariths word_less_nat_alt)
      ultimately have "unat d + unat i \<in> {unat d ..< unat d + unat n} \<inter> {unat s ..< unat s + unat n}"
        using that True by (auto simp: word_less_nat_alt)
      then show False using 1(4) by blast
    qed
    moreover have "x - d = i \<longleftrightarrow> x = d + i" for x by (auto simp: algebra_simps)
    ultimately show ?thesis using split True
      by (subst memcpy_loop.simps) (auto simp only: True if_True 1(1)[OF True 1(2-4)] fun_eq_iff fun_upd_apply add_diff_cancel_left' split: if_splits)
  qed (subst memcpy_loop.simps, auto simp: fun_eq_iff dest: le_less_trans)
qed

lemma memcpy_effect:
  assumes "unat d + unat n \<le> 2 ^ 64" "unat s + unat n \<le> 2 ^ 64"
    and "{unat d ..< unat d + unat n} \<inter> {unat s ..< unat s + unat n} = {}"
  shows "memcpy d s n m x = (if unat d \<le> unat x \<and> unat x < unat d + unat n then m (s + (x - d)) else m x)"
  unfolding memcpy_def memcpy_loop_effect[OF assms] by (simp add: offset_less[OF assms(1)])

end
