(* ===== verification/Malloc.thy ===== *)
theory Malloc
  imports RtMemory
begin

text \<open>
  The heap of compiled programs (\<open>runtime/malloc.c\<close>): a first-fit free list of chunks, sorted by address,
  whose headers live in the memory they manage, grown by anonymous mappings and coalesced on \<open>free\<close>.
  The shadow memory of the address sanitizer (\<open>runtime/sanitizer.c\<close>), which every call updates, is in
  the same address space.

  The kernel is a parameter: \<open>sys k call\<close> is the result of the \<open>mmap\<close> system call in kernel state \<open>k\<close>
  and the next kernel state.  A pointer to a pointer into the list (\<open>prev\<close> in the source) is the address of
  the chunk whose \<open>next_free\<close> it points to, or 0 for \<open>&freelist_head\<close>.
\<close>

section \<open>State\<close>

datatype (plugins only: code) mmap_call = MapAnon u64 | MapFixed u64 u64

record 'k rt =
  mem_of :: mem
  freelist_head :: u64
  g_asan_inited :: int
  kernel :: 'k

type_synonym 'k sys = "'k \<Rightarrow> mmap_call \<Rightarrow> u64 \<times> 'k"

abbreviation upd :: "(mem \<Rightarrow> mem) \<Rightarrow> 'k rt \<Rightarrow> 'k rt" where
  "upd f s \<equiv> s\<lparr>mem_of := f (mem_of s)\<rparr>"

text \<open>The fields of a \<open>struct chunk\<close>.\<close>

definition c_size :: "mem \<Rightarrow> u64 \<Rightarrow> u64" where "c_size m c = load64 m c"
definition c_user_size :: "mem \<Rightarrow> u64 \<Rightarrow> u64" where "c_user_size m c = load64 m (c + 8)"
definition c_next_free :: "mem \<Rightarrow> u64 \<Rightarrow> u64" where "c_next_free m c = load64 m (c + 16)"
definition c_state :: "mem \<Rightarrow> u64 \<Rightarrow> u64" where "c_state m c = load64 m (c + 24)"

definition set_size :: "u64 \<Rightarrow> u64 \<Rightarrow> mem \<Rightarrow> mem" where "set_size c v = store64 c v"
definition set_user_size :: "u64 \<Rightarrow> u64 \<Rightarrow> mem \<Rightarrow> mem" where "set_user_size c v = store64 (c + 8) v"
definition set_next_free :: "u64 \<Rightarrow> u64 \<Rightarrow> mem \<Rightarrow> mem" where "set_next_free c v = store64 (c + 16) v"
definition set_state :: "u64 \<Rightarrow> u64 \<Rightarrow> mem \<Rightarrow> mem" where "set_state c v = store64 (c + 24) v"

section \<open>System calls and shadow memory\<close>

text \<open>A mapping that succeeds consists of zero bytes.\<close>

definition zero_pages :: "u64 \<Rightarrow> u64 \<Rightarrow> mem \<Rightarrow> mem" where
  "zero_pages p n m = (\<lambda>x. if x - p < n then 0 else m x)"

definition map_anon :: "'k sys \<Rightarrow> u64 \<Rightarrow> 'k rt \<Rightarrow> u64 \<times> 'k rt" where
  "map_anon sys n s =
     (case sys (kernel s) (MapAnon n) of (p, k) \<Rightarrow>
        if sint p < 0 then (0, s\<lparr>kernel := k\<rparr>)
        else (p, s\<lparr>kernel := k, mem_of := zero_pages p n (mem_of s)\<rparr>))"

definition map_fixed :: "'k sys \<Rightarrow> u64 \<Rightarrow> u64 \<Rightarrow> 'k rt \<Rightarrow> u64 \<times> 'k rt" where
  "map_fixed sys a n s =
     (case sys (kernel s) (MapFixed a n) of (p, k) \<Rightarrow>
        (p, if sint p < 0 then s\<lparr>kernel := k\<rparr> else s\<lparr>kernel := k, mem_of := zero_pages p n (mem_of s)\<rparr>))"

definition asan_init :: "'k sys \<Rightarrow> 'k rt \<Rightarrow> 'k rt" where
  "asan_init sys s =
     (if g_asan_inited s \<noteq> 0 then s
      else
        let s = s\<lparr>g_asan_inited := 1\<rparr>;
            (p, s) = map_fixed sys 0x100000000000 0x100000000000 s;
            (p, s) = (if sint p < 0 then map_fixed sys 0x100000000000 0x10000000000 s else (p, s))
        in if p \<noteq> 0x100000000000 then s\<lparr>g_asan_inited := -1\<rparr> else s)"

function fill_bytes :: "u64 \<Rightarrow> u64 \<Rightarrow> u8 \<Rightarrow> mem \<Rightarrow> mem" where
  "fill_bytes s e b m = (if s < e then fill_bytes (s + 1) e b (m(s := b)) else m)"
  by pat_completeness auto
termination
  by (relation "measure (\<lambda>(s, e, b, m). unat e - unat s)") (auto simp: unat_step, simp add: word_less_nat_alt)

declare fill_bytes.simps [simp del]

definition asan_poison :: "'k sys \<Rightarrow> u64 \<Rightarrow> u64 \<Rightarrow> 'k rt \<Rightarrow> 'k rt" where
  "asan_poison sys addr sz s =
     (let s = (if g_asan_inited s = 0 then asan_init sys s else s) in
      if g_asan_inited s \<noteq> 1 then s
      else if sz = 0 \<or> addr = 0 then s
      else upd (fill_bytes (drop_bit 3 addr + 0x100000000000) (drop_bit 3 (addr + sz + 7) + 0x100000000000) 0xFF) s)"

definition asan_unpoison :: "'k sys \<Rightarrow> u64 \<Rightarrow> u64 \<Rightarrow> 'k rt \<Rightarrow> 'k rt" where
  "asan_unpoison sys addr sz s =
     (let s = (if g_asan_inited s = 0 then asan_init sys s else s) in
      if g_asan_inited s \<noteq> 1 then s
      else if sz = 0 \<or> addr = 0 then s
      else
        let shadow_end = drop_bit 3 (addr + sz) + 0x100000000000;
            s = upd (fill_bytes (drop_bit 3 addr + 0x100000000000) shadow_end 0) s;
            rem = (addr + sz) AND 7
        in if rem > 0 then upd (\<lambda>m. m(shadow_end := ucast rem)) s else s)"

section \<open>The free list\<close>

definition align16 :: "u64 \<Rightarrow> u64" where
  "align16 n = (if n > - 16 then - 16 else (n + 15) AND NOT 15)"

definition chunks_adjacent :: "mem \<Rightarrow> u64 \<Rightarrow> u64 \<Rightarrow> bool" where
  "chunks_adjacent m a b \<longleftrightarrow> a + 32 + c_size m a = b"

text \<open>The loop that finds the place of \<open>c\<close> in the list, and the one that finds a chunk of \<open>n\<close> bytes.\<close>

partial_function (option) address_walk :: "mem \<Rightarrow> u64 \<Rightarrow> u64 \<Rightarrow> u64 \<Rightarrow> (u64 \<times> u64) option" where
  "address_walk m c left n =
     (if n \<noteq> 0 \<and> n < c then address_walk m c n (c_next_free m n) else Some (left, n))"

partial_function (option) first_fit :: "mem \<Rightarrow> u64 \<Rightarrow> u64 \<Rightarrow> u64 \<Rightarrow> (u64 \<times> u64) option" where
  "first_fit m n left c =
     (if c \<noteq> 0 \<and> \<not> c_size m c \<ge> n then first_fit m n c (c_next_free m c) else Some (left, c))"

definition set_link :: "u64 \<Rightarrow> u64 \<Rightarrow> 'k rt \<Rightarrow> 'k rt" where
  "set_link left v s = (if left = 0 then s\<lparr>freelist_head := v\<rparr> else upd (set_next_free left v) s)"

text \<open>\<open>a\<close> takes in the chunk \<open>b\<close> that follows it in memory and in the list.\<close>

definition absorb :: "u64 \<Rightarrow> u64 \<Rightarrow> mem \<Rightarrow> mem" where
  "absorb a b m =
     (let m = set_size a (c_size m a + 32 + c_size m b) m;
          m = set_next_free a (c_next_free m b) m
      in set_state b 0 m)"

definition coalesce :: "u64 \<Rightarrow> u64 \<Rightarrow> 'k rt \<Rightarrow> 'k rt" where
  "coalesce a b s = (if chunks_adjacent (mem_of s) a b then upd (absorb a b) s else s)"

definition heap_grow :: "'k sys \<Rightarrow> u64 \<Rightarrow> 'k rt \<Rightarrow> 'k rt option" where
  "heap_grow sys need s =
     (let extra = 32 + 64 in
      if need > - 1 - extra then Some s
      else
        let region = (need + extra + 4095) AND NOT 4095;
            region = (if region < 1048576 then 1048576 else region);
            (p, s) = map_anon sys region s
        in if p = 0 then Some s
        else
          let s = asan_unpoison sys p region s; c = p;
              s = upd (set_state c 1 \<circ> set_user_size c 0 \<circ> set_size c (region - 32)) s
          in do {
            (left, n) \<leftarrow> address_walk (mem_of s) c 0 (freelist_head s);
            let s = set_link left c (upd (set_next_free c n) s);
            Some (if n \<noteq> 0 then coalesce c n s else s)
          })"

section \<open>Allocation\<close>

definition already_free :: "mem \<Rightarrow> u64 \<Rightarrow> bool" where
  "already_free m c \<longleftrightarrow> c_state m c = 1"

text \<open>Taking the chunk \<open>c\<close> after \<open>left\<close> off the list, or its first \<open>n\<close> bytes if the rest can be a chunk.\<close>

definition carve :: "u64 \<Rightarrow> u64 \<Rightarrow> u64 \<Rightarrow> 'k rt \<Rightarrow> 'k rt" where
  "carve n left c s =
     (if c_size (mem_of s) c \<ge> n + 32 + 16 then
        let rest = c + 32 + n;
            s = upd (\<lambda>m. set_next_free rest (c_next_free m c)
                  (set_state rest 1 (set_user_size rest 0 (set_size rest (c_size m c - n - 32) m)))) s
        in upd (set_size c n) (set_link left rest s)
      else set_link left (c_next_free (mem_of s) c) s)"

definition malloc :: "'k sys \<Rightarrow> u64 \<Rightarrow> 'k rt \<Rightarrow> (u64 \<times> 'k rt) option" where
  "malloc sys orig_n s =
     (let n = align16 (if orig_n = 0 then 1 else orig_n) in do {
        s \<leftarrow> (if freelist_head s = 0 then heap_grow sys n s else Some s);
        (left, c) \<leftarrow> first_fit (mem_of s) n 0 (freelist_head s);
        (left, c, s) \<leftarrow>
          (if c = 0 then do {
             s \<leftarrow> heap_grow sys n s;
             (left, c) \<leftarrow> first_fit (mem_of s) n 0 (freelist_head s);
             Some (left, c, s)
           } else Some (left, c, s));
        if c = 0 then Some (0, s)
        else
          let s = carve n left c s;
              s = upd (set_user_size c orig_n \<circ> set_state c 0 \<circ> set_next_free c 0) s;
              ret = c + 32;
              s = asan_unpoison sys ret n s
          in Some (ret, upd (memset ret 0 n) s)
      })"

definition free :: "'k sys \<Rightarrow> u64 \<Rightarrow> 'k rt \<Rightarrow> 'k rt option" where
  "free sys p s =
     (if p = 0 then Some s
      else
        let c = p - 32 in
        if already_free (mem_of s) c then Some s
        else
          let s = asan_poison sys p (c_size (mem_of s) c) s in do {
            (left, n) \<leftarrow> address_walk (mem_of s) c 0 (freelist_head s);
            let s = set_link left c (upd (set_next_free c n \<circ> set_state c 1) s);
            let s = (if n \<noteq> 0 then coalesce c n s else s);
            Some (if left \<noteq> 0 then coalesce left c s else s)
          })"

definition calloc :: "'k sys \<Rightarrow> u64 \<Rightarrow> u64 \<Rightarrow> 'k rt \<Rightarrow> (u64 \<times> 'k rt) option" where
  "calloc sys n m s =
     (if m \<noteq> 0 \<and> n > (- 1) div m then Some (0, s)
      else
        let total = n * m in do {
          (p, s) \<leftarrow> malloc sys total s;
          if p = 0 then Some (0, s) else Some (p, upd (memset p 0 total) s)
        })"

definition realloc :: "'k sys \<Rightarrow> u64 \<Rightarrow> u64 \<Rightarrow> 'k rt \<Rightarrow> (u64 \<times> 'k rt) option" where
  "realloc sys p n s =
     (if p = 0 then malloc sys n s
      else if n = 0 then map_option (Pair 0) (free sys p s)
      else
        let c = p - 32 in
        if c_size (mem_of s) c \<ge> n then
          Some (p, asan_unpoison sys p n (upd (set_user_size c n) s))
        else do {
          (q, s) \<leftarrow> malloc sys n s;
          if q = 0 then Some (0, s)
          else
            let copy = c_user_size (mem_of s) c;
                copy = (if copy = 0 \<or> copy > c_size (mem_of s) c then c_size (mem_of s) c else copy);
                copy = (if copy > n then n else copy);
                s = upd (memcpy q p copy) s
            in do { s \<leftarrow> free sys p s; Some (q, s) }
        })"

end
