(* ===== verification/MallocInv.thy ===== *)
theory MallocInv
  imports Malloc
begin

text \<open>
  The heap of \<open>runtime/malloc.c\<close> keeps its invariant: the chunks on the free list and the allocated ones
  tile the memory obtained from the kernel, the list is sorted and holds exactly the chunks marked free.
  Each step on the list (inserting, merging, taking or cutting a chunk) keeps it and leaves the allocated
  blocks untouched; so do the kernel calls and the writes to the shadow memory.
\<close>

section \<open>Headers\<close>

definition hdr :: "u64 \<Rightarrow> nat set" where
  "hdr c = {unat c ..< unat c + 32}"

definition headers :: "u64 set \<Rightarrow> bool" where
  "headers D \<longleftrightarrow> (\<forall>c\<in>D. unat c + 32 \<le> 2 ^ 64) \<and> (\<forall>c\<in>D. \<forall>d\<in>D. c \<noteq> d \<longrightarrow> hdr c \<inter> hdr d = {})"

lemmas getters = c_size_def c_user_size_def c_next_free_def c_state_def
lemmas setters = set_size_def set_user_size_def set_next_free_def set_state_def

lemma field_addr: "unat c + 32 \<le> 2 ^ 64 \<Longrightarrow> k < 32 \<Longrightarrow> unat ((c :: u64) + of_nat k) = unat c + k"
  by (rule unat_plus) simp

lemma field_addrs:
  assumes "unat (c :: u64) + 32 \<le> 2 ^ 64"
  shows "unat (c + 8) = unat c + 8" "unat (c + 16) = unat c + 16" "unat (c + 24) = unat c + 24"
  using field_addr[OF assms, of 8] field_addr[OF assms, of 16] field_addr[OF assms, of 24] by simp_all

lemma fields_same:
  assumes "same_on (hdr c) m m'" "unat c + 32 \<le> 2 ^ 64"
  shows "c_size m' c = c_size m c" "c_user_size m' c = c_user_size m c"
    "c_next_free m' c = c_next_free m c" "c_state m' c = c_state m c"
  using assms(2) field_addrs[OF assms(2)]
  by (auto simp: getters hdr_def intro!: load64_cong same_on_mono[OF assms(1)])

lemma setter_same:
  assumes "unat c + 32 \<le> 2 ^ 64" "S \<inter> hdr c = {}"
  shows "same_on S m (set_size c v m)" "same_on S m (set_user_size c v m)"
    "same_on S m (set_next_free c v m)" "same_on S m (set_state c v m)"
  unfolding setters
  by (rule store64_same; use assms field_addrs[OF assms(1)] in \<open>force simp: hdr_def\<close>)+

lemma own_fields:
  assumes "unat c + 32 \<le> 2 ^ 64"
  shows "c_size (set_size c v m) c = v" "c_size (set_user_size c v m) c = c_size m c"
    "c_size (set_next_free c v m) c = c_size m c" "c_size (set_state c v m) c = c_size m c"
    "c_next_free (set_size c v m) c = c_next_free m c" "c_next_free (set_user_size c v m) c = c_next_free m c"
    "c_next_free (set_next_free c v m) c = v" "c_next_free (set_state c v m) c = c_next_free m c"
    "c_state (set_size c v m) c = c_state m c" "c_state (set_user_size c v m) c = c_state m c"
    "c_state (set_next_free c v m) c = c_state m c" "c_state (set_state c v m) c = v"
    "c_user_size (set_size c v m) c = c_user_size m c" "c_user_size (set_user_size c v m) c = v"
    "c_user_size (set_next_free c v m) c = c_user_size m c" "c_user_size (set_state c v m) c = c_user_size m c"
  using assms field_addrs[OF assms]
  by (auto simp: getters setters intro!: load64_cong store64_same)

text \<open>Reading any header of a set after writing a field of one of them.\<close>

lemma fields_upd:
  assumes "headers D" "c \<in> D" "d \<in> D"
  shows "c_size (set_size c v m) d = (if d = c then v else c_size m d)"
    "c_size (set_user_size c v m) d = c_size m d" "c_size (set_next_free c v m) d = c_size m d"
    "c_size (set_state c v m) d = c_size m d"
    "c_next_free (set_size c v m) d = c_next_free m d" "c_next_free (set_user_size c v m) d = c_next_free m d"
    "c_next_free (set_next_free c v m) d = (if d = c then v else c_next_free m d)"
    "c_next_free (set_state c v m) d = c_next_free m d"
    "c_state (set_size c v m) d = c_state m d" "c_state (set_user_size c v m) d = c_state m d"
    "c_state (set_next_free c v m) d = c_state m d"
    "c_state (set_state c v m) d = (if d = c then v else c_state m d)"
    "c_user_size (set_size c v m) d = c_user_size m d"
    "c_user_size (set_user_size c v m) d = (if d = c then v else c_user_size m d)"
    "c_user_size (set_next_free c v m) d = c_user_size m d" "c_user_size (set_state c v m) d = c_user_size m d"
proof -
  have n: "unat c + 32 \<le> 2 ^ 64" "unat d + 32 \<le> 2 ^ 64" using assms by (auto simp: headers_def)
  have dj: "d \<noteq> c \<Longrightarrow> hdr d \<inter> hdr c = {}" using assms by (auto simp: headers_def)
  note other = fields_same[OF setter_same(1)[OF n(1) dj] n(2)] fields_same[OF setter_same(2)[OF n(1) dj] n(2)]
    fields_same[OF setter_same(3)[OF n(1) dj] n(2)] fields_same[OF setter_same(4)[OF n(1) dj] n(2)]
  show "c_size (set_size c v m) d = (if d = c then v else c_size m d)"
    "c_size (set_user_size c v m) d = c_size m d" "c_size (set_next_free c v m) d = c_size m d"
    "c_size (set_state c v m) d = c_size m d"
    "c_next_free (set_size c v m) d = c_next_free m d" "c_next_free (set_user_size c v m) d = c_next_free m d"
    "c_next_free (set_next_free c v m) d = (if d = c then v else c_next_free m d)"
    "c_next_free (set_state c v m) d = c_next_free m d"
    "c_state (set_size c v m) d = c_state m d" "c_state (set_user_size c v m) d = c_state m d"
    "c_state (set_next_free c v m) d = c_state m d"
    "c_state (set_state c v m) d = (if d = c then v else c_state m d)"
    "c_user_size (set_size c v m) d = c_user_size m d"
    "c_user_size (set_user_size c v m) d = (if d = c then v else c_user_size m d)"
    "c_user_size (set_next_free c v m) d = c_user_size m d" "c_user_size (set_state c v m) d = c_user_size m d"
    using own_fields[OF n(1)] other by (cases "d = c"; simp)+
qed

section \<open>List segments\<close>

fun lseg :: "(u64 \<Rightarrow> u64) \<Rightarrow> u64 \<Rightarrow> u64 list \<Rightarrow> u64 \<Rightarrow> bool" where
  "lseg f p [] q \<longleftrightarrow> p = q"
| "lseg f p (c # cs) q \<longleftrightarrow> p = c \<and> c \<noteq> 0 \<and> lseg f (f c) cs q"

lemma lseg_append: "lseg f p (xs @ ys) q \<longleftrightarrow> (\<exists>r. lseg f p xs r \<and> lseg f r ys q)"
  by (induction xs arbitrary: p) auto

lemma lseg_cong: "(\<And>c. c \<in> set cs \<Longrightarrow> f c = g c) \<Longrightarrow> lseg f p cs q = lseg g p cs q"
  by (induction cs arbitrary: p) auto

lemma lseg_nonzero: "lseg f p cs q \<Longrightarrow> 0 \<notin> set cs"
  by (induction cs arbitrary: p) auto

abbreviation hd_or_0 :: "u64 list \<Rightarrow> u64" where "hd_or_0 cs \<equiv> (if cs = [] then 0 else hd cs)"
abbreviation last_or :: "u64 \<Rightarrow> u64 list \<Rightarrow> u64" where "last_or p cs \<equiv> (if cs = [] then p else last cs)"

lemma lseg_start: "lseg f p ys 0 \<Longrightarrow> p = hd_or_0 ys"
  by (cases ys) auto

lemma lseg_relink:
  assumes "lseg f p (xs @ ys) 0" "distinct (xs @ ys)" "xs \<noteq> []"
  shows "lseg (f(last xs := r)) p xs r"
  using assms
proof (induction xs arbitrary: p)
  case (Cons x xs)
  show ?case
  proof (cases "xs = []")
    case False
    then have "x \<noteq> last xs" using Cons.prems by auto
    then show ?thesis using Cons.IH[of "f x"] Cons.prems False by simp
  qed (use Cons in simp)
qed simp

text \<open>The two loops over the free list.\<close>

lemma address_walk_list:
  "lseg (c_next_free m) p (xs @ ys) 0 \<Longrightarrow> \<forall>x\<in>set xs. x < c \<Longrightarrow> ys = [] \<or> c \<le> hd ys \<Longrightarrow>
    address_walk m c left p = Some (last_or left xs, hd_or_0 ys)"
proof (induction xs arbitrary: p left)
  case Nil
  then show ?case by (subst address_walk.simps) (cases ys; auto)
next
  case (Cons x xs)
  then show ?case by (subst address_walk.simps) auto
qed

lemma first_fit_list:
  "lseg (c_next_free m) p (xs @ ys) 0 \<Longrightarrow> \<forall>x\<in>set xs. c_size m x < n \<Longrightarrow> ys = [] \<or> n \<le> c_size m (hd ys) \<Longrightarrow>
    first_fit m n left p = Some (last_or left xs, hd_or_0 ys)"
proof (induction xs arbitrary: p left)
  case Nil
  then show ?case by (subst first_fit.simps) (cases ys; auto)
next
  case (Cons x xs)
  then show ?case by (subst first_fit.simps) (auto simp: not_le)
qed

section \<open>The invariant\<close>

text \<open>The chunk at \<open>c\<close>, header included.\<close>

definition ext :: "mem \<Rightarrow> u64 \<Rightarrow> nat set" where
  "ext m c = {unat c ..< unat c + 32 + unat (c_size m c)}"

definition chunk_ok :: "mem \<Rightarrow> u64 \<Rightarrow> bool" where
  "chunk_ok m c \<longleftrightarrow> 0 < unat c \<and> 16 dvd unat c \<and> 16 \<le> unat (c_size m c) \<and> 16 dvd unat (c_size m c)"

text \<open>The addresses user mappings can have: below \<open>2^47\<close> and outside the sanitizer's shadow memory.\<close>

definition user_space :: "nat set" where
  "user_space = {n. n < 2 ^ 47 \<and> (n < 2 ^ 44 \<or> 2 ^ 45 \<le> n)}"

text \<open>The chunks of \<open>D\<close> are well formed, do not overlap and make up \<open>R\<close>.\<close>

definition tiles :: "mem \<Rightarrow> u64 set \<Rightarrow> nat set \<Rightarrow> bool" where
  "tiles m D R \<longleftrightarrow>
     (\<forall>c\<in>D. chunk_ok m c) \<and> (\<forall>c\<in>D. \<forall>d\<in>D. c \<noteq> d \<longrightarrow> ext m c \<inter> ext m d = {}) \<and>
     (\<Union>c\<in>D. ext m c) = R \<and> R \<subseteq> user_space"

lemma tilesD:
  assumes "tiles m D R"
  shows "c \<in> D \<Longrightarrow> chunk_ok m c" "c \<in> D \<Longrightarrow> d \<in> D \<Longrightarrow> c \<noteq> d \<Longrightarrow> ext m c \<inter> ext m d = {}"
    "(\<Union>c\<in>D. ext m c) = R" "R \<subseteq> user_space" "c \<in> D \<Longrightarrow> ext m c \<subseteq> R" "c \<in> D \<Longrightarrow> ext m c \<subseteq> user_space"
proof -
  show u: "(\<Union>c\<in>D. ext m c) = R" "R \<subseteq> user_space" using assms by (simp_all add: tiles_def)
  show "c \<in> D \<Longrightarrow> chunk_ok m c" "c \<in> D \<Longrightarrow> d \<in> D \<Longrightarrow> c \<noteq> d \<Longrightarrow> ext m c \<inter> ext m d = {}"
    using assms by (simp_all add: tiles_def)
  show "c \<in> D \<Longrightarrow> ext m c \<subseteq> R" using u(1) by blast
  then show "c \<in> D \<Longrightarrow> ext m c \<subseteq> user_space" using u(2) by blast
qed

lemma tilesI:
  assumes "\<And>c. c \<in> D \<Longrightarrow> chunk_ok m c" "\<And>c d. c \<in> D \<Longrightarrow> d \<in> D \<Longrightarrow> c \<noteq> d \<Longrightarrow> ext m c \<inter> ext m d = {}"
    and "(\<Union>c\<in>D. ext m c) = R" "R \<subseteq> user_space"
  shows "tiles m D R"
  using assms by (simp add: tiles_def)

lemma tiles_remove:
  assumes "tiles m D R" "c \<in> D"
  shows "tiles m (D - {c}) (R - ext m c)"
proof (rule tilesI)
  note T = tilesD[OF assms(1)]
  have dj: "ext m d \<inter> ext m c = {}" if "d \<in> D - {c}" for d using T(2)[of d c] assms(2) that by blast
  show "(\<Union>d\<in>D - {c}. ext m d) = R - ext m c"
    unfolding T(3)[symmetric] using dj assms(2) by blast
  show "R - ext m c \<subseteq> user_space" using T(4) by blast
qed (use tilesD[OF assms(1)] in auto)

lemma tiles_insert:
  assumes "tiles m D R" "chunk_ok m c" "ext m c \<inter> R = {}" "ext m c \<subseteq> user_space"
  shows "tiles m (insert c D) (R \<union> ext m c)"
proof -
  have "ext m d \<inter> ext m c = {}" if "d \<in> D" for d using assms(1,3) that by (auto simp: tiles_def)
  then show ?thesis using assms unfolding tiles_def by (simp add: Int_commute Un_commute)
qed

lemma tiles_cong:
  assumes "tiles m D R" "\<And>c. c \<in> D \<Longrightarrow> c_size m' c = c_size m c"
  shows "tiles m' D R"
proof -
  have e: "c \<in> D \<Longrightarrow> ext m' c = ext m c \<and> chunk_ok m' c = chunk_ok m c" for c
    using assms(2) by (simp add: ext_def chunk_ok_def)
  then have "(\<Union>c\<in>D. ext m' c) = (\<Union>c\<in>D. ext m c)" by simp
  then show ?thesis using assms(1) e unfolding tiles_def by simp
qed

text \<open>\<open>R\<close> is the memory of the heap, \<open>A\<close> the allocated chunks and \<open>cs\<close> the free list.\<close>

definition heap_inv :: "nat set \<Rightarrow> 'k rt \<Rightarrow> u64 set \<Rightarrow> u64 list \<Rightarrow> bool" where
  "heap_inv R s A cs \<longleftrightarrow>
     lseg (c_next_free (mem_of s)) (freelist_head s) cs 0 \<and> sorted_wrt (<) cs \<and>
     (\<forall>c\<in>set cs. c_state (mem_of s) c = 1) \<and> (\<forall>c\<in>A. c_state (mem_of s) c = 0) \<and>
     tiles (mem_of s) (A \<union> set cs) R"

text \<open>The allocated chunks and what they hold.\<close>

definition used :: "mem \<Rightarrow> u64 set \<Rightarrow> nat set" where
  "used m A = (\<Union>c\<in>A. ext m c)"

lemma used_cong: "(\<And>a. a \<in> A \<Longrightarrow> c_size m' a = c_size m a) \<Longrightarrow> used m' A = used m A"
  by (simp add: used_def ext_def)

lemma hdr_ext: "hdr c \<subseteq> ext m c"
  by (auto simp: hdr_def ext_def)

lemma in_ext: "unat c \<in> ext m c"
  by (simp add: ext_def)

lemma user_space_bound:
  assumes "ext m c \<subseteq> user_space"
  shows "unat c + 32 + unat (c_size m c) \<le> 2 ^ 47"
proof -
  have "unat c + 32 + unat (c_size m c) - 1 \<in> ext m c" by (auto simp: ext_def)
  then have "unat c + 32 + unat (c_size m c) - 1 < 2 ^ 47" using assms by (auto simp: user_space_def)
  then show ?thesis by simp
qed

lemma tiles_facts:
  assumes "tiles m D R"
  shows "headers D" "0 \<notin> D" "c \<in> D \<Longrightarrow> unat c + 32 + unat (c_size m c) \<le> 2 ^ 47" "c \<in> D \<Longrightarrow> ext m c \<subseteq> R"
proof -
  note in_R = tilesD(5)[OF assms]
  have bound: "\<And>c. c \<in> D \<Longrightarrow> unat c + 32 + unat (c_size m c) \<le> 2 ^ 47"
    by (rule user_space_bound) (rule tilesD(6)[OF assms])
  show "c \<in> D \<Longrightarrow> unat c + 32 + unat (c_size m c) \<le> 2 ^ 47" "c \<in> D \<Longrightarrow> ext m c \<subseteq> R"
    using bound in_R by blast+
  show "0 \<notin> D" using assms by (auto simp: tiles_def chunk_ok_def)
  show "headers D"
    unfolding headers_def
  proof (intro conjI ballI impI)
    fix c assume "c \<in> D"
    from bound[OF this] show "unat c + 32 \<le> 2 ^ 64" by simp
  next
    fix c d assume "c \<in> D" "d \<in> D" "c \<noteq> d"
    then have "ext m c \<inter> ext m d = {}" by (rule tilesD(2)[OF assms])
    then show "hdr c \<inter> hdr d = {}" using hdr_ext[of c m] hdr_ext[of d m] by blast
  qed
qed

lemma inv_facts:
  assumes "heap_inv R s A cs"
  shows "tiles (mem_of s) (A \<union> set cs) R" "A \<inter> set cs = {}" "distinct cs"
  using assms by (auto simp: heap_inv_def strict_sorted_iff)

lemma ext_upd: "c_size m' c = c_size m c \<Longrightarrow> ext m' c = ext m c"
  by (simp add: ext_def)

lemma same_ext:
  assumes "same_on (ext m c) m m'" "unat c + 32 \<le> 2 ^ 64"
  shows "ext m' c = ext m c" "c_state m' c = c_state m c" "c_next_free m' c = c_next_free m c"
    "chunk_ok m' c = chunk_ok m c" "c_size m' c = c_size m c" "c_user_size m' c = c_user_size m c"
  using fields_same[OF same_on_mono[OF assms(1) hdr_ext] assms(2)] by (simp_all add: ext_def chunk_ok_def)

text \<open>Writes outside the heap do not matter, nor does the rest of the state.\<close>

lemma inv_frame_hdr:
  assumes "heap_inv R s A cs" "\<And>d. d \<in> A \<union> set cs \<Longrightarrow> same_on (hdr d) (mem_of s) (mem_of s')"
    and "freelist_head s' = freelist_head s"
  shows "heap_inv R s' A cs"
proof -
  note T = tiles_facts[OF inv_facts(1)[OF assms(1)]]
  have c: "c_size (mem_of s') c = c_size (mem_of s) c" "c_state (mem_of s') c = c_state (mem_of s) c"
    "c_next_free (mem_of s') c = c_next_free (mem_of s) c" if "c \<in> A \<union> set cs" for c
  proof -
    have n: "unat c + 32 \<le> 2 ^ 64" using T(1) that by (auto simp: headers_def)
    show "c_size (mem_of s') c = c_size (mem_of s) c" "c_state (mem_of s') c = c_state (mem_of s) c"
      "c_next_free (mem_of s') c = c_next_free (mem_of s) c"
      using fields_same[OF assms(2)[OF that] n] by simp_all
  qed
  have "lseg (c_next_free (mem_of s')) (freelist_head s) cs 0 = lseg (c_next_free (mem_of s)) (freelist_head s) cs 0"
    by (rule lseg_cong) (simp add: c)
  moreover have "tiles (mem_of s') (A \<union> set cs) R"
    by (rule tiles_cong[OF inv_facts(1)[OF assms(1)]]) (rule c(1))
  ultimately show ?thesis
    using assms(1) c unfolding heap_inv_def assms(3) by simp
qed

lemma inv_frame:
  assumes "heap_inv R s A cs" "same_on R (mem_of s) (mem_of s')" "freelist_head s' = freelist_head s"
  shows "heap_inv R s' A cs"
proof (rule inv_frame_hdr[OF assms(1) _ assms(3)])
  fix d assume "d \<in> A \<union> set cs"
  from tiles_facts(4)[OF inv_facts(1)[OF assms(1)] this] hdr_ext[of d "mem_of s"]
  show "same_on (hdr d) (mem_of s) (mem_of s')" by (blast intro: same_on_mono[OF assms(2)])
qed

lemma inv_release:
  assumes "heap_inv R s A cs" "c \<in> A"
  shows "heap_inv (R - ext (mem_of s) c) s (A - {c}) cs"
proof -
  have "c \<notin> set cs" using inv_facts(2)[OF assms(1)] assms(2) by blast
  then have "A - {c} \<union> set cs = A \<union> set cs - {c}" by blast
  then show ?thesis
    using assms tiles_remove[of "mem_of s" "A \<union> set cs" R c] by (simp add: heap_inv_def)
qed

section \<open>Putting a chunk on the list\<close>

text \<open>Writes to headers of chunks other than the allocated ones leave those alone.\<close>

lemma used_same:
  assumes "tiles m D R" "A \<subseteq> D" "W \<inter> A = {}" "W \<subseteq> D" "same_on (- (\<Union>w\<in>W. hdr w)) m m'"
  shows "same_on (used m A) m m'"
proof (rule same_on_mono[OF assms(5)])
  have "ext m a \<inter> hdr w = {}" if "a \<in> A" "w \<in> W" for a w
  proof -
    have "a \<in> D" "w \<in> D" "a \<noteq> w" using assms(2-4) that by auto
    then have "ext m a \<inter> ext m w = {}" by (rule tilesD(2)[OF assms(1)])
    then show ?thesis using hdr_ext[of w m] by blast
  qed
  then show "used m A \<subseteq> - (\<Union>w\<in>W. hdr w)" by (auto simp: used_def)
qed

lemma set_link_fields [simp]:
  "freelist_head (set_link left v s) = (if left = 0 then v else freelist_head s)"
  "mem_of (set_link left v s) = (if left = 0 then mem_of s else set_next_free left v (mem_of s))"
  "kernel (set_link left v s) = kernel s" "g_asan_inited (set_link left v s) = g_asan_inited s"
  by (simp_all add: set_link_def)

lemma last_or_0: "0 \<notin> set xs \<Longrightarrow> last_or 0 xs = 0 \<longleftrightarrow> xs = []"
  by (metis last_in_set)

text \<open>Replacing the part \<open>ys\<close> of the list by \<open>zs\<close>, through the link at its start.\<close>

lemma relink:
  assumes h: "headers D" "set (xs @ ys) \<subseteq> D" "0 \<notin> D"
    and l: "lseg (c_next_free (mem_of s)) (freelist_head s) (xs @ ys) 0" "distinct (xs @ ys)"
    and z: "lseg (c_next_free (mem_of s)) r zs 0" "set zs \<subseteq> D" "set xs \<inter> set zs = {}"
  defines "s' \<equiv> set_link (last_or 0 xs) r s"
  shows "lseg (c_next_free (mem_of s')) (freelist_head s') (xs @ zs) 0"
proof (cases "xs = []")
  case True
  then show ?thesis using z by (simp add: s'_def)
next
  case False
  have last: "last xs \<in> set xs" "last xs \<in> D" "last xs \<noteq> 0" using False h by (auto simp del: last_in_set intro: last_in_set)
  let ?f = "(c_next_free (mem_of s))(last xs := r)"
  have eq: "c_next_free (mem_of s') d = ?f d" if "d \<in> D" for d
    using fields_upd(7)[OF h(1) last(2) that] last False by (simp add: s'_def)
  have "lseg ?f (freelist_head s) xs r" by (rule lseg_relink[OF l False])
  moreover have "lseg ?f r zs 0"
    using z(1) by (subst lseg_cong[of zs _ "c_next_free (mem_of s)"]) (use z(3) last in auto)
  ultimately have "lseg ?f (freelist_head s) (xs @ zs) 0" by (auto simp: lseg_append)
  moreover have "lseg ?f (freelist_head s) (xs @ zs) 0 = lseg (c_next_free (mem_of s')) (freelist_head s) (xs @ zs) 0"
    by (rule lseg_cong) (use eq h z in auto)
  ultimately show ?thesis using last False by (simp add: s'_def)
qed

lemma inv_insert:
  fixes s :: "'k rt"
  defines "m \<equiv> mem_of s"
  assumes inv: "heap_inv R s A (xs @ ys)"
    and c: "chunk_ok m c" "ext m c \<inter> R = {}" "ext m c \<subseteq> user_space" "c_state m c = 1"
    and order: "\<forall>x\<in>set xs. x < c" "\<forall>y\<in>set ys. c < y"
  defines "s' \<equiv> set_link (last_or 0 xs) c (upd (set_next_free c (hd_or_0 ys)) s)"
  shows "heap_inv (R \<union> ext m c) s' A (xs @ c # ys)" "same_on (used m A) m (mem_of s')"
    "\<And>d. d \<in> insert c (A \<union> set (xs @ ys)) \<Longrightarrow> c_size (mem_of s') d = c_size m d"
proof -
  let ?D = "insert c (A \<union> set (xs @ ys))"
  have T0: "tiles m (A \<union> set (xs @ ys)) R" using inv_facts(1)[OF inv] by (simp add: m_def)
  have T: "tiles m ?D (R \<union> ext m c)" by (rule tiles_insert[OF T0 c(1-3)])
  note H = tiles_facts(1,2)[OF T]
  have new: "c \<notin> A \<union> set (xs @ ys)" using tilesD(5)[OF T0, of c] in_ext[of c m] c(2) by blast
  define n where "n = hd_or_0 ys"
  let ?m1 = "set_next_free c n m"
  have u1: "d \<in> ?D \<Longrightarrow> c_next_free ?m1 d = (if d = c then n else c_next_free m d)"
    "d \<in> ?D \<Longrightarrow> c_size ?m1 d = c_size m d" "d \<in> ?D \<Longrightarrow> c_state ?m1 d = c_state m d" for d
    using fields_upd[OF H(1), of c d] by simp_all
  have left: "xs \<noteq> [] \<Longrightarrow> last xs \<in> ?D" "xs \<noteq> [] \<Longrightarrow> last xs \<noteq> 0"
  proof -
    show "xs \<noteq> [] \<Longrightarrow> last xs \<in> ?D" by simp
    then show "xs \<noteq> [] \<Longrightarrow> last xs \<noteq> 0" using H(2) by metis
  qed
  have m': "mem_of s' = (if xs = [] then ?m1 else set_next_free (last xs) c ?m1)"
    using left by (auto simp: s'_def m_def n_def)
  have u: "d \<in> ?D \<Longrightarrow> c_size (mem_of s') d = c_size m d" "d \<in> ?D \<Longrightarrow> c_state (mem_of s') d = c_state m d" for d
    by (cases "xs = []"; simp only: m' if_True if_False u1(2,3) fields_upd(3,11)[OF H(1) left(1)] simp_thms)+
  then show "\<And>d. d \<in> ?D \<Longrightarrow> c_size (mem_of s') d = c_size m d" by blast
  have l: "lseg (c_next_free m) (freelist_head s) (xs @ ys) 0" using inv by (simp add: heap_inv_def m_def)
  then obtain r where r: "lseg (c_next_free m) r ys 0" by (auto simp: lseg_append)
  with lseg_start[OF r] have "lseg (c_next_free m) n ys 0" by (simp only: n_def)
  moreover have "lseg (c_next_free m) n ys 0 = lseg (c_next_free ?m1) n ys 0"
    by (rule lseg_cong) (use u1(1) new in auto)
  ultimately have z: "lseg (c_next_free ?m1) c (c # ys) 0" using u1(1)[of c] H(2) by auto
  have l1: "lseg (c_next_free ?m1) (freelist_head s) (xs @ ys) 0 = lseg (c_next_free m) (freelist_head s) (xs @ ys) 0"
    by (rule lseg_cong) (use u1(1) new in auto)
  have L: "lseg (c_next_free (mem_of s')) (freelist_head s') (xs @ c # ys) 0"
    unfolding s'_def n_def[symmetric]
    by (rule relink[OF H(1) _ H(2)]) (use l l1 z inv_facts(3)[OF inv] new order in \<open>auto simp: m_def\<close>)
  moreover have "sorted_wrt (<) (xs @ c # ys)"
    using inv order by (auto simp: heap_inv_def sorted_wrt_append)
  moreover have "tiles (mem_of s') ?D (R \<union> ext m c)" by (rule tiles_cong[OF T]) (rule u(1))
  moreover have "A \<union> set (xs @ c # ys) = ?D" by auto
  ultimately show "heap_inv (R \<union> ext m c) s' A (xs @ c # ys)"
    using inv c(4) u(2) unfolding heap_inv_def by (auto simp: m_def)
  let ?W = "insert c (if xs = [] then {} else {last xs})"
  have b: "unat d + 32 \<le> 2 ^ 64" if "d \<in> ?D" for d using H(1) that by (auto simp: headers_def)
  have "same_on (- (\<Union>w\<in>?W. hdr w)) m ?m1" by (rule setter_same(3)) (use b[of c] in auto)
  moreover have "same_on (- (\<Union>w\<in>?W. hdr w)) ?m1 (mem_of s')"
    unfolding m' using b[OF left(1)] by (auto intro!: setter_same(3))
  ultimately have "same_on (- (\<Union>w\<in>?W. hdr w)) m (mem_of s')" by (rule same_on_trans)
  moreover have "?W \<inter> A = {}" "?W \<subseteq> ?D" using new inv_facts(2)[OF inv] left by auto
  ultimately show "same_on (used m A) m (mem_of s')" by (intro used_same[OF T, where W = ?W]) auto
qed

section \<open>Merging\<close>

lemma tiles_merge:
  assumes T: "tiles m D R" and ab: "a \<in> D" "b \<in> D" "b = a + 32 + c_size m a"
    and m': "\<And>d. d \<in> D - {a, b} \<Longrightarrow> c_size m' d = c_size m d" "c_size m' a = c_size m a + 32 + c_size m b"
  shows "tiles m' (D - {b}) R" "a < b"
proof -
  note F = tiles_facts[OF T] and TD = tilesD[OF T]
  have n: "unat a + 32 + unat (c_size m a) \<le> 2 ^ 47" "unat b + 32 + unat (c_size m b) \<le> 2 ^ 47"
    using F(3) ab by blast+
  have b: "unat b = unat a + 32 + unat (c_size m a)"
    unfolding ab(3) using n(1) by (simp add: unat_word_ariths)
  then show "a < b" by (simp add: word_less_nat_alt)
  have sz: "unat (c_size m' a) = unat (c_size m a) + 32 + unat (c_size m b)"
    unfolding m'(2) using n b by (simp add: unat_word_ariths)
  then have e: "ext m' a = ext m a \<union> ext m b" using b by (auto simp: ext_def)
  have o: "ext m' d = ext m d" "chunk_ok m' d = chunk_ok m d" if "d \<in> D - {a, b}" for d
    using m'(1)[OF that] by (simp_all add: ext_def chunk_ok_def)
  show "tiles m' (D - {b}) R"
  proof (rule tilesI)
    fix c assume c: "c \<in> D - {b}"
    show "chunk_ok m' c"
    proof (cases "c = a")
      case True
      have "16 dvd unat (c_size m a)" "16 dvd unat (c_size m b)" "16 \<le> unat (c_size m a)"
        using TD(1) ab by (auto simp: chunk_ok_def)
      then show ?thesis using TD(1)[OF ab(1)] True sz by (simp add: chunk_ok_def dvd_add)
    qed (use o TD(1) c in auto)
    fix d assume d: "d \<in> D - {b}" and ne: "c \<noteq> d"
    have "ext m c \<inter> ext m d = {}" "ext m b \<inter> ext m d = {}" "ext m c \<inter> ext m b = {}"
      using TD(2) c d ne ab by auto
    then show "ext m' c \<inter> ext m' d = {}"
      using c d ne e o by (cases "c = a"; cases "d = a") auto
  next
    have "(\<Union>c\<in>D - {b}. ext m' c) = ext m' a \<union> (\<Union>c\<in>D - {a, b}. ext m' c)"
      using ab \<open>a < b\<close> by auto
    also have "\<dots> = (\<Union>c\<in>D. ext m c)" using e o(1) ab by auto
    finally show "(\<Union>c\<in>D - {b}. ext m' c) = R" using TD(3) by simp
  qed (rule TD(4))
qed

lemma inv_absorb:
  fixes s :: "'k rt"
  defines "m \<equiv> mem_of s"
  assumes inv: "heap_inv R s A (xs @ a # b # ys)" and adj: "chunks_adjacent m a b"
  shows "heap_inv R (upd (absorb a b) s) A (xs @ a # ys)" "same_on (used m A) m (absorb a b m)"
proof -
  let ?D = "A \<union> set (xs @ a # b # ys)"
  have T: "tiles m ?D R" using inv_facts(1)[OF inv] by (simp add: m_def)
  note H = tiles_facts(1,2)[OF T]
  have ne: "a \<noteq> b" "a \<notin> set xs" "b \<notin> set xs" "a \<notin> set ys" "b \<notin> set ys" "a \<notin> A" "b \<notin> A"
    using inv_facts(2,3)[OF inv] by auto
  let ?m1 = "set_size a (c_size m a + 32 + c_size m b) m"
  let ?m2 = "set_next_free a (c_next_free ?m1 b) ?m1"
  have m': "absorb a b m = set_state b 0 ?m2" by (simp add: absorb_def Let_def)
  have u: "c_size (absorb a b m) d = (if d = a then c_size m a + 32 + c_size m b else c_size m d)"
    "c_next_free (absorb a b m) d = (if d = a then c_next_free m b else c_next_free m d)"
    "c_state (absorb a b m) d = (if d = b then 0 else c_state m d)" if "d \<in> ?D" for d
    using fields_upd[OF H(1), of a d] fields_upd[OF H(1), of b d] fields_upd[OF H(1), of a b] that
    by (simp_all add: m')
  have "tiles (absorb a b m) (?D - {b}) R"
    by (rule tiles_merge(1)[OF T, of a]) (use adj u(1) in \<open>auto simp: chunks_adjacent_def\<close>)
  moreover have "?D - {b} = A \<union> set (xs @ a # ys)" using ne by auto
  moreover have "lseg (c_next_free (absorb a b m)) (freelist_head s) (xs @ a # ys) 0"
  proof -
    have l: "lseg (c_next_free m) (freelist_head s) xs a" "a \<noteq> 0" "lseg (c_next_free m) (c_next_free m b) ys 0"
      using inv by (auto simp: heap_inv_def m_def lseg_append)
    have "lseg (c_next_free (absorb a b m)) (freelist_head s) xs a"
      by (subst lseg_cong[of xs _ "c_next_free m"]) (use l u(2) ne in auto)
    moreover have "lseg (c_next_free (absorb a b m)) (c_next_free m b) ys 0"
      by (subst lseg_cong[of ys _ "c_next_free m"]) (use l u(2) ne in auto)
    ultimately show ?thesis using l(2) u(2)[of a] by (auto simp: lseg_append)
  qed
  ultimately show "heap_inv R (upd (absorb a b) s) A (xs @ a # ys)"
    using inv u(3) ne unfolding heap_inv_def by (auto simp: m_def sorted_wrt_append)
  have b: "unat d + 32 \<le> 2 ^ 64" if "d \<in> ?D" for d using H(1) that by (auto simp: headers_def)
  let ?S = "- (\<Union>w\<in>{a, b}. hdr w)"
  have "same_on ?S m ?m1" "same_on ?S ?m1 ?m2" "same_on ?S ?m2 (set_state b 0 ?m2)"
    by (intro setter_same; use b[of a] b[of b] in auto)+
  then have "same_on ?S m (absorb a b m)" unfolding m' using same_on_trans by blast
  then show "same_on (used m A) m (absorb a b m)"
    by (intro used_same[OF T, where W = "{a, b}"]) (use ne in auto)
qed

section \<open>Taking a chunk off the list\<close>

text \<open>The rest of a chunk that is cut after \<open>n\<close> bytes.\<close>

lemma rest_facts:
  assumes T: "tiles m D R" and c: "c \<in> D" and n: "unat n + 48 \<le> unat (c_size m c)"
  shows "unat (c + 32 + n) = unat c + 32 + unat n" "c + 32 + n \<notin> D"
    "hdr (c + 32 + n) \<subseteq> ext m c - hdr c" "headers (insert (c + 32 + n) D)"
proof -
  let ?r = "c + 32 + n"
  note F = tiles_facts[OF T] and TD = tilesD[OF T]
  have bound: "unat c + 32 + unat (c_size m c) \<le> 2 ^ 47" using F(3) c by blast
  then show r: "unat ?r = unat c + 32 + unat n" using n by (simp add: unat_word_ariths)
  then have in_c: "unat ?r \<in> ext m c" using n by (auto simp: ext_def)
  have "?r \<noteq> c"
  proof
    assume "?r = c"
    then have "unat ?r = unat c" by (rule arg_cong)
    with r show False by linarith
  qed
  then show new: "?r \<notin> D" using TD(2)[of ?r c] c in_c in_ext[of ?r m] by blast
  show sub: "hdr ?r \<subseteq> ext m c - hdr c" using r n by (auto simp: hdr_def ext_def)
  have dj: "hdr ?r \<inter> hdr d = {}" if "d \<in> D" for d
  proof (cases "d = c")
    case False
    then have "ext m d \<inter> ext m c = {}" using TD(2) c that by blast
    then show ?thesis using sub hdr_ext[of d m] by blast
  qed (use sub in blast)
  have "unat ?r + 32 \<le> 2 ^ 64" using r bound n by simp
  then show "headers (insert ?r D)"
    using F(1) dj by (simp add: headers_def Int_commute)
qed

lemma tiles_split:
  assumes T: "tiles m D R" and c: "c \<in> D" and n: "16 \<le> unat n" "16 dvd unat n" "unat n + 48 \<le> unat (c_size m c)"
    and m': "\<And>d. d \<in> D - {c} \<Longrightarrow> c_size m' d = c_size m d" "c_size m' c = n"
      "c_size m' (c + 32 + n) = c_size m c - n - 32"
  shows "tiles m' (insert (c + 32 + n) D) R"
proof -
  let ?r = "c + 32 + n"
  note r = rest_facts(1)[OF T c n(3)] and TD = tilesD[OF T]
  have sz: "unat (c_size m' ?r) = unat (c_size m c) - unat n - 32"
    unfolding m'(3) using n by (simp add: unat_sub_if' word_le_nat_alt)
  have e: "ext m' c \<union> ext m' ?r = ext m c" "ext m' c \<inter> ext m' ?r = {}"
    using r sz n m'(2) by (auto simp: ext_def)
  have o: "ext m' d = ext m d" "chunk_ok m' d = chunk_ok m d" if "d \<in> D - {c}" for d
    using m'(1)[OF that] by (simp_all add: ext_def chunk_ok_def)
  have dvd: "16 dvd unat (c_size m c)" "16 dvd unat c" "0 < unat c" using TD(1)[OF c] by (simp_all add: chunk_ok_def)
  have dj: "ext m c \<inter> ext m d = {}" if "d \<in> D - {c}" for d using TD(2)[OF c] that by auto
  show "tiles m' (insert ?r D) R"
  proof (rule tilesI)
    fix x assume x: "x \<in> insert ?r D"
    show "chunk_ok m' x"
    proof (cases "x = ?r \<or> x = c")
      case True
      moreover have "chunk_ok m' c" using dvd n m'(2) by (simp add: chunk_ok_def)
      moreover have "16 dvd unat (c_size m c) - unat n - 32" using dvd(1) n(2) by (intro dvd_diff_nat) auto
      then have "chunk_ok m' ?r" using dvd n r sz by (auto simp: chunk_ok_def intro!: dvd_add)
      ultimately show ?thesis by blast
    qed (use x o TD(1) in auto)
    fix y assume y: "y \<in> insert ?r D" and ne: "x \<noteq> y"
    consider "x \<in> {?r, c}" "y \<in> {?r, c}" | "x \<in> {?r, c}" "y \<in> D - {c}" | "y \<in> {?r, c}" "x \<in> D - {c}"
      | "x \<in> D - {c}" "y \<in> D - {c}" using x y by blast
    then show "ext m' x \<inter> ext m' y = {}"
    proof cases
      case 1
      then show ?thesis using ne e(2) by blast
    next
      case 2
      then show ?thesis using dj[of y] e(1) o(1)[of y] by blast
    next
      case 3
      then show ?thesis using dj[of x] e(1) o(1)[of x] by blast
    next
      case 4
      then show ?thesis using o(1) TD(2) ne by auto
    qed
  next
    have "(\<Union>x\<in>insert ?r D. ext m' x) = ext m' c \<union> ext m' ?r \<union> (\<Union>x\<in>D - {c}. ext m' x)" using c by auto
    also have "\<dots> = (\<Union>x\<in>D. ext m x)" unfolding e(1) using o(1) c by auto
    finally show "(\<Union>x\<in>insert ?r D. ext m' x) = R" using TD(3) by simp
  qed (rule TD(4))
qed

text \<open>Marking the taken chunk as allocated, as \<open>malloc\<close> does.\<close>

definition claim_chunk :: "u64 \<Rightarrow> u64 \<Rightarrow> mem \<Rightarrow> mem" where
  "claim_chunk c u = set_user_size c u \<circ> set_state c 0 \<circ> set_next_free c 0"

lemma claim_fields:
  assumes "headers D" "c \<in> D" "d \<in> D"
  shows "c_size (claim_chunk c u m) d = c_size m d"
    "c_state (claim_chunk c u m) d = (if d = c then 0 else c_state m d)"
    "d \<noteq> c \<Longrightarrow> c_next_free (claim_chunk c u m) d = c_next_free m d"
    "c_user_size (claim_chunk c u m) c = u"
  using fields_upd[OF assms] fields_upd[OF assms(1,2,2)] by (simp_all add: claim_chunk_def)

lemma claim_same:
  assumes "unat c + 32 \<le> 2 ^ 64" "S \<inter> hdr c = {}"
  shows "same_on S m (claim_chunk c u m)"
  unfolding claim_chunk_def comp_def
  by (rule same_on_trans[OF same_on_trans[OF setter_same(3)[OF assms] setter_same(4)[OF assms]] setter_same(2)[OF assms]])

text \<open>The list, the headers and the written addresses after \<open>c\<close> was unlinked (and cut, if \<open>trim\<close>) and marked.\<close>

lemma take_list:
  fixes s :: "'k rt" and u n r :: u64 and trim :: bool
  defines "m \<equiv> mem_of s"
  assumes H: "headers D" "0 \<notin> D" "c \<in> D" "set (xs @ ys) \<subseteq> D" "set zs \<subseteq> D"
    and l: "lseg (c_next_free m) (freelist_head s) (xs @ c # ys) 0" "distinct (xs @ c # ys)"
    and z: "lseg (c_next_free m) r zs 0" "set xs \<inter> set zs = {}" "c \<notin> set zs"
  defines "s' \<equiv> upd (claim_chunk c u \<circ> (if trim then set_size c n else id)) (set_link (last_or 0 xs) r s)"
  shows "lseg (c_next_free (mem_of s')) (freelist_head s') (xs @ zs) 0"
    and "\<And>d. d \<in> D \<Longrightarrow> c_size (mem_of s') d = (if d = c \<and> trim then n else c_size m d)"
    and "\<And>d. d \<in> D \<Longrightarrow> c_state (mem_of s') d = (if d = c then 0 else c_state m d)"
    and "c_user_size (mem_of s') c = u"
    and "same_on (- (\<Union>w\<in>insert c (if xs = [] then {} else {last xs}). hdr w)) m (mem_of s')"
proof -
  let ?W = "insert c (if xs = [] then {} else {last xs})"
  let ?g = "if trim then set_size c n else id"
  define s1 where "s1 = set_link (last_or 0 xs) r s"
  have l1: "lseg (c_next_free (mem_of s1)) (freelist_head s1) (xs @ zs) 0"
    unfolding s1_def by (rule relink[OF H(1) _ H(2)]) (use l z H in \<open>auto simp: m_def\<close>)
  have left: "xs \<noteq> [] \<Longrightarrow> last xs \<in> D" "xs \<noteq> [] \<Longrightarrow> last xs \<noteq> 0"
  proof -
    show "xs \<noteq> [] \<Longrightarrow> last xs \<in> D" using H(4) by auto
    then show "xs \<noteq> [] \<Longrightarrow> last xs \<noteq> 0" using H(2) by metis
  qed
  have m1: "mem_of s1 = (if xs = [] then m else set_next_free (last xs) r m)"
    using left by (auto simp: s1_def m_def)
  have u1: "d \<in> D \<Longrightarrow> c_size (mem_of s1) d = c_size m d" "d \<in> D \<Longrightarrow> c_state (mem_of s1) d = c_state m d" for d
    by (cases "xs = []"; simp only: m1 if_True if_False fields_upd(3,11)[OF H(1) left(1)] simp_thms)+
  have u2: "d \<in> D \<Longrightarrow> c_size (?g k) d = (if d = c \<and> trim then n else c_size k d)"
    "d \<in> D \<Longrightarrow> c_state (?g k) d = c_state k d" "d \<in> D \<Longrightarrow> c_next_free (?g k) d = c_next_free k d" for d k
    by (cases trim; simp only: fields_upd(1,5,9)[OF H(1,3)] if_True if_False id_apply simp_thms)+
  note C = claim_fields[OF H(1,3)]
  have m': "mem_of s' = claim_chunk c u (?g (mem_of s1))" "freelist_head s' = freelist_head s1"
    by (simp_all add: s'_def s1_def)
  show "d \<in> D \<Longrightarrow> c_size (mem_of s') d = (if d = c \<and> trim then n else c_size m d)" for d
    by (simp only: m' C(1) u2(1) u1(1))
  show "d \<in> D \<Longrightarrow> c_state (mem_of s') d = (if d = c then 0 else c_state m d)" for d
    by (simp only: m' C(2) u2(2) u1(2))
  show "c_user_size (mem_of s') c = u" unfolding m' by (rule C(4)[OF H(3)])
  have "lseg (c_next_free (mem_of s')) (freelist_head s') (xs @ zs) 0
      = lseg (c_next_free (mem_of s1)) (freelist_head s1) (xs @ zs) 0"
    unfolding m'
  proof (rule lseg_cong)
    fix d assume "d \<in> set (xs @ zs)"
    then have "d \<in> D" "d \<noteq> c" using H(4,5) l(2) z(3) by auto
    then show "c_next_free (claim_chunk c u (?g (mem_of s1))) d = c_next_free (mem_of s1) d"
      by (simp only: C(3) u2(3) simp_thms)
  qed
  with l1 show "lseg (c_next_free (mem_of s')) (freelist_head s') (xs @ zs) 0" by blast
  have b: "unat d + 32 \<le> 2 ^ 64" if "d \<in> D" for d using H(1) that by (auto simp: headers_def)
  have "same_on (- (\<Union>w\<in>?W. hdr w)) m (mem_of s1)"
    unfolding m1 using b[OF left(1)] by (auto intro!: setter_same(3))
  moreover have "same_on (- (\<Union>w\<in>?W. hdr w)) (mem_of s1) (?g (mem_of s1))"
    using b[OF H(3)] by (auto intro!: setter_same(1))
  moreover have "same_on (- (\<Union>w\<in>?W. hdr w)) (?g (mem_of s1)) (mem_of s')"
    unfolding m' by (rule claim_same) (use b[OF H(3)] in auto)
  ultimately show "same_on (- (\<Union>w\<in>?W. hdr w)) m (mem_of s')" by (blast intro: same_on_trans)
qed

lemma inv_take_whole:
  fixes s :: "'k rt" and u :: u64
  defines "m \<equiv> mem_of s"
  assumes inv: "heap_inv R s A (xs @ c # ys)"
  defines "s' \<equiv> upd (claim_chunk c u) (set_link (last_or 0 xs) (c_next_free m c) s)"
  shows "heap_inv R s' (insert c A) (xs @ ys)" "c_size (mem_of s') c = c_size m c" "c_user_size (mem_of s') c = u"
    "same_on (used m A) m (mem_of s')"
proof -
  let ?D = "A \<union> set (xs @ c # ys)"
  have T: "tiles m ?D R" using inv_facts(1)[OF inv] by (simp add: m_def)
  note H = tiles_facts(1,2)[OF T]
  have ne: "c \<notin> A" "c \<notin> set xs" "c \<notin> set ys" "distinct (xs @ c # ys)" using inv_facts(2,3)[OF inv] by auto
  have l: "lseg (c_next_free m) (freelist_head s) (xs @ c # ys) 0" using inv by (simp add: heap_inv_def m_def)
  then have z: "lseg (c_next_free m) (c_next_free m c) ys 0" by (auto simp: lseg_append)
  have s': "s' = upd (claim_chunk c u \<circ> (if False then set_size c 0 else id)) (set_link (last_or 0 xs) (c_next_free m c) s)"
    by (simp add: s'_def)
  have c: "c \<in> ?D" "set (xs @ ys) \<subseteq> ?D" "set ys \<subseteq> ?D" "set xs \<inter> set ys = {}" using ne by auto
  note L = take_list[where trim = False and n = 0 and u = u, OF H c(1,2,3) l[unfolded m_def] ne(4) z[unfolded m_def] c(4) ne(3),
      folded m_def, folded s']
  show "c_size (mem_of s') c = c_size m c" "c_user_size (mem_of s') c = u" using L(2)[OF c(1)] L(4) by simp_all
  have "tiles (mem_of s') ?D R" by (rule tiles_cong[OF T]) (simp only: L(2) simp_thms if_False)
  moreover have "insert c A \<union> set (xs @ ys) = ?D" by auto
  ultimately show "heap_inv R s' (insert c A) (xs @ ys)"
    using inv L(1,3) ne unfolding heap_inv_def by (auto simp: m_def sorted_wrt_append)
  show "same_on (used m A) m (mem_of s')"
    by (rule used_same[OF T _ _ _ L(5)]) (use ne inv_facts(2)[OF inv] in auto)
qed

lemma inv_take_split:
  fixes s :: "'k rt" and u n :: u64
  defines "m \<equiv> mem_of s"
  assumes inv: "heap_inv R s A (xs @ c # ys)"
    and n: "16 \<le> unat n" "16 dvd unat n" "unat n + 48 \<le> unat (c_size m c)"
  defines "r \<equiv> c + 32 + n"
  defines "f \<equiv> (\<lambda>m. set_next_free r (c_next_free m c) (set_state r 1 (set_user_size r 0 (set_size r (c_size m c - n - 32) m))))"
  defines "s' \<equiv> upd (claim_chunk c u \<circ> set_size c n) (set_link (last_or 0 xs) r (upd f s))"
  shows "heap_inv R s' (insert c A) (xs @ r # ys)" "c_size (mem_of s') c = n" "c_user_size (mem_of s') c = u"
    "same_on (used m A) m (mem_of s')"
proof -
  let ?D = "A \<union> set (xs @ c # ys)" and ?D' = "insert r (A \<union> set (xs @ c # ys))"
  have T: "tiles m ?D R" using inv_facts(1)[OF inv] by (simp add: m_def)
  have c: "c \<in> ?D" "c \<in> ?D'" "r \<in> ?D'" by simp_all
  note rf = rest_facts[OF T c(1) n(3), folded r_def]
  have H: "headers ?D'" "0 \<notin> ?D'" using rf(1,4) tiles_facts(2)[OF T] by (auto simp: unat_eq_0[symmetric] simp del: unat_eq_0)
  have ne: "c \<notin> A" "c \<notin> set xs" "c \<notin> set ys" "distinct (xs @ c # ys)" "r \<notin> ?D"
    using inv_facts(2,3)[OF inv] rf(2) by auto
  let ?s1 = "upd f s"
  have f: "c_size (f m) d = (if d = r then c_size m c - n - 32 else c_size m d)"
    "c_next_free (f m) d = (if d = r then c_next_free m c else c_next_free m d)"
    "c_state (f m) d = (if d = r then 1 else c_state m d)" if "d \<in> ?D'" for d
    using fields_upd[OF H(1) c(3) that] by (simp_all add: f_def)
  have l: "lseg (c_next_free m) (freelist_head s) (xs @ c # ys) 0" using inv by (simp add: heap_inv_def m_def)
  then have z0: "lseg (c_next_free m) (c_next_free m c) ys 0" by (auto simp: lseg_append)
  have cong: "lseg (c_next_free (f m)) p zs 0 = lseg (c_next_free m) p zs 0" if "set zs \<subseteq> ?D" for p zs
    by (rule lseg_cong) (use f(2) that ne(5) in auto)
  have l': "lseg (c_next_free (mem_of ?s1)) (freelist_head ?s1) (xs @ c # ys) 0"
    using l cong[OF Un_upper2] by (simp add: m_def)
  have z: "lseg (c_next_free (mem_of ?s1)) r (r # ys) 0"
    using z0 cong[of ys] f(2)[OF c(3)] H(2) by (auto simp: m_def)
  have s': "s' = upd (claim_chunk c u \<circ> (if True then set_size c n else id)) (set_link (last_or 0 xs) r ?s1)"
    by (simp add: s'_def)
  have sub: "set (xs @ ys) \<subseteq> ?D'" "set (r # ys) \<subseteq> ?D'" "set xs \<inter> set (r # ys) = {}" "c \<notin> set (r # ys)"
    using ne by auto
  have s1: "mem_of ?s1 = f m" by (simp add: m_def)
  note L = take_list[where trim = True and n = n and u = u, OF H c(2) sub(1,2) l' ne(4) z sub(3,4), folded s', unfolded s1]
  show "c_size (mem_of s') c = n" "c_user_size (mem_of s') c = u" using L(2)[OF c(2)] L(4) by simp_all
  have "tiles (mem_of s') ?D' R"
    unfolding r_def
    by (rule tiles_split[OF T c(1) n]) (use L(2) f(1) ne(5) c in \<open>auto simp: r_def\<close>)
  moreover have "insert c A \<union> set (xs @ r # ys) = ?D'" by auto
  moreover have "c < r" using rf(1) by (simp add: word_less_nat_alt)
  moreover have "r < y" if "y \<in> set ys" for y
  proof -
    have "ext m c \<inter> ext m y = {}" "y \<noteq> c" using tilesD(2)[OF T c(1), of y] ne that by auto
    moreover have "c < y" using inv that by (auto simp: heap_inv_def sorted_wrt_append)
    ultimately have "unat c + 32 + unat (c_size m c) \<le> unat y"
      using in_ext[of y m] by (auto simp: ext_def word_less_nat_alt)
    then show ?thesis using rf(1) n(3) by (simp add: word_less_nat_alt)
  qed
  moreover have "c_state (mem_of s') d = (if d = c then 0 else if d = r then 1 else c_state m d)" if "d \<in> ?D'" for d
    using L(3)[OF that] f(3)[OF that] by simp
  ultimately show "heap_inv R s' (insert c A) (xs @ r # ys)"
    using inv L(1) ne unfolding heap_inv_def by (auto simp: m_def sorted_wrt_append intro: less_trans)
  have nr: "unat r + 32 \<le> 2 ^ 64" using H(1) by (simp add: headers_def)
  have aw: "used m A \<inter> hdr r = {}"
  proof -
    have "ext m a \<inter> ext m c = {}" if "a \<in> A" for a using tilesD(2)[OF T, of a c] that ne by auto
    then show ?thesis using rf(3) by (auto simp: used_def)
  qed
  have "same_on (used m A) m (f m)"
    unfolding f_def
    by (rule same_on_trans[OF same_on_trans[OF same_on_trans[OF setter_same(1)[OF nr aw] setter_same(2)[OF nr aw]]
        setter_same(4)[OF nr aw]] setter_same(3)[OF nr aw]])
  moreover have "same_on (used m A) (f m) (mem_of s')"
  proof -
    have sz: "c_size (f m) d = c_size m d" if "d \<in> ?D" for d using f(1)[of d] ne(5) that by auto
    then have "used (f m) A = used m A" by (intro used_cong) simp
    moreover have "tiles (f m) ?D R" by (rule tiles_cong[OF T]) (rule sz)
    moreover have "insert c (if xs = [] then {} else {last xs}) \<inter> A = {}" "insert c (if xs = [] then {} else {last xs}) \<subseteq> ?D"
      using ne inv_facts(2)[OF inv] by auto
    ultimately show ?thesis
      using used_same[OF _ Un_upper1 _ _ L(5)] by metis
  qed
  ultimately show "same_on (used m A) m (mem_of s')" by (rule same_on_trans)
qed

text \<open>What \<open>malloc\<close> does with the chunk it found.\<close>

lemma carve_fields [simp]:
  "kernel (carve n left c s) = kernel s" "g_asan_inited (carve n left c s) = g_asan_inited s"
  by (simp_all add: carve_def Let_def)

lemma inv_carve:
  fixes s :: "'k rt" and u n :: u64
  assumes inv: "heap_inv R s A (xs @ c # ys)"
    and n: "16 \<le> unat n" "16 dvd unat n" "n \<le> c_size (mem_of s) c"
  defines "s' \<equiv> upd (claim_chunk c u) (carve n (last_or 0 xs) c s)"
  shows "\<exists>cs. heap_inv R s' (insert c A) cs" "n \<le> c_size (mem_of s') c" "c_user_size (mem_of s') c = u"
    "same_on (used (mem_of s) A) (mem_of s) (mem_of s')" "c \<notin> A"
proof -
  have T: "tiles (mem_of s) (A \<union> set (xs @ c # ys)) R" by (rule inv_facts(1)[OF inv])
  have "unat c + 32 + unat (c_size (mem_of s) c) \<le> 2 ^ 47" by (rule tiles_facts(3)[OF T]) simp
  then have "unat n + 48 < 2 ^ 64" using n(3) by (simp add: word_le_nat_alt)
  then have "unat (n + 48) = unat n + 48" using unat_plus[of n 48] by simp
  then have fits: "n + 32 + 16 \<le> c_size (mem_of s) c \<longleftrightarrow> unat n + 48 \<le> unat (c_size (mem_of s) c)"
    by (simp only: word_le_nat_alt add.assoc) simp
  show "c \<notin> A" using inv_facts(2)[OF inv] by auto
  have "(\<exists>cs. heap_inv R s' (insert c A) cs) \<and> n \<le> c_size (mem_of s') c \<and> c_user_size (mem_of s') c = u \<and>
    same_on (used (mem_of s) A) (mem_of s) (mem_of s')"
  proof (cases "unat n + 48 \<le> unat (c_size (mem_of s) c)")
    case True
    note L = inv_take_split[OF inv n(1,2) True, of u]
    have e: "s' = upd (claim_chunk c u \<circ> set_size c n) (set_link (last_or 0 xs) (c + 32 + n)
        (upd (\<lambda>m. set_next_free (c + 32 + n) (c_next_free m c) (set_state (c + 32 + n) 1 (set_user_size (c + 32 + n) 0
          (set_size (c + 32 + n) (c_size m c - n - 32) m)))) s))"
      unfolding s'_def carve_def if_P[OF fits[THEN iffD2, OF True]] Let_def by simp
    show ?thesis unfolding e by (intro conjI exI) (rule L(1,3,4) | simp only: L(2) order_refl)+
  next
    case False
    note L = inv_take_whole[OF inv, of u]
    have e: "s' = upd (claim_chunk c u) (set_link (last_or 0 xs) (c_next_free (mem_of s) c) s)"
      unfolding s'_def carve_def using fits False by simp
    show ?thesis unfolding e by (intro conjI exI) (rule L(1,3,4) | simp only: L(2) n(3))+
  qed
  then show "\<exists>cs. heap_inv R s' (insert c A) cs" "n \<le> c_size (mem_of s') c" "c_user_size (mem_of s') c = u"
    "same_on (used (mem_of s) A) (mem_of s) (mem_of s')" by blast+
qed

section \<open>The kernel and the shadow memory\<close>

text \<open>
  What is assumed of \<open>mmap\<close>, with \<open>regions k\<close> the addresses mapped in kernel state \<open>k\<close>: an anonymous
  mapping is refused (a negative result) or is a range of pages not mapped before, where user mappings
  are; a fixed mapping is refused or placed where it was asked for.
\<close>

definition block :: "u64 \<Rightarrow> u64 \<Rightarrow> nat set" where
  "block p n = {unat p ..< unat p + unat n}"

definition mmap_ok :: "'k sys \<Rightarrow> ('k \<Rightarrow> nat set) \<Rightarrow> bool" where
  "mmap_ok sys regions \<longleftrightarrow>
     (\<forall>k n. case sys k (MapAnon n) of (p, k') \<Rightarrow>
        if sint p < 0 then regions k' = regions k
        else 0 < unat p \<and> 4096 dvd unat p \<and> block p n \<subseteq> user_space \<and> block p n \<inter> regions k = {} \<and>
          regions k \<union> block p n \<subseteq> regions k') \<and>
     (\<forall>k a n. case sys k (MapFixed a n) of (p, k') \<Rightarrow> (sint p < 0 \<or> p = a) \<and> regions k' = regions k)"

definition quiet :: "('k \<Rightarrow> nat set) \<Rightarrow> 'k rt \<Rightarrow> 'k rt \<Rightarrow> bool" where
  "quiet regions s s' \<longleftrightarrow>
     same_on user_space (mem_of s) (mem_of s') \<and> freelist_head s' = freelist_head s \<and>
     regions (kernel s') = regions (kernel s)"

lemma quiet_refl [simp]: "quiet regions s s"
  by (simp add: quiet_def)

lemma quiet_trans: "quiet regions s t \<Longrightarrow> quiet regions t u \<Longrightarrow> quiet regions s u"
  by (auto simp: quiet_def intro: same_on_trans)

lemma shadow_outside: "2 ^ 44 \<le> n \<Longrightarrow> n < 2 ^ 45 \<Longrightarrow> n \<notin> user_space"
  by (simp add: user_space_def)

lemma fill_bytes_effect: "fill_bytes s e b m x = (if s \<le> x \<and> x < e then b else m x)"
proof (induction s e b m rule: fill_bytes.induct)
  case (1 s e b m)
  show ?case
  proof (cases "s < e")
    case True
    then have "unat (s + 1) = unat s + 1" by (rule unat_step)
    then have "s \<le> x \<longleftrightarrow> x = s \<or> s + 1 \<le> x" by (auto simp: word_le_nat_alt word_unat_eq_iff)
    then show ?thesis using True by (subst fill_bytes.simps) (auto simp only: 1(1)[OF True] if_True fun_upd_apply split: if_splits)
  qed (subst fill_bytes.simps, auto dest: le_less_trans)
qed

lemma map_fixed_quiet:
  assumes "mmap_ok sys regions" "n \<le> 2 ^ 44"
  shows "quiet regions s (snd (map_fixed sys 0x100000000000 n s))"
proof -
  obtain p k where k: "sys (kernel s) (MapFixed 0x100000000000 n) = (p, k)" by fastforce
  have r: "sint p < 0 \<or> p = 0x100000000000" "regions k = regions (kernel s)"
    using assms(1) k unfolding mmap_ok_def by (metis (mono_tags, lifting) case_prod_conv)+
  have "same_on user_space m (zero_pages 0x100000000000 n m)" for m
  proof -
    have "x - 0x100000000000 < n \<longrightarrow> unat x \<notin> user_space" for x :: u64
      using offset_less[of "0x100000000000" n x] assms(2) by (auto simp: user_space_def word_le_nat_alt)
    then show ?thesis by (auto simp: same_on_def zero_pages_def)
  qed
  then show ?thesis using r by (auto simp: quiet_def map_fixed_def k)
qed

lemma asan_init_quiet:
  assumes "mmap_ok sys regions"
  shows "quiet regions s (asan_init sys s)"
proof -
  obtain p1 s1 where 1: "map_fixed sys 0x100000000000 0x100000000000 (s\<lparr>g_asan_inited := 1\<rparr>) = (p1, s1)" by fastforce
  obtain p2 s2 where 2: "map_fixed sys 0x100000000000 0x10000000000 s1 = (p2, s2)" by fastforce
  have q0: "quiet regions s (s\<lparr>g_asan_inited := 1\<rparr>)" by (simp add: quiet_def)
  have q1: "quiet regions (s\<lparr>g_asan_inited := 1\<rparr>) s1" using map_fixed_quiet[OF assms, of "0x100000000000" "s\<lparr>g_asan_inited := 1\<rparr>"] 1 by simp
  have q2: "quiet regions s1 s2" using map_fixed_quiet[OF assms, of "0x10000000000" s1] 2 by simp
  have q3: "quiet regions s t \<Longrightarrow> quiet regions s (t\<lparr>g_asan_inited := -1\<rparr>)" for t by (simp add: quiet_def)
  have "quiet regions s s1" "quiet regions s s2" using q0 q1 q2 by (blast intro: quiet_trans)+
  then show ?thesis
    using q3 by (simp add: asan_init_def Let_def 1 2)
qed

lemma unat_drop3: "unat (drop_bit 3 (x :: u64)) = unat x div 8"
  by (simp only: unat_drop_bit_eq) (simp add: drop_bit_eq_div)

lemma shadow_range:
  assumes "unat (p :: u64) + k \<le> 2 ^ 47" "unat q = unat p + k"
    and "drop_bit 3 p + 0x100000000000 \<le> x" "x < drop_bit 3 q + 0x100000000000 \<or> x = drop_bit 3 q + 0x100000000000 \<and> unat q < 2 ^ 47"
  shows "unat x \<notin> user_space"
proof -
  have d: "unat (drop_bit 3 y + 0x100000000000 :: u64) = unat y div 8 + 2 ^ 44" if "unat y < 2 ^ 48" for y :: u64
    using that by (simp add: unat_word_ariths unat_drop_bit_eq drop_bit_eq_div)
  have "unat x < 2 ^ 45" "2 ^ 44 \<le> unat x"
    using assms d[of p] d[of q] by (auto simp: word_le_nat_alt word_less_nat_alt)
  then show ?thesis by (simp add: shadow_outside)
qed

lemma asan_quiet:
  assumes ok: "mmap_ok sys regions" and b: "unat p + unat n \<le> 2 ^ 47"
  shows "quiet regions s (asan_unpoison sys p n s)"
    and "8 dvd unat p \<Longrightarrow> 8 dvd unat n \<Longrightarrow> quiet regions s (asan_poison sys p n s)"
proof -
  define t where "t = (if g_asan_inited s = 0 then asan_init sys s else s)"
  have t: "quiet regions s t" using asan_init_quiet[OF ok] by (simp add: t_def)
  have mem: "quiet regions s (upd f u)" if "quiet regions s u" "\<And>m. same_on user_space m (f m)" for u f
    using that by (auto simp: quiet_def intro: same_on_trans)
  have n: "unat (p + n) = unat p + unat n" using b by (simp add: unat_word_ariths)
  have fill: "same_on user_space m (fill_bytes (drop_bit 3 p + 0x100000000000) (drop_bit 3 q + 0x100000000000) v m)"
    if "unat q = unat p + unat n" for q v m
    using shadow_range[OF b that] by (auto simp: same_on_def fill_bytes_effect)
  have last: "same_on user_space m (m(drop_bit 3 (p + n) + 0x100000000000 := v))" if "(p + n) AND 7 > 0" for m v
  proof -
    have "(p + n) AND 7 = take_bit 3 (p + n)" by (simp add: take_bit_eq_mask mask_numeral)
    moreover have "unat (take_bit 3 (p + n)) = unat (p + n) mod 8"
      by (simp only: unsigned_take_bit_eq) (simp add: take_bit_eq_mod)
    ultimately have "\<not> 8 dvd unat (p + n)" using that by (simp add: word_less_nat_alt dvd_eq_mod_eq_0 del: unat_eq_0)
    moreover have "8 dvd (2 :: nat) ^ 47" by simp
    ultimately have lt: "unat (p + n) < 2 ^ 47" using b n by (metis le_neq_implies_less)
    moreover have "drop_bit 3 p \<le> drop_bit 3 (p + n)"
      unfolding word_le_nat_alt unat_drop3 n by (rule div_le_mono) simp
    moreover have "(unat p + unat n) div 8 < 2 ^ 44"
      using lt n by (intro less_mult_imp_div_less) simp
    ultimately have "unat (drop_bit 3 (p + n) + 0x100000000000 :: u64) \<notin> user_space"
      using b n by (simp add: user_space_def unat_word_ariths unat_drop_bit_eq drop_bit_eq_div)
    then show ?thesis by (auto simp: same_on_def)
  qed
  show "quiet regions s (asan_unpoison sys p n s)"
    using t fill[OF n] same_on_trans[OF fill[OF n] last, unfolded fun_upd_def] by (auto simp: asan_unpoison_def Let_def t_def[symmetric] intro!: mem)
  assume "8 dvd unat p" "8 dvd unat n"
  then have "8 dvd unat (p + n)" using n by simp
  have "drop_bit 3 (p + n + 7) = drop_bit 3 (p + n)"
  proof -
    have "unat (p + n + 7) = unat (p + n) + 7" using n b by (simp add: unat_word_ariths)
    then have "unat (p + n + 7) div 8 = unat (p + n) div 8" using \<open>8 dvd unat (p + n)\<close> by (auto elim!: dvdE)
    then show ?thesis by (simp only: word_unat_eq_iff unat_drop3)
  qed
  then show "quiet regions s (asan_poison sys p n s)"
    using t fill[OF n] by (auto simp: asan_poison_def Let_def t_def[symmetric] intro!: mem)
qed

end
