(* ===== verification/MallocCorrect.thy ===== *)
theory MallocCorrect
  imports MallocInv
begin

text \<open>
  The entry points of \<open>runtime/malloc.c\<close> end and keep the invariant of \<open>MallocInv\<close>; the properties of
  \<open>malloc\<close>, \<open>calloc\<close>, \<open>free\<close> and \<open>realloc\<close> follow.
\<close>

section \<open>What stays of the allocated blocks\<close>

definition keeps :: "u64 set \<Rightarrow> 'k rt \<Rightarrow> 'k rt \<Rightarrow> bool" where
  "keeps A s s' \<longleftrightarrow> same_on (used (mem_of s) A) (mem_of s) (mem_of s')"

lemma keeps_refl [simp]: "keeps A s s"
  by (simp add: keeps_def)

lemma keeps_fields:
  assumes "keeps A s s'" "c \<in> A" "unat c + 32 \<le> 2 ^ 64"
  shows "c_size (mem_of s') c = c_size (mem_of s) c" "c_user_size (mem_of s') c = c_user_size (mem_of s) c"
    "c_state (mem_of s') c = c_state (mem_of s) c"
proof -
  have "ext (mem_of s) c \<subseteq> used (mem_of s) A" using assms(2) by (auto simp: used_def)
  then have "same_on (hdr c) (mem_of s) (mem_of s')"
    using hdr_ext[of c "mem_of s"] assms(1) by (auto simp: keeps_def intro: same_on_mono)
  from fields_same[OF this assms(3)] show "c_size (mem_of s') c = c_size (mem_of s) c"
    "c_user_size (mem_of s') c = c_user_size (mem_of s) c" "c_state (mem_of s') c = c_state (mem_of s) c" by simp_all
qed

lemma keeps_used:
  assumes "heap_inv R s B cs" "A \<subseteq> B" "keeps A s s'"
  shows "used (mem_of s') A = used (mem_of s) A"
proof (rule used_cong)
  fix a assume a: "a \<in> A"
  have "unat a + 32 \<le> 2 ^ 64"
    using tiles_facts(1)[OF inv_facts(1)[OF assms(1)]] a assms(2) by (auto simp: headers_def)
  from keeps_fields(1)[OF assms(3) a this] show "c_size (mem_of s') a = c_size (mem_of s) a" .
qed

lemma keeps_trans:
  assumes "heap_inv R s B cs" "A \<subseteq> B" "keeps A s t" "keeps A t u"
  shows "keeps A s u"
  using assms(3,4) keeps_used[OF assms(1-3)] by (auto simp: keeps_def intro: same_on_trans)

lemma keeps_quiet:
  assumes "heap_inv R s B cs" "A \<subseteq> B" "quiet regions s s'"
  shows "keeps A s s'"
proof -
  have "used (mem_of s) A \<subseteq> user_space"
    using tilesD(6)[OF inv_facts(1)[OF assms(1)]] assms(2) by (auto simp: used_def)
  then show ?thesis using assms(3) by (auto simp: keeps_def quiet_def intro: same_on_mono)
qed

lemma inv_quiet:
  assumes "heap_inv R s A cs" "quiet regions s s'"
  shows "heap_inv R s' A cs"
proof (rule inv_frame[OF assms(1)])
  have "R \<subseteq> user_space" by (rule tilesD(4)[OF inv_facts(1)[OF assms(1)]])
  then show "same_on R (mem_of s) (mem_of s')" using assms(2) by (auto simp: quiet_def intro: same_on_mono)
qed (use assms(2) in \<open>simp add: quiet_def\<close>)

section \<open>Linking and coalescing\<close>

lemma walk_splits:
  assumes inv: "heap_inv R s A cs" and c: "c \<notin> set cs"
  obtains xs ys where "cs = xs @ ys" "\<forall>x\<in>set xs. x < c" "\<forall>y\<in>set ys. c < y"
    "address_walk (mem_of s) c 0 (freelist_head s) = Some (last_or 0 xs, hd_or_0 ys)"
proof -
  define xs ys where "xs = takeWhile (\<lambda>x. x < c) cs" and "ys = dropWhile (\<lambda>x. x < c) cs"
  have cs: "cs = xs @ ys" by (simp add: xs_def ys_def)
  have xs: "\<forall>x\<in>set xs. x < c" by (auto simp: xs_def dest: set_takeWhileD)
  have hd: "ys \<noteq> [] \<Longrightarrow> \<not> hd ys < c" unfolding ys_def by (rule hd_dropWhile)
  have ys: "\<forall>y\<in>set ys. c < y"
  proof
    fix y assume y: "y \<in> set ys"
    have "sorted_wrt (<) ys" using inv unfolding cs by (simp add: heap_inv_def sorted_wrt_append)
    then have "hd ys \<le> y" using y by (cases ys) auto
    moreover have "c \<noteq> y" using c y cs by auto
    ultimately show "c < y" using hd y by (cases ys) auto
  qed
  have "address_walk (mem_of s) c 0 (freelist_head s) = Some (last_or 0 xs, hd_or_0 ys)"
    by (rule address_walk_list) (use inv cs xs hd in \<open>auto simp: heap_inv_def not_less\<close>)
  with cs xs ys show ?thesis by (rule that)
qed

lemma coalesce_fields [simp]:
  "kernel (coalesce a b s) = kernel s" "g_asan_inited (coalesce a b s) = g_asan_inited s"
  by (simp_all add: coalesce_def)

lemma coalesce_right:
  assumes inv: "heap_inv R s A (xs @ c # ys)"
  defines "s' \<equiv> (if hd_or_0 ys \<noteq> 0 then coalesce c (hd_or_0 ys) s else s)"
  shows "\<exists>zs. heap_inv R s' A (xs @ c # zs)" "keeps A s s'" "kernel s' = kernel s"
proof -
  have "(\<exists>zs. heap_inv R s' A (xs @ c # zs)) \<and> keeps A s s' \<and> kernel s' = kernel s"
  proof (cases "ys \<noteq> [] \<and> hd ys \<noteq> 0 \<and> chunks_adjacent (mem_of s) c (hd ys)")
    case True
    then obtain y zs where ys: "ys = y # zs" by (cases ys) auto
    note L = inv_absorb[of R s A xs c y zs]
    have "s' = upd (absorb c y) s" using True by (simp add: s'_def coalesce_def ys)
    then show ?thesis using L inv True by (auto simp: ys keeps_def)
  next
    case False
    then have "s' = s" by (auto simp: s'_def coalesce_def)
    then show ?thesis using inv by auto
  qed
  then show "\<exists>zs. heap_inv R s' A (xs @ c # zs)" "keeps A s s'" "kernel s' = kernel s" by blast+
qed

lemma absorb_size:
  assumes inv: "heap_inv R s A (xs @ a # b # ys)" and adj: "chunks_adjacent (mem_of s) a b"
  shows "c_size (mem_of s) a \<le> c_size (absorb a b (mem_of s)) a"
proof -
  note T = inv_facts(1)[OF inv]
  note H = tiles_facts(1)[OF T] and B = tiles_facts(3)[OF T]
  have a: "unat a + 32 + unat (c_size (mem_of s) a) \<le> 2 ^ 47" and b: "unat b + 32 + unat (c_size (mem_of s) b) \<le> 2 ^ 47"
    by (rule B; simp)+
  have "b \<in> A \<union> set (xs @ a # b # ys)" "a \<in> A \<union> set (xs @ a # b # ys)" by simp_all
  then have "c_size (absorb a b (mem_of s)) a = c_size (mem_of s) a + 32 + c_size (mem_of s) b"
    by (simp add: absorb_def Let_def fields_upd[OF H])
  moreover have "unat (c_size (mem_of s) a + 32 + c_size (mem_of s) b) = unat (c_size (mem_of s) a) + 32 + unat (c_size (mem_of s) b)"
    using a b by (simp add: unat_word_ariths)
  ultimately show ?thesis by (simp add: word_le_nat_alt)
qed

lemma coalesce_right_size:
  assumes inv: "heap_inv R s A (xs @ c # ys)"
  defines "s' \<equiv> (if hd_or_0 ys \<noteq> 0 then coalesce c (hd_or_0 ys) s else s)"
  shows "c_size (mem_of s) c \<le> c_size (mem_of s') c"
proof (cases "ys \<noteq> [] \<and> hd ys \<noteq> 0 \<and> chunks_adjacent (mem_of s) c (hd ys)")
  case True
  then obtain y zs where ys: "ys = y # zs" by (cases ys) auto
  then show ?thesis using True absorb_size[OF inv[unfolded ys]] by (simp add: s'_def coalesce_def)
qed (auto simp: s'_def coalesce_def)

lemma coalesce_left:
  assumes inv: "heap_inv R s A (xs @ c # ys)"
  defines "s' \<equiv> (if last_or 0 xs \<noteq> 0 then coalesce (last_or 0 xs) c s else s)"
  shows "\<exists>zs. heap_inv R s' A zs" "keeps A s s'" "kernel s' = kernel s"
proof -
  have "(\<exists>zs. heap_inv R s' A zs) \<and> keeps A s s' \<and> kernel s' = kernel s"
  proof (cases "xs \<noteq> [] \<and> last xs \<noteq> 0 \<and> chunks_adjacent (mem_of s) (last xs) c")
    case True
    then have xs: "xs @ c # ys = butlast xs @ last xs # c # ys" by simp
    note L = inv_absorb[of R s A "butlast xs" "last xs" c ys]
    have "s' = upd (absorb (last xs) c) s" using True by (simp add: s'_def coalesce_def)
    then show ?thesis using L inv True unfolding xs by (auto simp: keeps_def)
  next
    case False
    then have "s' = s" by (auto simp: s'_def coalesce_def)
    then show ?thesis using inv by auto
  qed
  then show "\<exists>zs. heap_inv R s' A zs" "keeps A s s'" "kernel s' = kernel s" by blast+
qed

section \<open>Growing the heap\<close>

lemma unat_and_not_mask: "unat ((x :: u64) AND NOT (mask k)) = unat x div 2 ^ k * 2 ^ k"
proof -
  have "x AND NOT (mask k) = push_bit k (drop_bit k x)" by (rule bit_word_eqI) (auto simp: bit_simps)
  moreover have "unat (push_bit k (drop_bit k x)) = take_bit 64 (unat x div 2 ^ k * 2 ^ k)"
    by (simp only: unsigned_push_bit_eq unat_drop_bit_eq) (simp add: push_bit_eq_mult drop_bit_eq_div)
  moreover have "unat x div 2 ^ k * 2 ^ k < 2 ^ 64"
    by (rule le_less_trans[OF div_times_less_eq_dividend unat_bound])
  ultimately show ?thesis by (simp add: take_bit_nat_eq_self)
qed

lemma unat_align:
  "unat ((x :: u64) AND - 4096) = unat x div 4096 * 4096" "unat (x AND - 16) = unat x div 16 * 16"
  using unat_and_not_mask[of x 12] unat_and_not_mask[of x 4] by (simp_all add: mask_numeral)

definition grow_size :: "u64 \<Rightarrow> u64" where
  "grow_size need = (let region = (need + (32 + 64) + 4095) AND NOT 4095 in if region < 1048576 then 1048576 else region)"

lemma grow_size: "4096 dvd unat (grow_size need)" "1048576 \<le> unat (grow_size need)"
proof -
  have "4096 dvd (1048576 :: nat)" by simp
  then show "4096 dvd unat (grow_size need)" by (auto simp: grow_size_def Let_def unat_align)
  show "1048576 \<le> unat (grow_size need)" by (auto simp: grow_size_def Let_def word_less_nat_alt not_less)
qed

lemma heap_grow_eq:
  assumes "\<not> need > - 1 - (32 + 64)"
  shows "heap_grow sys need s =
    (case map_anon sys (grow_size need) s of (p, s) \<Rightarrow>
       if p = 0 then Some s
       else
         let s = upd (set_state p 1 \<circ> set_user_size p 0 \<circ> set_size p (grow_size need - 32)) (asan_unpoison sys p (grow_size need) s)
         in do {
           (left, n) \<leftarrow> address_walk (mem_of s) p 0 (freelist_head s);
           let s = set_link left p (upd (set_next_free p n) s);
           Some (if n \<noteq> 0 then coalesce p n s else s)
         })"
  unfolding heap_grow_def grow_size_def Let_def if_not_P[OF assms] ..

lemma map_anon_cases:
  assumes "mmap_ok sys regions" "map_anon sys n s = (p, s')"
  obtains "p = 0" "quiet regions s s'" "sint (fst (sys (kernel s) (MapAnon n))) < 0"
  | "0 < unat p" "4096 dvd unat p" "block p n \<subseteq> user_space" "block p n \<inter> regions (kernel s) = {}"
    "regions (kernel s) \<union> block p n \<subseteq> regions (kernel s')" "freelist_head s' = freelist_head s"
    "same_on (- block p n) (mem_of s) (mem_of s')"
proof -
  obtain q k where k: "sys (kernel s) (MapAnon n) = (q, k)" by fastforce
  have a: "if sint q < 0 then regions k = regions (kernel s)
      else 0 < unat q \<and> 4096 dvd unat q \<and> block q n \<subseteq> user_space \<and> block q n \<inter> regions (kernel s) = {} \<and>
        regions (kernel s) \<union> block q n \<subseteq> regions k"
  proof -
    note assms(1)[unfolded mmap_ok_def, THEN conjunct1, THEN spec, THEN spec, of "kernel s" n]
    then show ?thesis unfolding k prod.case .
  qed
  show ?thesis
  proof (cases "sint q < 0")
    case True
    then show ?thesis using that(1) assms(2) a by (auto simp: map_anon_def k quiet_def)
  next
    case False
    then have p: "p = q" "s' = s\<lparr>kernel := k, mem_of := zero_pages q n (mem_of s)\<rparr>"
      using assms(2) by (auto simp: map_anon_def k)
    have b: "block q n \<subseteq> user_space" using a False by simp
    have "unat q + unat n \<le> 2 ^ 64"
    proof (cases "unat n = 0")
      case True
      then show ?thesis using unat_bound[of q] by simp
    next
      case False
      then have "unat q + unat n - 1 \<in> block q n" by (auto simp: block_def)
      then have "unat q + unat n - 1 < 2 ^ 47" using b by (auto simp: user_space_def)
      then show ?thesis by simp
    qed
    then have "same_on (- block q n) (mem_of s) (zero_pages q n (mem_of s))"
      using offset_less[of q n] by (auto simp: same_on_def zero_pages_def block_def)
    then show ?thesis using that(2) a False by (simp add: p)
  qed
qed

lemma grow_size_fits:
  assumes "unat need + 4191 < 2 ^ 64"
  shows "need \<le> grow_size need - 32"
proof -
  define r where "r = (need + (32 + 64) + 4095) AND NOT 4095"
  have "unat (need + (32 + 64) + 4095) = unat need + 4191" using unat_plus[of need 4191] assms by (simp add: add.assoc)
  moreover have "r = (need + (32 + 64) + 4095) AND - 4096" by (simp add: r_def)
  ultimately have r: "unat r = (unat need + 4191) div 4096 * 4096" by (simp only: unat_align)
  have "r \<le> grow_size need"
    unfolding grow_size_def r_def[symmetric] Let_def by (cases "r < 1048576") (simp_all add: less_imp_le)
  then have "(unat need + 4191) div 4096 * 4096 \<le> unat (grow_size need)" by (simp only: word_le_nat_alt r)
  moreover have "unat need + 32 \<le> (unat need + 4191) div 4096 * 4096"
    using div_mult_mod_eq[of "unat need + 4191" 4096] mod_less_divisor[of 4096 "unat need + 4191"] by linarith
  moreover have "unat (grow_size need - 32) = unat (grow_size need) - 32"
    using grow_size(2)[of need] by (simp add: unat_sub_if' word_le_nat_alt)
  ultimately show ?thesis unfolding word_le_nat_alt by linarith
qed

text \<open>Why a request for \<open>need\<close> bytes may find no memory.\<close>

definition refused :: "'k sys \<Rightarrow> 'k rt \<Rightarrow> u64 \<Rightarrow> bool" where
  "refused sys s need \<longleftrightarrow>
     2 ^ 64 \<le> unat need + 4191 \<or> sint (fst (sys (kernel s) (MapAnon (grow_size need)))) < 0"

text \<open>Linking a new chunk of memory that is not part of the heap yet.\<close>

lemma link_new:
  assumes inv: "heap_inv R s A cs"
    and c: "chunk_ok (mem_of s) c" "ext (mem_of s) c \<inter> R = {}" "ext (mem_of s) c \<subseteq> user_space" "c_state (mem_of s) c = 1"
  obtains xs ys s' where "address_walk (mem_of s) c 0 (freelist_head s) = Some (last_or 0 xs, hd_or_0 ys)"
    "s' = set_link (last_or 0 xs) c (upd (set_next_free c (hd_or_0 ys)) s)"
    "heap_inv (R \<union> ext (mem_of s) c) s' A (xs @ c # ys)" "keeps A s s'" "kernel s' = kernel s"
    "c_size (mem_of s') c = c_size (mem_of s) c"
proof -
  have "c \<notin> set cs" using tilesD(5)[OF inv_facts(1)[OF inv], of c] in_ext[of c "mem_of s"] c(2) by blast
  from walk_splits[OF inv this] obtain xs ys where *: "cs = xs @ ys" "\<forall>x\<in>set xs. x < c" "\<forall>y\<in>set ys. c < y"
    "address_walk (mem_of s) c 0 (freelist_head s) = Some (last_or 0 xs, hd_or_0 ys)" .
  note I = inv_insert[OF inv[unfolded *(1)] c *(2,3)]
  show ?thesis by (rule that[OF *(4) refl I(1)]) (use I(2) I(3)[OF insertI1] in \<open>simp_all add: keeps_def\<close>)
qed

lemma heap_grow_correct:
  assumes ok: "mmap_ok sys regions" and inv: "heap_inv R s A cs" and R: "R \<subseteq> regions (kernel s)"
  shows "\<exists>s' R' cs'. heap_grow sys need s = Some s' \<and> heap_inv R' s' A cs' \<and> R \<subseteq> R' \<and>
    R' \<subseteq> regions (kernel s') \<and> keeps A s s' \<and> (refused sys s need \<or> (\<exists>c\<in>set cs'. need \<le> c_size (mem_of s') c))"
proof (cases "need > - 1 - (32 + 64)")
  case True
  then have "heap_grow sys need s = Some s" by (simp add: heap_grow_def)
  moreover have "refused sys s need" using True by (simp add: refused_def word_less_nat_alt)
  ultimately show ?thesis using inv R by (auto intro: keeps_refl)
next
  case False
  let ?g = "grow_size need"
  obtain p s1 where m: "map_anon sys ?g s = (p, s1)" by fastforce
  from ok m show ?thesis
  proof (cases rule: map_anon_cases)
    case 1
    then have "heap_grow sys need s = Some s1"
      unfolding heap_grow_eq[OF False] m prod.case by simp
    moreover have "heap_inv R s1 A cs" "keeps A s s1" "R \<subseteq> regions (kernel s1)"
      using inv_quiet[OF inv 1(2)] keeps_quiet[OF inv _ 1(2)] 1(2) R by (auto simp: quiet_def)
    moreover have "refused sys s need" using 1(3) by (simp add: refused_def)
    ultimately show ?thesis by blast
  next
    case 2
    have bound: "unat p + unat ?g \<le> 2 ^ 47"
    proof -
      have "unat p + unat ?g - 1 \<in> block p ?g" using grow_size(2)[of need] by (auto simp: block_def)
      then have "unat p + unat ?g - 1 < 2 ^ 47" using 2(3) by (auto simp: user_space_def)
      then show ?thesis by simp
    qed
    define s2 where "s2 = asan_unpoison sys p ?g s1"
    have q: "quiet regions s1 s2" unfolding s2_def by (rule asan_quiet(1)[OF ok bound])
    define s3 where "s3 = upd (set_state p 1 \<circ> set_user_size p 0 \<circ> set_size p (?g - 32)) s2"
    have R_dj: "R \<inter> block p ?g = {}" using R 2(4) by blast
    then have same: "same_on R (mem_of s) (mem_of s1)" by (intro same_on_mono[OF 2(7)]) blast
    have i2: "heap_inv R s2 A cs" by (rule inv_quiet[OF inv_frame[OF inv same 2(6)] q])
    have n: "unat p + 32 \<le> 2 ^ 64" using bound grow_size(2)[of need] by simp
    have sz: "unat (?g - 32) = unat ?g - 32" using grow_size(2)[of need] by (simp add: unat_sub_if' word_le_nat_alt)
    have e: "ext (mem_of s3) p = block p ?g"
      using grow_size(2)[of need] by (auto simp: s3_def ext_def block_def own_fields[OF n] sz)
    have h: "hdr p \<subseteq> block p ?g" using grow_size(2)[of need] by (auto simp: hdr_def block_def)
    have same3: "same_on (- hdr p) (mem_of s2) (mem_of s3)"
    proof -
      have dj: "- hdr p \<inter> hdr p = {}" by blast
      show ?thesis unfolding s3_def
        using same_on_trans[OF same_on_trans[OF setter_same(1)[OF n dj] setter_same(2)[OF n dj]] setter_same(4)[OF n dj]]
        by simp
    qed
    have i3: "heap_inv R s3 A cs"
    proof (rule inv_frame[OF i2])
      show "same_on R (mem_of s2) (mem_of s3)" by (rule same_on_mono[OF same3]) (use R_dj h in blast)
    qed (simp add: s3_def)
    have c: "chunk_ok (mem_of s3) p" "c_state (mem_of s3) p = 1"
    proof -
      have "16 dvd unat p" "16 dvd unat ?g" using 2(2) grow_size(1)[of need] by (auto elim!: dvd_trans[rotated])
      then show "chunk_ok (mem_of s3) p" "c_state (mem_of s3) p = 1"
        using grow_size(2)[of need] 2(1)
        by (auto simp: s3_def chunk_ok_def own_fields[OF n] sz intro!: dvd_diff_nat)
    qed
    have dj3: "ext (mem_of s3) p \<inter> R = {}" "ext (mem_of s3) p \<subseteq> user_space" using e R_dj 2(3) by auto
    from link_new[OF i3 c(1) dj3 c(2)] obtain xs ys s4 where L:
      "address_walk (mem_of s3) p 0 (freelist_head s3) = Some (last_or 0 xs, hd_or_0 ys)"
      "s4 = set_link (last_or 0 xs) p (upd (set_next_free p (hd_or_0 ys)) s3)"
      "heap_inv (R \<union> ext (mem_of s3) p) s4 A (xs @ p # ys)" "keeps A s3 s4" "kernel s4 = kernel s3"
      "c_size (mem_of s4) p = c_size (mem_of s3) p" .
    define s5 where "s5 = (if hd_or_0 ys \<noteq> 0 then coalesce p (hd_or_0 ys) s4 else s4)"
    note C = coalesce_right[OF L(3), folded s5_def]
    have "p \<noteq> 0" using 2(1) by auto
    then have g: "heap_grow sys need s = Some s5"
      using L(1) unfolding heap_grow_eq[OF False] m prod.case if_not_P[OF \<open>p \<noteq> 0\<close>] Let_def
        s2_def[symmetric] s3_def[symmetric]
      by (simp add: s5_def L(2) del: set_link_fields)
    have "keeps A s s2"
    proof -
      have "keeps A s s1" using same inv tilesD(5)[OF inv_facts(1)[OF inv]]
        by (auto simp: keeps_def used_def intro!: same_on_mono[OF same])
      then show ?thesis
        using keeps_trans[OF inv order_refl] keeps_quiet[OF inv_frame[OF inv same 2(6)] order_refl q] by blast
    qed
    moreover have "keeps A s2 s3"
      using R_dj h tilesD(5)[OF inv_facts(1)[OF i2]] by (auto simp: keeps_def used_def intro!: same_on_mono[OF same3])
    ultimately have "keeps A s s5"
      using keeps_trans[OF inv order_refl] L(4) C(2) by blast
    moreover have "regions (kernel s) \<union> block p ?g \<subseteq> regions (kernel s5)"
      using q 2(5) C(3) L(5) by (simp add: s3_def quiet_def)
    moreover have "refused sys s need \<or> need \<le> c_size (mem_of s5) p"
    proof (cases "refused sys s need")
      case False
      have "c_size (mem_of s3) p = ?g - 32" by (simp add: s3_def own_fields[OF n])
      then have "?g - 32 \<le> c_size (mem_of s5) p"
        using coalesce_right_size[OF L(3), folded s5_def] L(6) by simp
      moreover have "need \<le> ?g - 32" by (rule grow_size_fits) (use False in \<open>simp add: refused_def\<close>)
      ultimately show ?thesis using order_trans by blast
    qed simp
    moreover obtain zs where "heap_inv (R \<union> ext (mem_of s3) p) s5 A (xs @ p # zs)" using C(1) by blast
    ultimately show ?thesis
      using g R e by (intro exI[of _ s5] exI[of _ "R \<union> ext (mem_of s3) p"] exI[of _ "xs @ p # zs"]) auto
  qed
qed

section \<open>Allocating\<close>

lemma align16:
  assumes "n \<noteq> 0"
  shows "16 dvd unat (align16 n)" "16 \<le> unat (align16 n)" "unat (align16 n) < 2 ^ 47 \<Longrightarrow> n \<le> align16 n"
proof -
  have "16 dvd unat (align16 n) \<and> 16 \<le> unat (align16 n) \<and> (unat (align16 n) < 2 ^ 47 \<longrightarrow> n \<le> align16 n)"
  proof (cases "n > - 16")
    case True
    then show ?thesis by (simp add: align16_def)
  next
    case False
    then have "unat n \<le> 2 ^ 64 - 16" by (simp add: not_less word_le_nat_alt)
    moreover have "0 < unat n" using assms by (simp add: unat_gt_0)
    ultimately have "unat (n + 15) = unat n + 15" using unat_plus[of n 15] by simp
    moreover have "align16 n = (n + 15) AND - 16" using False by (simp add: align16_def)
    ultimately have a: "unat (align16 n) = (unat n + 15) div 16 * 16" by (simp add: unat_align)
    have "unat n \<le> (unat n + 15) div 16 * 16" by presburger
    moreover have "16 \<le> (unat n + 15) div 16 * 16" using \<open>0 < unat n\<close> by presburger
    ultimately show ?thesis by (simp add: a word_le_nat_alt)
  qed
  then show "16 dvd unat (align16 n)" "16 \<le> unat (align16 n)" "unat (align16 n) < 2 ^ 47 \<Longrightarrow> n \<le> align16 n" by blast+
qed

text \<open>The search for a chunk.\<close>

lemma first_fit_cases:
  assumes inv: "heap_inv R s A cs"
  obtains "first_fit (mem_of s) n 0 (freelist_head s) = Some (last_or 0 cs, 0)" "\<forall>c\<in>set cs. c_size (mem_of s) c < n"
  | xs c ys where "cs = xs @ c # ys" "first_fit (mem_of s) n 0 (freelist_head s) = Some (last_or 0 xs, c)"
    "n \<le> c_size (mem_of s) c" "c \<noteq> 0"
proof -
  let ?P = "\<lambda>x. c_size (mem_of s) x < n"
  define xs ys where "xs = takeWhile ?P cs" and "ys = dropWhile ?P cs"
  have cs: "cs = xs @ ys" by (simp add: xs_def ys_def)
  have xs: "\<forall>x\<in>set xs. ?P x" by (auto simp: xs_def dest: set_takeWhileD)
  have hd: "ys \<noteq> [] \<Longrightarrow> \<not> ?P (hd ys)" unfolding ys_def by (rule hd_dropWhile)
  have f: "first_fit (mem_of s) n 0 (freelist_head s) = Some (last_or 0 xs, hd_or_0 ys)"
    by (rule first_fit_list) (use inv cs xs hd in \<open>auto simp: heap_inv_def not_less\<close>)
  show ?thesis
  proof (cases ys)
    case Nil
    then show ?thesis using that(1) f cs xs by simp
  next
    case (Cons c zs)
    moreover have "c \<noteq> 0" using tiles_facts(2)[OF inv_facts(1)[OF inv]] cs Cons by auto
    ultimately show ?thesis using that(2) f cs hd by (simp add: not_less)
  qed
qed

text \<open>Writes to the body of an allocated chunk do not disturb the heap.\<close>

definition body :: "mem \<Rightarrow> u64 \<Rightarrow> nat set" where
  "body m c = {unat c + 32 ..< unat c + 32 + unat (c_size m c)}"

lemma body_hdr:
  assumes "tiles m D R" "c \<in> D" "d \<in> D"
  shows "body m c \<inter> hdr d = {}"
proof (cases "c = d")
  case False
  then have "ext m c \<inter> ext m d = {}" by (rule tilesD(2)[OF assms])
  moreover have "body m c \<subseteq> ext m c" by (auto simp: body_def ext_def)
  ultimately show ?thesis using hdr_ext[of d m] by blast
qed (auto simp: body_def hdr_def)

lemma inv_body:
  assumes inv: "heap_inv R s A cs" and c: "c \<in> A" and same: "same_on (- body (mem_of s) c) (mem_of s) (mem_of s')"
    and h: "freelist_head s' = freelist_head s"
  shows "heap_inv R s' A cs" "B \<subseteq> A - {c} \<Longrightarrow> keeps B s s'"
proof -
  note T = inv_facts(1)[OF inv]
  show "heap_inv R s' A cs"
  proof (rule inv_frame_hdr[OF inv _ h])
    fix d assume "d \<in> A \<union> set cs"
    then have "body (mem_of s) c \<inter> hdr d = {}" using body_hdr[OF T] c by blast
    then show "same_on (hdr d) (mem_of s) (mem_of s')" by (intro same_on_mono[OF same]) blast
  qed
  assume B: "B \<subseteq> A - {c}"
  have "ext (mem_of s) b \<inter> body (mem_of s) c = {}" if "b \<in> B" for b
  proof -
    have "ext (mem_of s) b \<inter> ext (mem_of s) c = {}" using tilesD(2)[OF T, of b c] B c that by blast
    moreover have "body (mem_of s) c \<subseteq> ext (mem_of s) c" by (auto simp: body_def ext_def)
    ultimately show ?thesis by blast
  qed
  then show "keeps B s s'" unfolding keeps_def by (intro same_on_mono[OF same]) (auto simp: used_def)
qed

text \<open>The chunk \<open>malloc\<close> found, from there to its result.\<close>

definition hand_out :: "'k sys \<Rightarrow> u64 \<Rightarrow> u64 \<Rightarrow> u64 \<Rightarrow> u64 \<Rightarrow> 'k rt \<Rightarrow> 'k rt" where
  "hand_out sys u n left c s =
     upd (memset (c + 32) 0 n) (asan_unpoison sys (c + 32) n (upd (claim_chunk c u) (carve n left c s)))"

lemma hand_out_correct:
  fixes s :: "'k rt" and u n :: u64
  assumes ok: "mmap_ok sys regions" and inv: "heap_inv R s A (xs @ c # ys)"
    and n: "16 \<le> unat n" "16 dvd unat n" "n \<le> c_size (mem_of s) c"
  defines "s' \<equiv> hand_out sys u n (last_or 0 xs) c s"
  shows "\<exists>cs. heap_inv R s' (insert c A) cs" "n \<le> c_size (mem_of s') c" "c_user_size (mem_of s') c = u" "c \<notin> A"
    "keeps A s s'" "\<forall>x. unat x \<in> block (c + 32) n \<longrightarrow> mem_of s' x = 0" "regions (kernel s') = regions (kernel s)"
proof -
  define s1 where "s1 = upd (claim_chunk c u) (carve n (last_or 0 xs) c s)"
  define s2 where "s2 = asan_unpoison sys (c + 32) n s1"
  have s': "s' = upd (memset (c + 32) 0 n) s2" by (simp add: s'_def hand_out_def s2_def s1_def)
  note C = inv_carve(1,2,3,4)[OF inv n, of u, folded s1_def] inv_carve(5)[OF inv n]
  from C(1) obtain cs where i1: "heap_inv R s1 (insert c A) cs" by blast
  show "c \<notin> A" by (rule C(5))
  have c: "c \<in> insert c A \<union> set cs" by simp
  note F = tiles_facts(3)[OF inv_facts(1)[OF i1] c]
  have n32: "unat c + 32 \<le> 2 ^ 64" and nb: "unat c + 32 + unat n \<le> 2 ^ 47"
    using F C(2) by (simp_all add: word_le_nat_alt)
  have c32: "unat (c + 32) = unat c + 32" using unat_plus[of c 32] F by simp
  have q: "quiet regions s1 s2" unfolding s2_def by (rule asan_quiet(1)[OF ok]) (use c32 nb in simp)
  have i2: "heap_inv R s2 (insert c A) cs" by (rule inv_quiet[OF i1 q])
  have k12: "keeps (insert c A) s1 s2" by (rule keeps_quiet[OF i1 order_refl q])
  have f2: "c_size (mem_of s2) c = c_size (mem_of s1) c" "c_user_size (mem_of s2) c = c_user_size (mem_of s1) c"
    using keeps_fields[OF k12 _ n32] by simp_all
  have m: "mem_of s' x = (if unat x \<in> block (c + 32) n then 0 else mem_of s2 x)" for x
    using memset_effect[of "c + 32" n 0 "mem_of s2" x] c32 nb by (auto simp: s' block_def)
  have sub: "block (c + 32) n \<subseteq> body (mem_of s2) c"
    using c32 C(2) f2(1) by (auto simp: block_def body_def word_le_nat_alt)
  have same: "same_on (- body (mem_of s2) c) (mem_of s2) (mem_of s')"
    using sub m by (auto simp: same_on_def)
  have fh: "freelist_head s' = freelist_head s2" by (simp add: s')
  note B = inv_body[OF i2 insertI1 same fh]
  show "\<exists>cs. heap_inv R s' (insert c A) cs" using B(1) by blast
  have "same_on (hdr c) (mem_of s2) (mem_of s')"
    using body_hdr[OF inv_facts(1)[OF i2] c c] by (intro same_on_mono[OF same]) blast
  from fields_same[OF this n32] show "n \<le> c_size (mem_of s') c" "c_user_size (mem_of s') c = u"
    using C(2,3) f2 by simp_all
  have "keeps A s s1" using C(4) by (simp add: keeps_def)
  moreover have "keeps A s1 s2" by (rule keeps_quiet[OF i1 _ q]) blast
  moreover have "keeps A s2 s'" by (rule B(2)) (use C(5) in blast)
  ultimately show "keeps A s s'" using keeps_trans[OF inv order_refl] by blast
  show "\<forall>x. unat x \<in> block (c + 32) n \<longrightarrow> mem_of s' x = 0" using m by simp
  show "regions (kernel s') = regions (kernel s)" using q by (simp add: s' quiet_def s1_def)
qed

lemma malloc_eq:
  "malloc sys orig_n s =
     (let n = align16 (if orig_n = 0 then 1 else orig_n) in do {
        s \<leftarrow> (if freelist_head s = 0 then heap_grow sys n s else Some s);
        (left, c) \<leftarrow> first_fit (mem_of s) n 0 (freelist_head s);
        (left, c, s) \<leftarrow>
          (if c = 0 then do {
             s \<leftarrow> heap_grow sys n s;
             (left, c) \<leftarrow> first_fit (mem_of s) n 0 (freelist_head s);
             Some (left, c, s)
           } else Some (left, c, s));
        if c = 0 then Some (0, s) else Some (c + 32, hand_out sys orig_n n left c s)
      })"
  unfolding malloc_def hand_out_def claim_chunk_def Let_def ..

text \<open>What a caller of \<open>malloc\<close> gets: a block of its own, 16-byte aligned and zeroed, or a null pointer.\<close>

definition allocates :: "'k sys \<Rightarrow> ('k \<Rightarrow> nat set) \<Rightarrow> 'k rt \<Rightarrow> nat set \<Rightarrow> u64 set \<Rightarrow> u64 \<Rightarrow> u64 \<times> 'k rt \<Rightarrow> bool" where
  "allocates sys regions s R A n r \<longleftrightarrow>
     (case r of (p, s') \<Rightarrow>
        \<exists>R' cs'. R \<subseteq> R' \<and> R' \<subseteq> regions (kernel s') \<and> keeps A s s' \<and>
          (if p = 0 then heap_inv R' s' A cs' \<and> refused sys s (align16 (if n = 0 then 1 else n))
           else p - 32 \<notin> A \<and> heap_inv R' s' (insert (p - 32) A) cs' \<and> 16 dvd unat p \<and>
             n \<le> c_size (mem_of s') (p - 32) \<and> c_user_size (mem_of s') (p - 32) = n \<and>
             (\<forall>x. unat x \<in> block p n \<longrightarrow> mem_of s' x = 0)))"

lemma allocates_null:
  assumes "R \<subseteq> R'" "R' \<subseteq> regions (kernel s')" "keeps A s s'" "heap_inv R' s' A cs'"
    "refused sys s (align16 (if n = 0 then 1 else n))"
  shows "allocates sys regions s R A n (0, s')"
  unfolding allocates_def prod.case by (intro exI[of _ R'] exI[of _ cs']) (use assms in simp)

lemma allocates_block:
  assumes "R \<subseteq> R'" "R' \<subseteq> regions (kernel s')" "keeps A s s'" "p \<noteq> 0" "p - 32 \<notin> A"
    "heap_inv R' s' (insert (p - 32) A) cs'" "16 dvd unat p" "n \<le> c_size (mem_of s') (p - 32)"
    "c_user_size (mem_of s') (p - 32) = n" "\<forall>x. unat x \<in> block p n \<longrightarrow> mem_of s' x = 0"
  shows "allocates sys regions s R A n (p, s')"
  unfolding allocates_def prod.case by (intro exI[of _ R'] exI[of _ cs']) (use assms in simp)

lemma hand_out_allocates:
  assumes ok: "mmap_ok sys regions" and inv0: "heap_inv R0 s0 A cs0" and R: "R0 \<subseteq> R" "R \<subseteq> regions (kernel s)"
    and k: "keeps A s0 s" and inv: "heap_inv R s A (xs @ c # ys)"
    and n: "n = align16 (if u = 0 then 1 else u)" "n \<le> c_size (mem_of s) c"
  shows "allocates sys regions s0 R0 A u (c + 32, hand_out sys u n (last_or 0 xs) c s)"
proof -
  have a: "16 \<le> unat n" "16 dvd unat n" using align16 n(1) by auto
  note H = hand_out_correct(1,2,3,5,6,7)[OF ok inv a n(2), of u] hand_out_correct(4)[OF ok inv a n(2)]
  note T = inv_facts(1)[OF inv]
  have b: "unat c + 32 + unat (c_size (mem_of s) c) \<le> 2 ^ 47" by (rule tiles_facts(3)[OF T]) simp
  then have c32: "unat (c + 32) = unat c + 32" using unat_plus[of c 32] by simp
  then have nz: "c + 32 \<noteq> 0" by auto
  have al: "16 dvd unat (c + 32)"
    using tilesD(1)[OF T, of c] c32 by (auto simp: chunk_ok_def intro!: dvd_add)
  have un: "u \<le> n"
  proof -
    have "unat n < 2 ^ 47" using b n(2) by (simp add: word_le_nat_alt)
    then have "(if u = 0 then 1 else u) \<le> n" unfolding n(1) by (intro align16(3)) auto
    then show ?thesis by (auto split: if_splits)
  qed
  have "block (c + 32) u \<subseteq> block (c + 32) n"
    using un by (auto simp: block_def word_le_nat_alt)
  then have z: "\<forall>x. unat x \<in> block (c + 32) u \<longrightarrow> mem_of (hand_out sys u n (last_or 0 xs) c s) x = 0"
    using H(5) by blast
  obtain cs where i: "heap_inv R (hand_out sys u n (last_or 0 xs) c s) (insert c A) cs" using H(1) by blast
  have ks: "keeps A s0 (hand_out sys u n (last_or 0 xs) c s)"
    by (rule keeps_trans[OF inv0 order_refl k H(4)])
  have c: "c + 32 - 32 = c" by simp
  show ?thesis
    by (rule allocates_block[OF R(1) _ ks nz _ _ al _ _ z, unfolded c, OF _ H(7) i order_trans[OF un H(2)] H(3)])
      (use H(6) R(2) in simp)
qed

lemma malloc_correct:
  assumes ok: "mmap_ok sys regions" and inv: "heap_inv R s A cs" and R: "R \<subseteq> regions (kernel s)"
  shows "\<exists>r. malloc sys n s = Some r \<and> allocates sys regions s R A n r"
proof -
  define k where "k = align16 (if n = 0 then 1 else n)"
  have "\<exists>s1 R1 cs1. (if freelist_head s = 0 then heap_grow sys k s else Some s) = Some s1 \<and> heap_inv R1 s1 A cs1 \<and>
      R \<subseteq> R1 \<and> R1 \<subseteq> regions (kernel s1) \<and> keeps A s s1 \<and>
      (s1 = s \<or> refused sys s k \<or> (\<exists>c\<in>set cs1. k \<le> c_size (mem_of s1) c))"
  proof (cases "freelist_head s = 0")
    case True
    then show ?thesis using heap_grow_correct[OF ok inv R, of k] by auto
  next
    case False
    then show ?thesis using inv R by auto
  qed
  then obtain s1 R1 cs1 where 1: "(if freelist_head s = 0 then heap_grow sys k s else Some s) = Some s1"
    "heap_inv R1 s1 A cs1" "R \<subseteq> R1" "R1 \<subseteq> regions (kernel s1)" "keeps A s s1"
    "s1 = s \<or> refused sys s k \<or> (\<exists>c\<in>set cs1. k \<le> c_size (mem_of s1) c)" by blast
  from 1(2) show ?thesis
  proof (cases rule: first_fit_cases[of R1 s1 A cs1 k])
    case (2 xs c ys)
    then have "malloc sys n s = Some (c + 32, hand_out sys n k (last_or 0 xs) c s1)"
      unfolding malloc_eq Let_def k_def[symmetric] 1(1) by simp
    moreover have "allocates sys regions s R A n (c + 32, hand_out sys n k (last_or 0 xs) c s1)"
      using hand_out_allocates[OF ok inv 1(3,4,5) 1(2)[unfolded 2(1)] k_def 2(3)] .
    ultimately show ?thesis by blast
  next
    case no1: 1
    from heap_grow_correct[OF ok 1(2,4), of k] obtain s2 R2 cs2 where 2: "heap_grow sys k s1 = Some s2"
      "heap_inv R2 s2 A cs2" "R1 \<subseteq> R2" "R2 \<subseteq> regions (kernel s2)" "keeps A s1 s2"
      "refused sys s1 k \<or> (\<exists>c\<in>set cs2. k \<le> c_size (mem_of s2) c)" by blast
    have k2: "keeps A s s2" by (rule keeps_trans[OF inv order_refl 1(5) 2(5)])
    have R2: "R \<subseteq> R2" using 1(3) 2(3) by blast
    from 2(2) show ?thesis
    proof (cases rule: first_fit_cases[of R2 s2 A cs2 k])
      case f: (2 xs c ys)
      then have "malloc sys n s = Some (c + 32, hand_out sys n k (last_or 0 xs) c s2)"
        unfolding malloc_eq Let_def k_def[symmetric] 1(1) using no1 2(1) by simp
      moreover have "allocates sys regions s R A n (c + 32, hand_out sys n k (last_or 0 xs) c s2)"
        using hand_out_allocates[OF ok inv R2 2(4) k2 2(2)[unfolded f(1)] k_def f(3)] .
      ultimately show ?thesis by blast
    next
      case no2: 1
      then have "malloc sys n s = Some (0, s2)"
        unfolding malloc_eq Let_def k_def[symmetric] 1(1) using no1 2(1) by simp
      moreover have "refused sys s k"
        using 1(6) 2(6) no1(2) no2(2) by (auto simp flip: not_less)
      then have "allocates sys regions s R A n (0, s2)"
        unfolding k_def using R2 2(4) k2 2(2) by (intro allocates_null[where R' = R2 and cs' = cs2])
      ultimately show ?thesis by blast
    qed
  qed
qed

section \<open>Freeing\<close>

lemma free_correct:
  assumes ok: "mmap_ok sys regions" and inv: "heap_inv R s A cs" and c: "c \<in> A"
  shows "\<exists>s' cs'. free sys (c + 32) s = Some s' \<and> heap_inv R s' (A - {c}) cs' \<and> keeps (A - {c}) s s' \<and>
    regions (kernel s') = regions (kernel s)"
proof -
  note T = inv_facts(1)[OF inv]
  have cD: "c \<in> A \<union> set cs" using c by blast
  have b: "unat c + 32 + unat (c_size (mem_of s) c) \<le> 2 ^ 47" by (rule tiles_facts(3)[OF T cD])
  have co: "chunk_ok (mem_of s) c" by (rule tilesD(1)[OF T cD])
  have c32: "unat (c + 32) = unat c + 32" using unat_plus[of c 32] b by simp
  have n: "unat c + 32 \<le> 2 ^ 64" using b by simp
  have st: "c_state (mem_of s) c = 0" using inv c by (simp add: heap_inv_def)
  define s1 where "s1 = asan_poison sys (c + 32) (c_size (mem_of s) c) s"
  have q: "quiet regions s s1"
    unfolding s1_def
    by (rule asan_quiet(2)[OF ok]) (use b c32 co in \<open>auto simp: chunk_ok_def intro!: dvd_add elim!: dvd_trans[rotated]\<close>)
  have i1: "heap_inv R s1 A cs" by (rule inv_quiet[OF inv q])
  define s2 where "s2 = upd (set_state c 1) s1"
  let ?R = "R - ext (mem_of s1) c"
  have i1': "heap_inv ?R s1 (A - {c}) cs" by (rule inv_release[OF i1 c])
  have same2: "same_on ?R (mem_of s1) (mem_of s2)"
    unfolding s2_def by (simp, rule setter_same(4)[OF n]) (use hdr_ext[of c "mem_of s1"] in blast)
  have i2: "heap_inv ?R s2 (A - {c}) cs" by (rule inv_frame[OF i1' same2]) (simp add: s2_def)
  have sz: "c_size (mem_of s2) c = c_size (mem_of s1) c" "c_state (mem_of s2) c = 1"
    by (simp_all add: s2_def own_fields[OF n])
  have e: "ext (mem_of s2) c = ext (mem_of s1) c" using sz(1) by (simp add: ext_def)
  have T1: "tiles (mem_of s1) (A \<union> set cs) R" by (rule inv_facts(1)[OF i1])
  have c1: "chunk_ok (mem_of s2) c" using tilesD(1)[OF T1 cD] sz(1) by (simp add: chunk_ok_def)
  have dj: "ext (mem_of s2) c \<inter> ?R = {}" "ext (mem_of s2) c \<subseteq> user_space" using e tilesD(6)[OF T1 cD] by auto
  from link_new[OF i2 c1 dj sz(2)] obtain xs ys s3 where L:
    "address_walk (mem_of s2) c 0 (freelist_head s2) = Some (last_or 0 xs, hd_or_0 ys)"
    "s3 = set_link (last_or 0 xs) c (upd (set_next_free c (hd_or_0 ys)) s2)"
    "heap_inv (?R \<union> ext (mem_of s2) c) s3 (A - {c}) (xs @ c # ys)" "keeps (A - {c}) s2 s3" "kernel s3 = kernel s2"
    "c_size (mem_of s3) c = c_size (mem_of s2) c" .
  have RR: "?R \<union> ext (mem_of s2) c = R" using tilesD(5)[OF T1 cD] e by blast
  define s4 where "s4 = (if hd_or_0 ys \<noteq> 0 then coalesce c (hd_or_0 ys) s3 else s3)"
  note C4 = coalesce_right[OF L(3), folded s4_def]
  from C4(1) obtain zs where i4: "heap_inv R s4 (A - {c}) (xs @ c # zs)" unfolding RR by blast
  define s5 where "s5 = (if last_or 0 xs \<noteq> 0 then coalesce (last_or 0 xs) c s4 else s4)"
  note C5 = coalesce_left[OF i4, folded s5_def]
  have walk: "address_walk (mem_of s1) c 0 (freelist_head s1) = Some (last_or 0 xs, hd_or_0 ys)"
  proof -
    have "c \<notin> set cs" using inv_facts(2)[OF inv] c by blast
    from walk_splits[OF i1 this] obtain xs' ys' where w: "cs = xs' @ ys'" "\<forall>x\<in>set xs'. x < c" "\<forall>y\<in>set ys'. c < y"
      "address_walk (mem_of s1) c 0 (freelist_head s1) = Some (last_or 0 xs', hd_or_0 ys')" .
    have "address_walk (mem_of s2) c 0 (freelist_head s2) = Some (last_or 0 xs', hd_or_0 ys')"
      by (rule address_walk_list)
        (use i2 w in \<open>auto simp: heap_inv_def intro: less_imp_le\<close>)
    with w(4) L(1) show ?thesis by simp
  qed
  have "free sys (c + 32) s = Some s5"
    using st walk c32
    by (auto simp: free_def already_free_def Let_def s1_def[symmetric] s5_def s4_def L(2) s2_def comp_def simp del: set_link_fields)
  moreover have "keeps (A - {c}) s s5"
  proof -
    have "keeps (A - {c}) s s1" by (rule keeps_quiet[OF inv _ q]) blast
    moreover have "keeps (A - {c}) s1 s2"
      using tilesD(5)[OF inv_facts(1)[OF i1']] unfolding keeps_def
      by (intro same_on_mono[OF same2]) (auto simp: used_def)
    ultimately show ?thesis
      using L(4) C4(2) C5(2) keeps_trans[OF inv Diff_subset] by blast
  qed
  moreover have "regions (kernel s5) = regions (kernel s)"
    using C5(3) C4(3) L(5) q by (simp add: s2_def quiet_def)
  ultimately show ?thesis using C5(1) by blast
qed

section \<open>Reallocating\<close>

lemma body_ext: "body m c \<subseteq> ext m c"
  by (auto simp: body_def ext_def)

lemma block_body:
  assumes "unat c + 32 + unat (c_size m c) \<le> 2 ^ 47" "n \<le> c_size m c"
  shows "block (c + 32) n \<subseteq> body m c" "unat (c + 32) = unat c + 32" "unat (c + 32) + unat n \<le> 2 ^ 47"
proof -
  show c32: "unat (c + 32) = unat c + 32" using unat_plus[of c 32] assms(1) by simp
  then show "block (c + 32) n \<subseteq> body m c" using assms(2) by (auto simp: block_def body_def word_le_nat_alt)
  show "unat (c + 32) + unat n \<le> 2 ^ 47" using c32 assms by (simp add: word_le_nat_alt)
qed

lemma inv_user_size:
  assumes inv: "heap_inv R s A cs" and c: "c \<in> A"
  shows "heap_inv R (upd (set_user_size c n) s) A cs" "keeps (A - {c}) s (upd (set_user_size c n) s)"
    "same_on (body (mem_of s) c) (mem_of s) (set_user_size c n (mem_of s))"
    "c_size (set_user_size c n (mem_of s)) c = c_size (mem_of s) c" "c_user_size (set_user_size c n (mem_of s)) c = n"
proof -
  note T = inv_facts(1)[OF inv]
  note H = tiles_facts(1)[OF T]
  have cD: "c \<in> A \<union> set cs" using c by blast
  have n: "unat c + 32 \<le> 2 ^ 64" using H cD by (auto simp: headers_def)
  note U = fields_upd[OF H cD]
  have "lseg (c_next_free (set_user_size c n (mem_of s))) (freelist_head s) cs 0
      = lseg (c_next_free (mem_of s)) (freelist_head s) cs 0"
    by (rule lseg_cong) (simp add: U(6))
  moreover have "tiles (set_user_size c n (mem_of s)) (A \<union> set cs) R" by (rule tiles_cong[OF T]) (simp add: U(2))
  ultimately show "heap_inv R (upd (set_user_size c n) s) A cs" using inv U(10) by (simp add: heap_inv_def)
  have "used (mem_of s) (A - {c}) \<inter> hdr c = {}"
  proof -
    have "ext (mem_of s) a \<inter> hdr c = {}" if "a \<in> A - {c}" for a
      using tilesD(2)[OF T, of a c] that cD hdr_ext[of c "mem_of s"] by blast
    then show ?thesis by (auto simp: used_def)
  qed
  from setter_same(2)[OF n this] show "keeps (A - {c}) s (upd (set_user_size c n) s)" by (simp add: keeps_def)
  show "same_on (body (mem_of s) c) (mem_of s) (set_user_size c n (mem_of s))"
    by (rule setter_same(2)[OF n]) (auto simp: body_def hdr_def)
  show "c_size (set_user_size c n (mem_of s)) c = c_size (mem_of s) c" "c_user_size (set_user_size c n (mem_of s)) c = n"
    by (simp_all add: own_fields[OF n])
qed

lemma keeps_mono: "keeps A s s' \<Longrightarrow> B \<subseteq> A \<Longrightarrow> keeps B s s'"
  unfolding keeps_def by (rule same_on_mono) (auto simp: used_def)

text \<open>The bytes of a block that \<open>realloc\<close> takes along.\<close>

definition old_bytes :: "mem \<Rightarrow> u64 \<Rightarrow> u64" where
  "old_bytes m c = (if c_user_size m c = 0 \<or> c_user_size m c > c_size m c then c_size m c else c_user_size m c)"

lemma old_bytes_le: "old_bytes m c \<le> c_size m c"
  by (simp add: old_bytes_def not_less)

text \<open>What a caller of \<open>realloc\<close> gets: a block with the old contents, or a null pointer and the old block.\<close>

definition reallocates ::
  "'k sys \<Rightarrow> ('k \<Rightarrow> nat set) \<Rightarrow> 'k rt \<Rightarrow> nat set \<Rightarrow> u64 set \<Rightarrow> u64 \<Rightarrow> u64 \<Rightarrow> u64 \<times> 'k rt \<Rightarrow> bool" where
  "reallocates sys regions s R A c n r \<longleftrightarrow>
     (case r of (q, s') \<Rightarrow>
        \<exists>R' cs'. R \<subseteq> R' \<and> R' \<subseteq> regions (kernel s') \<and> keeps (A - {c}) s s' \<and>
          (if q = 0 then keeps A s s' \<and> heap_inv R' s' A cs' \<and> refused sys s (align16 n)
           else q - 32 \<notin> A - {c} \<and> heap_inv R' s' (insert (q - 32) (A - {c})) cs' \<and>
             n \<le> c_size (mem_of s') (q - 32) \<and> c_user_size (mem_of s') (q - 32) = n \<and>
             (\<forall>i. i < old_bytes (mem_of s) c \<and> i < n \<longrightarrow> mem_of s' (q + i) = mem_of s (c + 32 + i))))"

lemma reallocates_block:
  assumes "R \<subseteq> R'" "R' \<subseteq> regions (kernel s')" "keeps (A - {c}) s s'" "q \<noteq> 0" "q - 32 \<notin> A - {c}"
    "heap_inv R' s' (insert (q - 32) (A - {c})) cs'" "n \<le> c_size (mem_of s') (q - 32)"
    "c_user_size (mem_of s') (q - 32) = n"
    "\<And>i. i < old_bytes (mem_of s) c \<Longrightarrow> i < n \<Longrightarrow> mem_of s' (q + i) = mem_of s (c + 32 + i)"
  shows "reallocates sys regions s R A c n (q, s')"
  unfolding reallocates_def prod.case by (intro exI[of _ R'] exI[of _ cs']) (use assms in simp)

lemma body_offset:
  assumes "unat c + 32 + unat (c_size m c) \<le> 2 ^ 47" "i < c_size m c"
  shows "unat (c + 32 + i) \<in> body m c" "c + 32 + i - (c + 32) = i"
proof -
  have "unat (c + 32) + unat i < 2 ^ 64" using block_body(2,3)[OF assms(1) order_refl] assms(2)
    by (simp add: word_less_nat_alt)
  then have "unat (c + 32 + i) = unat (c + 32) + unat i" by (simp add: unat_word_ariths)
  then show "unat (c + 32 + i) \<in> body m c"
    using block_body(2)[OF assms(1) order_refl] assms(2) by (simp add: body_def word_less_nat_alt)
qed simp

lemma realloc_in_place:
  assumes ok: "mmap_ok sys regions" and inv: "heap_inv R s A cs" and R: "R \<subseteq> regions (kernel s)" and c: "c \<in> A"
    and n: "n \<le> c_size (mem_of s) c"
  shows "reallocates sys regions s R A c n (c + 32, asan_unpoison sys (c + 32) n (upd (set_user_size c n) s))"
proof -
  have cD: "c \<in> A \<union> set cs" using c by blast
  note T = inv_facts(1)[OF inv]
  have b: "unat c + 32 + unat (c_size (mem_of s) c) \<le> 2 ^ 47" by (rule tiles_facts(3)[OF T cD])
  note B = block_body[OF b n]
  let ?s1 = "upd (set_user_size c n) s"
  let ?s2 = "asan_unpoison sys (c + 32) n ?s1"
  note U = inv_user_size[OF inv c, of n]
  have q: "quiet regions ?s1 ?s2" by (rule asan_quiet(1)[OF ok B(3)])
  have i2: "heap_inv R ?s2 A cs" by (rule inv_quiet[OF U(1) q])
  have k12: "keeps A ?s1 ?s2" by (rule keeps_quiet[OF U(1) order_refl q])
  have n32: "unat c + 32 \<le> 2 ^ 64" using b by simp
  have f: "c_size (mem_of ?s2) c = c_size (mem_of s) c" "c_user_size (mem_of ?s2) c = n"
    using keeps_fields[OF k12 c n32] U(4,5) by simp_all
  have "keeps (A - {c}) s ?s2" by (rule keeps_trans[OF inv _ U(2) keeps_mono[OF k12]]) auto
  moreover have "mem_of ?s2 (c + 32 + i) = mem_of s (c + 32 + i)" if "i < old_bytes (mem_of s) c" for i
  proof -
    have "i < c_size (mem_of s) c" using that old_bytes_le less_le_trans by blast
    note o = body_offset(1)[OF b this]
    have "mem_of ?s1 (c + 32 + i) = mem_of s (c + 32 + i)" using U(3) o by (simp add: same_on_def)
    moreover have "body (mem_of s) c \<subseteq> used (mem_of ?s1) A"
      using c U(4) by (auto simp: used_def ext_def body_def)
    then have "mem_of ?s2 (c + 32 + i) = mem_of ?s1 (c + 32 + i)"
      using k12 o unfolding keeps_def same_on_def by blast
    ultimately show ?thesis by simp
  qed
  moreover have "c + 32 \<noteq> 0" using B(2) by auto
  moreover have "insert c (A - {c}) = A" using c by blast
  ultimately show ?thesis
    using R q i2 f n by (intro reallocates_block[where R = R and R' = R and cs' = cs]) (auto simp: quiet_def)
qed

lemma reallocates_null:
  assumes "R \<subseteq> R'" "R' \<subseteq> regions (kernel s')" "keeps A s s'" "heap_inv R' s' A cs'" "refused sys s (align16 n)"
  shows "reallocates sys regions s R A c n (0, s')"
  unfolding reallocates_def prod.case
  by (intro exI[of _ R'] exI[of _ cs']) (use assms keeps_mono[OF assms(3)] in auto)

text \<open>Copying the start of one allocated block to another.\<close>

lemma copy_block:
  assumes inv: "heap_inv R s A cs" and cd: "c \<in> A" "d \<in> A" "c \<noteq> d"
    and n: "n \<le> c_size (mem_of s) c" "n \<le> c_size (mem_of s) d"
  defines "s' \<equiv> upd (memcpy (d + 32) (c + 32) n) s"
  shows "heap_inv R s' A cs" "B \<subseteq> A - {d} \<Longrightarrow> keeps B s s'"
    "c_size (mem_of s') d = c_size (mem_of s) d" "c_user_size (mem_of s') d = c_user_size (mem_of s) d"
    "i < n \<Longrightarrow> mem_of s' (d + 32 + i) = mem_of s (c + 32 + i)"
proof -
  note T = inv_facts(1)[OF inv]
  have D: "c \<in> A \<union> set cs" "d \<in> A \<union> set cs" using cd by auto
  note bc = tiles_facts(3)[OF T D(1)] and bd = tiles_facts(3)[OF T D(2)]
  note Bc = block_body[OF bc n(1)] and Bd = block_body[OF bd n(2)]
  have "ext (mem_of s) d \<inter> ext (mem_of s) c = {}" using tilesD(2)[OF T D(2,1)] cd(3) by blast
  then have dj: "block (d + 32) n \<inter> block (c + 32) n = {}"
    using Bc(1) Bd(1) body_ext[of "mem_of s" c] body_ext[of "mem_of s" d] by blast
  have e: "mem_of s' x = (if unat x \<in> block (d + 32) n then mem_of s (c + 32 + (x - (d + 32))) else mem_of s x)" for x
    using memcpy_effect[of "d + 32" n "c + 32" "mem_of s" x] Bc(3) Bd(3) dj by (simp add: s'_def block_def)
  have same: "same_on (- body (mem_of s) d) (mem_of s) (mem_of s')"
    using e Bd(1) by (auto simp: same_on_def)
  have fh: "freelist_head s' = freelist_head s" by (simp add: s'_def)
  note I = inv_body[OF inv cd(2) same fh]
  show "heap_inv R s' A cs" by (rule I(1))
  show "B \<subseteq> A - {d} \<Longrightarrow> keeps B s s'" by (rule I(2))
  have "same_on (hdr d) (mem_of s) (mem_of s')"
    using body_hdr[OF T D(2,2)] by (intro same_on_mono[OF same]) blast
  moreover have "unat d + 32 \<le> 2 ^ 64" using bd by simp
  ultimately show "c_size (mem_of s') d = c_size (mem_of s) d" "c_user_size (mem_of s') d = c_user_size (mem_of s) d"
    by (rule fields_same)+
  assume i: "i < n"
  have "unat (d + 32 + i) = unat (d + 32) + unat i"
    using i Bd(3) by (simp add: unat_word_ariths word_less_nat_alt)
  then have "unat (d + 32 + i) \<in> block (d + 32) n" using i by (simp add: block_def word_less_nat_alt)
  then show "mem_of s' (d + 32 + i) = mem_of s (c + 32 + i)" by (simp add: e)
qed

lemma keeps_byte:
  assumes "heap_inv R s A cs" "keeps B s s'" "c \<in> B" "B \<subseteq> A" "i < c_size (mem_of s) c"
  shows "mem_of s' (c + 32 + i) = mem_of s (c + 32 + i)"
proof -
  have "c \<in> A \<union> set cs" using assms(3,4) by blast
  from body_offset(1)[OF tiles_facts(3)[OF inv_facts(1)[OF assms(1)] this] assms(5)]
  have "unat (c + 32 + i) \<in> used (mem_of s) B" using assms(3) body_ext[of "mem_of s" c] by (auto simp: used_def)
  then show ?thesis using assms(2) by (simp add: keeps_def same_on_def)
qed

lemma realloc_move_eq:
  assumes "p \<noteq> 0" "n \<noteq> 0" "\<not> n \<le> c_size (mem_of s) (p - 32)" "malloc sys n s = Some (q, s1)" "q \<noteq> 0"
    and "k = (if old_bytes (mem_of s1) (p - 32) > n then n else old_bytes (mem_of s1) (p - 32))"
  shows "realloc sys p n s = do { s \<leftarrow> free sys p (upd (memcpy q p k) s1); Some (q, s) }"
  unfolding realloc_def Let_def assms(6) old_bytes_def[symmetric]
  using assms(1-5) by simp

lemma realloc_moved:
  assumes ok: "mmap_ok sys regions" and inv: "heap_inv R s A cs" and R: "R \<subseteq> regions (kernel s)" and c: "c \<in> A"
    and n: "\<not> n \<le> c_size (mem_of s) c"
  shows "\<exists>r. realloc sys (c + 32) n s = Some r \<and> reallocates sys regions s R A c n r"
proof -
  have D: "c \<in> A \<union> set cs" using c by blast
  note T = inv_facts(1)[OF inv]
  note bc = tiles_facts(3)[OF T D]
  have n32: "unat c + 32 \<le> 2 ^ 64" using bc by simp
  have p: "c + 32 \<noteq> 0" using block_body(2)[OF bc order_refl] by auto
  have n0: "n \<noteq> 0" using n by auto
  from malloc_correct[OF ok inv R, of n] obtain q s1 where
    m: "malloc sys n s = Some (q, s1)" "allocates sys regions s R A n (q, s1)" by auto
  show ?thesis
  proof (cases "q = 0")
    case True
    then have "realloc sys (c + 32) n s = Some (0, s1)"
      using m(1) p n n0 by (simp add: realloc_def Let_def)
    moreover from m(2) True have "reallocates sys regions s R A c n (0, s1)"
      using n0 unfolding allocates_def by (auto intro: reallocates_null)
    ultimately show ?thesis by blast
  next
    case False
    define d where "d = q - 32"
    have q: "q = d + 32" by (simp add: d_def)
    from m(2) False obtain R1 cs1 where 1: "R \<subseteq> R1" "R1 \<subseteq> regions (kernel s1)" "keeps A s s1" "d \<notin> A"
      "heap_inv R1 s1 (insert d A) cs1" "n \<le> c_size (mem_of s1) d" "c_user_size (mem_of s1) d = n"
      unfolding allocates_def by (auto simp: d_def)
    note f = keeps_fields[OF 1(3) c n32]
    define k where "k = (if old_bytes (mem_of s) c > n then n else old_bytes (mem_of s) c)"
    have k: "k \<le> n" "k \<le> c_size (mem_of s1) c" "k \<le> c_size (mem_of s1) d"
      using old_bytes_le[of "mem_of s" c] 1(6) f(1) by (auto simp: k_def)
    define s2 where "s2 = upd (memcpy (d + 32) (c + 32) k) s1"
    have cd: "c \<in> insert d A" "d \<in> insert d A" "c \<noteq> d" using c 1(4) by auto
    note C = copy_block[OF 1(5) cd k(2,3), folded s2_def]
    from free_correct[OF ok C(1) cd(1)] obtain s3 cs3 where
      3: "free sys (c + 32) s2 = Some s3" "heap_inv R1 s3 (insert d A - {c}) cs3" "keeps (insert d A - {c}) s2 s3"
      "regions (kernel s3) = regions (kernel s2)" by blast
    have cc: "c + 32 - 32 = c" by simp
    have ob: "old_bytes (mem_of s1) c = old_bytes (mem_of s) c" using f by (simp add: old_bytes_def)
    have "realloc sys (c + 32) n s = free sys (c + 32) s2 \<bind> (\<lambda>s. Some (q, s))"
      unfolding s2_def q[symmetric]
      by (rule realloc_move_eq[OF p n0 _ m(1) False]) (simp_all only: cc ob k_def n simp_thms)
    then have "realloc sys (c + 32) n s = Some (d + 32, s3)" using 3(1) q by simp
    moreover have "reallocates sys regions s R A c n (d + 32, s3)"
    proof (rule reallocates_block[where R' = R1 and cs' = cs3])
      have "keeps (A - {c}) s1 s2" by (rule C(2)) (use 1(4) in blast)
      from keeps_trans[OF inv Diff_subset keeps_mono[OF 1(3) Diff_subset] this]
      show "keeps (A - {c}) s s3"
        by (rule keeps_trans[OF inv Diff_subset]) (rule keeps_mono[OF 3(3)], blast)
      have dA: "d \<in> insert d A - {c}" using cd by blast
      have "unat d + 32 \<le> 2 ^ 64"
        using tiles_facts(1)[OF inv_facts(1)[OF C(1)]] by (auto simp: headers_def)
      from keeps_fields[OF 3(3) dA this]
      show "n \<le> c_size (mem_of s3) (d + 32 - 32)" "c_user_size (mem_of s3) (d + 32 - 32) = n"
        using C(3,4) 1(6,7) by simp_all
      fix i assume i: "i < old_bytes (mem_of s) c" "i < n"
      then have ik: "i < k" by (simp add: k_def)
      have "mem_of s3 (d + 32 + i) = mem_of s2 (d + 32 + i)"
        by (rule keeps_byte[OF C(1) 3(3) dA]) (use ik k(3) C(3) in auto)
      also have "\<dots> = mem_of s1 (c + 32 + i)" by (rule C(5)[OF ik])
      also have "\<dots> = mem_of s (c + 32 + i)"
        by (rule keeps_byte[OF inv 1(3) c order_refl]) (use i(1) old_bytes_le less_le_trans in blast)
      finally show "mem_of s3 (d + 32 + i) = mem_of s (c + 32 + i)" .
    next
      show "R1 \<subseteq> regions (kernel s3)" using 1(2) 3(4) by (simp add: s2_def)
      show "heap_inv R1 s3 (insert (d + 32 - 32) (A - {c})) cs3"
        using 3(2) cd(3) by (simp add: insert_Diff_if)
      show "d + 32 \<noteq> 0" "d + 32 - 32 \<notin> A - {c}" using False q 1(4) by simp_all
    qed (rule 1(1))
    ultimately show ?thesis by blast
  qed
qed

end
