(* ===== verification/Heap.thy ===== *)
theory Heap
  imports MallocCorrect
begin

text \<open>
  The heap as its clients see it.  The contracts of the four entry points of \<open>runtime/malloc.c\<close> are the
  properties at the end; before them, the client's interface as a locale, a program that uses the heap as
  an inductive relation (any sequence of calls, each on live blocks, and of writes to live blocks), and
  their connection: the model of \<open>malloc.c\<close> interprets the locale for every kernel that keeps \<open>mmap_ok\<close>.
\<close>

section \<open>Zeroed allocation\<close>

lemma memset_zeroed:
  assumes "unat p + unat n \<le> 2 ^ 64" "\<forall>x. unat x \<in> block p n \<longrightarrow> m x = 0"
  shows "memset p 0 n m = m"
  using memset_effect[OF assms(1), of 0 m] assms(2) by (auto simp: block_def)

lemma calloc_overflow: "m \<noteq> 0 \<and> n > (- 1 :: u64) div m \<longleftrightarrow> 2 ^ 64 \<le> unat n * unat m"
proof (cases "m = 0")
  case False
  then have m: "0 < unat m" by (simp add: unat_gt_0)
  have "unat ((- 1 :: u64) div m) = (2 ^ 64 - 1) div unat m" by (simp add: unat_div unsigned_minus_1_eq_mask mask_eq_exp_minus_1)
  then have "n > (- 1) div m \<longleftrightarrow> \<not> unat n \<le> (2 ^ 64 - 1) div unat m" by (simp only: word_less_nat_alt not_le)
  also have "\<dots> \<longleftrightarrow> \<not> unat n * unat m \<le> 2 ^ 64 - 1" by (simp only: less_eq_div_iff_mult_less_eq[OF m])
  also have "\<dots> \<longleftrightarrow> 2 ^ 64 \<le> unat n * unat m" by (simp add: not_le Suc_le_eq) linarith
  finally show ?thesis using False by blast
qed simp

lemma allocates_bound:
  assumes "allocates sys regions s R A n (p, s')" "p \<noteq> 0"
  shows "unat p + unat n \<le> 2 ^ 47" "\<forall>x. unat x \<in> block p n \<longrightarrow> mem_of s' x = 0"
proof -
  from assms obtain R' cs' where i: "heap_inv R' s' (insert (p - 32) A) cs'" "n \<le> c_size (mem_of s') (p - 32)"
    and "\<forall>x. unat x \<in> block p n \<longrightarrow> mem_of s' x = 0" unfolding allocates_def by auto
  then show "\<forall>x. unat x \<in> block p n \<longrightarrow> mem_of s' x = 0" by blast
  have "unat (p - 32) + 32 + unat (c_size (mem_of s') (p - 32)) \<le> 2 ^ 47"
    by (rule tiles_facts(3)[OF inv_facts(1)[OF i(1)]]) simp
  from block_body(3)[OF this i(2)] show "unat p + unat n \<le> 2 ^ 47" by simp
qed

lemma calloc_eq:
  assumes ok: "mmap_ok sys regions" and inv: "heap_inv R s A cs" and R: "R \<subseteq> regions (kernel s)"
  shows "calloc sys n m s = (if 2 ^ 64 \<le> unat n * unat m then Some (0, s) else malloc sys (n * m) s)"
proof (cases "2 ^ 64 \<le> unat n * unat m")
  case True
  then show ?thesis unfolding calloc_def calloc_overflow by simp
next
  case False
  obtain p s' where m: "malloc sys (n * m) s = Some (p, s')" "allocates sys regions s R A (n * m) (p, s')"
    using malloc_correct[OF ok inv R, of "n * m"] by auto
  have "p \<noteq> 0 \<Longrightarrow> memset p 0 (n * m) (mem_of s') = mem_of s'"
    using allocates_bound[OF m(2)] by (intro memset_zeroed) auto
  then show ?thesis using False m(1) unfolding calloc_def calloc_overflow Let_def by simp
qed

lemma free_null_or_free:
  assumes "heap_inv R s A cs"
  shows "free sys 0 s = Some s" "c \<in> set cs \<Longrightarrow> free sys (c + 32) s = Some s"
  using assms by (auto simp: free_def already_free_def heap_inv_def)

text \<open>
  The guard of \<open>free\<close> reads the state of the chunk: a chunk that was absorbed by its neighbour after it
  was freed is no longer marked, so freeing it again is not recognised.
\<close>

lemma absorbed_not_marked:
  assumes "heap_inv R s A (xs @ a # b # ys)"
  shows "\<not> already_free (absorb a b (mem_of s)) b"
proof -
  note H = tiles_facts(1)[OF inv_facts(1)[OF assms]]
  have "a \<in> A \<union> set (xs @ a # b # ys)" "b \<in> A \<union> set (xs @ a # b # ys)" by simp_all
  then show ?thesis by (simp add: already_free_def absorb_def Let_def fields_upd[OF H])
qed

lemma realloc_correct:
  assumes ok: "mmap_ok sys regions" and inv: "heap_inv R s A cs" and R: "R \<subseteq> regions (kernel s)" and c: "c \<in> A"
    and n: "n \<noteq> 0"
  shows "\<exists>r. realloc sys (c + 32) n s = Some r \<and> reallocates sys regions s R A c n r"
proof (cases "n \<le> c_size (mem_of s) c")
  case True
  have "c \<in> A \<union> set cs" using c by blast
  from tiles_facts(3)[OF inv_facts(1)[OF inv] this] have "c + 32 \<noteq> 0" using block_body(2)[OF _ order_refl] by fastforce
  then have "realloc sys (c + 32) n s = Some (c + 32, asan_unpoison sys (c + 32) n (upd (set_user_size c n) s))"
    using True n by (simp add: realloc_def)
  then show ?thesis using realloc_in_place[OF ok inv R c True] by blast
next
  case False
  then show ?thesis by (rule realloc_moved[OF ok inv R c])
qed

section \<open>The interface\<close>

text \<open>
  What a client relies on: \<open>wf s P\<close> holds of the states \<open>s\<close> in which \<open>P\<close> are the live blocks, and
  \<open>usable s p\<close> is the size of such a block.  Each call returns and says which blocks are live then.
\<close>

datatype (plugins only: code) heap_call = Malloc u64 | Calloc u64 u64 | Realloc u64 u64 | Free u64

fun permitted :: "u64 set \<Rightarrow> heap_call \<Rightarrow> bool" where
  "permitted P (Realloc p n) \<longleftrightarrow> p = 0 \<or> p \<in> P"
| "permitted P (Free p) \<longleftrightarrow> p = 0 \<or> p \<in> P"
| "permitted P _ \<longleftrightarrow> True"

definition live_new :: "u64 \<Rightarrow> u64 set \<Rightarrow> u64 set" where
  "live_new r P = (if r = 0 then P else insert r P)"

fun live_after :: "heap_call \<Rightarrow> u64 \<Rightarrow> u64 set \<Rightarrow> u64 set" where
  "live_after (Malloc n) r P = live_new r P"
| "live_after (Calloc n m) r P = live_new r P"
| "live_after (Realloc p n) r P =
     (if p = 0 then live_new r P else if n = 0 then P - {p} else if r = 0 then P else insert r (P - {p}))"
| "live_after (Free p) r P = P - {p}"

locale allocator =
  fixes wf :: "'s \<Rightarrow> u64 set \<Rightarrow> bool"
    and usable :: "'s \<Rightarrow> u64 \<Rightarrow> u64"
    and put :: "u64 \<Rightarrow> u8 \<Rightarrow> 's \<Rightarrow> 's"
    and alloc :: "u64 \<Rightarrow> 's \<Rightarrow> (u64 \<times> 's) option"
    and zalloc :: "u64 \<Rightarrow> u64 \<Rightarrow> 's \<Rightarrow> (u64 \<times> 's) option"
    and resize :: "u64 \<Rightarrow> u64 \<Rightarrow> 's \<Rightarrow> (u64 \<times> 's) option"
    and release :: "u64 \<Rightarrow> 's \<Rightarrow> 's option"
  assumes live: "wf s P \<Longrightarrow> p \<in> P \<Longrightarrow> p \<noteq> 0"
    and alloc: "wf s P \<Longrightarrow> \<exists>p s'. alloc n s = Some (p, s') \<and> wf s' (live_new p P)"
    and zalloc: "wf s P \<Longrightarrow> \<exists>p s'. zalloc n m s = Some (p, s') \<and> wf s' (live_new p P)"
    and release: "wf s P \<Longrightarrow> p \<in> P \<Longrightarrow> \<exists>s'. release p s = Some s' \<and> wf s' (P - {p})"
    and release_null: "release 0 s = Some s"
    and resize: "wf s P \<Longrightarrow> p \<in> P \<Longrightarrow> n \<noteq> 0 \<Longrightarrow>
      \<exists>q s'. resize p n s = Some (q, s') \<and> wf s' (if q = 0 then P else insert q (P - {p}))"
    and resize_null: "resize 0 n s = alloc n s"
    and resize_zero: "p \<noteq> 0 \<Longrightarrow> resize p 0 s = map_option (Pair 0) (release p s)"
    and put: "wf s P \<Longrightarrow> p \<in> P \<Longrightarrow> i < usable s p \<Longrightarrow> wf (put (p + i) b s) P"
begin

fun perform :: "heap_call \<Rightarrow> 's \<Rightarrow> (u64 \<times> 's) option" where
  "perform (Malloc n) s = alloc n s"
| "perform (Calloc n m) s = zalloc n m s"
| "perform (Realloc p n) s = resize p n s"
| "perform (Free p) s = map_option (Pair 0) (release p s)"

lemma release_live:
  assumes "wf s P" "p = 0 \<or> p \<in> P"
  shows "\<exists>s'. release p s = Some s' \<and> wf s' (P - {p})"
proof (cases "p = 0")
  case True
  have "0 \<notin> P" using live[OF assms(1)] by blast
  then show ?thesis using True assms(1) release_null by simp
next
  case False
  then show ?thesis using release[OF assms(1)] assms(2) by blast
qed

lemma call_returns:
  assumes "wf s P" "permitted P c"
  shows "\<exists>r s'. perform c s = Some (r, s') \<and> wf s' (live_after c r P)"
proof (cases c)
  case (Realloc p n)
  consider "p = 0" | "p \<noteq> 0" "n = 0" | "p \<in> P" "n \<noteq> 0" using assms(2) Realloc by auto
  then show ?thesis
  proof cases
    case 1
    then show ?thesis using alloc[OF assms(1)] Realloc by (simp add: resize_null)
  next
    case 2
    then show ?thesis using release[OF assms(1), of p] assms(2) Realloc by (auto simp: resize_zero)
  next
    case 3
    then show ?thesis using resize[OF assms(1) 3] live[OF assms(1)] Realloc by (auto split: if_splits)
  qed
next
  case (Free p)
  then show ?thesis using release_live[OF assms(1), of p] assms(2) by auto
qed (use alloc[OF assms(1)] zalloc[OF assms(1)] in auto)

end

section \<open>Programs that use the heap\<close>

text \<open>
  The pointers \<open>P\<close> are the live blocks: the allocated chunks are the headers in front of them, and each
  has at least the bytes it was asked for.
\<close>

definition heap_wf :: "'k sys \<Rightarrow> ('k \<Rightarrow> nat set) \<Rightarrow> 'k rt \<Rightarrow> u64 set \<Rightarrow> bool" where
  "heap_wf sys regions s P \<longleftrightarrow> mmap_ok sys regions \<and>
     (\<exists>R cs. heap_inv R s ((\<lambda>p. p - 32) ` P) cs \<and> R \<subseteq> regions (kernel s)) \<and>
     (\<forall>p\<in>P. c_user_size (mem_of s) (p - 32) \<le> c_size (mem_of s) (p - 32))"

definition usable :: "'k rt \<Rightarrow> u64 \<Rightarrow> u64" where
  "usable s p = c_user_size (mem_of s) (p - 32)"

definition put :: "u64 \<Rightarrow> u8 \<Rightarrow> 'k rt \<Rightarrow> 'k rt" where
  "put a b = upd (\<lambda>m. m(a := b))"

fun heap_perform :: "'k sys \<Rightarrow> heap_call \<Rightarrow> 'k rt \<Rightarrow> (u64 \<times> 'k rt) option" where
  "heap_perform sys (Malloc n) s = malloc sys n s"
| "heap_perform sys (Calloc n m) s = calloc sys n m s"
| "heap_perform sys (Realloc p n) s = realloc sys p n s"
| "heap_perform sys (Free p) s = map_option (Pair 0) (free sys p s)"

text \<open>A run of a program from an empty heap: permitted calls, and writes to bytes of live blocks.\<close>

inductive heap_session :: "'k sys \<Rightarrow> 'k rt \<Rightarrow> u64 set \<Rightarrow> bool" for sys where
  start: "freelist_head s = 0 \<Longrightarrow> heap_session sys s {}"
| call: "heap_session sys s P \<Longrightarrow> permitted P c \<Longrightarrow> heap_perform sys c s = Some (r, s') \<Longrightarrow>
    heap_session sys s' (live_after c r P)"
| store: "heap_session sys s P \<Longrightarrow> p \<in> P \<Longrightarrow> i < usable s p \<Longrightarrow> heap_session sys (put (p + i) b s) P"

lemma header_image:
  "(\<lambda>p. p - 32) ` insert p P = insert (p - 32) ((\<lambda>p. p - 32) ` P)"
  "(\<lambda>p. p - 32) ` (P - {p}) = (\<lambda>p. p - 32) ` P - {p - (32 :: u64)}"
  "p - 32 \<in> (\<lambda>p. p - 32) ` P \<longleftrightarrow> p \<in> P"
  by (auto simp: image_iff)

lemma heap_wfE:
  assumes "heap_wf sys regions s P"
  obtains R cs where "mmap_ok sys regions" "heap_inv R s ((\<lambda>p. p - 32) ` P) cs" "R \<subseteq> regions (kernel s)"
    "\<And>p. p \<in> P \<Longrightarrow> c_user_size (mem_of s) (p - 32) \<le> c_size (mem_of s) (p - 32)"
  using assms unfolding heap_wf_def by blast

lemma live_bound:
  assumes "heap_inv R s ((\<lambda>p. p - 32) ` P) cs" "p \<in> P"
  shows "unat (p - 32) + 32 + unat (c_size (mem_of s) (p - 32)) \<le> 2 ^ 47" "unat p = unat (p - 32) + 32"
    "p \<noteq> 0" "16 dvd unat p" "ext (mem_of s) (p - 32) \<subseteq> R"
proof -
  note T = inv_facts(1)[OF assms(1)]
  have D: "p - 32 \<in> (\<lambda>p. p - 32) ` P \<union> set cs" using assms(2) by blast
  show b: "unat (p - 32) + 32 + unat (c_size (mem_of s) (p - 32)) \<le> 2 ^ 47" by (rule tiles_facts(3)[OF T D])
  from block_body(2)[OF b order_refl] show u: "unat p = unat (p - 32) + 32" by simp
  then show "p \<noteq> 0" by auto
  show "16 dvd unat p" unfolding u using tilesD(1)[OF T D] by (auto simp: chunk_ok_def intro!: dvd_add)
  show "ext (mem_of s) (p - 32) \<subseteq> R" by (rule tilesD(5)[OF T D])
qed

text \<open>Blocks that are kept keep their sizes.\<close>

lemma keeps_sizes:
  assumes "heap_inv R s ((\<lambda>p. p - 32) ` P) cs" "keeps ((\<lambda>p. p - 32) ` Q) s s'" "Q \<subseteq> P"
    and "\<And>p. p \<in> P \<Longrightarrow> c_user_size (mem_of s) (p - 32) \<le> c_size (mem_of s) (p - 32)" "p \<in> Q"
  shows "c_user_size (mem_of s') (p - 32) \<le> c_size (mem_of s') (p - 32)"
proof -
  have p: "p \<in> P" using assms(3,5) by blast
  have "unat (p - 32) + 32 \<le> 2 ^ 64" using live_bound(1)[OF assms(1) p] by simp
  from keeps_fields(1,2)[OF assms(2) imageI[OF assms(5)] this] show ?thesis using assms(4)[OF p] by simp
qed

lemma allocates_wf:
  assumes "heap_wf sys regions s P" "heap_inv R s ((\<lambda>p. p - 32) ` P) cs"
    and "allocates sys regions s R ((\<lambda>p. p - 32) ` P) n (p, s')"
  shows "heap_wf sys regions s' (live_new p P)"
proof -
  note W = assms(1)[unfolded heap_wf_def]
  have "\<exists>R' cs'. R' \<subseteq> regions (kernel s') \<and> keeps ((\<lambda>p. p - 32) ` P) s s' \<and>
    heap_inv R' s' ((\<lambda>p. p - 32) ` live_new p P) cs' \<and>
    (p \<noteq> 0 \<longrightarrow> c_user_size (mem_of s') (p - 32) \<le> c_size (mem_of s') (p - 32))"
    using assms(3) by (cases "p = 0") (auto simp: allocates_def live_new_def)
  then obtain R' cs' where r: "R' \<subseteq> regions (kernel s')" "keeps ((\<lambda>p. p - 32) ` P) s s'"
    "heap_inv R' s' ((\<lambda>p. p - 32) ` live_new p P) cs'"
    "p \<noteq> 0 \<longrightarrow> c_user_size (mem_of s') (p - 32) \<le> c_size (mem_of s') (p - 32)" by blast
  have "q \<in> P \<Longrightarrow> c_user_size (mem_of s') (q - 32) \<le> c_size (mem_of s') (q - 32)" for q
    by (rule keeps_sizes[OF assms(2) r(2) order_refl]) (use W in auto)
  then show ?thesis using W r unfolding heap_wf_def live_new_def by (auto split: if_splits)
qed

lemma malloc_wf:
  assumes "heap_wf sys regions s P"
  shows "\<exists>p s'. malloc sys n s = Some (p, s') \<and> heap_wf sys regions s' (live_new p P)"
proof -
  from heap_wfE[OF assms] obtain R cs where h: "mmap_ok sys regions" "heap_inv R s ((\<lambda>p. p - 32) ` P) cs"
    "R \<subseteq> regions (kernel s)" .
  from malloc_correct[OF this, of n] obtain p s' where
    "malloc sys n s = Some (p, s')" "allocates sys regions s R ((\<lambda>p. p - 32) ` P) n (p, s')" by auto
  then show ?thesis using allocates_wf[OF assms h(2)] by blast
qed

lemma calloc_wf:
  assumes "heap_wf sys regions s P"
  shows "\<exists>p s'. calloc sys n m s = Some (p, s') \<and> heap_wf sys regions s' (live_new p P)"
proof -
  from heap_wfE[OF assms] obtain R cs where "mmap_ok sys regions" "heap_inv R s ((\<lambda>p. p - 32) ` P) cs"
    "R \<subseteq> regions (kernel s)" .
  from calloc_eq[OF this, of n m] show ?thesis
    using malloc_wf[OF assms, of "n * m"] assms by (auto simp: live_new_def)
qed

lemma free_wf:
  assumes "heap_wf sys regions s P" "p \<in> P"
  shows "\<exists>s'. free sys p s = Some s' \<and> heap_wf sys regions s' (P - {p})"
proof -
  from heap_wfE[OF assms(1)] obtain R cs where h: "mmap_ok sys regions" "heap_inv R s ((\<lambda>p. p - 32) ` P) cs"
    "R \<subseteq> regions (kernel s)" and u: "\<And>p. p \<in> P \<Longrightarrow> c_user_size (mem_of s) (p - 32) \<le> c_size (mem_of s) (p - 32)" by blast
  from free_correct[OF h(1,2) imageI[OF assms(2)]] obtain s' cs' where f: "free sys p s = Some s'"
    "heap_inv R s' ((\<lambda>p. p - 32) ` (P - {p})) cs'" "keeps ((\<lambda>p. p - 32) ` (P - {p})) s s'"
    "regions (kernel s') = regions (kernel s)" by (auto simp: header_image)
  have "q \<in> P - {p} \<Longrightarrow> c_user_size (mem_of s') (q - 32) \<le> c_size (mem_of s') (q - 32)" for q
    by (rule keeps_sizes[OF h(2) f(3) Diff_subset u])
  then show ?thesis using f h unfolding heap_wf_def by (metis (no_types, lifting))
qed

lemma realloc_wf:
  assumes "heap_wf sys regions s P" "p \<in> P" "n \<noteq> 0"
  shows "\<exists>q s'. realloc sys p n s = Some (q, s') \<and> heap_wf sys regions s' (if q = 0 then P else insert q (P - {p}))"
proof -
  from heap_wfE[OF assms(1)] obtain R cs where h: "mmap_ok sys regions" "heap_inv R s ((\<lambda>p. p - 32) ` P) cs"
    "R \<subseteq> regions (kernel s)" and u: "\<And>p. p \<in> P \<Longrightarrow> c_user_size (mem_of s) (p - 32) \<le> c_size (mem_of s) (p - 32)" by blast
  from realloc_correct[OF h imageI[OF assms(2)] assms(3)] obtain q s' where r: "realloc sys p n s = Some (q, s')"
    "reallocates sys regions s R ((\<lambda>p. p - 32) ` P) (p - 32) n (q, s')" by auto
  show ?thesis
  proof (cases "q = 0")
    case True
    with r(2) obtain R' cs' where f: "R' \<subseteq> regions (kernel s')" "keeps ((\<lambda>p. p - 32) ` P) s s'"
      "heap_inv R' s' ((\<lambda>p. p - 32) ` P) cs'" unfolding reallocates_def by auto
    have "a \<in> P \<Longrightarrow> c_user_size (mem_of s') (a - 32) \<le> c_size (mem_of s') (a - 32)" for a
      by (rule keeps_sizes[OF h(2) f(2) order_refl u])
    then show ?thesis using True r(1) f h(1) unfolding heap_wf_def by auto
  next
    case False
    with r(2) obtain R' cs' where f: "R' \<subseteq> regions (kernel s')" "keeps ((\<lambda>p. p - 32) ` (P - {p})) s s'"
      "heap_inv R' s' ((\<lambda>p. p - 32) ` insert q (P - {p})) cs'"
      "c_user_size (mem_of s') (q - 32) \<le> c_size (mem_of s') (q - 32)"
      unfolding reallocates_def by (auto simp: header_image)
    have "a \<in> P - {p} \<Longrightarrow> c_user_size (mem_of s') (a - 32) \<le> c_size (mem_of s') (a - 32)" for a
      by (rule keeps_sizes[OF h(2) f(2) Diff_subset u])
    then show ?thesis using False r(1) f h(1) unfolding heap_wf_def by auto
  qed
qed

lemma put_wf:
  assumes "heap_wf sys regions s P" "p \<in> P" "i < usable s p"
  shows "heap_wf sys regions (put (p + i) b s) P"
proof -
  from heap_wfE[OF assms(1)] obtain R cs where h: "mmap_ok sys regions" "heap_inv R s ((\<lambda>p. p - 32) ` P) cs"
    "R \<subseteq> regions (kernel s)" and u: "\<And>p. p \<in> P \<Longrightarrow> c_user_size (mem_of s) (p - 32) \<le> c_size (mem_of s) (p - 32)" by blast
  have i: "i < c_size (mem_of s) (p - 32)" using assms(3) u[OF assms(2)] by (simp add: usable_def)
  have "unat (p - 32 + 32 + i) \<in> body (mem_of s) (p - 32)"
    by (rule body_offset(1)[OF live_bound(1)[OF h(2) assms(2)] i])
  then have x: "unat (p + i) \<in> body (mem_of s) (p - 32)" by simp
  then have same: "same_on (- body (mem_of s) (p - 32)) (mem_of s) (mem_of (put (p + i) b s))"
    by (auto simp: same_on_def put_def)
  have inv: "heap_inv R (put (p + i) b s) ((\<lambda>p. p - 32) ` P) cs"
    by (rule inv_body(1)[OF h(2) imageI[OF assms(2)] same]) (simp add: put_def)
  have "c_user_size (mem_of (put (p + i) b s)) (q - 32) \<le> c_size (mem_of (put (p + i) b s)) (q - 32)" if q: "q \<in> P" for q
  proof -
    have "body (mem_of s) (p - 32) \<inter> hdr (q - 32) = {}"
      by (rule body_hdr[OF inv_facts(1)[OF h(2)]]) (use assms(2) q in auto)
    then have "same_on (hdr (q - 32)) (mem_of s) (mem_of (put (p + i) b s))" by (intro same_on_mono[OF same]) blast
    moreover have "unat (q - 32) + 32 \<le> 2 ^ 64" using live_bound(1)[OF h(2) q] by simp
    ultimately show ?thesis using fields_same(1,2) u[OF q] by metis
  qed
  then show ?thesis using h inv unfolding heap_wf_def by (auto simp: put_def)
qed

interpretation heap: allocator "heap_wf sys regions" usable put "malloc sys" "calloc sys" "realloc sys" "free sys"
  for sys regions
proof
  fix s P p assume "heap_wf sys regions s P" "p \<in> P"
  then show "p \<noteq> 0" using live_bound(3) by (blast elim: heap_wfE)
qed (rule malloc_wf calloc_wf free_wf realloc_wf put_wf, assumption+ | simp add: free_def realloc_def)+

lemma heap_perform_eq: "heap_perform sys c s = heap.perform sys c s"
  by (cases c) simp_all

lemma session_wf:
  assumes "heap_session sys s P" "mmap_ok sys regions"
  shows "heap_wf sys regions s P"
  using assms(1)
proof (induction rule: heap_session.induct)
  case (start s)
  have "heap_inv {} s {} []" using start by (simp add: heap_inv_def tiles_def)
  then show ?case using assms(2) unfolding heap_wf_def by auto
next
  case (call s P c r s')
  then show ?case using heap.call_returns[OF call.IH call.hyps(2)] by (auto simp: heap_perform_eq)
qed (rule put_wf)

section \<open>Properties\<close>

text \<open>A kernel that hands out consecutive pages and grants no fixed mappings; its state is the pages given.\<close>

fun sample_kernel :: "nat sys" where
  "sample_kernel k (MapAnon n) =
     (let k' = k + (unat n + 4095) div 4096 in if k' < 2 ^ 30 then (of_nat (4096 * (k + 1)), k') else (- 1, k))"
| "sample_kernel k (MapFixed a n) = (- 1, k)"

definition sample_regions :: "nat \<Rightarrow> nat set" where
  "sample_regions k = {4096 ..< 4096 * (k + 1)}"

lemma unat_of_small: "m < 2 ^ 43 \<Longrightarrow> unat (of_nat m :: u64) = m"
  by (simp add: unsigned_of_nat take_bit_nat_eq_self)

lemma sint_of_small: "m < 2 ^ 43 \<Longrightarrow> \<not> sint (of_nat m :: u64) < 0"
proof -
  assume "m < 2 ^ 43"
  then have "sint (word_of_int (int m) :: u64) = int m"
    unfolding sint_sbintrunc' by (simp add: signed_take_bit_int_eq_self)
  then show ?thesis by simp
qed

lemma sample_kernel_ok: "mmap_ok sample_kernel sample_regions"
proof -
  have "case sample_kernel k (MapAnon n) of (p, k') \<Rightarrow>
      if sint p < 0 then sample_regions k' = sample_regions k
      else 0 < unat p \<and> 4096 dvd unat p \<and> block p n \<subseteq> user_space \<and> block p n \<inter> sample_regions k = {} \<and>
        sample_regions k \<union> block p n \<subseteq> sample_regions k'" for k n
  proof -
    define k' where "k' = k + (unat n + 4095) div 4096"
    have n: "unat n \<le> (unat n + 4095) div 4096 * 4096"
      using div_mult_mod_eq[of "unat n + 4095" 4096] mod_less_divisor[of 4096 "unat n + 4095"] by linarith
    show ?thesis
    proof (cases "k' < 2 ^ 30")
      case True
      define p :: u64 where "p = of_nat (4096 * (k + 1))"
      have b: "4096 * (k + 1) < 2 ^ 43" using True by (simp add: k'_def)
      then have p: "unat p = 4096 * (k + 1)" unfolding p_def by (intro unat_of_small) linarith
      have e: "4096 * (k + 1) + unat n \<le> 4096 * (k' + 1)" using n by (simp add: k'_def)
      have pos: "\<not> sint p < 0" unfolding p_def by (rule sint_of_small[OF b])
      have "sample_kernel k (MapAnon n) = (p, k')" using True by (simp add: k'_def p_def)
      moreover have "4096 * (k' + 1) < 2 ^ 43" using True by simp
      then have "block p n \<subseteq> user_space" using e by (auto simp: block_def p user_space_def)
      ultimately show ?thesis using pos p e by (auto simp: sample_regions_def block_def)
    next
      case False
      then have "sample_kernel k (MapAnon n) = (- 1, k)" by (simp add: k'_def)
      then show ?thesis by simp
    qed
  qed
  then show ?thesis by (simp add: mmap_ok_def)
qed

definition empty_heap :: "nat rt" where
  "empty_heap = \<lparr>mem_of = (\<lambda>_. 0), freelist_head = 0, g_asan_inited = 0, kernel = 0\<rparr>"

lemma empty_heap_inv: "heap_inv {} empty_heap {} []"
  by (simp add: heap_inv_def empty_heap_def tiles_def)

text \<open>One allocated chunk of 16 bytes, in the first page.\<close>

definition small_heap :: "nat rt" where
  "small_heap = \<lparr>mem_of = set_size 4096 16 (\<lambda>_. 0), freelist_head = 0, g_asan_inited = 0, kernel = 1\<rparr>"

lemma load64_zero: "load64 (\<lambda>_. 0) a = 0"
  by (simp add: load64_def upt_conv_Cons)

lemma small_heap_inv: "heap_inv {4096 ..< 4144} small_heap {4096} []"
proof -
  have "c_size (mem_of small_heap) 4096 = 16" "c_state (mem_of small_heap) 4096 = 0"
    by (simp_all add: small_heap_def own_fields) (simp add: c_state_def load64_zero)
  then show ?thesis
    by (auto simp: heap_inv_def tiles_def chunk_ok_def ext_def user_space_def) (simp_all add: small_heap_def)
qed

text \<open>
  C28.  \<open>malloc\<close> and \<open>calloc\<close> return.  If the kernel grants the memory they ask for (and the size does not
  overflow), the result is a 16-byte aligned block of at least the size asked for, all of it zero, that no
  allocated block shares a byte with, recorded with its exact size; otherwise a null pointer.  Either way
  every allocated block keeps its bytes and the heap keeps its invariant.
\<close>

theorem malloc_calloc_allocate:
  assumes "mmap_ok sys regions" "heap_inv R s A cs" "R \<subseteq> regions (kernel s)"
  shows "(\<exists>r. malloc sys n s = Some r \<and> allocates sys regions s R A n r) \<and>
    (if 2 ^ 64 \<le> unat k * unat m then calloc sys k m s = Some (0, s)
     else \<exists>r. calloc sys k m s = Some r \<and> allocates sys regions s R A (k * m) r)"
  using malloc_correct[OF assms, of n] malloc_correct[OF assms, of "k * m"] calloc_eq[OF assms, of k m] by simp

theorem malloc_calloc_witness:
  "(\<exists>r. malloc sample_kernel 100 empty_heap = Some r \<and> allocates sample_kernel sample_regions empty_heap {} {} 100 r) \<and>
   calloc sample_kernel (2 ^ 33) (2 ^ 33) empty_heap = Some (0, empty_heap) \<and>
   (\<exists>r. calloc sample_kernel 10 8 empty_heap = Some r \<and> allocates sample_kernel sample_regions empty_heap {} {} 80 r)"
  using malloc_calloc_allocate[OF sample_kernel_ok empty_heap_inv, of 100 "2 ^ 33" "2 ^ 33"]
    malloc_calloc_allocate[OF sample_kernel_ok empty_heap_inv, of 100 10 8] by simp

text \<open>
  C39.  \<open>free\<close> of an allocated block returns, takes the block out of the allocated ones and leaves every
  other allocated block as it was; of a null pointer, or of a chunk on the free list (a block freed before),
  it changes nothing.  \<open>realloc\<close> of a null pointer is \<open>malloc\<close> and to 0 bytes is \<open>free\<close>; otherwise it
  returns a block of the new size that begins with the old contents, or, only if the kernel refused, a null
  pointer and the old block untouched.
\<close>

theorem free_realloc_correct:
  assumes "mmap_ok sys regions" "heap_inv R s A cs" "R \<subseteq> regions (kernel s)" "c \<in> A"
  shows "free sys 0 s = Some s \<and> (\<forall>d\<in>set cs. free sys (d + 32) s = Some s) \<and>
    (\<exists>s' cs'. free sys (c + 32) s = Some s' \<and> heap_inv R s' (A - {c}) cs' \<and> keeps (A - {c}) s s') \<and>
    realloc sys 0 n s = malloc sys n s \<and>
    (if n = 0 then realloc sys (c + 32) n s = map_option (Pair 0) (free sys (c + 32) s)
     else \<exists>r. realloc sys (c + 32) n s = Some r \<and> reallocates sys regions s R A c n r)"
proof -
  have "c + 32 \<noteq> 0"
  proof -
    have "c + 32 \<in> (\<lambda>c. c + 32) ` A" using assms(4) by blast
    moreover have "heap_inv R s ((\<lambda>p. p - 32) ` (\<lambda>c. c + 32) ` A) cs" using assms(2) by (simp add: image_image)
    ultimately show ?thesis using live_bound(3) by blast
  qed
  then have "n = 0 \<longrightarrow> realloc sys (c + 32) n s = map_option (Pair 0) (free sys (c + 32) s)"
    "realloc sys 0 n s = malloc sys n s" by (simp_all add: realloc_def)
  then show ?thesis
    using free_null_or_free[OF assms(2)] free_correct[OF assms(1,2,4)] realloc_correct[OF assms] by auto
qed

theorem free_realloc_witness:
  "(\<exists>s' cs'. free sample_kernel 4128 small_heap = Some s' \<and> heap_inv {4096 ..< 4144} s' {} cs' \<and> keeps {} small_heap s') \<and>
   (\<exists>r. realloc sample_kernel 4128 100 small_heap = Some r \<and>
     reallocates sample_kernel sample_regions small_heap {4096 ..< 4144} {4096} 4096 100 r)"
proof -
  have "{4096 ..< 4144} \<subseteq> sample_regions (kernel small_heap)" by (simp add: sample_regions_def small_heap_def)
  from free_realloc_correct[OF sample_kernel_ok small_heap_inv this, of 4096 100] show ?thesis by simp
qed

text \<open>
  C40.  In every state a program can reach by permitted calls and by writes to its live blocks, starting
  with an empty heap, every permitted call returns; the live blocks are aligned, lie in memory the kernel
  has mapped and do not overlap.
\<close>

theorem heap_sessions_safe:
  assumes "mmap_ok sys regions" "heap_session sys s P"
  shows "(\<forall>c. permitted P c \<longrightarrow> heap_perform sys c s \<noteq> None) \<and>
    (\<forall>p\<in>P. p \<noteq> 0 \<and> 16 dvd unat p \<and> block p (usable s p) \<subseteq> regions (kernel s)) \<and>
    (\<forall>p\<in>P. \<forall>q\<in>P. p \<noteq> q \<longrightarrow> block p (usable s p) \<inter> block q (usable s q) = {})"
proof -
  have wf: "heap_wf sys regions s P" by (rule session_wf[OF assms(2,1)])
  from heap_wfE[OF wf] obtain R cs where h: "mmap_ok sys regions" "heap_inv R s ((\<lambda>p. p - 32) ` P) cs"
      "R \<subseteq> regions (kernel s)"
    and u: "\<And>p. p \<in> P \<Longrightarrow> c_user_size (mem_of s) (p - 32) \<le> c_size (mem_of s) (p - 32)" by blast
  have e: "block p (usable s p) \<subseteq> ext (mem_of s) (p - 32)" if "p \<in> P" for p
    using block_body(1)[OF live_bound(1)[OF h(2) that] u[OF that]] body_ext[of "mem_of s" "p - 32"]
    by (auto simp: usable_def)
  have "block p (usable s p) \<inter> block q (usable s q) = {}" if "p \<in> P" "q \<in> P" "p \<noteq> q" for p q
  proof -
    have "ext (mem_of s) (p - 32) \<inter> ext (mem_of s) (q - 32) = {}"
      by (rule tilesD(2)[OF inv_facts(1)[OF h(2)]]) (use that in auto)
    then show ?thesis using e[OF that(1)] e[OF that(2)] by blast
  qed
  moreover have "permitted P c \<Longrightarrow> heap_perform sys c s \<noteq> None" for c
    using heap.call_returns[OF wf, of c] by (auto simp: heap_perform_eq)
  moreover have "p \<in> P \<Longrightarrow> p \<noteq> 0 \<and> 16 dvd unat p \<and> block p (usable s p) \<subseteq> regions (kernel s)" for p
    using live_bound(3,4,5)[OF h(2), of p] e[of p] h(3) by blast
  ultimately show ?thesis by blast
qed

theorem heap_sessions_witness:
  "\<exists>p s. heap_perform sample_kernel (Malloc 100) empty_heap = Some (p, s) \<and>
     (\<exists>q s'. heap_perform sample_kernel (Realloc p 4000) s = Some (q, s'))"
proof -
  have 0: "heap_session sample_kernel empty_heap {}" by (rule heap_session.start) (simp add: empty_heap_def)
  have "heap_perform sample_kernel (Malloc 100) empty_heap \<noteq> None"
    using heap_sessions_safe[OF sample_kernel_ok 0, THEN conjunct1, THEN spec, of "Malloc 100"] by simp
  then obtain p s where 1: "heap_perform sample_kernel (Malloc 100) empty_heap = Some (p, s)" by fast
  then have "heap_session sample_kernel s (live_new p {})"
    using heap_session.call[OF 0, of "Malloc 100"] by simp
  moreover have "permitted (live_new p {}) (Realloc p 4000)" by (simp add: live_new_def)
  ultimately have "heap_perform sample_kernel (Realloc p 4000) s \<noteq> None"
    using heap_sessions_safe[OF sample_kernel_ok, THEN conjunct1, THEN spec] by blast
  with 1 show ?thesis by fast
qed

end
