(* ===== verification/Spec2Isabelle.thy ===== *)
theory Spec2Isabelle
  imports Opt Int128 Sha256 A64Limm A64Flow Heap
begin

text \<open>
  A verification library for fakecc, a C compiler written in C together with its linker and runtime
  library.  A source file is parsed, checked, lowered to a flat intermediate representation
  (\<open>include/fakecc/ir.h\<close>), optimised and register-allocated (\<open>opt.c\<close> and the passes it calls), and
  turned into machine code by one of two code generators; the AArch64 one emits through the encoder
  \<open>a64.c\<close>.  Compiled programs link against \<open>runtime/\<close>, which is written in the compiler's own dialect.
  The library covers the middle end completely, the AArch64 encoder, the hash of the Mach-O signature and
  two parts of the runtime.  Paths are relative to \<open>src/\<close>, so \<open>cfg.c\<close> is the repository's \<open>src/cfg.c\<close>.

  \<^bold>\<open>Conventions.\<close>  A C integer of fixed width is a word of that width where its arithmetic matters
  and an \<open>int\<close> where the code uses it as an index or id (\<open>Prelude\<close>).  A C struct is a record with
  the fields the code uses, an enum a datatype.  Stateful code passes its state explicitly; a definition
  has the name of the C function, and a loop that deserves a lemma is a definition of its own.  A counting
  loop is a fold over \<open>[lo..<hi]\<close>; a loop that needs an argument to end is a \<open>function\<close> with a
  measure or a \<open>partial_function (option)\<close>, where not returning is \<open>None\<close>, and the properties then
  prove that it returns.  There is no fuel.  An allocation that fails, \<open>die\<close> and a \<open>NULL\<close> result are
  \<open>None\<close> of an option.

  \<^bold>\<open>Middle end.\<close>
  \<^item> \<open>IR\<close>: opcodes, instructions and functions of \<open>ir.h\<close>.
  \<^item> \<open>Cfg\<close>, \<open>Rpo\<close> (\<open>cfg.c\<close>): \<open>cfg_build\<close> cuts the instruction array into blocks in two passes and
    \<open>cfg_rpo\<close> numbers them.  The blocks partition the array, the edges are its control flow, and the
    numbering is a reverse postorder of the reachable blocks (C1 to C3).
  \<^item> \<open>Dominance\<close>, \<open>Domtree\<close> (\<open>domtree.c\<close>): dominance by walks as the specification, in a locale of
    rooted graphs; the iteration of Cooper, Harvey and Kennedy ends and computes immediate dominators, the
    query decides dominance and the frontiers are the dominance frontiers (C4 to C6).
  \<^item> \<open>ScalarOpt\<close> (\<open>scalar_opt.c\<close>): folding and peepholes preserve the value of every instruction, the
    cleanup loop ends, dead-code elimination and renumbering keep what is needed (C7 to C11).
  \<^item> \<open>RegClass\<close>, \<open>Bitset\<close>, \<open>Liveness\<close>, \<open>Interf\<close>, \<open>Coloring\<close>, \<open>RegAlloc\<close> (\<open>regalloc.c\<close> and the register
    files of its headers): bit sets packed in words refine sets, liveness is a path property, interference
    covers simultaneous liveness, the colouring is proper, and execution on registers and spill slots
    simulates execution on values (C12 to C18).  \<open>InstSem\<close> is the meaning of an instruction these
    semantic properties are parametric in.
  \<^item> \<open>Phi\<close>, \<open>Mem2reg\<close>, \<open>Renaming\<close>, \<open>Promote\<close>, \<open>PromoteSound\<close> (\<open>mem2reg.c\<close>): phis are placed on the
    iterated frontier, and every run of the promoted code is a run of the original (C19, C20).
  \<^item> \<open>Opt\<close> (\<open>opt.c\<close>): the pipeline of a module over these passes; debug markers are taken out before
    allocation and put back after it, and every function of the result has a sound allocation (C25, C26).

  \<^bold>\<open>Machine code and hashing.\<close>
  \<^item> \<open>A64\<close> (\<open>a64.c\<close>): the encoder, an assembler being its bytes, labels and fixups.  \<open>A64Isa\<close> is an
    independent reference, the decoding tables and the semantics of the instructions it can emit.
    \<open>A64Sound\<close> decodes every emitted word (C29, C30), \<open>A64Exec\<close> and \<open>A64Limm\<close> execute what is
    emitted for constants, shifts, arithmetic, comparisons and logical immediates (C31 to C35), \<open>A64Fix\<close>
    has the invariant of labels and fixups and the correctness of \<open>a64_resolve\<close> (C36, C37), and
    \<open>A64Flow\<close> runs the resolved conditional branches (C38).
  \<^item> \<open>Sha256\<close> (\<open>sha256.c\<close>): the incremental hash against FIPS 180-4 (C27).

  \<^bold>\<open>Runtime.\<close>
  \<^item> \<open>Int128\<close> (\<open>runtime/int128.c\<close>): division by shift and subtract, and the conversions to and from
    floating point with rounding, truncation and the patterns for exceptional values (C21 to C24).
  \<^item> \<open>RtMemory\<close>, \<open>Malloc\<close> (\<open>runtime/malloc.c\<close>, with \<open>memcpy\<close> and \<open>memset\<close> of \<open>runtime/string.c\<close> and
    the shadow memory of \<open>runtime/sanitizer.c\<close>): the first-fit allocator with its headers in the bytes
    of the memory it manages.  \<open>MallocInv\<close> has the invariant (allocated and free chunks tile the memory
    obtained, the list is sorted and holds the marked chunks), \<open>MallocCorrect\<close> the correctness of each
    entry point, and \<open>Heap\<close> the client's interface, its contracts and the safety of every sequence of
    calls (C28, C39, C40).

  \<^bold>\<open>Interfaces.\<close>  What one part relies on in another is a locale, interpreted on the model by the part
  that provides it: bit sets for liveness, the rooted graph of a control-flow graph for dominance, the
  allocator for programs that use the heap, among others.

  \<^bold>\<open>Parameters and hypotheses.\<close>  The \<open>mmap\<close> system call is a parameter \<open>sys\<close>; \<open>mmap_ok\<close> says that an
  anonymous mapping is refused or is a fresh range of pages where user mappings are (below \<open>2^47\<close> and
  outside the sanitizer's shadow), and that a fixed one is refused or placed as asked.  The meaning of an
  IR instruction is a parameter of the semantic properties of the passes.  Well-formedness of the
  input of a pass (ids in range, terminated blocks) is a hypothesis where a pass takes it for granted.

  \<^bold>\<open>Not modelled.\<close>  The lexer, preprocessor, parser, semantic analysis and the lowering to the IR
  (\<open>lexer.c\<close>, \<open>parser.c\<close>, \<open>sema.c\<close>, \<open>ir.c\<close>): a front end of some thirty thousand lines whose correctness
  needs a semantics of the dialect.  Instruction selection (\<open>codegen.c\<close>, \<open>cg64.c\<close>) and the x86 encoder.
  Object-file writers, linkers, text assemblers and debug information: file formats.  The driver and the
  parts of the runtime that are system calls.  Decimal floating point.  \<open>v0/\<close> is a frozen copy of the
  compiler.  Concurrency: the compiler has one thread, and the allocator takes no lock.
\<close>

end
